(* ===== verification/Prelude.thy ===== *)
theory Prelude
  imports Main "HOL-Library.Word"
begin

text \<open>
  Shared vocabulary of the IBNOS development.

  \<^item> Names for the C integer types of the kernel: an unsigned \<open>n\<close>-bit integer is an
    \<open>n word\<close>, so \<open>+\<close>, \<open>-\<close> and \<open>*\<close> wrap exactly as the compiled code does.
    Object addresses and list nodes are \<open>nat\<close>, with \<open>0\<close> for \<^verbatim>\<open>NULL\<close>.
  \<^item> The result type \<open>kres\<close>: every kernel operation that can stop the machine returns a
    \<open>kerr + 'a\<close>. \<open>Inl\<close> says why the kernel did not return (a failed \<^verbatim>\<open>assert\<close>, a
    \<^verbatim>\<open>SYSTEM_FAILURE\<close> screen, \<^verbatim>\<open>NOTIMPLEMENTED\<close>, an access outside an object, an iteration
    over a stale list node, or unbounded recursion), \<open>Inr\<close> is a normal return.
  \<^item> Generic lemmas on that type, on lists and on words which the component theories share.
\<close>

unbundle bit_operations_syntax

type_synonym u8 = "8 word"
type_synonym u16 = "16 word"
type_synonym u32 = "32 word"
type_synonym u64 = "64 word"
type_synonym addr = nat

datatype kerr =
    AssertFailed
  | SystemFailure string
  | NotImplemented
  | MemFault
  | StaleIteration
  | OutOfFuel
  | DivideError

type_synonym 'a kres = "kerr + 'a"

text \<open>Sequencing: the rest of an operation runs only if the part before it returned.\<close>

definition kbind :: "'a kres \<Rightarrow> ('a \<Rightarrow> 'b kres) \<Rightarrow> 'b kres" where
  "kbind m f = (case m of Inl e \<Rightarrow> Inl e | Inr x \<Rightarrow> f x)"

text \<open>The \<^verbatim>\<open>assert(ex)\<close> macro of util.h: stop the machine unless the condition holds.\<close>

definition kassert :: "bool \<Rightarrow> 'a kres \<Rightarrow> 'a kres" where
  "kassert b m = (if b then m else Inl AssertFailed)"

text \<open>\<^verbatim>\<open>PAGE_SIZE\<close> and its relatives from physmem.h.\<close>

definition PAGE_SIZE :: nat where "PAGE_SIZE = 0x1000"
definition PAGE_MASK :: nat where "PAGE_MASK = 0xFFF"
definition PAGE_BITS :: nat where "PAGE_BITS = 12"
definition PAGE_COUNT :: nat where "PAGE_COUNT = 0x100000"

named_theorems page_consts \<open>values of the page constants\<close>

declare PAGE_SIZE_def [page_consts] PAGE_MASK_def [page_consts]
  PAGE_BITS_def [page_consts] PAGE_COUNT_def [page_consts]

text \<open>Updating a function on an interval of indices, as a loop over an array does.\<close>

definition fill :: "(nat \<Rightarrow> 'a) \<Rightarrow> nat \<Rightarrow> nat \<Rightarrow> 'a \<Rightarrow> nat \<Rightarrow> 'a" where
  "fill f lo n v = (\<lambda>i. if lo \<le> i \<and> i < lo + n then v else f i)"

text \<open>Copies within, into and out of a buffer.\<close>

definition buf_move :: "nat \<Rightarrow> nat \<Rightarrow> nat \<Rightarrow> u8 list \<Rightarrow> u8 list kres" where
  "buf_move dst src n b =
     (if src + n \<le> length b \<and> dst + n \<le> length b
      then Inr (take dst b @ take n (drop src b) @ drop (dst + n) b) else Inl MemFault)"

definition buf_write :: "nat \<Rightarrow> u8 list \<Rightarrow> u8 list \<Rightarrow> u8 list kres" where
  "buf_write pos data b =
     (if pos + length data \<le> length b then Inr (take pos b @ data @ drop (pos + length data) b)
      else Inl MemFault)"

definition buf_read :: "nat \<Rightarrow> nat \<Rightarrow> u8 list \<Rightarrow> u8 list kres" where
  "buf_read pos n b = (if pos + n \<le> length b then Inr (take n (drop pos b)) else Inl MemFault)"

text \<open>\<^verbatim>\<open>heapReAlloc\<close> of a buffer: the old bytes stay, new ones are unspecified (zero here).\<close>

definition buf_resize :: "nat \<Rightarrow> u8 list \<Rightarrow> u8 list" where
  "buf_resize n b = take n b @ replicate (n - length b) 0"

text \<open>The loop \<^verbatim>\<open>while (new_size < needed) new_size *= 2\<close> of the pipes and handle tables.\<close>

primrec grow_size :: "nat \<Rightarrow> u32 \<Rightarrow> u32 \<Rightarrow> u32 kres" where
  "grow_size 0 new_size needed = (if new_size < needed then Inl OutOfFuel else Inr new_size)"
| "grow_size (Suc n) new_size needed =
     (if new_size < needed then grow_size n (new_size * 2) needed else Inr new_size)"

section \<open>Results\<close>

lemma kbind_Inl [simp]: "kbind (Inl e) f = Inl e"
  by (simp add: kbind_def)

lemma kbind_Inr [simp]: "kbind (Inr x) f = f x"
  by (simp add: kbind_def)

lemma kbind_eq_Inr: "kbind m f = Inr y \<longleftrightarrow> (\<exists>x. m = Inr x \<and> f x = Inr y)"
  by (cases m) auto

lemma kbind_eq_Inl: "kbind m f = Inl e \<longleftrightarrow> m = Inl e \<or> (\<exists>x. m = Inr x \<and> f x = Inl e)"
  by (cases m) auto

lemma kbind_InrE [elim]:
  assumes "kbind m f = Inr y"
  obtains x where "m = Inr x" and "f x = Inr y"
  using assms by (auto simp: kbind_eq_Inr)

lemma kbind_assoc: "kbind (kbind m f) g = kbind m (\<lambda>x. kbind (f x) g)"
  by (cases m) auto

lemma kassert_True [simp]: "kassert True m = m"
  by (simp add: kassert_def)

lemma kassert_eq_Inr [simp]: "kassert b m = Inr y \<longleftrightarrow> b \<and> m = Inr y"
  by (simp add: kassert_def)

lemma kassert_False [simp]: "kassert False m = Inl AssertFailed"
  by (simp add: kassert_def)

lemma kassert_split: "P (kassert b m) \<longleftrightarrow> (b \<longrightarrow> P m) \<and> (\<not> b \<longrightarrow> P (Inl AssertFailed))"
  by (simp add: kassert_def)

text \<open>An operation that does not run out of its bound, and the rules that show it for composed ones.\<close>

definition bounded :: "'a kres \<Rightarrow> bool" where
  "bounded r \<longleftrightarrow> r \<noteq> Inl OutOfFuel"

named_theorems bounded_intros \<open>operations that never run out of their bound\<close>

lemma bounded_Inr [bounded_intros]: "bounded (Inr x)"
  and bounded_Inl [bounded_intros]: "e \<noteq> OutOfFuel \<Longrightarrow> bounded (Inl e)"
  by (simp_all add: bounded_def)

lemma bounded_kbind [bounded_intros]: "bounded m \<Longrightarrow> (\<And>x. m = Inr x \<Longrightarrow> bounded (f x)) \<Longrightarrow> bounded (kbind m f)"
  by (cases m) (auto simp: bounded_def)

lemma bounded_kassert [bounded_intros]: "(b \<Longrightarrow> bounded m) \<Longrightarrow> bounded (kassert b m)"
  by (auto simp: bounded_def kassert_def)

lemma bounded_if [bounded_intros]: "(b \<Longrightarrow> bounded m) \<Longrightarrow> (\<not> b \<Longrightarrow> bounded m') \<Longrightarrow> bounded (if b then m else m')"
  by simp

lemma grow_size_enough [simp]: "needed \<le> new_size \<Longrightarrow> grow_size n new_size needed = Inr new_size"
  by (cases n) auto

section \<open>Lists\<close>

lemma distinct_split_unique:
  assumes "distinct (xs @ a # ys)" and "xs @ a # ys = xs' @ a # ys'"
  shows "xs = xs' \<and> ys = ys'"
proof -
  have "a \<notin> set xs" "a \<notin> set ys" using assms(1) by auto
  moreover have "a \<notin> set xs'" "a \<notin> set ys'" using assms by auto
  ultimately show ?thesis using assms(2)
    by (metis append_Cons_eq_iff)
qed

lemma remove1_split [simp]: "a \<notin> set xs \<Longrightarrow> remove1 a (xs @ a # ys) = xs @ ys"
  by (simp add: remove1_append)

lemma take_list_update_snoc:
  "i < length xs \<Longrightarrow> take (Suc i) (xs[i := v]) = take i xs @ [v]"
  by (simp add: take_Suc_conv_app_nth)

lemma sum_list_replicate_nat [simp]: "sum_list (replicate n (c::nat)) = n * c"
  by (induction n) auto

section \<open>Words\<close>

lemma unat_word_of_nat_small: "n < 2 ^ LENGTH('a) \<Longrightarrow> unat (word_of_nat n :: 'a::len word) = n"
  by (simp add: unat_of_nat take_bit_nat_eq_self)

lemma unat_add_small:
  fixes a b :: "'a::len word"
  shows "unat a + unat b < 2 ^ LENGTH('a) \<Longrightarrow> unat (a + b) = unat a + unat b"
  by (simp add: unat_word_ariths)

lemma unat_sub_small:
  fixes a b :: "'a::len word"
  shows "b \<le> a \<Longrightarrow> unat (a - b) = unat a - unat b"
  by (simp add: unat_sub)

lemma bit_mask_word:
  "bit (mask n :: 'a::len word) i \<longleftrightarrow> i < n \<and> i < LENGTH('a)"
  by (simp add: bit_mask_iff possible_bit_def) blast

lemma bit_all_ones [simp]: "bit (- 1 :: 'a::len word) i \<longleftrightarrow> i < LENGTH('a)"
  by (simp add: bit_minus_1_iff possible_bit_def)

declare push_bit_of_1 [simp del]

lemma unat_u8: "unat (w :: u8) < 256"
  and unat_u16: "unat (v :: u16) < 65536"
  and unat_u32: "unat (u :: u32) < 4294967296"
  using unsigned_less [of w, where 'a = nat] unsigned_less [of v, where 'a = nat]
    unsigned_less [of u, where 'a = nat] by simp_all

lemma unat_ucast_take: "unat (ucast (w :: 'a::len word) :: 'b::len word) = unat w mod 2 ^ LENGTH('b)"
  by (simp add: unsigned_ucast_eq take_bit_eq_mod)

lemma or_nat_ge: "i \<le> i OR m" for i m :: nat
  by (metis or_greater_eq of_nat_0_le_iff of_nat_or_eq zle_int)

lemma less_Suc_or: "i < Suc (i OR m)" for i m :: nat
  by (simp add: or_nat_ge le_imp_less_Suc)

lemma drop_bit_and_one: "drop_bit n w AND 1 \<noteq> 0 \<longleftrightarrow> bit (w :: 'a::len word) n"
  by (simp add: and_one_eq bit_iff_odd_drop_bit odd_iff_mod_2_eq_one)

lemma bit_push_one: "bit (push_bit n 1 :: 'a::len word) k \<longleftrightarrow> k = n \<and> n < LENGTH('a)"
  by (auto simp: bit_push_bit_iff bit_1_iff)

lemma unat_drop_bit_word: "unat (drop_bit n (w :: 'a::len word)) = unat w div 2 ^ n"
  by (metis drop_bit_eq_div unat_drop_bit_eq)

lemma unat_and_mask: "unat (w AND mask n) = unat (w :: 'a::len word) mod 2 ^ n"
  by (metis take_bit_eq_mask take_bit_eq_mod unsigned_take_bit_eq)

lemma div_mod_mult_add: "r < m \<Longrightarrow> (m * k + r) div m = k \<and> (m * k + r) mod m = (r :: nat)"
  by simp

lemma unat_and_page_mask: "unat (w AND 0xFFF :: u32) = unat w mod 4096"
  and unat_and_3FF: "unat (w AND 0x3FF :: u32) = unat w mod 1024"
  using unat_and_mask [of w 12] unat_and_mask [of w 10] by (simp_all add: mask_eq_exp_minus_1)

lemma nat_or_mask: "i OR mask n = 2 ^ n * (i div 2 ^ n) + (2 ^ n - 1)" for i :: nat
proof -
  have "push_bit n (drop_bit n i) AND mask n = 0"
    by (rule bit_eqI) (auto simp: bit_and_iff bit_push_bit_iff bit_mask_iff)
  then have "push_bit n (drop_bit n i) + mask n = push_bit n (drop_bit n i) OR mask n"
    by (rule disjunctive_add_eq_or)
  also have "\<dots> = i OR mask n"
    by (rule bit_eqI) (auto simp: bit_or_iff bit_push_bit_iff bit_drop_bit_eq bit_mask_iff possible_bit_def)
  finally show ?thesis
    by (simp add: push_bit_eq_mult drop_bit_eq_div mask_eq_exp_minus_1 mult.commute)
qed

lemma round_up_bounds:
  assumes "0 < n"
  shows "n \<le> (n + 4095) div 4096 * 4096" "((n + 4095) div 4096 - 1) * 4096 < (n :: nat)"
proof -
  obtain q r where qr: "n + 4095 = 4096 * q + r" "r < 4096"
    by (metis mod_less_divisor mult_div_mod_eq zero_less_numeral)
  then have "(n + 4095) div 4096 = q" by simp
  with qr assms show "n \<le> (n + 4095) div 4096 * 4096" "((n + 4095) div 4096 - 1) * 4096 < n"
    by (auto simp: diff_mult_distrib)
qed

lemma fill_apply: "fill f lo n v i = (if lo \<le> i \<and> i < lo + n then v else f i)"
  by (simp add: fill_def)

lemma fill_0 [simp]: "fill f lo 0 v = f"
  by (auto simp: fill_def fun_eq_iff)

lemma fill_Suc: "fill f lo (Suc n) v = fill (f(lo := v)) (Suc lo) n v"
  by (auto simp: fill_def fun_eq_iff)

end
