(* ===== verification/Linked_List.thy ===== *)
theory Linked_List
  imports Prelude
begin

text \<open>
  The intrusive doubly linked rings of \<^verbatim>\<open>util/list.h\<close>, at the level of pointers.

  A \<^verbatim>\<open>struct linkedList\<close> is a node with two pointer fields, so the heap of all nodes is the
  record \<open>links\<close> of two functions. Each operation is the source's sequence of assignments, in
  the source's order: every read sees the stores before it. \<open>is_ring h l xs\<close> says that the
  ring with head \<open>l\<close> holds the elements \<open>xs\<close> in that order; the lemmas show what each
  operation does to that sequence, that other rings are untouched, and that
  \<^verbatim>\<open>LL_FOR_EACH\<close> visits exactly \<open>xs\<close> and stops.

  The locale \<open>ring_store\<close> is the interface the kernel objects rely on: a store of named
  queues with insertion at the head, insertion at the tail and removal. It is interpreted here
  on the pointer operations (\<open>ptr\<close>) and in theory \<open>Objects\<close> on the kernel state.
\<close>

type_synonym node = nat

record links =
  lnext :: "node \<Rightarrow> node"
  lprev :: "node \<Rightarrow> node"

definition set_next :: "node \<Rightarrow> node \<Rightarrow> links \<Rightarrow> links" where
  "set_next a b h = h\<lparr>lnext := (lnext h)(a := b)\<rparr>"

definition set_prev :: "node \<Rightarrow> node \<Rightarrow> links \<Rightarrow> links" where
  "set_prev a b h = h\<lparr>lprev := (lprev h)(a := b)\<rparr>"

definition ll_init :: "node \<Rightarrow> links \<Rightarrow> links" where
  "ll_init list h =
     (let h = set_next list list h;
          h = set_prev list list h
      in h)"

definition ll_empty :: "node \<Rightarrow> links \<Rightarrow> bool" where
  "ll_empty list h \<longleftrightarrow> lnext h list = list"

definition ll_add_after :: "node \<Rightarrow> node \<Rightarrow> links \<Rightarrow> links" where
  "ll_add_after list element h =
     (let h = set_next element (lnext h list) h;
          h = set_prev element list h;
          h = set_prev (lnext h list) element h;
          h = set_next list element h
      in h)"

definition ll_add_before :: "node \<Rightarrow> node \<Rightarrow> links \<Rightarrow> links" where
  "ll_add_before list element h =
     (let h = set_next element list h;
          h = set_prev element (lprev h list) h;
          h = set_next (lprev h list) element h;
          h = set_prev list element h
      in h)"

definition ll_remove :: "node \<Rightarrow> links \<Rightarrow> node \<times> links" where
  "ll_remove element h =
     (let h = set_prev (lnext h element) (lprev h element) h;
          h = set_next (lprev h element) (lnext h element) h
      in (element, h))"

text \<open>\<^verbatim>\<open>LL_FOR_EACH\<close>: follow \<^verbatim>\<open>next\<close> from the first element until the head comes back. The
  first argument bounds the number of steps; \<open>None\<close> means the bound was hit.\<close>

primrec ll_for_each :: "nat \<Rightarrow> node \<Rightarrow> node \<Rightarrow> links \<Rightarrow> node list option" where
  "ll_for_each 0 element list h = None"
| "ll_for_each (Suc n) element list h =
     (if element = list then Some []
      else map_option ((#) element) (ll_for_each n (lnext h element) list h))"

text \<open>A doubly linked path from \<open>a\<close> through \<open>xs\<close> to \<open>z\<close>, and the ring it closes.\<close>

fun dpath :: "links \<Rightarrow> node \<Rightarrow> node list \<Rightarrow> node \<Rightarrow> bool" where
  "dpath h a [] z \<longleftrightarrow> lnext h a = z \<and> lprev h z = a"
| "dpath h a (x # xs) z \<longleftrightarrow> lnext h a = x \<and> lprev h x = a \<and> dpath h x xs z"

definition is_ring :: "links \<Rightarrow> node \<Rightarrow> node list \<Rightarrow> bool" where
  "is_ring h l xs \<longleftrightarrow> distinct (l # xs) \<and> dpath h l xs l"

text \<open>A family of rings whose nodes are pairwise disjoint: all lists of the kernel at once.\<close>

definition rings :: "node set \<Rightarrow> links \<Rightarrow> (node \<Rightarrow> node list) \<Rightarrow> bool" where
  "rings H h Q \<longleftrightarrow>
     (\<forall>l\<in>H. is_ring h l (Q l)) \<and>
     (\<forall>l\<in>H. \<forall>m\<in>H. l \<noteq> m \<longrightarrow> set (l # Q l) \<inter> set (m # Q m) = {})"

text \<open>An element in no ring.\<close>

definition ring_free :: "node set \<Rightarrow> links \<Rightarrow> (node \<Rightarrow> node list) \<Rightarrow> node \<Rightarrow> bool" where
  "ring_free H h Q e \<longleftrightarrow> (\<forall>l\<in>H. e \<notin> set (l # Q l))"

section \<open>Paths\<close>

lemmas ll_defs = ll_init_def ll_add_after_def ll_add_before_def ll_remove_def
  set_next_def set_prev_def Let_def

lemma dpath_append:
  "dpath h a (xs @ y # ys) z \<longleftrightarrow> dpath h a xs y \<and> dpath h y ys z"
  by (induction xs arbitrary: a) auto

lemma dpath_last: "dpath h a xs z \<Longrightarrow> lprev h z = last (a # xs)"
  by (induction xs arbitrary: a) auto

lemma dpath_first: "dpath h a xs z \<Longrightarrow> lnext h a = hd (xs @ [z])"
  by (cases xs) auto

lemma dpath_frame:
  assumes "\<forall>x\<in>set (a # xs). lnext h' x = lnext h x"
    and "\<forall>x\<in>set (xs @ [z]). lprev h' x = lprev h x"
  shows "dpath h' a xs z = dpath h a xs z"
  using assms by (induction xs arbitrary: a) auto

lemma is_ring_rotate:
  "is_ring h l (xs @ x # ys) \<longleftrightarrow> is_ring h x (ys @ l # xs)"
  unfolding is_ring_def by (auto simp: dpath_append)

lemma is_ring_frame:
  assumes "is_ring h l xs"
    and "\<forall>x\<in>set (l # xs). lnext h' x = lnext h x \<and> lprev h' x = lprev h x"
  shows "is_ring h' l xs"
proof -
  have "dpath h' l xs l = dpath h l xs l"
    using assms(2) by (intro dpath_frame) auto
  with assms(1) show ?thesis by (simp add: is_ring_def)
qed

section \<open>What the operations do to a ring\<close>

lemma is_ring_init: "is_ring (ll_init l h) l []"
  by (simp add: is_ring_def ll_defs)

lemma ll_empty_iff: "is_ring h l xs \<Longrightarrow> ll_empty l h \<longleftrightarrow> xs = []"
  by (cases xs) (auto simp: is_ring_def ll_empty_def)

lemma dpath_add_after:
  assumes "dpath h l xs l" "distinct (l # xs)" "e \<notin> set (l # xs)"
  shows "dpath (ll_add_after l e h) l (e # xs) l"
proof (cases xs)
  case Nil
  with assms show ?thesis by (auto simp: ll_defs)
next
  case (Cons x ys)
  have "dpath (ll_add_after l e h) x ys l = dpath h x ys l"
    using assms Cons by (intro dpath_frame) (auto simp: ll_defs)
  with assms Cons show ?thesis by (auto simp: ll_defs)
qed

lemma is_ring_add_head:
  "is_ring h l xs \<Longrightarrow> e \<notin> set (l # xs) \<Longrightarrow> is_ring (ll_add_after l e h) l (e # xs)"
  unfolding is_ring_def using dpath_add_after by auto

lemma is_ring_add_after:
  assumes "is_ring h l (xs @ x # ys)" and "e \<notin> set (l # xs @ x # ys)"
  shows "is_ring (ll_add_after x e h) l (xs @ x # e # ys)"
proof -
  have "is_ring h x (ys @ l # xs)" using assms(1) by (simp add: is_ring_rotate)
  then have "is_ring (ll_add_after x e h) x (e # ys @ l # xs)"
    using assms(2) by (intro is_ring_add_head) auto
  then show ?thesis
    using is_ring_rotate [of "ll_add_after x e h" l xs x "e # ys"] by simp
qed

lemma dpath_add_before:
  assumes "dpath h l xs l" "distinct (l # xs)" "e \<notin> set (l # xs)"
  shows "dpath (ll_add_before l e h) l (xs @ [e]) l"
proof (cases xs rule: rev_cases)
  case Nil
  with assms show ?thesis by (auto simp: ll_defs)
next
  case (snoc ys y)
  have "dpath (ll_add_before l e h) l ys y = dpath h l ys y"
    using assms snoc by (intro dpath_frame) (auto simp: ll_defs dpath_append)
  with assms snoc show ?thesis by (auto simp: ll_defs dpath_append)
qed

lemma is_ring_add_tail:
  "is_ring h l xs \<Longrightarrow> e \<notin> set (l # xs) \<Longrightarrow> is_ring (ll_add_before l e h) l (xs @ [e])"
  unfolding is_ring_def using dpath_add_before by auto

lemma is_ring_add_before:
  assumes "is_ring h l (xs @ x # ys)" and "e \<notin> set (l # xs @ x # ys)"
  shows "is_ring (ll_add_before x e h) l (xs @ e # x # ys)"
proof -
  have "is_ring h x (ys @ l # xs)" using assms(1) by (simp add: is_ring_rotate)
  then have "is_ring (ll_add_before x e h) x ((ys @ l # xs) @ [e])"
    using assms(2) by (intro is_ring_add_tail) auto
  then have "is_ring (ll_add_before x e h) x (ys @ l # xs @ [e])" by simp
  then show ?thesis
    using is_ring_rotate [of "ll_add_before x e h" l "xs @ [e]" x ys] by simp
qed

lemma is_ring_remove:
  assumes "is_ring h l (xs @ e # ys)"
  shows "is_ring (snd (ll_remove e h)) l (xs @ ys)"
proof -
  have d: "distinct (l # xs @ e # ys)" and p: "dpath h l xs e" "dpath h e ys l"
    using assms by (auto simp: is_ring_def dpath_append)
  let ?h = "snd (ll_remove e h)"
  have nx: "lnext ?h = (lnext h)(last (l # xs) := hd (ys @ [l]))"
    and pv: "lprev ?h = (lprev h)(hd (ys @ [l]) := last (l # xs))"
    using dpath_last [OF p(1)] dpath_first [OF p(2)] d
    by (cases ys; auto simp: ll_defs)+
  have "dpath ?h l (xs @ ys) l"
  proof (cases xs rule: rev_cases)
    case Nil
    show ?thesis
    proof (cases ys)
      case Nil
      with \<open>xs = []\<close> nx pv show ?thesis by simp
    next
      case (Cons z zs)
      have "dpath ?h z zs l = dpath h z zs l"
        using d Cons \<open>xs = []\<close> by (intro dpath_frame) (auto simp: nx pv)
      with p Cons \<open>xs = []\<close> d show ?thesis by (auto simp: nx pv)
    qed
  next
    case (snoc us u)
    have 1: "dpath ?h l us u = dpath h l us u"
      using d snoc by (intro dpath_frame) (cases ys; auto simp: nx pv)+
    show ?thesis
    proof (cases ys)
      case Nil
      with 1 p snoc d show ?thesis by (auto simp: dpath_append nx pv)
    next
      case (Cons z zs)
      have "dpath ?h z zs l = dpath h z zs l"
        using d Cons snoc by (intro dpath_frame) (auto simp: nx pv)
      with 1 p snoc Cons d show ?thesis by (auto simp: dpath_append nx pv)
    qed
  qed
  with d show ?thesis by (simp add: is_ring_def)
qed

lemma ll_for_each_dpath:
  assumes "dpath h a xs l" "l \<notin> set xs" "length xs < n"
  shows "ll_for_each n (lnext h a) l h = Some xs"
  using assms
proof (induction xs arbitrary: a n)
  case Nil
  then show ?case by (cases n) auto
next
  case (Cons x xs)
  then obtain k where "n = Suc k" by (cases n) auto
  with Cons show ?case by auto
qed

text \<open>Nodes outside a ring keep their links, whatever is done to that ring.\<close>

lemma dpath_links_mem:
  "dpath h a xs z \<Longrightarrow> lnext h a \<in> set (xs @ [z]) \<and> lprev h z \<in> set (a # xs)"
  using dpath_first dpath_last by (cases xs) fastforce+

lemma ring_links_mem:
  "is_ring h l xs \<Longrightarrow> x \<in> set (l # xs) \<Longrightarrow>
     lnext h x \<in> set (l # xs) \<and> lprev h x \<in> set (l # xs)"
proof -
  assume r: "is_ring h l xs" and x: "x \<in> set (l # xs)"
  show ?thesis
  proof (cases "x = l")
    case True
    with r show ?thesis using dpath_links_mem [of h l xs l] by (auto simp: is_ring_def)
  next
    case False
    with x obtain ys zs where xs: "xs = ys @ x # zs" by (auto dest: split_list)
    with r have "is_ring h x (zs @ l # ys)" by (simp add: is_ring_rotate)
    then show ?thesis
      using dpath_links_mem [of h x "zs @ l # ys" x] xs by (auto simp: is_ring_def)
  qed
qed

lemma add_after_links:
  assumes "is_ring h l xs" "x \<in> set (l # xs)" "y \<notin> set (e # l # xs)"
  shows "lnext (ll_add_after x e h) y = lnext h y \<and> lprev (ll_add_after x e h) y = lprev h y"
  using ring_links_mem [OF assms(1,2)] assms(2,3) by (auto simp: ll_defs)

lemma add_before_links:
  assumes "is_ring h l xs" "x \<in> set (l # xs)" "y \<notin> set (e # l # xs)"
  shows "lnext (ll_add_before x e h) y = lnext h y \<and> lprev (ll_add_before x e h) y = lprev h y"
  using ring_links_mem [OF assms(1,2)] assms(2,3) by (auto simp: ll_defs)

lemma remove_links:
  assumes "is_ring h l xs" "x \<in> set (l # xs)" "y \<notin> set (l # xs)"
  shows "lnext (snd (ll_remove x h)) y = lnext h y \<and> lprev (snd (ll_remove x h)) y = lprev h y"
  using ring_links_mem [OF assms(1,2)] assms(2,3) by (auto simp: ll_defs)

section \<open>The interface of a store of rings\<close>

text \<open>
  What a client of the lists relies on: a state, an abstraction relation to named sequences,
  and three operations. An element is linked into at most one queue; it may be inserted only
  while it is in none, and removing it shortens exactly the queue that held it.
\<close>

locale ring_store =
  fixes heads :: "'q set"
    and rel :: "'s \<Rightarrow> ('q \<Rightarrow> 'e list) \<Rightarrow> bool"
    and free :: "'s \<Rightarrow> ('q \<Rightarrow> 'e list) \<Rightarrow> 'e \<Rightarrow> bool"
    and add_head :: "'q \<Rightarrow> 'e \<Rightarrow> 's \<Rightarrow> 's"
    and add_tail :: "'q \<Rightarrow> 'e \<Rightarrow> 's \<Rightarrow> 's"
    and del :: "'e \<Rightarrow> 's \<Rightarrow> 's"
  assumes rel_distinct: "rel s Q \<Longrightarrow> q \<in> heads \<Longrightarrow> distinct (Q q)"
    and rel_disjoint: "rel s Q \<Longrightarrow> q \<in> heads \<Longrightarrow> r \<in> heads \<Longrightarrow> q \<noteq> r \<Longrightarrow> set (Q q) \<inter> set (Q r) = {}"
    and free_unlinked: "rel s Q \<Longrightarrow> free s Q e \<Longrightarrow> q \<in> heads \<Longrightarrow> e \<notin> set (Q q)"
    and rel_add_head: "rel s Q \<Longrightarrow> q \<in> heads \<Longrightarrow> free s Q e \<Longrightarrow>
           rel (add_head q e s) (Q(q := e # Q q))"
    and rel_add_tail: "rel s Q \<Longrightarrow> q \<in> heads \<Longrightarrow> free s Q e \<Longrightarrow>
           rel (add_tail q e s) (Q(q := Q q @ [e]))"
    and rel_del: "rel s Q \<Longrightarrow> q \<in> heads \<Longrightarrow> e \<in> set (Q q) \<Longrightarrow>
           rel (del e s) (Q(q := remove1 e (Q q))) \<and> free (del e s) (Q(q := remove1 e (Q q))) e"
begin

text \<open>An element is in one queue only, so the queue it is removed from is determined.\<close>

lemma linked_once:
  "rel s Q \<Longrightarrow> q \<in> heads \<Longrightarrow> r \<in> heads \<Longrightarrow> e \<in> set (Q q) \<Longrightarrow> e \<in> set (Q r) \<Longrightarrow> q = r"
  using rel_disjoint by blast

text \<open>Moving an element, as a wakeup does from a wait queue to the run queue.\<close>

lemma move_tail:
  assumes "rel s Q" "q \<in> heads" "r \<in> heads" "q \<noteq> r" "e \<in> set (Q q)"
  shows "rel (add_tail r e (del e s)) (Q(q := remove1 e (Q q), r := Q r @ [e]))"
proof -
  let ?Q = "Q(q := remove1 e (Q q))"
  have "rel (del e s) ?Q" "free (del e s) ?Q e"
    using rel_del [OF assms(1,2,5)] by auto
  then have "rel (add_tail r e (del e s)) (?Q(r := ?Q r @ [e]))"
    using assms(3) by (intro rel_add_tail)
  with assms(4) show ?thesis by simp
qed

lemma move_head:
  assumes "rel s Q" "q \<in> heads" "r \<in> heads" "q \<noteq> r" "e \<in> set (Q q)"
  shows "rel (add_head r e (del e s)) (Q(q := remove1 e (Q q), r := e # Q r))"
proof -
  let ?Q = "Q(q := remove1 e (Q q))"
  have "rel (del e s) ?Q" "free (del e s) ?Q e"
    using rel_del [OF assms(1,2,5)] by auto
  then have "rel (add_head r e (del e s)) (?Q(r := e # ?Q r))"
    using assms(3) by (intro rel_add_head)
  with assms(4) show ?thesis by simp
qed

text \<open>First in, first out: appending at the tail and taking the head out again.\<close>

lemma tail_then_head:
  assumes "rel s Q" "q \<in> heads" "Q q = []" "free s Q e"
  shows "rel (del e (add_tail q e s)) Q"
proof -
  have "rel (add_tail q e s) (Q(q := [e]))"
    using rel_add_tail [OF assms(1,2,4)] assms(3) by simp
  then have "rel (del e (add_tail q e s)) ((Q(q := [e]))(q := remove1 e [e]))"
    using rel_del [OF _ assms(2), of "add_tail q e s" "Q(q := [e])" e] by simp
  with assms(3) show ?thesis by (simp add: fun_upd_idem)
qed

end

lemma rings_frame:
  assumes R: "rings H h Q" and l: "l \<in> H" and new: "is_ring h' l xs"
    and sub: "set xs \<subseteq> insert e (set (Q l))"
    and fresh: "\<forall>m\<in>H. m \<noteq> l \<longrightarrow> e \<notin> set (m # Q m)"
    and same: "\<And>y. y \<notin> set (e # l # Q l) \<Longrightarrow> lnext h' y = lnext h y \<and> lprev h' y = lprev h y"
  shows "rings H h' (Q(l := xs))"
proof -
  have disj: "set (l # Q l) \<inter> set (m # Q m) = {}" if "m \<in> H" "m \<noteq> l" for m
    using R l that by (auto simp: rings_def)
  have "is_ring h' m (Q m)" if "m \<in> H" "m \<noteq> l" for m
  proof (rule is_ring_frame)
    show "is_ring h m (Q m)" using R that by (simp add: rings_def)
    show "\<forall>x\<in>set (m # Q m). lnext h' x = lnext h x \<and> lprev h' x = lprev h x"
    proof
      fix x assume "x \<in> set (m # Q m)"
      with disj [OF that] fresh that have "x \<notin> set (e # l # Q l)" by auto
      then show "lnext h' x = lnext h x \<and> lprev h' x = lprev h x" by (rule same)
    qed
  qed
  moreover have "set (l # xs) \<inter> set (m # Q m) = {}" if "m \<in> H" "m \<noteq> l" for m
    using disj [OF that] fresh that sub by fastforce
  moreover have "set (m # Q m) \<inter> set (k # Q k) = {}" if "m \<in> H" "k \<in> H" "m \<noteq> k" for m k
    using R that by (auto simp: rings_def)
  ultimately show ?thesis
    using new by (simp add: rings_def) blast
qed

lemma rings_add_after:
  "rings H h Q \<Longrightarrow> l \<in> H \<Longrightarrow> ring_free H h Q e \<Longrightarrow> rings H (ll_add_after l e h) (Q(l := e # Q l))"
  by (rule rings_frame [where e = e and h = h])
    (auto simp: ring_free_def rings_def add_after_links [of h l "Q l" l] intro!: is_ring_add_head)

lemma rings_add_before:
  "rings H h Q \<Longrightarrow> l \<in> H \<Longrightarrow> ring_free H h Q e \<Longrightarrow> rings H (ll_add_before l e h) (Q(l := Q l @ [e]))"
  by (rule rings_frame [where e = e and h = h])
    (auto simp: ring_free_def rings_def add_before_links [of h l "Q l" l] intro!: is_ring_add_tail)

lemma rings_remove:
  assumes R: "rings H h Q" and l: "l \<in> H" and e: "e \<in> set (Q l)"
  shows "rings H (snd (ll_remove e h)) (Q(l := remove1 e (Q l)))"
proof -
  obtain xs ys where Q: "Q l = xs @ e # ys" using e by (auto dest: split_list)
  have ring: "is_ring h l (xs @ e # ys)" using R l Q by (auto simp: rings_def)
  then have "e \<notin> set xs" by (auto simp: is_ring_def)
  then have rm: "remove1 e (Q l) = xs @ ys" using Q by simp
  show ?thesis
  proof (rule rings_frame [where e = e and h = h])
    show "is_ring (snd (ll_remove e h)) l (remove1 e (Q l))"
      using is_ring_remove [OF ring] rm by simp
    show "set (remove1 e (Q l)) \<subseteq> insert e (set (Q l))" using rm Q by auto
    show "\<forall>m\<in>H. m \<noteq> l \<longrightarrow> e \<notin> set (m # Q m)" using R l e by (fastforce simp: rings_def)
    show "lnext (snd (ll_remove e h)) y = lnext h y \<and> lprev (snd (ll_remove e h)) y = lprev h y"
      if "y \<notin> set (e # l # Q l)" for y
      using that ring Q by (intro remove_links [where l = l and xs = "xs @ e # ys"]) auto
  qed (use R l in auto)
qed

lemma ring_free_remove:
  assumes "rings H h Q" "l \<in> H" "e \<in> set (Q l)"
  shows "ring_free H h' (Q(l := remove1 e (Q l))) e"
  using assms by (fastforce simp: ring_free_def rings_def is_ring_def)

interpretation ptr: ring_store H "rings H" "ring_free H" ll_add_after ll_add_before
    "\<lambda>e h. snd (ll_remove e h)"
  for H
proof
  fix s Q q r and e :: node
  show "rings H s Q \<Longrightarrow> q \<in> H \<Longrightarrow> distinct (Q q)"
    by (auto simp: rings_def is_ring_def)
  show "rings H s Q \<Longrightarrow> q \<in> H \<Longrightarrow> r \<in> H \<Longrightarrow> q \<noteq> r \<Longrightarrow> set (Q q) \<inter> set (Q r) = {}"
    by (fastforce simp: rings_def)
  show "rings H s Q \<Longrightarrow> ring_free H s Q e \<Longrightarrow> q \<in> H \<Longrightarrow> e \<notin> set (Q q)"
    by (simp add: ring_free_def)
qed (auto intro: rings_add_after rings_add_before rings_remove ring_free_remove)

text \<open>
  C28: the pointer operations of list.h implement sequences: on any family of disjoint rings,
  \<^verbatim>\<open>ll_remove\<close> of a linked element shortens exactly the ring that held it and leaves every other
  ring as it was, \<^verbatim>\<open>ll_add_tail\<close> then appends it to another ring, and iterating that ring with
  \<^verbatim>\<open>LL_FOR_EACH\<close> visits the old elements and then the new one, and stops.
\<close>

theorem ll_move_refines_sequences:
  assumes R: "rings H h Q" and q: "q \<in> H" and r: "r \<in> H" and ne: "q \<noteq> r" and e: "e \<in> set (Q q)"
    and h': "h' = ll_add_before r e (snd (ll_remove e h))"
    and n: "length (Q r) + 1 < n"
  shows "rings H h' (Q(q := remove1 e (Q q), r := Q r @ [e]))
    \<and> ll_for_each n (lnext h' r) r h' = Some (Q r @ [e])"
proof -
  let ?Q = "Q(q := remove1 e (Q q), r := Q r @ [e])"
  have R': "rings H h' ?Q"
    unfolding h' by (rule ptr.move_tail [OF R q r ne e])
  then have "is_ring h' r (Q r @ [e])" using r by (auto simp: rings_def)
  then have "ll_for_each n (lnext h' r) r h' = Some (Q r @ [e])"
    using n by (intro ll_for_each_dpath) (auto simp: is_ring_def)
  with R' show ?thesis by blast
qed

theorem ll_move_refines_sequences_witness:
  "let h = ll_add_before 1 5 (ll_add_before 1 4 (ll_init 2 (ll_init 1
             \<lparr>lnext = \<lambda>_. 0, lprev = \<lambda>_. 0\<rparr>)));
       h' = ll_add_before 2 4 (snd (ll_remove 4 h))
   in rings {1, 2} h' ((\<lambda>l. if l = 1 then [4, 5] else [])(1 := [5], 2 := [4]))
      \<and> ll_for_each 9 (lnext h' 2) 2 h' = Some [4]"
proof -
  let ?h = "ll_add_before 1 5 (ll_add_before 1 4 (ll_init 2 (ll_init 1
             \<lparr>lnext = \<lambda>_. 0, lprev = \<lambda>_. 0\<rparr>)))"
  let ?Q = "\<lambda>l. if l = 1 then [4, 5] else ([] :: nat list)"
  have "rings {1, 2} ?h ?Q"
    by (auto simp: rings_def is_ring_def ll_defs)
  then show ?thesis
    using ll_move_refines_sequences [of "{1,2}" ?h ?Q 1 2 4 "ll_add_before 2 4 (snd (ll_remove 4 ?h))" 9]
    by (simp add: Let_def)
qed

end
