(* ===== verification/Util.thy ===== *)
theory Util
  imports Prelude
begin

text \<open>
  The string and memory routines of \<^verbatim>\<open>util/util.c\<close>.

  A \<^verbatim>\<open>char *\<close> is the list of bytes that starts at the pointer, \<open>None\<close> for \<^verbatim>\<open>NULL\<close>;
  reading past the end of that list is \<open>Inl MemFault\<close>. The memory routines work on a byte
  memory \<open>nat \<Rightarrow> u8\<close>, so that overlapping regions alias as they do in C. Loops are recursive
  functions with one equation per way the loop can stop.
\<close>

type_synonym mem = "nat \<Rightarrow> u8"

section \<open>Strings\<close>

fun stringLength_loop :: "u8 list \<Rightarrow> u32 \<Rightarrow> u32 kres" where
  "stringLength_loop [] len = Inl MemFault"
| "stringLength_loop (c # str) len = (if c \<noteq> 0 then stringLength_loop str (len + 1) else Inr len)"

definition stringLength :: "u8 list option \<Rightarrow> u32 kres" where
  "stringLength str = (case str of None \<Rightarrow> Inr 0 | Some s \<Rightarrow> stringLength_loop s 0)"

text \<open>\<^verbatim>\<open>while (len && !buf[len - 1]) len--\<close>\<close>

primrec trim_nul :: "u8 list \<Rightarrow> nat \<Rightarrow> nat kres" where
  "trim_nul buf 0 = Inr 0"
| "trim_nul buf (Suc n) =
     (if length buf \<le> n then Inl MemFault
      else if buf ! n = 0 then trim_nul buf n else Inr (Suc n))"

fun stringIsEqual_loop :: "u8 list \<Rightarrow> u8 list \<Rightarrow> nat \<Rightarrow> bool kres" where
  "stringIsEqual_loop [] buf len = Inl MemFault"
| "stringIsEqual_loop (c # str) buf 0 = Inr (c = 0)"
| "stringIsEqual_loop (c # str) [] (Suc n) = (if c = 0 then Inr False else Inl MemFault)"
| "stringIsEqual_loop (c # str) (b # buf) (Suc n) =
     (if c \<noteq> 0 \<and> c = b then stringIsEqual_loop str buf n else Inr False)"

definition stringIsEqual :: "u8 list option \<Rightarrow> u8 list \<Rightarrow> nat \<Rightarrow> bool kres" where
  "stringIsEqual str buf len =
     kbind (trim_nul buf len) (\<lambda>len.
       case str of None \<Rightarrow> Inr (len = 0)
       | Some s \<Rightarrow> stringIsEqual_loop s buf len)"

fun skip_spaces :: "u8 list \<Rightarrow> nat \<Rightarrow> (u8 list \<times> nat) kres" where
  "skip_spaces str 0 = Inr (str, 0)"
| "skip_spaces [] (Suc n) = Inl MemFault"
| "skip_spaces (c # str) (Suc n) =
     (if c = 0x20 then skip_spaces str n else Inr (c # str, Suc n))"

fun octal_loop :: "u32 \<Rightarrow> u8 list \<Rightarrow> nat \<Rightarrow> (u32 \<times> u8 list \<times> nat) kres" where
  "octal_loop v str 0 = Inr (v, str, 0)"
| "octal_loop v [] (Suc n) = Inl MemFault"
| "octal_loop v (c # str) (Suc n) =
     (if 0x30 \<le> c \<and> c < 0x38
      then octal_loop (push_bit 3 v OR ucast (c - 0x30)) str n
      else Inr (v, c # str, Suc n))"

definition stringParseOctal :: "u8 list \<Rightarrow> nat \<Rightarrow> u32 kres" where
  "stringParseOctal str len =
     kbind (skip_spaces str len) (\<lambda>(str, len).
     kbind (octal_loop 0 str len) (\<lambda>(v, str, len).
     kbind (skip_spaces str len) (\<lambda>(str, len).
       case len of 0 \<Rightarrow> Inr v
       | Suc _ \<Rightarrow> (case str of [] \<Rightarrow> Inl MemFault | c # _ \<Rightarrow> Inr (if c \<noteq> 0 then - 1 else v)))))"

section \<open>Memory\<close>

primrec memset :: "mem \<Rightarrow> nat \<Rightarrow> u8 \<Rightarrow> nat \<Rightarrow> mem" where
  "memset m dst v 0 = m"
| "memset m dst v (Suc num) = memset (m(dst := v)) (dst + 1) v num"

primrec memcpy :: "mem \<Rightarrow> nat \<Rightarrow> nat \<Rightarrow> nat \<Rightarrow> mem" where
  "memcpy m dst src 0 = m"
| "memcpy m dst src (Suc num) = memcpy (m(dst := m src)) (dst + 1) (src + 1) num"

text \<open>The backward loop of \<^verbatim>\<open>memmove\<close>: \<^verbatim>\<open>while (num--) *dst-- = *src--\<close>, with both pointers
  starting at the last byte.\<close>

primrec memmove_down :: "mem \<Rightarrow> nat \<Rightarrow> nat \<Rightarrow> nat \<Rightarrow> mem" where
  "memmove_down m dst src 0 = m"
| "memmove_down m dst src (Suc num) =
     memmove_down (m(dst + num := m (src + num))) dst src num"

definition memmove :: "mem \<Rightarrow> nat \<Rightarrow> nat \<Rightarrow> nat \<Rightarrow> mem" where
  "memmove m dst src num =
     (if dst < src \<or> dst \<ge> src + num then memcpy m dst src num
      else if dst \<noteq> src then memmove_down m dst src num
      else m)"

text \<open>What a copy should do: every destination byte gets the source byte from before the copy.\<close>

definition mem_copied :: "mem \<Rightarrow> nat \<Rightarrow> nat \<Rightarrow> nat \<Rightarrow> mem" where
  "mem_copied m dst src num =
     (\<lambda>a. if dst \<le> a \<and> a < dst + num then m (src + (a - dst)) else m a)"

text \<open>The \<open>w\<close>-digit octal representation of a number, as tar headers store sizes.\<close>

primrec octal_digits :: "nat \<Rightarrow> nat \<Rightarrow> u8 list" where
  "octal_digits 0 n = []"
| "octal_digits (Suc w) n = octal_digits w (n div 8) @ [0x30 + word_of_nat (n mod 8)]"

section \<open>Lemmas on strings\<close>

lemma stringLength_loop_nul:
  "0 \<notin> set s \<Longrightarrow> stringLength_loop (s @ 0 # rest) len = Inr (len + word_of_nat (length s))"
  by (induction s arbitrary: len) (auto simp: algebra_simps)

lemma trim_nul_le: "len \<le> length buf \<Longrightarrow>
  \<exists>k. trim_nul buf len = Inr k \<and> k \<le> len \<and> (\<forall>i. k \<le> i \<and> i < len \<longrightarrow> buf ! i = 0)
    \<and> (k > 0 \<longrightarrow> buf ! (k - 1) \<noteq> 0)"
proof (induction len)
  case 0
  then show ?case by simp
next
  case (Suc n)
  then obtain k where k: "trim_nul buf n = Inr k" "k \<le> n"
    "\<forall>i. k \<le> i \<and> i < n \<longrightarrow> buf ! i = 0" "k > 0 \<longrightarrow> buf ! (k - 1) \<noteq> 0"
    by auto
  show ?case
  proof (cases "buf ! n = 0")
    case True
    have "\<forall>i. k \<le> i \<and> i < Suc n \<longrightarrow> buf ! i = 0"
      using k(3) True by (auto simp: less_Suc_eq)
    with True k Suc.prems show ?thesis by auto
  next
    case False
    with Suc.prems show ?thesis by auto
  qed
qed

lemma stringIsEqual_loop_iff:
  "0 \<notin> set s \<Longrightarrow> k \<le> length buf \<Longrightarrow>
     stringIsEqual_loop (s @ 0 # rest) buf k = Inr (s = take k buf)"
proof (induction s arbitrary: buf k)
  case Nil
  then show ?case by (cases k; cases buf) auto
next
  case (Cons c s)
  then show ?case by (cases k; cases buf) auto
qed

lemma skip_spaces_replicate:
  "skip_spaces (replicate a 0x20 @ str) (a + n) = skip_spaces str n"
  by (induction a) auto

lemma skip_spaces_stop: "str = [] \<longrightarrow> n = 0 \<Longrightarrow> (\<And>c cs. str = c # cs \<Longrightarrow> c \<noteq> 0x20) \<Longrightarrow>
  skip_spaces str n = Inr (str, n)"
  by (cases n; cases str) auto

lemma octal_value:
  fixes v :: u32
  assumes "d < 8"
  shows "push_bit 3 v OR word_of_nat d = 8 * v + word_of_nat d"
proof -
  have "push_bit 3 v AND word_of_nat d = 0"
  proof (rule bit_word_eqI)
    fix n :: nat assume "n < LENGTH(32)"
    have "\<not> bit d n" if "3 \<le> n"
    proof -
      have "d < 2 ^ n" using assms power_increasing [of 3 n "2::nat"] that by simp
      then show ?thesis by (simp add: bit_nat_def)
    qed
    then show "bit (push_bit 3 v AND word_of_nat d) n = bit (0::u32) n"
      by (auto simp: bit_and_iff bit_push_bit_iff bit_of_nat_iff)
  qed
  then have "push_bit 3 v OR word_of_nat d = push_bit 3 v + word_of_nat d"
    by (simp add: disjunctive_add_eq_or)
  then show ?thesis by (simp add: push_bit_eq_mult mult.commute)
qed

lemma octal_digit_range:
  assumes "d < 8"
  shows "(0x30 :: u8) \<le> 0x30 + word_of_nat d" "0x30 + word_of_nat d < (0x38 :: u8)"
    "ucast (0x30 + word_of_nat d - 0x30 :: u8) = (word_of_nat d :: u32)"
proof -
  have "d \<in> {0, 1, 2, 3, 4, 5, 6, 7}" using assms by auto
  then show "(0x30 :: u8) \<le> 0x30 + word_of_nat d" "0x30 + word_of_nat d < (0x38 :: u8)"
    "ucast (0x30 + word_of_nat d - 0x30 :: u8) = (word_of_nat d :: u32)"
    by auto
qed

lemma length_octal_digits [simp]: "length (octal_digits w n) = w"
  by (induction w arbitrary: n) auto

lemma octal_digits_hd: "0 < w \<Longrightarrow> \<exists>c cs. octal_digits w n = c # cs \<and> c \<noteq> 0x20"
proof (induction w arbitrary: n)
  case (Suc w)
  show ?case
  proof (cases w)
    case 0
    have "n mod 8 \<in> {0, 1, 2, 3, 4, 5, 6, 7}" by auto
    then have "0x30 + word_of_nat (n mod 8) \<noteq> (0x20 :: u8)" by auto
    with 0 show ?thesis by simp
  next
    case (Suc _)
    then obtain c cs where "octal_digits w (n div 8) = c # cs" "c \<noteq> 0x20"
      using Suc.IH [of "n div 8"] by auto
    then show ?thesis by simp
  qed
qed simp

lemma octal_loop_append:
  "length s = k \<Longrightarrow> octal_loop v s k = Inr (v', [], 0) \<Longrightarrow>
     octal_loop v (s @ str) (k + n) = octal_loop v' str n"
proof (induction s arbitrary: v k)
  case (Cons c s)
  then show ?case by (cases k) (auto split: if_splits)
qed simp

lemma octal_loop_digits:
  "n < 8 ^ w \<Longrightarrow>
     octal_loop v (octal_digits w n) w = Inr (8 ^ w * v + word_of_nat n, [], 0)"
proof (induction w arbitrary: n)
  case 0
  then show ?case by simp
next
  case (Suc w)
  let ?d = "n mod 8"
  have "n div 8 < 8 ^ w" using Suc.prems by (simp add: less_mult_imp_div_less mult.commute)
  then have IH: "octal_loop v (octal_digits w (n div 8)) w =
      Inr (8 ^ w * v + word_of_nat (n div 8), [], 0)"
    by (rule Suc.IH)
  have "octal_loop v (octal_digits (Suc w) n) (w + 1) =
      octal_loop (8 ^ w * v + word_of_nat (n div 8)) [0x30 + word_of_nat ?d] 1"
    using octal_loop_append [OF length_octal_digits IH, of "[0x30 + word_of_nat ?d]" 1] by simp
  also have "\<dots> = Inr (8 * (8 ^ w * v + word_of_nat (n div 8)) + word_of_nat ?d, [], 0)"
    using octal_digit_range [of ?d] by (simp add: octal_value)
  also have "8 * (8 ^ w * v + word_of_nat (n div 8)) + word_of_nat ?d
      = 8 ^ Suc w * v + (8 * word_of_nat (n div 8) + word_of_nat ?d)"
    by (simp only: power_Suc distrib_left mult.assoc add.assoc)
  also have "8 * word_of_nat (n div 8) + word_of_nat ?d = (word_of_nat n :: u32)"
    by (metis mult_div_mod_eq of_nat_add of_nat_mult of_nat_numeral)
  finally show ?case by simp
qed

section \<open>Lemmas on memory\<close>

lemma memset_fill: "memset m dst v n = fill m dst n v"
  by (induction n arbitrary: m dst) (auto simp: fill_Suc)

lemma memcpy_outside: "a < dst \<or> dst + n \<le> a \<Longrightarrow> memcpy m dst src n a = m a"
  by (induction n arbitrary: m dst src) auto

lemma memcpy_copied:
  "dst \<le> src \<or> src + n \<le> dst \<Longrightarrow> memcpy m dst src n = mem_copied m dst src n"
proof (induction n arbitrary: m dst src)
  case 0
  then show ?case by (auto simp: mem_copied_def fun_eq_iff)
next
  case (Suc n)
  let ?m = "m(dst := m src)"
  have IH: "memcpy ?m (dst + 1) (src + 1) n = mem_copied ?m (dst + 1) (src + 1) n"
    using Suc.prems by (intro Suc.IH) auto
  show ?case
  proof
    fix a
    consider "a = dst" | "dst < a" "a < dst + Suc n" | "a < dst \<or> dst + Suc n \<le> a" by linarith
    then show "memcpy m dst src (Suc n) a = mem_copied m dst src (Suc n) a"
    proof cases
      case 2
      then have "src + 1 + (a - (dst + 1)) = src + (a - dst)" by simp
      with 2 Suc.prems IH show ?thesis by (auto simp: mem_copied_def)
    qed (use IH in \<open>auto simp: mem_copied_def\<close>)
  qed
qed

lemma memmove_down_copied:
  "src \<le> dst \<Longrightarrow> memmove_down m dst src n = mem_copied m dst src n"
proof (induction n arbitrary: m)
  case 0
  then show ?case by (auto simp: mem_copied_def fun_eq_iff)
next
  case (Suc n)
  let ?m = "m(dst + n := m (src + n))"
  have "memmove_down ?m dst src n = mem_copied ?m dst src n"
    using Suc by blast
  then show ?case
    using Suc.prems by (auto simp: mem_copied_def fun_eq_iff less_Suc_eq)
qed

section \<open>Properties\<close>

text \<open>
  C2: \<^verbatim>\<open>memmove\<close> copies correctly for every position of the two regions, overlapping or not:
  every destination byte ends up with the byte the source held before the call, and no byte
  outside the destination changes.
\<close>

theorem memmove_correct: "memmove m dst src num = mem_copied m dst src num"
proof (cases "dst < src \<or> dst \<ge> src + num")
  case True
  then show ?thesis by (auto simp: memmove_def intro!: memcpy_copied)
next
  case False
  then show ?thesis
    by (auto simp: memmove_def memmove_down_copied mem_copied_def fun_eq_iff)
qed

text \<open>
  \<^verbatim>\<open>stringIsEqual\<close> on a null-terminated string decides exactly whether the string equals the
  buffer with its trailing null bytes removed, and never reads past either of them.
\<close>

theorem stringIsEqual_iff:
  assumes "0 \<notin> set s" and "len \<le> length buf"
  shows "stringIsEqual (Some (s @ 0 # rest)) buf len =
     Inr (s = rev (dropWhile (\<lambda>b. b = 0) (rev (take len buf))))"
proof -
  obtain k where k: "trim_nul buf len = Inr k" "k \<le> len"
    "\<forall>i. k \<le> i \<and> i < len \<longrightarrow> buf ! i = 0" "k > 0 \<longrightarrow> buf ! (k - 1) \<noteq> 0"
    using trim_nul_le [OF assms(2)] by blast
  have split: "take len buf = take k buf @ take (len - k) (drop k buf)"
    using k(2) by (metis le_add_diff_inverse take_add)
  have zero: "\<forall>b\<in>set (take (len - k) (drop k buf)). b = 0"
    using k(2,3) assms(2) by (auto simp: in_set_conv_nth)
  have last: "take k buf = [] \<or> last (take k buf) \<noteq> 0"
    using k(2,4) assms(2) by (auto simp: last_conv_nth)
  have "dropWhile (\<lambda>b. b = 0) (rev (take k buf)) = rev (take k buf)"
    using last by (cases "take k buf" rule: rev_cases) auto
  moreover have "dropWhile (\<lambda>b. b = 0) (rev (take (len - k) (drop k buf)) @ rev (take k buf))
      = dropWhile (\<lambda>b. b = 0) (rev (take k buf))"
    using zero by (intro dropWhile_append2) simp
  ultimately have "rev (dropWhile (\<lambda>b. b = 0) (rev (take len buf))) = take k buf"
    using split by simp
  moreover have "stringIsEqual (Some (s @ 0 # rest)) buf len = Inr (s = take k buf)"
    using assms k by (simp add: stringIsEqual_def stringIsEqual_loop_iff)
  ultimately show ?thesis by simp
qed

theorem stringIsEqual_iff_witness:
  "stringIsEqual (Some ([117, 115, 116, 97, 114] @ 0 # [])) [117, 115, 116, 97, 114, 0] 6 = Inr True"
  using stringIsEqual_iff [of "[117, 115, 116, 97, 114]" 6 "[117, 115, 116, 97, 114, 0]" "[]"]
  by simp

text \<open>
  octal numbers round-trip: \<^verbatim>\<open>stringParseOctal\<close> reads back any number printed as \<open>w > 0\<close>
  octal digits with any number of blanks before and behind it, whether the field ends there or
  goes on with a null byte.
\<close>

theorem stringParseOctal_roundtrip:
  assumes "n < 8 ^ w" and "0 < w" and "k = 0 \<or> str = 0 # rest"
  shows "stringParseOctal (replicate a 0x20 @ octal_digits w n @ replicate b 0x20 @ str)
           (a + (w + (b + k))) = Inr (word_of_nat n)"
proof -
  obtain c cs where hd: "octal_digits w n = c # cs" "c \<noteq> 0x20"
    using octal_digits_hd [OF assms(2)] by blast
  have tail: "skip_spaces (replicate b 0x20 @ str) (b + k) = Inr (str, k)"
    using assms(3) by (auto simp: skip_spaces_replicate intro: skip_spaces_stop)
  have start: "skip_spaces (replicate a 0x20 @ octal_digits w n @ replicate b 0x20 @ str)
      (a + (w + (b + k))) = Inr (octal_digits w n @ replicate b 0x20 @ str, w + (b + k))"
    using hd by (auto simp: skip_spaces_replicate intro: skip_spaces_stop)
  have digits: "octal_loop 0 (octal_digits w n @ replicate b 0x20 @ str) (w + (b + k))
      = octal_loop (word_of_nat n) (replicate b 0x20 @ str) (b + k)"
    using octal_loop_append [OF length_octal_digits octal_loop_digits [OF assms(1), of 0]] by simp
  have stop: "octal_loop (word_of_nat n) (replicate b 0x20 @ str) (b + k)
      = Inr (word_of_nat n, replicate b 0x20 @ str, b + k)"
    using assms(3) by (cases b; cases k) auto
  show ?thesis
    using assms(3) by (auto simp: stringParseOctal_def start digits stop tail split: nat.split)
qed

theorem stringParseOctal_roundtrip_witness:
  "stringParseOctal (replicate 2 0x20 @ octal_digits 4 420 @ replicate 1 0x20 @ [0, 7])
     (2 + (4 + (1 + 2))) = Inr 420"
  using stringParseOctal_roundtrip [of 420 4 2 "[0, 7]" "[7]" 2 1] by simp

end
