(* ===== verification/PhysMem.thy ===== *)
theory PhysMem
  imports Prelude
begin

text \<open>
  The page bitmap of \<^verbatim>\<open>memory/physmem.c\<close>: reserving and freeing ranges of physical pages and
  allocating a free page.

  \<open>physMemMap\<close> is the source's array of 32768 dwords, a function on indices with every access
  checked against \<open>MAP_LONGS\<close>. A page \<open>p\<close> is reserved when bit \<open>p mod 32\<close> of dword
  \<open>p div 32\<close> is set (\<open>page_reserved\<close>). The record is extensible: paging adds its own fields
  to it. \<open>physMemExtra\<close> is the array of pointers to the tables with the per-page reference
  counts, \<open>None\<close> for \<^verbatim>\<open>NULL\<close>; the functions on it need the kernel's own page tables and
  follow in theory \<open>Refcount\<close>; initialization from the multiboot tables is in \<open>Boot\<close>.
\<close>

unbundle bit_operations_syntax

record physMemExtraInfo =
  present :: "1 word"
  ref :: "7 word"
  unpageable :: "1 word"
  avail :: "23 word"

record physmem =
  physMemExtra :: "nat \<Rightarrow> (nat \<Rightarrow> physMemExtraInfo) option"
  physMemMap :: "nat \<Rightarrow> u32"
  physMemInitialized :: bool
  ramSize :: u32

definition MAP_LONGS :: nat where "MAP_LONGS = (PAGE_COUNT + 31) div 32"

definition physMemRAMSize :: "'a physmem_scheme \<Rightarrow> u32" where
  "physMemRAMSize s = ramSize s"

definition physMemUsableMemory :: "'a physmem_scheme \<Rightarrow> u32 kres" where
  "physMemUsableMemory s = Inl NotImplemented"

definition physMemClearMemoryBits :: "bool \<Rightarrow> 'a physmem_scheme \<Rightarrow> 'a physmem_scheme" where
  "physMemClearMemoryBits reserved s =
     s\<lparr>physMemMap := fill (physMemMap s) 0 MAP_LONGS (if reserved then 0xFFFFFFFF else 0)\<rparr>"

text \<open>\<^verbatim>\<open>if (reserved) physMemMap[i] |= mask; else physMemMap[i] &= ~mask\<close>\<close>

definition set_long :: "bool \<Rightarrow> u32 \<Rightarrow> nat \<Rightarrow> (nat \<Rightarrow> u32) \<Rightarrow> nat \<Rightarrow> u32" where
  "set_long reserved msk i m =
     m(i := if reserved then m i OR msk else m i AND NOT msk)"

text \<open>The loop over full dwords; it yields the position and the length that are left.\<close>

function set_dwords :: "u32 \<Rightarrow> nat \<Rightarrow> nat \<Rightarrow> (nat \<Rightarrow> u32) \<Rightarrow> (nat \<Rightarrow> u32) \<times> nat \<times> nat" where
  "set_dwords msk longIndex len m =
     (if len \<ge> 32 then set_dwords msk (longIndex + 1) (len - 32) (m(longIndex := msk))
      else (m, longIndex, len))"
  by pat_completeness auto
termination by (relation "measure (\<lambda>(_, _, len, _). len)") auto

declare set_dwords.simps [simp del]

definition physMemSetMemoryBits ::
  "nat \<Rightarrow> nat \<Rightarrow> bool \<Rightarrow> 'a physmem_scheme \<Rightarrow> 'a physmem_scheme kres" where
  "physMemSetMemoryBits startIndex len reserved s =
     kassert (len < PAGE_COUNT) (
     kassert (startIndex < PAGE_COUNT - len) (
       let longIndex = startIndex div 32;
           longOffset = startIndex mod 32;
           (m, longIndex, len) =
             (if longOffset \<noteq> 0
              then (let (msk, len) =
                      (if len > 32 - longOffset
                       then (push_bit longOffset (0xFFFFFFFF :: u32), len - (32 - longOffset))
                       else (push_bit longOffset (push_bit len (1 :: u32) - 1), 0))
                    in (set_long reserved msk longIndex (physMemMap s), longIndex + 1, len))
              else (physMemMap s, longIndex, len));
           (m, longIndex, len) = set_dwords (if reserved then 0xFFFFFFFF else 0) longIndex len m
       in Inr (s\<lparr>physMemMap :=
            if len > 0 then set_long reserved (push_bit len 1 - 1) longIndex m else m\<rparr>)))"

text \<open>The page indices of a byte range, in the widths of the source.\<close>

definition stop_index :: "u64 \<Rightarrow> u32" where
  "stop_index end =
     (let stopIndex = ucast (drop_bit 12 end)
      in if stopIndex \<ge> 0x100000 then 0x100000 - 1 else stopIndex)"

definition physMemReserveMemory ::
  "u32 \<Rightarrow> u32 \<Rightarrow> 'a physmem_scheme \<Rightarrow> 'a physmem_scheme kres" where
  "physMemReserveMemory addr len s =
     (let startIndex = drop_bit 12 addr;
          stopIndex = stop_index (ucast addr + ucast len + 0xFFF)
      in kassert (startIndex \<le> stopIndex)
           (physMemSetMemoryBits (unat startIndex) (unat (stopIndex - startIndex)) True s))"

definition physMemFreeMemory ::
  "u32 \<Rightarrow> u32 \<Rightarrow> 'a physmem_scheme \<Rightarrow> 'a physmem_scheme kres" where
  "physMemFreeMemory addr len s =
     (let startIndex = drop_bit 12 (addr + 0xFFF);
          stopIndex = stop_index (ucast addr + ucast len)
      in kassert (startIndex \<le> stopIndex)
           (physMemSetMemoryBits (unat startIndex) (unat (stopIndex - startIndex)) False s))"

definition physMemPageOut :: "nat \<Rightarrow> 'a physmem_scheme \<Rightarrow> 'a physmem_scheme kres" where
  "physMemPageOut len s = Inl NotImplemented"

definition physMemPageIn :: "nat \<Rightarrow> 'a physmem_scheme \<Rightarrow> ('a physmem_scheme \<times> nat) kres" where
  "physMemPageIn hdd_index s = Inl NotImplemented"

text \<open>The two searches of \<^verbatim>\<open>physMemAllocPage\<close>: the first dword, of \<open>n\<close> from index \<open>i\<close>, that is not
  all ones, and the first clear bit of a dword, \<open>n\<close> bits being left to look at.\<close>

primrec find_long :: "(nat \<Rightarrow> u32) \<Rightarrow> nat \<Rightarrow> nat \<Rightarrow> nat" where
  "find_long m i 0 = i"
| "find_long m i (Suc n) = (if m i \<noteq> 0xFFFFFFFF then i else find_long m (i + 1) n)"

primrec find_offset :: "u32 \<Rightarrow> nat \<Rightarrow> nat \<Rightarrow> nat kres" where
  "find_offset w longOffset 0 = Inl OutOfFuel"
| "find_offset w longOffset (Suc n) =
     (if drop_bit longOffset w AND 1 \<noteq> 0 then find_offset w (longOffset + 1) n
      else Inr longOffset)"

primrec physMemAllocPage_try ::
  "nat \<Rightarrow> bool \<Rightarrow> 'a physmem_scheme \<Rightarrow> ('a physmem_scheme \<times> nat) kres" where
  "physMemAllocPage_try 0 lowmem s = Inl (SystemFailure ''OUT OF MEMORY'')"
| "physMemAllocPage_try (Suc n) lowmem s =
     (let start = if lowmem then 0 else 8;
          longIndex = find_long (physMemMap s) start (MAP_LONGS - start)
      in if longIndex < MAP_LONGS
         then kbind (find_offset (physMemMap s longIndex) 0 32) (\<lambda>longOffset.
                Inr (s\<lparr>physMemMap := (physMemMap s)(longIndex :=
                       physMemMap s longIndex OR push_bit longOffset 1)\<rparr>,
                     longIndex * 32 + longOffset))
         else kbind (physMemPageOut 1 s) (physMemAllocPage_try n lowmem))"

definition physMemAllocPage :: "bool \<Rightarrow> 'a physmem_scheme \<Rightarrow> ('a physmem_scheme \<times> nat) kres" where
  "physMemAllocPage lowmem s = physMemAllocPage_try 0x10 lowmem s"

text \<open>\<^verbatim>\<open>physMemDumpMemInfo\<close>: the runs of equal pages as (first page, page behind, reserved), with the
  source's skipping of uniform dwords, then the lines it prints and the usable memory.\<close>

function dump_loop :: "(nat \<Rightarrow> u32) \<Rightarrow> nat \<Rightarrow> bool \<Rightarrow> nat \<Rightarrow> (nat \<times> nat \<times> bool) list" where
  "dump_loop m startIndex reserved index =
     (if index < PAGE_COUNT \<and> m (index div 32) = (if reserved then 0xFFFFFFFF else 0)
      then dump_loop m startIndex reserved (index + (32 - index mod 32))
      else if index < PAGE_COUNT \<and> (drop_bit (index mod 32) (m (index div 32)) AND 1 \<noteq> 0) = reserved
      then dump_loop m startIndex reserved (index + 1)
      else (startIndex, index, reserved) #
        (if index \<ge> PAGE_COUNT then []
         else dump_loop m index (drop_bit (index mod 32) (m (index div 32)) AND 1 \<noteq> 0) (index + 1)))"
  by pat_completeness auto
termination
  by (relation "measure (\<lambda>(_, _, _, index). PAGE_COUNT - index)")
     (auto intro!: diff_less_mono2 simp: less_Suc_eq_le)

declare dump_loop.simps [simp del]

definition physMemDumpMemInfo :: "'a physmem_scheme \<Rightarrow> (u32 \<times> u32 \<times> bool) list \<times> u32" where
  "physMemDumpMemInfo s =
     (let lines = dump_loop (physMemMap s) 0 (physMemMap s 0 AND 1 \<noteq> 0) 0
      in (map (\<lambda>(startIndex, index, reserved).
            (push_bit 12 (word_of_nat startIndex), push_bit 12 (word_of_nat index) - 1, reserved)) lines,
          sum_list (map (\<lambda>(startIndex, index, reserved).
            if reserved then 0 else push_bit 12 (word_of_nat (index - startIndex))) lines)))"

text \<open>What the bitmap says of a page.\<close>

definition page_reserved :: "'a physmem_scheme \<Rightarrow> nat \<Rightarrow> bool" where
  "page_reserved s p \<longleftrightarrow> bit (physMemMap s (p div 32)) (p mod 32)"

section \<open>Bits of the map\<close>

definition map_bit :: "(nat \<Rightarrow> u32) \<Rightarrow> nat \<Rightarrow> bool" where
  "map_bit m p \<longleftrightarrow> bit (m (p div 32)) (p mod 32)"

lemma page_reserved_map_bit: "page_reserved s p = map_bit (physMemMap s) p"
  by (simp add: page_reserved_def map_bit_def)

lemma exp_minus_one_mask: "push_bit n 1 - 1 = (mask n :: 'a::len word)"
  by (simp add: mask_eq_exp_minus_1 push_bit_of_1)

lemma all_ones_u32: "(0xFFFFFFFF :: u32) = - 1"
  by simp

lemma map_bit_set_long:
  "map_bit (set_long r msk i m) p =
     (if p div 32 = i \<and> bit msk (p mod 32) then r else map_bit m p)"
  by (auto simp: map_bit_def set_long_def bit_and_iff bit_or_iff bit_not_iff)

lemma map_bit_upd_all:
  "map_bit (m(i := if r then 0xFFFFFFFF else 0)) p = (if p div 32 = i then r else map_bit m p)"
  by (auto simp: map_bit_def all_ones_u32 simp del: One_nat_def)

lemma div_32_iff: "p div 32 = i \<longleftrightarrow> 32 * i \<le> p \<and> p < 32 * i + (32::nat)"
  by auto

lemma set_dwords_bits:
  assumes "set_dwords (if r then 0xFFFFFFFF else 0) i n m = (m', i', n')"
  shows "n' < 32 \<and> 32 * i' + n' = 32 * i + n \<and> i \<le> i' \<and>
    (\<forall>p. map_bit m' p = (if 32 * i \<le> p \<and> p < 32 * i' then r else map_bit m p))"
  using assms
proof (induction "if r then 0xFFFFFFFF else 0 :: u32" i n m arbitrary: m' i' n' rule: set_dwords.induct)
  case (1 i n m)
  show ?case
  proof (cases "n \<ge> 32")
    case True
    let ?m = "m(i := if r then 0xFFFFFFFF else 0)"
    have "set_dwords (if r then 0xFFFFFFFF else 0) (i + 1) (n - 32) ?m = (m', i', n')"
      using "1.prems" True by (simp add: set_dwords.simps [of _ i])
    note IH = "1.hyps" [OF True this]
    have "map_bit m' p = (if 32 * i \<le> p \<and> p < 32 * i' then r else map_bit m p)" for p
      using IH True unfolding map_bit_upd_all div_32_iff by auto
    with IH True show ?thesis by auto
  next
    case False
    with "1.prems" show ?thesis by (auto simp: set_dwords.simps [of _ i])
  qed
qed

lemma div_mod_32E:
  obtains q r where "p = 32 * q + r" "r < (32::nat)" "p div 32 = q" "p mod 32 = r"
  by (metis mod_less_divisor mult_div_mod_eq zero_less_numeral)

lemma div_mod_range:
  assumes "n \<le> 32"
  shows "p div 32 = i \<and> p mod 32 < n \<longleftrightarrow> 32 * i \<le> p \<and> p < 32 * i + (n::nat)"
proof (rule div_mod_32E [of p])
  fix q r :: nat assume "p = 32 * q + r" "r < 32" "p div 32 = q" "p mod 32 = r"
  with assms show ?thesis by (cases q i rule: linorder_cases) auto
qed

lemma div_mod_32_eq: "p div 32 = q div 32 \<Longrightarrow> p mod 32 = q mod (32::nat) \<Longrightarrow> p = q"
  by (metis mult_div_mod_eq)

lemma map_bit_tail:
  assumes "n < 32"
  shows "map_bit (if n > 0 then set_long r (push_bit n 1 - 1) i m else m) p =
    (if 32 * i \<le> p \<and> p < 32 * i + n then r else map_bit m p)"
  using div_mod_range [of n p i] assms
  unfolding exp_minus_one_mask by (auto simp: map_bit_set_long bit_mask_word)

lemma map_bit_head:
  assumes "off < 32" "n \<le> 32 - off"
  shows "map_bit (set_long r (push_bit off (mask n)) i m) p =
    (if 32 * i + off \<le> p \<and> p < 32 * i + off + n then r else map_bit m p)"
proof -
  have "p div 32 = i \<and> off \<le> p mod 32 \<and> p mod 32 - off < n
      \<longleftrightarrow> 32 * i + off \<le> p \<and> p < 32 * i + off + n"
  proof (rule div_mod_32E [of p])
    fix q r :: nat assume "p = 32 * q + r" "r < 32" "p div 32 = q" "p mod 32 = r"
    with assms show ?thesis by (cases q i rule: linorder_cases) auto
  qed
  then show ?thesis
    by (auto simp: map_bit_set_long bit_push_bit_iff bit_mask_word)
qed

lemma mask_all: "n \<ge> 32 \<Longrightarrow> mask n = (0xFFFFFFFF :: u32)"
  by (rule bit_word_eqI) (auto simp: bit_mask_word all_ones_u32)

text \<open>The three phases of \<^verbatim>\<open>physMemSetMemoryBits\<close> put together.\<close>

lemma physMemSetMemoryBits_bits:
  assumes "len < PAGE_COUNT" "startIndex < PAGE_COUNT - len"
  shows "\<exists>m. physMemSetMemoryBits startIndex len r s = Inr (s\<lparr>physMemMap := m\<rparr>) \<and>
    (\<forall>p. map_bit m p =
       (if startIndex \<le> p \<and> p < startIndex + len then r else map_bit (physMemMap s) p))"
proof -
  let ?off = "startIndex mod 32" and ?i = "startIndex div 32"
  let ?k = "min len (32 - ?off)"
  define m1 where "m1 = (if ?off \<noteq> 0 then set_long r (push_bit ?off (mask ?k)) ?i (physMemMap s)
                         else physMemMap s)"
  define i1 where "i1 = (if ?off \<noteq> 0 then ?i + 1 else ?i)"
  define n1 where "n1 = (if ?off \<noteq> 0 then len - ?k else len)"
  obtain m2 i2 n2 where 2: "set_dwords (if r then 0xFFFFFFFF else 0) i1 n1 m1 = (m2, i2, n2)"
    by (metis prod_cases3)
  note dw = set_dwords_bits [OF 2]
  let ?m3 = "if n2 > 0 then set_long r (push_bit n2 1 - 1) i2 m2 else m2"
  have head: "map_bit m1 p = (if startIndex \<le> p \<and> p < startIndex + (len - n1) then r
      else map_bit (physMemMap s) p)" for p
    using map_bit_head [of ?off ?k r ?i "physMemMap s" p] mult_div_mod_eq [of 32 startIndex]
    by (auto simp: m1_def n1_def simp del: mult_div_mod_eq)
  have pos: "n1 = 0 \<or> startIndex + (len - n1) = 32 * i1"
    by (rule div_mod_32E [of startIndex]) (auto simp: i1_def n1_def min_def)
  have n1: "n1 \<le> len" by (simp add: n1_def)
  have tail: "map_bit ?m3 p = (if 32 * i2 \<le> p \<and> p < 32 * i2 + n2 then r else map_bit m2 p)" for p
    using dw by (intro map_bit_tail) simp
  have bits: "map_bit ?m3 p = (if startIndex \<le> p \<and> p < startIndex + len then r
      else map_bit (physMemMap s) p)" for p
  proof -
    have eq: "32 * i2 + n2 = 32 * i1 + n1" "i1 \<le> i2" using dw by auto
    have m2: "map_bit m2 p = (if 32 * i1 \<le> p \<and> p < 32 * i2 then r else map_bit m1 p)"
      using dw by blast
    show ?thesis
    proof (cases "n1 = 0")
      case True
      with eq have "i2 = i1" "n2 = 0" by auto
      with True show ?thesis unfolding tail m2 head by auto
    next
      case False
      with pos have "startIndex + len = 32 * i2 + n2" "startIndex + (len - n1) = 32 * i1"
        using eq n1 by auto
      with eq show ?thesis unfolding tail m2 head by auto
    qed
  qed
  have mask_k: "push_bit ?off (mask ?k) = (if len > 32 - ?off then push_bit ?off (0xFFFFFFFF :: u32)
      else push_bit ?off (push_bit len 1 - 1))"
  proof -
    have "push_bit ?off (mask (32 - ?off)) = push_bit ?off (- 1 :: u32)"
      by (rule bit_word_eqI) (auto simp: bit_push_bit_iff bit_mask_word bit_not_iff)
    then show ?thesis unfolding exp_minus_one_mask all_ones_u32 by (simp only: min_def split: if_split) simp
  qed
  have "physMemSetMemoryBits startIndex len r s = Inr (s\<lparr>physMemMap := ?m3\<rparr>)"
  proof (cases "?off = 0")
    case True
    with assms 2 show ?thesis
      by (simp add: physMemSetMemoryBits_def m1_def i1_def n1_def)
  next
    case False
    have "(m1, i1, n1) = (let (msk, len) =
        (if len > 32 - ?off then (push_bit ?off (0xFFFFFFFF :: u32), len - (32 - ?off))
         else (push_bit ?off (push_bit len (1 :: u32) - 1), 0))
        in (set_long r msk ?i (physMemMap s), ?i + 1, len))"
      using False mask_k by (auto simp: m1_def i1_def n1_def min_def)
    with False assms 2 show ?thesis
      by (simp add: physMemSetMemoryBits_def Let_def split_def)
  qed
  with bits show ?thesis by blast
qed

lemma physMemSetMemoryBits_Inr:
  assumes "physMemSetMemoryBits startIndex len r s = Inr s'"
  shows "\<exists>m. s' = s\<lparr>physMemMap := m\<rparr> \<and> page_reserved s' =
    (\<lambda>p. if startIndex \<le> p \<and> p < startIndex + len then r else page_reserved s p)"
proof -
  have "len < PAGE_COUNT" "startIndex < PAGE_COUNT - len"
    using assms by (auto simp: physMemSetMemoryBits_def)
  from physMemSetMemoryBits_bits [OF this, of r s] assms show ?thesis
    by (auto simp: page_reserved_map_bit fun_eq_iff)
qed

section \<open>Searching a free page\<close>

lemma find_long_spec:
  "i \<le> find_long m i n \<and> find_long m i n \<le> i + n \<and>
   (\<forall>j. i \<le> j \<and> j < find_long m i n \<longrightarrow> m j = 0xFFFFFFFF) \<and>
   (find_long m i n < i + n \<longrightarrow> m (find_long m i n) \<noteq> 0xFFFFFFFF)"
proof (induction n arbitrary: i)
  case 0
  then show ?case by auto
next
  case (Suc n)
  show ?case
  proof (cases "m i = 0xFFFFFFFF")
    case True
    then have "m j = 0xFFFFFFFF" if "i \<le> j" "j < find_long m (i + 1) n" for j
      using Suc [of "i + 1"] that by (cases "j = i") auto
    with True Suc [of "i + 1"] show ?thesis by auto
  qed auto
qed

lemma find_offset_spec:
  assumes "k < off + n" "\<not> bit w k" "\<forall>j. off \<le> j \<and> j < k \<longrightarrow> bit w j" "off \<le> k"
  shows "find_offset w off n = Inr k"
  using assms
proof (induction n arbitrary: off)
  case (Suc n)
  show ?case
  proof (cases "off = k")
    case True
    with Suc.prems show ?thesis by (simp add: drop_bit_and_one)
  next
    case False
    with Suc.prems have "bit w off" "find_offset w (off + 1) n = Inr k"
      by (auto intro!: Suc.IH)
    then show ?thesis by (simp add: drop_bit_and_one)
  qed
qed simp

lemma first_clear_bit:
  assumes "w \<noteq> (0xFFFFFFFF :: u32)"
  obtains k where "k < 32" "\<not> bit w k" "\<forall>j<k. bit w j"
proof -
  have "\<exists>k<32. \<not> bit w k"
  proof (rule ccontr)
    assume "\<not> ?thesis"
    then have "w = - 1" by (intro bit_word_eqI) auto
    with assms show False by simp
  qed
  then obtain k where "k < 32 \<and> \<not> bit w k" "\<forall>j<k. \<not> (j < 32 \<and> \<not> bit w j)"
    using exists_least_iff [of "\<lambda>k. k < 32 \<and> \<not> bit w k"] by auto
  then show thesis by (intro that [of k]) auto
qed

text \<open>The first page an allocation may return.\<close>

definition first_page :: "bool \<Rightarrow> nat" where
  "first_page lowmem = (if lowmem then 0 else 256)"

lemma map_longs: "MAP_LONGS = 32768"
  by (simp add: MAP_LONGS_def page_consts)

lemma page_reserved_full: "physMemMap s (p div 32) = 0xFFFFFFFF \<Longrightarrow> page_reserved s p"
  unfolding page_reserved_def all_ones_u32 by (simp only: bit_all_ones) simp

lemma physMemAllocPage_cases:
  "(\<exists>p. physMemAllocPage lowmem s = Inr (s\<lparr>physMemMap := (physMemMap s)(p div 32 :=
          physMemMap s (p div 32) OR push_bit (p mod 32) 1)\<rparr>, p)
       \<and> first_page lowmem \<le> p \<and> p < PAGE_COUNT \<and> \<not> page_reserved s p
       \<and> (\<forall>q. first_page lowmem \<le> q \<and> q < p \<longrightarrow> page_reserved s q))
   \<or> physMemAllocPage lowmem s = Inl NotImplemented
     \<and> (\<forall>q. first_page lowmem \<le> q \<and> q < PAGE_COUNT \<longrightarrow> page_reserved s q)"
proof -
  let ?st = "if lowmem then 0 else 8 :: nat"
  define i where "i = find_long (physMemMap s) ?st (MAP_LONGS - ?st)"
  have fp: "first_page lowmem = 32 * ?st" by (simp add: first_page_def)
  have i: "?st \<le> i" "i \<le> MAP_LONGS" "\<And>j. ?st \<le> j \<Longrightarrow> j < i \<Longrightarrow> physMemMap s j = 0xFFFFFFFF"
    and stop: "i < MAP_LONGS \<Longrightarrow> physMemMap s i \<noteq> 0xFFFFFFFF"
    using find_long_spec [of ?st "physMemMap s" "MAP_LONGS - ?st"]
    unfolding i_def [symmetric] by (auto simp: map_longs)
  have below: "page_reserved s q" if "first_page lowmem \<le> q" "q < 32 * i" for q
    using that i(3) [of "q div 32"] by (intro page_reserved_full) (auto simp: fp)
  show ?thesis
  proof (cases "i < MAP_LONGS")
    case True
    obtain k where k: "k < 32" "\<not> bit (physMemMap s i) k" "\<forall>j<k. bit (physMemMap s i) j"
      using first_clear_bit [OF stop [OF True]] by blast
    then have "find_offset (physMemMap s i) 0 32 = Inr k" by (intro find_offset_spec) auto
    then have run: "physMemAllocPage lowmem s = Inr (s\<lparr>physMemMap := (physMemMap s)(i :=
          physMemMap s i OR push_bit k 1)\<rparr>, i * 32 + k)"
      using True unfolding physMemAllocPage_def i_def by (simp add: numeral_eq_Suc Let_def)
    let ?p = "i * 32 + k"
    have dm: "?p div 32 = i" "?p mod 32 = k" using k(1) by auto
    have "page_reserved s q" if "first_page lowmem \<le> q" "q < ?p" for q
    proof (cases "q < 32 * i")
      case False
      have "q div 32 = i \<and> q mod 32 < k"
        using div_mod_range [of k q i] False that k(1) by auto
      with k(3) show ?thesis by (simp add: page_reserved_def)
    qed (use that below in blast)
    moreover have "first_page lowmem \<le> ?p" "?p < PAGE_COUNT"
      using i(1) True k(1) by (auto simp: fp map_longs page_consts)
    moreover have "\<not> page_reserved s ?p" using k(2) dm by (simp add: page_reserved_def)
    ultimately show ?thesis using run dm by (intro disjI1 exI [of _ ?p]) auto
  next
    case False
    then have "physMemAllocPage lowmem s = Inl NotImplemented"
      unfolding physMemAllocPage_def i_def
      by (simp add: numeral_eq_Suc Let_def physMemPageOut_def)
    moreover have "32 * i = PAGE_COUNT" using False i(2) by (simp add: map_longs page_consts)
    ultimately show ?thesis using below by auto
  qed
qed

lemma page_reserved_mark:
  "page_reserved (s\<lparr>physMemMap := (physMemMap s)(p div 32 :=
       physMemMap s (p div 32) OR push_bit (p mod 32) 1)\<rparr>) = (page_reserved s)(p := True)"
proof
  fix q
  show "page_reserved (s\<lparr>physMemMap := (physMemMap s)(p div 32 :=
       physMemMap s (p div 32) OR push_bit (p mod 32) 1)\<rparr>) q = ((page_reserved s)(p := True)) q"
    using div_mod_32_eq [of p q]
    by (auto simp: page_reserved_def bit_or_iff bit_push_one)
qed

lemma physMemAllocPage_Inr:
  assumes "physMemAllocPage lowmem s = Inr (s', p)"
  shows "s' = s\<lparr>physMemMap := physMemMap s'\<rparr> \<and> page_reserved s' = (page_reserved s)(p := True)
    \<and> \<not> page_reserved s p \<and> first_page lowmem \<le> p \<and> p < PAGE_COUNT"
  using physMemAllocPage_cases [of lowmem s] assms by (auto simp: page_reserved_mark)

section \<open>Byte ranges\<close>

lemma unat_stop_index: "unat (stop_index e) = min (unat e mod 2 ^ 44 div 4096) (PAGE_COUNT - 1)"
proof -
  have "unat (ucast (drop_bit 12 e) :: u32) = unat e div 4096 mod 2 ^ 32"
    by (simp add: unat_ucast_take unat_drop_bit_word)
  also have "\<dots> = unat e mod 2 ^ 44 div 4096"
    by (simp add: mod_mult2_eq [of "unat e" 4096 "2 ^ 32", simplified])
  finally show ?thesis
    unfolding stop_index_def Let_def
    by (auto simp: min_def page_consts word_le_nat_alt)
qed

lemma unat_u64_add3:
  "unat (ucast (a :: u32) + ucast (b :: u32) + c :: u64) = unat a + unat b + unat c"
  if "unat c < 2 ^ 32"
proof -
  have "unat (ucast a :: u64) = unat a" "unat (ucast b :: u64) = unat b"
    using unat_u32 [of a] unat_u32 [of b] by (simp_all add: unat_ucast_take)
  then show ?thesis
    using that unat_u32 [of a] unat_u32 [of b]
    by (simp add: unat_word_ariths)
qed

lemma physMemSetMemoryBits_range:
  fixes a b :: u32
  assumes "a \<le> b" "unat b < PAGE_COUNT"
  shows "\<exists>m. physMemSetMemoryBits (unat a) (unat (b - a)) r s = Inr (s\<lparr>physMemMap := m\<rparr>) \<and>
    (\<forall>p. map_bit m p = (if unat a \<le> p \<and> p < unat b then r else map_bit (physMemMap s) p))"
proof -
  have "unat a \<le> unat b" using assms(1) by (simp add: word_le_nat_alt)
  moreover have diff: "unat (b - a) = unat b - unat a" using assms(1) by (rule unat_sub_small)
  ultimately have "unat (b - a) < PAGE_COUNT" "unat a < PAGE_COUNT - unat (b - a)"
    using assms(2) by auto
  from physMemSetMemoryBits_bits [OF this, of r s] \<open>unat a \<le> unat b\<close> diff show ?thesis by simp
qed

text \<open>The runs of the dump are uniform, so the free ones add up to the free pages.\<close>

lemma free_pages_split:
  assumes "a \<le> b" "b \<le> c" "\<forall>p. a \<le> p \<and> p < b \<longrightarrow> P p = r"
  shows "card {p. a \<le> p \<and> p < (c::nat) \<and> \<not> P p} =
    (if r then 0 else b - a) + card {p. b \<le> p \<and> p < c \<and> \<not> P p}"
proof -
  have "{p. a \<le> p \<and> p < c \<and> \<not> P p} = (if r then {} else {a..<b}) \<union> {p. b \<le> p \<and> p < c \<and> \<not> P p}"
    using assms by (auto simp: not_less)
  moreover have "(if r then {} else {a..<b}) \<inter> {p. b \<le> p \<and> p < c \<and> \<not> P p} = {}" by auto
  ultimately have "card {p. a \<le> p \<and> p < c \<and> \<not> P p} =
      card (if r then {} else {a..<b}) + card {p. b \<le> p \<and> p < c \<and> \<not> P p}"
    by (simp add: card_Un_disjoint)
  then show ?thesis by simp
qed

lemma dump_loop_free:
  assumes "startIndex \<le> index" "index \<le> PAGE_COUNT"
    and "\<forall>p. startIndex \<le> p \<and> p < index \<longrightarrow> map_bit m p = reserved"
  shows "sum_list (map (\<lambda>(a, b, r). if r then 0 else b - a) (dump_loop m startIndex reserved index))
    = card {p. startIndex \<le> p \<and> p < PAGE_COUNT \<and> \<not> map_bit m p}"
  using assms
proof (induction m startIndex reserved index rule: dump_loop.induct)
  case (1 m startIndex reserved index)
  let ?b = "drop_bit (index mod 32) (m (index div 32)) AND 1 \<noteq> 0"
  have b: "?b = map_bit m index" by (simp only: drop_bit_and_one map_bit_def)
  consider (skip) "index < PAGE_COUNT" "m (index div 32) = (if reserved then 0xFFFFFFFF else 0)"
    | (same) "index < PAGE_COUNT" "m (index div 32) \<noteq> (if reserved then 0xFFFFFFFF else 0)" "?b = reserved"
    | (new) "index < PAGE_COUNT" "m (index div 32) \<noteq> (if reserved then 0xFFFFFFFF else 0)" "?b \<noteq> reserved"
    | (stop) "PAGE_COUNT \<le> index" by linarith
  then show ?case
  proof cases
    case skip
    let ?i = "index + (32 - index mod 32)"
    have "\<forall>p. startIndex \<le> p \<and> p < ?i \<longrightarrow> map_bit m p = reserved"
    proof (intro allI impI)
      fix p assume p: "startIndex \<le> p \<and> p < ?i"
      show "map_bit m p = reserved"
      proof (cases "p < index")
        case False
        with p have "p div 32 = index div 32"
          by (intro div_32_iff [THEN iffD2]) (auto intro: div_mod_32E [of index])
        with skip(2) show ?thesis
          unfolding map_bit_def all_ones_u32 by (cases reserved) (simp_all only: bit_all_ones, simp_all)
      qed (use "1.prems" p in blast)
    qed
    moreover have "?i \<le> PAGE_COUNT"
      by (rule div_mod_32E [of index]) (use skip(1) in \<open>simp add: page_consts\<close>)
    moreover have "dump_loop m startIndex reserved index = dump_loop m startIndex reserved ?i"
      using skip by (simp add: dump_loop.simps [of _ _ _ index])
    ultimately show ?thesis using "1.IH"(1) [OF conjI [OF skip]] "1.prems"(1) by simp
  next
    case same
    then have "map_bit m index = reserved" using b by simp
    then have "\<forall>p. startIndex \<le> p \<and> p < index + 1 \<longrightarrow> map_bit m p = reserved"
      using "1.prems"(3) by (auto simp: less_Suc_eq)
    moreover have "dump_loop m startIndex reserved index = dump_loop m startIndex reserved (index + 1)"
      using same by (simp add: dump_loop.simps [of _ _ _ index])
    ultimately show ?thesis using "1.IH"(2) same "1.prems"(1) by simp
  next
    case new
    have "\<forall>p. index \<le> p \<and> p < index + 1 \<longrightarrow> map_bit m p = ?b"
      unfolding b by (auto simp: less_Suc_eq)
    then have "sum_list (map (\<lambda>(a, b, r). if r then 0 else b - a) (dump_loop m index ?b (index + 1)))
        = card {p. index \<le> p \<and> p < PAGE_COUNT \<and> \<not> map_bit m p}"
      using "1.IH"(3) new by simp
    moreover have "dump_loop m startIndex reserved index =
        (startIndex, index, reserved) # dump_loop m index ?b (index + 1)"
      using new by (simp add: dump_loop.simps [of _ _ _ index])
    ultimately show ?thesis
      using free_pages_split [OF "1.prems"] new(1) by simp
  next
    case stop
    then have "dump_loop m startIndex reserved index = [(startIndex, index, reserved)]"
      by (simp add: dump_loop.simps [of _ _ _ index])
    moreover have "{p. index \<le> p \<and> p < PAGE_COUNT \<and> \<not> map_bit m p} = {}" using stop by auto
    ultimately show ?thesis
      using free_pages_split [OF "1.prems"] by simp
  qed
qed

section \<open>Properties\<close>

text \<open>
  C16: \<^verbatim>\<open>physMemSetMemoryBits\<close>, with its partial first dword, its loop over full dwords and its
  partial last dword, changes exactly the pages of the requested range, for every position and
  length: it stops the machine only if the range does not fit below \<^verbatim>\<open>PAGE_COUNT\<close>.
\<close>

theorem physMemSetMemoryBits_spec:
  "case physMemSetMemoryBits startIndex len r s of
     Inl e \<Rightarrow> e = AssertFailed \<and> PAGE_COUNT \<le> startIndex + len
   | Inr s' \<Rightarrow> startIndex + len < PAGE_COUNT
       \<and> page_reserved s' = (\<lambda>p. if startIndex \<le> p \<and> p < startIndex + len then r
                                else page_reserved s p)"
proof (cases "startIndex + len < PAGE_COUNT")
  case True
  then have "len < PAGE_COUNT" "startIndex < PAGE_COUNT - len" by auto
  from physMemSetMemoryBits_bits [OF this, of r s] True show ?thesis
    by (auto simp add: page_reserved_map_bit fun_eq_iff)
next
  case False
  then show ?thesis by (auto simp: physMemSetMemoryBits_def kassert_def)
qed

text \<open>
  C29: \<^verbatim>\<open>physMemAllocPage\<close> returns the lowest free page at or above 1 MB (or above 0 with
  \<^verbatim>\<open>lowmem\<close>), marks exactly that page as reserved, and fails only if every such page is
  reserved; it then ends in the unimplemented page-out.
\<close>

theorem physMemAllocPage_first_free:
  "case physMemAllocPage lowmem s of
     Inl e \<Rightarrow> e = NotImplemented \<and> {first_page lowmem..<PAGE_COUNT} \<subseteq> Collect (page_reserved s)
   | Inr (s', p) \<Rightarrow> first_page lowmem \<le> p \<and> p < PAGE_COUNT \<and> \<not> page_reserved s p
       \<and> {first_page lowmem..<p} \<subseteq> Collect (page_reserved s)
       \<and> page_reserved s' = (page_reserved s)(p := True)"
  using physMemAllocPage_cases [of lowmem s] by (auto simp: page_reserved_mark)

text \<open>
  \<^verbatim>\<open>physMemReserveMemory\<close> always returns, and reserves exactly the pages that the byte range
  touches, except that the very last page of the address space is never reserved.
\<close>

theorem physMemReserveMemory_pages:
  "\<exists>s'. physMemReserveMemory addr len s = Inr s' \<and>
     page_reserved s' = (\<lambda>p. page_reserved s p \<or>
       unat addr div PAGE_SIZE \<le> p \<and>
       p < min ((unat addr + unat len + PAGE_MASK) div PAGE_SIZE) (PAGE_COUNT - 1))"
proof -
  let ?a = "drop_bit 12 addr" and ?b = "stop_index (ucast addr + ucast len + 0xFFF)"
  have a: "unat ?a = unat addr div PAGE_SIZE" by (simp add: unat_drop_bit_word page_consts)
  have "unat addr + unat len + 0xFFF < 2 ^ 44"
    using unat_u32 [of addr] unat_u32 [of len] by simp
  then have b: "unat ?b = min ((unat addr + unat len + PAGE_MASK) div PAGE_SIZE) (PAGE_COUNT - 1)"
    by (simp add: unat_stop_index unat_u64_add3 page_consts)
  have "unat ?a \<le> unat ?b"
    using unat_u32 [of addr] unfolding a b by (auto simp: page_consts intro: div_le_mono)
  then have "?a \<le> ?b" by (simp add: word_le_nat_alt)
  moreover have "unat ?b < PAGE_COUNT" by (simp add: b page_consts)
  ultimately show ?thesis
    using physMemSetMemoryBits_range [of ?a ?b True s]
    by (auto simp: physMemReserveMemory_def Let_def page_reserved_map_bit fun_eq_iff a b)
qed

text \<open>
  \<^verbatim>\<open>physMemFreeMemory\<close> on every input: it frees exactly the pages that lie completely inside
  the byte range, stops the machine if there is none and the range does not end on the page
  boundary before it, and for an address in the last page the rounding wraps, so that all pages
  from page 0 on are freed.
\<close>

theorem physMemFreeMemory_pages:
  "let a = (if unat addr \<le> 0xFFFFF000 then (unat addr + PAGE_MASK) div PAGE_SIZE else 0);
       b = min ((unat addr + unat len) div PAGE_SIZE) (PAGE_COUNT - 1)
   in if a \<le> b
      then \<exists>s'. physMemFreeMemory addr len s = Inr s' \<and>
             page_reserved s' = (\<lambda>p. page_reserved s p \<and> \<not> (a \<le> p \<and> p < b))
      else physMemFreeMemory addr len s = Inl AssertFailed"
proof -
  let ?a = "drop_bit 12 (addr + 0xFFF)" and ?b = "stop_index (ucast addr + ucast len)"
  have "unat (addr + 0xFFF) = (unat addr + 0xFFF) mod 2 ^ 32"
    by (simp add: unat_word_ariths)
  also have "\<dots> = (if unat addr \<le> 0xFFFFF000 then unat addr + 0xFFF else unat addr + 0xFFF - 2 ^ 32)"
    using unat_u32 [of addr] by (auto simp: mod_if)
  finally have a: "unat ?a = (if unat addr \<le> 0xFFFFF000 then (unat addr + PAGE_MASK) div PAGE_SIZE else 0)"
    using unat_u32 [of addr] by (auto simp: unat_drop_bit_word page_consts)
  have "unat addr + unat len < 2 ^ 44"
    using unat_u32 [of addr] unat_u32 [of len] by simp
  then have b: "unat ?b = min ((unat addr + unat len) div PAGE_SIZE) (PAGE_COUNT - 1)"
    using unat_u64_add3 [of 0 addr len] by (simp add: unat_stop_index page_consts)
  have le: "?a \<le> ?b \<longleftrightarrow> unat ?a \<le> unat ?b" by (simp add: word_le_nat_alt)
  have "unat ?b < PAGE_COUNT" by (simp add: b page_consts)
  then show ?thesis
    unfolding Let_def a [symmetric] b [symmetric] le [symmetric]
    using physMemSetMemoryBits_range [of ?a ?b False s]
    by (auto simp: physMemFreeMemory_def Let_def page_reserved_map_bit fun_eq_iff)
qed

text \<open>
  the memory dump reports the usable memory correctly: the free runs it prints add up to the
  size of all free pages, although it skips over uniform dwords.
\<close>

theorem physMemDumpMemInfo_usable:
  "snd (physMemDumpMemInfo s) =
     word_of_nat (PAGE_SIZE * card {p. p < PAGE_COUNT \<and> \<not> page_reserved s p})"
proof -
  let ?r = "physMemMap s 0 AND 1 \<noteq> 0"
  let ?xs = "dump_loop (physMemMap s) 0 ?r 0"
  have sum: "sum_list (map (\<lambda>(a, b, r). if r then 0 else push_bit 12 (word_of_nat (b - a) :: u32)) xs)
      = word_of_nat (PAGE_SIZE * sum_list (map (\<lambda>(a, b, r). if r then 0 else b - a) xs))" for xs
    by (induction xs) (auto simp: push_bit_eq_mult page_consts algebra_simps)
  have "sum_list (map (\<lambda>(a, b, r). if r then 0 else b - a) ?xs)
      = card {p. 0 \<le> p \<and> p < PAGE_COUNT \<and> \<not> map_bit (physMemMap s) p}"
    by (rule dump_loop_free) auto
  then show ?thesis
    by (simp add: physMemDumpMemInfo_def Let_def sum page_reserved_map_bit)
qed

end
