(* ===== verification/Ranges.thy ===== *)
theory Ranges
  imports Prelude
begin

text \<open>
  Sorted lists of disjoint page ranges. The boot map of \<^verbatim>\<open>paging.c\<close> and the list of required
  pages of the ELF loader are both kept in this form, by the same insertion algorithm: skip the
  ranges in front, stop if the new range is already covered, otherwise absorb every range that
  overlaps or touches it.

  \<open>ins_range\<close> is that algorithm on pairs (first page, page behind the last). The locale
  \<open>range_set\<close> is the interface the callers rely on: an insertion keeps the invariant and adds
  exactly the inserted pages. Its lemmas are about inserting a whole sequence of ranges; it is
  interpreted in theory \<open>Boot\<close> on the boot map and in theory \<open>Elf\<close> on the loader's list.
\<close>

type_synonym range = "nat \<times> nat"

text \<open>Sorted, with a gap between neighbours: no two ranges overlap or touch.\<close>

definition separated :: "range list \<Rightarrow> bool" where
  "separated rs \<longleftrightarrow> sorted_wrt (\<lambda>(a, b) (c, d). b < c) rs \<and> (\<forall>(a, b)\<in>set rs. a \<le> b)"

definition pages_of :: "range list \<Rightarrow> nat set" where
  "pages_of rs = (\<Union>(a, b)\<in>set rs. {a..<b})"

fun ins_range :: "range list \<Rightarrow> nat \<Rightarrow> nat \<Rightarrow> range list" where
  "ins_range [] start stop = [(start, stop)]"
| "ins_range ((a, b) # rs) start stop =
     (if stop < a then (start, stop) # (a, b) # rs
      else if b < start then (a, b) # ins_range rs start stop
      else if a \<le> start \<and> stop \<le> b then (a, b) # rs
      else ins_range rs (min a start) (max b stop))"

lemma separated_Nil [simp]: "separated []"
  by (simp add: separated_def)

lemma separated_Cons:
  "separated ((a, b) # rs) \<longleftrightarrow> a \<le> b \<and> (\<forall>(c, d)\<in>set rs. b < c) \<and> separated rs"
  by (auto simp: separated_def)

lemma pages_of_Nil [simp]: "pages_of [] = {}"
  by (simp add: pages_of_def)

lemma pages_of_Cons [simp]: "pages_of ((a, b) # rs) = {a..<b} \<union> pages_of rs"
  by (simp add: pages_of_def)

text \<open>The absorbing step in the form the C code has it.\<close>

lemma ins_range_merge:
  assumes "\<not> stop < a" "\<not> b < start" "\<not> (a \<le> start \<and> stop \<le> b)"
  shows "ins_range ((a, b) # rs) start stop =
    ins_range rs (if a < start then a else start) (if b > stop then b else stop)"
proof -
  have "(if a < start then a else start) = min a start" "(if b > stop then b else stop) = max b stop"
    by auto
  with assms show ?thesis by (simp only: ins_range.simps if_False if_not_P)
qed

lemma ins_range_above:
  assumes "\<forall>(c, d)\<in>set rs. k < c" "k < start"
  shows "\<forall>(c, d)\<in>set (ins_range rs start stop). k < c"
  using assms by (induction rs start stop rule: ins_range.induct) auto

lemma ins_range_separated:
  "separated rs \<Longrightarrow> start \<le> stop \<Longrightarrow> separated (ins_range rs start stop)"
proof (induction rs start stop rule: ins_range.induct)
  case (2 a b rs start stop)
  show ?case
  proof (cases "stop < a \<or> b < start")
    case True
    with 2 ins_range_above [of rs b start stop] show ?thesis
      by (auto simp: separated_Cons)
  next
    case False
    with 2 show ?thesis by (auto simp: separated_Cons)
  qed
qed (simp add: separated_def)

lemma ins_range_pages:
  "separated rs \<Longrightarrow> start \<le> stop \<Longrightarrow>
     pages_of (ins_range rs start stop) = pages_of rs \<union> {start..<stop}"
proof (induction rs start stop rule: ins_range.induct)
  case (2 a b rs start stop)
  consider "stop < a" | "\<not> stop < a" "b < start" | "\<not> stop < a" "\<not> b < start" "a \<le> start \<and> stop \<le> b"
    | "\<not> stop < a" "\<not> b < start" "\<not> (a \<le> start \<and> stop \<le> b)" by blast
  then show ?case
  proof cases
    case 4
    have "a \<le> b" "separated rs" using "2.prems" by (auto simp: separated_Cons)
    then have "pages_of (ins_range rs (min a start) (max b stop))
        = pages_of rs \<union> {min a start..<max b stop}"
      using 4 "2.prems" by (intro "2.IH"(2)) auto
    moreover have "{min a start..<max b stop} = {a..<b} \<union> {start..<stop}"
      using 4 \<open>a \<le> b\<close> "2.prems"(2) by auto
    ultimately show ?thesis using 4 by auto
  qed (use 2 in \<open>auto simp: separated_Cons\<close>)
qed simp

section \<open>The interface of a set of ranges\<close>

text \<open>
  \<open>ok\<close> is the invariant of the concrete container, \<open>pages\<close> the set of pages it stands for, and
  \<open>fits\<close> says when a range may be inserted; an insertion may fail only by returning an error.
\<close>

locale range_set =
  fixes ok :: "'s \<Rightarrow> bool"
    and pages :: "'s \<Rightarrow> nat set"
    and insert_range :: "nat \<Rightarrow> nat \<Rightarrow> 's \<Rightarrow> 's kres"
  assumes insert_ok: "ok s \<Longrightarrow> a \<le> b \<Longrightarrow> insert_range a b s = Inr s' \<Longrightarrow> ok s'"
    and insert_pages: "ok s \<Longrightarrow> a \<le> b \<Longrightarrow> insert_range a b s = Inr s' \<Longrightarrow>
          pages s' = pages s \<union> {a..<b}"
begin

primrec insert_all :: "range list \<Rightarrow> 's \<Rightarrow> 's kres" where
  "insert_all [] s = Inr s"
| "insert_all (r # rs) s = kbind (insert_range (fst r) (snd r) s) (insert_all rs)"

lemma insert_all_pages:
  assumes "ok s" "\<forall>(a, b)\<in>set rs. a \<le> b" "insert_all rs s = Inr s'"
  shows "ok s' \<and> pages s' = pages s \<union> pages_of rs"
  using assms
proof (induction rs arbitrary: s)
  case (Cons r rs)
  then obtain t where t: "insert_range (fst r) (snd r) s = Inr t" "insert_all rs t = Inr s'"
    by auto
  have "fst r \<le> snd r" using Cons.prems(2) by auto
  with t Cons.prems(1) have "ok t" "pages t = pages s \<union> {fst r..<snd r}"
    by (auto intro: insert_ok simp: insert_pages)
  with Cons.IH [of t] Cons.prems(2) t(2) show ?case
    by (cases r) auto
qed simp

text \<open>Only the set of inserted pages matters, not the order or the number of insertions.\<close>

lemma insert_all_order:
  assumes "ok s" "\<forall>(a, b)\<in>set rs. a \<le> b" "insert_all rs s = Inr t"
    and "\<forall>(a, b)\<in>set rs'. a \<le> b" "insert_all rs' s = Inr t'" "pages_of rs = pages_of rs'"
  shows "pages t = pages t'"
  using insert_all_pages [OF assms(1-3)] insert_all_pages [OF assms(1) assms(4,5)] assms(6) by simp

end

end
