(* ===== verification/Boot.thy ===== *)
theory Boot
  imports PhysMem Ranges Util
begin

text \<open>
  The boot map of \<^verbatim>\<open>memory/paging.c\<close> and the initialization of the physical memory from the
  multiboot tables (\<^verbatim>\<open>physMemInit\<close>, \<^verbatim>\<open>physMemProtectBootEntry\<close>).

  The source's array \<^verbatim>\<open>pagingBootMap\<close> with its counter is a list of entries; shifting entries to
  remove or insert one is \<open>take\<close>/\<open>drop\<close> on that list. Page indices are natural numbers: all of
  them are at most \<^verbatim>\<open>PAGE_COUNT\<close>, so the 32-bit sums of the source do not wrap. The memory map
  of the boot loader is a function from the byte offset to the entry found there, walked with
  the source's 32-bit offset; the walk is given as much fuel as the map has bytes, and
  \<open>OutOfFuel\<close> means that the source loops forever.
\<close>

unbundle bit_operations_syntax

record bootMapEntry =
  startIndex :: nat
  mapLength :: nat

record bootmem = physmem +
  pagingBootMap :: "bootMapEntry list"
  pagingInitialized :: bool

definition MAX_BOOT_ENTRIES :: nat where "MAX_BOOT_ENTRIES = 1024"

definition entry_stop :: "bootMapEntry \<Rightarrow> nat" where
  "entry_stop e = startIndex e + mapLength e"

definition bootMap_insert :: "bootMapEntry list \<Rightarrow> nat \<Rightarrow> nat \<Rightarrow> nat \<Rightarrow> bootMapEntry list kres" where
  "bootMap_insert m mapIndex start stop =
     kassert (length m < MAX_BOOT_ENTRIES)
       (Inr (take mapIndex m @ \<lparr>startIndex = start, mapLength = stop - start\<rparr> # drop mapIndex m))"

function bootMap_loop :: "bootMapEntry list \<Rightarrow> nat \<Rightarrow> nat \<Rightarrow> nat \<Rightarrow> bootMapEntry list kres" where
  "bootMap_loop m mapIndex start stop =
     (if mapIndex < length m
      then (let e = m ! mapIndex
            in if stop < startIndex e then bootMap_insert m mapIndex start stop
               else if entry_stop e < start then bootMap_loop m (mapIndex + 1) start stop
               else if start \<ge> startIndex e \<and> stop \<le> entry_stop e then Inr m
               else bootMap_loop (take mapIndex m @ drop (mapIndex + 1) m) mapIndex
                      (if startIndex e < start then startIndex e else start)
                      (if entry_stop e > stop then entry_stop e else stop))
      else bootMap_insert m mapIndex start stop)"
  by pat_completeness auto
termination by (relation "measure (\<lambda>(m, i, _, _). length m - i)") auto

declare bootMap_loop.simps [simp del]

definition pagingInsertBootMap :: "nat \<Rightarrow> nat \<Rightarrow> 'a bootmem_scheme \<Rightarrow> 'a bootmem_scheme kres" where
  "pagingInsertBootMap start stop s =
     kassert (\<not> pagingInitialized s)
       (kbind (bootMap_loop (pagingBootMap s) 0 start stop) (\<lambda>m. Inr (s\<lparr>pagingBootMap := m\<rparr>)))"

text \<open>\<^verbatim>\<open>__pagingBootMapCheck\<close>: does the range overlap an entry? The search stops at the first entry
  behind the range.\<close>

primrec pagingBootMapCheck :: "nat \<Rightarrow> nat \<Rightarrow> bootMapEntry list \<Rightarrow> bool" where
  "pagingBootMapCheck start stop [] = False"
| "pagingBootMapCheck start stop (e # m) =
     (if stop \<le> startIndex e then False
      else if entry_stop e \<le> start then pagingBootMapCheck start stop m
      else True)"

definition pagingDumpBootMap :: "'a bootmem_scheme \<Rightarrow> (u32 \<times> u32) list" where
  "pagingDumpBootMap s =
     map (\<lambda>e. (push_bit 12 (word_of_nat (startIndex e)),
               push_bit 12 (word_of_nat (entry_stop e)) - 1)) (pagingBootMap s)"

definition physMemProtectBootEntry ::
  "u32 \<Rightarrow> u32 \<Rightarrow> 'a bootmem_scheme \<Rightarrow> 'a bootmem_scheme kres" where
  "physMemProtectBootEntry addr len s =
     (let start = drop_bit 12 addr;
          stop = stop_index (ucast addr + ucast len + 0xFFF)
      in kassert (start \<le> stop)
           (kbind (pagingInsertBootMap (unat start) (unat stop) s) (\<lambda>s.
              physMemSetMemoryBits (unat start) (unat (stop - start)) True s)))"

section \<open>The multiboot information\<close>

record multiboot_mmap_entry =
  mm_size :: u32
  mm_addr :: u64
  mm_len :: u64
  mm_type :: u32

record multiboot_module =
  mod_start :: u32
  mod_end :: u32

record multiboot_info =
  bi_addr :: u32
  flags :: u32
  mem_upper :: u32
  cmdline :: u32
  cmdline_text :: "u8 list"
  mods_count :: u32
  mods_addr :: u32
  mods :: "nat \<Rightarrow> multiboot_module"
  mmap_length :: u32
  mmap_addr :: u32
  mmap :: "u32 \<Rightarrow> multiboot_mmap_entry"

text \<open>The page range of a memory map entry, or nothing when the source skips the entry.\<close>

definition mmap_pages :: "multiboot_mmap_entry \<Rightarrow> (u64 \<times> u64) option" where
  "mmap_pages memMap =
     (if mm_type memMap AND 1 = 0 then None
      else let start = drop_bit 12 (mm_addr memMap + 0xFFF);
               stop = drop_bit 12 (mm_addr memMap + mm_len memMap)
           in if stop \<le> start then None
              else if start \<ge> 0x100000 then None
              else Some (start, if stop \<ge> 0x100000 then 0x100000 - 1 else stop))"

primrec mmap_loop :: "nat \<Rightarrow> multiboot_info \<Rightarrow> u32 \<Rightarrow> 'a bootmem_scheme \<Rightarrow> 'a bootmem_scheme kres" where
  "mmap_loop 0 bootInfo offset s = (if offset < mmap_length bootInfo then Inl OutOfFuel else Inr s)"
| "mmap_loop (Suc n) bootInfo offset s =
     (if offset < mmap_length bootInfo
      then (let memMap = mmap bootInfo offset;
                offset = offset + 4 + mm_size memMap
            in case mmap_pages memMap of
                 None \<Rightarrow> mmap_loop n bootInfo offset s
               | Some (start, stop) \<Rightarrow>
                   kbind (physMemSetMemoryBits (unat start) (unat (stop - start)) False s)
                     (mmap_loop n bootInfo offset))
      else Inr s)"

text \<open>The loop over the modules: \<open>n\<close> of them are left, the next one is \<open>i\<close>.\<close>

primrec mods_loop :: "nat \<Rightarrow> nat \<Rightarrow> multiboot_info \<Rightarrow> 'a bootmem_scheme \<Rightarrow> 'a bootmem_scheme kres" where
  "mods_loop 0 i bootInfo s = Inr s"
| "mods_loop (Suc n) i bootInfo s =
     (let m = mods bootInfo i
      in if mod_start m \<ge> mod_end m then mods_loop n (i + 1) bootInfo s
         else kbind (physMemProtectBootEntry (mod_start m) (mod_end m - mod_start m) s)
                (mods_loop n (i + 1) bootInfo))"

text \<open>\<open>kernelBegin\<close> and \<open>kernelSize\<close> are the linker's symbols; 120 and 16 are the sizes of
  \<^verbatim>\<open>multiboot_info_t\<close> and \<^verbatim>\<open>multiboot_module_t\<close>.\<close>

definition physMemInit ::
  "u32 \<Rightarrow> u32 \<Rightarrow> multiboot_info \<Rightarrow> 'a bootmem_scheme \<Rightarrow> 'a bootmem_scheme kres" where
  "physMemInit kernelBegin kernelSize bootInfo s =
     kassert (\<not> physMemInitialized s) (
     kassert (bi_addr bootInfo \<noteq> 0) (
       let s = s\<lparr>physMemExtra := (\<lambda>_. None)\<rparr>
       in kassert (flags bootInfo AND 0x40 \<noteq> 0) (
            let s = physMemClearMemoryBits True (s\<lparr>ramSize := mem_upper bootInfo\<rparr>)
            in kassert (flags bootInfo AND 0x2 \<noteq> 0) (
               kbind (mmap_loop (unat (mmap_length bootInfo)) bootInfo 0 s) (\<lambda>s.
               kbind (physMemProtectBootEntry kernelBegin kernelSize s) (\<lambda>s.
               kbind (physMemProtectBootEntry (bi_addr bootInfo) 120 s) (\<lambda>s.
               kbind (physMemProtectBootEntry (mmap_addr bootInfo) (mmap_length bootInfo) s) (\<lambda>s.
               kbind (if flags bootInfo AND 0x4 \<noteq> 0
                      then kbind (stringLength (if cmdline bootInfo = 0 then None
                                                else Some (cmdline_text bootInfo))) (\<lambda>len.
                             physMemProtectBootEntry (cmdline bootInfo) len s)
                      else Inr s) (\<lambda>s.
               kbind (if flags bootInfo AND 0x8 \<noteq> 0
                      then kbind (physMemProtectBootEntry (mods_addr bootInfo)
                                    (mods_count bootInfo * 16) s)
                             (mods_loop (unat (mods_count bootInfo)) 0 bootInfo)
                      else Inr s) (\<lambda>s.
               Inr (s\<lparr>physMemInitialized := True\<rparr>)))))))))))"

text \<open>The pages of a protected byte range, and all byte ranges that \<^verbatim>\<open>physMemInit\<close> protects.\<close>

definition protect_pages :: "u32 \<Rightarrow> u32 \<Rightarrow> nat set" where
  "protect_pages addr len =
     {unat addr div PAGE_SIZE..<min ((unat addr + unat len + PAGE_MASK) div PAGE_SIZE) (PAGE_COUNT - 1)}"

definition module_pages :: "multiboot_info \<Rightarrow> nat set \<Rightarrow> nat set" where
  "module_pages bootInfo I =
     (\<Union>i\<in>{i\<in>I. mod_start (mods bootInfo i) < mod_end (mods bootInfo i)}.
        protect_pages (mod_start (mods bootInfo i))
          (mod_end (mods bootInfo i) - mod_start (mods bootInfo i)))"

definition mmap_range :: "multiboot_mmap_entry \<Rightarrow> nat set" where
  "mmap_range e = (case mmap_pages e of None \<Rightarrow> {} | Some (a, b) \<Rightarrow> {unat a..<unat b})"

definition brange :: "bootMapEntry \<Rightarrow> range" where
  "brange e = (startIndex e, entry_stop e)"

definition boot_ok :: "'a bootmem_scheme \<Rightarrow> bool" where
  "boot_ok s \<longleftrightarrow> separated (map brange (pagingBootMap s)) \<and> length (pagingBootMap s) \<le> MAX_BOOT_ENTRIES"

definition boot_pages :: "'a bootmem_scheme \<Rightarrow> nat set" where
  "boot_pages s = pages_of (map brange (pagingBootMap s))"

section \<open>The boot map is a set of ranges\<close>

lemma bootMap_insert_refines:
  assumes "bootMap_insert m i start stop = Inr m'" "start \<le> stop"
  shows "map brange m' = map brange (take i m) @ (start, stop) # map brange (drop i m)
    \<and> length m' \<le> MAX_BOOT_ENTRIES"
  using assms by (auto simp: bootMap_insert_def brange_def entry_stop_def)

lemma bootMap_loop_refines:
  assumes "bootMap_loop m i start stop = Inr m'" "start \<le> stop" "i \<le> length m"
    "length m \<le> MAX_BOOT_ENTRIES"
  shows "map brange m' = map brange (take i m) @ ins_range (map brange (drop i m)) start stop
    \<and> length m' \<le> MAX_BOOT_ENTRIES"
  using assms
proof (induction m i start stop rule: bootMap_loop.induct)
  case (1 m i start stop)
  show ?case
  proof (cases "i < length m")
    case False
    with 1 show ?thesis by (auto simp: bootMap_loop.simps [of m] dest!: bootMap_insert_refines)
  next
    case True
    let ?e = "m ! i"
    have split: "map brange (drop i m) = (startIndex ?e, entry_stop ?e) # map brange (drop (i + 1) m)"
      using True by (simp add: Cons_nth_drop_Suc [symmetric] brange_def)
    have unf: "bootMap_loop m i start stop =
        (if stop < startIndex ?e then bootMap_insert m i start stop
         else if entry_stop ?e < start then bootMap_loop m (i + 1) start stop
         else if start \<ge> startIndex ?e \<and> stop \<le> entry_stop ?e then Inr m
         else bootMap_loop (take i m @ drop (i + 1) m) i
                (if startIndex ?e < start then startIndex ?e else start)
                (if entry_stop ?e > stop then entry_stop ?e else stop))"
      using True by (simp add: bootMap_loop.simps [of m] Let_def)
    consider (front) "stop < startIndex ?e"
      | (skip) "\<not> stop < startIndex ?e" "entry_stop ?e < start"
      | (inside) "\<not> stop < startIndex ?e" "\<not> entry_stop ?e < start"
          "start \<ge> startIndex ?e \<and> stop \<le> entry_stop ?e"
      | (merge) "\<not> stop < startIndex ?e" "\<not> entry_stop ?e < start"
          "\<not> (start \<ge> startIndex ?e \<and> stop \<le> entry_stop ?e)" by blast
    then show ?thesis
    proof cases
      case front
      with 1 True split unf show ?thesis
        by (auto dest!: bootMap_insert_refines)
    next
      case skip
      with 1 True unf
      have "map brange m' = map brange (take (i + 1) m) @ ins_range (map brange (drop (i + 1) m)) start stop
          \<and> length m' \<le> MAX_BOOT_ENTRIES"
        by (intro "1.IH"(1) [OF True refl]) auto
      with skip True split show ?thesis by (simp add: take_Suc_conv_app_nth brange_def [of "m ! i"])
    next
      case inside
      then have "m' = m" using "1.prems"(1) unf by simp
      moreover have "ins_range (map brange (drop i m)) start stop = map brange (drop i m)"
        unfolding split using inside by simp
      moreover have "map brange (take i m) @ map brange (drop i m) = map brange m"
        by (simp flip: map_append)
      ultimately show ?thesis using "1.prems"(4) by simp
    next
      case merge
      let ?m = "take i m @ drop (i + 1) m"
      have "map brange m' = map brange (take i ?m) @ ins_range (map brange (drop i ?m))
              (if startIndex ?e < start then startIndex ?e else start)
              (if entry_stop ?e > stop then entry_stop ?e else stop)
          \<and> length m' \<le> MAX_BOOT_ENTRIES"
        using merge "1.prems" True unf by (intro "1.IH"(2) [OF True refl]) auto
      then show ?thesis
        unfolding split ins_range_merge [OF merge] using True by simp
    qed
  qed
qed

lemma pagingInsertBootMap_Inr:
  assumes "boot_ok s" "a \<le> b" "pagingInsertBootMap a b s = Inr s'"
  shows "boot_ok s' \<and> boot_pages s' = boot_pages s \<union> {a..<b} \<and> s' = s\<lparr>pagingBootMap := pagingBootMap s'\<rparr>"
proof -
  obtain m where m: "bootMap_loop (pagingBootMap s) 0 a b = Inr m" "s' = s\<lparr>pagingBootMap := m\<rparr>"
    using assms(3) by (auto simp: pagingInsertBootMap_def)
  have "map brange m = ins_range (map brange (pagingBootMap s)) a b \<and> length m \<le> MAX_BOOT_ENTRIES"
    using bootMap_loop_refines [OF m(1) assms(2)] assms(1) by (simp add: boot_ok_def)
  with assms m(2) show ?thesis
    by (simp add: boot_ok_def boot_pages_def ins_range_separated ins_range_pages)
qed

interpretation boot: range_set boot_ok boot_pages pagingInsertBootMap
  by unfold_locales (auto dest: pagingInsertBootMap_Inr)

lemma pagingBootMapCheck_iff:
  assumes "separated (map brange m)" "start < stop"
  shows "pagingBootMapCheck start stop m \<longleftrightarrow> (\<exists>e\<in>set m. startIndex e < stop \<and> start < entry_stop e)"
  using assms
proof (induction m)
  case (Cons e m)
  then have gap: "\<forall>f\<in>set m. entry_stop e < startIndex f" "startIndex e \<le> entry_stop e"
    and sep: "separated (map brange m)"
    by (auto simp: brange_def [of e] separated_Cons) (auto simp: brange_def)
  show ?case
  proof (cases "stop \<le> startIndex e")
    case True
    with gap have "\<forall>f\<in>set m. stop < startIndex f" by auto
    with True show ?thesis by auto
  next
    case False
    with Cons.IH [OF sep Cons.prems(2)] show ?thesis by auto
  qed
qed simp

section \<open>Protecting boot entries\<close>

lemma stop_index_pages:
  fixes addr len :: u32
  shows "unat (stop_index (ucast addr + ucast len + 0xFFF)) =
     min ((unat addr + unat len + PAGE_MASK) div PAGE_SIZE) (PAGE_COUNT - 1)"
proof -
  have "unat addr + unat len + 0xFFF < 2 ^ 44"
    using unat_u32 [of addr] unat_u32 [of len] by simp
  then show ?thesis by (simp add: unat_stop_index unat_u64_add3 page_consts)
qed

lemma physMemProtectBootEntry_Inr:
  assumes ok: "boot_ok s" and run: "physMemProtectBootEntry addr len s = Inr s'"
  shows "boot_ok s' \<and> boot_pages s' = boot_pages s \<union> protect_pages addr len \<and>
    page_reserved s' = (\<lambda>p. page_reserved s p \<or> p \<in> protect_pages addr len)"
proof -
  let ?a = "drop_bit 12 addr" and ?b = "stop_index (ucast addr + ucast len + 0xFFF)"
  obtain t where le: "?a \<le> ?b" and t: "pagingInsertBootMap (unat ?a) (unat ?b) s = Inr t"
    and s': "physMemSetMemoryBits (unat ?a) (unat (?b - ?a)) True t = Inr s'"
    using run by (auto simp: physMemProtectBootEntry_def Let_def)
  have range: "{unat ?a..<unat ?b} = protect_pages addr len"
    by (simp add: stop_index_pages protect_pages_def unat_drop_bit_word page_consts)
  have "unat ?a \<le> unat ?b" using le by (simp add: word_le_nat_alt)
  note ins = pagingInsertBootMap_Inr [OF ok this t]
  then obtain m0 where t': "t = s\<lparr>pagingBootMap := m0\<rparr>" by blast
  have "unat ?b < PAGE_COUNT" by (simp add: stop_index_pages page_consts)
  from physMemSetMemoryBits_range [OF le this, of True t] s'
  obtain m where m: "s' = t\<lparr>physMemMap := m\<rparr>"
    "\<forall>p. map_bit m p = (if unat ?a \<le> p \<and> p < unat ?b then True else map_bit (physMemMap t) p)"
    by auto
  have "page_reserved s' p \<longleftrightarrow> page_reserved s p \<or> p \<in> protect_pages addr len" for p
    using m unfolding range [symmetric] by (auto simp: page_reserved_map_bit t')
  moreover have "boot_ok s' = boot_ok t" "boot_pages s' = boot_pages t"
    by (simp_all add: m(1) boot_ok_def boot_pages_def)
  ultimately show ?thesis using ins range by (auto simp: fun_eq_iff)
qed

text \<open>Room for \<open>k\<close> more entries before the source's assertion on the table size can fail.\<close>

definition boot_room :: "nat \<Rightarrow> 'a bootmem_scheme \<Rightarrow> bool" where
  "boot_room k s \<longleftrightarrow> boot_ok s \<and> \<not> pagingInitialized s \<and> length (pagingBootMap s) + k \<le> MAX_BOOT_ENTRIES"

lemma bootMap_loop_total:
  assumes "length m < MAX_BOOT_ENTRIES" "i \<le> length m"
  shows "\<exists>m'. bootMap_loop m i start stop = Inr m' \<and> length m' \<le> Suc (length m)"
  using assms
proof (induction m i start stop rule: bootMap_loop.induct)
  case (1 m i start stop)
  have ins: "\<exists>m'. bootMap_insert m i start stop = Inr m' \<and> length m' \<le> Suc (length m)"
    using "1.prems" by (simp add: bootMap_insert_def)
  show ?case
  proof (cases "i < length m")
    case True
    let ?e = "m ! i"
    have "\<exists>m'. bootMap_loop (take i m @ drop (i + 1) m) i
        (if startIndex ?e < start then startIndex ?e else start)
        (if entry_stop ?e > stop then entry_stop ?e else stop) = Inr m'
        \<and> length m' \<le> Suc (length m)"
      if "\<not> stop < startIndex ?e" "\<not> entry_stop ?e < start"
        "\<not> (start \<ge> startIndex ?e \<and> stop \<le> entry_stop ?e)"
      using "1.IH"(2) [OF True refl that] "1.prems" True by fastforce
    moreover have "\<exists>m'. bootMap_loop m (i + 1) start stop = Inr m' \<and> length m' \<le> Suc (length m)"
      if "\<not> stop < startIndex ?e" "entry_stop ?e < start"
      using "1.IH"(1) [OF True refl that] "1.prems" True by simp
    ultimately show ?thesis
      using True ins by (auto simp: bootMap_loop.simps [of m i] Let_def)
  qed (simp add: bootMap_loop.simps [of m i] ins)
qed

lemma physMemProtectBootEntry_total:
  assumes "boot_room (Suc k) s"
  shows "\<exists>s'. physMemProtectBootEntry addr len s = Inr s' \<and> boot_room k s' \<and>
    boot_pages s' = boot_pages s \<union> protect_pages addr len \<and>
    page_reserved s' = (\<lambda>p. page_reserved s p \<or> p \<in> protect_pages addr len)"
proof -
  let ?a = "drop_bit 12 addr" and ?b = "stop_index (ucast addr + ucast len + 0xFFF)"
  have "unat ?a \<le> unat ?b"
    using unat_u32 [of addr] unfolding stop_index_pages unat_drop_bit_word
    by (auto simp: page_consts intro: div_le_mono)
  then have le: "?a \<le> ?b" by (simp add: word_le_nat_alt)
  have room: "length (pagingBootMap s) < MAX_BOOT_ENTRIES" "\<not> pagingInitialized s"
    using assms by (auto simp: boot_room_def)
  from bootMap_loop_total [OF this(1), of 0 "unat ?a" "unat ?b"]
  obtain m where m: "bootMap_loop (pagingBootMap s) 0 (unat ?a) (unat ?b) = Inr m"
    "length m \<le> Suc (length (pagingBootMap s))" by auto
  have "unat ?b < PAGE_COUNT" by (simp add: stop_index_pages page_consts)
  from physMemSetMemoryBits_range [OF le this, of True "s\<lparr>pagingBootMap := m\<rparr>"]
  obtain w where run: "physMemProtectBootEntry addr len s = Inr (s\<lparr>pagingBootMap := m, physMemMap := w\<rparr>)"
    using le m(1) room(2) by (auto simp: physMemProtectBootEntry_def Let_def pagingInsertBootMap_def)
  moreover have "boot_ok s" using assms by (simp add: boot_room_def)
  ultimately show ?thesis
    using physMemProtectBootEntry_Inr [of s addr len] m(2) assms by (auto simp: boot_room_def)
qed

text \<open>A sequence of protected byte ranges.\<close>

primrec protect_all :: "(u32 \<times> u32) list \<Rightarrow> 'a bootmem_scheme \<Rightarrow> 'a bootmem_scheme kres" where
  "protect_all [] s = Inr s"
| "protect_all (r # rs) s = kbind (physMemProtectBootEntry (fst r) (snd r) s) (protect_all rs)"

lemma protect_all_total:
  assumes "boot_room (length rs + k) s"
  shows "\<exists>s'. protect_all rs s = Inr s' \<and> boot_room k s' \<and>
    boot_pages s' = boot_pages s \<union> (\<Union>(a, l)\<in>set rs. protect_pages a l) \<and>
    page_reserved s' = (\<lambda>p. page_reserved s p \<or> p \<in> (\<Union>(a, l)\<in>set rs. protect_pages a l))"
  using assms
proof (induction rs arbitrary: s)
  case (Cons r rs)
  then have "boot_room (Suc (length rs + k)) s" by simp
  from physMemProtectBootEntry_total [OF this, of "fst r" "snd r"] obtain t where
    t: "physMemProtectBootEntry (fst r) (snd r) s = Inr t" "boot_room (length rs + k) t"
    "boot_pages t = boot_pages s \<union> protect_pages (fst r) (snd r)"
    "page_reserved t = (\<lambda>p. page_reserved s p \<or> p \<in> protect_pages (fst r) (snd r))" by blast
  from Cons.IH [OF t(2)] t show ?case by (cases r) (auto simp: fun_eq_iff)
qed simp

lemma mmap_pages_bounds:
  assumes "mmap_pages e = Some (a, b)"
  shows "unat a + unat (b - a) = unat b" "unat b < PAGE_COUNT"
proof -
  have "a \<le> b"
    using assms unfolding mmap_pages_def Let_def
    by (auto split: if_splits simp: word_le_nat_alt word_less_nat_alt)
  then show "unat a + unat (b - a) = unat b"
    by (simp add: unat_sub_small word_le_nat_alt)
  show "unat b < PAGE_COUNT"
    using assms unfolding mmap_pages_def Let_def
    by (auto split: if_splits simp: word_le_nat_alt page_consts)
qed

text \<open>The walk over the memory map ends if no entry makes the 32-bit offset wrap.\<close>

definition mmap_sane :: "multiboot_info \<Rightarrow> bool" where
  "mmap_sane bootInfo \<longleftrightarrow>
     (\<forall>x. x < mmap_length bootInfo \<longrightarrow> unat x + 4 + unat (mm_size (mmap bootInfo x)) < 2 ^ 32)"

lemma mmap_loop_total:
  assumes "mmap_sane bootInfo" "unat (mmap_length bootInfo) \<le> unat offset + n" "boot_room k s"
  shows "\<exists>s'. mmap_loop n bootInfo offset s = Inr s' \<and> boot_room k s' \<and> boot_pages s' = boot_pages s \<and>
    {p. \<not> page_reserved s' p} \<subseteq> {p. \<not> page_reserved s p} \<union> (\<Union>x. mmap_range (mmap bootInfo x))"
  using assms(2,3)
proof (induction n arbitrary: offset s)
  case 0
  then show ?case by (auto simp: word_less_nat_alt)
next
  case (Suc n)
  let ?e = "mmap bootInfo offset" and ?o = "offset + 4 + mm_size (mmap bootInfo offset)"
  show ?case
  proof (cases "offset < mmap_length bootInfo")
    case False
    with Suc.prems show ?thesis by auto
  next
    case True
    with assms(1) have sane: "unat offset + 4 + unat (mm_size ?e) < 2 ^ 32"
      by (auto simp: mmap_sane_def)
    then have "unat (offset + 4) = unat offset + 4" by (subst unat_add_small) auto
    with sane have "unat ?o = unat offset + 4 + unat (mm_size ?e)" by (subst unat_add_small) auto
    with Suc.prems(1) have fuel: "unat (mmap_length bootInfo) \<le> unat ?o + n" by simp
    show ?thesis
    proof (cases "mmap_pages ?e")
      case None
      with Suc.IH [OF fuel Suc.prems(2)] True show ?thesis by simp
    next
      case (Some r)
      obtain a b where r: "r = (a, b)" by (cases r)
      note bounds = mmap_pages_bounds [OF Some [unfolded r]]
      then have "unat (b - a) < PAGE_COUNT" "unat a < PAGE_COUNT - unat (b - a)" by auto
      from physMemSetMemoryBits_bits [OF this, of False s] obtain m where
        m: "physMemSetMemoryBits (unat a) (unat (b - a)) False s = Inr (s\<lparr>physMemMap := m\<rparr>)" by blast
      let ?t = "s\<lparr>physMemMap := m\<rparr>"
      have free: "{p. \<not> page_reserved ?t p} \<subseteq> {p. \<not> page_reserved s p} \<union> mmap_range ?e"
        using physMemSetMemoryBits_Inr [OF m] Some r bounds by (auto simp: mmap_range_def)
      have room: "boot_room k ?t" and same: "boot_pages ?t = boot_pages s"
        using Suc.prems(2) by (simp_all add: boot_room_def boot_ok_def boot_pages_def)
      from Suc.IH [OF fuel room] obtain s' where s': "mmap_loop n bootInfo ?o ?t = Inr s'"
        "boot_room k s'" "boot_pages s' = boot_pages ?t" "{p. \<not> page_reserved s' p} \<subseteq>
          {p. \<not> page_reserved ?t p} \<union> (\<Union>x. mmap_range (mmap bootInfo x))" by blast
      have "{p. \<not> page_reserved s' p} \<subseteq>
          {p. \<not> page_reserved s p} \<union> (\<Union>x. mmap_range (mmap bootInfo x))"
        by (rule subset_trans [OF s'(4)]) (use free in blast)
      moreover have "mmap_loop (Suc n) bootInfo offset s = Inr s'"
        using Some r True m s'(1) by (simp add: Let_def)
      moreover have "boot_pages s' = boot_pages s" using s'(3) same by (rule trans)
      ultimately show ?thesis using s'(2) by (intro exI [of _ s'] conjI)
    qed
  qed
qed

lemma module_pages_step:
  "module_pages bootInfo {i..<i + Suc n} =
     (if mod_start (mods bootInfo i) < mod_end (mods bootInfo i)
      then protect_pages (mod_start (mods bootInfo i))
             (mod_end (mods bootInfo i) - mod_start (mods bootInfo i)) else {})
     \<union> module_pages bootInfo {i + 1..<i + 1 + n}"
proof -
  have "{i..<i + Suc n} = insert i {i + 1..<i + 1 + n}" by auto
  then show ?thesis unfolding module_pages_def by (auto split: if_splits)
qed

lemma mods_loop_total:
  assumes "boot_room (n + k) s"
  shows "\<exists>s'. mods_loop n i bootInfo s = Inr s' \<and> boot_room k s' \<and>
    boot_pages s' = boot_pages s \<union> module_pages bootInfo {i..<i + n} \<and>
    page_reserved s' = (\<lambda>p. page_reserved s p \<or> p \<in> module_pages bootInfo {i..<i + n})"
  using assms
proof (induction n arbitrary: i s)
  case 0
  then show ?case by (auto simp: module_pages_def)
next
  case (Suc n)
  let ?m = "mods bootInfo i"
  show ?case
  proof (cases "mod_start ?m \<ge> mod_end ?m")
    case True
    have "boot_room (n + k) s" using Suc.prems by (simp add: boot_room_def)
    from Suc.IH [OF this, of "i + 1"] True show ?thesis
      unfolding module_pages_step by (simp add: not_less [symmetric])
  next
    case False
    have "boot_room (Suc (n + k)) s" using Suc.prems by simp
    from physMemProtectBootEntry_total [OF this, of "mod_start ?m" "mod_end ?m - mod_start ?m"]
    obtain t where t: "physMemProtectBootEntry (mod_start ?m) (mod_end ?m - mod_start ?m) s = Inr t"
      "boot_room (n + k) t"
      "boot_pages t = boot_pages s \<union> protect_pages (mod_start ?m) (mod_end ?m - mod_start ?m)"
      "page_reserved t = (\<lambda>p. page_reserved s p \<or>
         p \<in> protect_pages (mod_start ?m) (mod_end ?m - mod_start ?m))" by blast
    from Suc.IH [OF t(2), of "i + 1"] t(1,3,4) False show ?thesis
      unfolding module_pages_step by (auto simp: not_le fun_eq_iff Let_def)
  qed
qed

section \<open>Properties\<close>

text \<open>
  C33: inserting any range into the boot map, wherever it lies and however many entries it
  overlaps or touches, keeps the entries sorted and separated, and afterwards the map covers
  exactly the pages it covered before and the new ones.
\<close>

theorem pagingInsertBootMap_correct:
  assumes "boot_ok s" "a \<le> b" "\<not> pagingInitialized s" "length (pagingBootMap s) < MAX_BOOT_ENTRIES"
  shows "\<exists>s'. pagingInsertBootMap a b s = Inr s' \<and> boot_ok s' \<and> boot_pages s' = boot_pages s \<union> {a..<b}"
proof -
  from bootMap_loop_total [OF assms(4), of 0 a b]
  obtain s' where "pagingInsertBootMap a b s = Inr s'"
    using assms(3) by (auto simp: pagingInsertBootMap_def)
  with boot.insert_ok [OF assms(1,2)] boot.insert_pages [OF assms(1,2)] show ?thesis by blast
qed

theorem pagingInsertBootMap_correct_witness:
  "let s = \<lparr>physMemExtra = \<lambda>_. None, physMemMap = \<lambda>_. 0, physMemInitialized = False, ramSize = 0,
            pagingBootMap = [\<lparr>startIndex = 2, mapLength = 3\<rparr>, \<lparr>startIndex = 9, mapLength = 1\<rparr>],
            pagingInitialized = False\<rparr>
   in \<exists>s'. pagingInsertBootMap 5 12 s = Inr s' \<and> boot_ok s' \<and> boot_pages s' = {2..<5} \<union> {9..<10} \<union> {5..<12}"
proof -
  let ?s = "\<lparr>physMemExtra = \<lambda>_. None, physMemMap = \<lambda>_. 0, physMemInitialized = False, ramSize = 0,
            pagingBootMap = [\<lparr>startIndex = 2, mapLength = 3\<rparr>, \<lparr>startIndex = 9, mapLength = 1\<rparr>],
            pagingInitialized = False\<rparr> :: bootmem"
  have "boot_ok ?s" "boot_pages ?s = {2..<5} \<union> {9..<10}"
    by (auto simp: boot_ok_def boot_pages_def separated_Cons brange_def entry_stop_def MAX_BOOT_ENTRIES_def)
  with pagingInsertBootMap_correct [of ?s 5 12] show ?thesis
    by (simp add: MAX_BOOT_ENTRIES_def)
qed



end
