(* ===== verification/Kernel_Paging.thy ===== *)
theory Kernel_Paging
  imports Boot
begin

text \<open>
  Page tables, first part (\<^verbatim>\<open>memory/paging.c\<close>): the paging entry with its bit fields, the
  translation of kernel addresses through the page directory, \<^verbatim>\<open>__getPagingEntry\<close> for the kernel
  itself, and the functions that search, reserve and allocate virtual memory.

  Physical memory is a function from a frame and a dword index to the dword stored there, so page
  directories, page tables and data pages share one memory and alias as in the machine. Kernel
  pointers to paging structures (the recursive mapping at \<^verbatim>\<open>KERNEL_DIR_ADDR\<close> and
  \<^verbatim>\<open>KERNEL_PAGE_ADDR\<close>, a process's \<^verbatim>\<open>pageDirectory\<close> and \<^verbatim>\<open>pageTables\<close>) are virtual addresses;
  every access through them walks the kernel's directory (\<open>ktrans\<close>) and is \<open>MemFault\<close> where a
  page is not present. The translation lookaside buffer is taken to be coherent, so its flushes
  have no counterpart. A function that works for the kernel and for a process takes the lookup
  \<^verbatim>\<open>__getPagingEntry(p, ...)\<close> as its first argument; it is instantiated with
  \<open>getPagingEntry_kernel\<close> here and with the process lookup in theory \<open>Paging\<close>.
\<close>

unbundle bit_operations_syntax

record procPaging =
  pageDirectory :: u32
  pageTables :: "nat \<Rightarrow> u32"

record paging = bootmem +
  pagingEnabled :: bool
  cr3 :: nat
  pmem :: "nat \<Rightarrow> nat \<Rightarrow> u32"
  procMem :: "addr \<Rightarrow> procPaging"

type_synonym entryLoc = "nat \<times> nat"

type_synonym entryLookup = "u32 \<Rightarrow> bool \<Rightarrow> paging \<Rightarrow> (paging \<times> entryLoc option) kres"

definition PAGETABLE_COUNT :: nat where "PAGETABLE_COUNT = 0x400"
definition PAGETABLE_MASK :: nat where "PAGETABLE_MASK = 0x3FF"
definition KERNEL_DIR_ENTRY :: nat where "KERNEL_DIR_ENTRY = PAGETABLE_COUNT - 1"
definition KERNEL_DIR_ADDR :: u32 where "KERNEL_DIR_ADDR = 0xFFFFF000"
definition KERNEL_PAGE_ADDR :: u32 where "KERNEL_PAGE_ADDR = 0xFFC00000"

definition PAGING_AVAIL_NOTPRESENT_RESERVED :: nat where "PAGING_AVAIL_NOTPRESENT_RESERVED = 1"
definition PAGING_AVAIL_NOTPRESENT_ON_ACCESS_CREATE :: nat where "PAGING_AVAIL_NOTPRESENT_ON_ACCESS_CREATE = 2"
definition PAGING_AVAIL_NOTPRESENT_OUTPAGED :: nat where "PAGING_AVAIL_NOTPRESENT_OUTPAGED = 3"
definition PAGING_AVAIL_PRESENT_SHARED :: nat where "PAGING_AVAIL_PRESENT_SHARED = 1"
definition PAGING_AVAIL_PRESENT_NO_FORK :: nat where "PAGING_AVAIL_PRESENT_NO_FORK = 2"
definition PAGING_AVAIL_PRESENT_ON_WRITE_DUPLICATE :: nat where "PAGING_AVAIL_PRESENT_ON_WRITE_DUPLICATE = 3"

section \<open>The bit fields of a paging entry\<close>

definition pe_present :: "u32 \<Rightarrow> bool" where "pe_present w = bit w 0"
definition pe_rw :: "u32 \<Rightarrow> bool" where "pe_rw w = bit w 1"
definition pe_user :: "u32 \<Rightarrow> bool" where "pe_user w = bit w 2"
definition pe_avail :: "u32 \<Rightarrow> nat" where "pe_avail w = unat (drop_bit 9 w AND 7)"
definition pe_frame :: "u32 \<Rightarrow> nat" where "pe_frame w = unat (drop_bit 12 w)"

definition set_flag :: "nat \<Rightarrow> bool \<Rightarrow> u32 \<Rightarrow> u32" where
  "set_flag n b w = (if b then w OR push_bit n 1 else w AND NOT (push_bit n 1))"

definition set_present :: "bool \<Rightarrow> u32 \<Rightarrow> u32" where "set_present = set_flag 0"
definition set_rw :: "bool \<Rightarrow> u32 \<Rightarrow> u32" where "set_rw = set_flag 1"
definition set_user :: "bool \<Rightarrow> u32 \<Rightarrow> u32" where "set_user = set_flag 2"

definition set_avail :: "nat \<Rightarrow> u32 \<Rightarrow> u32" where
  "set_avail a w = w AND NOT (push_bit 9 7) OR push_bit 9 (word_of_nat a AND 7)"

definition set_frame :: "nat \<Rightarrow> u32 \<Rightarrow> u32" where
  "set_frame f w = w AND 0xFFF OR push_bit 12 (word_of_nat f)"

text \<open>An entry filled field by field after \<^verbatim>\<open>table->value = 0\<close>.\<close>

definition present_entry :: "bool \<Rightarrow> bool \<Rightarrow> nat \<Rightarrow> u32" where
  "present_entry rw user frame = set_frame frame (set_user user (set_rw rw (set_present True 0)))"

definition reserved_entry :: "bool \<Rightarrow> u32" where
  "reserved_entry user = set_frame 0 (set_avail PAGING_AVAIL_NOTPRESENT_RESERVED
     (set_user user (set_rw False (set_present False 0))))"

definition isReserved :: "u32 \<Rightarrow> bool" where
  "isReserved w \<longleftrightarrow> \<not> pe_present w \<and> pe_avail w = PAGING_AVAIL_NOTPRESENT_RESERVED"

section \<open>Access to paging structures\<close>

definition pte :: "paging \<Rightarrow> entryLoc \<Rightarrow> u32" where
  "pte s loc = pmem s (fst loc) (snd loc)"

definition set_pte :: "entryLoc \<Rightarrow> u32 \<Rightarrow> paging \<Rightarrow> paging" where
  "set_pte loc w s = s\<lparr>pmem := (pmem s)(fst loc := (pmem s (fst loc))(snd loc := w))\<rparr>"

definition clear_page :: "nat \<Rightarrow> paging \<Rightarrow> paging" where
  "clear_page f s = s\<lparr>pmem := (pmem s)(f := \<lambda>_. 0)\<rparr>"

text \<open>Where the machine finds the dword at a kernel virtual address.\<close>

definition ktrans :: "u32 \<Rightarrow> paging \<Rightarrow> entryLoc kres" where
  "ktrans va s =
     (if \<not> pagingEnabled s then Inr (unat (drop_bit 12 va), unat (va AND 0xFFF) div 4)
      else let d = pmem s (cr3 s) (unat (drop_bit 22 va))
           in if \<not> pe_present d then Inl MemFault
              else let t = pmem s (pe_frame d) (unat (drop_bit 12 va AND 0x3FF))
                   in if \<not> pe_present t then Inl MemFault
                      else Inr (pe_frame t, unat (va AND 0xFFF) div 4))"

text \<open>The part of \<^verbatim>\<open>__getPagingEntry\<close> after the directory entry has been located: allocate a page
  table if the entry is empty, refuse entries that are not present, and say whether the table is
  new.\<close>

definition dir_entry :: "entryLoc \<Rightarrow> bool \<Rightarrow> paging \<Rightarrow> (paging \<times> bool) option kres" where
  "dir_entry dir alloc s =
     (if pte s dir = 0 \<and> \<not> alloc then Inr None
      else kbind (if pte s dir = 0
                  then kbind (physMemAllocPage False
                                (set_pte dir (set_user True (set_rw True (set_present True 0))) s))
                         (\<lambda>(s, f). Inr (set_pte dir (set_frame f (pte s dir)) s, True))
                  else Inr (s, False)) (\<lambda>(s, new).
           if \<not> pe_present (pte s dir)
           then (if pe_avail (pte s dir) = PAGING_AVAIL_NOTPRESENT_OUTPAGED
                 then kbind (physMemPageIn (pe_frame (pte s dir)) s) (\<lambda>_. Inl AssertFailed)
                 else Inl AssertFailed)
           else kassert (pe_avail (pte s dir) = 0) (Inr (Some (s, new)))))"

text \<open>\<^verbatim>\<open>__getPagingEntry(NULL, addr, alloc)\<close>\<close>

definition getPagingEntry_kernel :: entryLookup where
  "getPagingEntry_kernel vaddr alloc s =
     (let i = unat (drop_bit 22 vaddr) in
      kbind (if pagingEnabled s then ktrans (KERNEL_DIR_ADDR + word_of_nat (4 * i)) s
             else Inr (cr3 s, i)) (\<lambda>dir.
      kbind (dir_entry dir alloc s) (\<lambda>r.
        case r of None \<Rightarrow> Inr (s, None)
        | Some (s, new) \<Rightarrow>
            kbind (if pagingEnabled s
                   then ktrans (KERNEL_PAGE_ADDR + 4 * drop_bit 12 vaddr) s
                   else Inr (pe_frame (pte s dir), unat (drop_bit 12 vaddr AND 0x3FF))) (\<lambda>table.
            Inr (if new then clear_page (fst table) s else s, Some table)))))"

section \<open>Searching, reserving and allocating virtual memory\<close>

text \<open>A lookup with \<^verbatim>\<open>alloc\<close> set never returns \<^verbatim>\<open>NULL\<close>; the source dereferences it directly.\<close>

definition need :: "(paging \<times> entryLoc option) kres \<Rightarrow> (paging \<times> entryLoc) kres" where
  "need r = kbind r (\<lambda>(s, l). case l of None \<Rightarrow> Inl MemFault | Some t \<Rightarrow> Inr (s, t))"

primrec pagingReserveArea :: "entryLookup \<Rightarrow> u32 \<Rightarrow> nat \<Rightarrow> bool \<Rightarrow> paging \<Rightarrow> paging kres" where
  "pagingReserveArea get cur 0 user s = Inr s"
| "pagingReserveArea get cur (Suc n) user s =
     kbind (need (get cur True s)) (\<lambda>(s, table).
     kassert (pte s table = 0)
       (pagingReserveArea get (cur + 0x1000) n user (set_pte table (reserved_entry user) s)))"

text \<open>The loop of \<^verbatim>\<open>pagingTrySearchArea\<close> at index \<open>i\<close>: \<open>start\<close> is the first page that may belong to
  the area. The end of the area is compared in 32 bits, as in the source.\<close>

function searchArea_loop ::
  "entryLookup \<Rightarrow> nat \<Rightarrow> u32 \<Rightarrow> u32 \<Rightarrow> paging \<Rightarrow> (paging \<times> u32) kres" where
  "searchArea_loop get i start len s =
     (if i < KERNEL_DIR_ENTRY * PAGETABLE_COUNT
      then kbind (get (push_bit 12 (word_of_nat i)) False s) (\<lambda>(s, table).
             case table of
               Some t \<Rightarrow>
                 if pte s t \<noteq> 0 then searchArea_loop get (i + 1) (word_of_nat (i + 1)) len s
                 else if word_of_nat i \<ge> start + len - 1 then Inr (s, push_bit 12 start)
                 else searchArea_loop get (i + 1) start len s
             | None \<Rightarrow>
                 if word_of_nat (i OR PAGETABLE_MASK) \<ge> start + len - 1 then Inr (s, push_bit 12 start)
                 else searchArea_loop get ((i OR PAGETABLE_MASK) + 1) start len s)
      else Inr (s, 0))"
  by pat_completeness auto
termination
  by (relation "measure (\<lambda>(_, i, _, _, _). KERNEL_DIR_ENTRY * PAGETABLE_COUNT - i)")
     (auto intro: diff_less_mono2 less_Suc_or)

declare searchArea_loop.simps [simp del]

definition pagingTrySearchArea :: "entryLookup \<Rightarrow> u32 \<Rightarrow> paging \<Rightarrow> (paging \<times> u32) kres" where
  "pagingTrySearchArea get len s = (if len = 0 then Inr (s, 0) else searchArea_loop get 1 1 len s)"

definition pagingSearchArea :: "entryLookup \<Rightarrow> u32 \<Rightarrow> paging \<Rightarrow> (paging \<times> u32) kres" where
  "pagingSearchArea get len s =
     kbind (pagingTrySearchArea get len s) (\<lambda>(s, vaddr).
       if vaddr = 0 then Inl (SystemFailure ''virtual address space is exhausted'') else Inr (s, vaddr))"

text \<open>The loop that fills an area with fresh frames: \<open>check\<close> is what the source asserts of the entry
  before it overwrites it.\<close>

primrec alloc_loop ::
  "entryLookup \<Rightarrow> u32 \<Rightarrow> nat \<Rightarrow> bool \<Rightarrow> bool \<Rightarrow> paging \<Rightarrow> paging kres" where
  "alloc_loop get cur 0 rw user s = Inr s"
| "alloc_loop get cur (Suc n) rw user s =
     kbind (physMemAllocPage False s) (\<lambda>(s, index).
     kbind (need (get cur True s)) (\<lambda>(s, table).
     kassert (pte s table = 0)
       (alloc_loop get (cur + 0x1000) n rw user (set_pte table (present_entry rw user index) s))))"

definition pagingTryAllocatePhysMem ::
  "entryLookup \<Rightarrow> u32 \<Rightarrow> bool \<Rightarrow> bool \<Rightarrow> paging \<Rightarrow> (paging \<times> u32) kres" where
  "pagingTryAllocatePhysMem get len rw user s =
     kbind (pagingTrySearchArea get len s) (\<lambda>(s, vaddr).
       if vaddr = 0 then Inr (s, 0)
       else kbind (alloc_loop get vaddr (unat len) rw user s) (\<lambda>s. Inr (s, vaddr)))"

definition pagingAllocatePhysMem ::
  "entryLookup \<Rightarrow> u32 \<Rightarrow> bool \<Rightarrow> bool \<Rightarrow> paging \<Rightarrow> (paging \<times> u32) kres" where
  "pagingAllocatePhysMem get len rw user s =
     kbind (pagingTryAllocatePhysMem get len rw user s) (\<lambda>(s, vaddr).
       if vaddr = 0 then Inl (SystemFailure ''virtual address space is exhausted'') else Inr (s, vaddr))"

text \<open>A present frame behind an address; a page that is not present stops the machine, since
  paging in is not implemented.\<close>

definition present_frame :: "u32 \<Rightarrow> paging \<Rightarrow> nat kres" where
  "present_frame w s =
     (if pe_present w then Inr (pe_frame w)
      else if pe_avail w = PAGING_AVAIL_NOTPRESENT_OUTPAGED
      then kbind (physMemPageIn (pe_frame w) s) (\<lambda>_. Inl AssertFailed)
      else Inl AssertFailed)"

definition pagingGetPhysMem :: "entryLookup \<Rightarrow> u32 \<Rightarrow> paging \<Rightarrow> (paging \<times> nat) kres" where
  "pagingGetPhysMem get vaddr s =
     kbind (get vaddr False s) (\<lambda>(s, table).
       case table of None \<Rightarrow> Inl AssertFailed
       | Some t \<Rightarrow> kassert (pte s t \<noteq> 0)
           (kbind (present_frame (pte s t) s) (\<lambda>f. Inr (s, f))))"

section \<open>The recursive mapping\<close>

text \<open>The last entry of the kernel's directory points to the directory itself.\<close>

definition recursive_ok :: "paging \<Rightarrow> bool" where
  "recursive_ok s \<longleftrightarrow> pagingEnabled s \<and>
     pe_present (pmem s (cr3 s) KERNEL_DIR_ENTRY) \<and> pe_frame (pmem s (cr3 s) KERNEL_DIR_ENTRY) = cr3 s"

definition dir_index :: "u32 \<Rightarrow> nat" where "dir_index vaddr = unat vaddr div 2 ^ 22"
definition table_index :: "u32 \<Rightarrow> nat" where "table_index vaddr = unat vaddr div 4096 mod 1024"

lemma dir_index_less: "dir_index vaddr < 1024"
  using unat_u32 [of vaddr] by (simp add: dir_index_def)

lemma ktrans_index:
  "pagingEnabled s \<Longrightarrow> ktrans va s =
     (let d = pmem s (cr3 s) (dir_index va)
      in if \<not> pe_present d then Inl MemFault
         else let t = pmem s (pe_frame d) (table_index va)
              in if \<not> pe_present t then Inl MemFault else Inr (pe_frame t, unat va mod 4096 div 4))"
  unfolding ktrans_def dir_index_def table_index_def unat_drop_bit_word unat_and_3FF unat_and_page_mask
  by (simp add: Let_def)

lemma ktrans_dir:
  assumes "recursive_ok s" "i < 1024"
  shows "ktrans (KERNEL_DIR_ADDR + word_of_nat (4 * i)) s = Inr (cr3 s, i)"
proof -
  let ?va = "KERNEL_DIR_ADDR + word_of_nat (4 * i)"
  have "unat (word_of_nat (4 * i) :: u32) = 4 * i"
    using assms(2) by (intro unat_word_of_nat_small) simp
  then have "unat ?va = 0xFFFFF000 + 4 * i"
    using assms(2) by (subst unat_add_small) (simp_all add: KERNEL_DIR_ADDR_def)
  moreover have "(0xFFFFF000 + 4 * i) div 2 ^ 22 = 1023"
    using div_mod_mult_add [of "0x3FF000 + 4 * i" "2 ^ 22" 1023] assms(2) by simp
  moreover have "(0xFFFFF000 + 4 * i) div 4096 = 0xFFFFF" "(0xFFFFF000 + 4 * i) mod 4096 = 4 * i"
    using div_mod_mult_add [of "4 * i" 4096 "0xFFFFF"] assms(2) by simp_all
  ultimately have "dir_index ?va = KERNEL_DIR_ENTRY" "table_index ?va = KERNEL_DIR_ENTRY"
    "unat ?va mod 4096 div 4 = i"
    by (simp_all add: dir_index_def table_index_def KERNEL_DIR_ENTRY_def PAGETABLE_COUNT_def)
  with assms(1) show ?thesis by (simp add: ktrans_index recursive_ok_def)
qed

lemma ktrans_table:
  assumes "recursive_ok s" "pe_present (pmem s (cr3 s) (dir_index vaddr))"
  shows "ktrans (KERNEL_PAGE_ADDR + 4 * drop_bit 12 vaddr) s =
    Inr (pe_frame (pmem s (cr3 s) (dir_index vaddr)), table_index vaddr)"
proof -
  let ?p = "unat vaddr div 4096"
  let ?va = "KERNEL_PAGE_ADDR + 4 * drop_bit 12 vaddr"
  have p: "?p < 2 ^ 20" using unat_u32 [of vaddr] by simp
  have d: "unat (drop_bit 12 vaddr) = ?p" by (simp add: unat_drop_bit_word)
  have "unat (4 * drop_bit 12 vaddr) = 4 * ?p"
    using p by (simp add: unat_word_ariths d)
  then have va: "unat ?va = 0xFFC00000 + 4 * ?p"
    using p by (subst unat_add_small) (simp_all add: KERNEL_PAGE_ADDR_def)
  have "?p div 1024 = dir_index vaddr" by (simp add: dir_index_def div_mult2_eq [symmetric])
  then have split: "4 * ?p = 4096 * dir_index vaddr + 4 * table_index vaddr"
    using mult_div_mod_eq [of 1024 ?p] unfolding table_index_def by linarith
  have lt: "table_index vaddr < 1024" by (simp add: table_index_def)
  have "(0xFFC00000 + 4 * ?p) div 2 ^ 22 = 1023"
    using div_mod_mult_add [of "4 * ?p" "2 ^ 22" 1023] p by simp
  moreover have "(0xFFC00000 + 4 * ?p) div 4096 = 0xFFC00 + dir_index vaddr"
    "(0xFFC00000 + 4 * ?p) mod 4096 = 4 * table_index vaddr"
    using div_mod_mult_add [of "4 * table_index vaddr" 4096 "0xFFC00 + dir_index vaddr"] lt
    unfolding split by (simp_all add: algebra_simps)
  moreover have "(0xFFC00 + dir_index vaddr) mod 1024 = dir_index vaddr"
    using div_mod_mult_add [of "dir_index vaddr" 1024 1023] dir_index_less [of vaddr] by simp
  ultimately have "dir_index ?va = KERNEL_DIR_ENTRY" "table_index ?va = dir_index vaddr"
    "unat ?va mod 4096 div 4 = table_index vaddr"
    unfolding dir_index_def [of ?va] table_index_def [of ?va] va
    by (simp_all add: KERNEL_DIR_ENTRY_def PAGETABLE_COUNT_def)
  with assms show ?thesis by (simp add: ktrans_index recursive_ok_def)
qed

lemma getPagingEntry_kernel_walk:
  assumes "recursive_ok s"
  shows "getPagingEntry_kernel vaddr False s =
    (let d = pmem s (cr3 s) (dir_index vaddr)
     in if d = 0 then Inr (s, None)
        else if \<not> pe_present d
        then Inl (if pe_avail d = PAGING_AVAIL_NOTPRESENT_OUTPAGED then NotImplemented else AssertFailed)
        else if pe_avail d = 0 then Inr (s, Some (pe_frame d, table_index vaddr))
        else Inl AssertFailed)"
proof -
  let ?i = "dir_index vaddr"
  have i: "unat (drop_bit 22 vaddr) = ?i" by (simp add: dir_index_def unat_drop_bit_word)
  have "ktrans (KERNEL_DIR_ADDR + word_of_nat (4 * ?i)) s = Inr (cr3 s, ?i)"
    using assms dir_index_less by (rule ktrans_dir)
  moreover have "pagingEnabled s" using assms by (simp add: recursive_ok_def)
  ultimately have "getPagingEntry_kernel vaddr False s =
      kbind (dir_entry (cr3 s, ?i) False s) (\<lambda>r.
        case r of None \<Rightarrow> Inr (s, None)
        | Some (t, new) \<Rightarrow>
            kbind (if pagingEnabled t
                   then ktrans (KERNEL_PAGE_ADDR + 4 * drop_bit 12 vaddr) t
                   else Inr (pe_frame (pte t (cr3 s, ?i)), unat (drop_bit 12 vaddr AND 0x3FF))) (\<lambda>table.
            Inr (if new then clear_page (fst table) t else t, Some table)))"
    unfolding getPagingEntry_kernel_def Let_def i by simp
  then show ?thesis
    using ktrans_table [OF assms, of vaddr] \<open>pagingEnabled s\<close>
    by (auto simp: dir_entry_def pte_def physMemPageIn_def Let_def kassert_def)
qed

section \<open>Searching free areas\<close>

text \<open>The address of a page, and the pages for which a lookup finds no entry.\<close>

definition page_addr :: "nat \<Rightarrow> u32" where "page_addr i = push_bit 12 (word_of_nat i)"

definition page_unmapped :: "entryLookup \<Rightarrow> paging \<Rightarrow> nat \<Rightarrow> bool" where
  "page_unmapped get s i = (case get (page_addr i) False s of Inl _ \<Rightarrow> False | Inr (_, None) \<Rightarrow> True
     | Inr (t, Some l) \<Rightarrow> pte t l = 0)"

lemma unat_page_addr: "i < PAGE_COUNT \<Longrightarrow> unat (page_addr i) = 4096 * i"
proof -
  assume i: "i < PAGE_COUNT"
  then have "unat (word_of_nat i :: u32) = i" by (intro unat_word_of_nat_small) (simp add: page_consts)
  then show ?thesis
    using i unfolding page_addr_def push_bit_eq_mult by (simp add: unat_word_ariths page_consts)
qed

lemma dir_index_page_addr: "i < PAGE_COUNT \<Longrightarrow> dir_index (page_addr i) = i div 1024"
  using div_mult2_eq [of "4096 * i" 4096 1024] by (simp add: dir_index_def unat_page_addr)

lemma or_table_mask: "i OR PAGETABLE_MASK = 1024 * (i div 1024) + 1023"
  using nat_or_mask [of i 10] by (simp add: PAGETABLE_MASK_def mask_eq_exp_minus_1)

text \<open>The comparison of the end of the area, which does not wrap for areas of less than \<open>2 ^ 31\<close> pages.\<close>

lemma area_end_compare:
  assumes "1 \<le> st" "st < 0xFFC00" "unat len < 2 ^ 31" "k < 2 ^ 32"
  shows "word_of_nat k \<ge> (word_of_nat st + len - 1 :: u32) \<longleftrightarrow> st + unat len \<le> Suc k"
proof -
  have "unat (word_of_nat st :: u32) = st" using assms(2) by (intro unat_word_of_nat_small) simp
  then have "unat (word_of_nat st + len) = st + unat len" using assms by (subst unat_add_small) auto
  then have "unat (word_of_nat st + len - 1) = st + unat len - 1" using assms(1) by (subst unat_sub_small) (auto simp: word_le_nat_alt)
  moreover have "unat (word_of_nat k :: u32) = k" using assms(4) by (intro unat_word_of_nat_small) simp
  ultimately show ?thesis using assms(1) by (auto simp: word_le_nat_alt)
qed

text \<open>What the search relies on: a lookup without \<^verbatim>\<open>alloc\<close> changes nothing, and a missing page table
  means that no page of that table is mapped.\<close>

locale pure_lookup =
  fixes get :: entryLookup
  assumes lookup_pure: "get vaddr False s = Inr (t, l) \<Longrightarrow> t = s"
    and lookup_table: "get vaddr False s = Inr (t, None) \<Longrightarrow> dir_index vaddr' = dir_index vaddr \<Longrightarrow>
          get vaddr' False s = Inr (s, None)"
begin

lemma missing_table_unmapped:
  assumes "get (page_addr i) False s = Inr (s, None)" "i < PAGE_COUNT" "j < PAGE_COUNT" "j div 1024 = i div 1024"
  shows "page_unmapped get s j"
proof -
  have "dir_index (page_addr j) = dir_index (page_addr i)" using assms(2-4) by (simp add: dir_index_page_addr)
  with assms(1) have "get (page_addr j) False s = Inr (s, None)" by (rule lookup_table)
  then show ?thesis by (simp add: page_unmapped_def)
qed

lemma missing_table_range:
  assumes "get (page_addr i) False s = Inr (s, None)" "i < 0xFFC00" "\<forall>j. st \<le> j \<and> j < i \<longrightarrow> page_unmapped get s j"
  shows "i OR PAGETABLE_MASK < 0xFFC00" "i \<le> i OR PAGETABLE_MASK" "\<forall>j. st \<le> j \<and> j < (i OR PAGETABLE_MASK) + 1 \<longrightarrow> page_unmapped get s j"
proof -
  have "i div 1024 < 1023" using assms(2) by (intro less_mult_imp_div_less) simp
  then show e: "i OR PAGETABLE_MASK < 0xFFC00" "i \<le> i OR PAGETABLE_MASK" using or_nat_ge [of i] by (auto simp: or_table_mask)
  show "\<forall>j. st \<le> j \<and> j < (i OR PAGETABLE_MASK) + 1 \<longrightarrow> page_unmapped get s j"
  proof (intro allI impI)
    fix j assume j: "st \<le> j \<and> j < (i OR PAGETABLE_MASK) + 1"
    show "page_unmapped get s j"
    proof (cases "j < i")
      case False
      with j have "j div 1024 = i div 1024" unfolding or_table_mask by (intro div_nat_eqI) auto
      with assms(1,2) e j show ?thesis by (intro missing_table_unmapped [of i]) (auto simp: page_consts)
    qed (use assms(3) j in blast)
  qed
qed

lemma searchArea_free:
  assumes "searchArea_loop get i (word_of_nat st) len s = Inr (s', v)" "v \<noteq> 0"
    and "1 \<le> st" "st \<le> i" "i \<le> 0xFFC00" "0 < unat len" "unat len < 2 ^ 31"
    and "\<forall>j. st \<le> j \<and> j < i \<longrightarrow> page_unmapped get s j"
  shows "\<exists>a. v = page_addr a \<and> 1 \<le> a \<and> a + unat len \<le> 0xFFC00 \<and> s' = s \<and>
    (\<forall>j. a \<le> j \<and> j < a + unat len \<longrightarrow> page_unmapped get s j)"
  using assms
proof (induction "0xFFC00 - i" arbitrary: i st rule: less_induct)
  case less
  note unf = less.prems(1) [unfolded searchArea_loop.simps [of get i]]
  have lim: "KERNEL_DIR_ENTRY * PAGETABLE_COUNT = 0xFFC00"
    by (simp add: KERNEL_DIR_ENTRY_def PAGETABLE_COUNT_def)
  have i: "i < 0xFFC00" using unf less.prems(2) by (auto simp: lim split: if_splits)
  have st: "st < 0xFFC00" using less.prems(4) i by simp
  note cmp = area_end_compare [OF less.prems(3) st less.prems(7)]
  obtain l where l: "get (page_addr i) False s = Inr (s, l)"
    using unf i by (auto simp: lim page_addr_def dest: lookup_pure elim!: kbind_InrE)
  show ?case
  proof (cases l)
    case (Some t)
    show ?thesis
    proof (cases "pte s t = 0")
      case False
      with unf i l Some have "searchArea_loop get (i + 1) (word_of_nat (i + 1)) len s = Inr (s', v)"
        by (simp add: lim page_addr_def)
      then show ?thesis using less.prems i by (intro less.hyps [of "i + 1" "i + 1"]) auto
    next
      case True
      then have free: "page_unmapped get s i" using l Some by (simp add: page_unmapped_def)
      show ?thesis
      proof (cases "st + unat len \<le> Suc i")
        case fin: True
        with unf i l Some True cmp [of i] have "v = page_addr st" "s' = s"
          by (simp_all add: lim page_addr_def)
        moreover have "\<forall>j. st \<le> j \<and> j < st + unat len \<longrightarrow> page_unmapped get s j"
          using fin less.prems(8) free by (metis less_Suc_eq order_less_le_trans)
        ultimately show ?thesis using fin less.prems(3) i by (intro exI [of _ st]) simp
      next
        case more: False
        with unf i l Some True cmp [of i] have "searchArea_loop get (i + 1) (word_of_nat st) len s = Inr (s', v)"
          by (simp add: lim page_addr_def)
        moreover have "\<forall>j. st \<le> j \<and> j < i + 1 \<longrightarrow> page_unmapped get s j"
          using less.prems(8) free by (auto simp: less_Suc_eq)
        ultimately show ?thesis using less.prems i by (intro less.hyps [of "i + 1" st]) auto
      qed
    qed
  next
    case None
    let ?e = "i OR PAGETABLE_MASK"
    have e: "?e < 0xFFC00" "i \<le> ?e" and free: "\<forall>j. st \<le> j \<and> j < ?e + 1 \<longrightarrow> page_unmapped get s j"
      using missing_table_range [OF _ i less.prems(8)] l None by auto
    show ?thesis
    proof (cases "st + unat len \<le> Suc ?e")
      case True
      with unf i l None cmp [of ?e] e have "v = page_addr st" "s' = s"
        by (simp_all add: lim page_addr_def)
      with True less.prems(3) free e show ?thesis
        by (intro exI [of _ st]) auto
    next
      case False
      with unf i l None cmp [of ?e] e have "searchArea_loop get (?e + 1) (word_of_nat st) len s = Inr (s', v)"
        by (simp add: lim page_addr_def)
      then show ?thesis using less.prems i e free by (intro less.hyps [of "?e + 1" st]) auto
    qed
  qed
qed

lemma pagingTrySearchArea_free:
  assumes "pagingTrySearchArea get len s = Inr (s', v)" "v \<noteq> 0" "unat len < 2 ^ 31"
  shows "\<exists>a. v = page_addr a \<and> 1 \<le> a \<and> a + unat len \<le> 0xFFC00 \<and> s' = s \<and>
    (\<forall>j. a \<le> j \<and> j < a + unat len \<longrightarrow> page_unmapped get s j)"
proof -
  have "len \<noteq> 0" using assms(1,2) by (auto simp: pagingTrySearchArea_def)
  then have "0 < unat len" by (simp add: unat_gt_0)
  moreover have "searchArea_loop get 1 (word_of_nat 1) len s = Inr (s', v)"
    using assms(1) \<open>len \<noteq> 0\<close> by (simp add: pagingTrySearchArea_def)
  ultimately show ?thesis
    using assms(2,3) by (intro searchArea_free [of 1 1]) auto
qed

end

lemma dir_entry_no_alloc: "dir_entry dir False s = Inr r \<Longrightarrow> r = None \<or> r = Some (s, False)"
  by (auto simp: dir_entry_def kassert_def physMemPageIn_def split: if_splits)

lemma kernel_lookup_cases:
  assumes "getPagingEntry_kernel vaddr False s = Inr (t, l)"
  shows "\<exists>dir. (if pagingEnabled s then ktrans (KERNEL_DIR_ADDR + word_of_nat (4 * dir_index vaddr)) s
             else Inr (cr3 s, dir_index vaddr)) = Inr dir \<and>
    (if l = None then dir_entry dir False s = Inr None else dir_entry dir False s = Inr (Some (s, False))) \<and>
    t = s"
proof -
  have i: "unat (drop_bit 22 vaddr) = dir_index vaddr" by (simp add: dir_index_def unat_drop_bit_word)
  from assms obtain dir r where dir: "(if pagingEnabled s
      then ktrans (KERNEL_DIR_ADDR + word_of_nat (4 * dir_index vaddr)) s
      else Inr (cr3 s, dir_index vaddr)) = Inr dir" and r: "dir_entry dir False s = Inr r"
    unfolding getPagingEntry_kernel_def Let_def i by (auto simp only: kbind_eq_Inr)
  have "getPagingEntry_kernel vaddr False s = (case r of None \<Rightarrow> Inr (s, None)
        | Some (t, new) \<Rightarrow>
            kbind (if pagingEnabled t
                   then ktrans (KERNEL_PAGE_ADDR + 4 * drop_bit 12 vaddr) t
                   else Inr (pe_frame (pte t dir), unat (drop_bit 12 vaddr AND 0x3FF))) (\<lambda>table.
            Inr (if new then clear_page (fst table) t else t, Some table)))"
    unfolding getPagingEntry_kernel_def Let_def i dir kbind_Inr r by simp
  with assms dir_entry_no_alloc [OF r] dir r show ?thesis
    by (intro exI [of _ dir]) (auto elim!: kbind_InrE)
qed

interpretation kernel_area: pure_lookup getPagingEntry_kernel
proof
  fix vaddr vaddr' s t l
  show "getPagingEntry_kernel vaddr False s = Inr (t, l) \<Longrightarrow> t = s"
    using kernel_lookup_cases by blast
  assume "getPagingEntry_kernel vaddr False s = Inr (t, None)" and eq: "dir_index vaddr' = dir_index vaddr"
  from kernel_lookup_cases [OF this(1)] obtain dir where
    dir: "(if pagingEnabled s then ktrans (KERNEL_DIR_ADDR + word_of_nat (4 * dir_index vaddr)) s
           else Inr (cr3 s, dir_index vaddr)) = Inr dir" "dir_entry dir False s = Inr None" by auto
  have i: "unat (drop_bit 22 vaddr') = dir_index vaddr" using eq by (simp add: dir_index_def unat_drop_bit_word)
  show "getPagingEntry_kernel vaddr' False s = Inr (s, None)"
    unfolding getPagingEntry_kernel_def Let_def i dir kbind_Inr by simp
qed

section \<open>Properties\<close>

text \<open>
  C20: through the recursive mapping the kernel edits exactly the tables the machine uses: whenever
  \<^verbatim>\<open>__getPagingEntry\<close> finds an entry for a kernel address, the machine translates that address by
  that entry, and to a page fault exactly if the entry is not present.
\<close>

theorem kernel_lookup_matches_mmu:
  assumes "recursive_ok s" "getPagingEntry_kernel vaddr False s = Inr (s', Some t)"
  shows "s' = s \<and> ktrans vaddr s = (if pe_present (pte s t)
           then Inr (pe_frame (pte s t), unat vaddr mod PAGE_SIZE div 4) else Inl MemFault)"
proof -
  have en: "pagingEnabled s" using assms(1) by (simp add: recursive_ok_def)
  have "s' = s" using assms(2) by (rule kernel_area.lookup_pure)
  moreover have "t = (pe_frame (pmem s (cr3 s) (dir_index vaddr)), table_index vaddr)"
    "pe_present (pmem s (cr3 s) (dir_index vaddr))"
    using assms(2) unfolding getPagingEntry_kernel_walk [OF assms(1)]
    by (auto simp: Let_def split: if_splits)
  ultimately show ?thesis using en by (simp add: ktrans_index pte_def Let_def page_consts)
qed

theorem kernel_lookup_matches_mmu_witness:
  "let s = \<lparr>physMemExtra = \<lambda>_. None, physMemMap = \<lambda>_. 0xFFFFFFFF, physMemInitialized = True,
            ramSize = 0, pagingBootMap = [], pagingInitialized = True, pagingEnabled = True, cr3 = 5,
            pmem = \<lambda>f i. if f = 5 \<and> i = 1023 then 0x5003 else if f = 5 \<and> i = 1 then 0x7003
                         else if f = 7 \<and> i = 2 then 0x9003 else 0,
            procMem = \<lambda>_. \<lparr>pageDirectory = 0, pageTables = \<lambda>_. 0\<rparr>\<rparr>
   in getPagingEntry_kernel 0x402008 False s = Inr (s, Some (7, 2)) \<and> ktrans 0x402008 s = Inr (9, 2)"
proof -
  let ?s = "\<lparr>physMemExtra = \<lambda>_. None, physMemMap = \<lambda>_. 0xFFFFFFFF, physMemInitialized = True,
            ramSize = 0, pagingBootMap = [], pagingInitialized = True, pagingEnabled = True, cr3 = 5,
            pmem = \<lambda>f i. if f = 5 \<and> i = 1023 then 0x5003 else if f = 5 \<and> i = 1 then 0x7003
                         else if f = 7 \<and> i = 2 then 0x9003 else 0,
            procMem = \<lambda>_. \<lparr>pageDirectory = 0, pageTables = \<lambda>_. 0\<rparr>\<rparr> :: paging"
  have fields: "pe_present 0x5003" "pe_frame 0x5003 = 5" "pe_present 0x7003" "pe_frame 0x7003 = 7"
    "pe_avail 0x7003 = 0" "pe_present 0x9003" "pe_frame 0x9003 = 9"
    by (simp_all add: pe_present_def pe_frame_def pe_avail_def)
  then have ok: "recursive_ok ?s"
    by (simp add: recursive_ok_def KERNEL_DIR_ENTRY_def PAGETABLE_COUNT_def)
  have "dir_index 0x402008 = 1" "table_index 0x402008 = 2"
    by (simp_all add: dir_index_def table_index_def)
  then have "getPagingEntry_kernel 0x402008 False ?s = Inr (?s, Some (7, 2))"
    unfolding getPagingEntry_kernel_walk [OF ok] using fields by (simp add: Let_def)
  with kernel_lookup_matches_mmu [OF ok this] fields show ?thesis
    by (simp add: Let_def pte_def page_consts)
qed

text \<open>
  the search for free virtual memory is sound: an area that \<^verbatim>\<open>pagingTrySearchArea\<close> returns for
  the kernel starts behind the null page, ends below the page tables, and none of its pages is
  mapped or reserved, although the search skips whole page tables at once.
\<close>

theorem pagingTrySearchArea_sound:
  assumes "pagingTrySearchArea getPagingEntry_kernel len s = Inr (s', v)" "v \<noteq> 0" "unat len < 2 ^ 31"
  shows "\<exists>a. v = page_addr a \<and> 1 \<le> a \<and> a + unat len \<le> KERNEL_DIR_ENTRY * PAGETABLE_COUNT \<and> s' = s \<and>
    {a..<a + unat len} \<subseteq> Collect (page_unmapped getPagingEntry_kernel s)"
  using kernel_area.pagingTrySearchArea_free [OF assms]
  by (auto simp: KERNEL_DIR_ENTRY_def PAGETABLE_COUNT_def)

theorem pagingTrySearchArea_sound_witness:
  "let s = \<lparr>physMemExtra = \<lambda>_. None, physMemMap = \<lambda>_. 0xFFFFFFFF, physMemInitialized = True,
            ramSize = 0, pagingBootMap = [], pagingInitialized = True, pagingEnabled = True, cr3 = 5,
            pmem = \<lambda>f i. if f = 5 \<and> i = 1023 then 0x5003 else 0,
            procMem = \<lambda>_. \<lparr>pageDirectory = 0, pageTables = \<lambda>_. 0\<rparr>\<rparr>
   in pagingTrySearchArea getPagingEntry_kernel 3 s = Inr (s, 0x1000) \<and>
      (\<exists>a. 0x1000 = page_addr a \<and> 1 \<le> a \<and> {a..<a + 3} \<subseteq> Collect (page_unmapped getPagingEntry_kernel s))"
proof -
  let ?s = "\<lparr>physMemExtra = \<lambda>_. None, physMemMap = \<lambda>_. 0xFFFFFFFF, physMemInitialized = True,
            ramSize = 0, pagingBootMap = [], pagingInitialized = True, pagingEnabled = True, cr3 = 5,
            pmem = \<lambda>f i. if f = 5 \<and> i = 1023 then 0x5003 else 0,
            procMem = \<lambda>_. \<lparr>pageDirectory = 0, pageTables = \<lambda>_. 0\<rparr>\<rparr> :: paging"
  have ok: "recursive_ok ?s"
    by (simp add: recursive_ok_def KERNEL_DIR_ENTRY_def PAGETABLE_COUNT_def pe_present_def pe_frame_def)
  have "dir_index 0x1000 = 0" by (simp add: dir_index_def)
  then have "getPagingEntry_kernel 0x1000 False ?s = Inr (?s, None)"
    unfolding getPagingEntry_kernel_walk [OF ok] by (simp add: Let_def)
  then have run: "pagingTrySearchArea getPagingEntry_kernel 3 ?s = Inr (?s, 0x1000)"
    by (simp add: pagingTrySearchArea_def searchArea_loop.simps [of _ "Suc 0"] KERNEL_DIR_ENTRY_def
          PAGETABLE_COUNT_def PAGETABLE_MASK_def push_bit_of_1)
  show ?thesis
    using pagingTrySearchArea_sound [OF run] run by (simp add: Let_def) blast
qed

end
