(* ===== verification/Refcount.thy ===== *)
theory Refcount
  imports Kernel_Paging
begin

text \<open>
  Reference counts of physical pages (the second half of \<^verbatim>\<open>memory/physmem.c\<close>).

  Pages that are shared or unpageable have an entry in one of 1024 tables, which
  \<^verbatim>\<open>__getPhysMemExtraInfo\<close> allocates on demand from kernel memory; a new table's own frame is then
  marked as unpageable, which may need another table. The recursion is bounded by fuel; each level
  adds a table, so \<open>EXTRA_FUEL\<close>, one more than there are tables, is always enough
  (\<open>getPhysMemExtraInfo_fuel\<close>). The bit fields keep their widths: the counter has 7 bits.
\<close>

definition PHYSMEMEXTRA_COUNT :: nat where "PHYSMEMEXTRA_COUNT = 0x400"

definition EXTRA_FUEL :: nat where "EXTRA_FUEL = Suc PHYSMEMEXTRA_COUNT"

definition zero_info :: physMemExtraInfo where
  "zero_info = \<lparr>present = 0, ref = 0, unpageable = 0, avail = 0\<rparr>"

text \<open>\<^verbatim>\<open>physMemExtra[i][index & PHYSMEMEXTRA_MASK]\<close>\<close>

definition extra_at :: "'a physmem_scheme \<Rightarrow> nat \<Rightarrow> physMemExtraInfo" where
  "extra_at s index = (case physMemExtra s (index div 1024) of None \<Rightarrow> zero_info
                       | Some t \<Rightarrow> t (index mod 1024))"

definition set_extra :: "nat \<Rightarrow> physMemExtraInfo \<Rightarrow> 'a physmem_scheme \<Rightarrow> 'a physmem_scheme" where
  "set_extra index info s =
     s\<lparr>physMemExtra := (physMemExtra s)(index div 1024 :=
        map_option (\<lambda>t. t(index mod 1024 := info)) (physMemExtra s (index div 1024)))\<rparr>"

definition init_info :: "physMemExtraInfo \<Rightarrow> physMemExtraInfo" where
  "init_info info = (if info = zero_info then info\<lparr>present := 1, ref := 1\<rparr> else info)"

text \<open>Does the lookup give a pointer? The table of \<open>index\<close> exists afterwards if \<open>alloc\<close> is set.\<close>

primrec getPhysMemExtraInfo :: "nat \<Rightarrow> nat \<Rightarrow> bool \<Rightarrow> paging \<Rightarrow> (paging \<times> bool) kres" where
  "getPhysMemExtraInfo 0 index alloc s = Inl OutOfFuel"
| "getPhysMemExtraInfo (Suc n) index alloc s =
     (let i = index div 1024 in
      kassert (pagingEnabled s) (
      kassert (i < PHYSMEMEXTRA_COUNT) (
        case physMemExtra s i of
          Some _ \<Rightarrow> Inr (s, True)
        | None \<Rightarrow>
            if \<not> alloc then Inr (s, False)
            else kbind (pagingAllocatePhysMem getPagingEntry_kernel 1 True False s) (\<lambda>(s, table).
                 kbind (pagingGetPhysMem getPagingEntry_kernel table
                          (s\<lparr>physMemExtra := (physMemExtra s)(i := Some (\<lambda>_. zero_info))\<rparr>)) (\<lambda>(s, frame).
                 kbind (getPhysMemExtraInfo n frame True s) (\<lambda>(s, info).
                 kassert info
                   (Inr (set_extra frame ((init_info (extra_at s frame))\<lparr>unpageable := 1\<rparr>) s, True))))))))"

definition physMemMarkUnpageable :: "nat \<Rightarrow> paging \<Rightarrow> (paging \<times> nat) kres" where
  "physMemMarkUnpageable index s =
     kbind (getPhysMemExtraInfo EXTRA_FUEL index True s) (\<lambda>(s, info).
     kassert info
       (Inr (set_extra index ((init_info (extra_at s index))\<lparr>unpageable := 1\<rparr>) s, index)))"

definition physMemAddRefPage :: "nat \<Rightarrow> paging \<Rightarrow> (paging \<times> nat) kres" where
  "physMemAddRefPage index s =
     kbind (getPhysMemExtraInfo EXTRA_FUEL index True s) (\<lambda>(s, info).
     kassert info (
       let info = init_info (extra_at s index);
           info = info\<lparr>ref := ref info + 1\<rparr>
       in kassert (ref info \<noteq> 0) (Inr (set_extra index info s, index))))"

definition physMemIsLastRef :: "nat \<Rightarrow> paging \<Rightarrow> bool kres" where
  "physMemIsLastRef index s =
     kbind (getPhysMemExtraInfo EXTRA_FUEL index False s) (\<lambda>(s, info).
       Inr (\<not> info \<or> extra_at s index = zero_info \<or> ref (extra_at s index) = 1))"

definition free_page :: "nat \<Rightarrow> paging \<Rightarrow> paging" where
  "free_page index s =
     s\<lparr>physMemMap := (physMemMap s)(index div 32 :=
        physMemMap s (index div 32) AND NOT (push_bit (index mod 32) 1))\<rparr>"

definition physMemReleasePage :: "nat \<Rightarrow> paging \<Rightarrow> (paging \<times> nat) kres" where
  "physMemReleasePage index s =
     (if index div 32 \<ge> MAP_LONGS then Inl MemFault
      else kassert (drop_bit (index mod 32) (physMemMap s (index div 32)) AND 1 \<noteq> 0) (
           kbind (getPhysMemExtraInfo EXTRA_FUEL index False s) (\<lambda>(s, info).
             if info \<and> extra_at s index \<noteq> zero_info
             then kassert (present (extra_at s index) = 1) (
                    let info = (extra_at s index)\<lparr>ref := ref (extra_at s index) - 1\<rparr>
                    in if ref info \<noteq> 0 then Inr (set_extra index info s, unat (ref info))
                       else Inr (free_page index (set_extra index zero_info s), 0))
             else Inr (free_page index s, 0))))"

text \<open>What the tables say: the number of references to an allocated page.\<close>

definition page_refs :: "'a physmem_scheme \<Rightarrow> nat \<Rightarrow> nat" where
  "page_refs s p = (if extra_at s p = zero_info then 1 else unat (ref (extra_at s p)))"

text \<open>Entries in use are present and count at least one reference.\<close>

definition extra_ok :: "'a physmem_scheme \<Rightarrow> bool" where
  "extra_ok s \<longleftrightarrow> (\<forall>p. extra_at s p = zero_info \<or> present (extra_at s p) = 1 \<and> ref (extra_at s p) \<noteq> 0)"

definition has_table :: "'a physmem_scheme \<Rightarrow> nat \<Rightarrow> bool" where
  "has_table s p \<longleftrightarrow> physMemExtra s (p div 1024) \<noteq> None"

definition missing_tables :: "'a physmem_scheme \<Rightarrow> nat" where
  "missing_tables s = card {i. i < PHYSMEMEXTRA_COUNT \<and> physMemExtra s i = None}"

primrec addrefs :: "nat \<Rightarrow> nat \<Rightarrow> paging \<Rightarrow> paging kres" where
  "addrefs 0 p s = Inr s"
| "addrefs (Suc n) p s = kbind (physMemAddRefPage p s) (\<lambda>(s, _). addrefs n p s)"

primrec releases :: "nat \<Rightarrow> nat \<Rightarrow> paging \<Rightarrow> paging kres" where
  "releases 0 p s = Inr s"
| "releases (Suc n) p s = kbind (physMemReleasePage p s) (\<lambda>(s, _). releases n p s)"

section \<open>Page-table code leaves the counters alone\<close>

text \<open>A computation that may only change the bitmap and the contents of memory, and that does not
  run out of fuel.\<close>

definition table_step :: "paging \<Rightarrow> (paging \<times> 'a) kres \<Rightarrow> bool" where
  "table_step s r \<longleftrightarrow> (case r of Inl e \<Rightarrow> e \<noteq> OutOfFuel
     | Inr (t, _) \<Rightarrow> physMemExtra t = physMemExtra s \<and> pagingEnabled t = pagingEnabled s \<and>
         cr3 t = cr3 s \<and> procMem t = procMem s)"

lemma table_step_Inl [simp]: "table_step s (Inl e) \<longleftrightarrow> e \<noteq> OutOfFuel"
  by (simp add: table_step_def)

lemma table_step_Inr: "table_step s (Inr (t, x)) \<longleftrightarrow> physMemExtra t = physMemExtra s \<and>
    pagingEnabled t = pagingEnabled s \<and> cr3 t = cr3 s \<and> procMem t = procMem s"
  by (simp add: table_step_def)

lemma table_step_kbind:
  assumes "table_step s m" "\<And>t x. m = Inr (t, x) \<and> table_step s (Inr (t, x)) \<Longrightarrow> table_step s (f (t, x))"
  shows "table_step s (kbind m f)"
  using assms by (cases m) auto

lemma table_step_kassert: "(b \<Longrightarrow> table_step s m) \<Longrightarrow> table_step s (kassert b m)"
  by (simp add: kassert_def)

lemma table_step_trans:
  "table_step s (Inr (t, x)) \<Longrightarrow> table_step t r \<Longrightarrow> table_step s r"
  by (cases r) (auto simp: table_step_def)

lemma table_step_update:
  "table_step s (Inr (t, x)) \<Longrightarrow> table_step s (Inr (set_pte l w t, y))"
  "table_step s (Inr (t, x)) \<Longrightarrow> table_step s (Inr (clear_page f t, y))"
  by (auto simp: table_step_Inr set_pte_def clear_page_def)

lemma physMemAllocPage_step: "table_step s (physMemAllocPage lowmem s)"
  using physMemAllocPage_cases [of lowmem s] by (auto simp: table_step_Inr)

text \<open>The same for computations that return only the new state.\<close>

definition mem_step :: "paging \<Rightarrow> paging kres \<Rightarrow> bool" where
  "mem_step s r \<longleftrightarrow> (case r of Inl e \<Rightarrow> e \<noteq> OutOfFuel | Inr t \<Rightarrow> table_step s (Inr (t, ())))"

lemma mem_step_kbind:
  assumes "table_step s m" "\<And>t x. m = Inr (t, x) \<and> table_step s (Inr (t, x)) \<Longrightarrow> mem_step s (f (t, x))"
  shows "mem_step s (kbind m f)"
  using assms by (cases m) (auto simp: mem_step_def)

lemma mem_step_trans:
  "table_step s (Inr (t, x)) \<Longrightarrow> mem_step t r \<Longrightarrow> mem_step s r"
  by (cases r) (auto simp: mem_step_def table_step_Inr)

lemma dir_entry_step:
  "case dir_entry dir alloc s of Inl e \<Rightarrow> e \<noteq> OutOfFuel | Inr None \<Rightarrow> True
   | Inr (Some (t, b)) \<Rightarrow> table_step s (Inr (t, b))"
proof (cases "pte s dir = 0")
  case False
  then show ?thesis
    by (auto simp: dir_entry_def table_step_Inr physMemPageIn_def kassert_def)
next
  case True
  let ?s = "set_pte dir (set_user True (set_rw True (set_present True 0))) s"
  have "table_step ?s (physMemAllocPage False ?s)" by (rule physMemAllocPage_step)
  then have "table_step s (physMemAllocPage False ?s)"
    by (cases "physMemAllocPage False ?s") (auto simp: table_step_def set_pte_def)
  with True show ?thesis
    by (cases "physMemAllocPage False ?s")
       (auto simp: dir_entry_def table_step_Inr physMemPageIn_def kassert_def set_pte_def)
qed

lemma ktrans_fuel: "ktrans va s \<noteq> Inl OutOfFuel"
  by (simp add: ktrans_def Let_def)

text \<open>The contract of a lookup that only touches the bitmap and memory; what is built on such a
  lookup has the same contract.\<close>

locale table_lookup =
  fixes get :: entryLookup
  assumes lookup_step: "table_step s (get vaddr alloc s)"
begin

lemma need_step: "table_step s (need (get vaddr alloc s))"
  unfolding need_def
  by (rule table_step_kbind [OF lookup_step]) (auto split: option.split simp: table_step_Inr)

lemma searchArea_step: "table_step s (searchArea_loop get i start len s)"
proof (induction get\<equiv>get i start len s rule: searchArea_loop.induct)
  case (1 i start len s)
  show ?case
  proof (cases "i < KERNEL_DIR_ENTRY * PAGETABLE_COUNT")
    case False
    then show ?thesis by (simp add: searchArea_loop.simps [of get i] table_step_Inr)
  next
    case True
    have "table_step s (kbind (get (push_bit 12 (word_of_nat i)) False s) (\<lambda>(s, table).
             case table of
               Some t \<Rightarrow>
                 if pte s t \<noteq> 0 then searchArea_loop get (i + 1) (word_of_nat (i + 1)) len s
                 else if word_of_nat i \<ge> start + len - 1 then Inr (s, push_bit 12 start)
                 else searchArea_loop get (i + 1) start len s
             | None \<Rightarrow>
                 if word_of_nat (i OR PAGETABLE_MASK) \<ge> start + len - 1 then Inr (s, push_bit 12 start)
                 else searchArea_loop get ((i OR PAGETABLE_MASK) + 1) start len s))"
      (is "table_step s (kbind ?m ?f)")
    proof (rule table_step_kbind [OF lookup_step])
      fix t l assume "?m = Inr (t, l) \<and> table_step s (Inr (t, l))"
      then have tr: "\<And>r :: (paging \<times> u32) kres. table_step t r \<Longrightarrow> table_step s r"
        by (blast intro: table_step_trans)
      have "\<And>y :: u32. table_step t (Inr (t, y))" by (simp add: table_step_Inr)
      then show "table_step s (?f (t, l))"
        using "1.hyps" [OF True] by (auto intro!: tr split: option.split)
    qed
    with True show ?thesis by (simp add: searchArea_loop.simps [of get i])
  qed
qed

lemma pagingTrySearchArea_step: "table_step s (pagingTrySearchArea get len s)"
  by (simp add: pagingTrySearchArea_def searchArea_step table_step_Inr)

lemma alloc_loop_step: "mem_step s (alloc_loop get cur n rw user s)"
proof (induction n arbitrary: cur s)
  case (Suc n)
  have "mem_step s (kbind (physMemAllocPage False s) (\<lambda>(s, index).
     kbind (need (get cur True s)) (\<lambda>(s, table).
     kassert (pte s table = 0)
       (alloc_loop get (cur + 0x1000) n rw user (set_pte table (present_entry rw user index) s)))))"
  proof (rule mem_step_kbind [OF physMemAllocPage_step], clarify)
    fix t :: paging and f :: nat
    assume "table_step s (Inr (t, f))"
    moreover have "mem_step t (kbind (need (get cur True t)) (\<lambda>(s, table).
      kassert (pte s table = 0)
       (alloc_loop get (cur + 0x1000) n rw user (set_pte table (present_entry rw user f) s))))"
    proof (rule mem_step_kbind [OF need_step], clarify)
      fix u :: paging and l1 l2 :: nat
      let ?l = "(l1, l2)"
      assume "table_step t (Inr (u, ?l))"
      then have "table_step t (Inr (set_pte ?l (present_entry rw user f) u, ()))"
        by (rule table_step_update)
      from mem_step_trans [OF this Suc] show "mem_step t (kassert (pte u ?l = 0)
          (alloc_loop get (cur + 0x1000) n rw user (set_pte ?l (present_entry rw user f) u)))"
        by (simp add: kassert_def mem_step_def)
    qed
    ultimately show "mem_step s (kbind (need (get cur True t)) (\<lambda>(s, table).
      kassert (pte s table = 0)
       (alloc_loop get (cur + 0x1000) n rw user (set_pte table (present_entry rw user f) s))))"
      by (rule mem_step_trans)
  qed
  then show ?case by simp
qed (simp add: mem_step_def table_step_Inr)

lemma pagingAllocatePhysMem_step: "table_step s (pagingAllocatePhysMem get len rw user s)"
  unfolding pagingAllocatePhysMem_def pagingTryAllocatePhysMem_def kbind_assoc
proof (rule table_step_kbind [OF pagingTrySearchArea_step], clarify)
  fix t :: paging and v :: u32
  assume "table_step s (Inr (t, v))"
  moreover have "mem_step t (alloc_loop get v (unat len) rw user t)" by (rule alloc_loop_step)
  ultimately show "table_step s (kbind (if v = 0 then Inr (t, 0)
      else kbind (alloc_loop get v (unat len) rw user t) (\<lambda>s. Inr (s, v)))
      (\<lambda>(s, vaddr). if vaddr = 0 then Inl (SystemFailure ''virtual address space is exhausted'')
         else Inr (s, vaddr)))"
    by (cases "alloc_loop get v (unat len) rw user t")
       (auto simp: mem_step_def table_step_Inr)
qed

lemma pagingGetPhysMem_step: "table_step s (pagingGetPhysMem get vaddr s)"
  unfolding pagingGetPhysMem_def
proof (rule table_step_kbind [OF lookup_step], clarify)
  fix t :: paging and l :: "entryLoc option"
  assume "table_step s (Inr (t, l))"
  then show "table_step s (case l of None \<Rightarrow> Inl AssertFailed
      | Some ta \<Rightarrow> kassert (pte t ta \<noteq> 0) (kbind (present_frame (pte t ta) t) (\<lambda>f. Inr (t, f))))"
    by (auto simp: present_frame_def physMemPageIn_def kassert_def table_step_Inr split: option.split)
qed

end

lemma getPagingEntry_kernel_step: "table_step s (getPagingEntry_kernel vaddr alloc s)"
proof -
  let ?i = "unat (drop_bit 22 vaddr)"
  let ?d = "if pagingEnabled s then ktrans (KERNEL_DIR_ADDR + word_of_nat (4 * ?i)) s else Inr (cr3 s, ?i)"
  show ?thesis
  proof (cases ?d)
    case (Inl e)
    then show ?thesis
      using ktrans_fuel by (auto simp: getPagingEntry_kernel_def Let_def split: if_splits)
  next
    case d: (Inr dir)
    show ?thesis
    proof (cases "dir_entry dir alloc s")
      case (Inl e)
      with d dir_entry_step [where dir = dir and alloc = alloc and s = s] show ?thesis
        by (simp add: getPagingEntry_kernel_def Let_def)
    next
      case r: (Inr r)
      show ?thesis
      proof (cases r)
        case None
        with d r show ?thesis by (simp add: getPagingEntry_kernel_def Let_def table_step_Inr)
      next
        case (Some x)
        obtain t new where x: "x = (t, new)" by (cases x)
        have st: "table_step s (Inr (t, new))"
          using dir_entry_step [where dir = dir and alloc = alloc and s = s] r Some x by simp
        let ?t = "if pagingEnabled t then ktrans (KERNEL_PAGE_ADDR + 4 * drop_bit 12 vaddr) t
          else Inr (pe_frame (pte t dir), unat (drop_bit 12 vaddr AND 0x3FF))"
        have "getPagingEntry_kernel vaddr alloc s = kbind ?t (\<lambda>table.
            Inr (if new then clear_page (fst table) t else t, Some table))"
          unfolding getPagingEntry_kernel_def Let_def d kbind_Inr r Some x by simp
        moreover have "?t \<noteq> Inl OutOfFuel" using ktrans_fuel by simp
        ultimately show ?thesis using st
          by (cases ?t) (auto simp: table_step_Inr clear_page_def)
      qed
    qed
  qed
qed

interpretation kernel: table_lookup getPagingEntry_kernel
  by unfold_locales (rule getPagingEntry_kernel_step)

section \<open>Enough fuel\<close>

lemma missing_tables_cong: "physMemExtra t = physMemExtra s \<Longrightarrow> missing_tables t = missing_tables s"
  by (simp add: missing_tables_def)

lemma missing_tables_less:
  assumes "i < PHYSMEMEXTRA_COUNT" "physMemExtra s i = None"
    "physMemExtra t = (physMemExtra s)(i := Some x)"
  shows "missing_tables t < missing_tables s"
proof -
  have "{j. j < PHYSMEMEXTRA_COUNT \<and> physMemExtra t j = None}
      = {j. j < PHYSMEMEXTRA_COUNT \<and> physMemExtra s j = None} - {i}"
    using assms(3) by auto
  moreover have "i \<in> {j. j < PHYSMEMEXTRA_COUNT \<and> physMemExtra s j = None}" using assms(1,2) by simp
  ultimately show ?thesis
    unfolding missing_tables_def using card_Diff1_less [of "{j. j < PHYSMEMEXTRA_COUNT \<and> physMemExtra s j = None}" i]
    by simp
qed

lemma missing_tables_fuel: "missing_tables s < EXTRA_FUEL"
proof -
  have "missing_tables s \<le> card {..<PHYSMEMEXTRA_COUNT}"
    unfolding missing_tables_def by (intro card_mono) auto
  then show ?thesis by (simp add: EXTRA_FUEL_def)
qed

lemma getPhysMemExtraInfo_enough:
  "missing_tables s < n \<Longrightarrow> getPhysMemExtraInfo n index alloc s \<noteq> Inl OutOfFuel"
proof (induction n arbitrary: index alloc s)
  case (Suc n)
  let ?i = "index div 1024"
  let ?a = "pagingAllocatePhysMem getPagingEntry_kernel 1 True False s"
  show ?case
  proof (cases "pagingEnabled s \<and> ?i < PHYSMEMEXTRA_COUNT \<and> physMemExtra s ?i = None \<and> alloc")
    case False
    then show ?thesis by (auto simp: Let_def kassert_def split: option.splits)
  next
    case True
    have "getPhysMemExtraInfo n f True u \<noteq> Inl OutOfFuel"
      if a: "?a = Inr (t, v)" and g: "pagingGetPhysMem getPagingEntry_kernel v
          (t\<lparr>physMemExtra := (physMemExtra t)(?i := Some (\<lambda>_. zero_info))\<rparr>) = Inr (u, f)" for t v u f
    proof (rule Suc.IH)
      let ?t = "t\<lparr>physMemExtra := (physMemExtra t)(?i := Some (\<lambda>_. zero_info))\<rparr>"
      have "physMemExtra t = physMemExtra s"
        using kernel.pagingAllocatePhysMem_step [of s 1 True False] a by (simp add: table_step_Inr)
      moreover have "physMemExtra u = physMemExtra ?t"
        using kernel.pagingGetPhysMem_step [of ?t v] g by (simp add: table_step_Inr)
      ultimately have "missing_tables u < missing_tables s"
        using True by (intro missing_tables_less [where i = ?i]) auto
      with Suc.prems show "missing_tables u < n" by simp
    qed
    moreover have "?a \<noteq> Inl OutOfFuel"
      using kernel.pagingAllocatePhysMem_step [of s 1 True False] by (auto simp: table_step_def)
    moreover have "pagingGetPhysMem getPagingEntry_kernel v t \<noteq> Inl OutOfFuel" for v t
      using kernel.pagingGetPhysMem_step [of t v] by (auto simp: table_step_def)
    ultimately show ?thesis
      using True by (auto simp: Let_def kbind_eq_Inl kassert_def)
  qed
qed simp

section \<open>Counting references\<close>

lemma div_mod_1024_eq: "p div 1024 = q div 1024 \<Longrightarrow> p mod 1024 = q mod (1024::nat) \<Longrightarrow> p = q"
  by (metis mult_div_mod_eq)

lemma extra_at_set_extra:
  "has_table s p \<Longrightarrow> extra_at (set_extra p info s) q = (if q = p then info else extra_at s q)"
  using div_mod_1024_eq [of p q]
  by (auto simp: extra_at_def set_extra_def has_table_def split: option.splits)

lemma set_extra_same [simp]:
  "has_table (set_extra p info s) = has_table s"
  "page_reserved (set_extra p info s) = page_reserved s"
  "pagingEnabled (set_extra p info u) = pagingEnabled u"
  "physMemMap (set_extra p info s) = physMemMap s"
proof -
  show "has_table (set_extra p info s) = has_table s"
    by (rule ext, cases "physMemExtra s (p div 1024)") (simp_all add: has_table_def set_extra_def)
qed (auto simp: set_extra_def page_reserved_def fun_eq_iff)

lemma present_nonzero: "present i = 1 \<Longrightarrow> i\<lparr>ref := r\<rparr> \<noteq> zero_info"
proof
  assume "present i = 1" "i\<lparr>ref := r\<rparr> = zero_info"
  then have "present (i\<lparr>ref := r\<rparr>) = 0" by (simp add: zero_info_def)
  with \<open>present i = 1\<close> show False by simp
qed

lemma free_page_same [simp]:
  "extra_at (free_page p s) = extra_at s" "has_table (free_page p s) = has_table s"
  "pagingEnabled (free_page p s) = pagingEnabled s"
  by (auto simp: extra_at_def free_page_def has_table_def fun_eq_iff split: option.splits)

lemma page_reserved_free: "page_reserved (free_page p s) = (page_reserved s)(p := False)"
proof
  fix q
  show "page_reserved (free_page p s) q = ((page_reserved s)(p := False)) q"
    using div_mod_32_eq [of p q]
    by (auto simp: page_reserved_def free_page_def bit_and_iff bit_not_iff bit_push_one)
qed

lemma lookup_has_table:
  assumes "pagingEnabled s" "has_table s p" "p < PAGE_COUNT"
  shows "getPhysMemExtraInfo EXTRA_FUEL p alloc s = Inr (s, True)"
proof -
  have "p div 1024 < PHYSMEMEXTRA_COUNT" using assms(3) by (simp add: PHYSMEMEXTRA_COUNT_def page_consts)
  with assms(1,2) show ?thesis by (auto simp: EXTRA_FUEL_def has_table_def Let_def)
qed

lemma ref_add_one: "unat (r :: 7 word) < 127 \<Longrightarrow> r + 1 \<noteq> 0 \<and> unat (r + 1) = Suc (unat r)"
proof -
  assume "unat r < 127"
  then have "unat (r + 1) = unat r + 1" by (subst unat_add_small) auto
  then show ?thesis by (metis Suc_eq_plus1 nat.distinct(1) unat_0)
qed

text \<open>The state a page with counter is in.\<close>

definition counted :: "nat \<Rightarrow> paging \<Rightarrow> bool" where
  "counted p s \<longleftrightarrow> pagingEnabled s \<and> has_table s p \<and> p < PAGE_COUNT \<and> extra_ok s"

lemma physMemAddRefPage_counted:
  assumes "counted p s" "page_refs s p < 127"
  shows "\<exists>s'. physMemAddRefPage p s = Inr (s', p) \<and> counted p s' \<and> page_reserved s' = page_reserved s \<and>
    page_refs s' = (page_refs s)(p := Suc (page_refs s p))"
proof -
  let ?i = "init_info (extra_at s p)"
  have tab: "has_table s p" and ok: "extra_ok s" and en: "pagingEnabled s" "p < PAGE_COUNT"
    using assms(1) by (auto simp: counted_def)
  have ref: "unat (ref ?i) = page_refs s p"
    by (simp add: init_info_def page_refs_def zero_info_def)
  let ?s = "set_extra p (?i\<lparr>ref := ref ?i + 1\<rparr>) s"
  have inc: "ref ?i + 1 \<noteq> 0" "unat (ref ?i + 1) = Suc (page_refs s p)"
    using ref_add_one [of "ref ?i"] ref assms(2) by auto
  have run: "physMemAddRefPage p s = Inr (?s, p)"
    using lookup_has_table [OF en(1) tab en(2)] inc(1) by (simp add: physMemAddRefPage_def Let_def)
  have pres: "present ?i = 1"
    using ok by (auto simp: init_info_def extra_ok_def)
  have "extra_ok ?s"
    using ok inc(1) pres by (simp add: extra_ok_def extra_at_set_extra [OF tab])
  moreover have "page_refs ?s = (page_refs s)(p := Suc (page_refs s p))"
    using inc(2) present_nonzero [OF pres]
    by (auto simp: page_refs_def extra_at_set_extra [OF tab] fun_eq_iff)
  ultimately show ?thesis
    using run tab en by (intro exI [of _ ?s]) (auto simp: counted_def)
qed

lemma physMemReleasePage_counted:
  assumes "counted p s" "page_reserved s p"
  shows "\<exists>s'. physMemReleasePage p s = Inr (s', page_refs s p - 1) \<and> counted p s' \<and>
    page_reserved s' = (page_reserved s)(p := page_refs s p \<noteq> 1) \<and>
    page_refs s' = (page_refs s)(p := max 1 (page_refs s p - 1))"
proof -
  let ?i = "extra_at s p"
  have tab: "has_table s p" and ok: "extra_ok s" and en: "pagingEnabled s" "p < PAGE_COUNT"
    using assms(1) by (auto simp: counted_def)
  have "p div 32 < MAP_LONGS" using en(2) by (simp add: map_longs page_consts)
  moreover have "drop_bit (p mod 32) (physMemMap s (p div 32)) AND 1 \<noteq> 0"
    using assms(2) by (simp only: drop_bit_and_one page_reserved_def)
  ultimately have unf: "physMemReleasePage p s = (if ?i \<noteq> zero_info
      then kassert (present ?i = 1) (
        if ref ?i - 1 \<noteq> 0 then Inr (set_extra p (?i\<lparr>ref := ref ?i - 1\<rparr>) s, unat (ref ?i - 1))
        else Inr (free_page p (set_extra p zero_info s), 0))
      else Inr (free_page p s, 0))"
    using lookup_has_table [OF en(1) tab en(2)] by (simp add: physMemReleasePage_def Let_def)
  show ?thesis
  proof (cases "?i = zero_info")
    case True
    then show ?thesis
      using unf tab ok en by (intro exI [of _ "free_page p s"])
        (auto simp: counted_def page_reserved_free page_refs_def extra_ok_def fun_eq_iff)
  next
    case False
    then have i: "present ?i = 1" "ref ?i \<noteq> 0" using ok by (auto simp: extra_ok_def)
    then have "1 \<le> unat (ref ?i)" by (simp add: Suc_leI unat_gt_0)
    then have dec: "unat (ref ?i - 1) = unat (ref ?i) - 1"
      by (subst unat_sub_small) (auto simp: word_le_nat_alt)
    show ?thesis
    proof (cases "ref ?i - 1 = 0")
      case True
      then have "unat (ref ?i) = 1" using dec \<open>1 \<le> unat (ref ?i)\<close> by simp
      let ?s = "free_page p (set_extra p zero_info s)"
      have "extra_ok ?s" using ok by (auto simp: extra_ok_def extra_at_set_extra [OF tab])
      then show ?thesis
        using unf False True i(1) tab en \<open>unat (ref ?i) = 1\<close> by (intro exI [of _ ?s])
          (auto simp: counted_def page_reserved_free page_refs_def extra_at_set_extra [OF tab] fun_eq_iff)
    next
      case nz: False
      then have "unat (ref ?i - 1) \<noteq> 0" by (simp add: unat_eq_zero)
      with dec have two: "unat (ref ?i) > 1" by simp
      let ?s = "set_extra p (?i\<lparr>ref := ref ?i - 1\<rparr>) s"
      have "extra_ok ?s" using ok i nz by (auto simp: extra_ok_def extra_at_set_extra [OF tab])
      moreover have "page_refs ?s = (page_refs s)(p := unat (ref ?i) - 1)"
        using dec present_nonzero [OF i(1)]
        by (auto simp: page_refs_def extra_at_set_extra [OF tab] fun_eq_iff)
      ultimately show ?thesis
        using unf False nz i(1) tab en two dec assms(2) by (intro exI [of _ ?s])
          (auto simp: counted_def page_refs_def fun_eq_iff)
    qed
  qed
qed

lemma addrefs_counted:
  assumes "counted p s" "page_refs s p + n \<le> 127"
  shows "\<exists>s'. addrefs n p s = Inr s' \<and> counted p s' \<and> page_reserved s' = page_reserved s \<and>
    page_refs s' = (page_refs s)(p := page_refs s p + n)"
  using assms
proof (induction n arbitrary: s)
  case 0
  then show ?case by auto
next
  case (Suc n)
  then have "page_refs s p < 127" by simp
  from physMemAddRefPage_counted [OF Suc.prems(1) this] obtain t where
    t: "physMemAddRefPage p s = Inr (t, p)" "counted p t" "page_reserved t = page_reserved s"
    "page_refs t = (page_refs s)(p := Suc (page_refs s p))" by blast
  with Suc.prems(2) have "page_refs t p + n \<le> 127" by simp
  from Suc.IH [OF t(2) this] t show ?case by (auto simp: fun_eq_iff)
qed

lemma releases_counted:
  assumes "counted p s" "page_reserved s p" "n < page_refs s p"
  shows "\<exists>s'. releases n p s = Inr s' \<and> counted p s' \<and> page_reserved s' = page_reserved s \<and>
    page_refs s' = (page_refs s)(p := page_refs s p - n)"
  using assms
proof (induction n arbitrary: s)
  case 0
  then show ?case by auto
next
  case (Suc n)
  from physMemReleasePage_counted [OF Suc.prems(1,2)] obtain t where
    t: "physMemReleasePage p s = Inr (t, page_refs s p - 1)" "counted p t"
    "page_reserved t = (page_reserved s)(p := page_refs s p \<noteq> 1)"
    "page_refs t = (page_refs s)(p := max 1 (page_refs s p - 1))" by blast
  moreover have "page_refs t p = page_refs s p - 1" "page_reserved t = page_reserved s"
    using t(3,4) Suc.prems(2,3) by (auto simp: fun_upd_idem_iff)
  moreover have "n < page_refs t p" using calculation(5) Suc.prems(3) by simp
  ultimately show ?case
    using Suc.IH [of t] Suc.prems(2) by (auto simp: fun_eq_iff)
qed

section \<open>Properties\<close>

text \<open>
  the tables of reference counts are allocated by a recursion that always ends: with fuel for
  one more level than there are tables, \<^verbatim>\<open>__getPhysMemExtraInfo\<close> never runs out, in any state.
\<close>

theorem getPhysMemExtraInfo_fuel: "getPhysMemExtraInfo EXTRA_FUEL index alloc s \<noteq> Inl OutOfFuel"
  by (rule getPhysMemExtraInfo_enough) (rule missing_tables_fuel)



end
