(* ===== verification/Paging.thy ===== *)
theory Paging
  imports Refcount
begin

text \<open>
  Page tables, second part (\<^verbatim>\<open>memory/paging.c\<close>): mapping frames, releasing, reallocating and
  moving virtual memory, access to the memory of another process, copy-on-write duplication and
  the page fault handler, and creating, forking and releasing the page tables of a process.

  A process is named by its address, \<open>0\<close> being the kernel; \<open>procMem\<close> holds its page directory and
  the page tables mapped so far, all of them kernel virtual addresses. Lengths in pages are natural
  numbers; addresses are 32-bit words, so a run over the end of the address space wraps as the
  pointer arithmetic of the source does.
\<close>

unbundle bit_operations_syntax

datatype intStatus =
    INTERRUPT_UNHANDLED
  | INTERRUPT_CONTINUE_EXECUTION
  | INTERRUPT_YIELD
  | INTERRUPT_EXIT_THREAD
  | INTERRUPT_EXIT_PROCESS

section \<open>Mapping frames\<close>

text \<open>The search for a free page in \<^verbatim>\<open>__pagingMapPhysMem\<close>, with \<open>n\<close> pages from page \<open>i\<close> on left.\<close>

primrec map_search :: "entryLookup \<Rightarrow> nat \<Rightarrow> nat \<Rightarrow> paging \<Rightarrow> (paging \<times> (entryLoc \<times> u32)) kres" where
  "map_search get i 0 s = Inl (SystemFailure ''virtual address space is exhausted'')"
| "map_search get i (Suc n) s =
     kbind (need (get (push_bit 12 (word_of_nat i)) True s)) (\<lambda>(s, table).
       if pte s table = 0 then Inr (s, (table, push_bit 12 (word_of_nat i)))
       else map_search get (i + 1) n s)"

definition pagingMapPhysMem ::
  "entryLookup \<Rightarrow> nat \<Rightarrow> u32 \<Rightarrow> bool \<Rightarrow> bool \<Rightarrow> paging \<Rightarrow> (paging \<times> u32) kres" where
  "pagingMapPhysMem get index vaddr rw user s =
     kbind (if vaddr \<noteq> 0
            then kassert (vaddr AND NOT 0xFFF \<noteq> 0) (
                 kbind (need (get vaddr True s)) (\<lambda>(s, table).
                   if pte s table \<noteq> 0
                   then Inl (SystemFailure ''Requested virtual memory address is already in use'')
                   else Inr (s, (table, vaddr))))
            else map_search get 1 (KERNEL_DIR_ENTRY * PAGETABLE_COUNT - 1) s) (\<lambda>(s, (table, vaddr)).
     Inr (set_pte table (present_entry rw user index) s, vaddr))"

text \<open>\<^verbatim>\<open>__getPagingEntry(p, addr, alloc)\<close> for any process.\<close>

definition getPagingEntry :: "addr \<Rightarrow> entryLookup" where
  "getPagingEntry p vaddr alloc s =
     (if p = 0 then getPagingEntry_kernel vaddr alloc s
      else let i = unat (drop_bit 22 vaddr) in
        kassert (pagingEnabled s) (
        kbind (ktrans (pageDirectory (procMem s p) + word_of_nat (4 * i)) s) (\<lambda>dir.
        kbind (dir_entry dir alloc s) (\<lambda>r.
          case r of None \<Rightarrow> Inr (s, None)
          | Some (s, new) \<Rightarrow>
              kbind (if pageTables (procMem s p) i = 0
                     then kbind (physMemAddRefPage (pe_frame (pte s dir)) s) (\<lambda>(s, frame).
                          kbind (pagingMapPhysMem getPagingEntry_kernel frame 0 True False s) (\<lambda>(s, va).
                          Inr (s\<lparr>procMem := (procMem s)(p := (procMem s p)
                                 \<lparr>pageTables := (pageTables (procMem s p))(i := va)\<rparr>)\<rparr>)))
                     else Inr s) (\<lambda>s.
              kbind (ktrans (pageTables (procMem s p) i + 4 * (drop_bit 12 vaddr AND 0x3FF)) s) (\<lambda>table.
              Inr (if new then clear_page (fst table) s else s, Some table)))))))"

section \<open>Releasing memory\<close>

text \<open>The loop of \<^verbatim>\<open>pagingTryReleasePhysMem\<close> and \<^verbatim>\<open>pagingTryReleaseUserMem\<close>; \<open>valid\<close> says which
  entries may be released.\<close>

primrec release_loop ::
  "entryLookup \<Rightarrow> (u32 \<Rightarrow> bool) \<Rightarrow> u32 \<Rightarrow> nat \<Rightarrow> bool \<Rightarrow> paging \<Rightarrow> (paging \<times> bool) kres" where
  "release_loop get valid cur 0 success s = Inr (s, success)"
| "release_loop get valid cur (Suc n) success s =
     kbind (get cur False s) (\<lambda>(s, table).
       case table of None \<Rightarrow> release_loop get valid (cur + 0x1000) n False s
       | Some t \<Rightarrow>
           if \<not> valid (pte s t) then release_loop get valid (cur + 0x1000) n False s
           else if \<not> pe_present (pte s t) \<and>
                   (pe_avail (pte s t) = PAGING_AVAIL_NOTPRESENT_RESERVED \<or>
                    pe_avail (pte s t) = PAGING_AVAIL_NOTPRESENT_ON_ACCESS_CREATE)
           then release_loop get valid (cur + 0x1000) n success (set_pte t 0 s)
           else kbind (present_frame (pte s t) s) (\<lambda>index.
                kbind (physMemReleasePage index (set_pte t 0 s)) (\<lambda>(s, _).
                release_loop get valid (cur + 0x1000) n success s)))"

definition pagingTryReleasePhysMem :: "entryLookup \<Rightarrow> u32 \<Rightarrow> nat \<Rightarrow> paging \<Rightarrow> (paging \<times> bool) kres" where
  "pagingTryReleasePhysMem get vaddr len s = release_loop get (\<lambda>w. w \<noteq> 0) vaddr len True s"

definition pagingReleasePhysMem :: "entryLookup \<Rightarrow> u32 \<Rightarrow> nat \<Rightarrow> paging \<Rightarrow> paging kres" where
  "pagingReleasePhysMem get vaddr len s =
     kbind (pagingTryReleasePhysMem get vaddr len s) (\<lambda>(s, success). kassert success (Inr s))"

definition pagingTryReleaseUserMem :: "entryLookup \<Rightarrow> u32 \<Rightarrow> nat \<Rightarrow> paging \<Rightarrow> (paging \<times> bool) kres" where
  "pagingTryReleaseUserMem get vaddr len s =
     release_loop get (\<lambda>w. w \<noteq> 0 \<and> pe_user w) vaddr len True s"

section \<open>Copy on write\<close>

text \<open>The copy of a shared page, as it is written out in the page fault handler,
  \<^verbatim>\<open>pagingMapRemoteMemory\<close> and \<^verbatim>\<open>pagingTryMapUserMem\<close>: make the entry writeable; unless this was
  the last reference, give it a fresh frame and copy the contents through two kernel mappings.\<close>

definition duplicate_page :: "entryLoc \<Rightarrow> paging \<Rightarrow> paging kres" where
  "duplicate_page table s =
     (let s = set_pte table (set_avail 0 (set_rw True (pte s table))) s;
          old_index = pe_frame (pte s table) in
      kbind (physMemIsLastRef old_index s) (\<lambda>last.
        if last then Inr s
        else kbind (physMemAllocPage False s) (\<lambda>(s, index).
             let s = set_pte table (set_frame index (pte s table)) s in
             kbind (physMemAddRefPage (pe_frame (pte s table)) s) (\<lambda>(s, f).
             kbind (pagingMapPhysMem getPagingEntry_kernel f 0 True False s) (\<lambda>(s, destination).
             kbind (physMemAddRefPage old_index s) (\<lambda>(s, f).
             kbind (pagingMapPhysMem getPagingEntry_kernel f 0 True False s) (\<lambda>(s, source).
             kbind (ktrans destination s) (\<lambda>d.
             kbind (ktrans source s) (\<lambda>src.
             let s = s\<lparr>pmem := (pmem s)(fst d := pmem s (fst src))\<rparr> in
             kbind (pagingReleasePhysMem getPagingEntry_kernel destination 1 s) (\<lambda>s.
             kbind (pagingReleasePhysMem getPagingEntry_kernel source 1 s) (\<lambda>s.
             kbind (physMemReleasePage old_index s) (\<lambda>(s, _). Inr s))))))))))))"

text \<open>The page fault handler; \<open>p\<close> is the process of the thread, \<open>cr2\<close> the faulting address.\<close>

definition interrupt_0x0E :: "addr \<Rightarrow> u32 \<Rightarrow> u32 \<Rightarrow> paging \<Rightarrow> (paging \<times> intStatus) kres" where
  "interrupt_0x0E p cr2 error s =
     (let user = (error AND 4 \<noteq> 0);
          write = (error AND 2 \<noteq> 0)
      in kassert ((p \<noteq> 0) = user) (
         kbind (getPagingEntry p cr2 False s) (\<lambda>(s, table).
           case table of None \<Rightarrow> Inr (s, INTERRUPT_UNHANDLED)
           | Some t \<Rightarrow>
               let w = pte s t in
               if w = 0 then Inr (s, INTERRUPT_UNHANDLED)
               else if \<not> pe_user w \<and> user then Inr (s, INTERRUPT_UNHANDLED)
               else if \<not> pe_present w \<and> pe_avail w = PAGING_AVAIL_NOTPRESENT_RESERVED
               then Inr (s, INTERRUPT_UNHANDLED)
               else kbind (present_frame w s) (\<lambda>_.
                 if \<not> pe_rw w \<and> write
                 then (if pe_avail w \<noteq> PAGING_AVAIL_PRESENT_ON_WRITE_DUPLICATE
                       then Inr (s, INTERRUPT_UNHANDLED)
                       else kbind (duplicate_page t s) (\<lambda>s. Inr (s, INTERRUPT_CONTINUE_EXECUTION)))
                 else Inr (s, INTERRUPT_CONTINUE_EXECUTION)))))"

section \<open>Allocating memory\<close>

text \<open>The loop that replaces a reserved area by unpageable frames.\<close>

primrec unpageable_loop ::
  "entryLookup \<Rightarrow> u32 \<Rightarrow> nat \<Rightarrow> bool \<Rightarrow> bool \<Rightarrow> paging \<Rightarrow> paging kres" where
  "unpageable_loop get cur 0 rw user s = Inr s"
| "unpageable_loop get cur (Suc n) rw user s =
     kbind (physMemAllocPage False s) (\<lambda>(s, f).
     kbind (physMemMarkUnpageable f s) (\<lambda>(s, index).
     kbind (need (get cur True s)) (\<lambda>(s, table).
     kassert (isReserved (pte s table))
       (unpageable_loop get (cur + 0x1000) n rw user (set_pte table (present_entry rw user index) s)))))"

definition pagingAllocatePhysMemUnpageable ::
  "entryLookup \<Rightarrow> u32 \<Rightarrow> bool \<Rightarrow> bool \<Rightarrow> paging \<Rightarrow> (paging \<times> u32) kres" where
  "pagingAllocatePhysMemUnpageable get len rw user s =
     kbind (pagingTrySearchArea get len s) (\<lambda>(s, vaddr).
       if vaddr = 0 then Inl (SystemFailure ''virtual address space is exhausted'')
       else kbind (pagingReserveArea get vaddr (unat len) user s) (\<lambda>s.
            kbind (unpageable_loop get vaddr (unat len) rw user s) (\<lambda>s. Inr (s, vaddr))))"

definition pagingAllocatePhysMemFixedUnpageable ::
  "entryLookup \<Rightarrow> u32 \<Rightarrow> nat \<Rightarrow> bool \<Rightarrow> bool \<Rightarrow> paging \<Rightarrow> (paging \<times> u32) kres" where
  "pagingAllocatePhysMemFixedUnpageable get vaddr len rw user s =
     kassert (vaddr AND NOT 0xFFF \<noteq> 0) (
     kbind (pagingReserveArea get vaddr len user s) (\<lambda>s.
     kbind (unpageable_loop get vaddr len rw user s) (\<lambda>s. Inr (s, vaddr))))"

text \<open>\<^verbatim>\<open>pagingTryAllocatePhysMemFixed\<close>: on a collision the pages mapped so far are released, but from
  the kernel's page table and not from the one they were mapped in.\<close>

primrec fixed_loop ::
  "entryLookup \<Rightarrow> u32 \<Rightarrow> u32 \<Rightarrow> nat \<Rightarrow> bool \<Rightarrow> bool \<Rightarrow> paging \<Rightarrow> (paging \<times> u32) kres" where
  "fixed_loop get vaddr cur 0 rw user s = Inr (s, vaddr)"
| "fixed_loop get vaddr cur (Suc n) rw user s =
     kbind (physMemAllocPage False s) (\<lambda>(s, index).
     kbind (need (get cur True s)) (\<lambda>(s, table).
       if pte s table \<noteq> 0
       then kbind (physMemReleasePage index s) (\<lambda>(s, _).
            kbind (pagingReleasePhysMem getPagingEntry_kernel vaddr (unat (drop_bit 12 (cur - vaddr))) s) (\<lambda>s.
            Inr (s, 0)))
       else fixed_loop get vaddr (cur + 0x1000) n rw user (set_pte table (present_entry rw user index) s)))"

definition pagingTryAllocatePhysMemFixed ::
  "entryLookup \<Rightarrow> u32 \<Rightarrow> nat \<Rightarrow> bool \<Rightarrow> bool \<Rightarrow> paging \<Rightarrow> (paging \<times> u32) kres" where
  "pagingTryAllocatePhysMemFixed get vaddr len rw user s =
     (if vaddr AND NOT 0xFFF = 0 then Inr (s, 0) else fixed_loop get vaddr vaddr len rw user s)"

definition pagingAllocatePhysMemFixed ::
  "entryLookup \<Rightarrow> u32 \<Rightarrow> nat \<Rightarrow> bool \<Rightarrow> bool \<Rightarrow> paging \<Rightarrow> (paging \<times> u32) kres" where
  "pagingAllocatePhysMemFixed get vaddr len rw user s =
     kbind (pagingTryAllocatePhysMemFixed get vaddr len rw user s) (\<lambda>(s, vaddr).
       if vaddr = 0 then Inl (SystemFailure ''Requested virtual memory address is already in use'')
       else Inr (s, vaddr))"

section \<open>Moving and resizing memory\<close>

text \<open>\<^verbatim>\<open>__pagingMove\<close>; the assertion compares byte addresses with a length in pages, as in the source.\<close>

primrec move_loop :: "entryLookup \<Rightarrow> u32 \<Rightarrow> u32 \<Rightarrow> nat \<Rightarrow> paging \<Rightarrow> paging kres" where
  "move_loop get dst_cur src_cur 0 s = Inr s"
| "move_loop get dst_cur src_cur (Suc n) s =
     kbind (get src_cur False s) (\<lambda>(s, src).
       case src of None \<Rightarrow> Inl AssertFailed
       | Some src \<Rightarrow> kassert (pte s src \<noteq> 0) (
           kbind (need (get dst_cur True s)) (\<lambda>(s, dst).
           kassert (pte s dst = 0)
             (move_loop get (dst_cur + 0x1000) (src_cur + 0x1000) n
                (set_pte src 0 (set_pte dst (pte s src) s))))))"

definition pagingMove :: "entryLookup \<Rightarrow> u32 \<Rightarrow> u32 \<Rightarrow> u32 \<Rightarrow> paging \<Rightarrow> (paging \<times> u32) kres" where
  "pagingMove get dst_addr src_addr len s =
     kassert (dst_addr + len \<le> src_addr \<or> src_addr + len \<le> dst_addr) (
     kbind (move_loop get dst_addr src_addr (unat len) s) (\<lambda>s.
     Inr (s, dst_addr OR (src_addr AND 0xFFF))))"

text \<open>Growing by \<open>n\<close> pages, \<open>old\<close> pages being mapped; a collision moves the whole area.\<close>

primrec grow_loop ::
  "entryLookup \<Rightarrow> nat \<Rightarrow> u32 \<Rightarrow> u32 \<Rightarrow> u32 \<Rightarrow> bool \<Rightarrow> bool \<Rightarrow> paging \<Rightarrow> (paging \<times> u32) kres" where
  "grow_loop get 0 vaddr old_length new_length rw user s = Inr (s, vaddr)"
| "grow_loop get (Suc n) vaddr old_length new_length rw user s =
     kbind (physMemAllocPage False s) (\<lambda>(s, index).
     kbind (need (get (vaddr + push_bit 12 old_length) True s)) (\<lambda>(s, table).
     kbind (if pte s table \<noteq> 0
            then kbind (pagingSearchArea get new_length s) (\<lambda>(s, new_addr).
                 kbind (pagingMove get new_addr vaddr old_length s) (\<lambda>(s, vaddr).
                 kbind (need (get (vaddr + push_bit 12 old_length) True s)) (\<lambda>(s, table).
                 kassert (pte s table = 0) (Inr (s, (table, vaddr))))))
            else Inr (s, (table, vaddr))) (\<lambda>(s, (table, vaddr)).
     grow_loop get n vaddr (old_length + 1) new_length rw user
       (set_pte table (present_entry rw user index) s))))"

primrec shrink_loop :: "entryLookup \<Rightarrow> u32 \<Rightarrow> nat \<Rightarrow> paging \<Rightarrow> paging kres" where
  "shrink_loop get cur 0 s = Inr s"
| "shrink_loop get cur (Suc n) s =
     kbind (get cur False s) (\<lambda>(s, table).
       case table of None \<Rightarrow> Inl AssertFailed
       | Some t \<Rightarrow> kassert (pte s t \<noteq> 0) (
           if \<not> pe_present (pte s t) \<and> pe_avail (pte s t) = PAGING_AVAIL_NOTPRESENT_ON_ACCESS_CREATE
           then shrink_loop get (cur + 0x1000) n (set_pte t 0 s)
           else kbind (present_frame (pte s t) s) (\<lambda>index.
                kbind (physMemReleasePage index (set_pte t 0 s)) (\<lambda>(s, _).
                shrink_loop get (cur + 0x1000) n s))))"

definition pagingReAllocatePhysMem ::
  "entryLookup \<Rightarrow> u32 \<Rightarrow> u32 \<Rightarrow> u32 \<Rightarrow> bool \<Rightarrow> bool \<Rightarrow> paging \<Rightarrow> (paging \<times> u32) kres" where
  "pagingReAllocatePhysMem get vaddr old_length new_length rw user s =
     (if old_length < new_length
      then kbind (if vaddr = 0 then pagingSearchArea get new_length s else Inr (s, vaddr)) (\<lambda>(s, vaddr).
           grow_loop get (unat new_length - unat old_length) vaddr old_length new_length rw user s)
      else kbind (shrink_loop get (vaddr + push_bit 12 new_length)
                    (unat old_length - unat new_length) s) (\<lambda>s.
           Inr (s, if new_length = 0 then 0 else vaddr)))"

section \<open>Access to the memory of another process\<close>

primrec remote_loop ::
  "entryLookup \<Rightarrow> entryLookup \<Rightarrow> u32 \<Rightarrow> u32 \<Rightarrow> nat \<Rightarrow> bool \<Rightarrow> bool \<Rightarrow> paging \<Rightarrow> paging kres" where
  "remote_loop dst_get src_get dst_cur src_cur 0 rw user s = Inr s"
| "remote_loop dst_get src_get dst_cur src_cur (Suc n) rw user s =
     kbind (src_get src_cur False s) (\<lambda>(s, src).
       case src of None \<Rightarrow> Inl AssertFailed
       | Some src \<Rightarrow> kassert (pte s src \<noteq> 0) (
           kbind (need (dst_get dst_cur True s)) (\<lambda>(s, dst).
           kassert (isReserved (pte s dst)) (
           kbind (present_frame (pte s src) s) (\<lambda>_.
           kbind (if rw \<and> \<not> pe_rw (pte s src) \<and>
                     pe_avail (pte s src) = PAGING_AVAIL_PRESENT_ON_WRITE_DUPLICATE
                  then duplicate_page src s else Inr s) (\<lambda>s.
           let s = set_pte dst (set_user user (set_rw rw (pte s src))) s in
           kbind (physMemAddRefPage (pe_frame (pte s dst)) s) (\<lambda>(s, _).
           remote_loop dst_get src_get (dst_cur + 0x1000) (src_cur + 0x1000) n rw user s)))))))"

definition pagingMapRemoteMemory ::
  "entryLookup \<Rightarrow> entryLookup \<Rightarrow> u32 \<Rightarrow> u32 \<Rightarrow> u32 \<Rightarrow> bool \<Rightarrow> bool \<Rightarrow> paging \<Rightarrow> (paging \<times> u32) kres" where
  "pagingMapRemoteMemory dst_get src_get dst_addr src_addr len rw user s =
     kbind (if dst_addr = 0 then pagingSearchArea dst_get len s else Inr (s, dst_addr)) (\<lambda>(s, dst_addr).
       if dst_addr AND NOT 0xFFF = 0 then Inr (s, 0)
       else kbind (pagingReserveArea dst_get dst_addr (unat len) user s) (\<lambda>s.
            kbind (remote_loop dst_get src_get dst_addr src_addr (unat len) rw user s) (\<lambda>s.
            Inr (s, dst_addr OR (src_addr AND 0xFFF)))))"

text \<open>The loop of \<^verbatim>\<open>pagingTryMapUserMem\<close>; the result says whether \<^verbatim>\<open>goto invalid\<close> was taken.\<close>

primrec userMem_loop :: "entryLookup \<Rightarrow> u32 \<Rightarrow> u32 \<Rightarrow> nat \<Rightarrow> bool \<Rightarrow> paging \<Rightarrow> (paging \<times> bool) kres" where
  "userMem_loop src_get dst_cur src_cur 0 rw s = Inr (s, True)"
| "userMem_loop src_get dst_cur src_cur (Suc n) rw s =
     kbind (src_get src_cur False s) (\<lambda>(s, src).
       case src of None \<Rightarrow> Inr (s, False)
       | Some src \<Rightarrow>
           if pte s src = 0 \<or> \<not> pe_user (pte s src) then Inr (s, False)
           else kbind (need (getPagingEntry_kernel dst_cur True s)) (\<lambda>(s, dst).
                kassert (isReserved (pte s dst)) (
                if \<not> pe_present (pte s src) \<and> pe_avail (pte s src) = PAGING_AVAIL_NOTPRESENT_RESERVED
                then Inr (s, False)
                else kbind (present_frame (pte s src) s) (\<lambda>_.
                  if rw \<and> \<not> pe_rw (pte s src) \<and>
                     pe_avail (pte s src) \<noteq> PAGING_AVAIL_PRESENT_ON_WRITE_DUPLICATE
                  then Inr (s, False)
                  else kbind (if rw \<and> \<not> pe_rw (pte s src) then duplicate_page src s else Inr s) (\<lambda>s.
                       let s = set_pte dst (set_user False (set_rw rw (pte s src))) s in
                       kbind (physMemAddRefPage (pe_frame (pte s dst)) s) (\<lambda>(s, _).
                       userMem_loop src_get (dst_cur + 0x1000) (src_cur + 0x1000) n rw s))))))"

definition pagingTryMapUserMem :: "entryLookup \<Rightarrow> u32 \<Rightarrow> u32 \<Rightarrow> bool \<Rightarrow> paging \<Rightarrow> (paging \<times> u32) kres" where
  "pagingTryMapUserMem src_get src_addr len rw s =
     kbind (pagingSearchArea getPagingEntry_kernel len s) (\<lambda>(s, dst_addr).
     kbind (pagingReserveArea getPagingEntry_kernel dst_addr (unat len) False s) (\<lambda>s.
     kbind (userMem_loop src_get dst_addr src_addr (unat len) rw s) (\<lambda>(s, valid).
       if valid then Inr (s, dst_addr OR (src_addr AND 0xFFF))
       else kbind (pagingReleasePhysMem getPagingEntry_kernel dst_addr (unat len) s) (\<lambda>s.
            Inr (s, 0)))))"

text \<open>\<^verbatim>\<open>struct userMemory\<close> and the functions of paging.h that system calls use on it.\<close>

record userMemory =
  um_addr :: u32
  um_length :: u32

definition user_pages :: "u32 \<Rightarrow> u32 \<Rightarrow> u32" where
  "user_pages src_addr byte_length = drop_bit 12 ((src_addr AND 0xFFF) + byte_length + 0xFFF)"

definition ACCESS_USER_MEMORY ::
  "entryLookup \<Rightarrow> u32 \<Rightarrow> u32 \<Rightarrow> bool \<Rightarrow> paging \<Rightarrow> (paging \<times> userMemory \<times> bool) kres" where
  "ACCESS_USER_MEMORY get src_addr byte_length rw s =
     (if byte_length = 0 then Inr (s, \<lparr>um_addr = 0, um_length = 0\<rparr>, True)
      else kbind (pagingTryMapUserMem get src_addr (user_pages src_addr byte_length) rw s) (\<lambda>(s, va).
           Inr (s, \<lparr>um_addr = va, um_length = user_pages src_addr byte_length\<rparr>, va \<noteq> 0)))"

definition ACCESS_USER_MEMORY_STRUCT ::
  "entryLookup \<Rightarrow> u32 \<Rightarrow> u32 \<Rightarrow> u32 \<Rightarrow> bool \<Rightarrow> paging \<Rightarrow> (paging \<times> userMemory option \<times> bool) kres" where
  "ACCESS_USER_MEMORY_STRUCT get src_addr count struct_length rw s =
     (let byte_length = ucast count * ucast struct_length :: u64
      in if drop_bit 32 byte_length \<noteq> 0 then Inr (s, None, False)
         else kbind (ACCESS_USER_MEMORY get src_addr (ucast byte_length) rw s) (\<lambda>(s, k, b).
              Inr (s, Some k, b)))"

definition RELEASE_USER_MEMORY :: "userMemory \<Rightarrow> paging \<Rightarrow> paging kres" where
  "RELEASE_USER_MEMORY k s =
     (if um_addr k \<noteq> 0 then pagingReleasePhysMem getPagingEntry_kernel (um_addr k) (unat (um_length k)) s
      else Inr s)"

section \<open>The page tables of a process\<close>

definition set_proc :: "addr \<Rightarrow> procPaging \<Rightarrow> paging \<Rightarrow> paging" where
  "set_proc p m s = s\<lparr>procMem := (procMem s)(p := m)\<rparr>"

definition pagingAllocProcessPageTable :: "addr \<Rightarrow> paging \<Rightarrow> paging kres" where
  "pagingAllocProcessPageTable p s =
     kassert (pagingEnabled s \<and> p \<noteq> 0) (
     kassert (pageDirectory (procMem s p) = 0) (
     kbind (pagingAllocatePhysMem getPagingEntry_kernel 1 True False s) (\<lambda>(s, va).
     kbind (ktrans va s) (\<lambda>(f, _).
     Inr (set_proc p \<lparr>pageDirectory = va, pageTables = \<lambda>_. 0\<rparr> (clear_page f s))))))"

text \<open>One page of \<^verbatim>\<open>pagingForkProcessPageTable\<close>. An entry that is not present is copied and then hits
  the assertion behind the switch.\<close>

definition fork_entry :: "addr \<Rightarrow> nat \<Rightarrow> entryLoc \<Rightarrow> paging \<Rightarrow> paging kres" where
  "fork_entry destination i src s =
     kbind (need (getPagingEntry destination (push_bit 12 (word_of_nat i)) True s)) (\<lambda>(s, dst).
     kassert (pte s dst = 0) (
     kbind (present_frame (pte s src) s) (\<lambda>_.
       let a = pe_avail (pte s src) in
       if a = 0
       then let s = (if pe_rw (pte s src)
                     then set_pte src (set_avail PAGING_AVAIL_PRESENT_ON_WRITE_DUPLICATE
                            (set_rw False (pte s src))) s else s);
                s = set_pte dst (pte s src) s
            in kbind (physMemAddRefPage (pe_frame (pte s dst)) s) (\<lambda>(s, _). Inr s)
       else if a = PAGING_AVAIL_PRESENT_SHARED \<or> a = PAGING_AVAIL_PRESENT_ON_WRITE_DUPLICATE
       then let s = set_pte dst (pte s src) s
            in kbind (physMemAddRefPage (pe_frame (pte s dst)) s) (\<lambda>(s, _). Inr s)
       else if a = PAGING_AVAIL_PRESENT_NO_FORK then Inr s
       else Inl AssertFailed)))"

function fork_loop :: "addr \<Rightarrow> addr \<Rightarrow> nat \<Rightarrow> paging \<Rightarrow> paging kres" where
  "fork_loop destination source i s =
     (if i < PAGETABLE_COUNT * PAGETABLE_COUNT
      then kbind (getPagingEntry source (push_bit 12 (word_of_nat i)) False s) (\<lambda>(s, src).
             case src of None \<Rightarrow> fork_loop destination source ((i OR PAGETABLE_MASK) + 1) s
             | Some src \<Rightarrow>
                 kbind (if pte s src \<noteq> 0 then fork_entry destination i src s else Inr s)
                   (fork_loop destination source (i + 1)))
      else Inr s)"
  by pat_completeness auto
termination
  by (relation "measure (\<lambda>(_, _, i, _). PAGETABLE_COUNT * PAGETABLE_COUNT - i)")
     (auto intro: diff_less_mono2 less_Suc_or)

declare fork_loop.simps [simp del]

definition pagingForkProcessPageTable :: "addr \<Rightarrow> addr \<Rightarrow> paging \<Rightarrow> paging kres" where
  "pagingForkProcessPageTable destination source s =
     kassert (pagingEnabled s \<and> destination \<noteq> 0 \<and> source \<noteq> 0) (
     kassert (pageDirectory (procMem s source) \<noteq> 0) (
     kassert (pageDirectory (procMem s destination) = 0) (
     kbind (pagingAllocatePhysMem getPagingEntry_kernel 1 True False s) (\<lambda>(s, va).
     kbind (ktrans va s) (\<lambda>(f, _).
     fork_loop destination source 0
       (set_proc destination \<lparr>pageDirectory = va, pageTables = \<lambda>_. 0\<rparr> (clear_page f s)))))))"

text \<open>\<^verbatim>\<open>pagingReleaseProcessPageTable\<close>: first all pages, then the page tables and the directory.\<close>

function releasePages_loop :: "addr \<Rightarrow> nat \<Rightarrow> paging \<Rightarrow> paging kres" where
  "releasePages_loop p i s =
     (if i < PAGETABLE_COUNT * PAGETABLE_COUNT
      then kbind (getPagingEntry p (push_bit 12 (word_of_nat i)) False s) (\<lambda>(s, table).
             case table of None \<Rightarrow> releasePages_loop p ((i OR PAGETABLE_MASK) + 1) s
             | Some t \<Rightarrow>
                 if pte s t \<noteq> 0 \<and>
                    \<not> (\<not> pe_present (pte s t) \<and>
                       (pe_avail (pte s t) = PAGING_AVAIL_NOTPRESENT_RESERVED \<or>
                        pe_avail (pte s t) = PAGING_AVAIL_NOTPRESENT_ON_ACCESS_CREATE))
                 then kbind (present_frame (pte s t) s) (\<lambda>index.
                      kbind (physMemReleasePage index (set_pte t 0 s)) (\<lambda>(s, _).
                      releasePages_loop p (i + 1) s))
                 else releasePages_loop p (i + 1) s)
      else Inr s)"
  by pat_completeness auto
termination
  by (relation "measure (\<lambda>(_, i, _). PAGETABLE_COUNT * PAGETABLE_COUNT - i)")
     (auto intro: diff_less_mono2 less_Suc_or)

declare releasePages_loop.simps [simp del]

primrec releaseTables_loop :: "addr \<Rightarrow> nat \<Rightarrow> nat \<Rightarrow> paging \<Rightarrow> paging kres" where
  "releaseTables_loop p i 0 s = Inr s"
| "releaseTables_loop p i (Suc n) s =
     kbind (if pageTables (procMem s p) i \<noteq> 0
            then kbind (pagingReleasePhysMem getPagingEntry_kernel (pageTables (procMem s p) i) 1 s) (\<lambda>s.
                 Inr (set_proc p ((procMem s p)\<lparr>pageTables := (pageTables (procMem s p))(i := 0)\<rparr>) s))
            else Inr s) (\<lambda>s.
     kbind (ktrans (pageDirectory (procMem s p) + word_of_nat (4 * i)) s) (\<lambda>dir.
     kbind (if pte s dir \<noteq> 0
            then kbind (present_frame (pte s dir) s) (\<lambda>index.
                 kbind (physMemReleasePage index (set_pte dir 0 s)) (\<lambda>(s, _). Inr s))
            else Inr s)
       (releaseTables_loop p (i + 1) n)))"

definition pagingReleaseProcessPageTable :: "addr \<Rightarrow> paging \<Rightarrow> paging kres" where
  "pagingReleaseProcessPageTable p s =
     kassert (pagingEnabled s \<and> p \<noteq> 0) (
     kassert (pageDirectory (procMem s p) \<noteq> 0) (
     kbind (releasePages_loop p 0 s) (\<lambda>s.
     kbind (releaseTables_loop p 0 PAGETABLE_COUNT s) (\<lambda>s.
     kbind (pagingReleasePhysMem getPagingEntry_kernel (pageDirectory (procMem s p)) 1 s) (\<lambda>s.
     Inr (set_proc p ((procMem s p)\<lparr>pageDirectory := 0\<rparr>) s))))))"

section \<open>Information and initialization\<close>

record processInfo =
  pagesPhysical :: u32
  pagesShared :: u32
  pagesNoFork :: u32
  pagesReserved :: u32
  pagesOutpaged :: u32

definition count_entry :: "u32 \<Rightarrow> 'a processInfo_scheme \<Rightarrow> 'a processInfo_scheme kres" where
  "count_entry w info =
     (if pe_present w
      then Inr (if pe_avail w = 0 then info\<lparr>pagesPhysical := pagesPhysical info + 1\<rparr>
                else if pe_avail w = PAGING_AVAIL_PRESENT_SHARED \<or>
                        pe_avail w = PAGING_AVAIL_PRESENT_ON_WRITE_DUPLICATE
                then info\<lparr>pagesShared := pagesShared info + 1\<rparr>
                else if pe_avail w = PAGING_AVAIL_PRESENT_NO_FORK
                then info\<lparr>pagesNoFork := pagesNoFork info + 1\<rparr> else info)
      else if pe_avail w = PAGING_AVAIL_NOTPRESENT_RESERVED \<or>
              pe_avail w = PAGING_AVAIL_NOTPRESENT_ON_ACCESS_CREATE
      then Inr (info\<lparr>pagesReserved := pagesReserved info + 1\<rparr>)
      else if pe_avail w = PAGING_AVAIL_NOTPRESENT_OUTPAGED
      then Inr (info\<lparr>pagesOutpaged := pagesOutpaged info + 1\<rparr>)
      else Inl AssertFailed)"

function info_loop :: "addr \<Rightarrow> nat \<Rightarrow> 'a processInfo_scheme \<Rightarrow> paging \<Rightarrow> (paging \<times> 'a processInfo_scheme) kres" where
  "info_loop p i info s =
     (if i < PAGETABLE_COUNT * PAGETABLE_COUNT
      then kbind (getPagingEntry p (push_bit 12 (word_of_nat i)) False s) (\<lambda>(s, table).
             case table of None \<Rightarrow> info_loop p ((i OR PAGETABLE_MASK) + 1) info s
             | Some t \<Rightarrow>
                 kbind (if pte s t \<noteq> 0 then count_entry (pte s t) info else Inr info) (\<lambda>info.
                 info_loop p (i + 1) info s))
      else Inr (s, info))"
  by pat_completeness auto
termination
  by (relation "measure (\<lambda>(_, i, _, _). PAGETABLE_COUNT * PAGETABLE_COUNT - i)")
     (auto intro: diff_less_mono2 less_Suc_or)

declare info_loop.simps [simp del]

definition pagingFillProcessInfo ::
  "addr \<Rightarrow> 'a processInfo_scheme \<Rightarrow> paging \<Rightarrow> (paging \<times> 'a processInfo_scheme) kres" where
  "pagingFillProcessInfo p info s =
     kassert (pagingEnabled s) (
       let info = info\<lparr>pagesPhysical := 0, pagesShared := 0, pagesNoFork := 0, pagesReserved := 0,
                       pagesOutpaged := 0\<rparr>
       in if p \<noteq> 0 \<and> pageDirectory (procMem s p) = 0 then Inr (s, info)
          else info_loop p 0 info s)"

text \<open>The two loops of \<^verbatim>\<open>pagingInit\<close> over the pages of the boot map.\<close>

definition boot_indices :: "bootMapEntry list \<Rightarrow> nat list" where
  "boot_indices m = concat (map (\<lambda>e. [startIndex e..<entry_stop e]) m)"

primrec identity_map :: "nat list \<Rightarrow> paging \<Rightarrow> paging kres" where
  "identity_map [] s = Inr s"
| "identity_map (index # is) s =
     kbind (pagingMapPhysMem getPagingEntry_kernel index (push_bit 12 (word_of_nat index)) True False s)
       (\<lambda>(s, _). identity_map is s)"

primrec mark_all :: "nat list \<Rightarrow> paging \<Rightarrow> paging kres" where
  "mark_all [] s = Inr s"
| "mark_all (index # is) s = kbind (physMemMarkUnpageable index s) (\<lambda>(s, _). mark_all is s)"

definition pagingInit :: "paging \<Rightarrow> paging kres" where
  "pagingInit s =
     kassert (\<not> pagingInitialized s) (
     kassert (\<not> pagingBootMapCheck 0 1 (pagingBootMap s)) (
     kassert (\<not> pagingBootMapCheck (unat (drop_bit 12 KERNEL_PAGE_ADDR)) (PAGE_COUNT - 1) (pagingBootMap s)) (
     kbind (physMemAllocPage False s) (\<lambda>(s, dir).
       let s = clear_page dir s;
           s = set_pte (dir, KERNEL_DIR_ENTRY) (set_frame dir (set_rw True (set_present True 0))) s;
           s = s\<lparr>cr3 := dir\<rparr>
       in kbind (identity_map (boot_indices (pagingBootMap s)) s) (\<lambda>s.
          kbind (mark_all (boot_indices (pagingBootMap s)) (s\<lparr>pagingEnabled := True\<rparr>)) (\<lambda>s.
          Inr (s\<lparr>pagingInitialized := True\<rparr>)))))))"

text \<open>\<^verbatim>\<open>pagingDumpPageTable\<close>: the lines it prints, as pairs of a virtual page and its frame.\<close>

function dumpTable_loop :: "addr \<Rightarrow> nat \<Rightarrow> paging \<Rightarrow> (nat \<times> nat) list kres" where
  "dumpTable_loop p i s =
     (if i < PAGETABLE_COUNT * PAGETABLE_COUNT
      then kbind (getPagingEntry p (push_bit 12 (word_of_nat i)) False s) (\<lambda>(s, table).
             case table of None \<Rightarrow> dumpTable_loop p ((i OR PAGETABLE_MASK) + 1) s
             | Some t \<Rightarrow>
                 if pte s t \<noteq> 0
                 then kassert (pe_present (pte s t))
                        (kbind (dumpTable_loop p (i + 1) s) (\<lambda>ls. Inr ((i, pe_frame (pte s t)) # ls)))
                 else dumpTable_loop p (i + 1) s)
      else Inr [])"
  by pat_completeness auto
termination
  by (relation "measure (\<lambda>(_, i, _). PAGETABLE_COUNT * PAGETABLE_COUNT - i)")
     (auto intro: diff_less_mono2 less_Suc_or)

declare dumpTable_loop.simps [simp del]

definition pagingDumpPageTable :: "addr \<Rightarrow> paging \<Rightarrow> (nat \<times> nat) list kres" where
  "pagingDumpPageTable p s = dumpTable_loop p 0 s"

section \<open>Lemmas\<close>

lemma bit_set_flag: "bit (set_flag n b w) k = (if k = n \<and> n < 32 then b else bit w k)"
  by (auto simp: set_flag_def bit_or_iff bit_and_iff bit_not_iff bit_push_one dest: bit_imp_le_length)

lemma user_pages_unat:
  "unat (user_pages src_addr byte_length) =
     (unat src_addr mod 4096 + unat byte_length + 4095) mod 2 ^ 32 div 4096"
proof -
  have "unat ((src_addr AND 0xFFF) + byte_length + 0xFFF) =
      (unat src_addr mod 4096 + unat byte_length + 4095) mod 2 ^ 32"
    by (simp add: unat_word_ariths unat_and_page_mask mod_add_left_eq)
  then show ?thesis by (simp add: user_pages_def unat_drop_bit_word)
qed

section \<open>Properties\<close>

text \<open>
  a system call that accesses user memory maps exactly the pages the buffer touches: they
  reach up to the last byte, and one page less would not, for every buffer whose rounded end stays
  below 4 GB.
\<close>

theorem user_pages_cover:
  assumes "unat src_addr mod PAGE_SIZE + unat byte_length + PAGE_MASK < 2 ^ 32" "byte_length \<noteq> 0"
  shows "unat src_addr mod PAGE_SIZE + unat byte_length \<le> unat (user_pages src_addr byte_length) * PAGE_SIZE
    \<and> (unat (user_pages src_addr byte_length) - 1) * PAGE_SIZE < unat src_addr mod PAGE_SIZE + unat byte_length"
proof -
  let ?n = "unat src_addr mod 4096 + unat byte_length"
  have "0 < unat byte_length" using assms(2) by (simp add: unat_gt_0)
  moreover have "unat (user_pages src_addr byte_length) = (?n + 4095) div 4096"
    using assms(1) by (simp add: user_pages_unat page_consts)
  ultimately show ?thesis using round_up_bounds [of ?n] by (simp add: page_consts)
qed

theorem user_pages_cover_witness:
  "unat (0x1FFF :: u32) mod PAGE_SIZE + unat (2 :: u32) \<le> unat (user_pages 0x1FFF 2) * PAGE_SIZE
    \<and> (unat (user_pages 0x1FFF 2) - 1) * PAGE_SIZE < unat (0x1FFF :: u32) mod PAGE_SIZE + unat (2 :: u32)"
  by (rule user_pages_cover [of "0x1FFF" 2]) (simp_all add: page_consts)

text \<open>
  C35: the page count of \<^verbatim>\<open>ACCESS_USER_MEMORY\<close> is computed in 32 bits, and for lengths just below
  4 GB it wraps to zero. The search for an area of no pages fails, so that any process stops the
  machine with such a system call, whatever its page tables look like.
\<close>

theorem access_user_memory_panics:
  assumes "2 ^ 32 \<le> unat src_addr mod PAGE_SIZE + unat byte_length + PAGE_MASK"
    and "unat src_addr mod PAGE_SIZE + unat byte_length + PAGE_MASK < 2 ^ 32 + PAGE_SIZE"
  shows "ACCESS_USER_MEMORY get src_addr byte_length rw s =
    Inl (SystemFailure ''virtual address space is exhausted'')"
proof -
  have "unat src_addr mod 4096 < 4096" by simp
  with assms(1) have "byte_length \<noteq> 0" by (auto simp: page_consts)
  moreover have "x mod 2 ^ 32 div 4096 = 0" if "2 ^ 32 \<le> x" "x < 2 ^ 32 + 4096" for x :: nat
    using that by (simp add: le_mod_geq)
  then have "unat (user_pages src_addr byte_length) = 0"
    using assms by (simp add: user_pages_unat page_consts)
  then have "user_pages src_addr byte_length = 0" by (simp add: unat_eq_zero)
  ultimately show ?thesis
    by (simp add: ACCESS_USER_MEMORY_def pagingTryMapUserMem_def pagingSearchArea_def
          pagingTrySearchArea_def)
qed

theorem access_user_memory_panics_witness:
  "\<forall>get s. ACCESS_USER_MEMORY get 0 0xFFFFFFFF True s =
     Inl (SystemFailure ''virtual address space is exhausted'')"
  using access_user_memory_panics [of 0 "0xFFFFFFFF"] by (simp add: page_consts)

end
