(* ===== verification/Console.thy ===== *)
theory Console
  imports Boot Util
begin

text \<open>
  The text console (\<^verbatim>\<open>console/console.c\<close>). \<open>screen\<close> is the video memory of 25 rows with 80 cells, row by row;
  a write outside of it is \<open>MemFault\<close>. The cursor has the width of the source, 8 bits. Writes to
  I/O ports are appended to \<open>ioLog\<close>; \<open>miscRegister\<close> is what the port \<^verbatim>\<open>0x3CC\<close> reads. The invariant
  \<open>console_ok\<close> keeps the cursor on the screen; the properties say that no operation leaves it and what
  printing numbers writes.
\<close>

unbundle bit_operations_syntax

definition VGA_WIDTH :: nat where "VGA_WIDTH = 80"
definition VGA_HEIGHT :: nat where "VGA_HEIGHT = 25"

definition CONFLAGS_ECHO :: u32 where "CONFLAGS_ECHO = 1"
definition CONFLAGS_HWCURSOR :: u32 where "CONFLAGS_HWCURSOR = 2"
definition CONFLAGS_HWCURSOR_AUTO :: u32 where "CONFLAGS_HWCURSOR_AUTO = 4"
definition CONFLAGS_RAW_MODE :: u32 where "CONFLAGS_RAW_MODE = 8"

record console =
  screen :: "u16 list"
  cursorX :: u8
  cursorY :: u8
  consoleColor :: u8
  consoleFlags :: u32
  cursorHardwareX :: u8
  cursorHardwareY :: u8
  fontMemory :: "nat \<Rightarrow> u8"
  miscRegister :: u8
  ioLog :: "(u16 \<times> u16) list"

text \<open>\<^verbatim>\<open>MAKE_COLOR\<close> and a cell of the video memory.\<close>

definition MAKE_COLOR :: "u8 \<Rightarrow> u8 \<Rightarrow> u8" where
  "MAKE_COLOR foreground background = (foreground AND 15) OR push_bit 4 background"

definition cell :: "u8 \<Rightarrow> u8 \<Rightarrow> u16" where
  "cell chr color = ucast chr OR push_bit 8 (ucast color)"

definition flag :: "u32 \<Rightarrow> console \<Rightarrow> bool" where
  "flag f c = (consoleFlags c AND f \<noteq> 0)"

definition outb :: "u16 \<Rightarrow> u8 \<Rightarrow> console \<Rightarrow> console" where
  "outb port v c = c\<lparr>ioLog := ioLog c @ [(port, ucast v)]\<rparr>"

definition outw :: "u16 \<Rightarrow> u16 \<Rightarrow> console \<Rightarrow> console" where
  "outw port v c = c\<lparr>ioLog := ioLog c @ [(port, v)]\<rparr>"

definition CHAR_OFFSET :: "nat \<Rightarrow> nat \<Rightarrow> nat" where
  "CHAR_OFFSET x y = y * VGA_WIDTH + x"

definition put_cell :: "nat \<Rightarrow> u16 \<Rightarrow> u16 list \<Rightarrow> u16 list kres" where
  "put_cell i v m = (if i < length m then Inr (m[i := v]) else Inl MemFault)"

definition get_cell :: "nat \<Rightarrow> u16 list \<Rightarrow> u16 kres" where
  "get_cell i m = (if i < length m then Inr (m ! i) else Inl MemFault)"

section \<open>The hardware cursor\<close>

definition consoleSetMiscOutputRegister :: "bool \<Rightarrow> console \<Rightarrow> console" where
  "consoleSetMiscOutputRegister b c =
     (let value = (if b then miscRegister c OR 1 else miscRegister c AND NOT 1)
      in (outb 0x3C2 value c)\<lparr>miscRegister := value\<rparr>)"

definition consoleShowHardwareCursor :: "bool \<Rightarrow> console \<Rightarrow> console" where
  "consoleShowHardwareCursor changed c =
     (let c = consoleSetMiscOutputRegister True c in
      if flag CONFLAGS_HWCURSOR c
      then let c = (if changed then outb 0x3D5 0 (outb 0x3D4 0x0A c) else c);
               indexPos = (of_nat (CHAR_OFFSET (unat (cursorHardwareX c)) (unat (cursorHardwareY c))) :: u32)
           in outb 0x3D5 (ucast (drop_bit 8 indexPos AND 0xFF)) (outb 0x3D4 0x0E
                (outb 0x3D5 (ucast (indexPos AND 0xFF)) (outb 0x3D4 0x0F c)))
      else outb 0x3D5 0x10 (outb 0x3D4 0x0A c))"

definition consoleSetHardwareCursor :: "u8 \<Rightarrow> u8 \<Rightarrow> console \<Rightarrow> console" where
  "consoleSetHardwareCursor x y c =
     (let c = c\<lparr>cursorHardwareX := x, cursorHardwareY := y\<rparr>
      in if flag CONFLAGS_HWCURSOR c then consoleShowHardwareCursor False c else c)"

definition consoleGetHardwareCursor :: "console \<Rightarrow> u32" where
  "consoleGetHardwareCursor c = push_bit 16 (ucast (cursorHardwareY c)) OR ucast (cursorHardwareX c)"

definition consoleSetFlags :: "u32 \<Rightarrow> console \<Rightarrow> console" where
  "consoleSetFlags newFlags c = consoleShowHardwareCursor True (c\<lparr>consoleFlags := newFlags\<rparr>)"

definition consoleGetFlags :: "console \<Rightarrow> u32" where
  "consoleGetFlags c = consoleFlags c"

section \<open>Cursor and colours\<close>

definition consoleInit :: "'a bootmem_scheme \<Rightarrow> 'a bootmem_scheme kres" where
  "consoleInit s = physMemProtectBootEntry 0xA0000 (0xC0000 - 0xA0000) s"

definition consoleSetCursorPos :: "u8 \<Rightarrow> u8 \<Rightarrow> console \<Rightarrow> console \<times> bool" where
  "consoleSetCursorPos x y c =
     (if unat x \<ge> VGA_WIDTH \<or> unat y \<ge> VGA_HEIGHT then (c, False) else (c\<lparr>cursorX := x, cursorY := y\<rparr>, True))"

definition consoleGetCursorPos :: "console \<Rightarrow> u32" where
  "consoleGetCursorPos c = push_bit 16 (ucast (cursorY c)) OR ucast (cursorX c)"

definition consoleGetCursorPosX :: "console \<Rightarrow> u32" where "consoleGetCursorPosX c = ucast (cursorX c)"
definition consoleGetCursorPosY :: "console \<Rightarrow> u32" where "consoleGetCursorPosY c = ucast (cursorY c)"
definition consoleSetColor :: "u8 \<Rightarrow> console \<Rightarrow> console" where "consoleSetColor color c = c\<lparr>consoleColor := color\<rparr>"
definition consoleGetColor :: "console \<Rightarrow> u8" where "consoleGetColor c = consoleColor c"
definition consoleGetColorForeground :: "console \<Rightarrow> u8" where "consoleGetColorForeground c = consoleColor c AND 15"
definition consoleGetColorBackground :: "console \<Rightarrow> u8" where "consoleGetColorBackground c = drop_bit 4 (consoleColor c) AND 15"
definition consoleGetHeight :: u8 where "consoleGetHeight = of_nat VGA_HEIGHT"
definition consoleGetWidth :: u8 where "consoleGetWidth = of_nat VGA_WIDTH"
definition consoleGetSize :: u32 where "consoleGetSize = push_bit 16 (of_nat VGA_HEIGHT) OR of_nat VGA_WIDTH"

section \<open>Clearing and scrolling\<close>

text \<open>The inner loops over the cells of a row, \<open>n\<close> of them left.\<close>

primrec clear_row :: "nat \<Rightarrow> nat \<Rightarrow> nat \<Rightarrow> u16 \<Rightarrow> u16 list \<Rightarrow> u16 list kres" where
  "clear_row 0 x y v m = Inr m"
| "clear_row (Suc n) x y v m = kbind (put_cell (CHAR_OFFSET x y) v m) (clear_row n (x + 1) y v)"

primrec clear_rows :: "nat \<Rightarrow> nat \<Rightarrow> u16 \<Rightarrow> u16 list \<Rightarrow> u16 list kres" where
  "clear_rows 0 y v m = Inr m"
| "clear_rows (Suc n) y v m = kbind (clear_row VGA_WIDTH 0 y v m) (clear_rows n (y + 1) v)"

definition consoleClear :: "console \<Rightarrow> console kres" where
  "consoleClear c =
     kbind (clear_rows VGA_HEIGHT 0 (cell 0x20 (consoleColor c)) (screen c)) (\<lambda>m.
       let c = fst (consoleSetCursorPos 0 0 (c\<lparr>screen := m\<rparr>))
       in Inr (if flag CONFLAGS_HWCURSOR_AUTO c then consoleSetHardwareCursor 0 0 c else c))"

primrec copy_row :: "nat \<Rightarrow> nat \<Rightarrow> nat \<Rightarrow> u16 list \<Rightarrow> u16 list kres" where
  "copy_row 0 x y m = Inr m"
| "copy_row (Suc n) x y m =
     kbind (get_cell (CHAR_OFFSET x y) m) (\<lambda>v.
     kbind (put_cell (CHAR_OFFSET x (y - 1)) v m) (copy_row n (x + 1) y))"

primrec copy_rows :: "nat \<Rightarrow> nat \<Rightarrow> u16 list \<Rightarrow> u16 list kres" where
  "copy_rows 0 y m = Inr m"
| "copy_rows (Suc n) y m = kbind (copy_row VGA_WIDTH 0 y m) (copy_rows n (y + 1))"

definition consoleScrollUp :: "console \<Rightarrow> console kres" where
  "consoleScrollUp c =
     kbind (copy_rows (VGA_HEIGHT - 1) 1 (screen c)) (\<lambda>m.
     kbind (clear_row VGA_WIDTH 0 (VGA_HEIGHT - 1) (cell 0x20 (consoleColor c)) m) (\<lambda>m.
     Inr (c\<lparr>screen := m\<rparr>)))"

section \<open>Writing\<close>

text \<open>The common end of \<^verbatim>\<open>consolePutChar\<close> and \<^verbatim>\<open>consolePutCharRaw\<close>: line breaks, the bottom of the screen and
  the hardware cursor.\<close>

definition advance :: "bool \<Rightarrow> console \<Rightarrow> console kres" where
  "advance newline c =
     (let rawMode = flag CONFLAGS_RAW_MODE c;
          c = (if (newline \<and> \<not> rawMode) \<or> unat (cursorX c) \<ge> VGA_WIDTH
               then c\<lparr>cursorY := cursorY c + 1, cursorX := 0\<rparr> else c)
      in kbind (if unat (cursorY c) \<ge> VGA_HEIGHT
                then (if rawMode then Inr (c\<lparr>cursorY := 0\<rparr>)
                      else kbind (consoleScrollUp c) (\<lambda>c. Inr (c\<lparr>cursorY := of_nat (VGA_HEIGHT - 1)\<rparr>)))
                else Inr c) (\<lambda>c.
         Inr (if flag CONFLAGS_HWCURSOR_AUTO c then consoleSetHardwareCursor (cursorX c) (cursorY c) c else c)))"

definition consolePutChar :: "u8 \<Rightarrow> console \<Rightarrow> console kres" where
  "consolePutChar chr c =
     kbind (if flag CONFLAGS_RAW_MODE c \<or> chr \<noteq> 0x0A
            then kbind (put_cell (CHAR_OFFSET (unat (cursorX c)) (unat (cursorY c))) (cell chr (consoleColor c)) (screen c)) (\<lambda>m.
                 Inr (c\<lparr>screen := m, cursorX := cursorX c + 1\<rparr>))
            else Inr c) (advance (chr = 0x0A))"

definition consoleEchoChar :: "u8 \<Rightarrow> console \<Rightarrow> console kres" where
  "consoleEchoChar chr c = (if flag CONFLAGS_ECHO c then consolePutChar chr c else Inr c)"

definition consolePutCharRaw :: "u16 \<Rightarrow> console \<Rightarrow> console kres" where
  "consolePutCharRaw chr c =
     kbind (put_cell (CHAR_OFFSET (unat (cursorX c)) (unat (cursorY c))) chr (screen c)) (\<lambda>m.
     advance (chr AND 0xFF = 0x0A) (c\<lparr>screen := m, cursorX := cursorX c + 1\<rparr>))"

text \<open>A C string is a list of bytes with a nul at the end.\<close>

primrec consoleWriteString :: "u8 list \<Rightarrow> console \<Rightarrow> console kres" where
  "consoleWriteString [] c = Inl MemFault"
| "consoleWriteString (b # bs) c = (if b \<noteq> 0 then kbind (consolePutChar b c) (consoleWriteString bs) else Inr c)"

primrec consoleWriteStringLen :: "nat \<Rightarrow> u8 list \<Rightarrow> console \<Rightarrow> console kres" where
  "consoleWriteStringLen 0 str c = Inr c"
| "consoleWriteStringLen (Suc n) str c =
     (case str of [] \<Rightarrow> Inl MemFault | b # bs \<Rightarrow> kbind (consolePutChar b c) (consoleWriteStringLen n bs))"

primrec consoleWriteRawLen :: "nat \<Rightarrow> u16 list \<Rightarrow> console \<Rightarrow> console kres" where
  "consoleWriteRawLen 0 d c = Inr c"
| "consoleWriteRawLen (Suc n) d c =
     (case d of [] \<Rightarrow> Inl MemFault | v # vs \<Rightarrow> kbind (consolePutCharRaw v c) (consoleWriteRawLen n vs))"

primrec consoleWriteStringMax :: "nat \<Rightarrow> u8 list \<Rightarrow> console \<Rightarrow> console kres" where
  "consoleWriteStringMax 0 str c = Inr c"
| "consoleWriteStringMax (Suc n) str c =
     (case str of [] \<Rightarrow> Inl MemFault
      | b # bs \<Rightarrow> if b \<noteq> 0 then kbind (consolePutChar b c) (consoleWriteStringMax n bs) else Inr c)"

text \<open>The characters of a C string literal, with the nul.\<close>

definition cstr :: "string \<Rightarrow> u8 list" where
  "cstr s = map of_char s @ [0]"

text \<open>The loops that fill the buffers from the last digit to the first; \<open>buf\<close> is what has been filled.\<close>

definition hexTable :: "u8 list" where
  "hexTable = map of_char ''0123456789ABCDEF''"

primrec hex_digits :: "nat \<Rightarrow> 'a::len word \<Rightarrow> u8 list \<Rightarrow> u8 list" where
  "hex_digits 0 value buf = buf"
| "hex_digits (Suc n) value buf = hex_digits n (drop_bit 4 value) (hexTable ! unat (value AND 0xF) # buf)"

definition consoleWriteHex32 :: "u32 \<Rightarrow> console \<Rightarrow> console kres" where
  "consoleWriteHex32 value c = kbind (consoleWriteString (cstr ''0x'') c) (consoleWriteStringLen 8 (hex_digits 8 value []))"

definition consoleWriteHex16 :: "u16 \<Rightarrow> console \<Rightarrow> console kres" where
  "consoleWriteHex16 value c = kbind (consoleWriteString (cstr ''0x'') c) (consoleWriteStringLen 4 (hex_digits 4 value []))"

text \<open>The buffer has room for 11 digits and the nul; \<open>n\<close> bytes are left in front.\<close>

primrec int_digits :: "nat \<Rightarrow> u32 \<Rightarrow> u8 list \<Rightarrow> u8 list kres" where
  "int_digits 0 value buf = Inl MemFault"
| "int_digits (Suc n) value buf =
     (let buf = (0x30 + ucast (value mod 10)) # buf; value = value div 10
      in if value \<noteq> 0 then int_digits n value buf else Inr buf)"

definition consoleWriteInt32 :: "u32 \<Rightarrow> console \<Rightarrow> console kres" where
  "consoleWriteInt32 value c = kbind (int_digits 11 value [0]) (\<lambda>buf. consoleWriteString buf c)"

text \<open>\<^verbatim>\<open>consoleSetFont\<close>; \<open>font\<close> is the generated table \<^verbatim>\<open>vga_latin1\<close>.\<close>

primrec font_loop :: "nat \<Rightarrow> nat \<Rightarrow> (nat \<Rightarrow> nat \<Rightarrow> u8) \<Rightarrow> (nat \<Rightarrow> u8) \<Rightarrow> nat \<Rightarrow> u8" where
  "font_loop 0 i font m = m"
| "font_loop (Suc n) i font m = font_loop n (i + 1) font (\<lambda>a. if i * 32 \<le> a \<and> a < i * 32 + 16 then font i (a - i * 32) else m a)"

definition consoleSetFont :: "(nat \<Rightarrow> nat \<Rightarrow> u8) \<Rightarrow> console \<Rightarrow> console" where
  "consoleSetFont font c =
     (let c = outw 0x03C4 0x0604 (outw 0x03C4 0x0402 (outw 0x03CE 0x0406 (outw 0x03CE 0x5 c)));
          c = c\<lparr>fontMemory := font_loop 256 0 font (fontMemory c)\<rparr>
      in outw 0x03CE 0x0E06 (outw 0x03CE 0x1005 (outw 0x03C4 0x0204 (outw 0x03C4 0x0302 c))))"

text \<open>The state at boot; the screen is what the loader has left.\<close>

definition initial_console :: console where
  "initial_console = \<lparr>screen = replicate 2000 0, cursorX = 0, cursorY = 0, consoleColor = MAKE_COLOR 15 0,
     consoleFlags = CONFLAGS_ECHO OR CONFLAGS_HWCURSOR OR CONFLAGS_HWCURSOR_AUTO, cursorHardwareX = 0,
     cursorHardwareY = 0, fontMemory = \<lambda>_. 0, miscRegister = 0, ioLog = []\<rparr>"

section \<open>The screen as rows\<close>

lemma clear_row_spec:
  assumes "y * 80 + x + n \<le> length m"
  shows "clear_row n x y v m = Inr (take (y * 80 + x) m @ replicate n v @ drop (y * 80 + x + n) m)"
  using assms
proof (induction n arbitrary: x m)
  case (Suc n)
  let ?o = "y * 80 + x"
  have "clear_row (Suc n) x y v m = clear_row n (x + 1) y v (m[?o := v])"
    using Suc.prems by (simp add: put_cell_def CHAR_OFFSET_def VGA_WIDTH_def)
  also have "\<dots> = Inr (take (?o + 1) (m[?o := v]) @ replicate n v @ drop (?o + 1 + n) (m[?o := v]))"
    using Suc.IH [of "x + 1" "m[?o := v]"] Suc.prems by simp
  also have "take (?o + 1) (m[?o := v]) = take ?o m @ [v]" using Suc.prems by (simp add: take_list_update_snoc)
  finally show ?case by (simp add: drop_update_cancel)
qed (simp add: append_take_drop_id)

lemma clear_rows_spec:
  assumes "(y + n) * 80 \<le> length m"
  shows "clear_rows n y v m = Inr (take (y * 80) m @ replicate (n * 80) v @ drop ((y + n) * 80) m)"
  using assms
proof (induction n arbitrary: y m)
  case (Suc n)
  have row: "clear_row VGA_WIDTH 0 y v m = Inr (take (y * 80) m @ replicate 80 v @ drop (y * 80 + 80) m)"
    using clear_row_spec [of y 0 80 m v] Suc.prems by (simp add: VGA_WIDTH_def)
  let ?m = "take (y * 80) m @ replicate 80 v @ drop (y * 80 + 80) m"
  have len: "length ?m = length m" using Suc.prems by simp
  have "clear_rows n (y + 1) v ?m = Inr (take ((y + 1) * 80) ?m @ replicate (n * 80) v @ drop ((y + 1 + n) * 80) ?m)"
    using Suc.IH [of "y + 1" ?m] Suc.prems len by simp
  moreover have "take ((y + 1) * 80) ?m = take (y * 80) m @ replicate 80 v"
    "drop ((y + 1 + n) * 80) ?m = drop ((y + Suc n) * 80) m"
    using Suc.prems by (simp_all add: algebra_simps)
  ultimately show ?case using row by (simp add: replicate_add)
qed simp

lemma copy_row_spec:
  assumes "k * 80 + 80 + x + n \<le> length m" "n \<le> 80"
  shows "copy_row n x (Suc k) m = Inr (take (k * 80 + x) m @ take n (drop (k * 80 + 80 + x) m) @ drop (k * 80 + x + n) m)"
  using assms
proof (induction n arbitrary: x m)
  case (Suc n)
  let ?o = "k * 80 + x" and ?p = "k * 80 + 80 + x"
  let ?m = "m[?o := m ! ?p]"
  have step: "copy_row (Suc n) x (Suc k) m = copy_row n (x + 1) (Suc k) ?m"
    using Suc.prems by (simp add: put_cell_def get_cell_def CHAR_OFFSET_def VGA_WIDTH_def add.commute add.left_commute)
  have rest: "copy_row n (x + 1) (Suc k) ?m = Inr (take (?o + 1) ?m @ take n (drop (?p + 1) ?m) @ drop (?o + 1 + n) ?m)"
    using Suc.IH [of "x + 1" ?m] Suc.prems by simp
  have t: "take (?o + 1) ?m = take ?o m @ [m ! ?p]" using Suc.prems by (simp add: take_list_update_snoc)
  have d: "drop (?p + 1) ?m = drop (?p + 1) m" "drop (?o + 1 + n) ?m = drop (?o + Suc n) m"
    by (simp_all add: drop_update_cancel)
  have n: "take (Suc n) (drop ?p m) = m ! ?p # take n (drop (?p + 1) m)"
    using Suc.prems by (simp add: Cons_nth_drop_Suc [symmetric])
  show ?case unfolding step rest t d n by simp
qed simp

lemma copy_rows_spec:
  assumes "(k + 1 + n) * 80 \<le> length m"
  shows "copy_rows n (Suc k) m =
    Inr (take (k * 80) m @ take (n * 80) (drop ((k + 1) * 80) m) @ drop ((k + n) * 80) m)"
  using assms
proof (induction n arbitrary: k m)
  case (Suc n)
  let ?m = "take (k * 80) m @ take 80 (drop (k * 80 + 80) m) @ drop (k * 80 + 80) m"
  have row: "copy_row VGA_WIDTH 0 (Suc k) m = Inr ?m"
    using copy_row_spec [of k 0 80 m] Suc.prems by (simp add: VGA_WIDTH_def)
  have len: "length ?m = length m" using Suc.prems by simp
  then have rest: "copy_rows n (Suc (Suc k)) ?m =
      Inr (take ((k + 1) * 80) ?m @ take (n * 80) (drop ((k + 2) * 80) ?m) @ drop ((k + 1 + n) * 80) ?m)"
    using Suc.IH [of "k + 1" ?m] Suc.prems by (simp add: algebra_simps)
  have t: "take ((k + 1) * 80) ?m = take (k * 80) m @ take 80 (drop (k * 80 + 80) m)"
    using Suc.prems by simp
  have d: "drop ((k + 2) * 80) ?m = drop ((k + 2) * 80) m" "drop ((k + 1 + n) * 80) ?m = drop ((k + 1 + n) * 80) m"
    using Suc.prems by (simp_all add: algebra_simps)
  have n: "take (Suc n * 80) (drop ((k + 1) * 80) m) = take 80 (drop (k * 80 + 80) m) @ take (n * 80) (drop ((k + 2) * 80) m)"
    by (simp add: take_add algebra_simps)
  show ?case using row rest unfolding t d n by (simp add: algebra_simps)
qed simp

lemma consoleScrollUp_screen:
  assumes "length (screen c) = 2000"
  shows "consoleScrollUp c = Inr (c\<lparr>screen := drop 80 (screen c) @ replicate 80 (cell 0x20 (consoleColor c))\<rparr>)"
proof -
  let ?m = "screen c" and ?v = "cell 0x20 (consoleColor c)"
  have "copy_rows 24 (Suc 0) ?m = Inr (take 1920 (drop 80 ?m) @ drop 1920 ?m)"
    using copy_rows_spec [of 0 24 ?m] assms by simp
  moreover have "take 1920 (drop 80 ?m) = drop 80 ?m" using assms by simp
  moreover have "clear_row 80 0 24 ?v (drop 80 ?m @ drop 1920 ?m) = Inr (drop 80 ?m @ replicate 80 ?v)"
    using clear_row_spec [of 24 0 80 "drop 80 ?m @ drop 1920 ?m" ?v] assms by simp
  ultimately show ?thesis by (simp add: consoleScrollUp_def VGA_HEIGHT_def VGA_WIDTH_def)
qed

lemma consoleClear_screen:
  assumes "length (screen c) = 2000"
  shows "clear_rows VGA_HEIGHT 0 v (screen c) = Inr (replicate 2000 v)"
  using clear_rows_spec [of 0 25 "screen c" v] assms by (simp add: VGA_HEIGHT_def)

section \<open>The cursor stays on the screen\<close>

definition console_ok :: "console \<Rightarrow> bool" where
  "console_ok c \<longleftrightarrow> length (screen c) = 2000 \<and> unat (cursorX c) < 80 \<and> unat (cursorY c) < 25"

text \<open>Port writes do not touch the screen.\<close>

lemma hardware_cursor_fields [simp]:
  "screen (consoleSetHardwareCursor x y c) = screen c" "cursorX (consoleSetHardwareCursor x y c) = cursorX c"
  "cursorY (consoleSetHardwareCursor x y c) = cursorY c" "consoleColor (consoleSetHardwareCursor x y c) = consoleColor c"
  "consoleFlags (consoleSetHardwareCursor x y c) = consoleFlags c"
  by (simp_all add: consoleSetHardwareCursor_def consoleShowHardwareCursor_def consoleSetMiscOutputRegister_def outb_def Let_def)

lemma set_flags_fields [simp]:
  "screen (consoleSetFlags f c) = screen c" "cursorX (consoleSetFlags f c) = cursorX c"
  "cursorY (consoleSetFlags f c) = cursorY c" "consoleColor (consoleSetFlags f c) = consoleColor c"
  "consoleFlags (consoleSetFlags f c) = f"
  by (simp_all add: consoleSetFlags_def consoleShowHardwareCursor_def consoleSetMiscOutputRegister_def outb_def Let_def)

text \<open>What a console shows: rows of cells, the cursor, and what the next characters look like.\<close>

record terminal =
  trows :: "u16 list list"
  tcolumn :: nat
  tline :: nat
  tcolour :: u8
  tmode :: u32

definition rows_of :: "u16 list \<Rightarrow> u16 list list" where
  "rows_of m = map (\<lambda>y. take 80 (drop (y * 80) m)) [0..<25]"

definition view :: "console \<Rightarrow> terminal" where
  "view c = \<lparr>trows = rows_of (screen c), tcolumn = unat (cursorX c), tline = unat (cursorY c),
     tcolour = consoleColor c, tmode = consoleFlags c\<rparr>"

text \<open>Printing on a terminal: a line break at the end of a line, and at the bottom the text moves up, or, in
  raw mode, printing continues at the top.\<close>

definition term_break :: "terminal \<Rightarrow> terminal" where
  "term_break t =
     (if tline t + 1 < 25 then t\<lparr>tline := tline t + 1, tcolumn := 0\<rparr>
      else if tmode t AND CONFLAGS_RAW_MODE \<noteq> 0 then t\<lparr>tline := 0, tcolumn := 0\<rparr>
      else t\<lparr>trows := tl (trows t) @ [replicate 80 (cell 0x20 (tcolour t))], tcolumn := 0\<rparr>)"

definition term_write :: "u16 \<Rightarrow> bool \<Rightarrow> terminal \<Rightarrow> terminal" where
  "term_write v newline t =
     (let t = t\<lparr>trows := (trows t)[tline t := (trows t ! tline t)[tcolumn t := v]], tcolumn := tcolumn t + 1\<rparr>
      in if tcolumn t = 80 \<or> newline then term_break t else t)"

definition term_put :: "u8 \<Rightarrow> terminal \<Rightarrow> terminal" where
  "term_put chr t =
     (if tmode t AND CONFLAGS_RAW_MODE = 0 \<and> chr = 0x0A then term_break t
      else term_write (cell chr (tcolour t)) False t)"

lemma take_drop_update:
  assumes "i < k"
  shows "take k (drop (y * k) (m[j * k + i := v])) =
    (if y = j then (take k (drop (y * k) m))[i := v] else take k (drop (y * k) m))"
proof -
  consider "y = j" | "y < j" | "j < y" by linarith
  then show ?thesis
  proof cases
    case 1
    then show ?thesis by (simp add: drop_update_swap take_update_swap)
  next
    case 2
    then have "Suc y * k \<le> j * k" by (intro mult_le_mono1) simp
    then show ?thesis using 2 by (simp add: drop_update_swap take_update_cancel)
  next
    case 3
    then have "Suc j * k \<le> y * k" by (intro mult_le_mono1) simp
    then show ?thesis using 3 assms by (simp add: drop_update_cancel)
  qed
qed

lemma rows_of_update:
  assumes "x < 80" "y < 25"
  shows "rows_of (m[y * 80 + x := v]) = (rows_of m)[y := (rows_of m ! y)[x := v]]"
  using assms by (intro nth_equalityI) (auto simp: rows_of_def take_drop_update nth_list_update)

lemma rows_of_scroll:
  assumes "length m = 2000"
  shows "rows_of (drop 80 m @ replicate 80 v) = tl (rows_of m) @ [replicate 80 v]"
proof (rule nth_equalityI)
  fix y assume "y < length (rows_of (drop 80 m @ replicate 80 v))"
  then have y: "y < 25" by (simp add: rows_of_def)
  show "rows_of (drop 80 m @ replicate 80 v) ! y = (tl (rows_of m) @ [replicate 80 v]) ! y"
  proof (cases "y = 24")
    case False
    then have "y < 24" using y by simp
    then show ?thesis using assms by (auto simp: rows_of_def nth_append nth_tl algebra_simps)
  qed (use assms in \<open>simp add: rows_of_def nth_append\<close>)
qed (simp add: rows_of_def)

lemma advance_view:
  assumes "length (screen c) = 2000" "unat (cursorX c) \<le> 80" "unat (cursorY c) < 25"
  shows "\<exists>c'. advance newline c = Inr c' \<and> console_ok c' \<and>
    view c' = (if newline \<and> \<not> flag CONFLAGS_RAW_MODE c \<or> unat (cursorX c) = 80 then term_break (view c) else view c)"
proof -
  let ?brk = "newline \<and> \<not> flag CONFLAGS_RAW_MODE c \<or> unat (cursorX c) \<ge> 80"
  let ?finish = "\<lambda>c. if flag CONFLAGS_HWCURSOR_AUTO c then consoleSetHardwareCursor (cursorX c) (cursorY c) c else c"
  have fin: "view (?finish d) = view d" "console_ok (?finish d) = console_ok d" for d
    by (simp_all add: view_def console_ok_def)
  show ?thesis
  proof (cases ?brk)
    case False
    then show ?thesis
      using assms fin [of c] by (intro exI [of _ "?finish c"]) (auto simp: advance_def VGA_WIDTH_def VGA_HEIGHT_def Let_def console_ok_def)
  next
    case True
    then have brk: "newline \<and> \<not> flag CONFLAGS_RAW_MODE c \<or> unat (cursorX c) = 80" using assms(2) by auto
    have y: "unat (cursorY c + 1) = unat (cursorY c) + 1" using assms(3) by (subst unat_add_small) auto
    let ?c = "c\<lparr>cursorY := cursorY c + 1, cursorX := 0\<rparr>"
    have adv: "advance newline c = kbind (if unat (cursorY ?c) \<ge> 25
        then (if flag CONFLAGS_RAW_MODE c then Inr (?c\<lparr>cursorY := 0\<rparr>)
              else kbind (consoleScrollUp ?c) (\<lambda>c. Inr (c\<lparr>cursorY := 24\<rparr>))) else Inr ?c) (\<lambda>c. Inr (?finish c))"
      unfolding advance_def Let_def VGA_WIDTH_def VGA_HEIGHT_def if_P [OF True] by simp
    consider "unat (cursorY c) + 1 < 25" | "unat (cursorY c) = 24" "flag CONFLAGS_RAW_MODE c" | "unat (cursorY c) = 24" "\<not> flag CONFLAGS_RAW_MODE c"
      using assms(3) by linarith
    then show ?thesis
    proof cases
      case 1
      with adv y brk fin [of ?c] assms show ?thesis
        by (intro exI [of _ "?finish ?c"]) (auto simp: console_ok_def term_break_def view_def)
    next
      case 2
      let ?d = "?c\<lparr>cursorY := 0\<rparr>"
      from 2 adv y brk fin [of ?d] assms show ?thesis
        by (intro exI [of _ "?finish ?d"]) (auto simp: console_ok_def term_break_def view_def flag_def)
    next
      case 3
      let ?d = "?c\<lparr>screen := drop 80 (screen c) @ replicate 80 (cell 0x20 (consoleColor c)), cursorY := 24\<rparr>"
      have "consoleScrollUp ?c = Inr (?c\<lparr>screen := drop 80 (screen c) @ replicate 80 (cell 0x20 (consoleColor c))\<rparr>)"
        using consoleScrollUp_screen [of ?c] assms(1) by simp
      with 3 adv y brk fin [of ?d] assms show ?thesis
        by (intro exI [of _ "?finish ?d"]) (auto simp: console_ok_def term_break_def view_def flag_def rows_of_scroll)
    qed
  qed
qed

lemma write_view:
  assumes "console_ok c"
  defines "i \<equiv> CHAR_OFFSET (unat (cursorX c)) (unat (cursorY c))"
  shows "\<exists>c'. kbind (put_cell i v (screen c)) (\<lambda>m. advance newline (c\<lparr>screen := m, cursorX := cursorX c + 1\<rparr>)) = Inr c' \<and>
    console_ok c' \<and> view c' = term_write v (newline \<and> \<not> flag CONFLAGS_RAW_MODE c) (view c)"
proof -
  have ok: "length (screen c) = 2000" "unat (cursorX c) < 80" "unat (cursorY c) < 25" using assms(1) by (auto simp: console_ok_def)
  have x: "unat (cursorX c + 1) = unat (cursorX c) + 1" using ok(2) by (subst unat_add_small) auto
  have i: "i = unat (cursorY c) * 80 + unat (cursorX c)" by (simp add: i_def CHAR_OFFSET_def VGA_WIDTH_def)
  then have "i < 2000" using ok by auto
  then have put: "put_cell i v (screen c) = Inr ((screen c)[i := v])" using ok(1) by (simp add: put_cell_def)
  let ?d = "c\<lparr>screen := (screen c)[i := v], cursorX := cursorX c + 1\<rparr>"
  have view: "view ?d = (view c)\<lparr>trows := (trows (view c))[tline (view c) := (trows (view c) ! tline (view c))[tcolumn (view c) := v]],
      tcolumn := tcolumn (view c) + 1\<rparr>"
    using rows_of_update [of "unat (cursorX c)" "unat (cursorY c)" "screen c" v] ok x i by (simp add: view_def)
  obtain c' where c': "advance newline ?d = Inr c'" "console_ok c'"
    "view c' = (if newline \<and> \<not> flag CONFLAGS_RAW_MODE ?d \<or> unat (cursorX ?d) = 80 then term_break (view ?d) else view ?d)"
    using advance_view [of ?d newline] ok x by auto
  have "tcolumn (view ?d) = unat (cursorX ?d)" "flag CONFLAGS_RAW_MODE ?d = flag CONFLAGS_RAW_MODE c"
    by (simp_all add: view_def flag_def)
  then have "view c' = term_write v (newline \<and> \<not> flag CONFLAGS_RAW_MODE c) (view c)"
    unfolding c'(3) term_write_def Let_def view [symmetric] by (auto simp: disj_commute)
  then show ?thesis using put c'(1,2) by simp
qed

lemma consolePutChar_view:
  assumes "console_ok c"
  shows "\<exists>c'. consolePutChar chr c = Inr c' \<and> console_ok c' \<and> view c' = term_put chr (view c)"
proof (cases "flag CONFLAGS_RAW_MODE c \<or> chr \<noteq> 0x0A")
  case True
  then have run: "consolePutChar chr c = kbind (put_cell (CHAR_OFFSET (unat (cursorX c)) (unat (cursorY c))) (cell chr (consoleColor c)) (screen c))
      (\<lambda>m. advance (chr = 0x0A) (c\<lparr>screen := m, cursorX := cursorX c + 1\<rparr>))"
    by (simp add: consolePutChar_def kbind_assoc)
  have nl: "(chr = 0x0A \<and> \<not> flag CONFLAGS_RAW_MODE c) = False" using True by auto
  have put: "term_put chr (view c) = term_write (cell chr (consoleColor c)) False (view c)"
    using True by (auto simp: term_put_def view_def flag_def)
  show ?thesis
    using write_view [OF assms, of "cell chr (consoleColor c)" "chr = 0x0A", unfolded nl] unfolding run put .
next
  case False
  then have "consolePutChar chr c = advance True c" by (simp add: consolePutChar_def)
  moreover have "tmode (view c) AND CONFLAGS_RAW_MODE = 0" using False by (simp add: view_def flag_def)
  ultimately show ?thesis
    using advance_view [of c True] assms False by (auto simp: console_ok_def term_put_def)
qed

lemma consolePutCharRaw_view:
  assumes "console_ok c"
  shows "\<exists>c'. consolePutCharRaw v c = Inr c' \<and> console_ok c' \<and>
    view c' = term_write v (v AND 0xFF = 0x0A \<and> tmode (view c) AND CONFLAGS_RAW_MODE = 0) (view c)"
  using write_view [OF assms, of v "v AND 0xFF = 0x0A"] by (simp add: consolePutCharRaw_def view_def flag_def)

lemma consoleClear_view:
  assumes "console_ok c"
  shows "\<exists>c'. consoleClear c = Inr c' \<and> console_ok c' \<and>
    view c' = (view c)\<lparr>trows := replicate 25 (replicate 80 (cell 0x20 (consoleColor c))), tcolumn := 0, tline := 0\<rparr>"
proof -
  have "rows_of (replicate 2000 v) = replicate 25 (replicate 80 v)" for v :: u16
    by (rule nth_equalityI) (auto simp: rows_of_def)
  moreover have "clear_rows VGA_HEIGHT 0 (cell 0x20 (consoleColor c)) (screen c) = Inr (replicate 2000 (cell 0x20 (consoleColor c)))"
    using assms by (intro consoleClear_screen) (simp add: console_ok_def)
  ultimately show ?thesis
    by (simp add: consoleClear_def console_ok_def consoleSetCursorPos_def VGA_WIDTH_def VGA_HEIGHT_def Let_def view_def)
qed

section \<open>Properties\<close>

datatype consoleOp =
    PutChar u8 | PutRaw u16 | Clear | SetColor u8 | SetFlags u32 | SetCursor u8 u8 | SetHardwareCursor u8 u8

primrec console_do :: "consoleOp \<Rightarrow> console \<Rightarrow> console kres" where
  "console_do (PutChar b) c = consolePutChar b c"
| "console_do (PutRaw v) c = consolePutCharRaw v c"
| "console_do Clear c = consoleClear c"
| "console_do (SetColor v) c = Inr (consoleSetColor v c)"
| "console_do (SetFlags f) c = Inr (consoleSetFlags f c)"
| "console_do (SetCursor x y) c = Inr (fst (consoleSetCursorPos x y c))"
| "console_do (SetHardwareCursor x y) c = Inr (consoleSetHardwareCursor x y c)"

primrec term_do :: "consoleOp \<Rightarrow> terminal \<Rightarrow> terminal" where
  "term_do (PutChar b) t = term_put b t"
| "term_do (PutRaw v) t = term_write v (v AND 0xFF = 0x0A \<and> tmode t AND CONFLAGS_RAW_MODE = 0) t"
| "term_do Clear t = t\<lparr>trows := replicate 25 (replicate 80 (cell 0x20 (tcolour t))), tcolumn := 0, tline := 0\<rparr>"
| "term_do (SetColor v) t = t\<lparr>tcolour := v\<rparr>"
| "term_do (SetFlags f) t = t\<lparr>tmode := f\<rparr>"
| "term_do (SetCursor x y) t = (if unat x < 80 \<and> unat y < 25 then t\<lparr>tcolumn := unat x, tline := unat y\<rparr> else t)"
| "term_do (SetHardwareCursor x y) t = t"

lemma console_do_view:
  assumes "console_ok c"
  shows "\<exists>c'. console_do x c = Inr c' \<and> console_ok c' \<and> view c' = term_do x (view c)"
proof (cases x)
  case PutChar
  then show ?thesis using consolePutChar_view [OF assms] by simp
next
  case PutRaw
  then show ?thesis using consolePutCharRaw_view [OF assms] by simp
next
  case Clear
  then show ?thesis using consoleClear_view [OF assms] by (simp add: view_def)
qed (use assms in \<open>simp_all add: console_ok_def view_def consoleSetColor_def consoleSetCursorPos_def VGA_WIDTH_def VGA_HEIGHT_def not_le\<close>)

primrec console_run :: "consoleOp list \<Rightarrow> console \<Rightarrow> console kres" where
  "console_run [] c = Inr c"
| "console_run (x # xs) c = kbind (console_do x c) (console_run xs)"

text \<open>
  C36: Every sequence of console operations, with any arguments, returns, never writes outside the video
  memory and keeps the cursor on the screen; what is shown is what a terminal of 25 rows with 80
  columns shows that breaks lines at the right edge and scrolls at the bottom.
\<close>
theorem console_refines_terminal:
  assumes "console_ok c"
  shows "\<exists>c'. console_run xs c = Inr c' \<and> console_ok c' \<and> view c' = fold term_do xs (view c)"
  using assms
proof (induction xs arbitrary: c)
  case (Cons x xs)
  then show ?case using console_do_view [of c x] by fastforce
qed simp

theorem console_refines_terminal_witness:
  "\<exists>c'. console_run [PutChar 0x41, PutChar 0x0A] initial_console = Inr c' \<and>
     view c' = fold term_do [PutChar 0x41, PutChar 0x0A] (view initial_console) \<and> console_ok initial_console"
proof -
  have "console_ok initial_console" by (simp add: console_ok_def initial_console_def)
  with console_refines_terminal [OF this, of "[PutChar 0x41, PutChar 0x0A]"] show ?thesis by blast
qed

text \<open>Reading decimal digits back.\<close>

definition decimal :: "u8 list \<Rightarrow> nat" where
  "decimal ds = foldl (\<lambda>n d. 10 * n + (unat d - 48)) 0 ds"

definition digits :: "u8 list \<Rightarrow> bool" where
  "digits ds \<longleftrightarrow> (\<forall>d\<in>set ds. 48 \<le> unat d \<and> unat d \<le> 57)"

lemma digit_code: "unat (0x30 + ucast (v mod 10 :: u32) :: u8) = 48 + unat v mod 10"
proof -
  have "unat v mod 10 < 10" by simp
  moreover have "unat (ucast (v mod 10) :: u8) = unat v mod 10" by (simp add: unat_ucast_take unat_mod_distrib)
  ultimately show ?thesis by (subst unat_add_small) simp_all
qed

lemma int_digits_spec:
  assumes "unat v < 10 ^ n" "0 < n"
  shows "\<exists>ds. int_digits n v buf = Inr (ds @ buf) \<and> decimal ds = unat v \<and> digits ds \<and> ds \<noteq> [] \<and> length ds \<le> n \<and>
    (unat (hd ds) = 48 \<longrightarrow> v = 0)"
  using assms
proof (induction n arbitrary: v buf)
  case (Suc n)
  let ?d = "0x30 + ucast (v mod 10) :: u8"
  have d: "unat ?d = 48 + unat v mod 10" by (rule digit_code)
  have div: "unat (v div 10) = unat v div 10" by (simp add: unat_div_distrib)
  show ?case
  proof (cases "v div 10 = 0")
    case True
    then have "unat v div 10 = 0" using div by simp
    then have "unat v < 10" by (simp add: div_eq_0_iff)
    with True d show ?thesis
      by (intro exI [of _ "[?d]"]) (auto simp: decimal_def digits_def unat_eq_0)
  next
    case False
    then have "unat v div 10 \<noteq> 0" using div by (metis unat_eq_0)
    moreover have less: "unat (v div 10) < 10 ^ n"
      using Suc.prems(1) div by (simp add: less_mult_imp_div_less mult.commute)
    ultimately have "0 < n" using div by (cases n) auto
    from Suc.IH [OF less this, of "?d # buf"] obtain ds where
      ds: "int_digits n (v div 10) (?d # buf) = Inr (ds @ ?d # buf)" "decimal ds = unat (v div 10)" "digits ds" "ds \<noteq> []"
      "length ds \<le> n" "unat (hd ds) = 48 \<longrightarrow> v div 10 = 0" by blast
    have "decimal (ds @ [?d]) = unat v" using ds(2) d div by (simp add: decimal_def)
    moreover have "digits (ds @ [?d])" using ds(3) d by (auto simp: digits_def)
    ultimately show ?thesis using ds False by (intro exI [of _ "ds @ [?d]"]) (auto simp: Let_def)
  qed
qed simp

lemma consoleWriteString_view:
  assumes "console_ok c" "0 \<notin> set str"
  shows "\<exists>c'. consoleWriteString (str @ [0]) c = Inr c' \<and> console_ok c' \<and> view c' = fold term_put str (view c)"
  using assms
proof (induction str arbitrary: c)
  case (Cons b str)
  then show ?case using consolePutChar_view [OF Cons.prems(1), of b] by fastforce
qed simp

text \<open>
  \<^verbatim>\<open>consoleWriteInt32\<close> prints the decimal representation of every 32-bit number: digits only, without
  leading zeros, never more than its buffer holds, and reading them back gives the number.
\<close>
theorem consoleWriteInt32_prints:
  assumes "console_ok c"
  shows "\<exists>ds c'. consoleWriteInt32 v c = Inr c' \<and> console_ok c' \<and> view c' = fold term_put ds (view c) \<and>
    decimal ds = unat v \<and> digits ds \<and> ds \<noteq> [] \<and> length ds \<le> 11 \<and> (unat (hd ds) = 48 \<longrightarrow> v = 0)"
proof -
  have "unat v < 10 ^ 11" using unat_u32 [of v] by simp
  from int_digits_spec [OF this, of "[0]"] obtain ds where ds: "int_digits 11 v [0] = Inr (ds @ [0])"
    "decimal ds = unat v" "digits ds" "ds \<noteq> []" "length ds \<le> 11" "unat (hd ds) = 48 \<longrightarrow> v = 0" by auto
  have "0 \<notin> set ds" using ds(3) by (force simp: digits_def)
  with ds consoleWriteString_view [OF assms, of ds] show ?thesis by (auto simp: consoleWriteInt32_def)
qed

theorem consoleWriteInt32_prints_witness:
  "\<exists>ds c'. consoleWriteInt32 1024 initial_console = Inr c' \<and> view c' = fold term_put ds (view initial_console) \<and> decimal ds = 1024"
proof -
  have "console_ok initial_console" by (simp add: console_ok_def initial_console_def)
  from consoleWriteInt32_prints [OF this, of 1024] show ?thesis by auto
qed

end
