(* ===== verification/Objects.thy ===== *)
theory Objects
  imports Linked_List Paging Console
begin

text \<open>
  The kernel object layer of \<^verbatim>\<open>process/object.h\<close>: reference-counted objects, the wait queues
  their list entries are linked into, and \<^verbatim>\<open>queueWakeup\<close>.

  The kernel state maps addresses to objects. The constructor of \<open>kobj\<close> is the function table of
  the object, its argument the structure's own fields; a freed object is \<open>None\<close>, so that every use
  after a free is \<open>MemFault\<close>. \<open>queue\<close> holds, for each list head that \<^verbatim>\<open>obj.entry\<close> can be linked
  into, the objects in list order, and \<open>linked\<close> says which of them an object is in; linking an
  object twice or unlinking a free one would corrupt the lists of the source and is \<open>MemFault\<close>.
  Theory \<open>Linked_List\<close> shows that the pointer operations behave like this; both are instances of
  its interface \<open>ring_store\<close>. Memory for objects comes from fresh addresses: \<^verbatim>\<open>heapAlloc\<close> returns
  \<^verbatim>\<open>NULL\<close> only for length 0, and the branches for \<^verbatim>\<open>NULL\<close> are kept.

  Functions that call back into the object layer through a function table (signal, release,
  shutdown, wait) take those callbacks as arguments; theory \<open>Dispatch\<close> ties the knot.
\<close>

unbundle bit_operations_syntax

section \<open>Objects\<close>

record semaphore =
  sem_value :: u32

record pipe =
  buffer :: "u8 list option"
  psize :: u32
  writePos :: u32
  readPos :: u32
  writeable :: bool

record event =
  subEvents :: "addr list"
  status :: u32
  ev_wakeupAll :: bool

record subEvent =
  se_blocked :: bool
  se_event :: addr
  se_wait :: addr
  se_waitMode :: u32
  se_identifier :: u32

record timer =
  active :: bool
  timeout :: u64
  interval :: u32
  ti_wakeupAll :: bool

record taskContext =
  prevTask :: u16
  esp0 :: u32
  ss0 :: u16
  esp1 :: u32
  ss1 :: u16
  esp2 :: u32
  ss2 :: u16
  t_cr3 :: u32
  eip :: u32
  eflags :: u32
  eax :: u32
  ecx :: u32
  edx :: u32
  ebx :: u32
  esp :: u32
  ebp :: u32
  esi :: u32
  edi :: u32
  seg_es :: u16
  seg_cs :: u16
  seg_ss :: u16
  seg_ds :: u16
  seg_fs :: u16
  seg_gs :: u16
  ldt :: u16
  iomap :: u16

record fpuContext =
  controlWord :: u16
  statusWord :: u16
  tagWord :: u16
  codePointer :: u32
  codeSegment :: u16
  dataPointer :: u32
  dataSegment :: u16
  registerArea :: "u8 list"

record thread =
  th_blocked :: bool
  th_process :: addr
  th_exitcode :: u32
  fpuInitialized :: bool
  user_ring3StackBase :: u32
  user_ring3StackLength :: u32
  user_threadLocalBase :: u32
  user_threadLocalLength :: u32
  task :: taskContext
  fpu :: fpuContext

record handleTable =
  h_count :: u32
  free_begin :: u32
  free_end :: u32
  handles :: "addr list option"

record process =
  pr_exitcode :: u32
  threads :: "addr list"
  entryPoint :: u32
  user_programArgumentsBase :: u32
  user_programArgumentsLength :: u32
  user_environmentVariablesBase :: u32
  user_environmentVariablesLength :: u32
  pr_handles :: handleTable

record directory =
  d_parent :: addr
  d_name :: "u8 list option"

record fileNode =
  f_parent :: addr
  f_name :: "u8 list option"
  isHeap :: bool
  f_buffer :: "u8 list option"
  f_size :: u32

record openedDirectory =
  od_directory :: addr
  od_pos :: addr

record openedFile =
  of_file :: addr
  of_pos :: u32

datatype kobj =
    Semaphore semaphore
  | Pipe pipe
  | Stdout
  | Event event
  | SubEvent subEvent
  | Timer timer
  | Thread thread
  | Process process
  | Directory directory
  | File fileNode
  | OpenedDirectory openedDirectory
  | OpenedFile openedFile

section \<open>The kernel state\<close>

text \<open>\<open>hwFpu\<close> is the register file of the coprocessor, \<open>hwFpuInit\<close> what \<^verbatim>\<open>fninit\<close> loads into it; the
  three selectors are what \<^verbatim>\<open>gdtGetEntryOffset\<close> returns for the segments of the same names.\<close>

text \<open>The list heads an object's own entry can be linked into.\<close>

datatype qid =
    ThreadList
  | TimerList
  | Waiters addr
  | WriteWaiters addr
  | ReadWaiters addr
  | Files addr
  | Directories addr
  | OpenedFiles addr
  | OpenedDirectories addr

record kst =
  heapNext :: addr
  objs :: "addr \<Rightarrow> kobj option"
  refcount :: "addr \<Rightarrow> u32"
  queue :: "qid \<Rightarrow> addr list"
  linked :: "addr \<Rightarrow> qid option"
  processList :: "addr list"
  currentKernelTimestamp :: u64
  lastFPUthread :: addr
  fileSystemRoot :: addr
  console :: console
  sel_dataRing0 :: u16
  sel_codeRing3 :: u16
  sel_dataRing3 :: u16
  kernelStack :: u32
  intJmpTable_user :: u32
  hwFpu :: fpuContext
  hwFpuInit :: fpuContext
  mem :: paging

definition blank_fpu :: fpuContext where
  "blank_fpu = \<lparr>controlWord = 0, statusWord = 0, tagWord = 0, codePointer = 0, codeSegment = 0,
     dataPointer = 0, dataSegment = 0, registerArea = []\<rparr>"

text \<open>The object layer before the first object exists: every list is empty, nothing is mapped.\<close>

definition initial_kst :: kst where
  "initial_kst = \<lparr>heapNext = 1, objs = \<lambda>_. None, refcount = \<lambda>_. 0, queue = \<lambda>_. [], linked = \<lambda>_. None, processList = [],
     currentKernelTimestamp = 0, lastFPUthread = 0, fileSystemRoot = 0, console = initial_console, sel_dataRing0 = 0x10,
     sel_codeRing3 = 0x1B, sel_dataRing3 = 0x23, kernelStack = 0, intJmpTable_user = 0, hwFpu = blank_fpu,
     hwFpuInit = blank_fpu,
     mem = \<lparr>physMemExtra = \<lambda>_. None, physMemMap = \<lambda>_. 0xFFFFFFFF, physMemInitialized = True, ramSize = 0,
            pagingBootMap = [], pagingInitialized = True, pagingEnabled = True, cr3 = 5,
            pmem = \<lambda>f i. if f = 5 \<and> i = 1023 then 0x5003 else 0,
            procMem = \<lambda>_. \<lparr>pageDirectory = 0, pageTables = \<lambda>_. 0\<rparr>\<rparr>\<rparr>"

text \<open>What \<^verbatim>\<open>wait\<close> does: return a queue to block on, or return \<^verbatim>\<open>NULL\<close> and write \<^verbatim>\<open>*result\<close>; an object
  without the function returns \<^verbatim>\<open>NULL\<close> and writes nothing.\<close>

datatype waitResult = WaitOn qid | Result u32 | NoResult

type_synonym waitFun = "addr \<Rightarrow> u32 \<Rightarrow> kst \<Rightarrow> (kst \<times> waitResult) kres"
type_synonym signalFun = "addr \<Rightarrow> u32 \<Rightarrow> kst \<Rightarrow> kst kres"
type_synonym releaseFun = "addr \<Rightarrow> kst \<Rightarrow> kst kres"
type_synonym shutdownFun = "addr \<Rightarrow> u32 \<Rightarrow> kst \<Rightarrow> kst kres"

text \<open>\<^verbatim>\<open>heapAlloc\<close> and \<^verbatim>\<open>heapFree\<close> of an object.\<close>

definition heapAlloc_obj :: "kst \<Rightarrow> kst \<times> addr" where
  "heapAlloc_obj s = (s\<lparr>heapNext := Suc (heapNext s)\<rparr>, heapNext s)"

definition heapFree_obj :: "addr \<Rightarrow> kst \<Rightarrow> kst" where
  "heapFree_obj a s = s\<lparr>objs := (objs s)(a := None)\<rparr>"

definition set_obj :: "addr \<Rightarrow> kobj \<Rightarrow> kst \<Rightarrow> kst" where
  "set_obj a x s = s\<lparr>objs := (objs s)(a \<mapsto> x)\<rparr>"

text \<open>\<^verbatim>\<open>__objectInit\<close>: the counter starts at one; the list entry is not linked anywhere.\<close>

definition objectInit :: "addr \<Rightarrow> kobj \<Rightarrow> kst \<Rightarrow> kst" where
  "objectInit a x s = (set_obj a x s)\<lparr>refcount := (refcount s)(a := 1), linked := (linked s)(a := None)\<rparr>"

text \<open>Access to an object; \<open>objectContainer\<close> with its type check for each of the types.\<close>

definition object_at :: "addr \<Rightarrow> kst \<Rightarrow> kobj kres" where
  "object_at a s = (if a = 0 then Inl AssertFailed
                    else case objs s a of None \<Rightarrow> Inl MemFault | Some x \<Rightarrow> Inr x)"

definition get_semaphore :: "addr \<Rightarrow> kst \<Rightarrow> semaphore kres" where
  "get_semaphore a s = kbind (object_at a s) (\<lambda>x. case x of Semaphore v \<Rightarrow> Inr v | _ \<Rightarrow> Inl AssertFailed)"

definition get_pipe :: "addr \<Rightarrow> kst \<Rightarrow> pipe kres" where
  "get_pipe a s = kbind (object_at a s) (\<lambda>x. case x of Pipe v \<Rightarrow> Inr v | _ \<Rightarrow> Inl AssertFailed)"

definition get_event :: "addr \<Rightarrow> kst \<Rightarrow> event kres" where
  "get_event a s = kbind (object_at a s) (\<lambda>x. case x of Event v \<Rightarrow> Inr v | _ \<Rightarrow> Inl AssertFailed)"

definition get_subEvent :: "addr \<Rightarrow> kst \<Rightarrow> subEvent kres" where
  "get_subEvent a s = kbind (object_at a s) (\<lambda>x. case x of SubEvent v \<Rightarrow> Inr v | _ \<Rightarrow> Inl AssertFailed)"

definition get_timer :: "addr \<Rightarrow> kst \<Rightarrow> timer kres" where
  "get_timer a s = kbind (object_at a s) (\<lambda>x. case x of Timer v \<Rightarrow> Inr v | _ \<Rightarrow> Inl AssertFailed)"

definition get_thread :: "addr \<Rightarrow> kst \<Rightarrow> thread kres" where
  "get_thread a s = kbind (object_at a s) (\<lambda>x. case x of Thread v \<Rightarrow> Inr v | _ \<Rightarrow> Inl AssertFailed)"

definition get_process :: "addr \<Rightarrow> kst \<Rightarrow> process kres" where
  "get_process a s = kbind (object_at a s) (\<lambda>x. case x of Process v \<Rightarrow> Inr v | _ \<Rightarrow> Inl AssertFailed)"

definition objectAddRef :: "addr \<Rightarrow> kst \<Rightarrow> kst kres" where
  "objectAddRef a s = kbind (object_at a s) (\<lambda>_. Inr (s\<lparr>refcount := (refcount s)(a := refcount s a + 1)\<rparr>))"

text \<open>\<^verbatim>\<open>__objectRelease\<close>; \<open>destroy\<close> is the destructor of the object's function table.\<close>

definition objectRelease :: "releaseFun \<Rightarrow> addr \<Rightarrow> kst \<Rightarrow> kst kres" where
  "objectRelease destroy a s =
     kbind (object_at a s) (\<lambda>_.
       let s = s\<lparr>refcount := (refcount s)(a := refcount s a - 1)\<rparr>
       in if refcount s a \<noteq> 0 then Inr s else destroy a s)"

text \<open>Run an operation of the paging layer on the memory of the machine.\<close>

definition with_mem :: "(paging \<Rightarrow> (paging \<times> 'a) kres) \<Rightarrow> kst \<Rightarrow> (kst \<times> 'a) kres" where
  "with_mem f s = kbind (f (mem s)) (\<lambda>(m, x). Inr (s\<lparr>mem := m\<rparr>, x))"

definition with_mem0 :: "(paging \<Rightarrow> paging kres) \<Rightarrow> kst \<Rightarrow> kst kres" where
  "with_mem0 f s = kbind (f (mem s)) (\<lambda>m. Inr (s\<lparr>mem := m\<rparr>))"

section \<open>Queues\<close>

definition link_head :: "qid \<Rightarrow> addr \<Rightarrow> kst \<Rightarrow> kst" where
  "link_head q a s = s\<lparr>queue := (queue s)(q := a # queue s q), linked := (linked s)(a \<mapsto> q)\<rparr>"

definition link_tail :: "qid \<Rightarrow> addr \<Rightarrow> kst \<Rightarrow> kst" where
  "link_tail q a s = s\<lparr>queue := (queue s)(q := queue s q @ [a]), linked := (linked s)(a \<mapsto> q)\<rparr>"

definition unlink :: "addr \<Rightarrow> kst \<Rightarrow> kst" where
  "unlink a s = (case linked s a of None \<Rightarrow> s
     | Some q \<Rightarrow> s\<lparr>queue := (queue s)(q := remove1 a (queue s q)), linked := (linked s)(a := None)\<rparr>)"

text \<open>\<^verbatim>\<open>ll_add_after(head, ...)\<close>, \<^verbatim>\<open>ll_add_tail(head, ...)\<close> and \<^verbatim>\<open>ll_remove\<close> on \<^verbatim>\<open>obj.entry\<close>.\<close>

definition ll_add_after_obj :: "qid \<Rightarrow> addr \<Rightarrow> kst \<Rightarrow> kst kres" where
  "ll_add_after_obj q a s = (if linked s a \<noteq> None then Inl MemFault else Inr (link_head q a s))"

definition ll_add_tail_obj :: "qid \<Rightarrow> addr \<Rightarrow> kst \<Rightarrow> kst kres" where
  "ll_add_tail_obj q a s = (if linked s a \<noteq> None then Inl MemFault else Inr (link_tail q a s))"

definition ll_remove_obj :: "addr \<Rightarrow> kst \<Rightarrow> kst kres" where
  "ll_remove_obj a s = (if linked s a = None then Inl MemFault else Inr (unlink a s))"

text \<open>The element behind \<open>a\<close> in a ring, \<open>None\<close> for the head.\<close>

fun next_in :: "addr list \<Rightarrow> addr \<Rightarrow> addr option" where
  "next_in [] a = None"
| "next_in [x] a = None"
| "next_in (x # y # xs) a = (if x = a then Some y else next_in (y # xs) a)"

definition first_in :: "addr list \<Rightarrow> addr option" where
  "first_in xs = (case xs of [] \<Rightarrow> None | x # _ \<Rightarrow> Some x)"

text \<open>\<^verbatim>\<open>queueWakeup\<close> with \<^verbatim>\<open>LL_FOR_EACH_SAFE\<close>: the element behind the current one is remembered before
  the signal. If the signal takes that element out of the list as well, the source continues in a
  foreign list; this is \<open>StaleIteration\<close>. The bound is the number of elements.\<close>

primrec wakeup_loop :: "nat \<Rightarrow> signalFun \<Rightarrow> qid \<Rightarrow> bool \<Rightarrow> u32 \<Rightarrow> addr option \<Rightarrow> kst \<Rightarrow> kst kres" where
  "wakeup_loop 0 sig q all result cur s = (case cur of None \<Rightarrow> Inr s | Some _ \<Rightarrow> Inl OutOfFuel)"
| "wakeup_loop (Suc n) sig q all result cur s =
     (case cur of None \<Rightarrow> Inr s
      | Some obj \<Rightarrow>
          if obj \<notin> set (queue s q) then Inl StaleIteration
          else let nxt = next_in (queue s q) obj
               in kbind (sig obj result s) (\<lambda>s.
                    if \<not> all then Inr s else wakeup_loop n sig q all result nxt s))"

definition queueWakeup :: "signalFun \<Rightarrow> qid \<Rightarrow> bool \<Rightarrow> u32 \<Rightarrow> kst \<Rightarrow> kst kres" where
  "queueWakeup sig q all result s =
     wakeup_loop (length (queue s q)) sig q all result (first_in (queue s q)) s"

section \<open>The queues are a store of rings\<close>

definition queues_ok :: "kst \<Rightarrow> bool" where
  "queues_ok s \<longleftrightarrow> (\<forall>q. distinct (queue s q)) \<and> (\<forall>a q. a \<in> set (queue s q) \<longleftrightarrow> linked s a = Some q)"

definition queues_rel :: "kst \<Rightarrow> (qid \<Rightarrow> addr list) \<Rightarrow> bool" where
  "queues_rel s Q \<longleftrightarrow> queues_ok s \<and> queue s = Q"

lemma queues_ok_distinct: "queues_ok s \<Longrightarrow> distinct (queue s q)"
  by (simp add: queues_ok_def)

lemma queues_ok_linked: "queues_ok s \<Longrightarrow> a \<in> set (queue s q) \<longleftrightarrow> linked s a = Some q"
  by (simp add: queues_ok_def)

lemma queues_ok_link_head: "queues_ok s \<Longrightarrow> linked s a = None \<Longrightarrow> queues_ok (link_head q a s)"
  by (auto simp: queues_ok_def link_head_def)

lemma queues_ok_link_tail: "queues_ok s \<Longrightarrow> linked s a = None \<Longrightarrow> queues_ok (link_tail q a s)"
  by (auto simp: queues_ok_def link_tail_def)

lemma queues_ok_unlink: "queues_ok s \<Longrightarrow> queues_ok (unlink a s)"
  by (auto simp: queues_ok_def unlink_def split: option.split)

interpretation objq: ring_store UNIV queues_rel "\<lambda>s Q a. linked s a = None" link_head link_tail unlink
proof
  fix s Q q r and e :: addr
  show "queues_rel s Q \<Longrightarrow> q \<in> UNIV \<Longrightarrow> distinct (Q q)"
    by (auto simp: queues_rel_def queues_ok_def)
  show "queues_rel s Q \<Longrightarrow> q \<in> UNIV \<Longrightarrow> r \<in> UNIV \<Longrightarrow> q \<noteq> r \<Longrightarrow> set (Q q) \<inter> set (Q r) = {}"
    by (auto simp: queues_rel_def queues_ok_linked)
  show "queues_rel s Q \<Longrightarrow> linked s e = None \<Longrightarrow> q \<in> UNIV \<Longrightarrow> e \<notin> set (Q q)"
    by (auto simp: queues_rel_def queues_ok_linked)
  show "queues_rel s Q \<Longrightarrow> q \<in> UNIV \<Longrightarrow> linked s e = None \<Longrightarrow>
      queues_rel (link_head q e s) (Q(q := e # Q q))"
    by (auto simp: queues_rel_def queues_ok_link_head) (auto simp: link_head_def)
  show "queues_rel s Q \<Longrightarrow> q \<in> UNIV \<Longrightarrow> linked s e = None \<Longrightarrow>
      queues_rel (link_tail q e s) (Q(q := Q q @ [e]))"
    by (auto simp: queues_rel_def queues_ok_link_tail) (auto simp: link_tail_def)
  assume "queues_rel s Q" "e \<in> set (Q q)"
  then have "linked s e = Some q" "queues_ok s" "queue s = Q"
    by (auto simp: queues_rel_def queues_ok_linked)
  then show "queues_rel (unlink e s) (Q(q := remove1 e (Q q))) \<and> linked (unlink e s) e = None"
    using queues_ok_unlink [of s e] by (auto simp: queues_rel_def) (auto simp: unlink_def)
qed

section \<open>Waking up a queue\<close>

text \<open>
  The contract of a signal function on the waiters of a queue: signalling the first waiter always
  returns, takes exactly that waiter out of the queue, keeps the invariant \<open>ok\<close>, and changes the rest of
  the state only as the frame \<open>fr\<close> allows.
\<close>

locale waker =
  fixes sig :: signalFun
    and ok :: "qid \<Rightarrow> kst \<Rightarrow> bool"
    and fr :: "qid \<Rightarrow> u32 \<Rightarrow> kst \<Rightarrow> kst \<Rightarrow> bool"
  assumes signal_first: "ok q s \<Longrightarrow> queue s q = a # xs \<Longrightarrow>
      \<exists>s'. sig a r s = Inr s' \<and> ok q s' \<and> queue s' q = xs \<and> fr q r s s'"
    and frame_refl: "ok q s \<Longrightarrow> fr q r s s"
    and frame_trans: "ok q s \<Longrightarrow> fr q r s t \<Longrightarrow> fr q r t u \<Longrightarrow> fr q r s u"
begin

lemma wakeup_loop_all:
  assumes "ok q s" "queue s q = xs" "length xs \<le> n"
  shows "\<exists>s'. wakeup_loop n sig q True r (first_in xs) s = Inr s' \<and> ok q s' \<and> queue s' q = [] \<and> fr q r s s'"
  using assms
proof (induction xs arbitrary: s n)
  case Nil
  then show ?case using frame_refl by (cases n) (auto simp: first_in_def)
next
  case (Cons a xs)
  then obtain m where n: "n = Suc m" by (cases n) auto
  obtain t where t: "sig a r s = Inr t" "ok q t" "queue t q = xs" "fr q r s t"
    using signal_first [OF Cons.prems(1,2)] by blast
  have "next_in (a # xs) a = first_in xs" by (cases xs) (auto simp: first_in_def)
  with Cons.IH [OF t(2,3), of m] t Cons.prems n frame_trans [OF Cons.prems(1) t(4)] show ?case
    by (fastforce simp: first_in_def)
qed

text \<open>Waking all waiters empties the queue, waking one takes the first; both always return.\<close>

lemma queueWakeup_all:
  "ok q s \<Longrightarrow> \<exists>s'. queueWakeup sig q True r s = Inr s' \<and> ok q s' \<and> queue s' q = [] \<and> fr q r s s'"
  unfolding queueWakeup_def by (rule wakeup_loop_all) auto

lemma queueWakeup_spec:
  assumes "ok q s"
  shows "\<exists>s'. queueWakeup sig q all r s = Inr s' \<and> ok q s' \<and> fr q r s s' \<and>
    queue s' q = (if all then [] else drop 1 (queue s q))"
proof (cases "all \<or> queue s q = []")
  case True
  then show ?thesis
    using queueWakeup_all [OF assms, of r] assms frame_refl
    by (cases all) (fastforce, auto simp: queueWakeup_def first_in_def)
next
  case False
  then obtain a xs where q: "queue s q = a # xs" by (cases "queue s q") auto
  from signal_first [OF assms q] obtain s' where "sig a r s = Inr s'" "ok q s'" "queue s' q = xs" "fr q r s s'"
    by blast
  with q False show ?thesis by (simp add: queueWakeup_def first_in_def)
qed

end

lemma objs_set_obj [simp]: "objs (set_obj a x s) = (objs s)(a \<mapsto> x)"
  and queue_set_obj [simp]: "queue (set_obj a x s) = queue s"
  and linked_set_obj [simp]: "linked (set_obj a x s) = linked s"
  by (simp_all add: set_obj_def)

lemma queueWakeup_Nil [simp]: "queue s q = [] \<Longrightarrow> queueWakeup sig q all r s = Inr s"
  by (simp add: queueWakeup_def first_in_def)

lemma queueWakeup_one: "queue s q = a # xs \<Longrightarrow> queueWakeup sig q False r s = sig a r s"
  by (cases "sig a r s") (auto simp: queueWakeup_def first_in_def)

end
