(* ===== verification/Semaphore.thy ===== *)
theory Semaphore
  imports Objects
begin

text \<open>
  Counting semaphores (\<^verbatim>\<open>process/semaphore.c\<close>). Blocked objects are linked into \<open>Waiters a\<close>. The
  callback \<open>sig\<close> is \<^verbatim>\<open>__objectSignal\<close> of the waiters.
\<close>

definition semaphoreCreate :: "u32 \<Rightarrow> kst \<Rightarrow> kst \<times> addr" where
  "semaphoreCreate v s =
     (let (s, a) = heapAlloc_obj s
      in if a = 0 then (s, 0)
         else ((objectInit a (Semaphore \<lparr>sem_value = v\<rparr>) s)\<lparr>queue := (queue s)(Waiters a := [])\<rparr>, a))"

definition semaphoreDestroy :: "signalFun \<Rightarrow> addr \<Rightarrow> kst \<Rightarrow> kst kres" where
  "semaphoreDestroy sig a s =
     kbind (get_semaphore a s) (\<lambda>_.
     kbind (queueWakeup sig (Waiters a) True (- 1) s) (\<lambda>s.
     kassert (queue s (Waiters a) = []) (Inr (heapFree_obj a s))))"

definition semaphoreShutdown :: "signalFun \<Rightarrow> addr \<Rightarrow> u32 \<Rightarrow> kst \<Rightarrow> kst kres" where
  "semaphoreShutdown sig a mode s =
     kbind (get_semaphore a s) (\<lambda>_. queueWakeup sig (Waiters a) True (- 1) s)"

definition semaphoreGetStatus :: "addr \<Rightarrow> u32 \<Rightarrow> kst \<Rightarrow> u32 kres" where
  "semaphoreGetStatus a mode s = kbind (get_semaphore a s) (\<lambda>x. Inr (sem_value x))"

definition semaphoreWait :: "addr \<Rightarrow> u32 \<Rightarrow> kst \<Rightarrow> (kst \<times> waitResult) kres" where
  "semaphoreWait a mode s =
     kbind (get_semaphore a s) (\<lambda>x.
       if sem_value x = 0 then Inr (s, WaitOn (Waiters a))
       else let v = sem_value x - 1
            in Inr (set_obj a (Semaphore (x\<lparr>sem_value := v\<rparr>)) s, Result v))"

definition semaphoreSignal :: "signalFun \<Rightarrow> addr \<Rightarrow> u32 \<Rightarrow> kst \<Rightarrow> kst kres" where
  "semaphoreSignal sig a result s =
     kbind (get_semaphore a s) (\<lambda>x.
       if queue s (Waiters a) = []
       then Inr (set_obj a (Semaphore (x\<lparr>sem_value := sem_value x + 1\<rparr>)) s)
       else kassert (sem_value x = 0) (queueWakeup sig (Waiters a) False 0 s))"

text \<open>A semaphore with waiters has no units left.\<close>

definition sem_ok :: "addr \<Rightarrow> kst \<Rightarrow> bool" where
  "sem_ok a s \<longleftrightarrow> (\<exists>x. get_semaphore a s = Inr x \<and> (sem_value x = 0 \<or> queue s (Waiters a) = []))"

lemma get_semaphore_iff: "get_semaphore a s = Inr x \<longleftrightarrow> a \<noteq> 0 \<and> objs s a = Some (Semaphore x)"
  by (auto simp: get_semaphore_def object_at_def kbind_eq_Inr split: if_splits option.splits kobj.splits)

lemma get_semaphore_cong: "objs t a = objs s a \<Longrightarrow> get_semaphore a t = get_semaphore a s"
  by (simp add: get_semaphore_def object_at_def)

lemma semaphoreWait_cases:
  assumes "get_semaphore a s = Inr x"
  shows "semaphoreWait a mode s = (if sem_value x = 0 then Inr (s, WaitOn (Waiters a))
     else Inr (set_obj a (Semaphore \<lparr>sem_value = sem_value x - 1\<rparr>) s, Result (sem_value x - 1)))"
  using assms by (cases x) (simp add: semaphoreWait_def Let_def)

lemma semaphoreSignal_free:
  assumes "get_semaphore a s = Inr x" "queue s (Waiters a) = []"
  shows "semaphoreSignal sig a r s = Inr (set_obj a (Semaphore \<lparr>sem_value = sem_value x + 1\<rparr>) s)"
  using assms by (cases x) (simp add: semaphoreSignal_def)

lemma semaphoreSignal_waiting:
  assumes "sem_ok a s" "queue s (Waiters a) = t # ts"
  shows "semaphoreSignal sig a r s = sig t 0 s"
  using assms by (auto simp: semaphoreSignal_def sem_ok_def queueWakeup_one)

end
