(* ===== verification/Pipe.thy ===== *)
theory Pipe
  imports Objects
begin

text \<open>
  Pipes and the standard output object (\<^verbatim>\<open>process/pipe.c\<close>).

  The buffer is the list of its bytes, \<open>None\<close> for \<^verbatim>\<open>NULL\<close>; copying outside it is \<open>MemFault\<close>. The part
  of \<^verbatim>\<open>__pipeWrite\<close> and \<^verbatim>\<open>__pipeRead\<close> that moves data (\<open>pipe_put\<close>, \<open>pipe_get\<close>) is separate from the
  wakeups around it. The locale \<open>bounded_fifo\<close> states what a bounded queue of bytes promises; its
  lemmas say that the bytes read are the bytes written, in order. The pipe is an instance.
\<close>

unbundle bit_operations_syntax

definition MIN_PIPE_BUFFER_SIZE :: u32 where "MIN_PIPE_BUFFER_SIZE = 0x1000"
definition MAX_PIPE_BUFFER_SIZE :: u32 where "MAX_PIPE_BUFFER_SIZE = 0x10000"

text \<open>Make room for \<open>len\<close> bytes behind the write position.\<close>

definition pipe_room :: "u32 \<Rightarrow> pipe \<Rightarrow> u8 list \<Rightarrow> (pipe \<times> u8 list) kres" where
  "pipe_room len p b =
     (if len > psize p - writePos p
      then kbind (if readPos p \<noteq> 0
                  then kbind (buf_move 0 (unat (readPos p)) (unat (writePos p - readPos p)) b) (\<lambda>b.
                       Inr (p\<lparr>writePos := writePos p - readPos p, readPos := 0\<rparr>, b))
                  else Inr (p, b)) (\<lambda>(p, b).
           if len > psize p - writePos p
           then kbind (grow_size 32 (psize p * 2) (writePos p + len)) (\<lambda>new_size.
                Inr (p\<lparr>psize := new_size\<rparr>, buf_resize (unat new_size) b))
           else Inr (p, b))
      else Inr (p, b))"

text \<open>The result is the new pipe and the number of bytes taken from \<open>buf\<close>.\<close>

definition pipe_put :: "u8 list \<Rightarrow> u32 \<Rightarrow> pipe \<Rightarrow> (pipe \<times> u32) kres" where
  "pipe_put buf len p =
     (case buffer p of None \<Rightarrow> Inl AssertFailed
      | Some b \<Rightarrow>
          let used = writePos p - readPos p;
              len = (if len > MAX_PIPE_BUFFER_SIZE - used then MAX_PIPE_BUFFER_SIZE - used else len)
          in kbind (pipe_room len p b) (\<lambda>(p, b).
             kbind (if len > 0 then buf_write (unat (writePos p)) (take (unat len) buf) b else Inr b) (\<lambda>b.
             Inr (p\<lparr>buffer := Some b, writePos := (if len > 0 then writePos p + len else writePos p)\<rparr>, len))))"

definition pipe_get :: "u32 \<Rightarrow> pipe \<Rightarrow> (pipe \<times> u8 list) kres" where
  "pipe_get len p =
     (case buffer p of None \<Rightarrow> Inl AssertFailed
      | Some b \<Rightarrow>
          let used = writePos p - readPos p;
              len = (if len > used then used else len)
          in kbind (if len > 0 then buf_read (unat (readPos p)) (unat len) b else Inr []) (\<lambda>data.
             let p = (if len > 0 then p\<lparr>readPos := readPos p + len\<rparr> else p);
                 p = (if readPos p = writePos p
                      then (if \<not> writeable p then p\<lparr>buffer := None, psize := 0, readPos := 0, writePos := 0\<rparr>
                            else p\<lparr>readPos := 0, writePos := 0\<rparr>)
                      else p)
             in Inr (p, data)))"

section \<open>The object\<close>

definition pipeCreate :: "kst \<Rightarrow> kst \<times> addr" where
  "pipeCreate s =
     (let (s, a) = heapAlloc_obj s
      in if a = 0 then (s, 0)
         else ((objectInit a (Pipe \<lparr>buffer = Some (replicate (unat MIN_PIPE_BUFFER_SIZE) 0),
                  psize = MIN_PIPE_BUFFER_SIZE, writePos = 0, readPos = 0, writeable = True\<rparr>) s)
                 \<lparr>queue := (queue s)(WriteWaiters a := [], ReadWaiters a := [])\<rparr>, a))"

definition pipeDestroy :: "signalFun \<Rightarrow> addr \<Rightarrow> kst \<Rightarrow> kst kres" where
  "pipeDestroy sig a s =
     kbind (get_pipe a s) (\<lambda>_.
     kbind (queueWakeup sig (WriteWaiters a) True (- 1) s) (\<lambda>s.
     kbind (queueWakeup sig (ReadWaiters a) True (- 1) s) (\<lambda>s.
     kassert (queue s (WriteWaiters a) = []) (
     kassert (queue s (ReadWaiters a) = []) (Inr (heapFree_obj a s))))))"

definition pipeGetMinHandle :: "addr \<Rightarrow> u32" where
  "pipeGetMinHandle a = 0"

definition pipeShutdown :: "signalFun \<Rightarrow> addr \<Rightarrow> u32 \<Rightarrow> kst \<Rightarrow> kst kres" where
  "pipeShutdown sig a mode s =
     kbind (get_pipe a s) (\<lambda>p.
     kbind (queueWakeup sig (WriteWaiters a) True (- 1) (set_obj a (Pipe (p\<lparr>writeable := False\<rparr>)) s)) (\<lambda>s.
     kbind (get_pipe a s) (\<lambda>p.
       if mode \<noteq> 0 \<and> writePos p \<noteq> readPos p then Inr s
       else kbind (queueWakeup sig (ReadWaiters a) True (- 1) s) (\<lambda>s.
            kbind (get_pipe a s) (\<lambda>p.
            Inr (set_obj a (Pipe (p\<lparr>buffer := None, psize := 0, writePos := 0, readPos := 0\<rparr>)) s))))))"

definition pipeGetStatus :: "addr \<Rightarrow> u32 \<Rightarrow> kst \<Rightarrow> u32 kres" where
  "pipeGetStatus a mode s =
     kbind (get_pipe a s) (\<lambda>p.
       let used = writePos p - readPos p
       in if \<not> writeable p \<and> (mode \<noteq> 0 \<or> used = 0) then Inr (- 1)
          else Inr (if mode \<noteq> 0 then MAX_PIPE_BUFFER_SIZE - used else used))"

definition pipeWait :: "addr \<Rightarrow> u32 \<Rightarrow> kst \<Rightarrow> (kst \<times> waitResult) kres" where
  "pipeWait a mode s =
     kbind (get_pipe a s) (\<lambda>p.
       let used = writePos p - readPos p
       in Inr (s,
            if mode \<noteq> 0
            then (if \<not> writeable p then Result (- 1)
                  else if used \<ge> MAX_PIPE_BUFFER_SIZE then WaitOn (WriteWaiters a)
                  else Result (MAX_PIPE_BUFFER_SIZE - used))
            else (if \<not> writeable p \<and> used = 0 then Result (- 1)
                  else if used = 0 then WaitOn (ReadWaiters a)
                  else Result used)))"

text \<open>The result is what the source returns as \<^verbatim>\<open>int32_t\<close>.\<close>

definition pipeWrite :: "signalFun \<Rightarrow> addr \<Rightarrow> u8 list \<Rightarrow> u32 \<Rightarrow> kst \<Rightarrow> (kst \<times> u32) kres" where
  "pipeWrite sig a buf len s =
     kbind (get_pipe a s) (\<lambda>p.
       if \<not> writeable p then Inr (s, - 1)
       else kbind (pipe_put buf len p) (\<lambda>(p', n).
            let used = writePos p - readPos p + n;
                s = set_obj a (Pipe p') s
            in kbind (if used \<noteq> 0 then queueWakeup sig (ReadWaiters a) True used s else Inr s) (\<lambda>s.
               Inr (s, n))))"

definition pipeRead :: "signalFun \<Rightarrow> addr \<Rightarrow> u32 \<Rightarrow> kst \<Rightarrow> (kst \<times> u8 list option) kres" where
  "pipeRead sig a len s =
     kbind (get_pipe a s) (\<lambda>p.
       let used = writePos p - readPos p
       in if \<not> writeable p \<and> used = 0 then Inr (s, None)
          else kbind (pipe_get len p) (\<lambda>(p', data).
               let used = used - word_of_nat (length data);
                   s = set_obj a (Pipe p') s
               in kbind (if used < MAX_PIPE_BUFFER_SIZE
                         then queueWakeup sig (WriteWaiters a) True
                                (if writeable p' then MAX_PIPE_BUFFER_SIZE - used else 0) s
                         else Inr s) (\<lambda>s.
                  Inr (s, Some data))))"

definition stdoutCreate :: "kst \<Rightarrow> kst \<times> addr" where
  "stdoutCreate s =
     (let (s, a) = heapAlloc_obj s
      in if a = 0 then (s, 0) else (objectInit a Stdout s, a))"

definition stdoutDestroy :: "addr \<Rightarrow> kst \<Rightarrow> kst kres" where
  "stdoutDestroy a s =
     kbind (object_at a s) (\<lambda>x. if x = Stdout then Inr (heapFree_obj a s) else Inl AssertFailed)"

definition stdoutGetMinHandle :: "addr \<Rightarrow> u32" where
  "stdoutGetMinHandle a = 0"

definition stdoutWrite :: "addr \<Rightarrow> u8 list \<Rightarrow> u32 \<Rightarrow> kst \<Rightarrow> (kst \<times> u32) kres" where
  "stdoutWrite a buf len s =
     kbind (consoleWriteStringLen (unat len) buf (console s)) (\<lambda>c. Inr (s\<lparr>console := c\<rparr>, len))"

section \<open>A pipe as a queue of bytes\<close>

definition pipe_data :: "pipe \<Rightarrow> u8 list" where
  "pipe_data p = (case buffer p of None \<Rightarrow> []
     | Some b \<Rightarrow> take (unat (writePos p) - unat (readPos p)) (drop (unat (readPos p)) b))"

definition pipe_ok :: "pipe \<Rightarrow> bool" where
  "pipe_ok p \<longleftrightarrow> (case buffer p of
       None \<Rightarrow> psize p = 0 \<and> writePos p = 0 \<and> readPos p = 0 \<and> \<not> writeable p
     | Some b \<Rightarrow> length b = unat (psize p) \<and> readPos p \<le> writePos p \<and> writePos p \<le> psize p \<and>
         (\<exists>k\<le>4. unat (psize p) = 0x1000 * 2 ^ k) \<and> (writeable p \<or> readPos p < writePos p))"

datatype 'b fifo_op = Put "'b list" | Get nat

text \<open>A sequence of operations: the final queue, the bytes accepted and the bytes delivered.\<close>

primrec fifo_run ::
  "('b list \<Rightarrow> 'q \<Rightarrow> ('q \<times> nat) kres) \<Rightarrow> (nat \<Rightarrow> 'q \<Rightarrow> ('q \<times> 'b list) kres) \<Rightarrow>
   'b fifo_op list \<Rightarrow> 'q \<Rightarrow> ('q \<times> 'b list \<times> 'b list) kres" where
  "fifo_run put get [] q = Inr (q, [], [])"
| "fifo_run put get (x # xs) q =
     (case x of
        Put bs \<Rightarrow> kbind (put bs q) (\<lambda>(q, n).
                  kbind (fifo_run put get xs q) (\<lambda>(q, ins, outs). Inr (q, take n bs @ ins, outs)))
      | Get n \<Rightarrow> kbind (get n q) (\<lambda>(q, bs).
                 kbind (fifo_run put get xs q) (\<lambda>(q, ins, outs). Inr (q, ins, bs @ outs))))"

definition put_bytes :: "u8 list \<Rightarrow> pipe \<Rightarrow> (pipe \<times> nat) kres" where
  "put_bytes bs p = kbind (pipe_put bs (word_of_nat (length bs)) p) (\<lambda>(p, n). Inr (p, unat n))"

definition get_bytes :: "nat \<Rightarrow> pipe \<Rightarrow> (pipe \<times> u8 list) kres" where
  "get_bytes n p = pipe_get (word_of_nat n) p"

locale bounded_fifo =
  fixes inv :: "'q \<Rightarrow> bool"
    and cont :: "'q \<Rightarrow> 'b list"
    and capacity limit :: nat
    and put :: "'b list \<Rightarrow> 'q \<Rightarrow> ('q \<times> nat) kres"
    and get :: "nat \<Rightarrow> 'q \<Rightarrow> ('q \<times> 'b list) kres"
  assumes put_spec: "inv q \<Longrightarrow> length bs < limit \<Longrightarrow>
      \<exists>q'. put bs q = Inr (q', min (length bs) (capacity - length (cont q))) \<and> inv q' \<and>
        cont q' = cont q @ take (capacity - length (cont q)) bs"
    and get_spec: "inv q \<Longrightarrow> n < limit \<Longrightarrow>
      \<exists>q'. get n q = Inr (q', take n (cont q)) \<and> inv q' \<and> cont q' = drop n (cont q)"
begin

text \<open>Nothing is lost, duplicated or reordered.\<close>

lemma fifo_order:
  assumes "inv q" "\<forall>x\<in>set ops. (case x of Put bs \<Rightarrow> length bs | Get n \<Rightarrow> n) < limit"
  shows "\<exists>q' ins outs. fifo_run put get ops q = Inr (q', ins, outs) \<and> inv q' \<and>
    outs @ cont q' = cont q @ ins"
  using assms
proof (induction ops arbitrary: q)
  case (Cons x xs)
  show ?case
  proof (cases x)
    case (Put bs)
    from put_spec [OF Cons.prems(1), of bs] Cons.prems(2) Put obtain q1 where
      q1: "put bs q = Inr (q1, min (length bs) (capacity - length (cont q)))" "inv q1"
      "cont q1 = cont q @ take (capacity - length (cont q)) bs" by auto
    from Cons.IH [OF q1(2)] Cons.prems(2) obtain q' ins outs where
      "fifo_run put get xs q1 = Inr (q', ins, outs)" "inv q'" "outs @ cont q' = cont q1 @ ins" by auto
    with q1 Put show ?thesis by (simp add: min_def)
  next
    case (Get n)
    from get_spec [OF Cons.prems(1), of n] Cons.prems(2) Get obtain q1 where
      q1: "get n q = Inr (q1, take n (cont q))" "inv q1" "cont q1 = drop n (cont q)" by auto
    from Cons.IH [OF q1(2)] Cons.prems(2) obtain q' ins outs where
      "fifo_run put get xs q1 = Inr (q', ins, outs)" "inv q'" "outs @ cont q' = cont q1 @ ins" by auto
    with q1 Get show ?thesis by simp
  qed
qed simp

end

section \<open>The pipe implements the queue\<close>

lemma pipe_size_bound: "k \<le> 4 \<Longrightarrow> (0x1000 * 2 ^ k :: nat) \<le> 0x10000"
  using power_increasing [of k 4 "2 :: nat"] by simp

lemma grow_size_spec:
  assumes "unat new_size = 0x1000 * 2 ^ k" "k \<le> 4" "unat needed \<le> 0x10000" "4 \<le> n + k"
  shows "\<exists>r j. grow_size n new_size needed = Inr r \<and> needed \<le> r \<and> j \<le> 4 \<and> unat r = 0x1000 * 2 ^ j \<and>
    new_size \<le> r"
  using assms
proof (induction n arbitrary: new_size k)
  case 0
  then have "k = 4" by simp
  with 0 show ?case by (auto simp: word_less_nat_alt word_le_nat_alt)
next
  case (Suc n)
  show ?case
  proof (cases "new_size < needed")
    case False
    with Suc.prems show ?thesis by (auto simp: not_less)
  next
    case True
    then have "k < 4"
      using Suc.prems by (cases "k = 4") (auto simp: word_less_nat_alt)
    have "unat (new_size * 2) = 2 * unat new_size"
      using Suc.prems(1) pipe_size_bound [OF Suc.prems(2)] by (simp add: unat_word_ariths)
    then have "unat (new_size * 2) = 0x1000 * 2 ^ Suc k" "new_size \<le> new_size * 2"
      using Suc.prems(1) by (auto simp: word_le_nat_alt)
    with Suc.IH [of "new_size * 2" "Suc k"] Suc.prems \<open>k < 4\<close> True show ?thesis
      by fastforce
  qed
qed

lemma pipe_room_spec:
  assumes b: "length b = unat (psize p)" and rw: "readPos p \<le> writePos p" "writePos p \<le> psize p"
    and k: "k \<le> 4" "unat (psize p) = 0x1000 * 2 ^ k"
    and len: "unat (writePos p) - unat (readPos p) + unat len \<le> 0x10000"
  shows "\<exists>p' b' j. pipe_room len p b = Inr (p', b') \<and> length b' = unat (psize p') \<and>
    readPos p' \<le> writePos p' \<and> unat (writePos p') + unat len \<le> unat (psize p') \<and>
    j \<le> 4 \<and> unat (psize p') = 0x1000 * 2 ^ j \<and> writeable p' = writeable p \<and>
    take (unat (writePos p') - unat (readPos p')) (drop (unat (readPos p')) b') =
    take (unat (writePos p) - unat (readPos p)) (drop (unat (readPos p)) b)"
proof -
  have size: "unat (psize p) \<le> 0x10000" using k pipe_size_bound by simp
  have rw': "unat (readPos p) \<le> unat (writePos p)" "unat (writePos p) \<le> unat (psize p)"
    using rw by (auto simp: word_le_nat_alt)
  have free: "unat (psize p - writePos p) = unat (psize p) - unat (writePos p)"
    using rw(2) by (rule unat_sub_small)
  have used: "unat (writePos p - readPos p) = unat (writePos p) - unat (readPos p)"
    using rw(1) by (rule unat_sub_small)
  show ?thesis
  proof (cases "len > psize p - writePos p")
    case False
    then have "unat (writePos p) + unat len \<le> unat (psize p)"
      using free rw' by (simp add: word_less_nat_alt)
    with False assms show ?thesis by (auto simp: pipe_room_def)
  next
    case True
    define p1 where "p1 = (if readPos p \<noteq> 0 then p\<lparr>writePos := writePos p - readPos p, readPos := 0\<rparr> else p)"
    let ?n = "unat (writePos p) - unat (readPos p)"
    define b1 where "b1 = (if readPos p \<noteq> 0 then take ?n (drop (unat (readPos p)) b) @ drop ?n b else b)"
    have step: "(if readPos p \<noteq> 0
        then kbind (buf_move 0 (unat (readPos p)) (unat (writePos p - readPos p)) b) (\<lambda>b.
             Inr (p\<lparr>writePos := writePos p - readPos p, readPos := 0\<rparr>, b))
        else Inr (p, b)) = Inr (p1, b1)"
      using b rw' used by (auto simp: p1_def b1_def buf_move_def)
    have 1: "length b1 = unat (psize p)" "psize p1 = psize p" "readPos p1 = 0"
      "unat (writePos p1) = ?n" "writeable p1 = writeable p"
      "take ?n b1 = take ?n (drop (unat (readPos p)) b)"
      using b rw' used by (auto simp: p1_def b1_def)
    have free1: "unat (psize p1 - writePos p1) = unat (psize p) - ?n"
      using 1 rw' by (subst unat_sub_small) (auto simp: word_le_nat_alt)
    have room: "pipe_room len p b = (if len > psize p1 - writePos p1
        then kbind (grow_size 32 (psize p1 * 2) (writePos p1 + len)) (\<lambda>new_size.
             Inr (p1\<lparr>psize := new_size\<rparr>, buf_resize (unat new_size) b1))
        else Inr (p1, b1))"
      unfolding pipe_room_def using True step by simp
    show ?thesis
    proof (cases "len > psize p1 - writePos p1")
      case False
      then have "?n + unat len \<le> unat (psize p)" using free1 rw' by (simp add: word_less_nat_alt)
      with False room 1 k show ?thesis
        by (intro exI [of _ p1] exI [of _ b1] exI [of _ k]) auto
    next
      case grow: True
      then have gt: "unat (psize p) < ?n + unat len" using free1 rw' by (simp add: word_less_nat_alt)
      have needed: "unat (writePos p1 + len) = ?n + unat len"
        using 1(4) len by (subst unat_add_small) auto
      have "k < 4" using gt len k by (cases "k = 4") auto
      moreover have "unat (psize p1 * 2) = 0x1000 * 2 ^ Suc k"
        using size k(2) 1(2) by (simp add: unat_word_ariths)
      ultimately obtain r j where r: "grow_size 32 (psize p1 * 2) (writePos p1 + len) = Inr r"
        "writePos p1 + len \<le> r" "j \<le> 4" "unat r = 0x1000 * 2 ^ j" "psize p1 * 2 \<le> r"
        using grow_size_spec [of "psize p1 * 2" "Suc k" "writePos p1 + len" 32] needed len by auto
      have "?n + unat len \<le> unat r" using r(2) needed by (simp add: word_le_nat_alt)
      moreover have "unat (psize p) \<le> unat r"
        using r(5) \<open>unat (psize p1 * 2) = 0x1000 * 2 ^ Suc k\<close> k(2) by (simp add: word_le_nat_alt)
      ultimately show ?thesis
        using grow room r 1 rw' by (auto simp: buf_resize_def intro!: exI [of _ j])
    qed
  qed
qed

definition open_pipe :: "pipe \<Rightarrow> bool" where
  "open_pipe p \<longleftrightarrow> pipe_ok p \<and> writeable p"

lemma open_pipeE:
  assumes "open_pipe p"
  obtains b k where "buffer p = Some b" "length b = unat (psize p)" "readPos p \<le> writePos p"
    "writePos p \<le> psize p" "k \<le> 4" "unat (psize p) = 0x1000 * 2 ^ k"
    "length (pipe_data p) = unat (writePos p) - unat (readPos p)"
    "unat (readPos p) + length (pipe_data p) = unat (writePos p)" "unat (writePos p) \<le> 0x10000"
proof -
  from assms obtain b k where b: "buffer p = Some b" "length b = unat (psize p)" "readPos p \<le> writePos p"
    "writePos p \<le> psize p" "k \<le> 4" "unat (psize p) = 0x1000 * 2 ^ k"
    by (auto simp: open_pipe_def pipe_ok_def split: option.splits)
  have le: "unat (readPos p) \<le> unat (writePos p)" "unat (writePos p) \<le> unat (psize p)"
    using b(3,4) by (auto simp: word_le_nat_alt)
  then have "length (pipe_data p) = unat (writePos p) - unat (readPos p)"
    using b(1,2) by (simp add: pipe_data_def)
  with b le pipe_size_bound [OF b(5)] show thesis by (intro that [of b k]) auto
qed

lemma take_buf_write:
  assumes "r \<le> w" "w + length d \<le> length b"
  shows "take (w + length d - r) (drop r (take w b @ d @ drop (w + length d) b)) = take (w - r) (drop r b) @ d"
  using assms by (cases d) (auto simp: take_drop min_def)

lemma pipe_put_spec:
  assumes "open_pipe p" "unat len \<le> length bs"
  shows "\<exists>p' n. pipe_put bs len p = Inr (p', n) \<and> open_pipe p' \<and>
    unat n = min (unat len) (0x10000 - length (pipe_data p)) \<and> pipe_data p' = pipe_data p @ take (unat n) bs"
proof -
  from assms(1) obtain b k where b: "buffer p = Some b" "length b = unat (psize p)" "readPos p \<le> writePos p"
    "writePos p \<le> psize p" "k \<le> 4" "unat (psize p) = 0x1000 * 2 ^ k"
    "length (pipe_data p) = unat (writePos p) - unat (readPos p)" "unat (writePos p) \<le> 0x10000"
    by (rule open_pipeE)
  let ?used = "writePos p - readPos p"
  define n where "n = (if len > MAX_PIPE_BUFFER_SIZE - ?used then MAX_PIPE_BUFFER_SIZE - ?used else len)"
  have used: "unat ?used = length (pipe_data p)" using b(3,7) by (simp add: unat_sub_small)
  then have "?used \<le> MAX_PIPE_BUFFER_SIZE"
    using b(7,8) by (simp add: word_le_nat_alt MAX_PIPE_BUFFER_SIZE_def)
  then have "unat (MAX_PIPE_BUFFER_SIZE - ?used) = 0x10000 - length (pipe_data p)"
    by (subst unat_sub_small) (simp_all add: used MAX_PIPE_BUFFER_SIZE_def)
  then have n: "unat n = min (unat len) (0x10000 - length (pipe_data p))"
    by (auto simp: n_def word_less_nat_alt)
  have "unat (writePos p) - unat (readPos p) + unat n \<le> 0x10000" using n b(7,8) by simp
  from pipe_room_spec [OF b(2-6) this] obtain p1 b1 j where
    p1: "pipe_room n p b = Inr (p1, b1)" "length b1 = unat (psize p1)" "readPos p1 \<le> writePos p1"
    "unat (writePos p1) + unat n \<le> unat (psize p1)" "j \<le> 4" "unat (psize p1) = 0x1000 * 2 ^ j"
    "writeable p1 = writeable p"
    "take (unat (writePos p1) - unat (readPos p1)) (drop (unat (readPos p1)) b1) = pipe_data p"
    using b(1) by (auto simp: pipe_data_def)
  let ?d = "take (unat n) bs"
  have d: "length ?d = unat n" using assms(2) n by simp
  have w: "unat (writePos p1 + n) = unat (writePos p1) + unat n"
    using p1(4,6) pipe_size_bound [OF p1(5)] by (subst unat_add_small) auto
  have le: "unat (readPos p1) \<le> unat (writePos p1)" using p1(3) by (simp add: word_le_nat_alt)
  let ?b2 = "take (unat (writePos p1)) b1 @ ?d @ drop (unat (writePos p1) + unat n) b1"
  have room: "unat (writePos p1) + unat n \<le> length b1" using p1(2,4) by simp
  have len2: "length ?b2 = unat (psize p1)" using room d p1(2) by simp
  have zero: "?b2 = b1 \<and> writePos p1 + n = writePos p1" if "\<not> n > 0"
    using that d by (simp add: word_gt_0)
  then have wr: "(if n > 0 then buf_write (unat (writePos p1)) ?d b1 else Inr b1) = Inr ?b2"
    using room d by (auto simp: buf_write_def)
  have upd: "(if n > 0 then writePos p1 + n else writePos p1) = writePos p1 + n" using zero by auto
  let ?p = "p1\<lparr>buffer := Some ?b2, writePos := writePos p1 + n\<rparr>"
  have run: "pipe_put bs len p = Inr (?p, n)"
    unfolding pipe_put_def b(1) Let_def n_def [symmetric] using p1(1) wr upd by simp
  have data: "pipe_data ?p = pipe_data p @ ?d"
    using take_buf_write [OF le, of ?d b1] room d p1(8) w by (simp add: pipe_data_def)
  have "open_pipe ?p"
    using len2 p1(4-7) le w assms(1) by (auto simp: open_pipe_def pipe_ok_def word_le_nat_alt)
  with run data n show ?thesis by blast
qed

lemma pipe_get_spec:
  assumes "open_pipe p"
  shows "\<exists>p'. pipe_get len p = Inr (p', take (unat len) (pipe_data p)) \<and> open_pipe p' \<and>
    pipe_data p' = drop (unat len) (pipe_data p)"
proof -
  from assms obtain b k where b: "buffer p = Some b" "length b = unat (psize p)" "readPos p \<le> writePos p"
    "writePos p \<le> psize p" "k \<le> 4" "unat (psize p) = 0x1000 * 2 ^ k"
    "length (pipe_data p) = unat (writePos p) - unat (readPos p)"
    "unat (readPos p) + length (pipe_data p) = unat (writePos p)"
    by (rule open_pipeE)
  define n where "n = (if len > writePos p - readPos p then writePos p - readPos p else len)"
  have used: "unat (writePos p - readPos p) = length (pipe_data p)" using b(3,7) by (simp add: unat_sub_small)
  then have n: "unat n = min (unat len) (length (pipe_data p))" by (auto simp: n_def word_less_nat_alt)
  have ws: "unat (writePos p) \<le> unat (psize p)" using b(4) by (simp add: word_le_nat_alt)
  have r: "unat (readPos p + n) = unat (readPos p) + unat n"
    using n b(8) ws by (subst unat_add_small) (use unat_u32 [of "writePos p"] in auto)
  have data: "pipe_data p = take (unat (writePos p) - unat (readPos p)) (drop (unat (readPos p)) b)"
    using b(1) by (simp add: pipe_data_def)
  have rd: "(if n > 0 then buf_read (unat (readPos p)) (unat n) b else Inr []) =
      Inr (take (unat len) (pipe_data p))"
  proof -
    have "take (unat len) (pipe_data p) = take (unat n) (drop (unat (readPos p)) b)"
      using n b(7) unfolding data by (simp add: min_def)
    moreover have "unat (readPos p) + unat n \<le> length b" using n b(2,8) ws by simp
    moreover have "unat n = 0" if "\<not> n > 0" using that by (simp add: word_gt_0)
    ultimately show ?thesis by (auto simp: buf_read_def)
  qed
  let ?p1 = "if n > 0 then p\<lparr>readPos := readPos p + n\<rparr> else p"
  have p1: "?p1 = p\<lparr>readPos := readPos p + n\<rparr>" by (simp add: word_gt_0)
  let ?p2 = "if readPos p + n = writePos p then p\<lparr>readPos := 0, writePos := 0\<rparr> else p\<lparr>readPos := readPos p + n\<rparr>"
  have wr: "writeable p" using assms by (simp add: open_pipe_def)
  have run: "pipe_get len p = Inr (?p2, take (unat len) (pipe_data p))"
    unfolding pipe_get_def b(1) Let_def n_def [symmetric] using rd p1 wr by simp
  have "open_pipe ?p2"
    using b n r wr ws by (auto simp: open_pipe_def pipe_ok_def word_le_nat_alt)
  moreover have "pipe_data ?p2 = drop (unat len) (pipe_data p)"
  proof (cases "readPos p + n = writePos p")
    case True
    then have "unat n = length (pipe_data p)" using r b(8) by simp
    then have "drop (unat len) (pipe_data p) = []" using n by simp
    with True b(1) show ?thesis by (simp add: pipe_data_def [of "_\<lparr>readPos := _, writePos := _\<rparr>"])
  next
    case False
    then have "unat n < length (pipe_data p)"
      using r b(8) n by (metis min.cobounded2 le_neq_implies_less unsigned_word_eqI)
    then have "unat n = unat len" using n by simp
    with False b(1) r data show ?thesis by (simp add: pipe_data_def drop_take add.commute)
  qed
  ultimately show ?thesis using run by blast
qed


interpretation pipefifo: bounded_fifo open_pipe pipe_data "0x10000" "2 ^ 32" put_bytes get_bytes
proof
  fix q :: pipe and bs :: "u8 list" and n :: nat
  assume "open_pipe q" "length bs < 2 ^ 32"
  with pipe_put_spec [of q "word_of_nat (length bs)" bs]
  show "\<exists>q'. put_bytes bs q = Inr (q', min (length bs) (0x10000 - length (pipe_data q))) \<and> open_pipe q' \<and>
      pipe_data q' = pipe_data q @ take (0x10000 - length (pipe_data q)) bs"
    by (auto simp: put_bytes_def unat_word_of_nat_small min_def)
next
  fix q :: pipe and bs :: "u8 list" and n :: nat
  assume "open_pipe q" "n < 2 ^ 32"
  with pipe_get_spec [of q "word_of_nat n"]
  show "\<exists>q'. get_bytes n q = Inr (q', take n (pipe_data q)) \<and> open_pipe q' \<and> pipe_data q' = drop n (pipe_data q)"
    by (simp add: get_bytes_def unat_word_of_nat_small)
qed

lemma new_pipe_open:
  "open_pipe \<lparr>buffer = Some (replicate (unat MIN_PIPE_BUFFER_SIZE) 0), psize = MIN_PIPE_BUFFER_SIZE,
     writePos = 0, readPos = 0, writeable = True\<rparr>"
  by (auto simp: open_pipe_def pipe_ok_def MIN_PIPE_BUFFER_SIZE_def intro!: exI [of _ 0])

section \<open>Properties\<close>

text \<open>C1: For every sequence of writes and reads with lengths below \<open>2 ^ 32\<close> on an open pipe, every operation
  returns (no copy leaves the buffer, no growth loops for ever), the buffer invariant holds at the
  end, and the bytes delivered followed by the bytes still buffered are the bytes buffered at the start followed
  by the bytes accepted: nothing is lost, repeated or reordered.\<close>

theorem pipe_fifo:
  assumes "open_pipe p" "\<forall>x\<in>set ops. (case x of Put bs \<Rightarrow> length bs | Get n \<Rightarrow> n) < 2 ^ 32"
  shows "\<exists>p' ins outs. fifo_run put_bytes get_bytes ops p = Inr (p', ins, outs) \<and> open_pipe p' \<and>
    outs @ pipe_data p' = pipe_data p @ ins"
  using assms by (rule pipefifo.fifo_order)

theorem pipe_fifo_witness:
  "\<exists>p' ins outs. fifo_run put_bytes get_bytes [Put [1, 2, 3], Get 2, Put [4]]
      \<lparr>buffer = Some (replicate (unat MIN_PIPE_BUFFER_SIZE) 0), psize = MIN_PIPE_BUFFER_SIZE,
        writePos = 0, readPos = 0, writeable = True\<rparr> = Inr (p', ins, outs) \<and> open_pipe p' \<and>
     outs @ pipe_data p' = ins"
  using pipe_fifo [OF new_pipe_open, of "[Put [1, 2, 3], Get 2, Put [4]]"] by (simp add: pipe_data_def)

end
