(* ===== verification/Event.thy ===== *)
theory Event
  imports Objects
begin

text \<open>
  Event objects (\<^verbatim>\<open>process/event.c\<close>): waiting for one of several objects. Every attached object has
  a \<open>SubEvent\<close>, which is linked into the wait queue of that object while it is blocked and passes
  a signal on to the waiters of the event. \<open>subEvents\<close> is the list of \<^verbatim>\<open>entry_event\<close>.

  The callbacks are \<^verbatim>\<open>__objectSignal\<close>, \<^verbatim>\<open>__objectWait\<close> and \<^verbatim>\<open>__objectRelease\<close>.
\<close>

definition eventCreate :: "bool \<Rightarrow> kst \<Rightarrow> kst \<times> addr" where
  "eventCreate wakeupAll s =
     (let (s, a) = heapAlloc_obj s
      in if a = 0 then (s, 0)
         else ((objectInit a (Event \<lparr>subEvents = [], status = 0, ev_wakeupAll = wakeupAll\<rparr>) s)
                 \<lparr>queue := (queue s)(Waiters a := [])\<rparr>, a))"

text \<open>Unlink and free one \<^verbatim>\<open>subEvent\<close>, the body of the loops in \<^verbatim>\<open>__eventDestroy\<close> and
  \<^verbatim>\<open>__eventDetachObj\<close>.\<close>

definition dropSubEvent :: "releaseFun \<Rightarrow> addr \<Rightarrow> addr \<Rightarrow> kst \<Rightarrow> kst kres" where
  "dropSubEvent release a sub s =
     kbind (get_subEvent sub s) (\<lambda>x.
     kbind (if se_blocked x then ll_remove_obj sub s else Inr s) (\<lambda>s.
     kbind (get_event a s) (\<lambda>e.
     kbind (release (se_wait x) (set_obj a (Event (e\<lparr>subEvents := remove1 sub (subEvents e)\<rparr>)) s)) (\<lambda>s.
     Inr (heapFree_obj sub s)))))"

text \<open>\<^verbatim>\<open>LL_FOR_EACH_SAFE\<close> over the attached objects; the first argument is what is left of the list.\<close>

primrec dropSubEvents ::
  "addr list \<Rightarrow> releaseFun \<Rightarrow> (subEvent \<Rightarrow> bool) \<Rightarrow> addr \<Rightarrow> bool \<Rightarrow> kst \<Rightarrow> (kst \<times> bool) kres" where
  "dropSubEvents [] release P a success s = Inr (s, success)"
| "dropSubEvents (sub # subs) release P a success s =
     kbind (get_event a s) (\<lambda>e.
       if sub \<notin> set (subEvents e) then Inl StaleIteration
       else kbind (get_subEvent sub s) (\<lambda>x.
            if P x
            then kbind (dropSubEvent release a sub s) (\<lambda>s. dropSubEvents subs release P a True s)
            else dropSubEvents subs release P a success s))"

definition eventDestroy :: "signalFun \<Rightarrow> releaseFun \<Rightarrow> addr \<Rightarrow> kst \<Rightarrow> kst kres" where
  "eventDestroy sig release a s =
     kbind (get_event a s) (\<lambda>_.
     kbind (queueWakeup sig (Waiters a) True (- 1) s) (\<lambda>s.
     kassert (queue s (Waiters a) = []) (
     kbind (get_event a s) (\<lambda>e.
     kbind (dropSubEvents (subEvents e) release (\<lambda>_. True) a False s) (\<lambda>(s, _).
     Inr (heapFree_obj a s))))))"

definition eventShutdown :: "signalFun \<Rightarrow> addr \<Rightarrow> u32 \<Rightarrow> kst \<Rightarrow> kst kres" where
  "eventShutdown sig a mode s =
     kbind (get_event a s) (\<lambda>_. queueWakeup sig (Waiters a) True (- 1) s)"

definition eventGetStatus :: "addr \<Rightarrow> u32 \<Rightarrow> kst \<Rightarrow> u32 kres" where
  "eventGetStatus a mode s = kbind (get_event a s) (\<lambda>e. Inr (status e))"

definition set_status :: "addr \<Rightarrow> u32 \<Rightarrow> kst \<Rightarrow> kst kres" where
  "set_status a v s = kbind (get_event a s) (\<lambda>e. Inr (set_obj a (Event (e\<lparr>status := v\<rparr>)) s))"

text \<open>Arm the attached objects one after the other until one of them does not block.\<close>

primrec eventWait_loop :: "addr list \<Rightarrow> waitFun \<Rightarrow> addr \<Rightarrow> kst \<Rightarrow> (kst \<times> waitResult) kres" where
  "eventWait_loop [] wait a s = Inr (s, WaitOn (Waiters a))"
| "eventWait_loop (sub # subs) wait a s =
     kbind (get_subEvent sub s) (\<lambda>x.
       if se_blocked x then eventWait_loop subs wait a s
       else kassert (se_event x = a) (
            kbind (set_status a 0 s) (\<lambda>s.
            kbind (wait (se_wait x) (se_waitMode x) s) (\<lambda>(s, r).
              case r of
                WaitOn q \<Rightarrow>
                  kbind (get_subEvent sub s) (\<lambda>x.
                  kbind (ll_add_after_obj q sub (set_obj sub (SubEvent (x\<lparr>se_blocked := True\<rparr>)) s)) (\<lambda>s.
                  eventWait_loop subs wait a s))
              | Result v \<Rightarrow> kbind (set_status a v s) (\<lambda>s. Inr (s, Result (se_identifier x)))
              | NoResult \<Rightarrow> Inr (s, Result (se_identifier x))))))"

definition eventWait :: "waitFun \<Rightarrow> addr \<Rightarrow> u32 \<Rightarrow> kst \<Rightarrow> (kst \<times> waitResult) kres" where
  "eventWait wait a mode s = kbind (get_event a s) (\<lambda>e. eventWait_loop (subEvents e) wait a s)"

definition eventSignal :: "signalFun \<Rightarrow> addr \<Rightarrow> u32 \<Rightarrow> kst \<Rightarrow> kst kres" where
  "eventSignal sig a result s =
     kbind (get_event a s) (\<lambda>e.
       queueWakeup sig (Waiters a) (ev_wakeupAll e) result (set_obj a (Event (e\<lparr>status := 0\<rparr>)) s))"

definition eventAttachObj :: "addr \<Rightarrow> addr \<Rightarrow> u32 \<Rightarrow> u32 \<Rightarrow> kst \<Rightarrow> (kst \<times> bool) kres" where
  "eventAttachObj a subObj mode ident s =
     kbind (get_event a s) (\<lambda>_.
       let (s, sub) = heapAlloc_obj s
       in if sub = 0 then Inr (s, False)
          else let s = objectInit sub (SubEvent \<lparr>se_blocked = False, se_event = a, se_wait = subObj,
                         se_waitMode = mode, se_identifier = ident\<rparr>) s
               in kbind (get_event a s) (\<lambda>e.
                  kbind (objectAddRef subObj (set_obj a (Event (e\<lparr>subEvents := subEvents e @ [sub]\<rparr>)) s)) (\<lambda>s.
                  Inr (s, True))))"

definition eventDetachObj :: "releaseFun \<Rightarrow> addr \<Rightarrow> u32 \<Rightarrow> kst \<Rightarrow> (kst \<times> bool) kres" where
  "eventDetachObj release a ident s =
     kbind (get_event a s) (\<lambda>e.
       dropSubEvents (subEvents e) release (\<lambda>x. se_identifier x = ident) a False s)"

definition subEventSignal :: "signalFun \<Rightarrow> addr \<Rightarrow> u32 \<Rightarrow> kst \<Rightarrow> kst kres" where
  "subEventSignal sig sub result s =
     kbind (get_subEvent sub s) (\<lambda>x.
       if \<not> se_blocked x then Inr s
       else kbind (ll_remove_obj sub (set_obj sub (SubEvent (x\<lparr>se_blocked := False\<rparr>)) s)) (\<lambda>s.
            kbind (get_event (se_event x) s) (\<lambda>e.
            queueWakeup sig (Waiters (se_event x)) (ev_wakeupAll e) (se_identifier x)
              (set_obj (se_event x) (Event (e\<lparr>status := result\<rparr>)) s))))"

section \<open>No wakeup is lost\<close>

lemma get_event_iff: "get_event a s = Inr x \<longleftrightarrow> a \<noteq> 0 \<and> objs s a = Some (Event x)"
  by (auto simp: get_event_def object_at_def kbind_eq_Inr split: if_splits option.splits kobj.splits)

lemma get_subEvent_iff: "get_subEvent a s = Inr x \<longleftrightarrow> a \<noteq> 0 \<and> objs s a = Some (SubEvent x)"
  by (auto simp: get_subEvent_def object_at_def kbind_eq_Inr split: if_splits option.splits kobj.splits)

lemma objs_ll_add_after: "ll_add_after_obj q a s = Inr t \<Longrightarrow> objs t = objs s \<and> linked s a = None \<and> linked t = (linked s)(a \<mapsto> q)"
  by (auto simp: ll_add_after_obj_def link_head_def split: if_splits)

text \<open>A sub-event is armed: the object it stands for will reach it with the next signal.\<close>

definition armed :: "addr \<Rightarrow> kst \<Rightarrow> bool" where
  "armed sub s \<longleftrightarrow> (case objs s sub of Some (SubEvent x) \<Rightarrow> se_blocked x \<and> linked s sub \<noteq> None | _ \<Rightarrow> False)"

lemma armed_iff: "armed sub s \<longleftrightarrow> (\<exists>x. objs s sub = Some (SubEvent x) \<and> se_blocked x \<and> linked s sub \<noteq> None)"
  by (auto simp: armed_def split: option.splits kobj.splits)

text \<open>Every blocked sub-event is linked into some queue.\<close>

definition waits_ok :: "kst \<Rightarrow> bool" where
  "waits_ok s \<longleftrightarrow> (\<forall>sub x. objs s sub = Some (SubEvent x) \<longrightarrow> se_blocked x \<longrightarrow> linked s sub \<noteq> None)"

definition keeps :: "kst \<Rightarrow> kst \<Rightarrow> bool" where
  "keeps s t \<longleftrightarrow> (\<forall>b. armed b s \<longrightarrow> armed b t) \<and> (waits_ok s \<longrightarrow> waits_ok t)"

lemma keeps_refl [simp]: "keeps s s"
  by (simp add: keeps_def)

lemma keeps_trans: "keeps s t \<Longrightarrow> keeps t u \<Longrightarrow> keeps s u"
  by (simp add: keeps_def)

lemma keeps_armed: "keeps s t \<Longrightarrow> armed b s \<Longrightarrow> armed b t"
  by (simp add: keeps_def)

text \<open>Updating an object that is not a sub-event.\<close>

lemma keeps_other:
  assumes "linked t = linked s" "\<And>b x. objs t b = Some (SubEvent x) \<longleftrightarrow> objs s b = Some (SubEvent x)"
  shows "keeps s t"
  using assms by (simp add: keeps_def armed_iff waits_ok_def)

lemma keeps_set_status: "set_status a v s = Inr t \<Longrightarrow> keeps s t"
  by (rule keeps_other) (auto simp: set_status_def get_event_iff kbind_eq_Inr split: if_splits)

text \<open>Linking the sub-event of an object that blocks.\<close>

lemma keeps_arm:
  assumes "get_subEvent sub s = Inr x"
    "ll_add_after_obj q sub (set_obj sub (SubEvent (x\<lparr>se_blocked := True\<rparr>)) s) = Inr t"
  shows "armed sub t \<and> keeps s t"
  using assms objs_ll_add_after [OF assms(2)]
  by (auto simp: get_subEvent_iff armed_iff waits_ok_def keeps_def)

text \<open>What a wait function of the object layer promises to its callers: sub-events that are armed stay
  armed, and blocked ones stay linked. \<^verbatim>\<open>__eventWait\<close> relies on it and provides it again.\<close>

locale arming =
  fixes wait :: waitFun
  assumes wait_keeps: "wait b m s = Inr (t, r) \<Longrightarrow> keeps s t"
begin

lemma eventWait_loop_keeps: "eventWait_loop subs wait a s = Inr (t, r) \<Longrightarrow> keeps s t"
proof (induction subs arbitrary: s)
  case (Cons sub subs)
  then obtain x where x: "get_subEvent sub s = Inr x" by (auto elim!: kbind_InrE)
  show ?case
  proof (cases "se_blocked x")
    case False
    then obtain s1 s2 y where *: "set_status a 0 s = Inr s1" "wait (se_wait x) (se_waitMode x) s1 = Inr (s2, y)"
      using Cons.prems x by (auto elim!: kbind_InrE)
    then have "keeps s s2" using keeps_set_status wait_keeps keeps_trans by blast
    moreover have "keeps s2 t"
      using False Cons.prems x * Cons.IH keeps_trans
      by (cases y) (auto elim!: kbind_InrE dest: keeps_set_status keeps_arm intro: keeps_trans)
    ultimately show ?thesis by (rule keeps_trans)
  qed (use Cons x in auto)
qed simp

lemma eventWait_keeps: "eventWait wait a m s = Inr (t, r) \<Longrightarrow> keeps s t"
  using eventWait_loop_keeps by (auto simp: eventWait_def elim!: kbind_InrE)

lemma eventWait_loop_arms:
  assumes "eventWait_loop subs wait a s = Inr (t, WaitOn q)" "waits_ok s"
  shows "q = Waiters a \<and> (\<forall>sub\<in>set subs. armed sub t)"
  using assms
proof (induction subs arbitrary: s)
  case (Cons sub subs)
  then obtain x where x: "get_subEvent sub s = Inr x" by (auto elim!: kbind_InrE)
  show ?case
  proof (cases "se_blocked x")
    case True
    have "armed sub s" using True x Cons.prems(2) by (auto simp: armed_iff waits_ok_def get_subEvent_iff)
    moreover have loop: "eventWait_loop subs wait a s = Inr (t, WaitOn q)" using Cons.prems(1) x True by simp
    ultimately show ?thesis using Cons.IH [OF loop] Cons.prems(2) keeps_armed [OF eventWait_loop_keeps [OF loop]] by auto
  next
    case False
    then obtain s1 s2 y where *: "set_status a 0 s = Inr s1" "wait (se_wait x) (se_waitMode x) s1 = Inr (s2, y)"
      using Cons.prems x by (auto elim!: kbind_InrE)
    then have "waits_ok s2"
      using Cons.prems(2) keeps_set_status wait_keeps keeps_trans unfolding keeps_def by blast
    from False obtain p where "y = WaitOn p"
      using False Cons.prems(1) x * by (auto elim!: kbind_InrE split: waitResult.splits)
    with * obtain z s4 where **: "get_subEvent sub s2 = Inr z"
      "ll_add_after_obj p sub (set_obj sub (SubEvent (z\<lparr>se_blocked := True\<rparr>)) s2) = Inr s4"
      "eventWait_loop subs wait a s4 = Inr (t, WaitOn q)"
      using False Cons.prems(1) x * by (auto elim!: kbind_InrE)
    then have "armed sub s4" "waits_ok s4"
      using keeps_arm [OF **(1,2)] \<open>waits_ok s2\<close> by (auto simp: keeps_def)
    with Cons.IH [OF **(3)] eventWait_loop_keeps [OF **(3)] keeps_armed show ?thesis by auto
  qed
qed simp

end

end
