(* ===== verification/Thread.thy ===== *)
theory Thread
  imports Objects
begin

text \<open>
  Threads and the scheduler (\<^verbatim>\<open>process/thread.c\<close>). \<open>ThreadList\<close> is the list of runnable threads;
  a blocked thread is in the wait queue it blocks on instead. The callbacks are the object layer's
  signal, release and shutdown; \<open>run\<close> is \<^verbatim>\<open>tssRunUsermodeThread\<close>, which enters user mode and handles
  the interrupt that ends it, and \<open>idle\<close> is \<^verbatim>\<open>tssKernelIdle\<close>.
\<close>

unbundle bit_operations_syntax

definition DEFAULT_STACK_SIZE :: u32 where "DEFAULT_STACK_SIZE = 0x10000"
definition DEFAULT_TLB_SIZE :: u32 where "DEFAULT_TLB_SIZE = 0x1000"
definition USERMODE_KERNELSTACK_LIMIT :: u32 where "USERMODE_KERNELSTACK_LIMIT = 0xFF801000"

definition set_thread :: "addr \<Rightarrow> thread \<Rightarrow> kst \<Rightarrow> kst" where
  "set_thread a t s = set_obj a (Thread t) s"

definition upd_thread :: "addr \<Rightarrow> (thread \<Rightarrow> thread) \<Rightarrow> kst \<Rightarrow> kst kres" where
  "upd_thread a f s = kbind (get_thread a s) (\<lambda>t. Inr (set_thread a (f t) s))"

definition upd_process :: "addr \<Rightarrow> (process \<Rightarrow> process) \<Rightarrow> kst \<Rightarrow> kst kres" where
  "upd_process a f s = kbind (get_process a s) (\<lambda>p. Inr (set_obj a (Process (f p)) s))"

section \<open>Creating and destroying\<close>

text \<open>The registers of a new thread.\<close>

definition initial_task :: "kst \<Rightarrow> u32 \<Rightarrow> u32 \<Rightarrow> u32 \<Rightarrow> u32 \<Rightarrow> taskContext" where
  "initial_task s dirFrame entry stackBase stackLength =
     \<lparr>prevTask = 0, esp0 = USERMODE_KERNELSTACK_LIMIT, ss0 = sel_dataRing0 s, esp1 = 0, ss1 = 0, esp2 = 0,
      ss2 = 0, t_cr3 = push_bit 12 dirFrame, eip = entry, eflags = push_bit 9 1, eax = 0, ecx = 0, edx = 0,
      ebx = 0, esp = stackBase + push_bit 12 stackLength, ebp = 0, esi = 0, edi = 0,
      seg_es = sel_dataRing3 s, seg_cs = sel_codeRing3 s, seg_ss = sel_dataRing3 s, seg_ds = sel_dataRing3 s,
      seg_fs = sel_dataRing3 s, seg_gs = sel_dataRing3 s, ldt = 0, iomap = 104\<rparr>"

text \<open>The fields of a thread before \<^verbatim>\<open>threadCreate\<close> fills them; the source leaves them undefined.\<close>

definition blank_task :: taskContext where
  "blank_task = \<lparr>prevTask = 0, esp0 = 0, ss0 = 0, esp1 = 0, ss1 = 0, esp2 = 0, ss2 = 0, t_cr3 = 0, eip = 0,
     eflags = 0, eax = 0, ecx = 0, edx = 0, ebx = 0, esp = 0, ebp = 0, esi = 0, edi = 0, seg_es = 0, seg_cs = 0,
     seg_ss = 0, seg_ds = 0, seg_fs = 0, seg_gs = 0, ldt = 0, iomap = 0\<rparr>"

definition blank_thread :: "addr \<Rightarrow> thread" where
  "blank_thread p = \<lparr>th_blocked = False, th_process = p, th_exitcode = - 1, fpuInitialized = False,
     user_ring3StackBase = 0, user_ring3StackLength = 0, user_threadLocalBase = 0,
     user_threadLocalLength = 0, task = blank_task, fpu = blank_fpu\<rparr>"

text \<open>\<^verbatim>\<open>fnsave\<close> stores the coprocessor state and then initializes the coprocessor.\<close>

definition fnsave :: "addr \<Rightarrow> kst \<Rightarrow> kst kres" where
  "fnsave a s = kbind (upd_thread a (\<lambda>t. t\<lparr>fpu := hwFpu s\<rparr>) s) (\<lambda>s. Inr (s\<lparr>hwFpu := hwFpuInit s\<rparr>))"

text \<open>A new thread with a stack and thread-local storage of its own.\<close>

definition setup_thread :: "addr \<Rightarrow> addr \<Rightarrow> u32 \<Rightarrow> kst \<Rightarrow> kst kres" where
  "setup_thread a p entry s =
     (let stackLength = drop_bit 12 DEFAULT_STACK_SIZE; tlbLength = drop_bit 12 DEFAULT_TLB_SIZE in
      kbind (with_mem (pagingAllocatePhysMem (getPagingEntry p) stackLength True True) s) (\<lambda>(s, stack).
      kbind (with_mem (pagingAllocatePhysMem (getPagingEntry p) tlbLength True True) s) (\<lambda>(s, tlb).
      kbind (with_mem (pagingGetPhysMem (getPagingEntry 0) (pageDirectory (procMem (mem s) p))) s) (\<lambda>(s, frame).
      upd_thread a (\<lambda>t. t\<lparr>fpuInitialized := False, user_ring3StackLength := stackLength,
        user_ring3StackBase := stack, user_threadLocalLength := tlbLength,
        user_threadLocalBase := tlb,
        task := initial_task s (word_of_nat frame) entry stack stackLength\<rparr>) s))))"

text \<open>A copy of a thread in a forked process; \<^verbatim>\<open>fnsave\<close> is used if the coprocessor holds the state.\<close>

definition copy_fpu :: "addr \<Rightarrow> addr \<Rightarrow> kst \<Rightarrow> kst kres" where
  "copy_fpu a original s =
     kbind (if lastFPUthread s = original then fnsave original s else Inr s) (\<lambda>s.
     kbind (get_thread original s) (\<lambda>ot.
     upd_thread a (\<lambda>t. t\<lparr>fpu := fpu ot\<rparr>) s))"

definition copy_thread :: "addr \<Rightarrow> addr \<Rightarrow> addr \<Rightarrow> kst \<Rightarrow> kst kres" where
  "copy_thread a p original s =
     kbind (get_thread original s) (\<lambda>ot.
     kassert (th_process ot \<noteq> 0 \<and> p \<noteq> th_process ot) (
     kbind (with_mem (pagingGetPhysMem (getPagingEntry 0) (pageDirectory (procMem (mem s) p))) s) (\<lambda>(s, frame).
     kbind (upd_thread a (\<lambda>t. t\<lparr>fpuInitialized := fpuInitialized ot,
       user_ring3StackLength := user_ring3StackLength ot,
       user_ring3StackBase := user_ring3StackBase ot,
       user_threadLocalLength := user_threadLocalLength ot,
       user_threadLocalBase := user_threadLocalBase ot,
       task := (task ot)\<lparr>t_cr3 := push_bit 12 (word_of_nat frame)\<rparr>\<rparr>) s) (\<lambda>s.
     if fpuInitialized ot then copy_fpu a original s else Inr s))))"

definition threadCreate :: "addr \<Rightarrow> addr \<Rightarrow> u32 \<Rightarrow> kst \<Rightarrow> (kst \<times> addr) kres" where
  "threadCreate p original entry s =
     kassert (p \<noteq> 0) (
     let (s, a) = heapAlloc_obj s
     in if a = 0 then Inr (s, 0)
        else kbind (ll_add_tail_obj ThreadList a (objectInit a (Thread (blank_thread p)) s)) (\<lambda>s.
             let s = s\<lparr>queue := (queue s)(Waiters a := [])\<rparr> in
             kbind (upd_process p (\<lambda>x. x\<lparr>threads := threads x @ [a]\<rparr>) s) (\<lambda>s.
             kbind (if original = 0 then setup_thread a p entry s else copy_thread a p original s) (\<lambda>s.
             kbind (objectAddRef a s) (\<lambda>s.
             kbind (objectAddRef p s) (\<lambda>s.
             Inr (s, a)))))))"

definition threadDestroy :: "addr \<Rightarrow> kst \<Rightarrow> kst kres" where
  "threadDestroy a s =
     kbind (get_thread a s) (\<lambda>t.
       let s = (if lastFPUthread s = a then s\<lparr>lastFPUthread := 0\<rparr> else s)
       in kassert (queue s (Waiters a) = []) (kassert (th_process t = 0) (Inr (heapFree_obj a s))))"

definition threadShutdown :: "signalFun \<Rightarrow> releaseFun \<Rightarrow> shutdownFun \<Rightarrow> addr \<Rightarrow> u32 \<Rightarrow> kst \<Rightarrow> kst kres" where
  "threadShutdown sig release shutdown a exitcode s =
     kbind (get_thread a s) (\<lambda>t.
       let p = th_process t;
           s = (if lastFPUthread s = a then s\<lparr>lastFPUthread := 0\<rparr> else s)
       in if p = 0 then Inr s
          else kbind (upd_thread a (\<lambda>t. t\<lparr>th_process := 0, th_exitcode := exitcode\<rparr>) s) (\<lambda>s.
               kassert (user_threadLocalBase t \<noteq> 0) (
               kassert (user_ring3StackBase t \<noteq> 0) (
               kbind (with_mem0 (pagingReleasePhysMem (getPagingEntry p) (user_threadLocalBase t)
                        (unat (user_threadLocalLength t))) s) (\<lambda>s.
               kbind (upd_thread a (\<lambda>t. t\<lparr>user_threadLocalBase := 0\<rparr>) s) (\<lambda>s.
               kbind (with_mem0 (pagingReleasePhysMem (getPagingEntry p) (user_ring3StackBase t)
                        (unat (user_ring3StackLength t))) s) (\<lambda>s.
               kbind (upd_thread a (\<lambda>t. t\<lparr>user_ring3StackBase := 0\<rparr>) s) (\<lambda>s.
               kbind (ll_remove_obj a s) (\<lambda>s.
               kbind (upd_process p (\<lambda>x. x\<lparr>threads := remove1 a (threads x)\<rparr>) s) (\<lambda>s.
               kbind (queueWakeup sig (Waiters a) True exitcode s) (\<lambda>s.
               kbind (get_process p s) (\<lambda>x.
               kbind (if threads x = [] then shutdown p exitcode s else Inr s) (\<lambda>s.
               kbind (release a s) (release p))))))))))))))"

definition threadGetStatus :: "addr \<Rightarrow> u32 \<Rightarrow> kst \<Rightarrow> u32 kres" where
  "threadGetStatus a mode s =
     kbind (get_thread a s) (\<lambda>t. Inr (if th_process t \<noteq> 0 then - 1 else th_exitcode t))"

definition threadWait_obj :: "addr \<Rightarrow> u32 \<Rightarrow> kst \<Rightarrow> (kst \<times> waitResult) kres" where
  "threadWait_obj a mode s =
     kbind (get_thread a s) (\<lambda>t.
       Inr (s, if th_process t \<noteq> 0 then WaitOn (Waiters a) else Result (th_exitcode t)))"

definition threadSignal :: "addr \<Rightarrow> u32 \<Rightarrow> kst \<Rightarrow> kst kres" where
  "threadSignal a result s =
     kbind (get_thread a s) (\<lambda>t.
       if th_process t = 0 \<or> \<not> th_blocked t then Inr s
       else kbind (ll_remove_obj a (set_thread a (t\<lparr>th_blocked := False, task := (task t)\<lparr>eax := result\<rparr>\<rparr>) s)) (\<lambda>s.
            ll_add_tail_obj ThreadList a s))"

section \<open>Waiting and scheduling\<close>

definition threadWait :: "waitFun \<Rightarrow> addr \<Rightarrow> addr \<Rightarrow> u32 \<Rightarrow> kst \<Rightarrow> (kst \<times> intStatus) kres" where
  "threadWait wait a obj mode s =
     kbind (upd_thread a (\<lambda>t. t\<lparr>task := (task t)\<lparr>eax := 0\<rparr>\<rparr>) s) (\<lambda>s.
     kbind (wait obj mode s) (\<lambda>(s, r).
       case r of
         WaitOn q \<Rightarrow>
           kbind (get_thread a s) (\<lambda>t.
           kassert (\<not> th_blocked t) (
           kbind (ll_remove_obj a (set_thread a (t\<lparr>th_blocked := True\<rparr>) s)) (\<lambda>s.
           kbind (ll_add_after_obj q a s) (\<lambda>s. Inr (s, INTERRUPT_YIELD)))))
       | Result v \<Rightarrow> kbind (upd_thread a (\<lambda>t. t\<lparr>task := (task t)\<lparr>eax := v\<rparr>\<rparr>) s) (\<lambda>s.
                     Inr (s, INTERRUPT_CONTINUE_EXECUTION))
       | NoResult \<Rightarrow> Inr (s, INTERRUPT_CONTINUE_EXECUTION)))"

text \<open>Run user code until something other than \<^verbatim>\<open>INTERRUPT_CONTINUE_EXECUTION\<close> comes back.\<close>

type_synonym runFun = "addr \<Rightarrow> kst \<Rightarrow> (kst \<times> intStatus) kres"

primrec run_loop :: "nat \<Rightarrow> runFun \<Rightarrow> addr \<Rightarrow> addr \<Rightarrow> kst \<Rightarrow> (kst \<times> intStatus) kres" where
  "run_loop 0 run a p s = Inl OutOfFuel"
| "run_loop (Suc n) run a p s =
     kbind (get_thread a s) (\<lambda>t.
     kassert (th_process t = p \<and> \<not> th_blocked t) (
     kbind (run a s) (\<lambda>(s, st).
       if st = INTERRUPT_CONTINUE_EXECUTION then run_loop n run a p s else Inr (s, st))))"

text \<open>Behind \<open>a\<close> in the list of runnable threads; a thread outside that list has a stale link.\<close>

definition next_thread :: "addr \<Rightarrow> kst \<Rightarrow> addr option kres" where
  "next_thread a s =
     (if linked s a = Some ThreadList then Inr (next_in (queue s ThreadList) a) else Inl StaleIteration)"

primrec skip_process :: "nat \<Rightarrow> addr option \<Rightarrow> addr \<Rightarrow> kst \<Rightarrow> addr option kres" where
  "skip_process 0 nxt p s = Inl OutOfFuel"
| "skip_process (Suc n) nxt p s =
     (case nxt of None \<Rightarrow> Inr None
      | Some b \<Rightarrow> kbind (get_thread b s) (\<lambda>t.
          if th_process t = p then kbind (next_thread b s) (\<lambda>nxt. skip_process n nxt p s)
          else Inr nxt))"

definition threadRun ::
  "nat \<Rightarrow> runFun \<Rightarrow> shutdownFun \<Rightarrow> addr \<Rightarrow> kst \<Rightarrow> (kst \<times> addr option) kres" where
  "threadRun fuel run shutdown a s =
     kbind (get_thread a s) (\<lambda>t.
     kbind (next_thread a s) (\<lambda>nxt.
     let p = th_process t in
     kbind (if p \<noteq> 0 then run_loop fuel run a p s else Inr (s, INTERRUPT_CONTINUE_EXECUTION)) (\<lambda>(s, st).
       case st of
         INTERRUPT_EXIT_THREAD \<Rightarrow>
           kbind (get_thread a s) (\<lambda>t.
           kbind (shutdown a (ebx (task t)) s) (\<lambda>s. Inr (s, nxt)))
       | INTERRUPT_EXIT_PROCESS \<Rightarrow>
           kbind (skip_process (Suc (length (queue s ThreadList))) nxt p s) (\<lambda>nxt.
           kbind (get_thread a s) (\<lambda>t.
           kbind (shutdown p (ebx (task t)) s) (\<lambda>s. Inr (s, nxt))))
       | _ \<Rightarrow> Inr (s, nxt))))"

text \<open>The loops of \<^verbatim>\<open>threadSchedule\<close>: \<open>cur\<close> is the iterator over the runnable threads, \<open>None\<close> once it has
  reached the list head.\<close>

primrec schedule_loop ::
  "nat \<Rightarrow> runFun \<Rightarrow> shutdownFun \<Rightarrow> (kst \<Rightarrow> kst kres) \<Rightarrow> addr option \<Rightarrow> kst \<Rightarrow> kst kres" where
  "schedule_loop 0 run shutdown idle cur s = Inl OutOfFuel"
| "schedule_loop (Suc n) run shutdown idle cur s =
     (case cur of
        Some a \<Rightarrow> kbind (threadRun n run shutdown a s) (\<lambda>(s, nxt). schedule_loop n run shutdown idle nxt s)
      | None \<Rightarrow>
          if queue s ThreadList \<noteq> [] then schedule_loop n run shutdown idle (first_in (queue s ThreadList)) s
          else kbind (idle s) (\<lambda>s.
               if processList s = [] then Inr s else schedule_loop n run shutdown idle None s))"

definition threadSchedule :: "nat \<Rightarrow> runFun \<Rightarrow> shutdownFun \<Rightarrow> (kst \<Rightarrow> kst kres) \<Rightarrow> kst \<Rightarrow> kst kres" where
  "threadSchedule fuel run shutdown idle s =
     (if processList s = [] then Inr s else schedule_loop fuel run shutdown idle None s)"

section \<open>Waiting threads\<close>

lemma get_thread_iff: "get_thread a s = Inr x \<longleftrightarrow> a \<noteq> 0 \<and> objs s a = Some (Thread x)"
  by (auto simp: get_thread_def object_at_def kbind_eq_Inr split: if_splits option.splits kobj.splits)

definition wait_queue :: "qid \<Rightarrow> bool" where
  "wait_queue q = (case q of Waiters _ \<Rightarrow> True | WriteWaiters _ \<Rightarrow> True | ReadWaiters _ \<Rightarrow> True | _ \<Rightarrow> False)"

definition blocked_thread :: "addr \<Rightarrow> kst \<Rightarrow> bool" where
  "blocked_thread a s = (a \<noteq> 0 \<and> (case objs s a of Some (Thread t) \<Rightarrow> th_blocked t \<and> th_process t \<noteq> 0 | _ \<Rightarrow> False))"

lemma blocked_thread_iff:
  "blocked_thread a s \<longleftrightarrow> a \<noteq> 0 \<and> (\<exists>t. objs s a = Some (Thread t) \<and> th_blocked t \<and> th_process t \<noteq> 0)"
  by (auto simp: blocked_thread_def split: option.splits kobj.splits)

text \<open>\<open>q\<close> is a queue whose waiters are all blocked threads.\<close>

definition threads_ok :: "qid \<Rightarrow> kst \<Rightarrow> bool" where
  "threads_ok q s \<longleftrightarrow> queues_ok s \<and> wait_queue q \<and> (\<forall>a\<in>set (queue s q). blocked_thread a s)"

text \<open>The effect of a wakeup with result \<open>r\<close>: a prefix \<open>ws\<close> of the queue is now runnable, in order, and
  nothing else has changed.\<close>

definition woken :: "u32 \<Rightarrow> thread \<Rightarrow> thread" where
  "woken r t = t\<lparr>th_blocked := False, task := (task t)\<lparr>eax := r\<rparr>\<rparr>"

definition wakes :: "addr list \<Rightarrow> qid \<Rightarrow> u32 \<Rightarrow> kst \<Rightarrow> kst \<Rightarrow> bool" where
  "wakes ws q r s s' \<longleftrightarrow>
     queue s q = ws @ queue s' q \<and>
     queue s' = (queue s)(q := queue s' q, ThreadList := queue s ThreadList @ ws) \<and>
     linked s' = (\<lambda>a. if a \<in> set ws then Some ThreadList else linked s a) \<and>
     objs s' = (\<lambda>a. if a \<in> set ws then map_option (\<lambda>x. case x of Thread t \<Rightarrow> Thread (woken r t) | _ \<Rightarrow> x) (objs s a)
                    else objs s a) \<and>
     s'\<lparr>queue := queue s, linked := linked s, objs := objs s\<rparr> = s"

lemma wakesD:
  assumes "wakes ws q r s s'"
  shows "queue s q = ws @ queue s' q"
    and "queue s' p = (if p = ThreadList then queue s p @ ws else if p = q then queue s' p else queue s p)"
    and "linked s' b = (if b \<in> set ws then Some ThreadList else linked s b)"
    and "objs s' b = (if b \<in> set ws
      then map_option (\<lambda>x. case x of Thread t \<Rightarrow> Thread (woken r t) | _ \<Rightarrow> x) (objs s b) else objs s b)"
    and "s'\<lparr>queue := queue s, linked := linked s, objs := objs s\<rparr> = s"
proof -
  note w = assms [unfolded wakes_def]
  from w show "queue s q = ws @ queue s' q" by (rule conjunct1)
  from w have "queue s' = (queue s)(q := queue s' q, ThreadList := queue s ThreadList @ ws)" by blast
  then show "queue s' p = (if p = ThreadList then queue s p @ ws else if p = q then queue s' p else queue s p)"
    by (metis fun_upd_apply)
  from w show "s'\<lparr>queue := queue s, linked := linked s, objs := objs s\<rparr> = s" by blast
  from w have "linked s' = (\<lambda>a. if a \<in> set ws then Some ThreadList else linked s a)" by blast
  then show "linked s' b = (if b \<in> set ws then Some ThreadList else linked s b)" by simp
  from w have "objs s' = (\<lambda>a. if a \<in> set ws then map_option (\<lambda>x. case x of Thread t \<Rightarrow> Thread (woken r t) | _ \<Rightarrow> x) (objs s a)
                    else objs s a)" by blast
  then show "objs s' b = (if b \<in> set ws
      then map_option (\<lambda>x. case x of Thread t \<Rightarrow> Thread (woken r t) | _ \<Rightarrow> x) (objs s b) else objs s b)" by simp
qed

definition thread_frame :: "qid \<Rightarrow> u32 \<Rightarrow> kst \<Rightarrow> kst \<Rightarrow> bool" where
  "thread_frame q r s s' \<longleftrightarrow> (\<exists>ws. wakes ws q r s s')"

lemma threadSignal_first:
  assumes "threads_ok q s" "queue s q = a # xs"
  shows "\<exists>s'. threadSignal a r s = Inr s' \<and> threads_ok q s' \<and> queue s' q = xs \<and> thread_frame q r s s'"
proof -
  have q: "q \<noteq> ThreadList" "queues_ok s" using assms by (auto simp: threads_ok_def wait_queue_def)
  from assms obtain t where t: "a \<noteq> 0" "objs s a = Some (Thread t)" "th_blocked t" "th_process t \<noteq> 0"
    by (auto simp: threads_ok_def blocked_thread_iff)
  have l: "linked s a = Some q" using assms(2) q(2) queues_ok_linked [of s a q] by simp
  let ?s = "set_thread a (woken r t) s"
  let ?s' = "link_tail ThreadList a (unlink a ?s)"
  have "threadSignal a r s = Inr ?s'"
    using t l get_thread_iff [of a s t]
    by (simp add: threadSignal_def ll_remove_obj_def ll_add_tail_obj_def set_thread_def woken_def unlink_def)
  moreover have ok: "queues_ok ?s'"
    using q(2) l by (intro queues_ok_link_tail queues_ok_unlink)
      (auto simp: queues_ok_def set_thread_def unlink_def split: option.split)
  moreover have xs: "queue ?s' q = xs" "a \<notin> set xs"
    using q assms(2) l queues_ok_distinct [OF q(2), of q]
    by (auto simp: link_tail_def unlink_def set_thread_def)
  moreover have "threads_ok q ?s'"
    using assms ok xs by (auto simp: threads_ok_def blocked_thread_iff link_tail_def unlink_def set_thread_def
      split: option.splits)
  moreover have "wakes [a] q r s ?s'"
    using q assms(2) l t xs
    by (auto simp: wakes_def link_tail_def unlink_def set_thread_def fun_eq_iff set_obj_def)
  ultimately show ?thesis by (auto simp: thread_frame_def)
qed

lemma thread_frame_refl: "threads_ok q s \<Longrightarrow> thread_frame q r s s"
  unfolding thread_frame_def by (rule exI [of _ "[]"]) (simp add: wakes_def fun_eq_iff)

lemma wakes_trans:
  assumes "threads_ok q s" "wakes ws q r s t" "wakes us q r t u"
  shows "wakes (ws @ us) q r s u"
proof -
  have q: "q \<noteq> ThreadList" using assms(1) by (auto simp: threads_ok_def wait_queue_def)
  have "distinct (queue s q)" using assms(1) by (auto simp: threads_ok_def queues_ok_def)
  then have dis: "set ws \<inter> set us = {}" using assms(2,3) by (auto simp: wakes_def)
  show ?thesis unfolding wakes_def
  proof (intro conjI)
    show "queue s q = (ws @ us) @ queue u q" using assms(2,3) by (simp add: wakes_def)
    have "queue u p = (if p = ThreadList then queue t p @ us else if p = q then queue u p else queue t p)" for p
      by (rule wakesD(2) [OF assms(3)])
    moreover have "queue t p = (if p = ThreadList then queue s p @ ws else if p = q then queue t p else queue s p)" for p
      by (rule wakesD(2) [OF assms(2)])
    ultimately show "queue u = (queue s)(q := queue u q, ThreadList := queue s ThreadList @ ws @ us)"
      using q by (intro ext) (metis append.assoc fun_upd_apply)
    show "linked u = (\<lambda>a. if a \<in> set (ws @ us) then Some ThreadList else linked s a)"
      using assms(2,3) by (auto simp: wakes_def)
    show "objs u = (\<lambda>a. if a \<in> set (ws @ us)
        then map_option (\<lambda>x. case x of Thread t \<Rightarrow> Thread (woken r t) | _ \<Rightarrow> x) (objs s a) else objs s a)"
      using assms(2,3) dis by (fastforce simp: wakes_def)
    have "u\<lparr>queue := queue t, linked := linked t, objs := objs t\<rparr> = t"
      "t\<lparr>queue := queue s, linked := linked s, objs := objs s\<rparr> = s"
      using assms(2,3) by (auto simp: wakes_def)
    then show "u\<lparr>queue := queue s, linked := linked s, objs := objs s\<rparr> = s"
      by (cases s, cases t, cases u) simp
  qed
qed

interpretation thr: waker threadSignal threads_ok thread_frame
proof
  show "threads_ok q s \<Longrightarrow> queue s q = a # xs \<Longrightarrow>
      \<exists>s'. threadSignal a r s = Inr s' \<and> threads_ok q s' \<and> queue s' q = xs \<and> thread_frame q r s s'" for q s a xs r
    by (rule threadSignal_first)
  show "threads_ok q s \<Longrightarrow> thread_frame q r s s" for q r s
    by (rule thread_frame_refl)
  show "threads_ok q s \<Longrightarrow> thread_frame q r s t \<Longrightarrow> thread_frame q r t u \<Longrightarrow> thread_frame q r s u" for q r s t u
    using wakes_trans unfolding thread_frame_def by blast
qed

end
