(* ===== verification/Timer.thy ===== *)
theory Timer
  imports Thread
begin

text \<open>
  Timer objects (\<^verbatim>\<open>process/timer.c\<close>). Active timers are linked into \<open>TimerList\<close>, sorted by
  the time they expire. Time stamps are 64-bit and the number of expired intervals is a 32-bit
  product in the source; both are kept at their width.
\<close>

unbundle bit_operations_syntax

definition TIMER_INTERRUPT_DELTA :: u64 where "TIMER_INTERRUPT_DELTA = 12"
definition TIMER_INTERRUPT_FREQUENCY :: u32 where "TIMER_INTERRUPT_FREQUENCY = 82"

definition set_timer :: "addr \<Rightarrow> timer \<Rightarrow> kst \<Rightarrow> kst" where
  "set_timer a t s = set_obj a (Timer t) s"

definition timerDeactivate :: "addr \<Rightarrow> kst \<Rightarrow> kst kres" where
  "timerDeactivate a s =
     kbind (get_timer a s) (\<lambda>t.
       if active t then kbind (ll_remove_obj a s) (\<lambda>s. Inr (set_timer a (t\<lparr>active := False\<rparr>) s))
       else Inr s)"

text \<open>The position behind the last timer that expires no later, as the loop of \<^verbatim>\<open>__timerActivate\<close> finds it;
  \<open>ll_add_before\<close> in front of the element found, or of the list head.\<close>

primrec timer_position :: "addr list \<Rightarrow> u64 \<Rightarrow> kst \<Rightarrow> nat kres" where
  "timer_position [] time s = Inr 0"
| "timer_position (c # cs) time s =
     kbind (get_timer c s) (\<lambda>x.
       if timeout x > time then Inr 0 else kbind (timer_position cs time s) (\<lambda>n. Inr (Suc n)))"

definition ll_add_before_obj :: "qid \<Rightarrow> nat \<Rightarrow> addr \<Rightarrow> kst \<Rightarrow> kst kres" where
  "ll_add_before_obj q n a s =
     (if linked s a \<noteq> None then Inl MemFault
      else Inr (s\<lparr>queue := (queue s)(q := take n (queue s q) @ a # drop n (queue s q)),
                  linked := (linked s)(a \<mapsto> q)\<rparr>))"

definition timerActivate :: "addr \<Rightarrow> kst \<Rightarrow> kst kres" where
  "timerActivate a s =
     kbind (get_timer a s) (\<lambda>t.
       if \<not> active t
       then kbind (timer_position (queue s TimerList) (timeout t) s) (\<lambda>n.
            kbind (ll_add_before_obj TimerList n a s) (\<lambda>s.
            Inr (set_timer a (t\<lparr>active := True\<rparr>) s)))
       else Inr s)"

definition timerUpdate :: "addr \<Rightarrow> kst \<Rightarrow> kst kres" where
  "timerUpdate a s = kbind (timerDeactivate a s) (timerActivate a)"

definition timerCreate :: "bool \<Rightarrow> kst \<Rightarrow> kst \<times> addr" where
  "timerCreate wakeupAll s =
     (let (s, a) = heapAlloc_obj s
      in if a = 0 then (s, 0)
         else ((objectInit a (Timer \<lparr>active = False, timeout = 0, interval = 0, ti_wakeupAll = wakeupAll\<rparr>) s)
                 \<lparr>queue := (queue s)(Waiters a := [])\<rparr>, a))"

definition timerDestroy :: "signalFun \<Rightarrow> addr \<Rightarrow> kst \<Rightarrow> kst kres" where
  "timerDestroy sig a s =
     kbind (timerDeactivate a s) (\<lambda>s.
     kbind (queueWakeup sig (Waiters a) True (- 1) s) (\<lambda>s.
     kassert (queue s (Waiters a) = []) (Inr (heapFree_obj a s))))"

definition timerShutdown :: "signalFun \<Rightarrow> addr \<Rightarrow> u32 \<Rightarrow> kst \<Rightarrow> kst kres" where
  "timerShutdown sig a mode s = kbind (timerDeactivate a s) (queueWakeup sig (Waiters a) True (- 1))"

definition timerGetStatus :: "addr \<Rightarrow> u32 \<Rightarrow> kst \<Rightarrow> u32 kres" where
  "timerGetStatus a mode s =
     kbind (get_timer a s) (\<lambda>t. Inr (if interval t \<noteq> 0 then - 1 else if active t then 0 else 1))"

text \<open>\<^verbatim>\<open>eventCount = (now - timeout) / interval + 1\<close>, a 64-bit division cut to 32 bits, and the time
  stamp advanced by the 32-bit product.\<close>

definition expired_count :: "u64 \<Rightarrow> timer \<Rightarrow> u32" where
  "expired_count now t = ucast ((now - timeout t) div ucast (interval t) + 1)"

definition advance_timeout :: "u64 \<Rightarrow> timer \<Rightarrow> timer" where
  "advance_timeout now t = t\<lparr>timeout := timeout t + ucast (expired_count now t * interval t)\<rparr>"

definition timerWait :: "addr \<Rightarrow> u32 \<Rightarrow> kst \<Rightarrow> (kst \<times> waitResult) kres" where
  "timerWait a mode s =
     kbind (get_timer a s) (\<lambda>t.
       let now = currentKernelTimestamp s
       in if timeout t > now then kbind (timerActivate a s) (\<lambda>s. Inr (s, WaitOn (Waiters a)))
          else if interval t \<noteq> 0
               then kbind (timerUpdate a (set_timer a (advance_timeout now t) s)) (\<lambda>s.
                    Inr (s, Result (expired_count now t)))
               else kbind (timerDeactivate a s) (\<lambda>s. Inr (s, Result (if active t then 1 else 0))))"

definition timerSignal :: "signalFun \<Rightarrow> addr \<Rightarrow> u32 \<Rightarrow> kst \<Rightarrow> kst kres" where
  "timerSignal sig a result s =
     kbind (get_timer a s) (\<lambda>t. queueWakeup sig (Waiters a) (ti_wakeupAll t) 0 s)"

text \<open>\<^verbatim>\<open>struct timerInfo\<close> as bytes: eight for the timeout, four for the interval.\<close>

primrec le_bytes :: "u8 list \<Rightarrow> nat" where
  "le_bytes [] = 0"
| "le_bytes (b # bs) = unat b + 256 * le_bytes bs"

definition timerWrite :: "addr \<Rightarrow> u8 list \<Rightarrow> u32 \<Rightarrow> kst \<Rightarrow> (kst \<times> u32) kres" where
  "timerWrite a buf len s =
     kbind (get_timer a s) (\<lambda>t.
       if len \<noteq> 12 then Inr (s, - 1)
       else if length buf < 12 then Inl MemFault
       else kbind (timerUpdate a (set_timer a
                     (t\<lparr>timeout := currentKernelTimestamp s + word_of_nat (le_bytes (take 8 buf)),
                        interval := word_of_nat (le_bytes (take 4 (drop 8 buf)))\<rparr>) s)) (\<lambda>s.
            Inr (s, len)))"

text \<open>The loop of \<^verbatim>\<open>timer_irq\<close>: handle the first timer of the list while it has expired.\<close>

primrec irq_loop :: "nat \<Rightarrow> signalFun \<Rightarrow> kst \<Rightarrow> kst kres" where
  "irq_loop 0 sig s = Inl OutOfFuel"
| "irq_loop (Suc n) sig s =
     (case queue s TimerList of
        [] \<Rightarrow> Inr s
      | a # _ \<Rightarrow>
          kbind (get_timer a s) (\<lambda>t.
            let now = currentKernelTimestamp s
            in if timeout t > now then Inr s
               else kbind (if interval t \<noteq> 0
                           then timerUpdate a (set_timer a (advance_timeout now t) s)
                           else timerDeactivate a s) (\<lambda>s.
                    kbind (queueWakeup sig (Waiters a) (ti_wakeupAll t)
                             (if interval t \<noteq> 0 then expired_count now t else 1) s) (\<lambda>s.
                    irq_loop n sig s))))"

definition timer_irq :: "nat \<Rightarrow> signalFun \<Rightarrow> kst \<Rightarrow> (kst \<times> intStatus) kres" where
  "timer_irq fuel sig s =
     kbind (irq_loop fuel sig (s\<lparr>currentKernelTimestamp := currentKernelTimestamp s + TIMER_INTERRUPT_DELTA\<rparr>)) (\<lambda>s.
     Inr (s, INTERRUPT_YIELD))"

definition timerGetTimestamp :: "kst \<Rightarrow> u64" where
  "timerGetTimestamp s = currentKernelTimestamp s"

section \<open>The timer list is sorted\<close>

lemma get_timer_iff: "get_timer a s = Inr x \<longleftrightarrow> a \<noteq> 0 \<and> objs s a = Some (Timer x)"
  by (auto simp: get_timer_def object_at_def kbind_eq_Inr split: if_splits option.splits kobj.splits)

definition time_of :: "kst \<Rightarrow> addr \<Rightarrow> u64" where
  "time_of s a = (case objs s a of Some (Timer t) \<Rightarrow> timeout t | _ \<Rightarrow> 0)"

text \<open>Exactly the active timers are linked into the timer list, and inactive ones nowhere.\<close>

definition timers_linked :: "kst \<Rightarrow> bool" where
  "timers_linked s \<longleftrightarrow> queues_ok s \<and>
     (\<forall>a. linked s a = Some TimerList \<longrightarrow> a \<noteq> 0 \<and> (\<exists>t. objs s a = Some (Timer t) \<and> active t)) \<and>
     (\<forall>a t. objs s a = Some (Timer t) \<longrightarrow> a \<noteq> 0 \<and> linked s a = (if active t then Some TimerList else None))"

definition timers_ok :: "kst \<Rightarrow> bool" where
  "timers_ok s \<longleftrightarrow> timers_linked s \<and> sorted (map (time_of s) (queue s TimerList))"

lemma time_of_other: "objs t b = objs s b \<Longrightarrow> time_of t b = time_of s b"
  by (simp add: time_of_def)

lemma map_time_of_cong: "(\<And>b. b \<in> set xs \<Longrightarrow> objs t b = objs s b) \<Longrightarrow> map (time_of t) xs = map (time_of s) xs"
  by (simp add: time_of_def)

lemma map_time_of_upd: "objs t = (objs s)(a \<mapsto> x) \<Longrightarrow> a \<notin> set xs \<Longrightarrow> map (time_of t) xs = map (time_of s) xs"
  by (rule map_time_of_cong) auto

lemma timerDeactivate_spec:
  assumes "timers_linked s" "objs s a = Some (Timer t)"
    "sorted (map (time_of s) (remove1 a (queue s TimerList)))"
  shows "\<exists>s'. timerDeactivate a s = Inr s' \<and> timers_ok s' \<and> objs s' = (objs s)(a \<mapsto> Timer (t\<lparr>active := False\<rparr>)) \<and>
    queue s' = (queue s)(TimerList := remove1 a (queue s TimerList)) \<and>
    s'\<lparr>queue := queue s, linked := linked s, objs := objs s\<rparr> = s"
proof (cases "active t")
  case True
  then have l: "linked s a = Some TimerList" "a \<noteq> 0" "queues_ok s"
    using assms(1,2) by (auto simp: timers_linked_def)
  let ?s = "set_timer a (t\<lparr>active := False\<rparr>) (unlink a s)"
  have run: "timerDeactivate a s = Inr ?s"
    using l assms(2) True get_timer_iff [of a s t] by (simp add: timerDeactivate_def ll_remove_obj_def)
  have fields: "objs ?s = (objs s)(a \<mapsto> Timer (t\<lparr>active := False\<rparr>))" "linked ?s = (linked s)(a := None)"
    "queue ?s = (queue s)(TimerList := remove1 a (queue s TimerList))"
    using l by (simp_all add: set_timer_def unlink_def)
  have "queues_ok ?s" using queues_ok_unlink [OF l(3), of a] by (simp add: queues_ok_def set_timer_def)
  then have "timers_linked ?s"
    using assms(1,2) unfolding timers_linked_def fields by (auto split: if_splits)
  moreover have "a \<notin> set (remove1 a (queue s TimerList))"
    using queues_ok_distinct [OF l(3), of TimerList] by simp
  then have "map (time_of ?s) (remove1 a (queue s TimerList)) = map (time_of s) (remove1 a (queue s TimerList))"
    by (intro map_time_of_cong) (auto simp: fields)
  then have "sorted (map (time_of ?s) (queue ?s TimerList))" using assms(3) fields(3) by (metis fun_upd_same)
  ultimately have "timers_ok ?s" by (simp add: timers_ok_def)
  then show ?thesis using run fields l by (auto simp: set_timer_def set_obj_def unlink_def)
next
  case False
  then have l: "linked s a = None" "a \<noteq> 0" "queues_ok s" using assms(1,2) by (auto simp: timers_linked_def)
  then have "a \<notin> set (queue s TimerList)" by (simp add: queues_ok_linked)
  then have "remove1 a (queue s TimerList) = queue s TimerList" by (rule remove1_idem)
  moreover have "t\<lparr>active := False\<rparr> = t" using False by (cases t) simp
  ultimately show ?thesis
    using l False assms get_timer_iff [of a s t]
    by (simp add: timerDeactivate_def timers_ok_def fun_upd_idem)
qed

lemma timer_position_spec:
  assumes "\<forall>b\<in>set xs. b \<noteq> 0 \<and> (\<exists>t. objs s b = Some (Timer t))" "sorted (map (time_of s) xs)"
  shows "\<exists>n\<le>length xs. timer_position xs time s = Inr n \<and>
    (\<forall>b\<in>set (take n xs). time_of s b \<le> time) \<and> (\<forall>b\<in>set (drop n xs). time < time_of s b)"
  using assms
proof (induction xs)
  case (Cons b xs)
  then obtain t where t: "get_timer b s = Inr t" "time_of s b = timeout t"
    by (auto simp: get_timer_iff time_of_def)
  show ?case
  proof (cases "timeout t > time")
    case True
    then have "\<forall>c\<in>set (b # xs). time < time_of s c" using Cons.prems(2) t(2) by auto
    with True t(1) show ?thesis by (intro exI [of _ 0]) simp
  next
    case False
    from Cons obtain n where "n \<le> length xs" "timer_position xs time s = Inr n"
      "\<forall>b\<in>set (take n xs). time_of s b \<le> time" "\<forall>b\<in>set (drop n xs). time < time_of s b" by auto
    with False t show ?thesis by (intro exI [of _ "Suc n"]) auto
  qed
qed simp

lemma timerActivate_spec:
  assumes "timers_ok s" "objs s a = Some (Timer t)"
  shows "\<exists>s'. timerActivate a s = Inr s' \<and> timers_ok s' \<and> objs s' = (objs s)(a \<mapsto> Timer (t\<lparr>active := True\<rparr>)) \<and>
    set (queue s' TimerList) = insert a (set (queue s TimerList)) \<and>
    queue s' = (queue s)(TimerList := queue s' TimerList) \<and>
    s'\<lparr>queue := queue s, linked := linked s, objs := objs s\<rparr> = s"
proof (cases "active t")
  case True
  then have "a \<in> set (queue s TimerList)" "a \<noteq> 0"
    using assms by (auto simp: timers_ok_def timers_linked_def queues_ok_linked)
  moreover have "t\<lparr>active := True\<rparr> = t" using True by (cases t) simp
  ultimately show ?thesis
    using True assms get_timer_iff [of a s t] by (auto simp: timerActivate_def fun_upd_idem)
next
  case False
  then have l: "linked s a = None" "a \<noteq> 0" "queues_ok s"
    using assms by (auto simp: timers_ok_def timers_linked_def)
  let ?q = "queue s TimerList"
  have "\<forall>b\<in>set ?q. b \<noteq> 0 \<and> (\<exists>t. objs s b = Some (Timer t))" "sorted (map (time_of s) ?q)"
    using assms(1) by (auto simp: timers_ok_def timers_linked_def queues_ok_linked)
  then obtain n where n: "n \<le> length ?q" "timer_position ?q (timeout t) s = Inr n"
    "\<forall>b\<in>set (take n ?q). time_of s b \<le> timeout t" "\<forall>b\<in>set (drop n ?q). timeout t < time_of s b"
    using timer_position_spec by blast
  let ?r = "take n ?q @ a # drop n ?q"
  let ?s = "set_timer a (t\<lparr>active := True\<rparr>)
    (s\<lparr>queue := (queue s)(TimerList := ?r), linked := (linked s)(a \<mapsto> TimerList)\<rparr>)"
  have run: "timerActivate a s = Inr ?s"
    using l n(2) False assms(2) get_timer_iff [of a s t] by (simp add: timerActivate_def ll_add_before_obj_def)
  have fields: "objs ?s = (objs s)(a \<mapsto> Timer (t\<lparr>active := True\<rparr>))" "linked ?s = (linked s)(a \<mapsto> TimerList)"
    "queue ?s = (queue s)(TimerList := ?r)"
    by (simp_all add: set_timer_def)
  have notin: "a \<notin> set ?q" using l queues_ok_linked by auto
  have set_r: "set ?r = insert a (set ?q)" by (metis append_take_drop_id list.simps(15) set_append Un_insert_right)
  have "distinct ?q" using l(3) by (rule queues_ok_distinct)
  then have "distinct (take n ?q @ drop n ?q)" by simp
  then have "distinct ?r" using notin by (auto dest: in_set_takeD in_set_dropD simp del: append_take_drop_id)
  then have "queues_ok ?s"
    using l set_r unfolding queues_ok_def fields by auto
  then have "timers_linked ?s"
    using assms unfolding timers_ok_def timers_linked_def fields by (auto split: if_splits)
  moreover have "map (time_of ?s) (take n ?q) = map (time_of s) (take n ?q)"
    "map (time_of ?s) (drop n ?q) = map (time_of s) (drop n ?q)"
    using notin by (auto intro!: map_time_of_upd [OF fields(1)] simp del: map_eq_conv dest: in_set_takeD in_set_dropD)
  then have "map (time_of ?s) ?r = map (time_of s) (take n ?q) @ timeout t # map (time_of s) (drop n ?q)"
    using fields(1) by (simp add: time_of_def [of ?s a])
  moreover have "sorted (map (time_of s) (take n ?q @ drop n ?q))" using assms(1) by (simp add: timers_ok_def)
  then have "sorted (map (time_of s) (take n ?q) @ timeout t # map (time_of s) (drop n ?q))"
    using n(3,4) by (fastforce simp: sorted_append less_imp_le simp del: append_take_drop_id)
  ultimately have "timers_ok ?s" unfolding timers_ok_def fields(3) fun_upd_same by argo
  then show ?thesis using run set_r fields by (auto simp: set_timer_def set_obj_def)
qed

lemma timerUpdate_spec:
  assumes "timers_linked s" "objs s a = Some (Timer t)"
    "sorted (map (time_of s) (remove1 a (queue s TimerList)))"
  shows "\<exists>s'. timerUpdate a s = Inr s' \<and> timers_ok s' \<and> objs s' = (objs s)(a \<mapsto> Timer (t\<lparr>active := True\<rparr>)) \<and>
    set (queue s' TimerList) = insert a (set (queue s TimerList)) \<and>
    queue s' = (queue s)(TimerList := queue s' TimerList) \<and>
    s'\<lparr>queue := queue s, linked := linked s, objs := objs s\<rparr> = s"
proof -
  obtain u where u: "timerDeactivate a s = Inr u" "timers_ok u" "objs u = (objs s)(a \<mapsto> Timer (t\<lparr>active := False\<rparr>))"
    "queue u = (queue s)(TimerList := remove1 a (queue s TimerList))"
    "u\<lparr>queue := queue s, linked := linked s, objs := objs s\<rparr> = s"
    using timerDeactivate_spec [OF assms] by blast
  obtain v where v: "timerActivate a u = Inr v" "timers_ok v"
    "objs v = (objs u)(a \<mapsto> Timer (t\<lparr>active := True\<rparr>))"
    "set (queue v TimerList) = insert a (set (queue u TimerList))"
    "queue v = (queue u)(TimerList := queue v TimerList)"
    "v\<lparr>queue := queue u, linked := linked u, objs := objs u\<rparr> = u"
    using timerActivate_spec [OF u(2), of a "t\<lparr>active := False\<rparr>"] u(3) by auto
  have "distinct (queue s TimerList)" using assms(1) by (simp add: timers_linked_def queues_ok_def)
  then have "set (queue v TimerList) = insert a (set (queue s TimerList))" using v(4) u(4) by auto
  moreover have "queue v = (queue s)(TimerList := queue v TimerList)"
    using v(5) u(4) by (metis fun_upd_upd)
  moreover have "v\<lparr>queue := queue s, linked := linked s, objs := objs s\<rparr> = s"
    using u(5) v(6) by (cases s, cases u, cases v) simp
  ultimately show ?thesis using u v by (simp add: timerUpdate_def)
qed

section \<open>The timer interrupt\<close>

text \<open>Advancing a periodic timer moves it behind the present, as long as the 32-bit product of the
  source does not wrap.\<close>

definition no_wrap :: "u64 \<Rightarrow> timer \<Rightarrow> bool" where
  "no_wrap now t \<longleftrightarrow> interval t \<noteq> 0 \<longrightarrow> timeout t \<le> now \<longrightarrow>
     unat (now - timeout t) + unat (interval t) < 2 ^ 32 \<and> unat now + unat (interval t) < 2 ^ 64"

lemma advance_timeout_spec:
  assumes "timeout t \<le> now" "interval t \<noteq> 0" "no_wrap now t"
  shows "now < timeout (advance_timeout now t)"
proof -
  let ?e = "unat (now - timeout t)" and ?i = "unat (interval t)"
  have e: "?e = unat now - unat (timeout t)" "unat (timeout t) \<le> unat now"
    using assms(1) by (auto simp: unat_sub_small word_le_nat_alt)
  have small: "?e + ?i < 2 ^ 32" "unat now + ?i < 2 ^ 64" using assms by (auto simp: no_wrap_def)
  have i: "?i \<noteq> 0" using assms(2) by (simp add: unat_eq_0)
  have "unat ((now - timeout t) div ucast (interval t)) = ?e div ?i"
    by (simp add: unat_div_distrib unsigned_ucast_eq take_bit_nat_eq_self unat_u32 [THEN less_trans])
  moreover have "?e div ?i + 1 < 2 ^ 32"
    using small(1) i div_le_dividend [of ?e ?i] by linarith
  ultimately have c: "unat (expired_count now t) = ?e div ?i + 1"
    by (simp add: expired_count_def unat_ucast_take unat_word_ariths)
  have le: "(?e div ?i + 1) * ?i \<le> ?e + ?i" using div_times_less_eq_dividend [of ?e ?i] by (simp add: add_mult_distrib)
  have less: "?e < (?e div ?i + 1) * ?i"
    using i dividend_less_div_times [of ?i ?e] by (simp add: add_mult_distrib)
  have "LENGTH(32) = 32" by simp
  moreover have "(?e div ?i + 1) * ?i < 2 ^ 32" using le small(1) by (rule le_less_trans)
  ultimately have p: "unat (expired_count now t * interval t) = (?e div ?i + 1) * ?i"
    unfolding unat_word_ariths(2) c by (metis mod_less)
  then have "unat (timeout t + ucast (expired_count now t * interval t)) = unat (timeout t) + (?e div ?i + 1) * ?i"
    using e small(2) le unat_u32 [of "expired_count now t * interval t"]
    by (subst unat_add_small) (auto simp: unsigned_ucast_eq take_bit_nat_eq_self)
  then show ?thesis using less e by (simp add: advance_timeout_def word_less_nat_alt)
qed

text \<open>Every timer is waited for by blocked threads only.\<close>

definition waiters_ok :: "kst \<Rightarrow> bool" where
  "waiters_ok s \<longleftrightarrow> (\<forall>a t. objs s a = Some (Timer t) \<longrightarrow> threads_ok (Waiters a) s)"

definition wraps_ok :: "kst \<Rightarrow> bool" where
  "wraps_ok s \<longleftrightarrow> (\<forall>a t. objs s a = Some (Timer t) \<longrightarrow> no_wrap (currentKernelTimestamp s) t)"

definition expired :: "kst \<Rightarrow> addr set" where
  "expired s = {a \<in> set (queue s TimerList). time_of s a \<le> currentKernelTimestamp s}"

text \<open>Two states with the same timers.\<close>

definition same_timers :: "kst \<Rightarrow> kst \<Rightarrow> bool" where
  "same_timers s t \<longleftrightarrow> queue t TimerList = queue s TimerList \<and> currentKernelTimestamp t = currentKernelTimestamp s \<and>
     (\<forall>b x. objs t b = Some (Timer x) \<longleftrightarrow> objs s b = Some (Timer x))"

lemma same_timers_time:
  assumes "same_timers s t"
  shows "time_of t = time_of s"
proof
  fix b
  show "time_of t b = time_of s b"
  proof (cases "\<exists>x. objs s b = Some (Timer x)")
    case False
    moreover from this have "\<nexists>x. objs t b = Some (Timer x)" using assms by (simp add: same_timers_def)
    ultimately show ?thesis by (auto simp: time_of_def split: option.splits kobj.splits)
  next
    case True
    then obtain x where "objs s b = Some (Timer x)" by blast
    moreover from this have "objs t b = Some (Timer x)" using assms by (simp add: same_timers_def)
    ultimately show ?thesis by (simp add: time_of_def)
  qed
qed

lemma wakes_timers:
  assumes "timers_ok s" "waiters_ok s" "wraps_ok s" "objs s a = Some (Timer x)"
    "thread_frame (Waiters a) r s t" "queues_ok t"
  shows "timers_ok t \<and> waiters_ok t \<and> wraps_ok t \<and> same_timers s t"
proof -
  obtain ws where w: "wakes ws (Waiters a) r s t" using assms(5) by (auto simp: thread_frame_def)
  have sub: "set ws \<subseteq> set (queue s (Waiters a))" using wakesD(1) [OF w] by auto
  have "threads_ok (Waiters a) s" using assms(2,4) by (auto simp: waiters_ok_def)
  then have th: "\<exists>y. objs s b = Some (Thread y)" if "b \<in> set ws" for b
    using sub that by (auto simp: threads_ok_def blocked_thread_iff)
  note q = wakesD(2) [OF w] and l = wakesD(3) [OF w] and objs = wakesD(4) [OF w]
  have timer: "objs t b = Some (Timer y) \<longleftrightarrow> objs s b = Some (Timer y)" for b y
    using th [of b] by (auto simp: objs)
  have now: "currentKernelTimestamp t = currentKernelTimestamp s"
    using wakesD(5) [OF w] by (cases s, cases t) simp
  have same: "same_timers s t" using q [of TimerList] timer now by (simp add: same_timers_def)
  have notin: "b \<notin> set ws" if "objs s b = Some (Timer y)" for b y using th that by force
  have "timers_linked t"
    unfolding timers_linked_def
  proof (intro conjI allI impI)
    show "queues_ok t" by fact
    fix b
    { assume "linked t b = Some TimerList"
      then have "linked s b = Some TimerList" by (auto simp: l split: if_splits)
      then show "b \<noteq> 0" "\<exists>y. objs t b = Some (Timer y) \<and> active y"
        using assms(1) timer by (auto simp: timers_ok_def timers_linked_def) }
    fix y assume b: "objs t b = Some (Timer y)"
    then have "objs s b = Some (Timer y)" by (simp add: timer)
    then show "b \<noteq> 0" "linked t b = (if active y then Some TimerList else None)"
      using assms(1) notin by (auto simp: timers_ok_def timers_linked_def l)
  qed
  then have ok: "timers_ok t"
    using assms(1) q [of TimerList] same_timers_time [OF same] by (simp add: timers_ok_def)
  have "threads_ok (Waiters b) t" if "objs t b = Some (Timer y)" for b y
  proof -
    have tb: "threads_ok (Waiters b) s" using that timer assms(2) by (auto simp: waiters_ok_def)
    have rest: "set (queue t (Waiters b)) \<subseteq> set (queue s (Waiters b)) - set ws"
    proof (cases "b = a")
      case True
      have "distinct (queue s (Waiters a))" using tb True by (simp add: threads_ok_def queues_ok_def)
      then show ?thesis using wakesD(1) [OF w] True by auto
    next
      case False
      then show ?thesis using sub q [of "Waiters b"] tb by (auto simp: threads_ok_def queues_ok_linked)
    qed
    then show ?thesis using tb assms(6) by (auto simp: threads_ok_def blocked_thread_iff objs subset_iff)
  qed
  then have "waiters_ok t" by (simp add: waiters_ok_def)
  moreover have "wraps_ok t" using assms(3) timer now by (simp add: wraps_ok_def)
  ultimately show ?thesis using ok same by blast
qed

lemma timer_step_invs:
  assumes "waiters_ok s" "wraps_ok s" "objs s a = Some (Timer t)" "timers_ok u"
    "objs u = (objs s)(a \<mapsto> Timer t')" "\<And>p. p \<noteq> TimerList \<Longrightarrow> queue u p = queue s p"
    "currentKernelTimestamp u = currentKernelTimestamp s" "no_wrap (currentKernelTimestamp s) t'"
  shows "waiters_ok u \<and> wraps_ok u"
proof
  have "threads_ok (Waiters b) u" if b: "objs u b = Some (Timer x)" for b x
  proof -
    have "threads_ok (Waiters b) s" using assms(1,3,5) b by (auto simp: waiters_ok_def split: if_splits)
    moreover have "queues_ok u" using assms(4) by (simp add: timers_ok_def timers_linked_def)
    ultimately show ?thesis
      using assms(3,5) assms(6) [of "Waiters b"] by (force simp: threads_ok_def blocked_thread_iff)
  qed
  then show "waiters_ok u" by (simp add: waiters_ok_def)
  show "wraps_ok u" using assms(2,5,7,8) by (simp add: wraps_ok_def)
qed

locale thread_waker = waker sig threads_ok thread_frame
  for sig :: signalFun
begin

lemma wakeup_timers:
  assumes "timers_ok s" "waiters_ok s" "wraps_ok s" "objs s a = Some (Timer x)"
  shows "\<exists>t. queueWakeup sig (Waiters a) all r s = Inr t \<and> timers_ok t \<and> waiters_ok t \<and> wraps_ok t \<and> same_timers s t"
proof -
  have "threads_ok (Waiters a) s" using assms(2,4) by (simp add: waiters_ok_def)
  from queueWakeup_spec [OF this, of all r] obtain t where
    "queueWakeup sig (Waiters a) all r s = Inr t" "threads_ok (Waiters a) t" "thread_frame (Waiters a) r s t" by blast
  with wakes_timers [OF assms] show ?thesis by (auto simp: threads_ok_def)
qed

text \<open>One step of the interrupt handler: the first timer has expired and is handled.\<close>

lemma handle_timer:
  assumes "timers_ok s" "waiters_ok s" "wraps_ok s" "objs s a = Some (Timer t)" "a \<in> expired s"
  defines "now \<equiv> currentKernelTimestamp s"
  shows "\<exists>u. (if interval t \<noteq> 0 then timerUpdate a (set_timer a (advance_timeout now t) s)
      else timerDeactivate a s) = Inr u \<and> timers_ok u \<and> waiters_ok u \<and> wraps_ok u \<and>
    (\<exists>t'. objs u a = Some (Timer t')) \<and> expired u = expired s - {a} \<and> currentKernelTimestamp u = now"
proof -
  have ex: "a \<in> set (queue s TimerList)" "timeout t \<le> now"
    using assms(4,5) by (auto simp: expired_def time_of_def now_def)
  have link: "timers_linked s" "queues_ok s" "linked s a = Some TimerList" "active t" "a \<noteq> 0"
    using assms(1,4) ex by (auto simp: timers_ok_def timers_linked_def queues_ok_linked split: if_splits)
  have dist: "distinct (queue s TimerList)" using link(2) by (rule queues_ok_distinct)
  have srt: "sorted (map (time_of s) (remove1 a (queue s TimerList)))"
    using assms(1) by (simp add: timers_ok_def sorted_map_remove1)
  show ?thesis
  proof (cases "interval t = 0")
    case True
    from timerDeactivate_spec [OF link(1) assms(4) srt] obtain u where
      u: "timerDeactivate a s = Inr u" "timers_ok u" "objs u = (objs s)(a \<mapsto> Timer (t\<lparr>active := False\<rparr>))"
      "queue u = (queue s)(TimerList := remove1 a (queue s TimerList))"
      "u\<lparr>queue := queue s, linked := linked s, objs := objs s\<rparr> = s" by blast
    have n: "currentKernelTimestamp u = now" using u(5) by (cases s, cases u) (simp add: now_def)
    have "expired u = expired s - {a}"
      using dist n by (auto simp: expired_def u(3,4) now_def time_of_def)
    moreover have "waiters_ok u \<and> wraps_ok u"
      using assms(2-4) u(2-4) n True by (intro timer_step_invs [of s a t u]) (auto simp: now_def no_wrap_def)
    ultimately show ?thesis using u n True by auto
  next
    case False
    let ?t = "advance_timeout now t" and ?s = "set_timer a (advance_timeout now t) s"
    have s1: "timers_linked ?s" "objs ?s a = Some (Timer ?t)" "queue ?s = queue s"
      using link by (auto simp: timers_linked_def set_timer_def queues_ok_def advance_timeout_def)
    moreover have "map (time_of ?s) (remove1 a (queue s TimerList)) = map (time_of s) (remove1 a (queue s TimerList))"
      using dist by (intro map_time_of_upd [where a = a and x = "Timer ?t"]) (auto simp: set_timer_def)
    ultimately have "sorted (map (time_of ?s) (remove1 a (queue ?s TimerList)))" using srt by metis
    from timerUpdate_spec [OF s1(1,2) this] obtain u where
      u: "timerUpdate a ?s = Inr u" "timers_ok u" "objs u = (objs ?s)(a \<mapsto> Timer (?t\<lparr>active := True\<rparr>))"
      "set (queue u TimerList) = insert a (set (queue ?s TimerList))"
      "queue u = (queue ?s)(TimerList := queue u TimerList)"
      "u\<lparr>queue := queue ?s, linked := linked ?s, objs := objs ?s\<rparr> = ?s" by blast
    have objs: "objs u = (objs s)(a \<mapsto> Timer (?t\<lparr>active := True\<rparr>))" using u(3) by (simp add: set_timer_def)
    have n: "currentKernelTimestamp u = now"
      using u(6) by (cases s, cases u) (simp add: now_def set_timer_def set_obj_def)
    have late: "now < timeout ?t"
      using advance_timeout_spec [OF ex(2) False] assms(3,4) by (auto simp: wraps_ok_def now_def)
    have q: "queue u p = queue s p" if "p \<noteq> TimerList" for p using u(5) s1(3) that by (metis fun_upd_apply)
    have "waiters_ok u \<and> wraps_ok u"
      using assms(2-4) u(2) objs n late q
      by (intro timer_step_invs [of s a t u]) (auto simp: now_def no_wrap_def)
    moreover have "expired u = expired s - {a}"
      using late n ex(1) by (auto simp: expired_def objs u(4) set_timer_def now_def time_of_def split: if_splits)
    ultimately show ?thesis using u(1,2) objs n False by auto
  qed
qed

lemma irq_loop_spec:
  assumes "timers_ok s" "waiters_ok s" "wraps_ok s" "card (expired s) < n"
  shows "\<exists>u. irq_loop n sig s = Inr u \<and> timers_ok u \<and> expired u = {} \<and>
    currentKernelTimestamp u = currentKernelTimestamp s"
  using assms
proof (induction n arbitrary: s)
  case (Suc n)
  show ?case
  proof (cases "queue s TimerList")
    case Nil
    with Suc.prems show ?thesis by (auto simp: expired_def)
  next
    case (Cons a as)
    then have "linked s a = Some TimerList" using Suc.prems(1)
      by (auto simp: timers_ok_def timers_linked_def queues_ok_linked [symmetric])
    then obtain t where t: "objs s a = Some (Timer t)" "get_timer a s = Inr t"
      using Suc.prems(1) get_timer_iff by (auto simp: timers_ok_def timers_linked_def)
    show ?thesis
    proof (cases "timeout t > currentKernelTimestamp s")
      case True
      have "\<forall>b\<in>set (queue s TimerList). time_of s a \<le> time_of s b"
        using Suc.prems(1) Cons by (auto simp: timers_ok_def)
      then have "expired s = {}" using True t(1) by (force simp: expired_def time_of_def)
      with True t Cons Suc.prems show ?thesis by auto
    next
      case False
      then have ex: "a \<in> expired s" using t(1) Cons by (simp add: expired_def time_of_def)
      let ?c = "if interval t \<noteq> 0 then expired_count (currentKernelTimestamp s) t else 1"
      from handle_timer [OF Suc.prems(1-3) t(1) ex] obtain u t' where
        u: "(if interval t \<noteq> 0 then timerUpdate a (set_timer a (advance_timeout (currentKernelTimestamp s) t) s)
          else timerDeactivate a s) = Inr u" "timers_ok u" "waiters_ok u" "wraps_ok u" "objs u a = Some (Timer t')"
        "expired u = expired s - {a}" "currentKernelTimestamp u = currentKernelTimestamp s" by blast
      from wakeup_timers [OF u(2-5), of "ti_wakeupAll t" ?c] obtain v where
        v: "queueWakeup sig (Waiters a) (ti_wakeupAll t) ?c u = Inr v" "timers_ok v" "waiters_ok v" "wraps_ok v"
        "same_timers u v" by blast
      have now: "currentKernelTimestamp v = currentKernelTimestamp s" "expired v = expired s - {a}"
        using v(5) same_timers_time [OF v(5)] u(6,7) by (auto simp: same_timers_def expired_def)
      have "finite (expired s)" by (simp add: expired_def)
      then have "card (expired v) < n" using now(2) ex Suc.prems(4) card_Diff1_less [of "expired s" a] by simp
      from Suc.IH [OF v(2-4) this] obtain w where
        "irq_loop n sig v = Inr w" "timers_ok w" "expired w = {}" "currentKernelTimestamp w = currentKernelTimestamp s"
        using now(1) by auto
      moreover have "irq_loop (Suc n) sig s = irq_loop n sig v"
        using Cons t(2) False u(1) v(1) by (simp add: Let_def)
      ultimately show ?thesis by auto
    qed
  qed
qed simp

end

section \<open>A periodic timer whose product wraps\<close>

text \<open>If the 32-bit product is zero, handling the timer leaves the state as it was.\<close>

lemma irq_loop_stuck:
  assumes "queue s TimerList = [a]" "objs s a = Some (Timer t)" "a \<noteq> 0" "active t" "linked s a = Some TimerList"
    "interval t \<noteq> 0" "timeout t \<le> currentKernelTimestamp s"
    "expired_count (currentKernelTimestamp s) t * interval t = 0" "queue s (Waiters a) = []"
  shows "irq_loop n sig s = Inl OutOfFuel"
proof (induction n)
  case (Suc n)
  have t: "get_timer a s = Inr t" using assms by (simp add: get_timer_iff)
  have adv: "advance_timeout (currentKernelTimestamp s) t = t"
    using assms(8) by (cases t) (simp add: advance_timeout_def)
  let ?d = "set_timer a (t\<lparr>active := False\<rparr>) (unlink a s)"
  have d: "timerDeactivate a s = Inr ?d" "get_timer a ?d = Inr (t\<lparr>active := False\<rparr>)" "queue ?d TimerList = []"
    "linked ?d a = None"
    using t assms by (simp_all add: timerDeactivate_def ll_remove_obj_def)
      (simp_all add: get_timer_iff set_timer_def unlink_def)
  have "timerActivate a ?d = Inr s"
    using d assms by (cases s, cases t) (auto simp: timerActivate_def ll_add_before_obj_def set_timer_def set_obj_def
      unlink_def fun_eq_iff)
  with d have "timerUpdate a s = Inr s" by (simp add: timerUpdate_def)
  moreover have "set_timer a t s = s" using assms(2) by (simp add: set_timer_def set_obj_def fun_upd_idem)
  ultimately show ?case using assms t adv Suc.IH by (simp add: Let_def)
qed simp

end
