(* ===== verification/Handle.thy ===== *)
theory Handle
  imports Objects
begin

text \<open>
  Handle tables (\<^verbatim>\<open>process/handle.c\<close>): the map from handle numbers to kernel objects which every
  process has. The operations of the source work on a table and on the reference counts of the
  objects; here the part on the table (\<open>tbl_\<dots>\<close>) is separate, and the functions with the source's names
  apply it to the table of the process at address \<open>p\<close>. \<open>0\<close> in the array is \<^verbatim>\<open>NULL\<close>; an access
  outside the allocated array is \<open>MemFault\<close>.
\<close>

definition MIN_HANDLES :: u32 where "MIN_HANDLES = 0x100"
definition MAX_HANDLES :: u32 where "MAX_HANDLES = 0x10000"

definition tbl_get :: "handleTable \<Rightarrow> nat \<Rightarrow> addr kres" where
  "tbl_get t i = (case handles t of None \<Rightarrow> Inl MemFault
     | Some hs \<Rightarrow> if i < length hs then Inr (hs ! i) else Inl MemFault)"

definition tbl_put :: "nat \<Rightarrow> addr \<Rightarrow> handleTable \<Rightarrow> handleTable kres" where
  "tbl_put i x t = (case handles t of None \<Rightarrow> Inl MemFault
     | Some hs \<Rightarrow> if i < length hs then Inr (t\<lparr>handles := Some (hs[i := x])\<rparr>) else Inl MemFault)"

text \<open>\<^verbatim>\<open>heapReAlloc\<close> of the array; growing is followed by a \<^verbatim>\<open>memset\<close> of the new part.\<close>

definition tbl_resize :: "u32 \<Rightarrow> handleTable \<Rightarrow> handleTable kres" where
  "tbl_resize c t = (case handles t of None \<Rightarrow> Inl MemFault
     | Some hs \<Rightarrow> Inr (t\<lparr>handles := Some (take (unat c) hs @ replicate (unat c - length hs) 0), h_count := c\<rparr>))"

definition handleTableInit :: handleTable where
  "handleTableInit = \<lparr>h_count = MIN_HANDLES, free_begin = 0, free_end = 0,
     handles = Some (replicate (unat MIN_HANDLES) 0)\<rparr>"

text \<open>The search for an empty entry between \<open>i\<close> and \<^verbatim>\<open>free_end\<close>.\<close>

primrec find_slot :: "nat \<Rightarrow> nat \<Rightarrow> handleTable \<Rightarrow> nat option kres" where
  "find_slot 0 i t = Inr None"
| "find_slot (Suc n) i t = kbind (tbl_get t i) (\<lambda>x. if x = 0 then Inr (Some i) else find_slot n (Suc i) t)"

definition tbl_allocate :: "u32 \<Rightarrow> addr \<Rightarrow> handleTable \<Rightarrow> (handleTable \<times> u32) kres" where
  "tbl_allocate minHandle obj t =
     (let i = (if minHandle < free_begin t then free_begin t else minHandle) in
      kbind (find_slot (unat (free_end t) - unat i) (unat i) t) (\<lambda>r.
        case r of
          Some j \<Rightarrow> kbind (tbl_put j obj (t\<lparr>free_begin := word_of_nat j + 1\<rparr>)) (\<lambda>t. Inr (t, word_of_nat j))
        | None \<Rightarrow>
            let i = (if i < free_end t then free_end t else i);
                place = (\<lambda>t. kbind (tbl_put (unat i) obj (t\<lparr>free_begin := i + 1, free_end := i + 1\<rparr>)) (\<lambda>t. Inr (t, i)))
            in if i \<ge> h_count t
               then kbind (grow_size 32 (2 * h_count t) i) (\<lambda>c.
                    let c = (if c > MAX_HANDLES then MAX_HANDLES else c)
                    in if h_count t \<ge> c then Inr (t, - 1) else kbind (tbl_resize c t) place)
               else place t))"

text \<open>The part of \<^verbatim>\<open>handleSet\<close> behind the resizing.\<close>

definition tbl_store :: "u32 \<Rightarrow> addr \<Rightarrow> handleTable \<Rightarrow> (handleTable \<times> addr) kres" where
  "tbl_store handle obj t =
     kbind (tbl_get t (unat handle)) (\<lambda>old.
     kbind (tbl_put (unat handle) obj t) (\<lambda>t.
     let t = (if handle = free_begin t then t\<lparr>free_begin := handle + 1\<rparr> else t);
         t = (if handle \<ge> free_end t then t\<lparr>free_end := handle + 1\<rparr> else t)
     in Inr (t, old)))"

definition tbl_set :: "u32 \<Rightarrow> addr \<Rightarrow> handleTable \<Rightarrow> (handleTable \<times> addr) option kres" where
  "tbl_set handle obj t =
     (if handle \<ge> MAX_HANDLES then Inr None
      else kbind (if handle \<ge> h_count t
                  then kbind (grow_size 32 (2 * h_count t) handle) (\<lambda>c.
                       let c = (if c > MAX_HANDLES then MAX_HANDLES else c)
                       in kassert (c > h_count t) (tbl_resize c t))
                  else Inr t) (\<lambda>t.
           kbind (tbl_store handle obj t) (\<lambda>r. Inr (Some r))))"

definition tbl_lookup :: "u32 \<Rightarrow> handleTable \<Rightarrow> addr kres" where
  "tbl_lookup handle t = (if handle \<ge> free_end t then Inr 0 else tbl_get t (unat handle))"

text \<open>\<^verbatim>\<open>while (free_end > 0 && !handles[free_end - 1]) free_end--\<close>\<close>

primrec trim_end :: "nat \<Rightarrow> handleTable \<Rightarrow> nat kres" where
  "trim_end 0 t = Inr 0"
| "trim_end (Suc n) t = kbind (tbl_get t n) (\<lambda>x. if x = 0 then trim_end n t else Inr (Suc n))"

definition tbl_trim :: "u32 \<Rightarrow> handleTable \<Rightarrow> handleTable kres" where
  "tbl_trim handle t =
     (if handle = free_end t - 1
      then kbind (trim_end (unat (free_end t)) t) (\<lambda>e.
           let t = t\<lparr>free_end := word_of_nat e\<rparr>
           in if free_end t > MIN_HANDLES \<and> free_end t < h_count t div 4
              then tbl_resize (let c = h_count t div 4 in if c < MIN_HANDLES then MIN_HANDLES else c) t
              else Inr t)
      else Inr t)"

definition tbl_release :: "u32 \<Rightarrow> handleTable \<Rightarrow> (handleTable \<times> addr) option kres" where
  "tbl_release handle t =
     (if handle \<ge> free_end t then Inr None
      else kbind (tbl_get t (unat handle)) (\<lambda>obj.
        if obj = 0 then Inr None
        else kbind (tbl_put (unat handle) 0 t) (\<lambda>t.
             let t = (if handle < free_begin t then t\<lparr>free_begin := handle\<rparr> else t)
             in kbind (tbl_trim handle t) (\<lambda>t. Inr (Some (t, obj))))))"

primrec count_used :: "nat \<Rightarrow> handleTable \<Rightarrow> nat kres" where
  "count_used 0 t = Inr 0"
| "count_used (Suc n) t =
     kbind (count_used n t) (\<lambda>c. kbind (tbl_get t n) (\<lambda>x. Inr (if x \<noteq> 0 then Suc c else c)))"

definition handleCount :: "handleTable \<Rightarrow> u32 kres" where
  "handleCount t = kbind (count_used (unat (free_end t)) t) (\<lambda>c. Inr (word_of_nat c))"

section \<open>The table of a process\<close>

definition objectGetMinHandle :: "addr \<Rightarrow> kst \<Rightarrow> u32 kres" where
  "objectGetMinHandle a s =
     kbind (object_at a s) (\<lambda>x. Inr (case x of Pipe _ \<Rightarrow> 0 | Stdout \<Rightarrow> 0 | _ \<Rightarrow> 3))"

definition set_handles :: "addr \<Rightarrow> handleTable \<Rightarrow> kst \<Rightarrow> kst kres" where
  "set_handles p t s = kbind (get_process p s) (\<lambda>x. Inr (set_obj p (Process (x\<lparr>pr_handles := t\<rparr>)) s))"

definition handleAllocate :: "addr \<Rightarrow> addr \<Rightarrow> kst \<Rightarrow> (kst \<times> u32) kres" where
  "handleAllocate p obj s =
     kassert (obj \<noteq> 0) (
     kbind (objectGetMinHandle obj s) (\<lambda>m.
     kbind (get_process p s) (\<lambda>x.
     kbind (tbl_allocate m obj (pr_handles x)) (\<lambda>(t, h).
       if h = - 1 then Inr (s, h)
       else kbind (objectAddRef obj s) (\<lambda>s.
            kbind (set_handles p t s) (\<lambda>s. Inr (s, h)))))))"

definition handleSet :: "releaseFun \<Rightarrow> addr \<Rightarrow> u32 \<Rightarrow> addr \<Rightarrow> kst \<Rightarrow> (kst \<times> bool) kres" where
  "handleSet release p handle obj s =
     kassert (obj \<noteq> 0) (
     kbind (get_process p s) (\<lambda>x.
     kbind (tbl_set handle obj (pr_handles x)) (\<lambda>r.
       case r of None \<Rightarrow> Inr (s, False)
       | Some (t, old) \<Rightarrow>
           kbind (objectAddRef obj s) (\<lambda>s.
           kbind (set_handles p t s) (\<lambda>s.
           kbind (if old \<noteq> 0 then release old s else Inr s) (\<lambda>s. Inr (s, True)))))))"

definition handleGet :: "addr \<Rightarrow> u32 \<Rightarrow> kst \<Rightarrow> addr kres" where
  "handleGet p handle s = kbind (get_process p s) (\<lambda>x. tbl_lookup handle (pr_handles x))"

definition handleRelease :: "releaseFun \<Rightarrow> addr \<Rightarrow> u32 \<Rightarrow> kst \<Rightarrow> (kst \<times> bool) kres" where
  "handleRelease release p handle s =
     kbind (get_process p s) (\<lambda>x.
     kbind (tbl_release handle (pr_handles x)) (\<lambda>r.
       case r of None \<Rightarrow> Inr (s, False)
       | Some (t, obj) \<Rightarrow>
           kbind (set_handles p t s) (\<lambda>s.
           kbind (release obj s) (\<lambda>s. Inr (s, True)))))"

text \<open>Copy the first \<open>n\<close> entries of a table, taking a reference on each object.\<close>

primrec fork_handles :: "nat \<Rightarrow> nat \<Rightarrow> handleTable \<Rightarrow> handleTable \<Rightarrow> kst \<Rightarrow> (kst \<times> handleTable) kres" where
  "fork_handles 0 i src dst s = Inr (s, dst)"
| "fork_handles (Suc n) i src dst s =
     kbind (tbl_get src i) (\<lambda>x.
     kbind (if x \<noteq> 0 then objectAddRef x s else Inr s) (\<lambda>s.
     kbind (tbl_put i x dst) (\<lambda>dst.
     fork_handles n (Suc i) src dst s)))"

definition handleForkTable :: "addr \<Rightarrow> addr \<Rightarrow> kst \<Rightarrow> kst kres" where
  "handleForkTable destination source s =
     kbind (get_process source s) (\<lambda>x.
     let src = pr_handles x in
     kbind (grow_size 32 MIN_HANDLES (free_end src)) (\<lambda>c.
     kassert (handles src \<noteq> None) (
     kassert (c \<ge> free_end src) (
     kbind (fork_handles (unat (free_end src)) 0 src
              \<lparr>h_count = c, free_begin = free_begin src, free_end = free_end src,
               handles = Some (replicate (unat c) 0)\<rparr> s) (\<lambda>(s, dst).
     set_handles destination dst s)))))"

text \<open>Release the objects from entry \<open>i\<close> up to \<^verbatim>\<open>free_end\<close>; the table is read again in each round.\<close>

primrec free_handles :: "nat \<Rightarrow> releaseFun \<Rightarrow> addr \<Rightarrow> nat \<Rightarrow> kst \<Rightarrow> kst kres" where
  "free_handles 0 release p i s = Inl OutOfFuel"
| "free_handles (Suc n) release p i s =
     kbind (get_process p s) (\<lambda>x.
       if i < unat (free_end (pr_handles x))
       then kbind (tbl_get (pr_handles x) i) (\<lambda>obj.
            kbind (if obj \<noteq> 0 then release obj s else Inr s) (\<lambda>s.
            free_handles n release p (Suc i) s))
       else Inr s)"

text \<open>The bound covers every table: a table has at most \<^verbatim>\<open>MAX_HANDLES\<close> entries. The callers set
  \<^verbatim>\<open>handles\<close> to \<^verbatim>\<open>NULL\<close> behind the call.\<close>

definition handleTableFree :: "releaseFun \<Rightarrow> addr \<Rightarrow> kst \<Rightarrow> kst kres" where
  "handleTableFree release p s =
     kbind (free_handles (Suc (unat MAX_HANDLES)) release p 0 s) (\<lambda>s.
     kbind (get_process p s) (\<lambda>x. set_handles p ((pr_handles x)\<lparr>handles := None\<rparr>) s))"

section \<open>The table as a map\<close>

text \<open>What a table holds under a number, \<open>0\<close> for nothing.\<close>

definition tbl_map :: "handleTable \<Rightarrow> nat \<Rightarrow> addr" where
  "tbl_map t h = (case handles t of None \<Rightarrow> 0 | Some hs \<Rightarrow> if h < length hs then hs ! h else 0)"

text \<open>The array has \<^verbatim>\<open>count\<close> entries, a power of two between the two limits; nothing is stored from
  \<^verbatim>\<open>free_end\<close> on; every number below \<^verbatim>\<open>free_begin\<close> is used, except perhaps 0, 1 and 2.\<close>

definition table_ok :: "handleTable \<Rightarrow> bool" where
  "table_ok t \<longleftrightarrow> (\<exists>hs k. handles t = Some hs \<and> length hs = unat (h_count t) \<and> k \<le> 8 \<and>
     unat (h_count t) = 0x100 * 2 ^ k \<and> free_end t \<le> h_count t \<and>
     (\<forall>i. unat (free_end t) \<le> i \<and> i < length hs \<longrightarrow> hs ! i = 0) \<and>
     (\<forall>i. 3 \<le> i \<and> i < unat (free_begin t) \<longrightarrow> i < length hs \<and> hs ! i \<noteq> 0))"

lemma table_okE:
  assumes "table_ok t"
  obtains hs k where "handles t = Some hs" "length hs = unat (h_count t)" "k \<le> 8"
    "unat (h_count t) = 0x100 * 2 ^ k" "unat (free_end t) \<le> length hs" "0x100 \<le> length hs" "length hs \<le> 0x10000"
    "\<forall>i. unat (free_end t) \<le> i \<and> i < length hs \<longrightarrow> hs ! i = 0"
    "\<forall>i. 3 \<le> i \<and> i < unat (free_begin t) \<longrightarrow> i < unat (free_end t) \<and> hs ! i \<noteq> 0"
proof -
  from assms obtain hs k where h: "handles t = Some hs" "length hs = unat (h_count t)" "k \<le> 8"
    "unat (h_count t) = 0x100 * 2 ^ k" "free_end t \<le> h_count t"
    "\<And>i. unat (free_end t) \<le> i \<Longrightarrow> i < length hs \<Longrightarrow> hs ! i = 0"
    "\<And>i. 3 \<le> i \<Longrightarrow> i < unat (free_begin t) \<Longrightarrow> i < length hs \<and> hs ! i \<noteq> 0"
    unfolding table_ok_def by blast
  have "(2 :: nat) ^ k \<le> 2 ^ 8" using h(3) by (intro power_increasing) auto
  moreover have "i < unat (free_end t)" if "3 \<le> i" "i < unat (free_begin t)" for i
    using h(6) [of i] h(7) [OF that] by (metis not_less)
  ultimately show thesis using h by (intro that [of hs k]) (auto simp: word_le_nat_alt)
qed

lemma table_okI:
  assumes "handles t = Some hs" "length hs = unat (h_count t)" "k \<le> 8" "unat (h_count t) = 0x100 * 2 ^ k"
    "unat (free_end t) \<le> length hs" "\<And>i. unat (free_end t) \<le> i \<Longrightarrow> i < length hs \<Longrightarrow> hs ! i = 0"
    "\<And>i. 3 \<le> i \<Longrightarrow> i < unat (free_begin t) \<Longrightarrow> i < length hs \<and> hs ! i \<noteq> 0"
  shows "table_ok t"
  using assms unfolding table_ok_def by (intro exI [of _ hs] exI [of _ k]) (auto simp: word_le_nat_alt)

lemma tbl_map_nth: "handles t = Some hs \<Longrightarrow> i < length hs \<Longrightarrow> tbl_map t i = hs ! i"
  by (simp add: tbl_map_def)

lemma tbl_lookup_map:
  assumes "table_ok t"
  shows "tbl_lookup h t = Inr (tbl_map t (unat h))"
  using assms by (auto elim!: table_okE simp: tbl_lookup_def tbl_get_def tbl_map_def word_le_nat_alt)

lemma find_slot_spec:
  assumes "handles t = Some hs" "i + n \<le> length hs"
  shows "\<exists>r. find_slot n i t = Inr r \<and> (case r of None \<Rightarrow> \<forall>j. i \<le> j \<and> j < i + n \<longrightarrow> hs ! j \<noteq> 0
     | Some j \<Rightarrow> i \<le> j \<and> j < i + n \<and> hs ! j = 0 \<and> (\<forall>l. i \<le> l \<and> l < j \<longrightarrow> hs ! l \<noteq> 0))"
  using assms(2)
proof (induction n arbitrary: i)
  case (Suc n)
  show ?case
  proof (cases "hs ! i = 0")
    case False
    from Suc.IH [of "Suc i"] Suc.prems obtain r where r: "find_slot n (Suc i) t = Inr r"
      "case r of None \<Rightarrow> \<forall>j. Suc i \<le> j \<and> j < Suc i + n \<longrightarrow> hs ! j \<noteq> 0
       | Some j \<Rightarrow> Suc i \<le> j \<and> j < Suc i + n \<and> hs ! j = 0 \<and> (\<forall>l. Suc i \<le> l \<and> l < j \<longrightarrow> hs ! l \<noteq> 0)" by auto
    have "l = i \<or> Suc i \<le> l" if "i \<le> l" for l using that by auto
    with r False assms(1) Suc.prems show ?thesis
      by (auto simp: tbl_get_def split: option.splits)
  qed (use assms(1) Suc.prems in \<open>auto simp: tbl_get_def\<close>)
qed simp

text \<open>Storing an object under the number \<open>j\<close>, the first one that is free.\<close>

lemma place_ok:
  assumes t: "handles t = Some hs" "length hs = unat (h_count t)" "k \<le> 8" "unat (h_count t) = 0x100 * 2 ^ k"
    and j: "j < length hs" "length hs \<le> 0x10000" "unat e \<le> length hs" "j < unat e"
    and rest: "\<And>i. unat e \<le> i \<Longrightarrow> i < length hs \<Longrightarrow> hs ! i = 0"
    and used: "\<And>i. 3 \<le> i \<Longrightarrow> i < j \<Longrightarrow> hs ! i \<noteq> 0" and "obj \<noteq> 0"
  shows "\<exists>t'. tbl_put j obj (t\<lparr>free_begin := word_of_nat j + 1, free_end := e\<rparr>) = Inr t' \<and> table_ok t' \<and>
    tbl_map t' = (tbl_map t)(j := obj)"
proof -
  let ?t = "t\<lparr>free_begin := word_of_nat j + 1, free_end := e, handles := Some (hs[j := obj])\<rparr>"
  have "unat (word_of_nat j + 1 :: u32) = Suc j"
    using j(1,2) by (subst unat_add_small) (auto simp: unat_word_of_nat_small)
  then have "table_ok ?t"
    using t j rest used \<open>obj \<noteq> 0\<close> by (intro table_okI [where hs = "hs[j := obj]" and k = k]) (auto simp: nth_list_update less_Suc_eq)
  moreover have "tbl_map ?t = (tbl_map t)(j := obj)"
    using t(1) j(1) by (auto simp: tbl_map_def fun_eq_iff nth_list_update)
  ultimately show ?thesis using t(1) j(1) by (simp add: tbl_put_def)
qed

text \<open>Where the search starts and what it finds.\<close>

lemma alloc_search:
  assumes "table_ok t" "m \<le> 3" "handles t = Some hs"
  defines "i \<equiv> if m < free_begin t then free_begin t else m"
  obtains r where "find_slot (unat (free_end t) - unat i) (unat i) t = Inr r" "m \<le> i"
    "unat i \<le> max 3 (unat (free_end t))"
    "case r of None \<Rightarrow> \<forall>l. 3 \<le> l \<and> l < max (unat i) (unat (free_end t)) \<longrightarrow> hs ! l \<noteq> 0
     | Some j \<Rightarrow> unat i \<le> j \<and> j < unat (free_end t) \<and> hs ! j = 0 \<and> (\<forall>l. 3 \<le> l \<and> l < j \<longrightarrow> hs ! l \<noteq> 0)"
proof -
  obtain k where t: "length hs = unat (h_count t)" "unat (free_end t) \<le> length hs" "0x100 \<le> length hs"
    "\<forall>i. 3 \<le> i \<and> i < unat (free_begin t) \<longrightarrow> i < unat (free_end t) \<and> hs ! i \<noteq> 0"
    using assms(1,3) by (auto elim!: table_okE)
  have m: "unat m \<le> 3" using assms(2) by (simp add: word_le_nat_alt)
  have i: "unat i = max (unat m) (unat (free_begin t))" by (auto simp: i_def word_less_nat_alt)
  have below: "hs ! j \<noteq> 0" if "3 \<le> j" "j < unat i" for j using t(4) that i m by auto
  have bound: "unat i \<le> max 3 (unat (free_end t))"
  proof (rule ccontr)
    assume "\<not> ?thesis"
    then have "3 \<le> unat i - 1" "unat i - 1 < unat (free_begin t)" "\<not> unat i - 1 < unat (free_end t)" using i m by auto
    with t(4) show False by blast
  qed
  let ?n = "unat (free_end t) - unat i"
  have "unat i + ?n \<le> length hs" using bound t(2,3) by auto
  then obtain r where r: "find_slot ?n (unat i) t = Inr r"
    "case r of None \<Rightarrow> \<forall>j. unat i \<le> j \<and> j < unat i + ?n \<longrightarrow> hs ! j \<noteq> 0
     | Some j \<Rightarrow> unat i \<le> j \<and> j < unat i + ?n \<and> hs ! j = 0 \<and> (\<forall>l. unat i \<le> l \<and> l < j \<longrightarrow> hs ! l \<noteq> 0)"
    using find_slot_spec [OF assms(3)] by blast
  have "m \<le> i" using i by (simp add: word_le_nat_alt)
  moreover have "case r of None \<Rightarrow> \<forall>l. 3 \<le> l \<and> l < max (unat i) (unat (free_end t)) \<longrightarrow> hs ! l \<noteq> 0
     | Some j \<Rightarrow> unat i \<le> j \<and> j < unat (free_end t) \<and> hs ! j = 0 \<and> (\<forall>l. 3 \<le> l \<and> l < j \<longrightarrow> hs ! l \<noteq> 0)"
    using r(2) below by (cases r) (fastforce simp: not_less [symmetric])+
  ultimately show thesis using r(1) bound that by blast
qed

text \<open>Appending behind the last used number.\<close>

lemma place_append:
  assumes "handles t = Some hs" "length hs = unat (h_count t)" "k \<le> 8" "unat (h_count t) = 0x100 * 2 ^ k"
    "unat i < length hs" "\<forall>l. unat i \<le> l \<and> l < length hs \<longrightarrow> hs ! l = 0"
    "\<forall>l. 3 \<le> l \<and> l < unat i \<longrightarrow> hs ! l \<noteq> 0" "obj \<noteq> 0"
  shows "\<exists>t'. tbl_put (unat i) obj (t\<lparr>free_begin := i + 1, free_end := i + 1\<rparr>) = Inr t' \<and> table_ok t' \<and>
    tbl_map t' = (tbl_map t)(unat i := obj)"
proof -
  have "(2 :: nat) ^ k \<le> 2 ^ 8" using assms(3) by (intro power_increasing) auto
  then have len: "length hs \<le> 0x10000" using assms(2,4) by simp
  then have "unat (i + 1) = Suc (unat i)" using assms(5) by (subst unat_add_small) auto
  with place_ok [OF assms(1-4), of "unat i" "i + 1" obj] assms(5-8) len show ?thesis by auto
qed

lemma resize_spec:
  assumes "handles t = Some hs" "length hs \<le> unat c"
  shows "\<exists>u. tbl_resize c t = Inr u \<and> handles u = Some (hs @ replicate (unat c - length hs) 0) \<and> h_count u = c \<and>
    free_begin u = free_begin t \<and> free_end u = free_end t \<and> tbl_map u = tbl_map t"
  using assms by (auto simp: tbl_resize_def tbl_map_def fun_eq_iff nth_append)

lemma small_not_minus_one: "unat (w :: u32) \<le> 0x10000 \<Longrightarrow> w \<noteq> - 1"
  by (auto simp: unsigned_minus_1_eq_mask mask_eq_exp_minus_1)

text \<open>The last part of \<^verbatim>\<open>handleAllocate\<close>: no number before \<open>e\<close> is free.\<close>

lemma alloc_append:
  assumes "table_ok t" "handles t = Some hs" "unat (free_end t) \<le> unat e" "unat e \<le> length hs"
    "\<forall>l. 3 \<le> l \<and> l < unat e \<longrightarrow> hs ! l \<noteq> 0" "obj \<noteq> 0"
  defines "place \<equiv> \<lambda>t. kbind (tbl_put (unat e) obj (t\<lparr>free_begin := e + 1, free_end := e + 1\<rparr>)) (\<lambda>t. Inr (t, e))"
  shows "\<exists>t' h. (if e \<ge> h_count t
      then kbind (grow_size 32 (2 * h_count t) e) (\<lambda>c.
           let c = (if c > MAX_HANDLES then MAX_HANDLES else c)
           in if h_count t \<ge> c then Inr (t, - 1) else kbind (tbl_resize c t) place)
      else place t) = Inr (t', h) \<and> table_ok t' \<and>
    (if h = - 1 then t' = t \<and> unat e = 0x10000
     else h = e \<and> unat e < 0x10000 \<and> tbl_map t' = (tbl_map t)(unat e := obj))"
proof -
  obtain k where t: "length hs = unat (h_count t)" "k \<le> 8" "unat (h_count t) = 0x100 * 2 ^ k" "length hs \<le> 0x10000"
    "\<forall>i. unat (free_end t) \<le> i \<and> i < length hs \<longrightarrow> hs ! i = 0"
    using assms(1,2) by (auto elim!: table_okE)
  have ne: "e \<noteq> - 1" using assms(4) t(4) by (intro small_not_minus_one) simp
  consider "unat e < length hs" | "unat e = length hs" "k = 8" | "unat e = length hs" "k < 8" using assms(4) t(2) by fastforce
  then show ?thesis
  proof cases
    case 1
    with place_append [OF assms(2) t(1-3), of e obj] assms(3-6) t(5) obtain t' where
      "tbl_put (unat e) obj (t\<lparr>free_begin := e + 1, free_end := e + 1\<rparr>) = Inr t'" "table_ok t'"
      "tbl_map t' = (tbl_map t)(unat e := obj)" by auto
    with 1 ne t(1,4) show ?thesis by (auto simp: place_def word_le_nat_alt)
  next
    case 2
    then have "h_count t = 0x10000" using t(3) by (intro unsigned_word_eqI) simp
    moreover from this have "e = 0x10000" using 2 t(1) by (intro unsigned_word_eqI) simp
    ultimately show ?thesis using assms(1) by (simp add: MAX_HANDLES_def)
  next
    case 3
    then have "(2 :: nat) ^ k \<le> 2 ^ 7" by (intro power_increasing) auto
    then have c: "unat (2 * h_count t) = 0x100 * 2 ^ Suc k" "unat (2 * h_count t) \<le> 0x10000"
      using t(3) by (auto simp: unat_word_ariths)
    obtain u where u: "tbl_resize (2 * h_count t) t = Inr u"
      "handles u = Some (hs @ replicate (unat (2 * h_count t) - length hs) 0)" "h_count u = 2 * h_count t"
      "tbl_map u = tbl_map t"
      using resize_spec [OF assms(2), of "2 * h_count t"] c(1) t(1,3) by auto
    let ?hs = "hs @ replicate (unat (2 * h_count t) - length hs) 0"
    have "length ?hs = unat (h_count u)" using c(1) t(1,3) u(3) by simp
    moreover have "\<forall>l. unat e \<le> l \<and> l < length ?hs \<longrightarrow> ?hs ! l = 0" using 3(1) by (auto simp: nth_append)
    moreover have "\<forall>l. 3 \<le> l \<and> l < unat e \<longrightarrow> ?hs ! l \<noteq> 0" using 3(1) assms(5) by (simp add: nth_append)
    ultimately obtain t' where "tbl_put (unat e) obj (u\<lparr>free_begin := e + 1, free_end := e + 1\<rparr>) = Inr t'" "table_ok t'"
      "tbl_map t' = (tbl_map u)(unat e := obj)"
      using place_append [OF u(2), of "Suc k" e obj] u(3) c(1) t(1,3) 3 assms(6) by force
    moreover have "h_count t \<le> e" "e \<le> 2 * h_count t" "\<not> 2 * h_count t > MAX_HANDLES" "\<not> 2 * h_count t \<le> h_count t"
      using c t(1,3) 3 by (auto simp: word_le_nat_alt word_less_nat_alt MAX_HANDLES_def)
    ultimately show ?thesis
      using u ne c t(1,3) 3 by (auto simp: place_def)
  qed
qed

lemma grow_handles:
  assumes "unat c = 0x100 * 2 ^ j" "j \<le> 8" "unat h < 0x10000" "8 \<le> n + j"
  shows "\<exists>r l. grow_size n c h = Inr r \<and> j \<le> l \<and> l \<le> 8 \<and> unat r = 0x100 * 2 ^ l \<and> h \<le> r \<and>
    (c < r \<longrightarrow> unat r < 2 * unat h)"
  using assms
proof (induction n arbitrary: c j)
  case 0
  then show ?case by (auto simp: word_le_nat_alt word_less_nat_alt)
next
  case (Suc n)
  show ?case
  proof (cases "c < h")
    case True
    then have j: "j < 8" using Suc.prems by (cases "j = 8") (auto simp: word_less_nat_alt)
    have c: "unat (c * 2) = 0x100 * 2 ^ Suc j"
      using Suc.prems(1) j power_increasing [of j 8 "2 :: nat"] by (simp add: unat_word_ariths)
    from Suc.IH [OF this] j Suc.prems obtain r l where r: "grow_size n (c * 2) h = Inr r" "Suc j \<le> l" "l \<le> 8"
      "unat r = 0x100 * 2 ^ l" "h \<le> r" "c * 2 < r \<longrightarrow> unat r < 2 * unat h" by auto
    have "unat r < 2 * unat h"
    proof (cases "c * 2 < r")
      case False
      then have "unat r \<le> unat (c * 2)" by (simp add: word_less_nat_alt)
      also have "\<dots> = 2 * unat c" using c Suc.prems(1) by simp
      finally show ?thesis using True by (simp add: word_less_nat_alt)
    qed (use r in simp)
    with r True show ?thesis by (intro exI [of _ r] exI [of _ l]) simp
  qed (use Suc.prems in \<open>auto simp: not_less\<close>)
qed

lemma resize_ok:
  assumes "table_ok t" "unat c = 0x100 * 2 ^ j" "j \<le> 8" "h_count t \<le> c"
  shows "\<exists>u. tbl_resize c t = Inr u \<and> table_ok u \<and> h_count u = c \<and> tbl_map u = tbl_map t"
proof -
  obtain hs where t: "handles t = Some hs" "length hs = unat (h_count t)" "unat (free_end t) \<le> length hs"
    "\<forall>i. unat (free_end t) \<le> i \<and> i < length hs \<longrightarrow> hs ! i = 0"
    "\<forall>i. 3 \<le> i \<and> i < unat (free_begin t) \<longrightarrow> i < unat (free_end t) \<and> hs ! i \<noteq> 0"
    using assms(1) by (auto elim!: table_okE)
  have len: "length hs \<le> unat c" using t(2) assms(4) by (simp add: word_le_nat_alt)
  from resize_spec [OF t(1) this] obtain u where u: "tbl_resize c t = Inr u"
    "handles u = Some (hs @ replicate (unat c - length hs) 0)" "h_count u = c" "free_begin u = free_begin t"
    "free_end u = free_end t" "tbl_map u = tbl_map t" by blast
  have "table_ok u"
    using u(3-5) assms(2,3) len t(3-5) by (intro table_okI [OF u(2), where k = j]) (auto simp: nth_append)
  with u show ?thesis by blast
qed

lemma store_in_range:
  assumes "table_ok t" "h < h_count t" "obj \<noteq> 0"
  shows "\<exists>t'. tbl_store h obj t = Inr (t', tbl_map t (unat h)) \<and> table_ok t' \<and>
    tbl_map t' = (tbl_map t)(unat h := obj)"
proof -
  obtain hs k where t: "handles t = Some hs" "length hs = unat (h_count t)" "k \<le> 8"
    "unat (h_count t) = 0x100 * 2 ^ k" "unat (free_end t) \<le> length hs" "length hs \<le> 0x10000"
    "\<forall>i. unat (free_end t) \<le> i \<and> i < length hs \<longrightarrow> hs ! i = 0"
    "\<forall>i. 3 \<le> i \<and> i < unat (free_begin t) \<longrightarrow> i < unat (free_end t) \<and> hs ! i \<noteq> 0"
    using assms(1) by (auto elim!: table_okE)
  have h: "unat h < length hs" "unat (h + 1) = Suc (unat h)"
    using assms(2) t(2,6) by (simp add: word_less_nat_alt, subst unat_add_small) (auto simp: word_less_nat_alt)
  define b where "b = (if h = free_begin t then h + 1 else free_begin t)"
  define e where "e = (if h \<ge> free_end t then h + 1 else free_end t)"
  have b: "i = unat h \<or> i < unat (free_begin t)" if "i < unat b" for i
    using that h(2) by (auto simp: b_def less_Suc_eq split: if_splits)
  have e: "unat e = max (unat (free_end t)) (Suc (unat h))" using h(2) by (auto simp: e_def word_le_nat_alt)
  let ?t = "t\<lparr>handles := Some (hs[unat h := obj]), free_begin := b, free_end := e\<rparr>"
  have "table_ok ?t"
    using t h(1) assms(3) e b
    by (intro table_okI [where hs = "hs[unat h := obj]" and k = k]) (auto simp: nth_list_update dest!: b)
  moreover have "tbl_map ?t = (tbl_map t)(unat h := obj)"
    using t(1) h(1) by (auto simp: tbl_map_def fun_eq_iff nth_list_update)
  ultimately show ?thesis
    using t(1) h(1) by (auto simp: tbl_store_def tbl_get_def tbl_put_def tbl_map_def Let_def b_def e_def)
qed

lemma trim_end_spec:
  assumes "handles t = Some hs" "n \<le> length hs"
  shows "\<exists>e\<le>n. trim_end n t = Inr e \<and> (\<forall>i. e \<le> i \<and> i < n \<longrightarrow> hs ! i = 0) \<and> (e > 0 \<longrightarrow> hs ! (e - 1) \<noteq> 0)"
  using assms
proof (induction n)
  case (Suc n)
  then obtain e where "e \<le> n" "trim_end n t = Inr e" "\<forall>i. e \<le> i \<and> i < n \<longrightarrow> hs ! i = 0" "e > 0 \<longrightarrow> hs ! (e - 1) \<noteq> 0" by auto
  with Suc.prems show ?case
    by (cases "hs ! n = 0") (auto simp: tbl_get_def less_Suc_eq intro!: exI [of _ e] exI [of _ "Suc n"])
qed simp

lemma shrink_ok:
  assumes "table_ok t" "free_end t > MIN_HANDLES" "free_end t < h_count t div 4"
  shows "\<exists>v. tbl_resize (let c = h_count t div 4 in if c < MIN_HANDLES then MIN_HANDLES else c) t = Inr v \<and> table_ok v \<and>
    tbl_map v = tbl_map t"
proof -
  obtain hs k where t: "handles t = Some hs" "length hs = unat (h_count t)" "k \<le> 8"
    "unat (h_count t) = 0x100 * 2 ^ k" "unat (free_end t) \<le> length hs" "length hs \<le> 0x10000"
    "\<forall>i. unat (free_end t) \<le> i \<and> i < length hs \<longrightarrow> hs ! i = 0"
    "\<forall>i. 3 \<le> i \<and> i < unat (free_begin t) \<longrightarrow> i < unat (free_end t) \<and> hs ! i \<noteq> 0"
    using assms(1) by (auto elim!: table_okE)
  let ?c = "h_count t div 4"
  have c: "unat ?c = unat (h_count t) div 4" by (simp add: unat_div)
  have e: "0x100 < unat (free_end t)" "unat (free_end t) < unat ?c"
    using assms(2,3) by (auto simp: word_less_nat_alt MIN_HANDLES_def)
  have "k = 0 \<or> k = 1 \<or> 2 \<le> k" by auto
  then obtain j where k: "k = j + 2" using e c t(4) by (auto simp: le_iff_add add.commute)
  have len: "unat ?c = 0x100 * 2 ^ j" "unat ?c \<le> length hs" using c t(2,4) k by (auto simp: power_add)
  let ?v = "t\<lparr>handles := Some (take (unat ?c) hs), h_count := ?c\<rparr>"
  have "tbl_resize (let c = ?c in if c < MIN_HANDLES then MIN_HANDLES else c) t = Inr ?v"
    using t(1) len(2) e by (auto simp: tbl_resize_def Let_def word_less_nat_alt MIN_HANDLES_def)
  moreover have "table_ok ?v"
    using len e t(3,7,8) k by (intro table_okI [where hs = "take (unat ?c) hs" and k = j]) auto
  moreover have "tbl_map ?v = tbl_map t"
    using t(1,7) len(2) e by (auto simp: tbl_map_def fun_eq_iff)
  ultimately show ?thesis by blast
qed

lemma trim_ok:
  assumes "table_ok t"
  shows "\<exists>v. tbl_trim h t = Inr v \<and> table_ok v \<and> tbl_map v = tbl_map t"
proof -
  obtain hs k where t: "handles t = Some hs" "length hs = unat (h_count t)" "k \<le> 8"
    "unat (h_count t) = 0x100 * 2 ^ k" "unat (free_end t) \<le> length hs" "length hs \<le> 0x10000"
    "\<forall>i. unat (free_end t) \<le> i \<and> i < length hs \<longrightarrow> hs ! i = 0"
    "\<forall>i. 3 \<le> i \<and> i < unat (free_begin t) \<longrightarrow> i < unat (free_end t) \<and> hs ! i \<noteq> 0"
    using assms(1) by (auto elim!: table_okE)
  obtain e where e: "e \<le> unat (free_end t)" "trim_end (unat (free_end t)) t = Inr e"
    "\<forall>i. e \<le> i \<and> i < unat (free_end t) \<longrightarrow> hs ! i = 0"
    using trim_end_spec [OF t(1,5)] by blast
  let ?t = "t\<lparr>free_end := word_of_nat e\<rparr>"
  have ue: "unat (word_of_nat e :: u32) = e" using e(1) t(5,6) by (simp add: unat_word_of_nat_small)
  have zero: "hs ! i = 0" if "e \<le> i" "i < length hs" for i using e(3) t(7) that by (cases "i < unat (free_end t)") auto
  have ok: "table_ok ?t"
    using t e(1) ue zero by (intro table_okI [where hs = hs and k = k]) (auto dest: less_le_trans)
  have map: "tbl_map ?t = tbl_map t" by (simp add: tbl_map_def fun_eq_iff)
  show ?thesis
    using shrink_ok [OF ok] ok map e(2) assms by (auto simp: tbl_trim_def Let_def)
qed

lemma tbl_allocate_spec:
  assumes "table_ok t" "m \<le> 3" "obj \<noteq> 0"
  shows "\<exists>t' h. tbl_allocate m obj t = Inr (t', h) \<and> table_ok t' \<and>
    (\<forall>i. 3 \<le> i \<and> i < min (unat h) 0x10000 \<longrightarrow> tbl_map t i \<noteq> 0) \<and>
    (if h = - 1 then t' = t
     else m \<le> h \<and> unat h < 0x10000 \<and> tbl_map t (unat h) = 0 \<and> tbl_map t' = (tbl_map t)(unat h := obj))"
proof -
  obtain hs k where t: "handles t = Some hs" "length hs = unat (h_count t)" "k \<le> 8"
    "unat (h_count t) = 0x100 * 2 ^ k" "unat (free_end t) \<le> length hs" "0x100 \<le> length hs" "length hs \<le> 0x10000"
    "\<forall>i. unat (free_end t) \<le> i \<and> i < length hs \<longrightarrow> hs ! i = 0"
    using assms(1) by (auto elim!: table_okE)
  define i where "i = (if m < free_begin t then free_begin t else m)"
  obtain r where r: "find_slot (unat (free_end t) - unat i) (unat i) t = Inr r" "m \<le> i"
    "unat i \<le> max 3 (unat (free_end t))"
    "case r of None \<Rightarrow> \<forall>l. 3 \<le> l \<and> l < max (unat i) (unat (free_end t)) \<longrightarrow> hs ! l \<noteq> 0
     | Some j \<Rightarrow> unat i \<le> j \<and> j < unat (free_end t) \<and> hs ! j = 0 \<and> (\<forall>l. 3 \<le> l \<and> l < j \<longrightarrow> hs ! l \<noteq> 0)"
    unfolding i_def using alloc_search [OF assms(1,2) t(1)] .
  show ?thesis
  proof (cases r)
    case (Some j)
    then have j: "unat i \<le> j" "j < unat (free_end t)" "hs ! j = 0" "\<forall>l. 3 \<le> l \<and> l < j \<longrightarrow> hs ! l \<noteq> 0"
      using r(4) by auto
    have uj: "unat (word_of_nat j :: u32) = j" using j(2) t(5,7) by (simp add: unat_word_of_nat_small)
    obtain t' where "tbl_put j obj (t\<lparr>free_begin := word_of_nat j + 1, free_end := free_end t\<rparr>) = Inr t'"
      "table_ok t'" "tbl_map t' = (tbl_map t)(j := obj)"
      using place_ok [OF t(1-4), of j "free_end t" obj] j t(5,7,8) assms(3) by auto
    moreover have "(word_of_nat j :: u32) \<noteq> - 1" using uj j(2) t(5,7) by (intro small_not_minus_one) simp
    moreover have "m \<le> word_of_nat j" using r(2) j(1) uj by (simp add: word_le_nat_alt)
    ultimately show ?thesis
      using r(1) Some j uj t(1,5,7)
      by (auto simp: tbl_allocate_def Let_def i_def [symmetric] tbl_map_nth)
  next
    case None
    define e where "e = (if i < free_end t then free_end t else i)"
    have e: "unat e = max (unat i) (unat (free_end t))" by (auto simp: e_def word_less_nat_alt)
    have used: "\<forall>l. 3 \<le> l \<and> l < unat e \<longrightarrow> hs ! l \<noteq> 0" using None r(4) e by simp
    have el: "unat e \<le> length hs" "m \<le> e" using e r(2,3) t(5,6) by (auto simp: word_le_nat_alt)
    then have umap: "\<forall>l. 3 \<le> l \<and> l < unat e \<longrightarrow> tbl_map t l \<noteq> 0" using used t(1) by (auto simp: tbl_map_nth)
    have emap: "tbl_map t (unat e) = 0" using t(1,8) e by (auto simp: tbl_map_def)
    obtain t' h where "(if e \<ge> h_count t
      then kbind (grow_size 32 (2 * h_count t) e) (\<lambda>c.
           let c = (if c > MAX_HANDLES then MAX_HANDLES else c)
           in if h_count t \<ge> c then Inr (t, - 1) else kbind (tbl_resize c t)
             (\<lambda>t. kbind (tbl_put (unat e) obj (t\<lparr>free_begin := e + 1, free_end := e + 1\<rparr>)) (\<lambda>t. Inr (t, e))))
      else kbind (tbl_put (unat e) obj (t\<lparr>free_begin := e + 1, free_end := e + 1\<rparr>)) (\<lambda>t. Inr (t, e))) = Inr (t', h)"
      "table_ok t'" "if h = - 1 then t' = t \<and> unat e = 0x10000
        else h = e \<and> unat e < 0x10000 \<and> tbl_map t' = (tbl_map t)(unat e := obj)"
      using alloc_append [OF assms(1) t(1) _ el(1) used assms(3)] e by auto
    moreover from this have "tbl_allocate m obj t = Inr (t', h)"
      using None r(1) by (simp add: tbl_allocate_def Let_def i_def [symmetric] e_def [symmetric])
    ultimately show ?thesis using umap emap el(2) by (auto split: if_splits)
  qed
qed

section \<open>Properties\<close>

text \<open>C15: \<^verbatim>\<open>handleAllocate\<close> for an object with minimal handle \<open>m\<close> (0 for pipes, 3 otherwise) never leaves
  the array. It either reports that every number from 3 on is taken, with the table unchanged, or
  stores the object under a free number and changes nothing else; no number between 3 and
  the one it returns was free. The table invariant is kept, so this holds for every sequence of calls.\<close>

theorem handleAllocate_lowest:
  assumes "table_ok t" "m \<le> 3" "obj \<noteq> 0"
  shows "\<exists>t' h. tbl_allocate m obj t = Inr (t', h) \<and> table_ok t' \<and>
    (\<forall>i. 3 \<le> i \<and> i < min (unat h) 0x10000 \<longrightarrow> tbl_map t i \<noteq> 0) \<and>
    (if h = - 1 then t' = t
     else m \<le> h \<and> unat h < 0x10000 \<and> tbl_map t (unat h) = 0 \<and> tbl_map t' = (tbl_map t)(unat h := obj))"
  by (rule tbl_allocate_spec [OF assms])

lemma handleTableInit_ok: "table_ok handleTableInit"
  by (rule table_okI [where k = 0 and hs = "replicate (unat MIN_HANDLES) 0"])
    (auto simp: handleTableInit_def MIN_HANDLES_def)

theorem handleAllocate_lowest_witness:
  "\<exists>t' h. tbl_allocate 3 7 handleTableInit = Inr (t', h) \<and> table_ok t' \<and>
    (\<forall>i. 3 \<le> i \<and> i < min (unat h) 0x10000 \<longrightarrow> tbl_map handleTableInit i \<noteq> 0) \<and>
    (if h = - 1 then t' = handleTableInit
     else 3 \<le> h \<and> unat h < 0x10000 \<and> tbl_map handleTableInit (unat h) = 0 \<and>
       tbl_map t' = (tbl_map handleTableInit)(unat h := 7))"
  using handleAllocate_lowest [OF handleTableInit_ok, of 3 7] by simp

text \<open>Growing the array for a handle behind its end: the new size is a size of the table, not below the handle, and reaches the handle exactly for the sizes of a table.\<close>

lemma set_grows:
  assumes "table_ok t" "unat h < 0x10000" "\<not> h < h_count t"
  shows "\<exists>l u. tbl_set h obj t = kbind (tbl_store h obj u) (\<lambda>r. Inr (Some r)) \<and> table_ok u \<and> tbl_map u = tbl_map t \<and>
    unat (h_count u) = 0x100 * 2 ^ l \<and> h \<le> h_count u \<and> h_count t < h_count u \<and>
    (\<forall>j. h_count t < h \<and> unat h = 0x100 * 2 ^ j \<longrightarrow> h = h_count u)"
proof -
  obtain hs k where t: "handles t = Some hs" "length hs = unat (h_count t)" "k \<le> 8" "unat (h_count t) = 0x100 * 2 ^ k"
    using assms(1) by (auto elim!: table_okE)
  have "unat (h_count t) \<le> unat h" using assms(3) by (simp add: word_less_nat_alt)
  then have k: "k < 8" using t(3,4) assms(2) by (cases "k = 8") auto
  then have c: "unat (2 * h_count t) = 0x100 * 2 ^ Suc k"
    using t(4) power_increasing [of k 8 "2 :: nat"] by (simp add: unat_word_ariths)
  from grow_handles [OF c _ assms(2), of 32] k obtain r l where r: "grow_size 32 (2 * h_count t) h = Inr r" "Suc k \<le> l"
    "l \<le> 8" "unat r = 0x100 * 2 ^ l" "h \<le> r" "2 * h_count t < r \<longrightarrow> unat r < 2 * unat h" by auto
  have "(2 :: nat) ^ Suc k \<le> 2 ^ l" "(2 :: nat) ^ l \<le> 2 ^ 8" using r(2,3) by (intro power_increasing; simp)+
  then have bounds: "r \<le> MAX_HANDLES" "h_count t < r"
    using r(2,4) t(4) by (auto simp: word_le_nat_alt word_less_nat_alt MAX_HANDLES_def)
  then obtain u where u: "tbl_resize r t = Inr u" "table_ok u" "h_count u = r" "tbl_map u = tbl_map t"
    using resize_ok [OF assms(1) r(4,3)] by (auto simp: less_imp_le)
  have "\<not> MAX_HANDLES \<le> h" using assms(2) by (simp add: word_le_nat_alt MAX_HANDLES_def)
  then have run: "tbl_set h obj t = kbind (tbl_store h obj u) (\<lambda>r. Inr (Some r))"
    using assms(3) r(1) u(1) bounds by (auto simp: tbl_set_def not_less)
  have "h = r" if j: "h_count t < h" "unat h = 0x100 * 2 ^ j" for j
  proof (rule ccontr)
    assume h: "h \<noteq> r"
    then have "(2 :: nat) ^ k < 2 ^ j" "(2 :: nat) ^ j < 2 ^ l"
      using j t(4) r(4,5) by (auto simp: word_less_nat_alt word_le_nat_alt order_le_less word_unat_eq_iff)
    then have "k < j" "j < l" by (auto simp: power_strict_increasing_iff)
    then have "\<not> unat r < 2 * unat h" "2 * h_count t < r"
      using power_increasing [of "Suc j" l "2 :: nat"] power_strict_increasing [of "Suc k" l "2 :: nat"] j r(4) c
      by (auto simp: word_less_nat_alt)
    with r(6) show False by blast
  qed
  then show ?thesis using run u r(4,5) bounds(2) by blast
qed

text \<open>C31: \<^verbatim>\<open>handleSet\<close> with a number below \<^verbatim>\<open>MAX_HANDLES\<close> stores the object under exactly that number, hands
  back what was there and keeps the invariant, except that a number \<open>0x100 * 2 ^ j\<close> above the size of the
  array makes the source grow the array to exactly that many entries and then write behind its end.\<close>

theorem handleSet_bounds:
  assumes "table_ok t" "unat h < 0x10000" "obj \<noteq> 0"
  shows "if h_count t < h \<and> (\<exists>j. unat h = 0x100 * 2 ^ j) then tbl_set h obj t = Inl MemFault
    else \<exists>t'. tbl_set h obj t = Inr (Some (t', tbl_map t (unat h))) \<and> table_ok t' \<and>
      tbl_map t' = (tbl_map t)(unat h := obj)"
proof (cases "h < h_count t")
  case True
  moreover have "\<not> MAX_HANDLES \<le> h" using assms(2) by (simp add: word_le_nat_alt MAX_HANDLES_def)
  ultimately show ?thesis using store_in_range [OF assms(1) True assms(3)] by (auto simp: tbl_set_def not_le)
next
  case False
  from set_grows [OF assms(1,2) False, of obj] obtain l u where u: "tbl_set h obj t = kbind (tbl_store h obj u) (\<lambda>r. Inr (Some r))"
    "table_ok u" "tbl_map u = tbl_map t" "unat (h_count u) = 0x100 * 2 ^ l" "h \<le> h_count u" "h_count t < h_count u"
    "\<forall>j. h_count t < h \<and> unat h = 0x100 * 2 ^ j \<longrightarrow> h = h_count u" by blast
  show ?thesis
  proof (cases "h = h_count u")
    case True
    moreover have "tbl_store (h_count u) obj u = Inl MemFault" using u(2) by (auto elim!: table_okE simp: tbl_store_def tbl_get_def)
    ultimately show ?thesis using u(1,4,6) by auto
  next
    case h: False
    then have "h < h_count u" using u(5) by simp
    then show ?thesis using store_in_range [OF u(2) _ assms(3), of h] u(1,3,7) h by fastforce
  qed
qed

theorem handleSet_bounds_witness:
  "tbl_set 0x200 7 handleTableInit = Inl MemFault"
proof -
  have "unat (0x200 :: u32) = 0x100 * 2 ^ 1" by simp
  then have "\<exists>j. unat (0x200 :: u32) = 0x100 * 2 ^ j" by blast
  moreover have "h_count handleTableInit < 0x200" by (simp add: handleTableInit_def MIN_HANDLES_def)
  ultimately show ?thesis using handleSet_bounds [OF handleTableInit_ok, of "0x200" 7] by simp
qed

text \<open>\<^verbatim>\<open>handleRelease\<close> refuses a number that is not in use and leaves the table alone. Otherwise it removes
  exactly that number and hands out its object; shrinking the array loses no other
  handle, and the invariant is kept.\<close>

theorem handleRelease_exact:
  assumes "table_ok t"
  shows "if tbl_map t (unat h) = 0 then tbl_release h t = Inr None
    else \<exists>t'. tbl_release h t = Inr (Some (t', tbl_map t (unat h))) \<and> table_ok t' \<and>
      tbl_map t' = (tbl_map t)(unat h := 0)"
proof -
  obtain hs k where t: "handles t = Some hs" "length hs = unat (h_count t)" "k \<le> 8"
    "unat (h_count t) = 0x100 * 2 ^ k" "unat (free_end t) \<le> length hs" "length hs \<le> 0x10000"
    "\<forall>i. unat (free_end t) \<le> i \<and> i < length hs \<longrightarrow> hs ! i = 0"
    "\<forall>i. 3 \<le> i \<and> i < unat (free_begin t) \<longrightarrow> i < unat (free_end t) \<and> hs ! i \<noteq> 0"
    using assms(1) by (auto elim!: table_okE)
  show ?thesis
  proof (cases "tbl_map t (unat h) = 0")
    case True
    then show ?thesis using t(1,5) by (auto simp: tbl_release_def tbl_get_def tbl_map_def word_le_nat_alt)
  next
    case False
    then have h: "unat h < unat (free_end t)" "unat h < length hs" "hs ! unat h \<noteq> 0"
      using t(1,5,7) by (auto simp: tbl_map_def not_less split: if_splits)
    let ?hs = "hs[unat h := 0]"
    define b where "b = (if h < free_begin t then h else free_begin t)"
    have b: "unat b = min (unat h) (unat (free_begin t))" by (auto simp: b_def word_less_nat_alt)
    define u where "u = t\<lparr>handles := Some ?hs, free_begin := b\<rparr>"
    have map_u: "tbl_map u = (tbl_map t)(unat h := 0)"
      using t(1) h(2) by (auto simp: u_def tbl_map_def fun_eq_iff nth_list_update)
    have "table_ok u"
      using t h b by (intro table_okI [where hs = ?hs and k = k]) (auto simp: u_def nth_list_update dest: less_le_trans)
    then obtain v where "tbl_trim h u = Inr v" "table_ok v" "tbl_map v = tbl_map u" using trim_ok by blast
    moreover have "\<not> free_end t \<le> h" using h(1) by (simp add: word_le_nat_alt)
    then have "tbl_release h t = kbind (tbl_trim h u) (\<lambda>t'. Inr (Some (t', tbl_map t (unat h))))"
      using t(1) h False by (auto simp: tbl_release_def tbl_get_def tbl_put_def Let_def u_def b_def tbl_map_nth [OF t(1)])
    ultimately show ?thesis using map_u False by auto
  qed
qed

theorem handleRelease_exact_witness:
  "\<exists>t'. tbl_release 5 (handleTableInit\<lparr>handles := Some ((replicate (unat MIN_HANDLES) 0)[5 := 9]), free_end := 6\<rparr>) =
    Inr (Some (t', 9)) \<and> table_ok t'"
proof -
  let ?t = "handleTableInit\<lparr>handles := Some ((replicate (unat MIN_HANDLES) 0)[5 := 9]), free_end := 6\<rparr>"
  have "table_ok ?t"
    by (rule table_okI [where k = 0 and hs = "(replicate (unat MIN_HANDLES) 0)[5 := 9]"])
      (auto simp: handleTableInit_def MIN_HANDLES_def nth_list_update)
  moreover have "tbl_map ?t (unat (5 :: u32)) = 9" by (simp add: tbl_map_def MIN_HANDLES_def)
  ultimately show ?thesis using handleRelease_exact [of ?t 5] by auto
qed

end
