(* ===== verification/Process.thy ===== *)
theory Process
  imports Thread Handle
begin

text \<open>
  Processes (\<^verbatim>\<open>process/process.c\<close>). The page directory and page tables of a process are in the
  paging state under the address of the process. The callbacks are the object layer's signal,
  release and shutdown.
\<close>

unbundle bit_operations_syntax

definition USERMODE_KERNELSTACK_ADDRESS :: u32 where "USERMODE_KERNELSTACK_ADDRESS = 0xFF800000"
definition USERMODE_GDT_ADDRESS :: u32 where "USERMODE_GDT_ADDRESS = 0xFF801000"
definition USERMODE_IDT_ADDRESS :: u32 where "USERMODE_IDT_ADDRESS = 0xFF811000"
definition USERMODE_INTJMP_ADDRESS :: u32 where "USERMODE_INTJMP_ADDRESS = 0xFF812000"
definition USERMODE_TASK_ADDRESS :: u32 where "USERMODE_TASK_ADDRESS = 0xFF813000"
definition GDT_MAX_PAGES :: u32 where "GDT_MAX_PAGES = 16"

text \<open>The fields which \<^verbatim>\<open>processCreate\<close> sets before and after the memory is set up.\<close>

definition blank_process :: process where
  "blank_process = \<lparr>pr_exitcode = - 1, threads = [], entryPoint = 0, user_programArgumentsBase = 0,
     user_programArgumentsLength = 0, user_environmentVariablesBase = 0,
     user_environmentVariablesLength = 0, pr_handles = handleTableInit\<lparr>handles := None\<rparr>\<rparr>"

definition mapFromKernel :: "addr \<Rightarrow> u32 \<Rightarrow> u32 \<Rightarrow> u32 \<Rightarrow> bool \<Rightarrow> kst \<Rightarrow> kst kres" where
  "mapFromKernel p dst src len rw s =
     kbind (with_mem (pagingMapRemoteMemory (getPagingEntry p) (getPagingEntry 0) dst src len rw False) s) (\<lambda>(s, _). Inr s)"

definition processCreate :: "addr \<Rightarrow> kst \<Rightarrow> (kst \<times> addr) kres" where
  "processCreate original s =
     (let (s, p) = heapAlloc_obj s
      in if p = 0 then Inr (s, 0)
         else let s = objectInit p (Process blank_process) s;
                  s = s\<lparr>queue := (queue s)(Waiters p := []), processList := processList s @ [p],
                        mem := set_proc p ((procMem (mem s) p)\<lparr>pageDirectory := 0\<rparr>) (mem s)\<rparr>
              in kbind (
                   if original = 0
                   then kbind (set_handles p handleTableInit s) (\<lambda>s.
                        kbind (with_mem0 (pagingAllocProcessPageTable p) s) (\<lambda>s.
                        kbind (mapFromKernel p USERMODE_KERNELSTACK_ADDRESS (kernelStack s) 1 True s) (\<lambda>s.
                        kbind (mapFromKernel p USERMODE_GDT_ADDRESS USERMODE_GDT_ADDRESS GDT_MAX_PAGES False s) (\<lambda>s.
                        kbind (mapFromKernel p USERMODE_IDT_ADDRESS USERMODE_IDT_ADDRESS 1 False s) (\<lambda>s.
                        kbind (mapFromKernel p USERMODE_INTJMP_ADDRESS (intJmpTable_user s) 1 False s) (\<lambda>s.
                        mapFromKernel p USERMODE_TASK_ADDRESS USERMODE_TASK_ADDRESS 1 False s))))))
                   else kbind (handleForkTable p original s) (\<lambda>s.
                        with_mem0 (pagingForkProcessPageTable p original) s)) (\<lambda>s.
                 kbind (upd_process p (\<lambda>x. x\<lparr>user_programArgumentsBase := 0, user_programArgumentsLength := 0,
                   user_environmentVariablesBase := 0, user_environmentVariablesLength := 0\<rparr>) s) (\<lambda>s.
                 Inr (s, p))))"

text \<open>Releasing the page tables and the handles, if that was not done yet.\<close>

definition freeProcessMemory :: "releaseFun \<Rightarrow> addr \<Rightarrow> kst \<Rightarrow> kst kres" where
  "freeProcessMemory release p s =
     kbind (if pageDirectory (procMem (mem s) p) \<noteq> 0 then with_mem0 (pagingReleaseProcessPageTable p) s else Inr s) (\<lambda>s.
     kbind (get_process p s) (\<lambda>x.
       if handles (pr_handles x) \<noteq> None then handleTableFree release p s else Inr s))"

definition processDestroy :: "releaseFun \<Rightarrow> addr \<Rightarrow> kst \<Rightarrow> kst kres" where
  "processDestroy release p s =
     kbind (get_process p s) (\<lambda>x.
     kassert (queue s (Waiters p) = []) (
     kassert (threads x = []) (
     kbind (freeProcessMemory release p s) (\<lambda>s.
     Inr (heapFree_obj p (s\<lparr>processList := remove1 p (processList s)\<rparr>))))))"

text \<open>\<^verbatim>\<open>LL_FOR_EACH_SAFE\<close> over the threads of the process: the next one is remembered before the current
  one is shut down.\<close>

primrec shutdown_threads :: "addr list \<Rightarrow> shutdownFun \<Rightarrow> addr \<Rightarrow> kst \<Rightarrow> kst kres" where
  "shutdown_threads [] shutdown p s = Inr s"
| "shutdown_threads (t # ts) shutdown p s =
     kbind (get_process p s) (\<lambda>x.
       if t \<notin> set (threads x) then Inl StaleIteration
       else kbind (shutdown t (pr_exitcode x) s) (\<lambda>s. shutdown_threads ts shutdown p s))"

definition processShutdown :: "signalFun \<Rightarrow> releaseFun \<Rightarrow> shutdownFun \<Rightarrow> addr \<Rightarrow> u32 \<Rightarrow> kst \<Rightarrow> kst kres" where
  "processShutdown sig release shutdown p exitcode s =
     kbind (upd_process p (\<lambda>x. x\<lparr>pr_exitcode := exitcode\<rparr>) s) (\<lambda>s.
     kbind (objectAddRef p s) (\<lambda>s.
     kbind (queueWakeup sig (Waiters p) True exitcode s) (\<lambda>s.
     kbind (get_process p s) (\<lambda>x.
     kbind (shutdown_threads (threads x) shutdown p s) (\<lambda>s.
     kbind (freeProcessMemory release p s) (\<lambda>s.
     release p s))))))"

definition processGetStatus :: "addr \<Rightarrow> u32 \<Rightarrow> kst \<Rightarrow> u32 kres" where
  "processGetStatus p mode s = kbind (get_process p s) (\<lambda>x. Inr (if threads x = [] then pr_exitcode x else - 1))"

definition processWait :: "addr \<Rightarrow> u32 \<Rightarrow> kst \<Rightarrow> (kst \<times> waitResult) kres" where
  "processWait p mode s =
     kbind (get_process p s) (\<lambda>x.
       Inr (s, if threads x \<noteq> [] then WaitOn (Waiters p) else Result (pr_exitcode x)))"

definition processCount :: "kst \<Rightarrow> u32" where
  "processCount s = fold (\<lambda>_ c. c + 1) (processList s) 0"

section \<open>Information about processes\<close>

record fullProcessInfo = processInfo +
  processID :: u32
  info_handleCount :: u32
  numberOfTotalThreads :: u32
  numberOfBlockedThreads :: u32

definition blank_info :: fullProcessInfo where
  "blank_info = \<lparr>pagesPhysical = 0, pagesShared = 0, pagesNoFork = 0, pagesReserved = 0, pagesOutpaged = 0,
     processID = 0, info_handleCount = 0, numberOfTotalThreads = 0, numberOfBlockedThreads = 0\<rparr>"

primrec count_threads :: "addr list \<Rightarrow> kst \<Rightarrow> fullProcessInfo \<Rightarrow> fullProcessInfo kres" where
  "count_threads [] s info = Inr info"
| "count_threads (t # ts) s info =
     kbind (get_thread t s) (\<lambda>x.
       count_threads ts s (info\<lparr>numberOfTotalThreads := numberOfTotalThreads info + 1,
         numberOfBlockedThreads := numberOfBlockedThreads info + (if th_blocked x then 1 else 0)\<rparr>))"

primrec info_processes :: "addr list \<Rightarrow> nat \<Rightarrow> kst \<Rightarrow> (kst \<times> fullProcessInfo list) kres" where
  "info_processes [] count s = Inr (s, [])"
| "info_processes (p # ps) count s =
     (if count = 0 then info_processes ps count s
      else kbind (with_mem (pagingFillProcessInfo p blank_info) s) (\<lambda>(s, info).
           kbind (get_process p s) (\<lambda>x.
           kbind (if handles (pr_handles x) \<noteq> None then handleCount (pr_handles x) else Inr 0) (\<lambda>h.
           kbind (count_threads (threads x) s (info\<lparr>processID := word_of_nat p, info_handleCount := h,
             numberOfTotalThreads := 0, numberOfBlockedThreads := 0\<rparr>)) (\<lambda>info.
           kbind (info_processes ps (count - 1) s) (\<lambda>(s, infos). Inr (s, info # infos)))))))"

text \<open>\<^verbatim>\<open>processInfo\<close>: the entries it writes to the array, and the number of processes it returns.\<close>

definition processInfo_all :: "u32 \<Rightarrow> kst \<Rightarrow> (kst \<times> fullProcessInfo list \<times> u32) kres" where
  "processInfo_all count s =
     kbind (if count \<noteq> 0
            then kbind (with_mem (pagingFillProcessInfo 0 blank_info) s) (\<lambda>(s, info).
                 Inr (s, [info\<lparr>processID := 0, info_handleCount := 0, numberOfTotalThreads := 0,
                               numberOfBlockedThreads := 0\<rparr>]))
            else Inr (s, [])) (\<lambda>(s, first).
     kbind (info_processes (processList s) (unat count - 1) s) (\<lambda>(s, infos).
     Inr (s, first @ infos, fold (\<lambda>_ c. c + 1) (processList s) 0)))"

lemma fold_count: "fold (\<lambda>_ c. c + 1) xs (n :: u32) = n + word_of_nat (length xs)"
  by (induction xs arbitrary: n) (auto simp: algebra_simps)

lemma processCount_length: "processCount s = word_of_nat (length (processList s))"
  by (simp add: processCount_def fold_count)

end
