(* ===== verification/Filesystem.thy ===== *)
theory Filesystem
  imports Util Objects
begin

text \<open>
  The file system in memory (\<^verbatim>\<open>process/filesystem.c\<close>): directories, files, opened files and
  directories, path lookup and the import of a tar archive.

  The files and sub-directories of a directory \<open>d\<close> are the queues \<open>Files d\<close> and \<open>Directories d\<close>. A name
  and the content of a file are lists of bytes, \<open>None\<close> for \<^verbatim>\<open>NULL\<close>; names end with a nul byte as in the
  source. A path is the bytes from the pointer to the end of the buffer it points into, with
  its length as a separate number, because the source reads behind that length in one place.
  The callbacks are \<^verbatim>\<open>__objectRelease\<close> and \<^verbatim>\<open>__objectShutdown\<close>.
\<close>

unbundle bit_operations_syntax

definition get_directory :: "addr \<Rightarrow> kst \<Rightarrow> directory kres" where
  "get_directory a s = kbind (object_at a s) (\<lambda>x. case x of Directory v \<Rightarrow> Inr v | _ \<Rightarrow> Inl AssertFailed)"

definition get_file :: "addr \<Rightarrow> kst \<Rightarrow> fileNode kres" where
  "get_file a s = kbind (object_at a s) (\<lambda>x. case x of File v \<Rightarrow> Inr v | _ \<Rightarrow> Inl AssertFailed)"

definition get_openedDirectory :: "addr \<Rightarrow> kst \<Rightarrow> openedDirectory kres" where
  "get_openedDirectory a s = kbind (object_at a s) (\<lambda>x. case x of OpenedDirectory v \<Rightarrow> Inr v | _ \<Rightarrow> Inl AssertFailed)"

definition get_openedFile :: "addr \<Rightarrow> kst \<Rightarrow> openedFile kres" where
  "get_openedFile a s = kbind (object_at a s) (\<lambda>x. case x of OpenedFile v \<Rightarrow> Inr v | _ \<Rightarrow> Inl AssertFailed)"

definition set_file :: "addr \<Rightarrow> fileNode \<Rightarrow> kst \<Rightarrow> kst" where "set_file a f s = set_obj a (File f) s"
definition set_directory :: "addr \<Rightarrow> directory \<Rightarrow> kst \<Rightarrow> kst" where "set_directory a d s = set_obj a (Directory d) s"
definition set_openedFile :: "addr \<Rightarrow> openedFile \<Rightarrow> kst \<Rightarrow> kst" where "set_openedFile a h s = set_obj a (OpenedFile h) s"

text \<open>\<^verbatim>\<open>heapAlloc\<close> and \<^verbatim>\<open>heapReAlloc\<close> of a buffer: \<^verbatim>\<open>NULL\<close> for length 0.\<close>

definition heapAlloc_buf :: "u32 \<Rightarrow> u8 list option" where
  "heapAlloc_buf n = (if n = 0 then None else Some (replicate (unat n) 0))"

definition heapReAlloc_buf :: "u8 list \<Rightarrow> u32 \<Rightarrow> u8 list option" where
  "heapReAlloc_buf b n = (if n = 0 then None else Some (buf_resize (unat n) b))"

section \<open>Names\<close>

definition dot :: "u8 list" where "dot = [0x2E, 0]"
definition dotdot :: "u8 list" where "dotdot = [0x2E, 0x2E, 0]"

definition isReservedName :: "u8 list \<Rightarrow> nat \<Rightarrow> bool kres" where
  "isReservedName buf len =
     kbind (stringIsEqual (Some dot) buf len) (\<lambda>b. if b then Inr True else stringIsEqual (Some dotdot) buf len)"

text \<open>\<^verbatim>\<open>LL_FOR_EACH\<close> over files (or directories): the first one with the given name, without \<open>current\<close>.\<close>

primrec find_file :: "addr list \<Rightarrow> addr \<Rightarrow> u8 list \<Rightarrow> nat \<Rightarrow> kst \<Rightarrow> addr kres" where
  "find_file [] current buf len s = Inr 0"
| "find_file (a # as) current buf len s =
     (if a = current then find_file as current buf len s
      else kbind (get_file a s) (\<lambda>f.
           kbind (stringIsEqual (f_name f) buf len) (\<lambda>b.
           if b then Inr a else find_file as current buf len s)))"

primrec find_directory :: "addr list \<Rightarrow> addr \<Rightarrow> u8 list \<Rightarrow> nat \<Rightarrow> kst \<Rightarrow> addr kres" where
  "find_directory [] current buf len s = Inr 0"
| "find_directory (a # as) current buf len s =
     (if a = current then find_directory as current buf len s
      else kbind (get_directory a s) (\<lambda>d.
           kbind (stringIsEqual (d_name d) buf len) (\<lambda>b.
           if b then Inr a else find_directory as current buf len s)))"

definition isValidFilename :: "addr \<Rightarrow> addr \<Rightarrow> u8 list \<Rightarrow> nat \<Rightarrow> kst \<Rightarrow> bool kres" where
  "isValidFilename current parent buf len s =
     kbind (isReservedName buf len) (\<lambda>r.
       if r then Inr False
       else if parent = 0 then Inr True
       else kbind (find_file (queue s (Files parent)) current buf len s) (\<lambda>f.
            if f \<noteq> 0 then Inr False
            else kbind (find_directory (queue s (Directories parent)) current buf len s) (\<lambda>d.
                 Inr (d = 0))))"

text \<open>Copy a name and append a nul byte.\<close>

definition copy_name :: "u8 list \<Rightarrow> nat \<Rightarrow> u8 list kres" where
  "copy_name name len = (if len \<le> length name then Inr (take len name @ [0]) else Inl MemFault)"

text \<open>The common part of \<^verbatim>\<open>__fileWrite\<close> and \<^verbatim>\<open>__directoryWrite\<close>: the new name, or \<open>None\<close> if it is not valid.\<close>

definition new_name :: "addr \<Rightarrow> addr \<Rightarrow> u8 list \<Rightarrow> u32 \<Rightarrow> kst \<Rightarrow> (u8 list option \<times> nat) option kres" where
  "new_name current parent buf len s =
     kbind (trim_nul buf (unat len)) (\<lambda>len.
       if len = 0 then Inr (Some (None, 0))
       else kbind (isValidFilename current parent buf len s) (\<lambda>v.
            if \<not> v then Inr None
            else kbind (copy_name buf len) (\<lambda>name. Inr (Some (Some name, len)))))"

text \<open>The common part of \<^verbatim>\<open>__fileRead\<close>, \<^verbatim>\<open>__directoryRead\<close> and \<^verbatim>\<open>__openedDirectoryRead\<close>.\<close>

definition read_name :: "u8 list \<Rightarrow> u32 \<Rightarrow> u8 list kres" where
  "read_name name len =
     kbind (stringLength (Some name)) (\<lambda>n.
       let file_length = n + 1;
           len = (if len > file_length then file_length else len)
       in buf_read 0 (unat len) name)"

section \<open>Directories\<close>

definition directoryCreate :: "addr \<Rightarrow> u8 list option \<Rightarrow> nat \<Rightarrow> kst \<Rightarrow> (kst \<times> addr) kres" where
  "directoryCreate parent name nameLength s =
     (let (s, a) = heapAlloc_obj s
      in if a = 0 then Inr (s, 0)
         else kbind (case name of None \<Rightarrow> Inr None
                     | Some n \<Rightarrow> kbind (copy_name n nameLength) (\<lambda>b. Inr (Some b))) (\<lambda>buffer.
              let s = objectInit a (Directory \<lparr>d_parent = parent, d_name = buffer\<rparr>) s;
                  s = s\<lparr>queue := (queue s)(OpenedDirectories a := [], Files a := [], Directories a := [])\<rparr>
              in if parent \<noteq> 0
                 then kbind (ll_add_tail_obj (Directories parent) a s) (\<lambda>s.
                      kbind (objectAddRef a s) (\<lambda>s. Inr (s, a)))
                 else Inr (s, a)))"

primrec shutdown_childs :: "addr list \<Rightarrow> qid \<Rightarrow> shutdownFun \<Rightarrow> kst \<Rightarrow> kst kres" where
  "shutdown_childs [] q shutdown s = Inr s"
| "shutdown_childs (f # fs) q shutdown s =
     (if f \<notin> set (queue s q) then Inl StaleIteration
      else kbind (shutdown f 0 s) (\<lambda>s. shutdown_childs fs q shutdown s))"

definition directoryShutdownChilds :: "shutdownFun \<Rightarrow> addr \<Rightarrow> kst \<Rightarrow> kst kres" where
  "directoryShutdownChilds shutdown d s =
     kbind (shutdown_childs (queue s (Files d)) (Files d) shutdown s) (\<lambda>s.
     shutdown_childs (queue s (Directories d)) (Directories d) shutdown s)"

definition directoryDestroy :: "shutdownFun \<Rightarrow> addr \<Rightarrow> kst \<Rightarrow> kst kres" where
  "directoryDestroy shutdown a s =
     kbind (get_directory a s) (\<lambda>d.
     kassert (d_parent d = 0) (
     kbind (directoryShutdownChilds shutdown a s) (\<lambda>s.
     kassert (queue s (Files a) = [] \<and> queue s (Directories a) = []) (Inr (heapFree_obj a s)))))"

definition directoryShutdown :: "releaseFun \<Rightarrow> addr \<Rightarrow> u32 \<Rightarrow> kst \<Rightarrow> kst kres" where
  "directoryShutdown release a mode s =
     kbind (get_directory a s) (\<lambda>d.
       if d_parent d \<noteq> 0
       then kbind (ll_remove_obj a s) (\<lambda>s. release a (set_directory a (d\<lparr>d_parent := 0\<rparr>) s))
       else Inr s)"

definition directoryWrite :: "addr \<Rightarrow> u8 list \<Rightarrow> u32 \<Rightarrow> kst \<Rightarrow> (kst \<times> u32) kres" where
  "directoryWrite a buf len s =
     kbind (get_directory a s) (\<lambda>d.
     kbind (new_name a (d_parent d) buf len s) (\<lambda>r.
       case r of None \<Rightarrow> Inr (s, - 1)
       | Some (name, n) \<Rightarrow> Inr (set_directory a (d\<lparr>d_name := name\<rparr>) s, word_of_nat n)))"

definition directoryRead :: "addr \<Rightarrow> u32 \<Rightarrow> kst \<Rightarrow> (kst \<times> u8 list option) kres" where
  "directoryRead a len s =
     kbind (get_directory a s) (\<lambda>d.
       case d_name d of None \<Rightarrow> Inr (s, None)
       | Some name \<Rightarrow> kbind (read_name name len) (\<lambda>bs. Inr (s, Some bs)))"

section \<open>Files\<close>

definition fileCreate :: "addr \<Rightarrow> u8 list option \<Rightarrow> nat \<Rightarrow> u8 list option \<Rightarrow> u32 \<Rightarrow> kst \<Rightarrow> (kst \<times> addr) kres" where
  "fileCreate parent name nameLength staticBuffer staticSize s =
     (let (s, a) = heapAlloc_obj s
      in if a = 0 then Inr (s, 0)
         else kbind (case name of None \<Rightarrow> Inr None
                     | Some n \<Rightarrow> kbind (copy_name n nameLength) (\<lambda>b. Inr (Some b))) (\<lambda>buffer.
              let s = objectInit a (File \<lparr>f_parent = parent, f_name = buffer, isHeap = (staticBuffer = None),
                        f_buffer = staticBuffer, f_size = (if staticBuffer = None then 0 else staticSize)\<rparr>) s;
                  s = s\<lparr>queue := (queue s)(OpenedFiles a := [])\<rparr>
              in if parent \<noteq> 0
                 then kbind (ll_add_tail_obj (Files parent) a s) (\<lambda>s.
                      kbind (objectAddRef a s) (\<lambda>s. Inr (s, a)))
                 else Inr (s, a)))"

definition fileDestroy :: "addr \<Rightarrow> kst \<Rightarrow> kst kres" where
  "fileDestroy a s = kbind (get_file a s) (\<lambda>f. kassert (f_parent f = 0) (Inr (heapFree_obj a s)))"

definition fileShutdown :: "releaseFun \<Rightarrow> addr \<Rightarrow> u32 \<Rightarrow> kst \<Rightarrow> kst kres" where
  "fileShutdown release a mode s =
     kbind (get_file a s) (\<lambda>f.
       if f_parent f \<noteq> 0
       then kbind (ll_remove_obj a s) (\<lambda>s. release a (set_file a (f\<lparr>f_parent := 0\<rparr>) s))
       else Inr s)"

definition fileGetStatus :: "addr \<Rightarrow> u32 \<Rightarrow> kst \<Rightarrow> u32 kres" where
  "fileGetStatus a mode s = kbind (get_file a s) (\<lambda>f. Inr (f_size f))"

definition fileWrite :: "addr \<Rightarrow> u8 list \<Rightarrow> u32 \<Rightarrow> kst \<Rightarrow> (kst \<times> u32) kres" where
  "fileWrite a buf len s =
     kbind (get_file a s) (\<lambda>f.
     kbind (new_name a (f_parent f) buf len s) (\<lambda>r.
       case r of None \<Rightarrow> Inr (s, - 1)
       | Some (name, n) \<Rightarrow> Inr (set_file a (f\<lparr>f_name := name\<rparr>) s, word_of_nat n)))"

definition fileRead :: "addr \<Rightarrow> u32 \<Rightarrow> kst \<Rightarrow> (kst \<times> u8 list option) kres" where
  "fileRead a len s =
     kbind (get_file a s) (\<lambda>f.
       case f_name f of None \<Rightarrow> Inr (s, None)
       | Some name \<Rightarrow> kbind (read_name name len) (\<lambda>bs. Inr (s, Some bs)))"

section \<open>Opened files\<close>

definition fileOpen :: "addr \<Rightarrow> kst \<Rightarrow> (kst \<times> addr) kres" where
  "fileOpen f s =
     kassert (f \<noteq> 0) (
     let (s, h) = heapAlloc_obj s
     in if h = 0 then Inr (s, 0)
        else kbind (ll_add_tail_obj (OpenedFiles f) h (objectInit h (OpenedFile \<lparr>of_file = f, of_pos = 0\<rparr>) s)) (\<lambda>s.
             kbind (objectAddRef f s) (\<lambda>s. Inr (s, h))))"

definition openedFileDestroy :: "releaseFun \<Rightarrow> addr \<Rightarrow> kst \<Rightarrow> kst kres" where
  "openedFileDestroy release a s =
     kbind (get_openedFile a s) (\<lambda>h.
     kassert (of_file h \<noteq> 0) (
     kbind (ll_remove_obj a s) (\<lambda>s. release (of_file h) (heapFree_obj a s))))"

text \<open>The operations on the content, on the file and the position alone.\<close>

definition file_truncate :: "u32 \<Rightarrow> fileNode \<Rightarrow> fileNode" where
  "file_truncate pos f =
     (if pos < f_size f
      then let f = (case f_buffer f of
                      Some b \<Rightarrow> if isHeap f
                                then let new_buffer = heapReAlloc_buf b pos
                                     in if new_buffer \<noteq> None \<or> pos = 0 then f\<lparr>f_buffer := new_buffer\<rparr> else f
                                else f
                    | None \<Rightarrow> f)
           in f\<lparr>f_size := pos\<rparr>
      else f)"

definition file_grow :: "u32 \<Rightarrow> u32 \<Rightarrow> fileNode \<Rightarrow> (fileNode \<times> u32) option kres" where
  "file_grow pos len f =
     (let new_buffer = (case f_buffer f of
                          Some b \<Rightarrow> if isHeap f then heapReAlloc_buf b (pos + len) else heapAlloc_buf (pos + len)
                        | None \<Rightarrow> heapAlloc_buf (pos + len))
      in case new_buffer of
           Some nb \<Rightarrow>
             kbind (case f_buffer f of
                      Some b \<Rightarrow> if \<not> isHeap f then kbind (buf_read 0 (unat (f_size f)) b) (\<lambda>d. buf_write 0 d nb) else Inr nb
                    | None \<Rightarrow> Inr nb) (\<lambda>nb.
             kbind (if pos > f_size f
                    then buf_write (unat (f_size f)) (replicate (unat (pos - f_size f)) 0) nb else Inr nb) (\<lambda>nb.
             Inr (Some (f\<lparr>isHeap := True, f_buffer := Some nb, f_size := pos + len\<rparr>, len))))
         | None \<Rightarrow>
             if isHeap f \<and> pos < f_size f
             then kassert (f_size f - pos < len) (Inr (Some (f, f_size f - pos)))
             else Inr None)"

definition file_write :: "u8 list \<Rightarrow> u32 \<Rightarrow> u32 \<Rightarrow> fileNode \<Rightarrow> (fileNode \<times> u32) kres" where
  "file_write buf len pos f =
     (if len = 0 then Inr (f, 0)
      else kbind (if pos + len > f_size f then file_grow pos len f else Inr (Some (f, len))) (\<lambda>r.
        case r of None \<Rightarrow> Inr (f, 0)
        | Some (f, len) \<Rightarrow>
            (case f_buffer f of None \<Rightarrow> Inl MemFault
             | Some b \<Rightarrow> kbind (buf_read 0 (unat len) buf) (\<lambda>d.
                         kbind (buf_write (unat pos) d b) (\<lambda>b.
                         Inr (f\<lparr>f_buffer := Some b\<rparr>, len))))))"

definition file_read :: "u32 \<Rightarrow> u32 \<Rightarrow> fileNode \<Rightarrow> u8 list option kres" where
  "file_read len pos f =
     (if pos \<ge> f_size f then Inr None
      else let len = (if len > f_size f - pos then f_size f - pos else len)
           in if len > 0
              then (case f_buffer f of None \<Rightarrow> Inl MemFault
                    | Some b \<Rightarrow> kbind (buf_read (unat pos) (unat len) b) (\<lambda>d. Inr (Some d)))
              else Inr (Some []))"

definition openedFileShutdown :: "addr \<Rightarrow> u32 \<Rightarrow> kst \<Rightarrow> kst kres" where
  "openedFileShutdown a mode s =
     kbind (get_openedFile a s) (\<lambda>h.
     kbind (get_file (of_file h) s) (\<lambda>f.
     Inr (set_file (of_file h) (file_truncate (of_pos h) f) s)))"

definition openedFileGetStatus :: "addr \<Rightarrow> u32 \<Rightarrow> kst \<Rightarrow> u32 kres" where
  "openedFileGetStatus a mode s =
     kbind (get_openedFile a s) (\<lambda>h.
       if mode \<noteq> 0 then Inr (of_pos h) else kbind (get_file (of_file h) s) (\<lambda>f. Inr (f_size f)))"

definition openedFileSignal :: "addr \<Rightarrow> u32 \<Rightarrow> kst \<Rightarrow> kst kres" where
  "openedFileSignal a result s =
     kbind (get_openedFile a s) (\<lambda>h. Inr (set_openedFile a (h\<lparr>of_pos := result\<rparr>) s))"

definition openedFileWrite :: "addr \<Rightarrow> u8 list \<Rightarrow> u32 \<Rightarrow> kst \<Rightarrow> (kst \<times> u32) kres" where
  "openedFileWrite a buf len s =
     kbind (get_openedFile a s) (\<lambda>h.
     kbind (get_file (of_file h) s) (\<lambda>f.
     kbind (file_write buf len (of_pos h) f) (\<lambda>(f, n).
     Inr (set_openedFile a (h\<lparr>of_pos := of_pos h + n\<rparr>) (set_file (of_file h) f s), n))))"

definition openedFileRead :: "addr \<Rightarrow> u32 \<Rightarrow> kst \<Rightarrow> (kst \<times> u8 list option) kres" where
  "openedFileRead a len s =
     kbind (get_openedFile a s) (\<lambda>h.
     kbind (get_file (of_file h) s) (\<lambda>f.
     kbind (file_read len (of_pos h) f) (\<lambda>r.
       case r of None \<Rightarrow> Inr (s, None)
       | Some d \<Rightarrow> Inr (set_openedFile a (h\<lparr>of_pos := of_pos h + word_of_nat (length d)\<rparr>) s, Some d))))"

section \<open>Opened directories\<close>

definition directoryOpen :: "addr \<Rightarrow> kst \<Rightarrow> (kst \<times> addr) kres" where
  "directoryOpen d s =
     kassert (d \<noteq> 0) (
     let (s, h) = heapAlloc_obj s
     in if h = 0 then Inr (s, 0)
        else kbind (ll_add_tail_obj (OpenedDirectories d) h
                      (objectInit h (OpenedDirectory \<lparr>od_directory = d, od_pos = 0\<rparr>) s)) (\<lambda>s.
             kbind (objectAddRef d s) (\<lambda>s. Inr (s, h))))"

definition openedDirectoryDestroy :: "releaseFun \<Rightarrow> addr \<Rightarrow> kst \<Rightarrow> kst kres" where
  "openedDirectoryDestroy release a s =
     kbind (get_openedDirectory a s) (\<lambda>h.
     kassert (od_directory h \<noteq> 0) (
     kbind (ll_remove_obj a s) (\<lambda>s.
     kbind (if od_pos h \<noteq> 0 then release (od_pos h) s else Inr s) (\<lambda>s.
     release (od_directory h) (heapFree_obj a s)))))"

text \<open>The entries of a list from the one behind \<open>a\<close> on (all of them for \<open>0\<close>); an element that is
  not in the list any more has stale links.\<close>

definition entries_behind :: "qid \<Rightarrow> addr \<Rightarrow> kst \<Rightarrow> addr list kres" where
  "entries_behind q a s =
     (if a = 0 then Inr (queue s q)
      else if linked s a = Some q then Inr (drop 1 (dropWhile (\<lambda>b. b \<noteq> a) (queue s q)))
      else Inl StaleIteration)"

primrec first_named_file :: "addr list \<Rightarrow> kst \<Rightarrow> (addr \<times> u8 list) option kres" where
  "first_named_file [] s = Inr None"
| "first_named_file (a # as) s =
     kbind (get_file a s) (\<lambda>f. case f_name f of None \<Rightarrow> first_named_file as s | Some n \<Rightarrow> Inr (Some (a, n)))"

primrec first_named_directory :: "addr list \<Rightarrow> kst \<Rightarrow> (addr \<times> u8 list) option kres" where
  "first_named_directory [] s = Inr None"
| "first_named_directory (a # as) s =
     kbind (get_directory a s) (\<lambda>d. case d_name d of None \<Rightarrow> first_named_directory as s | Some n \<Rightarrow> Inr (Some (a, n)))"

text \<open>The entry which \<^verbatim>\<open>__openedDirectoryRead\<close> moves to: the next named file, then the next named
  directory.\<close>

definition next_entry :: "openedDirectory \<Rightarrow> kst \<Rightarrow> (addr \<times> u8 list) option kres" where
  "next_entry h s =
     (let dir = od_directory h; pos = od_pos h in
      kbind (if pos = 0 then Inr (Inl ())
             else kbind (object_at pos s) (\<lambda>x. case x of File _ \<Rightarrow> Inr (Inl ()) | Directory _ \<Rightarrow> Inr (Inr ())
                                                       | _ \<Rightarrow> Inl AssertFailed)) (\<lambda>kind.
        case kind of
          Inl _ \<Rightarrow>
            kbind (entries_behind (Files dir) pos s) (\<lambda>fs.
            kbind (first_named_file fs s) (\<lambda>r.
              case r of Some e \<Rightarrow> Inr (Some e) | None \<Rightarrow> first_named_directory (queue s (Directories dir)) s))
        | Inr _ \<Rightarrow>
            kbind (entries_behind (Directories dir) pos s) (\<lambda>ds. first_named_directory ds s)))"

definition openedDirectoryRead :: "addr \<Rightarrow> u32 \<Rightarrow> kst \<Rightarrow> (kst \<times> u8 list option) kres" where
  "openedDirectoryRead a len s =
     kbind (get_openedDirectory a s) (\<lambda>h.
     kbind (next_entry h s) (\<lambda>r.
       case r of
         None \<Rightarrow> Inr (set_obj a (OpenedDirectory (h\<lparr>od_pos := 0\<rparr>)) s, None)
       | Some (e, name) \<Rightarrow>
           kbind (read_name name len) (\<lambda>bs.
           Inr (set_obj a (OpenedDirectory (h\<lparr>od_pos := e\<rparr>)) s, Some bs))))"

definition fileSystemIsValidDirectory :: "addr \<Rightarrow> kst \<Rightarrow> addr kres" where
  "fileSystemIsValidDirectory a s =
     (if a = 0 then Inr 0
      else kbind (object_at a s) (\<lambda>x. case x of
        OpenedDirectory h \<Rightarrow>
          if od_pos h = 0 then Inr 0
          else kbind (object_at (od_pos h) s) (\<lambda>y. Inr (case y of Directory _ \<Rightarrow> od_pos h | _ \<Rightarrow> 0))
      | Directory _ \<Rightarrow> Inr a
      | _ \<Rightarrow> Inr 0))"

definition fileSystemIsValidFile :: "addr \<Rightarrow> kst \<Rightarrow> addr kres" where
  "fileSystemIsValidFile a s =
     (if a = 0 then Inr 0
      else kbind (object_at a s) (\<lambda>x. case x of
        OpenedDirectory h \<Rightarrow>
          if od_pos h = 0 then Inr 0
          else kbind (object_at (od_pos h) s) (\<lambda>y. Inr (case y of File _ \<Rightarrow> od_pos h | _ \<Rightarrow> 0))
      | File _ \<Rightarrow> Inr a
      | _ \<Rightarrow> Inr 0))"

definition fileSystemGetRoot :: "kst \<Rightarrow> (kst \<times> addr) kres" where
  "fileSystemGetRoot s = kbind (objectAddRef (fileSystemRoot s) s) (\<lambda>s. Inr (s, fileSystemRoot s))"

section \<open>Path lookup\<close>

definition slash :: u8 where "slash = 0x2F"

text \<open>\<^verbatim>\<open>while (pathLength > 0 && path[0] == '/')\<close>\<close>

primrec skip_slashes :: "nat \<Rightarrow> u8 list \<Rightarrow> (u8 list \<times> nat) kres" where
  "skip_slashes 0 path = Inr (path, 0)"
| "skip_slashes (Suc n) path =
     (case path of [] \<Rightarrow> Inl MemFault | c # cs \<Rightarrow> if c = slash then skip_slashes n cs else Inr (path, Suc n))"

text \<open>The length of the first component.\<close>

primrec component_length :: "nat \<Rightarrow> u8 list \<Rightarrow> nat kres" where
  "component_length 0 path = Inr 0"
| "component_length (Suc n) path =
     (case path of [] \<Rightarrow> Inl MemFault
      | c # cs \<Rightarrow> if c = slash then Inr 0 else kbind (component_length n cs) (\<lambda>k. Inr (Suc k)))"

text \<open>The loop of \<^verbatim>\<open>fileSystemSearchDirectory\<close> from the label \<^verbatim>\<open>subdir\<close> on. The comparison with \<^verbatim>\<open>..\<close> that
  decides about the parent is made, as in the source, on the path behind the component.\<close>

primrec search_loop :: "nat \<Rightarrow> addr \<Rightarrow> u8 list \<Rightarrow> nat \<Rightarrow> bool \<Rightarrow> kst \<Rightarrow> (kst \<times> addr) kres" where
  "search_loop 0 dir path len create s = Inl OutOfFuel"
| "search_loop (Suc n) dir path len create s =
     kassert (dir \<noteq> 0) (
     kbind (skip_slashes len path) (\<lambda>(path, len).
     kbind (component_length len path) (\<lambda>k.
       if k = 0 then kbind (objectAddRef dir s) (\<lambda>s. Inr (s, dir))
       else
       kbind (isReservedName path k) (\<lambda>special.
         if special
         then kbind (stringIsEqual (Some dotdot) (drop k path) k) (\<lambda>up.
              kbind (get_directory dir s) (\<lambda>d.
              search_loop n (if up \<and> d_parent d \<noteq> 0 then d_parent d else dir) (drop k path) (len - k) create s))
         else
         kbind (find_directory (queue s (Directories dir)) 0 path k s) (\<lambda>d.
           if d \<noteq> 0 then search_loop n d (drop k path) (len - k) create s
           else if \<not> create then Inr (s, 0)
           else
           kbind (find_file (queue s (Files dir)) 0 path k s) (\<lambda>f.
             if f \<noteq> 0 then Inr (s, 0)
             else kbind (directoryCreate dir (Some path) k s) (\<lambda>(s, d).
                  if d = 0 then Inr (s, 0)
                  else search_loop n d (drop k path) (len - k) create s)))))))"

text \<open>Every round consumes at least one byte, so the bound never runs out.\<close>

definition fileSystemSearchDirectory :: "addr \<Rightarrow> u8 list \<Rightarrow> nat \<Rightarrow> bool \<Rightarrow> kst \<Rightarrow> (kst \<times> addr) kres" where
  "fileSystemSearchDirectory dir path pathLength create s =
     search_loop (Suc pathLength) (if dir = 0 then fileSystemRoot s else dir) path pathLength create s"

text \<open>\<^verbatim>\<open>while (componentLength > 0 && path[componentLength-1] != '/') componentLength--\<close>\<close>

primrec last_slash :: "nat \<Rightarrow> u8 list \<Rightarrow> nat kres" where
  "last_slash 0 path = Inr 0"
| "last_slash (Suc n) path =
     (if length path \<le> n then Inl MemFault else if path ! n = slash then Inr (Suc n) else last_slash n path)"

definition fileSystemSearchFile :: "releaseFun \<Rightarrow> addr \<Rightarrow> u8 list \<Rightarrow> nat \<Rightarrow> bool \<Rightarrow> kst \<Rightarrow> (kst \<times> addr) kres" where
  "fileSystemSearchFile release dir path pathLength create s =
     kbind (last_slash pathLength path) (\<lambda>k.
       if k \<ge> pathLength then Inr (s, 0)
       else
       kbind (fileSystemSearchDirectory dir path k create s) (\<lambda>(s, d).
         if d = 0 then Inr (s, 0)
         else
         let path = drop k path; len = pathLength - k;
             ret = (\<lambda>f s. kbind (release d s) (\<lambda>s. Inr (s, f)))
         in kbind (isReservedName path len) (\<lambda>special.
              if special then ret 0 s
              else
              kbind (find_file (queue s (Files d)) 0 path len s) (\<lambda>f.
                if f \<noteq> 0 then kbind (objectAddRef f s) (ret f)
                else if \<not> create then ret 0 s
                else
                kbind (find_directory (queue s (Directories d)) 0 path len s) (\<lambda>e.
                  if e \<noteq> 0 then ret 0 s
                  else kbind (fileCreate d (Some path) len None 0 s) (\<lambda>(s, f). ret f s))))))"

section \<open>The initial tar archive\<close>

definition TAR_HEADER_SIZE :: nat where "TAR_HEADER_SIZE = 512"

text \<open>The sum over \<^verbatim>\<open>int8_t\<close> values, sign-extended to 32 bits.\<close>

definition tarVerifyChecksum :: "u8 list \<Rightarrow> bool kres" where
  "tarVerifyChecksum tar =
     (if length tar < TAR_HEADER_SIZE then Inl MemFault
      else let add = fold (\<lambda>b c. c + scast b);
               cksum = add (take 356 (drop 156 tar)) (add (replicate 8 0x20) (add (take 148 tar) (0 :: u32)))
           in kbind (stringParseOctal (take 8 (drop 148 tar)) 8) (\<lambda>v. Inr (cksum = v)))"

definition tarIsEOF :: "u8 list \<Rightarrow> u32 \<Rightarrow> bool kres" where
  "tarIsEOF tar len =
     (if unat len < TAR_HEADER_SIZE * 2 then Inr False
      else if length tar < TAR_HEADER_SIZE * 2 then Inl MemFault
      else Inr (\<forall>b\<in>set (take (TAR_HEADER_SIZE * 2) tar). b = 0))"

text \<open>The name of an entry, with the prefix of a ustar header in front; a nul byte ends it.\<close>

definition tar_name :: "u8 list \<Rightarrow> u8 list kres" where
  "tar_name tar =
     (let magic = take 6 (drop 257 tar); prefix = take 155 (drop 345 tar);
          name = take 100 tar @ [0]
      in kbind (stringIsEqual (Some [0x75, 0x73, 0x74, 0x61, 0x72, 0]) magic 6) (\<lambda>ustar.
           if ustar \<and> prefix ! 0 \<noteq> 0
           then let prefix = prefix[154 := 0]
                in kbind (stringLength (Some prefix)) (\<lambda>n. Inr (take (unat n) prefix @ [slash] @ name))
           else Inr name))"

primrec tar_loop :: "nat \<Rightarrow> releaseFun \<Rightarrow> u8 list \<Rightarrow> u32 \<Rightarrow> kst \<Rightarrow> kst kres" where
  "tar_loop 0 release tar len s = Inl OutOfFuel"
| "tar_loop (Suc n) release tar len s =
     (if unat len < TAR_HEADER_SIZE then Inr s
      else kbind (tarIsEOF tar len) (\<lambda>eof.
        if eof then Inr s
        else
        kbind (tarVerifyChecksum tar) (\<lambda>ok.
        kassert ok (
        kbind (stringParseOctal (take 12 (drop 124 tar)) 12) (\<lambda>sz.
        kassert (sz \<noteq> - 1) (
        kassert (512 + sz \<le> len) (
        kbind (tar_name tar) (\<lambda>namebuf.
        kbind (if tar ! 156 = 0 \<or> tar ! 156 = 0x30
               then kbind (stringLength (Some namebuf)) (\<lambda>k.
                    kbind (fileSystemSearchFile release 0 namebuf (unat k) True s) (\<lambda>(s, f).
                    kassert (f \<noteq> 0) (
                    kbind (get_file f s) (\<lambda>x.
                    release f (set_file f (x\<lparr>isHeap := False,
                      f_buffer := Some (take (unat sz) (drop TAR_HEADER_SIZE tar)), f_size := sz\<rparr>) s)))))
               else Inr s) (\<lambda>s.
        let sz = 512 + ((sz + 511) AND NOT 511)
        in if sz > len then Inr s
           else tar_loop n release (drop (unat sz) tar) (len - sz) s)))))))))"

text \<open>A sane archive has at most \<open>length / 512\<close> entries.\<close>

definition fileSystemInit :: "releaseFun \<Rightarrow> u8 list \<Rightarrow> u32 \<Rightarrow> kst \<Rightarrow> kst kres" where
  "fileSystemInit release tar len s =
     kassert (fileSystemRoot s = 0) (
     kbind (directoryCreate 0 None 0 s) (\<lambda>(s, root).
     kassert (root \<noteq> 0) (
     tar_loop (Suc (unat len div 512)) release tar len (s\<lparr>fileSystemRoot := root\<rparr>))))"

section \<open>Path lookup ends\<close>

lemma bounded_trim_nul [bounded_intros]: "bounded (trim_nul buf n)"
  by (induction n) (auto simp: bounded_def)

lemma bounded_stringIsEqual_loop [bounded_intros]: "bounded (stringIsEqual_loop s b n)"
  by (induction s b n rule: stringIsEqual_loop.induct) (auto simp: bounded_def)

lemma bounded_stringIsEqual [bounded_intros]: "bounded (stringIsEqual s b n)"
  unfolding stringIsEqual_def by (cases s) (auto intro!: bounded_intros)

lemma bounded_isReservedName [bounded_intros]: "bounded (isReservedName b n)"
  unfolding isReservedName_def by (intro bounded_intros)

lemma bounded_object_at [bounded_intros]: "bounded (object_at a s)"
  by (auto simp: object_at_def bounded_def split: option.splits)

lemma bounded_get_file [bounded_intros]: "bounded (get_file a s)"
  and bounded_get_directory [bounded_intros]: "bounded (get_directory a s)"
  unfolding get_file_def get_directory_def
  by (auto intro!: bounded_intros split: kobj.splits)

lemma bounded_find_file [bounded_intros]: "bounded (find_file as c b n s)"
  and bounded_find_directory [bounded_intros]: "bounded (find_directory as c b n s)"
  by (induction as) (auto intro!: bounded_intros)

lemma bounded_objectAddRef [bounded_intros]: "bounded (objectAddRef a s)"
  unfolding objectAddRef_def by (intro bounded_intros)

lemma bounded_directoryCreate [bounded_intros]: "bounded (directoryCreate p name n s)"
  unfolding directoryCreate_def Let_def
  by (auto intro!: bounded_intros simp: ll_add_tail_obj_def copy_name_def heapAlloc_obj_def split: option.splits)

lemma skip_slashes_le: "skip_slashes n path = Inr (p, m) \<Longrightarrow> m \<le> n"
  by (induction n arbitrary: path) (fastforce split: list.splits if_splits)+

lemma bounded_skip_slashes [bounded_intros]: "bounded (skip_slashes n path)"
  by (induction n arbitrary: path) (auto intro!: bounded_intros split: list.splits)

lemma component_length_le: "component_length n path = Inr k \<Longrightarrow> k \<le> n"
  by (induction n arbitrary: path k) (fastforce split: list.splits if_splits)+

lemma bounded_component_length [bounded_intros]: "bounded (component_length n path)"
  by (induction n arbitrary: path) (auto intro!: bounded_intros split: list.splits)

lemma bounded_search_loop: "len < n \<Longrightarrow> bounded (search_loop n dir path len create s)"
proof (induction n arbitrary: dir path len s)
  case (Suc n)
  have shorter: "m - k < n" if "skip_slashes len path = Inr (p, m)" "component_length m p = Inr k" "k \<noteq> 0" for p m k
    using that skip_slashes_le component_length_le Suc.prems by fastforce
  show ?case
    by (auto intro!: bounded_intros Suc.IH dest: shorter)
qed simp

text \<open>Looking up a directory path always ends: every round of the loop consumes at least one byte, so
  the number of bytes is a bound on the rounds, whatever the directories are.\<close>

theorem search_directory_ends:
  "fileSystemSearchDirectory dir path pathLength create s \<noteq> Inl OutOfFuel"
  using bounded_search_loop [of pathLength "Suc pathLength"]
  unfolding fileSystemSearchDirectory_def bounded_def by blast

text \<open>The path \<open>../\<close> names the directory it starts in, not its parent: the loop advances the path before it
  compares the component with \<open>..\<close> for the second time.\<close>

theorem dotdot_stays:
  assumes "dir \<noteq> 0" "objs s dir = Some (Directory d)"
  shows "\<exists>s'. fileSystemSearchDirectory dir [0x2E, 0x2E, 0x2F, 0] 3 create s = Inr (s', dir)"
proof -
  have "get_directory dir s = Inr d" "object_at dir s = Inr (Directory d)"
    using assms by (auto simp: get_directory_def object_at_def)
  moreover have three: "(3 :: nat) = Suc (Suc (Suc 0))" by simp
  ultimately show ?thesis
    using assms(1) unfolding fileSystemSearchDirectory_def three
    by (simp add: slash_def isReservedName_def stringIsEqual_def dot_def dotdot_def objectAddRef_def)
qed

theorem dotdot_stays_witness:
  "\<exists>s'. fileSystemSearchDirectory 5 [0x2E, 0x2E, 0x2F, 0] 3 False
     (set_obj 5 (Directory \<lparr>d_parent = 9, d_name = None\<rparr>) initial_kst) = Inr (s', 5)"
  by (rule dotdot_stays [of 5 _ "\<lparr>d_parent = 9, d_name = None\<rparr>"]) simp_all

section \<open>The content of a file\<close>

definition file_content :: "fileNode \<Rightarrow> u8 list" where
  "file_content f = (case f_buffer f of None \<Rightarrow> [] | Some b \<Rightarrow> take (unat (f_size f)) b)"

definition file_ok :: "fileNode \<Rightarrow> bool" where
  "file_ok f \<longleftrightarrow> (case f_buffer f of None \<Rightarrow> f_size f = 0 | Some b \<Rightarrow> unat (f_size f) \<le> length b)"

text \<open>Bytes \<open>d\<close> written at position \<open>p\<close> of a file with content \<open>c\<close>; a gap is filled with zeros.\<close>

definition overwrite :: "nat \<Rightarrow> u8 list \<Rightarrow> u8 list \<Rightarrow> u8 list" where
  "overwrite p d c = take p (c @ replicate (p - length c) 0) @ d @ drop (p + length d) c"

lemma take_append3:
  "length x = p \<Longrightarrow> length d = l \<Longrightarrow> p + l \<le> n \<Longrightarrow> take n (x @ d @ y) = x @ d @ take (n - (p + l)) y"
  by simp

lemma length_file_content: "file_ok f \<Longrightarrow> length (file_content f) = unat (f_size f)"
  by (auto simp: file_ok_def file_content_def split: option.splits)

lemma file_grow_spec:
  assumes "file_ok f" "unat pos + unat len < 2 ^ 32" "f_size f < pos + len"
  shows "\<exists>f' b. file_grow pos len f = Inr (Some (f', len)) \<and> f_buffer f' = Some b \<and>
    unat (f_size f') = unat pos + unat len \<and> length b = unat pos + unat len \<and>
    take (unat pos) b = take (unat pos) (file_content f @ replicate (unat pos - length (file_content f)) 0)"
proof -
  let ?n = "unat pos + unat len" and ?c = "file_content f"
  have n: "unat (pos + len) = ?n" using assms(2) by (simp add: unat_add_small)
  have c: "length ?c = unat (f_size f)" "unat (f_size f) < ?n"
    using length_file_content [OF assms(1)] assms(3) n by (auto simp: word_less_nat_alt)
  have ne: "pos + len \<noteq> 0" using assms(3) by auto
  define nb where "nb = ?c @ replicate (?n - length ?c) 0"
  have "\<exists>b0. (case f_buffer f of
      Some b \<Rightarrow> if isHeap f then heapReAlloc_buf b (pos + len) else heapAlloc_buf (pos + len)
    | None \<Rightarrow> heapAlloc_buf (pos + len)) = Some b0 \<and> length b0 = ?n \<and>
    (\<exists>b1. (case f_buffer f of
       Some b \<Rightarrow> if \<not> isHeap f then kbind (buf_read 0 (unat (f_size f)) b) (\<lambda>d. buf_write 0 d b0) else Inr b0
     | None \<Rightarrow> Inr b0) = Inr b1 \<and> length b1 = ?n \<and> take (length ?c) b1 = ?c)"
  proof (cases "f_buffer f")
    case None
    then show ?thesis using ne n c by (auto simp: heapAlloc_buf_def file_content_def)
  next
    case (Some b)
    then have "unat (f_size f) \<le> length b" using assms(1) by (simp add: file_ok_def)
    with Some show ?thesis using ne n c
      by (auto simp: heapAlloc_buf_def heapReAlloc_buf_def buf_resize_def buf_read_def buf_write_def file_content_def min_def)
  qed
  then obtain b0 b1 where b: "(case f_buffer f of
      Some b \<Rightarrow> if isHeap f then heapReAlloc_buf b (pos + len) else heapAlloc_buf (pos + len)
    | None \<Rightarrow> heapAlloc_buf (pos + len)) = Some b0"
    "(case f_buffer f of
       Some b \<Rightarrow> if \<not> isHeap f then kbind (buf_read 0 (unat (f_size f)) b) (\<lambda>d. buf_write 0 d b0) else Inr b0
     | None \<Rightarrow> Inr b0) = Inr b1" "length b1 = ?n" "take (length ?c) b1 = ?c" by blast
  show ?thesis
  proof (cases "pos > f_size f")
    case True
    then have p: "unat (pos - f_size f) = unat pos - unat (f_size f)" "unat (f_size f) < unat pos"
      by (auto simp: unat_sub_small less_imp_le word_less_nat_alt)
    let ?b = "take (unat (f_size f)) b1 @ replicate (unat pos - unat (f_size f)) 0 @ drop (unat pos) b1"
    have "buf_write (unat (f_size f)) (replicate (unat (pos - f_size f)) 0) b1 = Inr ?b"
      using p b(3) by (simp add: buf_write_def)
    then show ?thesis
      using True b c p n by (simp add: file_grow_def)
  next
    case False
    then have p: "unat pos \<le> length ?c" using c(1) by (simp add: word_less_nat_alt)
    moreover have "take (unat pos) b1 = take (unat pos) ?c" using b(4) p by (metis min.absorb1 take_take)
    ultimately show ?thesis using False b n by (simp add: file_grow_def)
  qed
qed

text \<open>C30: Writing \<open>len\<close> bytes at position \<open>pos\<close> of a file, with \<open>pos + len\<close> below \<open>2 ^ 32\<close>, writes all of them, never leaves
  the buffer, and gives exactly the old content with these bytes in place, where a gap behind the old end reads as zeros;
  reading the same range back yields the bytes written.\<close>

theorem file_write_read:
  assumes "file_ok f" "unat pos + unat len < 2 ^ 32" "unat len \<le> length buf" "len \<noteq> 0"
  shows "\<exists>f'. file_write buf len pos f = Inr (f', len) \<and> file_ok f' \<and>
    file_content f' = overwrite (unat pos) (take (unat len) buf) (file_content f) \<and>
    file_read len pos f' = Inr (Some (take (unat len) buf))"
proof -
  let ?p = "unat pos" and ?l = "unat len" and ?d = "take (unat len) buf" and ?c = "file_content f"
  have n: "unat (pos + len) = ?p + ?l" using assms(2) by (simp add: unat_add_small)
  have d: "length ?d = ?l" "buf_read 0 ?l buf = Inr ?d" using assms(3) by (auto simp: buf_read_def)
  have l: "0 < ?l" using assms(4) by (simp add: unat_gt_0)
  have cl: "length ?c = unat (f_size f)" using assms(1) by (rule length_file_content)
  obtain f1 b where f1: "(if pos + len > f_size f then file_grow pos len f else Inr (Some (f, len))) = Inr (Some (f1, len))"
    "f_buffer f1 = Some b" "?p + ?l \<le> unat (f_size f1)" "unat (f_size f1) \<le> length b"
    "take ?p b @ ?d @ take (unat (f_size f1) - (?p + ?l)) (drop (?p + ?l) b) = overwrite ?p ?d ?c"
  proof (cases "pos + len > f_size f")
    case True
    then have "length ?c \<le> ?p + ?l" using cl n by (simp add: word_less_nat_alt)
    with file_grow_spec [OF assms(1,2) True] True d(1) that show ?thesis by (auto simp: overwrite_def)
  next
    case False
    then have le: "?p + ?l \<le> unat (f_size f)" using n by (simp add: word_less_nat_alt)
    then obtain b where b: "f_buffer f = Some b" "unat (f_size f) \<le> length b"
      using assms(1) l by (auto simp: file_ok_def split: option.splits)
    then have "?c = take (unat (f_size f)) b" by (simp add: file_content_def)
    then have "overwrite ?p ?d ?c = take ?p b @ ?d @ take (unat (f_size f) - (?p + ?l)) (drop (?p + ?l) b)"
      using le d(1) b(2) by (simp add: overwrite_def drop_take add.commute)
    with False b le that show ?thesis by simp
  qed
  let ?b = "take ?p b @ ?d @ drop (?p + ?l) b" and ?f = "f1\<lparr>f_buffer := Some (take ?p b @ ?d @ drop (?p + ?l) b)\<rparr>"
  have "buf_write ?p ?d b = Inr ?b" using f1(3,4) d(1) by (simp add: buf_write_def)
  then have "file_write buf len pos f = Inr (?f, len)" using f1(1,2) d(2) assms(4) by (simp add: file_write_def)
  moreover have "file_ok ?f" using f1(3,4) d(1) by (simp add: file_ok_def)
  moreover have "length (take ?p b) = ?p" using f1(3,4) by simp
  then have "file_content ?f = overwrite ?p ?d ?c"
    using take_append3 [OF _ d(1) f1(3), of "take ?p b" "drop (?p + ?l) b"] f1(5) unfolding file_content_def by simp
  moreover have "file_read len pos ?f = Inr (Some ?d)"
    using f1(3,4) d(1) l by (auto simp: file_read_def buf_read_def word_le_nat_alt word_less_nat_alt unat_sub)
  ultimately show ?thesis by blast
qed

theorem file_write_read_witness:
  "\<exists>f'. file_write [7, 8] 2 3 \<lparr>f_parent = 0, f_name = None, isHeap = True, f_buffer = None, f_size = 0\<rparr> = Inr (f', 2) \<and>
     file_ok f' \<and> file_content f' = [0, 0, 0, 7, 8] \<and> file_read 2 3 f' = Inr (Some [7, 8])"
proof -
  let ?f = "\<lparr>f_parent = 0, f_name = None, isHeap = True, f_buffer = None, f_size = 0\<rparr>"
  have "replicate 3 0 = [0, 0, 0 :: u8]" by (simp add: numeral_3_eq_3)
  then have "overwrite (unat (3 :: u32)) (take (unat (2 :: u32)) [7, 8]) (file_content ?f) = [0, 0, 0, 7, 8]"
    by (simp add: file_content_def overwrite_def)
  then show ?thesis using file_write_read [of ?f 3 2 "[7, 8]"] by (simp add: file_ok_def)
qed

end
