(* ===== verification/Dispatch.thy ===== *)
theory Dispatch
  imports Semaphore Pipe Event Timer Handle Process Filesystem
begin

text \<open>
  The calls through the function tables of the objects (\<^verbatim>\<open>__objectSignal\<close> and its siblings in
  \<^verbatim>\<open>process/object.h\<close>). A missing entry of a table is the default the inline function returns. The
  operations call each other through the tables, so the bound of the recursion is explicit: waiting and
  signalling need one unit per level of nested events, releasing and shutting down one per object on the
  way. With these functions as callbacks the interfaces \<open>waker\<close>, \<open>thread_waker\<close> and \<open>arming\<close> of the
  components are instances, and their lemmas become statements about the kernel.
\<close>

unbundle bit_operations_syntax

section \<open>The function tables\<close>

definition functions_of :: "addr \<Rightarrow> kst \<Rightarrow> kobj kres" where
  "functions_of a s = (case objs s a of None \<Rightarrow> Inl MemFault | Some x \<Rightarrow> Inr x)"

primrec objSignal :: "nat \<Rightarrow> signalFun" where
  "objSignal 0 = (\<lambda>a r s. Inl OutOfFuel)"
| "objSignal (Suc n) = (\<lambda>a r s. kbind (functions_of a s) (\<lambda>x.
     case x of
       Semaphore _ \<Rightarrow> semaphoreSignal (objSignal n) a r s
     | Event _ \<Rightarrow> eventSignal (objSignal n) a r s
     | SubEvent _ \<Rightarrow> subEventSignal (objSignal n) a r s
     | Timer _ \<Rightarrow> timerSignal (objSignal n) a r s
     | Thread _ \<Rightarrow> threadSignal a r s
     | OpenedFile _ \<Rightarrow> openedFileSignal a r s
     | _ \<Rightarrow> Inr s))"

primrec objWait :: "nat \<Rightarrow> waitFun" where
  "objWait 0 = (\<lambda>a mode s. Inl OutOfFuel)"
| "objWait (Suc n) = (\<lambda>a mode s. kbind (functions_of a s) (\<lambda>x.
     case x of
       Semaphore _ \<Rightarrow> semaphoreWait a mode s
     | Pipe _ \<Rightarrow> pipeWait a mode s
     | Event _ \<Rightarrow> eventWait (objWait n) a mode s
     | Timer _ \<Rightarrow> timerWait a mode s
     | Thread _ \<Rightarrow> threadWait_obj a mode s
     | Process _ \<Rightarrow> processWait a mode s
     | _ \<Rightarrow> Inr (s, NoResult)))"

definition destroy_with :: "signalFun \<Rightarrow> releaseFun \<Rightarrow> shutdownFun \<Rightarrow> addr \<Rightarrow> kst \<Rightarrow> kst kres" where
  "destroy_with sig release shutdown a s = kbind (functions_of a s) (\<lambda>x.
     case x of
       Semaphore _ \<Rightarrow> semaphoreDestroy sig a s
     | Pipe _ \<Rightarrow> pipeDestroy sig a s
     | Stdout \<Rightarrow> stdoutDestroy a s
     | Event _ \<Rightarrow> eventDestroy sig release a s
     | SubEvent _ \<Rightarrow> Inr s
     | Timer _ \<Rightarrow> timerDestroy sig a s
     | Thread _ \<Rightarrow> threadDestroy a s
     | Process _ \<Rightarrow> processDestroy release a s
     | Directory _ \<Rightarrow> directoryDestroy shutdown a s
     | File _ \<Rightarrow> fileDestroy a s
     | OpenedDirectory _ \<Rightarrow> openedDirectoryDestroy release a s
     | OpenedFile _ \<Rightarrow> openedFileDestroy release a s)"

definition shutdown_with :: "signalFun \<Rightarrow> releaseFun \<Rightarrow> shutdownFun \<Rightarrow> addr \<Rightarrow> u32 \<Rightarrow> kst \<Rightarrow> kst kres" where
  "shutdown_with sig release shutdown a mode s = kbind (functions_of a s) (\<lambda>x.
     case x of
       Semaphore _ \<Rightarrow> semaphoreShutdown sig a mode s
     | Pipe _ \<Rightarrow> pipeShutdown sig a mode s
     | Event _ \<Rightarrow> eventShutdown sig a mode s
     | Timer _ \<Rightarrow> timerShutdown sig a mode s
     | Thread _ \<Rightarrow> threadShutdown sig release shutdown a mode s
     | Process _ \<Rightarrow> processShutdown sig release shutdown a mode s
     | Directory _ \<Rightarrow> directoryShutdown release a mode s
     | File _ \<Rightarrow> fileShutdown release a mode s
     | OpenedFile _ \<Rightarrow> openedFileShutdown a mode s
     | _ \<Rightarrow> Inr s)"

fun objRelease :: "nat \<Rightarrow> releaseFun"
  and objShutdown :: "nat \<Rightarrow> shutdownFun" where
  "objRelease 0 a s = Inl OutOfFuel"
| "objRelease (Suc n) a s = objectRelease (destroy_with (objSignal n) (objRelease n) (objShutdown n)) a s"
| "objShutdown 0 a mode s = Inl OutOfFuel"
| "objShutdown (Suc n) a mode s = shutdown_with (objSignal n) (objRelease n) (objShutdown n) a mode s"

definition objGetStatus :: "addr \<Rightarrow> u32 \<Rightarrow> kst \<Rightarrow> u32 kres" where
  "objGetStatus a mode s = kbind (functions_of a s) (\<lambda>x.
     case x of
       Semaphore _ \<Rightarrow> semaphoreGetStatus a mode s
     | Pipe _ \<Rightarrow> pipeGetStatus a mode s
     | Event _ \<Rightarrow> eventGetStatus a mode s
     | Timer _ \<Rightarrow> timerGetStatus a mode s
     | Thread _ \<Rightarrow> threadGetStatus a mode s
     | Process _ \<Rightarrow> processGetStatus a mode s
     | File _ \<Rightarrow> fileGetStatus a mode s
     | OpenedFile _ \<Rightarrow> openedFileGetStatus a mode s
     | _ \<Rightarrow> Inr (- 1))"

text \<open>\<^verbatim>\<open>__objectRead\<close> returns the number of bytes, or \<open>- 1\<close>; the bytes are what it writes to the buffer.\<close>

definition objWrite :: "nat \<Rightarrow> addr \<Rightarrow> u8 list \<Rightarrow> u32 \<Rightarrow> kst \<Rightarrow> (kst \<times> u32) kres" where
  "objWrite n a buf len s = kbind (functions_of a s) (\<lambda>x.
     case x of
       Pipe _ \<Rightarrow> pipeWrite (objSignal n) a buf len s
     | Stdout \<Rightarrow> stdoutWrite a buf len s
     | Timer _ \<Rightarrow> timerWrite a buf len s
     | Directory _ \<Rightarrow> directoryWrite a buf len s
     | File _ \<Rightarrow> fileWrite a buf len s
     | OpenedFile _ \<Rightarrow> openedFileWrite a buf len s
     | _ \<Rightarrow> Inr (s, - 1))"

definition objRead :: "nat \<Rightarrow> addr \<Rightarrow> u32 \<Rightarrow> kst \<Rightarrow> (kst \<times> u8 list option) kres" where
  "objRead n a len s = kbind (functions_of a s) (\<lambda>x.
     case x of
       Pipe _ \<Rightarrow> pipeRead (objSignal n) a len s
     | Directory _ \<Rightarrow> directoryRead a len s
     | File _ \<Rightarrow> fileRead a len s
     | OpenedDirectory _ \<Rightarrow> openedDirectoryRead a len s
     | OpenedFile _ \<Rightarrow> openedFileRead a len s
     | _ \<Rightarrow> Inr (s, None))"

definition objAttachObj :: "addr \<Rightarrow> addr \<Rightarrow> u32 \<Rightarrow> u32 \<Rightarrow> kst \<Rightarrow> (kst \<times> bool) kres" where
  "objAttachObj a subObj mode ident s = kbind (functions_of a s) (\<lambda>x.
     case x of Event _ \<Rightarrow> eventAttachObj a subObj mode ident s | _ \<Rightarrow> Inr (s, False))"

definition objDetachObj :: "nat \<Rightarrow> addr \<Rightarrow> u32 \<Rightarrow> kst \<Rightarrow> (kst \<times> bool) kres" where
  "objDetachObj n a ident s = kbind (functions_of a s) (\<lambda>x.
     case x of Event _ \<Rightarrow> eventDetachObj (objRelease n) a ident s | _ \<Rightarrow> Inr (s, False))"

section \<open>Signalling blocked threads\<close>

lemma functions_of_Inr [simp]: "objs s a = Some x \<Longrightarrow> functions_of a s = Inr x"
  by (simp add: functions_of_def)

lemma functions_of_iff: "functions_of a s = Inr x \<longleftrightarrow> objs s a = Some x"
  by (auto simp: functions_of_def split: option.splits)

lemma objSignal_thread:
  assumes "blocked_thread a s"
  shows "objSignal (Suc n) a r s = threadSignal a r s"
  using assms by (auto simp: blocked_thread_iff)

interpretation sig: thread_waker "objSignal (Suc n)" for n
proof
  show "\<exists>s'. objSignal (Suc n) a r s = Inr s' \<and> threads_ok q s' \<and> queue s' q = xs \<and> thread_frame q r s s'"
    if "threads_ok q s" "queue s q = a # xs" for q s a xs r
    using threadSignal_first [OF that] objSignal_thread [of a s n r] that by (auto simp: threads_ok_def)
qed (rule thr.frame_refl thr.frame_trans; assumption)+

section \<open>Waiting arms the events\<close>

lemma keeps_timer:
  assumes "objs s a = Some (Timer t)" "objs s' = (objs s)(a \<mapsto> Timer t')" "linked s' = (linked s)(a := l)"
  shows "keeps s s'"
  using assms by (auto simp: keeps_def armed_iff waits_ok_def split: if_splits)

lemma keeps_set_timer:
  assumes "get_timer a s = Inr t"
  shows "keeps s (set_timer a t' s)"
  using assms by (intro keeps_timer [where a = a and l = "linked s a"]) (auto simp: get_timer_iff set_timer_def)

lemma keeps_timerDeactivate: "timerDeactivate a s = Inr u \<Longrightarrow> keeps s u"
proof -
  assume run: "timerDeactivate a s = Inr u"
  then obtain t where t: "get_timer a s = Inr t" by (auto simp: timerDeactivate_def elim!: kbind_InrE)
  show ?thesis
  proof (cases "active t")
    case True
    with run t have "u = set_timer a (t\<lparr>active := False\<rparr>) (unlink a s)" "linked s a \<noteq> None"
      by (auto simp: timerDeactivate_def ll_remove_obj_def kbind_eq_Inr split: if_splits)
    with t show ?thesis
      by (intro keeps_timer [where a = a and l = None]) (auto simp: get_timer_iff set_timer_def unlink_def)
  qed (use run t in \<open>simp add: timerDeactivate_def\<close>)
qed

lemma keeps_timerActivate: "timerActivate a s = Inr u \<Longrightarrow> keeps s u"
proof -
  assume run: "timerActivate a s = Inr u"
  then obtain t where t: "get_timer a s = Inr t" by (auto simp: timerActivate_def elim!: kbind_InrE)
  show ?thesis
  proof (cases "active t")
    case False
    with run t obtain v where "ll_add_before_obj TimerList v a s = Inr (s\<lparr>queue := queue u, linked := linked u\<rparr>)"
      "objs u = (objs s)(a \<mapsto> Timer (t\<lparr>active := True\<rparr>))" "linked u = (linked s)(a \<mapsto> TimerList)"
      by (auto simp: timerActivate_def ll_add_before_obj_def set_timer_def set_obj_def kbind_eq_Inr split: if_splits)
    with t show ?thesis by (intro keeps_timer [where a = a]) (auto simp: get_timer_iff)
  qed (use run t in \<open>simp add: timerActivate_def\<close>)
qed

lemma keeps_timerUpdate: "timerUpdate a s = Inr u \<Longrightarrow> keeps s u"
  by (auto simp: timerUpdate_def elim!: kbind_InrE intro: keeps_trans [OF keeps_timerDeactivate keeps_timerActivate])

lemma keeps_timerWait: "timerWait a m s = Inr (u, r) \<Longrightarrow> keeps s u"
  by (auto simp: timerWait_def Let_def elim!: kbind_InrE split: if_splits
    intro: keeps_timerActivate keeps_timerDeactivate keeps_trans [OF keeps_set_timer keeps_timerUpdate])

lemma keeps_semaphoreWait: "semaphoreWait a m s = Inr (u, r) \<Longrightarrow> keeps s u"
  by (rule keeps_other)
    (auto simp: semaphoreWait_def Let_def get_semaphore_iff elim!: kbind_InrE split: if_splits)

lemma objWait_keeps: "objWait n a m s = Inr (u, r) \<Longrightarrow> keeps s u"
proof (induction n arbitrary: a m s u r)
  case (Suc n)
  have "arming (objWait n)" by unfold_locales (rule Suc.IH)
  from Suc.prems obtain x where "objs s a = Some x" by (auto simp: functions_of_iff elim!: kbind_InrE)
  with Suc.prems arming.eventWait_keeps [OF \<open>arming (objWait n)\<close>] show ?case
    by (cases x) (auto dest: keeps_timerWait keeps_semaphoreWait
      simp: pipeWait_def threadWait_obj_def processWait_def Let_def elim!: kbind_InrE)
qed simp

interpretation arm: arming "objWait n" for n
  by unfold_locales (rule objWait_keeps)

section \<open>Signalling on an acyclic wait graph\<close>

text \<open>
  The waiters of a queue are blocked threads and sub-events that pass the signal on to the waiters of
  their event. The numbering \<open>rk\<close> goes down along both steps, so the wait graph has no cycle. The source
  does not enforce this; on a cyclic graph the cached successor of \<^verbatim>\<open>queueWakeup\<close> can go stale.
\<close>

definition owner :: "qid \<Rightarrow> addr" where
  "owner q = (case q of Waiters a \<Rightarrow> a | WriteWaiters a \<Rightarrow> a | ReadWaiters a \<Rightarrow> a | _ \<Rightarrow> 0)"

definition forwards :: "(addr \<Rightarrow> nat) \<Rightarrow> addr \<Rightarrow> kst \<Rightarrow> bool" where
  "forwards rk a s \<longleftrightarrow> a \<noteq> 0 \<and> (\<exists>x e. objs s a = Some (SubEvent x) \<and> se_blocked x \<and> se_event x \<noteq> 0 \<and>
     objs s (se_event x) = Some (Event e) \<and> rk (se_event x) < rk a)"

definition net_ok :: "(addr \<Rightarrow> nat) \<Rightarrow> kst \<Rightarrow> bool" where
  "net_ok rk s \<longleftrightarrow> queues_ok s \<and>
     (\<forall>a q. linked s a = Some q \<longrightarrow> wait_queue q \<longrightarrow> rk a < rk (owner q) \<and> (blocked_thread a s \<or> forwards rk a s))"

definition thread_kept :: "addr \<Rightarrow> thread \<Rightarrow> kst \<Rightarrow> kst \<Rightarrow> bool" where
  "thread_kept b x s s' \<longleftrightarrow> linked s' b = linked s b \<and> objs s' b = Some (Thread x) \<or>
     linked s' b = Some ThreadList \<and> (\<exists>v. objs s' b = Some (Thread (woken v x)))"

text \<open>Wakeups leave the other queues of the same or a higher level alone, and every thread stays where
  it is or becomes runnable.\<close>

definition net_frame :: "(addr \<Rightarrow> nat) \<Rightarrow> qid \<Rightarrow> u32 \<Rightarrow> kst \<Rightarrow> kst \<Rightarrow> bool" where
  "net_frame rk q r s s' \<longleftrightarrow>
     (\<forall>p. wait_queue p \<longrightarrow> p \<noteq> q \<longrightarrow> rk (owner q) \<le> rk (owner p) \<longrightarrow> queue s' p = queue s p) \<and>
     (\<forall>b x. objs s b = Some (Thread x) \<longrightarrow> thread_kept b x s s')"

lemma net_frame_queue:
  "net_frame rk q r s s' \<Longrightarrow> wait_queue p \<Longrightarrow> p \<noteq> q \<Longrightarrow> rk (owner q) \<le> rk (owner p) \<Longrightarrow> queue s' p = queue s p"
  by (simp add: net_frame_def)

lemma net_frame_thread: "net_frame rk q r s s' \<Longrightarrow> objs s b = Some (Thread x) \<Longrightarrow> thread_kept b x s s'"
  by (simp add: net_frame_def)

lemma woken_woken [simp]: "woken v (woken u x) = woken v x"
  by (simp add: woken_def)

lemma thread_kept_trans:
  assumes "thread_kept b x s t" "\<And>y. objs t b = Some (Thread y) \<Longrightarrow> thread_kept b y t u"
  shows "thread_kept b x s u"
  using assms by (fastforce simp: thread_kept_def)

lemma net_frame_refl: "net_frame rk q r s s"
  by (simp add: net_frame_def thread_kept_def)

lemma net_frame_trans:
  assumes "net_frame rk q r s t" "net_frame rk q r t u"
  shows "net_frame rk q r s u"
  using assms unfolding net_frame_def by (metis thread_kept_trans)

lemma net_okD:
  assumes "net_ok rk s" "a \<in> set (queue s q)" "wait_queue q"
  shows "rk a < rk (owner q)" "blocked_thread a s \<or> forwards rk a s" "linked s a = Some q" "queues_ok s"
  using assms by (auto simp: net_ok_def queues_ok_linked)

text \<open>Objects that are not linked any more may change, and events may change their status.\<close>

lemma net_ok_step:
  assumes "net_ok rk s" "queues_ok s'" "linked s' = (linked s)(a := l)" "\<And>q. l = Some q \<Longrightarrow> \<not> wait_queue q"
    "\<And>b. b \<noteq> a \<Longrightarrow> objs s' b \<noteq> objs s b \<Longrightarrow> \<exists>e e'. objs s b = Some (Event e) \<and> objs s' b = Some (Event e')"
    "\<And>e. objs s a = Some (Event e) \<Longrightarrow> \<exists>e'. objs s' a = Some (Event e')"
  shows "net_ok rk s'"
  unfolding net_ok_def
proof (intro conjI allI impI assms(2))
  fix b q assume l: "linked s' b = Some q" and q: "wait_queue q"
  then have b: "b \<noteq> a" "linked s b = Some q" using assms(3,4) by (auto split: if_splits)
  with assms(1) q have *: "rk b < rk (owner q)" "blocked_thread b s \<or> forwards rk b s" by (auto simp: net_ok_def)
  then show "rk b < rk (owner q)" by simp
  have same: "objs s' b = objs s b" if "\<nexists>e. objs s b = Some (Event e)" using assms(5) [OF b(1)] that by blast
  have ev: "\<exists>e'. objs s' c = Some (Event e')" if "objs s c = Some (Event e)" for c e
    using assms(5) [of c] assms(6) that by (cases "c = a") force+
  show "blocked_thread b s' \<or> forwards rk b s'"
    using *(2) same ev by (force simp: blocked_thread_iff forwards_def)
qed

lemma unlink_linked: "linked (unlink a s) = (linked s)(a := None)"
  by (auto simp: unlink_def fun_eq_iff split: option.splits)

lemma objs_unlink [simp]: "objs (unlink a s) = objs s"
  by (simp add: unlink_def split: option.splits)

lemma queues_ok_set_obj [simp]: "queues_ok (set_obj a x s) = queues_ok s"
  by (simp add: queues_ok_def)

lemma queue_unlink: "linked s a = Some q \<Longrightarrow> queue (unlink a s) = (queue s)(q := remove1 a (queue s q))"
  by (simp add: unlink_def)

lemma signal_waiting_thread:
  assumes "net_ok rk s" "wait_queue q" "queue s q = a # xs" "objs s a = Some (Thread t)" "blocked_thread a s"
  shows "\<exists>s'. threadSignal a r s = Inr s' \<and> net_ok rk s' \<and> queue s' q = xs \<and> net_frame rk q r s s'"
proof -
  have l: "linked s a = Some q" "queues_ok s" "a \<noteq> 0" "th_blocked t" "th_process t \<noteq> 0"
    using net_okD [OF assms(1) _ assms(2), of a] assms(3-5) by (auto simp: blocked_thread_iff)
  let ?u = "unlink a (set_thread a (woken r t) s)"
  let ?s' = "link_tail ThreadList a ?u"
  have run: "threadSignal a r s = Inr ?s'"
    using assms(4) l get_thread_iff [of a s t]
    by (simp add: threadSignal_def ll_remove_obj_def ll_add_tail_obj_def set_thread_def woken_def unlink_linked)
  have fields: "linked ?s' = (linked s)(a \<mapsto> ThreadList)" "objs ?s' = (objs s)(a \<mapsto> Thread (woken r t))"
    "queue ?s' = (queue s)(q := remove1 a (queue s q), ThreadList := queue s ThreadList @ [a])"
    using l assms(2) by (auto simp: link_tail_def unlink_linked set_thread_def queue_unlink wait_queue_def)
  have "queues_ok ?s'"
    using l by (intro queues_ok_link_tail queues_ok_unlink) (auto simp: set_thread_def unlink_linked)
  then have "net_ok rk ?s'"
    by (rule net_ok_step [OF assms(1) _ fields(1)]) (auto simp: fields(2) assms(4) wait_queue_def split: if_splits)
  moreover have "net_frame rk q r s ?s'"
    using assms(4) by (auto simp: net_frame_def thread_kept_def fields wait_queue_def)
  moreover have "queue ?s' q = xs" using assms(2,3) by (auto simp: fields wait_queue_def)
  ultimately show ?thesis using run by blast
qed

lemma signal_waiting_subEvent:
  assumes "waker sig (\<lambda>q s. net_ok rk s \<and> wait_queue q \<and> rk (owner q) \<le> n) (net_frame rk)"
    "net_ok rk s" "wait_queue q" "rk (owner q) \<le> Suc n" "queue s q = a # xs" "forwards rk a s"
  shows "\<exists>s'. subEventSignal sig a r s = Inr s' \<and> net_ok rk s' \<and> queue s' q = xs \<and> net_frame rk q r s s'"
proof -
  from assms(6) obtain x e where x: "a \<noteq> 0" "objs s a = Some (SubEvent x)" "se_blocked x" "se_event x \<noteq> 0"
    "objs s (se_event x) = Some (Event e)" "rk (se_event x) < rk a" by (auto simp: forwards_def)
  have l: "linked s a = Some q" "queues_ok s" "rk a < rk (owner q)"
    using net_okD [OF assms(2) _ assms(3), of a] assms(5) by auto
  let ?x = "x\<lparr>se_blocked := False\<rparr>" and ?e = "e\<lparr>status := r\<rparr>" and ?ev = "se_event x"
  let ?t = "set_obj ?ev (Event ?e) (unlink a (set_obj a (SubEvent ?x) s))"
  have ne: "?ev \<noteq> a" using x by auto
  have run: "subEventSignal sig a r s = queueWakeup sig (Waiters ?ev) (ev_wakeupAll e) (se_identifier x) ?t"
    using x l ne get_subEvent_iff [of a s x]
      get_event_iff [of ?ev "unlink a (set_obj a (SubEvent ?x) s)" e]
    by (simp add: subEventSignal_def ll_remove_obj_def)
  have fields: "linked ?t = (linked s)(a := None)" "objs ?t = (objs s)(a \<mapsto> SubEvent ?x, ?ev \<mapsto> Event ?e)"
    "queue ?t = (queue s)(q := xs)"
    using l assms(5) by (auto simp: unlink_linked queue_unlink fun_eq_iff)
  have "queues_ok ?t" using l(2) by (simp add: queues_ok_unlink)
  then have "net_ok rk ?t"
    by (rule net_ok_step [OF assms(2) _ fields(1)]) (use x ne in \<open>auto simp: fields(2) split: if_splits\<close>)
  moreover have "rk ?ev \<le> n" "rk ?ev < rk (owner q)" using assms(4) x(6) l(3) by auto
  ultimately obtain s' where s': "queueWakeup sig (Waiters ?ev) (ev_wakeupAll e) (se_identifier x) ?t = Inr s'"
    "net_ok rk s'" "net_frame rk (Waiters ?ev) (se_identifier x) ?t s'"
    using waker.queueWakeup_spec [OF assms(1), of ?t "Waiters ?ev" "ev_wakeupAll e" "se_identifier x"]
    by (auto simp: wait_queue_def owner_def)
  have "queue s' p = queue ?t p" if "wait_queue p" "rk (owner q) \<le> rk (owner p)" for p
    using net_frame_queue [OF s'(3) that(1)] that(2) \<open>rk ?ev < rk (owner q)\<close> by (force simp: owner_def)
  then have keep: "queue s' p = ((queue s)(q := xs)) p" if "wait_queue p" "rk (owner q) \<le> rk (owner p)" for p
    using that fields(3) by metis
  have "net_frame rk q r s s'"
    unfolding net_frame_def
  proof (intro conjI allI impI)
    fix b y assume b: "objs s b = Some (Thread y)"
    then have "objs ?t b = Some (Thread y)" "linked ?t b = linked s b" using x by (auto simp: fields unlink_linked)
    with net_frame_thread [OF s'(3), of b y] show "thread_kept b y s s'" by (simp add: thread_kept_def)
  qed (use keep in simp)
  with s' run keep [OF assms(3)] show ?thesis by simp
qed

lemma net_waker: "waker (objSignal n) (\<lambda>q s. net_ok rk s \<and> wait_queue q \<and> rk (owner q) \<le> n) (net_frame rk)"
proof (induction n)
  case 0
  have "False" if "net_ok rk s" "wait_queue q" "rk (owner q) \<le> 0" "queue s q = a # xs" for s q a xs
    using net_okD(1) [OF that(1) _ that(2), of a] that(3,4) by simp
  then show ?case
    by unfold_locales (use net_frame_refl net_frame_trans in \<open>blast+\<close>)
next
  case (Suc n)
  have "\<exists>s'. objSignal (Suc n) a r s = Inr s' \<and> net_ok rk s' \<and> queue s' q = xs \<and> net_frame rk q r s s'"
    if "net_ok rk s" "wait_queue q" "rk (owner q) \<le> Suc n" "queue s q = a # xs" for q s a xs r
  proof (cases "blocked_thread a s")
    case True
    with signal_waiting_thread [OF that(1,2,4)] show ?thesis by (auto simp: blocked_thread_iff)
  next
    case False
    then have "forwards rk a s" using net_okD(2) [OF that(1) _ that(2), of a] that(4) by simp
    moreover from this have "objSignal (Suc n) a r s = subEventSignal (objSignal n) a r s"
      by (auto simp: forwards_def)
    ultimately show ?thesis using signal_waiting_subEvent [OF Suc.IH that] by simp
  qed
  then show ?case
    by unfold_locales (use net_frame_refl net_frame_trans in \<open>blast+\<close>)
qed

interpretation net: waker "objSignal n" "\<lambda>q s. net_ok rk s \<and> wait_queue q \<and> rk (owner q) \<le> n" "net_frame rk" for n rk
  by (rule net_waker)

section \<open>Semaphores count\<close>

text \<open>The abstract value of a semaphore: its units minus the threads that wait for one.\<close>

definition balance :: "addr \<Rightarrow> kst \<Rightarrow> int" where
  "balance a s = (case objs s a of Some (Semaphore x) \<Rightarrow> uint (sem_value x) | _ \<Rightarrow> 0) - int (length (queue s (Waiters a)))"

definition sem_inv :: "addr \<Rightarrow> kst \<Rightarrow> bool" where
  "sem_inv a s \<longleftrightarrow> sem_ok a s \<and> threads_ok (Waiters a) s"

definition runnable :: "addr \<Rightarrow> kst \<Rightarrow> bool" where
  "runnable b s \<longleftrightarrow> b \<noteq> 0 \<and> linked s b = Some ThreadList \<and>
     (\<exists>t. objs s b = Some (Thread t) \<and> \<not> th_blocked t \<and> th_process t \<noteq> 0)"

text \<open>Runs of signals and waits on one semaphore; the number is signals minus waits.\<close>

inductive sem_steps :: "nat \<Rightarrow> addr \<Rightarrow> kst \<Rightarrow> int \<Rightarrow> kst \<Rightarrow> bool" for n a s where
  sem_refl: "sem_steps n a s 0 s"
| sem_signal: "sem_steps n a s d t \<Longrightarrow> objSignal n a r t = Inr u \<Longrightarrow> sem_steps n a s (d + 1) u"
| sem_wait: "sem_steps n a s d t \<Longrightarrow> runnable b t \<Longrightarrow> threadWait (objWait n) b a m t = Inr (u, st) \<Longrightarrow>
    sem_steps n a s (d - 1) u"

lemma sem_invD:
  assumes "sem_inv a s"
  obtains x where "a \<noteq> 0" "objs s a = Some (Semaphore x)" "get_semaphore a s = Inr x"
    "sem_value x = 0 \<or> queue s (Waiters a) = []" "threads_ok (Waiters a) s"
  using assms get_semaphore_iff by (fastforce simp: sem_inv_def sem_ok_def)

lemma sem_invI:
  assumes "a \<noteq> 0" "objs s a = Some (Semaphore x)" "sem_value x = 0 \<or> queue s (Waiters a) = []" "threads_ok (Waiters a) s"
  shows "sem_inv a s"
  using assms get_semaphore_iff by (fastforce simp: sem_inv_def sem_ok_def)

lemma threads_ok_empty: "threads_ok (Waiters a) s \<Longrightarrow> queues_ok t \<Longrightarrow> queue t (Waiters a) = [] \<Longrightarrow> threads_ok (Waiters a) t"
  by (simp add: threads_ok_def)

lemma semaphore_signal_step:
  assumes "sem_inv a s"
  shows "\<exists>u. objSignal (Suc (Suc n)) a r s = Inr u \<and> sem_inv a u \<and>
    balance a u mod 2 ^ 32 = (balance a s + 1) mod 2 ^ 32"
proof -
  obtain x where x: "a \<noteq> 0" "objs s a = Some (Semaphore x)" "get_semaphore a s = Inr x"
    "sem_value x = 0 \<or> queue s (Waiters a) = []" "threads_ok (Waiters a) s"
    using assms by (rule sem_invD)
  have run: "objSignal (Suc (Suc n)) a r s = semaphoreSignal (objSignal (Suc n)) a r s"
    using x(2) by (subst objSignal.simps) (simp only: functions_of_Inr kbind_Inr kobj.simps)
  show ?thesis
  proof (cases "queue s (Waiters a)")
    case Nil
    let ?u = "set_obj a (Semaphore \<lparr>sem_value = sem_value x + 1\<rparr>) s"
    have "threads_ok (Waiters a) ?u" by (rule threads_ok_empty [OF x(5)]) (use x(5) Nil in \<open>auto simp: threads_ok_def\<close>)
    then have "sem_inv a ?u" using x(1) Nil by (intro sem_invI) auto
    moreover have "balance a ?u mod 2 ^ 32 = (balance a s + 1) mod 2 ^ 32"
      using x(2) Nil by (simp add: balance_def uint_word_ariths)
    ultimately show ?thesis using run semaphoreSignal_free [OF x(3) Nil] by simp
  next
    case (Cons b bs)
    then have v: "sem_value x = 0" using x(4) by simp
    from sig.signal_first [OF x(5) Cons, of n 0] obtain u where u: "objSignal (Suc n) b 0 s = Inr u"
      "threads_ok (Waiters a) u" "queue u (Waiters a) = bs" "thread_frame (Waiters a) 0 s u" by blast
    then obtain ws where w: "wakes ws (Waiters a) 0 s u" by (auto simp: thread_frame_def)
    have "set ws \<subseteq> set (queue s (Waiters a))" by (subst wakesD(1) [OF w]) simp
    then have "\<forall>c\<in>set ws. blocked_thread c s" using x(5) unfolding threads_ok_def by blast
    then have "a \<notin> set ws" using x(2) by (auto simp: blocked_thread_iff)
    then have a: "objs u a = Some (Semaphore x)" using wakesD(4) [OF w, of a] x(2) by simp
    have "sem_inv a u" using x(1) a v u(2) by (intro sem_invI) auto
    moreover have "balance a u = balance a s + 1" using a x(2) v u(3) Cons by (simp add: balance_def)
    moreover have "semaphoreSignal (objSignal (Suc n)) a r s = objSignal (Suc n) b 0 s"
      using assms Cons by (intro semaphoreSignal_waiting) (auto simp: sem_inv_def)
    ultimately show ?thesis using run u(1) by metis
  qed
qed

lemma semaphore_wait_step:
  assumes "sem_inv a s" "runnable b s"
  shows "\<exists>u st. threadWait (objWait (Suc n)) b a m s = Inr (u, st) \<and> sem_inv a u \<and> balance a u = balance a s - 1"
proof -
  obtain x where x: "a \<noteq> 0" "objs s a = Some (Semaphore x)" "sem_value x = 0 \<or> queue s (Waiters a) = []"
    "threads_ok (Waiters a) s"
    using assms(1) by (rule sem_invD)
  from assms(2) obtain t where t: "b \<noteq> 0" "linked s b = Some ThreadList" "objs s b = Some (Thread t)"
    "\<not> th_blocked t" "th_process t \<noteq> 0" by (auto simp: runnable_def)
  let ?t = "t\<lparr>task := (task t)\<lparr>eax := 0\<rparr>\<rparr>"
  let ?s = "set_thread b ?t s"
  have ne: "a \<noteq> b" using x(2) t(3) by auto
  have s1: "upd_thread b (\<lambda>t. t\<lparr>task := (task t)\<lparr>eax := 0\<rparr>\<rparr>) s = Inr ?s"
    using t(1,3) get_thread_iff [of b s t] by (simp add: upd_thread_def)
  have a1: "objs ?s a = Some (Semaphore x)" using x(2) ne by (simp add: set_thread_def)
  then have "get_semaphore a ?s = Inr x" using x(1) get_semaphore_iff by blast
  then have w: "objWait (Suc n) a m ?s = (if sem_value x = 0 then Inr (?s, WaitOn (Waiters a))
     else Inr (set_obj a (Semaphore \<lparr>sem_value = sem_value x - 1\<rparr>) ?s, Result (sem_value x - 1)))"
    using a1 semaphoreWait_cases [of a ?s x m] by simp
  have nb: "b \<notin> set (queue s (Waiters a))" using x(4) t(2) by (auto simp: threads_ok_def queues_ok_linked)
  show ?thesis
  proof (cases "sem_value x = 0")
    case True
    let ?b = "set_thread b (?t\<lparr>th_blocked := True\<rparr>) ?s"
    let ?u = "link_head (Waiters a) b (unlink b ?b)"
    have run: "threadWait (objWait (Suc n)) b a m s = Inr (?u, INTERRUPT_YIELD)"
      using s1 w True t get_thread_iff [of b ?s ?t]
      by (simp add: threadWait_def ll_remove_obj_def ll_add_after_obj_def unlink_linked)
        (simp add: set_thread_def unlink_linked)
    have fields: "objs ?u = (objs s)(b \<mapsto> Thread (?t\<lparr>th_blocked := True\<rparr>))"
      "queue ?u (Waiters a) = b # queue s (Waiters a)"
      using t(2) by (auto simp: link_head_def set_thread_def queue_unlink)
    have "queues_ok ?u"
      using x(4) by (intro queues_ok_link_head queues_ok_unlink) (auto simp: threads_ok_def set_thread_def unlink_linked)
    then have "threads_ok (Waiters a) ?u"
      using x(4) t nb by (auto simp: threads_ok_def fields blocked_thread_iff)
    then have "sem_inv a ?u" using x(1,2) ne True by (intro sem_invI) (auto simp: fields)
    moreover have "balance a ?u = balance a s - 1" using x(2) ne by (simp add: balance_def fields)
    ultimately show ?thesis using run by blast
  next
    case False
    let ?a = "set_obj a (Semaphore \<lparr>sem_value = sem_value x - 1\<rparr>) ?s"
    let ?u = "set_thread b (?t\<lparr>task := (task ?t)\<lparr>eax := sem_value x - 1\<rparr>\<rparr>) ?a"
    have empty: "queue s (Waiters a) = []" using False x(3) by simp
    have run: "threadWait (objWait (Suc n)) b a m s = Inr (?u, INTERRUPT_CONTINUE_EXECUTION)"
      using s1 w False t ne get_thread_iff [of b ?a ?t] by (simp add: threadWait_def upd_thread_def set_thread_def)
    have "threads_ok (Waiters a) ?u"
      using x(4) empty by (auto simp: threads_ok_def set_thread_def)
    then have "sem_inv a ?u" using x(1) ne empty by (intro sem_invI) (auto simp: set_thread_def)
    moreover have "1 \<le> uint (sem_value x)" using False by (simp add: word_neq_0_conv word_less_def)
    then have "uint (sem_value x - 1) = uint (sem_value x) - 1" by (simp add: uint_sub_lem [THEN iffD1])
    then have "balance a ?u = balance a s - 1"
      using x(2) ne empty by (simp add: balance_def set_thread_def)
    ultimately show ?thesis using run by blast
  qed
qed

lemma sem_steps_inv:
  assumes "sem_steps (Suc (Suc n)) a s d u" "sem_inv a s"
  shows "sem_inv a u \<and> balance a u mod 2 ^ 32 = (balance a s + d) mod 2 ^ 32"
  using assms
proof (induction rule: sem_steps.induct)
  case (sem_signal d t r u)
  then have "sem_inv a u \<and> balance a u mod 2 ^ 32 = (balance a t + 1) mod 2 ^ 32"
    using semaphore_signal_step [of a t n r] by auto
  then show ?case using sem_signal by (metis add.assoc mod_add_left_eq)
next
  case (sem_wait d t b m u st)
  then have "sem_inv a u \<and> balance a u = balance a t - 1" using semaphore_wait_step [of a t b "Suc n" m] by auto
  then show ?case using sem_wait by (metis add_diff_eq mod_diff_left_eq)
qed simp

section \<open>Properties\<close>

text \<open>A small kernel state: two blocked threads, an event with one attached semaphore. Thread \<open>1\<close> waits for
  the event \<open>2\<close>; its sub-event \<open>3\<close> and the thread \<open>5\<close> wait for the semaphore \<open>4\<close>.\<close>

definition demo_thread :: "bool \<Rightarrow> thread" where
  "demo_thread b = (blank_thread 9)\<lparr>th_blocked := b\<rparr>"

definition demo_net :: kst where
  "demo_net = initial_kst\<lparr>heapNext := 10,
     objs := [1 \<mapsto> Thread (demo_thread True), 2 \<mapsto> Event \<lparr>subEvents = [3], status = 0, ev_wakeupAll = True\<rparr>,
       3 \<mapsto> SubEvent \<lparr>se_blocked = True, se_event = 2, se_wait = 4, se_waitMode = 0, se_identifier = 7\<rparr>,
       4 \<mapsto> Semaphore \<lparr>sem_value = 0\<rparr>, 5 \<mapsto> Thread (demo_thread True)],
     queue := (\<lambda>_. [])(Waiters 2 := [1], Waiters 4 := [3, 5]),
     linked := [1 \<mapsto> Waiters 2, 3 \<mapsto> Waiters 4, 5 \<mapsto> Waiters 4]\<rparr>"

definition demo_rank :: "addr \<Rightarrow> nat" where
  "demo_rank a = (if a = 2 then 1 else if a = 3 then 2 else if a = 4 then 3 else 0)"

lemma demo_net_queues: "queues_ok demo_net"
  by (auto simp: queues_ok_def demo_net_def initial_kst_def)

lemma demo_net_ok: "net_ok demo_rank demo_net"
  using demo_net_queues unfolding net_ok_def
  by (auto simp: demo_net_def initial_kst_def demo_rank_def owner_def blocked_thread_iff forwards_def
    demo_thread_def blank_thread_def split: if_splits)

text \<open>
  C3: Waking up the waiters of any object through the function tables always returns when the wait graph
  has no cycle and the bound is at least the level of the object: the queue is then empty (or has lost
  its first waiter), the wait graph is still well formed, and every thread is either untouched
  or runnable with a result in its register. No waiter is lost and no signal loops.
\<close>
theorem wakeup_acyclic:
  assumes "net_ok rk s" "wait_queue q" "rk (owner q) \<le> n"
  shows "\<exists>s'. queueWakeup (objSignal n) q all r s = Inr s' \<and> net_ok rk s' \<and>
    queue s' q = (if all then [] else drop 1 (queue s q)) \<and>
    (\<forall>b x. objs s b = Some (Thread x) \<longrightarrow> thread_kept b x s s')"
  using net.queueWakeup_spec [of rk s q n all r] assms unfolding net_frame_def by blast

theorem wakeup_acyclic_witness:
  "\<exists>s'. queueWakeup (objSignal 3) (Waiters 4) True 5 demo_net = Inr s' \<and> queue s' (Waiters 4) = [] \<and>
    net_ok demo_rank s' \<and> thread_kept 1 (demo_thread True) demo_net s'"
proof -
  have "wait_queue (Waiters 4)" "demo_rank (owner (Waiters 4)) \<le> 3" "objs demo_net 1 = Some (Thread (demo_thread True))"
    by (simp_all add: wait_queue_def owner_def demo_rank_def demo_net_def)
  with wakeup_acyclic [OF demo_net_ok, of "Waiters 4" 3 True 5] show ?thesis by auto
qed

text \<open>
  Waking up a queue of blocked threads moves exactly these threads, in the order of the queue, to the
  end of the list of runnable threads, with the result in \<^verbatim>\<open>eax\<close>; every other part of the kernel state
  is unchanged.
\<close>
theorem wakeup_threads:
  assumes "threads_ok q s"
  shows "\<exists>s'. queueWakeup (objSignal (Suc n)) q all r s = Inr s' \<and> threads_ok q s' \<and>
    wakes (if all then queue s q else take 1 (queue s q)) q r s s'"
proof -
  from sig.queueWakeup_spec [OF assms, of n all r] obtain s' where
    s': "queueWakeup (objSignal (Suc n)) q all r s = Inr s'" "threads_ok q s'" "thread_frame q r s s'"
    "queue s' q = (if all then [] else drop 1 (queue s q))" by blast
  then obtain ws where w: "wakes ws q r s s'" by (auto simp: thread_frame_def)
  have "ws = (if all then queue s q else take 1 (queue s q))"
    using wakesD(1) [OF w] s'(4) by (metis append_Nil2 append_same_eq append_take_drop_id)
  with s' w show ?thesis by blast
qed

theorem wakeup_threads_witness:
  "\<exists>s'. queueWakeup (objSignal (Suc 0)) (Waiters 2) True 5 demo_net = Inr s' \<and> wakes [1] (Waiters 2) 5 demo_net s'"
proof -
  have "threads_ok (Waiters 2) demo_net" "queue demo_net (Waiters 2) = [1]"
    using demo_net_queues by (auto simp: threads_ok_def wait_queue_def blocked_thread_iff)
      (auto simp: demo_net_def demo_thread_def blank_thread_def)
  with wakeup_threads [of "Waiters 2" demo_net 0 True 5] show ?thesis by metis
qed

text \<open>
  C4: A semaphore never loses or invents a unit: after any run of signals and waits, the units minus the
  waiting threads are the initial ones plus the signals minus the waits (modulo the width of the
  counter), units and waiting threads are never there at the same time, and the next signal and
  the next wait of a runnable thread return.
\<close>
theorem semaphore_counts:
  assumes "sem_inv a s" "sem_steps (Suc (Suc n)) a s d u"
  shows "sem_inv a u \<and> balance a u mod 2 ^ 32 = (balance a s + d) mod 2 ^ 32 \<and>
    (\<exists>v. objSignal (Suc (Suc n)) a r u = Inr v) \<and>
    (runnable b u \<longrightarrow> (\<exists>v st. threadWait (objWait (Suc (Suc n))) b a m u = Inr (v, st)))"
  using sem_steps_inv [OF assms(2,1)] semaphore_signal_step [of a u n r] semaphore_wait_step [of a u b "Suc n" m]
  by auto

definition demo_sem :: kst where
  "demo_sem = initial_kst\<lparr>heapNext := 10, objs := [4 \<mapsto> Semaphore \<lparr>sem_value = 0\<rparr>, 5 \<mapsto> Thread (demo_thread True)],
     queue := (\<lambda>_. [])(Waiters 4 := [5]), linked := [5 \<mapsto> Waiters 4]\<rparr>"

lemma demo_sem_inv: "sem_inv 4 demo_sem"
proof (rule sem_invI [where x = "\<lparr>sem_value = 0\<rparr>"])
  show "threads_ok (Waiters 4) demo_sem"
    by (auto simp: threads_ok_def wait_queue_def queues_ok_def blocked_thread_iff demo_sem_def initial_kst_def
      demo_thread_def blank_thread_def)
qed (simp_all add: demo_sem_def)

theorem semaphore_counts_witness:
  "\<exists>u v. objSignal 2 4 0 demo_sem = Inr u \<and> balance 4 u mod 2 ^ 32 = (balance 4 demo_sem + 1) mod 2 ^ 32 \<and>
     objSignal 2 4 0 u = Inr v"
proof -
  from semaphore_signal_step [OF demo_sem_inv, of 0 0] obtain u where u: "objSignal 2 4 0 demo_sem = Inr u"
    by (auto simp: numeral_2_eq_2)
  from sem_signal [OF sem_refl this] have "sem_steps (Suc (Suc 0)) 4 demo_sem (0 + 1) u" by (simp add: numeral_2_eq_2)
  from semaphore_counts [OF demo_sem_inv this, of 0] u show ?thesis by (auto simp: numeral_2_eq_2)
qed


definition demo_event :: kst where
  "demo_event = initial_kst\<lparr>heapNext := 10,
     objs := [2 \<mapsto> Event \<lparr>subEvents = [3], status = 0, ev_wakeupAll = True\<rparr>,
       3 \<mapsto> SubEvent \<lparr>se_blocked = False, se_event = 2, se_wait = 4, se_waitMode = 0, se_identifier = 7\<rparr>,
       4 \<mapsto> Semaphore \<lparr>sem_value = 0\<rparr>]\<rparr>"


lemma timers_ok_time [simp]: "timers_ok (s\<lparr>currentKernelTimestamp := v\<rparr>) = timers_ok s"
proof -
  have "time_of (s\<lparr>currentKernelTimestamp := v\<rparr>) = time_of s" by (auto simp: time_of_def)
  then show ?thesis by (simp add: timers_ok_def timers_linked_def queues_ok_def)
qed

lemma waiters_ok_time [simp]: "waiters_ok (s\<lparr>currentKernelTimestamp := v\<rparr>) = waiters_ok s"
  by (simp add: waiters_ok_def threads_ok_def queues_ok_def blocked_thread_def)


definition demo_timer :: "u64 \<Rightarrow> timer \<Rightarrow> kst" where
  "demo_timer now t = initial_kst\<lparr>heapNext := 10, currentKernelTimestamp := now, objs := [4 \<mapsto> Timer t],
     queue := (\<lambda>_. [])(TimerList := if active t then [4] else []),
     linked := (\<lambda>_. None)(4 := if active t then Some TimerList else None)\<rparr>"

lemma demo_timer_ok: "timers_ok (demo_timer now t)" "waiters_ok (demo_timer now t)"
  by (auto simp: timers_ok_def timers_linked_def waiters_ok_def threads_ok_def wait_queue_def queues_ok_def
    demo_timer_def initial_kst_def split: if_splits)




end
