(* ===== verification/Allocator.thy ===== *)
theory Allocator
  imports Paging Util
begin

text \<open>
  The kernel heap (\<^verbatim>\<open>memory/allocator.c\<close>). Every block starts with a 16-byte header; all block addresses
  are multiples of 16. \<open>hdr\<close> reads the memory at an address as a header, \<open>bytes\<close> as data; a header write
  changes only \<open>hdr\<close>, which is right because the theorems show that blocks are disjoint. \<open>hlists\<close> holds
  the elements of the list heads in list order; linking a block twice or unlinking a free one
  is \<open>MemFault\<close>. Addresses and lengths of small blocks are \<open>nat\<close>: blocks lie inside a page below the page
  tables at \<^verbatim>\<open>0xFFC00000\<close>, where 32-bit sums do not wrap. Sizes of large blocks are computed at
  their width of 32 bits, and stored in 31.

  The first part holds the operations, the second the invariant: every heap page is tiled by blocks, no
  two neighbours are both free, and each block is linked into the list of its kind.
\<close>

unbundle bit_operations_syntax

section \<open>Headers and lists\<close>

definition HEAP_ALIGN_SIZE :: nat where "HEAP_ALIGN_SIZE = 16"
definition SMALL_HEAP_MAGIC :: u32 where "SMALL_HEAP_MAGIC = 0xFEEFABB1"
definition LARGE_HEAP_MAGIC :: u32 where "LARGE_HEAP_MAGIC = 0xFEEFABB2"
definition HEADER :: nat where "HEADER = 16"

record heapEntry =
  heapMagic :: u32
  hlength :: nat
  hreserved :: bool

datatype heapList = SmallHeap | Unused32 | Unused64 | Unused128 | Unused256 | Unused512 | Unused1024 | LargeHeap

record kheap =
  hdr :: "nat \<Rightarrow> heapEntry"
  bytes :: mem
  hlists :: "heapList \<Rightarrow> nat list"
  hmem :: paging

definition list_of :: "nat \<Rightarrow> kheap \<Rightarrow> heapList option" where
  "list_of a h = find (\<lambda>c. a \<in> set (hlists h c))
     [SmallHeap, Unused32, Unused64, Unused128, Unused256, Unused512, Unused1024, LargeHeap]"

definition hl_add :: "heapList \<Rightarrow> nat \<Rightarrow> kheap \<Rightarrow> kheap kres" where
  "hl_add c a h = (if list_of a h \<noteq> None then Inl MemFault
     else Inr (h\<lparr>hlists := (hlists h)(c := a # hlists h c)\<rparr>))"

definition hl_remove :: "nat \<Rightarrow> kheap \<Rightarrow> kheap kres" where
  "hl_remove a h = (case list_of a h of None \<Rightarrow> Inl MemFault
     | Some c \<Rightarrow> Inr (h\<lparr>hlists := (hlists h)(c := remove1 a (hlists h c))\<rparr>))"

definition put_header :: "nat \<Rightarrow> u32 \<Rightarrow> nat \<Rightarrow> bool \<Rightarrow> kheap \<Rightarrow> kheap" where
  "put_header a magic len res h = h\<lparr>hdr := (hdr h)(a := \<lparr>heapMagic = magic, hlength = len, hreserved = res\<rparr>)\<rparr>"

definition round16 :: "nat \<Rightarrow> nat" where
  "round16 n = (n + 15) div 16 * 16"

section \<open>Small blocks\<close>

definition smallFindUnusedHeapEntry :: "nat \<Rightarrow> kheap \<Rightarrow> (kheap \<times> nat) kres" where
  "smallFindUnusedHeapEntry len h =
     (let take_first = (\<lambda>c. case hlists h c of [] \<Rightarrow> Inl MemFault
                          | a # as \<Rightarrow> kbind (hl_remove a h) (\<lambda>h. Inr (h, a)))
      in if len \<le> 32 \<and> hlists h Unused32 \<noteq> [] then take_first Unused32
         else if len \<le> 64 \<and> hlists h Unused64 \<noteq> [] then take_first Unused64
         else if len \<le> 128 \<and> hlists h Unused128 \<noteq> [] then take_first Unused128
         else if len \<le> 256 \<and> hlists h Unused256 \<noteq> [] then take_first Unused256
         else if len \<le> 512 \<and> hlists h Unused512 \<noteq> [] then take_first Unused512
         else if len \<le> 1024 \<and> hlists h Unused1024 \<noteq> [] then take_first Unused1024
         else Inr (h, 0))"

definition unused_list :: "nat \<Rightarrow> heapList option" where
  "unused_list len =
     (if len \<ge> 1024 then Some Unused1024 else if len \<ge> 512 then Some Unused512
      else if len \<ge> 256 then Some Unused256 else if len \<ge> 128 then Some Unused128
      else if len \<ge> 64 then Some Unused64 else if len \<ge> 32 then Some Unused32 else None)"

definition smallQueueUnusedHeap :: "nat \<Rightarrow> nat \<Rightarrow> kheap \<Rightarrow> (kheap \<times> nat) kres" where
  "smallQueueUnusedHeap heap len h =
     (if heap mod PAGE_SIZE = 0 \<and> len = PAGE_SIZE
      then kbind (pagingReleasePhysMem (getPagingEntry 0) (word_of_nat heap) 1 (hmem h)) (\<lambda>m. Inr (h\<lparr>hmem := m\<rparr>, 0))
      else case unused_list len of
             None \<Rightarrow> Inl AssertFailed
           | Some c \<Rightarrow> kbind (hl_add c heap h) (\<lambda>h. Inr (put_header heap SMALL_HEAP_MAGIC len False h, heap)))"

text \<open>A block of length 0 would make the loop run for ever; 256 headers fit into a page.\<close>

primrec previous_loop :: "nat \<Rightarrow> nat \<Rightarrow> nat \<Rightarrow> kheap \<Rightarrow> nat kres" where
  "previous_loop 0 prev heap h = Inl OutOfFuel"
| "previous_loop (Suc n) prev heap h =
     (if prev < heap
      then kassert (heapMagic (hdr h prev) = SMALL_HEAP_MAGIC) (
           kassert (hlength (hdr h prev) mod HEAP_ALIGN_SIZE = 0) (
             if prev + hlength (hdr h prev) \<ge> heap then Inr prev
             else previous_loop n (prev + hlength (hdr h prev)) heap h))
      else kassert (prev = heap) (Inr prev))"

definition smallGetPreviousHeap :: "nat \<Rightarrow> kheap \<Rightarrow> nat kres" where
  "smallGetPreviousHeap heap h = previous_loop 257 (heap div PAGE_SIZE * PAGE_SIZE) heap h"

definition smallGetNextHeap :: "nat \<Rightarrow> nat \<Rightarrow> kheap \<Rightarrow> nat kres" where
  "smallGetNextHeap heap len h =
     (if heap + len \<ge> heap div PAGE_SIZE * PAGE_SIZE + PAGE_SIZE then Inr 0
      else kassert (heapMagic (hdr h (heap + len)) = SMALL_HEAP_MAGIC) (
           kassert (hlength (hdr h (heap + len)) mod HEAP_ALIGN_SIZE = 0) (Inr (heap + len))))"

definition smallInternalFree :: "nat \<Rightarrow> nat \<Rightarrow> kheap \<Rightarrow> (kheap \<times> nat) kres" where
  "smallInternalFree deleted len h =
     kassert (deleted mod HEAP_ALIGN_SIZE = 0) (
     kassert (len mod HEAP_ALIGN_SIZE = 0 \<and> len > 0) (
     kbind (smallGetPreviousHeap deleted h) (\<lambda>prev.
     kbind (if prev \<noteq> 0 \<and> \<not> hreserved (hdr h prev)
            then kbind (hl_remove prev h) (\<lambda>h. Inr (h, prev, deleted + len - prev))
            else Inr (h, deleted, len)) (\<lambda>(h, deleted, len).
     kbind (smallGetNextHeap deleted len h) (\<lambda>nxt.
     kbind (if nxt \<noteq> 0 \<and> \<not> hreserved (hdr h nxt)
            then kbind (hl_remove nxt h) (\<lambda>h. Inr (h, nxt + hlength (hdr h nxt) - deleted))
            else Inr (h, len)) (\<lambda>(h, len).
     smallQueueUnusedHeap deleted len h))))))"

text \<open>The end of \<^verbatim>\<open>__smallAlloc\<close> and \<^verbatim>\<open>__smallReAlloc\<close>: keep \<open>len\<close> bytes of a block of \<open>orig\<close>, or all of it
  if the rest is too small.\<close>

definition keep_length :: "nat \<Rightarrow> nat \<Rightarrow> nat" where
  "keep_length orig len = (if orig < len + HEADER + 16 then orig else len)"

definition give_back :: "nat \<Rightarrow> nat \<Rightarrow> nat \<Rightarrow> kheap \<Rightarrow> kheap kres" where
  "give_back heap len orig h =
     (if len < orig then kbind (smallInternalFree (heap + len) (orig - len) h) (\<lambda>(h, _). Inr h) else Inr h)"

definition smallAlloc :: "nat \<Rightarrow> kheap \<Rightarrow> (kheap \<times> nat) kres" where
  "smallAlloc len h =
     (let len = round16 (len + HEADER) in
      kbind (smallFindUnusedHeapEntry len h) (\<lambda>(h, heap).
      kbind (if heap \<noteq> 0
             then kassert (heapMagic (hdr h heap) = SMALL_HEAP_MAGIC) (
                  kassert (hlength (hdr h heap) mod HEAP_ALIGN_SIZE = 0) (
                  kassert (hlength (hdr h heap) \<ge> len) (
                  kassert (\<not> hreserved (hdr h heap)) (Inr (h, heap, hlength (hdr h heap))))))
             else kbind (pagingAllocatePhysMem (getPagingEntry 0) 1 True False (hmem h)) (\<lambda>(m, a).
                  Inr (h\<lparr>hmem := m\<rparr>, unat a, PAGE_SIZE))) (\<lambda>(h, heap, orig).
      let len = keep_length orig len in
      kbind (hl_add SmallHeap heap h) (\<lambda>h.
      kbind (give_back heap len orig (put_header heap SMALL_HEAP_MAGIC len True h)) (\<lambda>h.
      Inr (h, heap))))))"

definition smallFree :: "nat \<Rightarrow> kheap \<Rightarrow> kheap kres" where
  "smallFree heap h =
     kassert (heapMagic (hdr h heap) = SMALL_HEAP_MAGIC) (
     kassert (hlength (hdr h heap) mod HEAP_ALIGN_SIZE = 0) (
     kassert (hreserved (hdr h heap)) (
     kbind (hl_remove heap h) (\<lambda>h.
     kbind (smallInternalFree heap (hlength (hdr h heap)) h) (\<lambda>(h, _). Inr h)))))"

definition smallReAlloc :: "nat \<Rightarrow> u32 \<Rightarrow> kheap \<Rightarrow> (kheap \<times> nat) kres" where
  "smallReAlloc heap len h =
     kassert (heapMagic (hdr h heap) = SMALL_HEAP_MAGIC) (
     kassert (hlength (hdr h heap) mod HEAP_ALIGN_SIZE = 0) (
     kassert (hreserved (hdr h heap)) (
       if unat len > 1024 - HEADER then Inr (h, 0)
       else let len = round16 (unat len + HEADER); orig = hlength (hdr h heap);
                finish = (\<lambda>orig h. kassert (orig \<ge> len) (
                  let len = keep_length orig len in
                  kbind (give_back heap len orig (put_header heap SMALL_HEAP_MAGIC len True h)) (\<lambda>h.
                  Inr (h, heap))))
            in if len > orig
               then kbind (smallGetNextHeap heap orig h) (\<lambda>nxt.
                      if nxt = 0 \<or> hreserved (hdr h nxt) then Inr (h, 0)
                      else if len > nxt + hlength (hdr h nxt) - heap then Inr (h, 0)
                      else kbind (hl_remove nxt h) (\<lambda>h. finish (nxt + hlength (hdr h nxt) - heap) h))
               else finish orig h)))"

section \<open>Large blocks\<close>

text \<open>The rounded length; both sums wrap at 32 bits.\<close>

definition large_length :: "u32 \<Rightarrow> u32" where
  "large_length len = (len + 16 + 0xFFF) AND NOT 0xFFF"

definition largeAlloc :: "u32 \<Rightarrow> kheap \<Rightarrow> (kheap \<times> nat) kres" where
  "largeAlloc len h =
     (let len = large_length len in
      kbind (pagingAllocatePhysMem (getPagingEntry 0) (drop_bit 12 len) True False (hmem h)) (\<lambda>(m, a).
      let heap = unat a in
      kbind (hl_add LargeHeap heap (h\<lparr>hmem := m\<rparr>)) (\<lambda>h.
      Inr (put_header heap LARGE_HEAP_MAGIC (unat len mod 2 ^ 31) True h, heap))))"

definition largeFree :: "nat \<Rightarrow> kheap \<Rightarrow> kheap kres" where
  "largeFree heap h =
     kassert (heap mod PAGE_SIZE = 0) (
     kassert (heapMagic (hdr h heap) = LARGE_HEAP_MAGIC) (
     kassert (hlength (hdr h heap) mod PAGE_SIZE = 0) (
     kassert (hreserved (hdr h heap)) (
     kbind (hl_remove heap h) (\<lambda>h.
     kbind (pagingReleasePhysMem (getPagingEntry 0) (word_of_nat heap) (hlength (hdr h heap) div PAGE_SIZE) (hmem h)) (\<lambda>m.
     Inr (h\<lparr>hmem := m\<rparr>)))))))"

text \<open>Moving a mapping moves what the addresses show.\<close>

definition moved :: "nat \<Rightarrow> nat \<Rightarrow> nat \<Rightarrow> (nat \<Rightarrow> 'a) \<Rightarrow> nat \<Rightarrow> 'a" where
  "moved dst src n f = (\<lambda>a. if dst \<le> a \<and> a < dst + n then f (src + (a - dst)) else f a)"

definition largeReAlloc :: "nat \<Rightarrow> u32 \<Rightarrow> kheap \<Rightarrow> (kheap \<times> nat) kres" where
  "largeReAlloc heap len h =
     kassert (heap mod PAGE_SIZE = 0) (
     kassert (heapMagic (hdr h heap) = LARGE_HEAP_MAGIC) (
     kassert (hlength (hdr h heap) mod PAGE_SIZE = 0) (
       if unat len \<le> 1024 - HEADER then Inr (h, 0)
       else let len = large_length len; old = hlength (hdr h heap) in
            if unat len = old then Inr (h, heap)
            else kbind (hl_remove heap h) (\<lambda>h.
                 kbind (pagingReAllocatePhysMem (getPagingEntry 0) (word_of_nat heap) (word_of_nat (old div PAGE_SIZE))
                          (drop_bit 12 len) True False (hmem h)) (\<lambda>(m, a).
                 let new = unat a;
                     h = h\<lparr>hmem := m, hdr := moved new heap (min old (unat len)) (hdr h),
                           bytes := moved new heap (min old (unat len)) (bytes h)\<rparr> in
                 kassert (heapMagic (hdr h new) = LARGE_HEAP_MAGIC) (
                 kbind (hl_add LargeHeap new h) (\<lambda>h.
                 Inr (put_header new LARGE_HEAP_MAGIC (unat len mod 2 ^ 31) True h, new))))))))"

section \<open>The interface\<close>

definition heapAlloc :: "u32 \<Rightarrow> kheap \<Rightarrow> (kheap \<times> nat) kres" where
  "heapAlloc len h =
     (if len = 0 then Inr (h, 0)
      else kbind (if unat len \<le> 1024 - HEADER then smallAlloc (unat len) h else largeAlloc len h) (\<lambda>(h, heap).
           Inr (h, if heap \<noteq> 0 then heap + HEADER else 0)))"

text \<open>The header behind a block pointer, with the checks all functions make.\<close>

definition checked_header :: "nat \<Rightarrow> kheap \<Rightarrow> nat kres" where
  "checked_header a h =
     kassert (a mod PAGE_SIZE \<ge> HEADER) (
     let heap = a - HEADER in
     kassert (heapMagic (hdr h heap) = SMALL_HEAP_MAGIC \<or> heapMagic (hdr h heap) = LARGE_HEAP_MAGIC) (
     kassert (hreserved (hdr h heap)) (Inr heap)))"

definition heapFree :: "nat \<Rightarrow> kheap \<Rightarrow> kheap kres" where
  "heapFree a h =
     (if a = 0 then Inr h
      else kbind (checked_header a h) (\<lambda>heap.
           if heapMagic (hdr h heap) = SMALL_HEAP_MAGIC then smallFree heap h else largeFree heap h))"

definition heapSize :: "nat \<Rightarrow> kheap \<Rightarrow> nat kres" where
  "heapSize a h = (if a = 0 then Inr 0 else kbind (checked_header a h) (\<lambda>heap. Inr (hlength (hdr h heap) - HEADER)))"

definition heapReAlloc :: "nat \<Rightarrow> u32 \<Rightarrow> kheap \<Rightarrow> (kheap \<times> nat) kres" where
  "heapReAlloc a len h =
     (if a = 0 then heapAlloc len h
      else if len = 0 then kbind (heapFree a h) (\<lambda>h. Inr (h, 0))
      else kbind (checked_header a h) (\<lambda>heap.
           kbind (if heapMagic (hdr h heap) = SMALL_HEAP_MAGIC then smallReAlloc heap len h
                  else largeReAlloc heap len h) (\<lambda>(h, new).
             if new \<noteq> 0 then Inr (h, new + HEADER)
             else kbind (heapAlloc len h) (\<lambda>(h, new_addr).
                    if new_addr = 0 then Inr (h, 0)
                    else let old = hlength (hdr h heap) - HEADER;
                             n = (if unat len > old then old else unat len)
                         in kbind (heapFree a (h\<lparr>bytes := memcpy (bytes h) new_addr a n\<rparr>)) (\<lambda>h.
                            Inr (h, new_addr))))))"

definition heapVerify :: "kheap \<Rightarrow> unit kres" where
  "heapVerify h =
     (let small = (\<lambda>res a. a mod HEAP_ALIGN_SIZE = 0 \<and> heapMagic (hdr h a) = SMALL_HEAP_MAGIC \<and>
                     hlength (hdr h a) \<ge> HEADER + 16 \<and> hreserved (hdr h a) = res);
          large = (\<lambda>a. a mod PAGE_SIZE = 0 \<and> heapMagic (hdr h a) = LARGE_HEAP_MAGIC \<and>
                     hlength (hdr h a) > 0 \<and> hlength (hdr h a) mod PAGE_SIZE = 0 \<and> hreserved (hdr h a))
      in kassert (list_all (small True) (hlists h SmallHeap)) (
         kassert (list_all large (hlists h LargeHeap)) (
         kassert (list_all (\<lambda>c. list_all (small False) (hlists h c))
           [Unused32, Unused64, Unused128, Unused256, Unused512, Unused1024]) (Inr ()))))"

section \<open>Blocks and lists\<close>

text \<open>A page as the sequence of its blocks: length and whether it is in use.\<close>

type_synonym block = "nat \<times> bool"

abbreviation span :: "block list \<Rightarrow> nat" where
  "span bs \<equiv> sum_list (map fst bs)"

primrec pos :: "nat \<Rightarrow> block list \<Rightarrow> (nat \<times> block) list" where
  "pos a [] = []"
| "pos a (b # bs) = (a, b) # pos (a + fst b) bs"

definition kind :: "block \<Rightarrow> heapList" where
  "kind b = (if snd b then SmallHeap else the (unused_list (fst b)))"

definition block_ok :: "(nat \<Rightarrow> heapEntry) \<Rightarrow> nat \<times> block \<Rightarrow> bool" where
  "block_ok f x \<longleftrightarrow> fst (snd x) mod 16 = 0 \<and> 32 \<le> fst (snd x) \<and>
     f (fst x) = \<lparr>heapMagic = SMALL_HEAP_MAGIC, hlength = fst (snd x), hreserved = snd (snd x)\<rparr>"

abbreviation chain :: "kheap \<Rightarrow> nat \<Rightarrow> block list \<Rightarrow> bool" where
  "chain h a bs \<equiv> list_all (block_ok (hdr h)) (pos a bs)"

fun apart :: "block list \<Rightarrow> bool" where
  "apart (b # c # bs) = ((snd b \<or> snd c) \<and> apart (c # bs))"
| "apart bs = True"

text \<open>\<open>A\<close> are the blocks that are linked into the lists of small blocks.\<close>

definition links_ok :: "(nat \<times> block) set \<Rightarrow> kheap \<Rightarrow> bool" where
  "links_ok A h \<longleftrightarrow> inj_on fst A \<and> (\<forall>c. distinct (hlists h c)) \<and>
     (\<forall>c a. c \<noteq> LargeHeap \<longrightarrow> (a \<in> set (hlists h c) \<longleftrightarrow> (\<exists>b. (a, b) \<in> A \<and> kind b = c))) \<and>
     (\<forall>a\<in>set (hlists h LargeHeap). a \<notin> fst ` A) \<and> (\<forall>(a, b)\<in>A. 32 \<le> fst b)"

lemma links_unique: "links_ok A h \<Longrightarrow> (a, b) \<in> A \<Longrightarrow> (a, b') \<in> A \<Longrightarrow> b' = b"
  unfolding links_ok_def inj_on_def by (metis fst_conv prod.inject)

lemma links_member: "links_ok A h \<Longrightarrow> c \<noteq> LargeHeap \<Longrightarrow> a \<in> set (hlists h c) \<longleftrightarrow> (\<exists>b. (a, b) \<in> A \<and> kind b = c)"
  unfolding links_ok_def by blast

lemma links_large: "links_ok A h \<Longrightarrow> a \<in> set (hlists h LargeHeap) \<Longrightarrow> (a, b) \<notin> A"
  unfolding links_ok_def by (metis fst_conv image_eqI)

lemma links_length: "links_ok A h \<Longrightarrow> (a, b) \<in> A \<Longrightarrow> 32 \<le> fst b"
  unfolding links_ok_def by auto

lemma pos_append [simp]: "pos a (xs @ ys) = pos a xs @ pos (a + span xs) ys"
  by (induction xs arbitrary: a) (auto simp: add.assoc)

lemma pos_bounds: "(b, x) \<in> set (pos a bs) \<Longrightarrow> a \<le> b \<and> b + fst x \<le> a + span bs"
  by (induction bs arbitrary: a) fastforce+

lemma unused_list_kind: "32 \<le> l \<Longrightarrow> unused_list l = Some (kind (l, False))"
  by (auto simp: kind_def unused_list_def)

lemma kind_small: "32 \<le> fst b \<Longrightarrow> kind b \<noteq> LargeHeap"
  by (auto simp: kind_def unused_list_def)

lemma list_of_iff:
  "list_of a h = (if a \<in> set (hlists h SmallHeap) then Some SmallHeap
     else if a \<in> set (hlists h Unused32) then Some Unused32 else if a \<in> set (hlists h Unused64) then Some Unused64
     else if a \<in> set (hlists h Unused128) then Some Unused128 else if a \<in> set (hlists h Unused256) then Some Unused256
     else if a \<in> set (hlists h Unused512) then Some Unused512 else if a \<in> set (hlists h Unused1024) then Some Unused1024
     else if a \<in> set (hlists h LargeHeap) then Some LargeHeap else None)"
  by (simp add: list_of_def)

text \<open>Two states that differ only in the lists of small blocks.\<close>

definition relinked :: "kheap \<Rightarrow> kheap \<Rightarrow> bool" where
  "relinked h h' \<longleftrightarrow> h'\<lparr>hlists := hlists h\<rparr> = h \<and> hlists h' LargeHeap = hlists h LargeHeap"

lemma relinked_refl [simp]: "relinked h h"
  by (simp add: relinked_def)

lemma hdr_of_lists:
  "relinked h h' \<Longrightarrow> hdr h' = hdr h \<and> bytes h' = bytes h \<and> hmem h' = hmem h \<and> hlists h' LargeHeap = hlists h LargeHeap"
  by (cases h, cases h') (simp add: relinked_def)

lemma list_of_linked:
  assumes "links_ok A h" "(a, b) \<in> A"
  shows "list_of a h = Some (kind b)"
proof -
  have b: "a \<in> set (hlists h c) \<longleftrightarrow> c = kind b" for c
  proof (cases "c = LargeHeap")
    case True
    then show ?thesis using links_large [OF assms(1)] assms(2) kind_small [OF links_length [OF assms]] by blast
  next
    case False
    then show ?thesis using links_member [OF assms(1) False] links_unique [OF assms] assms(2) by blast
  qed
  show ?thesis unfolding list_of_iff b by (cases "kind b") auto
qed

lemma list_of_free:
  assumes "links_ok A h" "a \<notin> fst ` A" "a \<notin> set (hlists h LargeHeap)"
  shows "list_of a h = None"
proof -
  have "a \<notin> set (hlists h c)" for c
  proof (cases "c = LargeHeap")
    case False
    then show ?thesis using links_member [OF assms(1) False] assms(2) by (metis fst_conv image_eqI)
  qed (use assms(3) in simp)
  then show ?thesis by (simp add: list_of_iff)
qed

lemma hl_remove_spec:
  assumes "links_ok A h" "(a, b) \<in> A"
  shows "\<exists>h'. hl_remove a h = Inr h' \<and> links_ok (A - {(a, b)}) h' \<and> relinked h h'"
proof -
  let ?h = "h\<lparr>hlists := (hlists h)(kind b := remove1 a (hlists h (kind b)))\<rparr>"
  have k: "kind b \<noteq> LargeHeap" using links_length [OF assms] by (rule kind_small)
  note uniq = links_unique [OF assms]
  have "links_ok (A - {(a, b)}) ?h"
    unfolding links_ok_def
  proof (intro conjI allI impI)
    show "inj_on fst (A - {(a, b)})" using assms by (auto simp: links_ok_def inj_on_def)
    show "distinct (hlists ?h c)" for c using assms by (simp add: links_ok_def)
    show "\<forall>a'\<in>set (hlists ?h LargeHeap). a' \<notin> fst ` (A - {(a, b)})" using assms k by (auto simp: links_ok_def)
    show "\<forall>(a, b)\<in>A - {(a, b)}. 32 \<le> fst b" using assms by (auto simp: links_ok_def)
    fix c a' assume c: "c \<noteq> LargeHeap"
    have "distinct (hlists h c)" using assms by (simp add: links_ok_def)
    then have "a' \<in> set (hlists ?h c) \<longleftrightarrow> a' \<in> set (hlists h c) \<and> \<not> (c = kind b \<and> a' = a)" by auto
    also have "\<dots> \<longleftrightarrow> (\<exists>x. (a', x) \<in> A - {(a, b)} \<and> kind x = c)"
      unfolding links_member [OF assms(1) c] using uniq assms(2) by blast
    finally show "a' \<in> set (hlists ?h c) \<longleftrightarrow> (\<exists>x. (a', x) \<in> A - {(a, b)} \<and> kind x = c)" .
  qed
  then show ?thesis using list_of_linked [OF assms] k by (simp add: hl_remove_def relinked_def)
qed

lemma hl_add_spec:
  assumes "links_ok A h" "a \<notin> fst ` A" "a \<notin> set (hlists h LargeHeap)" "32 \<le> fst b"
  shows "\<exists>h'. hl_add (kind b) a h = Inr h' \<and> links_ok (insert (a, b) A) h' \<and> relinked h h'"
proof -
  let ?h = "h\<lparr>hlists := (hlists h)(kind b := a # hlists h (kind b))\<rparr>"
  have k: "kind b \<noteq> LargeHeap" using assms(4) by (rule kind_small)
  then have notin: "a \<notin> set (hlists h (kind b))" using links_member [OF assms(1) k] assms(2) by (metis fst_conv image_eqI)
  have "links_ok (insert (a, b) A) ?h"
    unfolding links_ok_def
  proof (intro conjI allI impI)
    show "inj_on fst (insert (a, b) A)" using assms(1,2) by (auto simp: links_ok_def inj_on_def)
    show "distinct (hlists ?h c)" for c using assms(1) notin by (simp add: links_ok_def)
    show "\<forall>a'\<in>set (hlists ?h LargeHeap). a' \<notin> fst ` insert (a, b) A" using assms k by (auto simp: links_ok_def)
    show "\<forall>(a, b)\<in>insert (a, b) A. 32 \<le> fst b" using assms by (auto simp: links_ok_def)
    fix c a' assume "c \<noteq> LargeHeap"
    then show "a' \<in> set (hlists ?h c) \<longleftrightarrow> (\<exists>x. (a', x) \<in> insert (a, b) A \<and> kind x = c)"
      using links_member [OF assms(1), of c a'] by (cases b) auto
  qed
  then show ?thesis using list_of_free [OF assms(1-3)] k by (simp add: hl_add_def relinked_def)
qed

section \<open>A gap in a page\<close>

text \<open>While a block is being freed it is in no list. \<open>R\<close> are the linked blocks of the other pages.\<close>

definition gap :: "(nat \<times> block) set \<Rightarrow> nat \<Rightarrow> block list \<Rightarrow> nat \<Rightarrow> block list \<Rightarrow> kheap \<Rightarrow> bool" where
  "gap R P xs l ys h \<longleftrightarrow> P mod 4096 = 0 \<and> P \<noteq> 0 \<and> span xs + l + span ys = 4096 \<and> l mod 16 = 0 \<and> 32 \<le> l \<and>
     chain h P xs \<and> chain h (P + span xs + l) ys \<and> apart xs \<and> apart ys \<and>
     links_ok (R \<union> set (pos P xs) \<union> set (pos (P + span xs + l) ys)) h \<and>
     (\<forall>a\<in>set (hlists h LargeHeap). a < P \<or> P + 4096 \<le> a) \<and> (\<forall>(a, b)\<in>R. a < P \<or> P + 4096 \<le> a)"

definition left :: "block list \<Rightarrow> block list" where
  "left xs = (if xs \<noteq> [] \<and> \<not> snd (last xs) then butlast xs else xs)"

definition right :: "block list \<Rightarrow> block list" where
  "right ys = (case ys of [] \<Rightarrow> [] | y # zs \<Rightarrow> if snd y then ys else zs)"

definition merge :: "block list \<Rightarrow> nat \<Rightarrow> block list \<Rightarrow> block list" where
  "merge xs l ys = left xs @ ((span xs - span (left xs)) + l + (span ys - span (right ys)), False) # right ys"

lemma apart_Cons: "apart (b # bs) \<longleftrightarrow> apart bs \<and> (bs = [] \<or> snd b \<or> snd (hd bs))"
  by (cases bs) auto

lemma apart_append: "apart (xs @ ys) \<longleftrightarrow> apart xs \<and> apart ys \<and> (xs = [] \<or> ys = [] \<or> snd (last xs) \<or> snd (hd ys))"
  by (induction xs) (auto simp: apart_Cons)

lemma chain_length: "list_all (block_ok f) (pos a bs) \<Longrightarrow> 32 * length bs \<le> span bs"
  by (induction bs arbitrary: a) (fastforce simp: block_ok_def)+

lemma chain_align: "list_all (block_ok f) (pos a bs) \<Longrightarrow> span bs mod 16 = 0"
proof (induction bs arbitrary: a)
  case (Cons b bs)
  then have "fst b mod 16 = 0" "span bs mod 16 = 0" by (auto simp: block_ok_def)
  then show ?case by (simp add: mod_add_eq [of "fst b", symmetric])
qed simp

lemma chain_member:
  assumes "list_all (block_ok f) (pos a bs)" "(b, x) \<in> set (pos a bs)"
  shows "32 \<le> fst x" "a \<le> b" "b + fst x \<le> a + span bs"
  using assms pos_bounds [OF assms(2)] by (auto simp: list_all_iff block_ok_def)

lemma previous_loop_here: "0 < n \<Longrightarrow> previous_loop n a a h = Inr a"
  by (cases n) auto

lemma previous_loop_chain:
  assumes "chain h a (xs @ [b])" "length xs < n"
  shows "previous_loop n a (a + span xs + fst b) h = Inr (a + span xs)"
  using assms
proof (induction xs arbitrary: a n)
  case Nil
  then obtain m where "n = Suc m" by (cases n) auto
  with Nil show ?case by (auto simp: block_ok_def HEAP_ALIGN_SIZE_def)
next
  case (Cons c xs)
  then obtain m where n: "n = Suc m" by (cases n) auto
  have c: "block_ok (hdr h) (a, c)" "block_ok (hdr h) (a + fst c + span xs, b)" "chain h (a + fst c) (xs @ [b])"
    using Cons.prems(1) by (auto simp: add.assoc)
  then have "0 < fst c" "0 < fst b" by (auto simp: block_ok_def)
  then have "previous_loop n a (a + (fst c + span xs) + fst b) h =
      previous_loop m (a + fst c) (a + fst c + span xs + fst b) h"
    using c(1) n by (simp add: block_ok_def HEAP_ALIGN_SIZE_def add.assoc)
  then show ?case using Cons.IH [OF c(3), of m] Cons.prems(2) n by (simp add: add.assoc)
qed

lemma page_of: "P mod 4096 = 0 \<Longrightarrow> k < 4096 \<Longrightarrow> (P + k) div 4096 * 4096 = (P :: nat)"
  by auto

lemma gap_less: "gap R P xs l ys h \<Longrightarrow> span xs < 4096"
  by (simp add: gap_def)

lemma smallGetPreviousHeap_gap:
  assumes "gap R P xs l ys h"
  shows "smallGetPreviousHeap (P + span xs) h = Inr (if xs = [] then P else P + span (butlast xs))"
proof (cases xs rule: rev_cases)
  case Nil
  then show ?thesis using assms page_of [of P 0] by (simp add: smallGetPreviousHeap_def gap_def PAGE_SIZE_def previous_loop_here)
next
  case (snoc zs b)
  then have "chain h P (zs @ [b])" using assms by (simp add: gap_def)
  moreover have "length zs < 257"
    using chain_length [OF \<open>chain h P (zs @ [b])\<close>] gap_less [OF assms] snoc by simp
  ultimately have "previous_loop 257 P (P + span zs + fst b) h = Inr (P + span zs)" by (rule previous_loop_chain)
  then show ?thesis
    using snoc page_of [OF _ gap_less [OF assms]] assms by (simp add: smallGetPreviousHeap_def PAGE_SIZE_def gap_def add.assoc)
qed

lemma gap_unlinked:
  assumes "gap R P xs l ys h"
  shows "(P + span xs, b) \<notin> R \<union> set (pos P xs) \<union> set (pos (P + span xs + l) ys)"
proof -
  have g: "chain h P xs" "chain h (P + span xs + l) ys" "32 \<le> l" "span xs + l + span ys = 4096"
    "\<forall>(a, b)\<in>R. a < P \<or> P + 4096 \<le> a" using assms unfolding gap_def by blast+
  then show ?thesis
    using chain_member [OF g(1), of "P + span xs" b] chain_member [OF g(2), of "P + span xs" b] by force
qed

lemma gap_left:
  assumes "gap R P (zs @ [b]) l ys h" "\<not> snd b"
  shows "\<exists>h'. hl_remove (P + span zs) h = Inr h' \<and> gap R P zs (fst b + l) ys h' \<and> relinked h h'"
proof -
  let ?x = "(P + span zs, b)" and ?A = "R \<union> set (pos P (zs @ [b])) \<union> set (pos (P + span (zs @ [b]) + l) ys)"
  have c: "chain h P zs" "block_ok (hdr h) ?x" "chain h (P + span zs + fst b + l) ys"
    using assms(1) by (auto simp: gap_def add.assoc)
  have b: "32 \<le> fst b" "fst b mod 16 = 0" using c(2) by (auto simp: block_ok_def)
  have links: "links_ok ?A h" and sum: "span zs + fst b + l + span ys = 4096"
    and out: "\<forall>(a, x)\<in>R. a < P \<or> P + 4096 \<le> a" using assms(1) by (auto simp: gap_def add.assoc)
  have "?x \<in> ?A" by simp
  from hl_remove_spec [OF links this] obtain h' where
    h': "hl_remove (P + span zs) h = Inr h'" "links_ok (?A - {?x}) h'" "relinked h h'" by blast
  have hdr: "hdr h' = hdr h" and large: "hlists h' LargeHeap = hlists h LargeHeap" using h'(3) by (auto dest: hdr_of_lists)
  have "?x \<notin> R" using out sum b by auto
  moreover have "?x \<notin> set (pos P zs)" using chain_member [OF c(1), of "P + span zs" b] by auto
  moreover have "?x \<notin> set (pos (P + span zs + fst b + l) ys)"
    using chain_member [OF c(3), of "P + span zs" b] b by auto
  ultimately have "?A - {?x} = R \<union> set (pos P zs) \<union> set (pos (P + span zs + (fst b + l)) ys)" by (auto simp: add.assoc)
  then have "links_ok (R \<union> set (pos P zs) \<union> set (pos (P + span zs + (fst b + l)) ys)) h'" using h'(2) by simp
  moreover have "apart zs" using assms(1) by (simp add: gap_def apart_append)
  ultimately have "gap R P zs (fst b + l) ys h'"
    using assms(1) b c large unfolding gap_def hdr by (auto simp: add.assoc mod_add_eq [of "fst b", symmetric])
  then show ?thesis using h' by blast
qed

lemma gap_right:
  assumes "gap R P xs l (b # zs) h" "\<not> snd b"
  shows "\<exists>h'. hl_remove (P + span xs + l) h = Inr h' \<and> gap R P xs (l + fst b) zs h' \<and> relinked h h'"
proof -
  let ?x = "(P + span xs + l, b)" and ?A = "R \<union> set (pos P xs) \<union> set (pos (P + span xs + l) (b # zs))"
  have c: "chain h P xs" "block_ok (hdr h) ?x" "chain h (P + span xs + l + fst b) zs"
    using assms(1) by (auto simp: gap_def)
  have b: "32 \<le> fst b" "fst b mod 16 = 0" using c(2) by (auto simp: block_ok_def)
  have links: "links_ok ?A h" and sum: "span xs + l + fst b + span zs = 4096"
    and out: "\<forall>(a, x)\<in>R. a < P \<or> P + 4096 \<le> a" and l: "32 \<le> l" using assms(1) by (auto simp: gap_def)
  have "?x \<in> ?A" by simp
  from hl_remove_spec [OF links this] obtain h' where
    h': "hl_remove (P + span xs + l) h = Inr h'" "links_ok (?A - {?x}) h'" "relinked h h'" by blast
  have hdr: "hdr h' = hdr h" and large: "hlists h' LargeHeap = hlists h LargeHeap" using h'(3) by (auto dest: hdr_of_lists)
  have "?x \<notin> R" using out sum b by auto
  moreover have "?x \<notin> set (pos P xs)" using chain_member [OF c(1), of "P + span xs + l" b] l by auto
  moreover have "?x \<notin> set (pos (P + span xs + l + fst b) zs)"
    using chain_member [OF c(3), of "P + span xs + l" b] b by auto
  ultimately have "?A - {?x} = R \<union> set (pos P xs) \<union> set (pos (P + span xs + (l + fst b)) zs)" by (auto simp: add.assoc)
  then have "links_ok (R \<union> set (pos P xs) \<union> set (pos (P + span xs + (l + fst b)) zs)) h'" using h'(2) by simp
  moreover have "apart zs" using assms(1) unfolding gap_def by (cases zs) auto
  ultimately have "gap R P xs (l + fst b) zs h'"
    using assms(1) b c large unfolding gap_def hdr by (auto simp: add.assoc mod_add_eq [of l, symmetric])
  then show ?thesis using h' by blast
qed

section \<open>Freeing a block\<close>

definition page_ok :: "kheap \<Rightarrow> nat \<Rightarrow> block list \<Rightarrow> bool" where
  "page_ok h P bs \<longleftrightarrow> P mod 4096 = 0 \<and> P \<noteq> 0 \<and> span bs = 4096 \<and> chain h P bs \<and> apart bs \<and> bs \<noteq> [(4096, False)]"

text \<open>A page of nothing but free memory has been given back.\<close>

definition page_linked :: "(nat \<times> block) set \<Rightarrow> nat \<Rightarrow> block list \<Rightarrow> kheap \<Rightarrow> bool" where
  "page_linked R P bs h \<longleftrightarrow> (if bs = [(4096, False)] then links_ok R h
     else page_ok h P bs \<and> links_ok (R \<union> set (pos P bs)) h)"

definition outside_same :: "nat \<Rightarrow> kheap \<Rightarrow> kheap \<Rightarrow> bool" where
  "outside_same P h h' \<longleftrightarrow> bytes h' = bytes h \<and> hlists h' LargeHeap = hlists h LargeHeap \<and>
     (\<forall>a. a < P \<or> P + 4096 \<le> a \<longrightarrow> hdr h' a = hdr h a)"

lemma outside_same_trans: "outside_same P h h' \<Longrightarrow> outside_same P h' h'' \<Longrightarrow> outside_same P h h''"
  by (simp add: outside_same_def)

lemma links_ok_cong: "hlists h' = hlists h \<Longrightarrow> links_ok A h' = links_ok A h"
  by (simp add: links_ok_def)

lemma put_header_fields [simp]:
  "hlists (put_header a m l r h) = hlists h" "bytes (put_header a m l r h) = bytes h"
  "hmem (put_header a m l r h) = hmem h"
  "hdr (put_header a m l r h) = (hdr h)(a := \<lparr>heapMagic = m, hlength = l, hreserved = r\<rparr>)"
  by (simp_all add: put_header_def)

lemma chain_other:
  assumes "list_all (block_ok f) (pos a bs)" "d < a \<or> a + span bs \<le> d"
  shows "list_all (block_ok (f(d := e))) (pos a bs)"
  unfolding list_all_iff
proof
  fix x assume x: "x \<in> set (pos a bs)"
  obtain c y where xy: "x = (c, y)" by (cases x)
  have "d \<noteq> c" using chain_member [OF assms(1), of c y] x xy assms(2) by auto
  then show "block_ok (f(d := e)) x" using assms(1) x xy by (auto simp: list_all_iff block_ok_def)
qed

lemma left_step:
  assumes "gap R P xs l ys h" "xs = [] \<Longrightarrow> hreserved (hdr h P)"
  shows "\<exists>h'. kbind (smallGetPreviousHeap (P + span xs) h) (\<lambda>prev.
      if prev \<noteq> 0 \<and> \<not> hreserved (hdr h prev)
      then kbind (hl_remove prev h) (\<lambda>h. Inr (h, prev, P + span xs + l - prev)) else Inr (h, P + span xs, l)) =
      Inr (h', P + span (left xs), (span xs - span (left xs)) + l) \<and>
    gap R P (left xs) ((span xs - span (left xs)) + l) ys h' \<and> relinked h h' \<and>
    (left xs = [] \<or> snd (last (left xs)))"
proof (cases xs rule: rev_cases)
  case Nil
  then show ?thesis using assms smallGetPreviousHeap_gap [OF assms(1)] by (auto simp: left_def)
next
  case (snoc zs b)
  have P: "P \<noteq> 0" and b: "block_ok (hdr h) (P + span zs, b)" and ap: "apart (zs @ [b])"
    using assms(1) snoc by (auto simp: gap_def)
  have prev: "smallGetPreviousHeap (P + span xs) h = Inr (P + span zs)"
    using smallGetPreviousHeap_gap [OF assms(1)] snoc by simp
  show ?thesis
  proof (cases "snd b")
    case True
    then show ?thesis using prev b snoc assms(1) by (auto simp: left_def block_ok_def)
  next
    case False
    then have "left xs = zs" using snoc by (simp add: left_def)
    moreover obtain h' where "hl_remove (P + span zs) h = Inr h'" "gap R P zs (fst b + l) ys h'" "relinked h h'"
      using gap_left [of R P zs b l ys h] assms(1) snoc False by auto
    moreover have "zs = [] \<or> snd (last zs)" using ap False by (auto simp: apart_append)
    ultimately show ?thesis using prev b snoc P False by (auto simp: block_ok_def)
  qed
qed

lemma right_step:
  assumes "gap R P xs l ys h"
  shows "\<exists>h'. kbind (smallGetNextHeap (P + span xs) l h) (\<lambda>nxt.
      if nxt \<noteq> 0 \<and> \<not> hreserved (hdr h nxt)
      then kbind (hl_remove nxt h) (\<lambda>h. Inr (h, nxt + hlength (hdr h nxt) - (P + span xs))) else Inr (h, l)) =
      Inr (h', l + (span ys - span (right ys))) \<and>
    gap R P xs (l + (span ys - span (right ys))) (right ys) h' \<and> relinked h h' \<and>
    (right ys = [] \<or> snd (hd (right ys)))"
proof -
  have base: "(P + span xs) div PAGE_SIZE * PAGE_SIZE = P"
    using page_of [OF _ gap_less [OF assms]] assms by (simp add: gap_def PAGE_SIZE_def)
  show ?thesis
  proof (cases ys)
    case Nil
    then have "span xs + l = 4096" using assms by (simp add: gap_def)
    then have "smallGetNextHeap (P + span xs) l h = Inr 0"
      using base by (simp add: smallGetNextHeap_def PAGE_SIZE_def)
    then show ?thesis using Nil assms by (simp add: right_def)
  next
    case (Cons b zs)
    let ?n = "P + span xs + l"
    have b: "block_ok (hdr h) (?n, b)" and sum: "span xs + l + fst b + span zs = 4096" and P: "P \<noteq> 0" and ap: "apart (b # zs)"
      using assms Cons by (auto simp: gap_def)
    then have nxt: "smallGetNextHeap (P + span xs) l h = Inr ?n"
      using base by (auto simp: smallGetNextHeap_def PAGE_SIZE_def block_ok_def HEAP_ALIGN_SIZE_def)
    show ?thesis
    proof (cases "snd b")
      case True
      then show ?thesis using nxt b Cons assms by (auto simp: right_def block_ok_def)
    next
      case False
      then have "right ys = zs" using Cons by (simp add: right_def)
      moreover obtain h' where h': "hl_remove ?n h = Inr h'" "gap R P xs (l + fst b) zs h'" "relinked h h'"
        using gap_right [of R P xs l b zs h] assms Cons False by auto
      moreover have "hlength (hdr h' ?n) = fst b" using hdr_of_lists [OF h'(3)] b by (simp add: block_ok_def)
      moreover have "zs = [] \<or> snd (hd zs)" using ap False by (auto simp: apart_Cons)
      ultimately show ?thesis using nxt b Cons P False by (auto simp: block_ok_def)
    qed
  qed
qed

lemma chain_empty: "list_all (block_ok f) (pos a bs) \<Longrightarrow> span bs = 0 \<Longrightarrow> bs = []"
  by (cases bs) (auto simp: block_ok_def)

lemma gap_page:
  assumes "gap R P xs l ys h" "xs = [] \<or> snd (last xs)" "ys = [] \<or> snd (hd ys)" "xs @ (l, False) # ys \<noteq> [(4096, False)]"
    "links_ok (insert (P + span xs, l, False) (R \<union> set (pos P xs) \<union> set (pos (P + span xs + l) ys))) h'"
    "hdr h' = (hdr h)(P + span xs := \<lparr>heapMagic = SMALL_HEAP_MAGIC, hlength = l, hreserved = False\<rparr>)"
  shows "page_linked R P (xs @ (l, False) # ys) h'"
proof -
  have g: "chain h P xs" "chain h (P + span xs + l) ys" "32 \<le> l" "l mod 16 = 0" "apart xs" "apart ys"
    "span xs + l + span ys = 4096" "P mod 4096 = 0" "P \<noteq> 0"
    using assms(1) unfolding gap_def by blast+
  have "chain h' P xs" "chain h' (P + span xs + l) ys"
    unfolding assms(6) by (rule chain_other [OF g(1)], simp) (rule chain_other [OF g(2)], use g(3) in simp)
  moreover have "block_ok (hdr h') (P + span xs, l, False)" using g by (simp add: assms(6) block_ok_def)
  ultimately have "page_ok h' P (xs @ (l, False) # ys)"
    using g assms(2-4) by (simp add: page_ok_def apart_append apart_Cons)
  moreover have "R \<union> set (pos P (xs @ (l, False) # ys)) =
      insert (P + span xs, l, False) (R \<union> set (pos P xs) \<union> set (pos (P + span xs + l) ys))" by auto
  ultimately show ?thesis using assms(4,5) unfolding page_linked_def by metis
qed

lemma queue_step:
  assumes "gap R P xs l ys h" "xs = [] \<or> snd (last xs)" "ys = [] \<or> snd (hd ys)"
    "xs @ (l, False) # ys = [(4096, False)] \<Longrightarrow>
      \<exists>m. pagingReleasePhysMem (getPagingEntry 0) (word_of_nat P) 1 (hmem h) = Inr m"
  shows "\<exists>h' r. smallQueueUnusedHeap (P + span xs) l h = Inr (h', r) \<and>
    page_linked R P (xs @ (l, False) # ys) h' \<and> outside_same P h h'"
proof (cases "xs @ (l, False) # ys = [(4096, False)]")
  case True
  then have e: "xs = []" "ys = []" "l = 4096" by (auto simp: append_eq_Cons_conv)
  with assms(1,4) True show ?thesis
    by (auto simp: smallQueueUnusedHeap_def gap_def PAGE_SIZE_def page_linked_def outside_same_def links_ok_def)
next
  case False
  let ?d = "P + span xs" and ?A = "R \<union> set (pos P xs) \<union> set (pos (P + span xs + l) ys)"
  have g: "chain h P xs" "chain h (?d + l) ys" "32 \<le> l" "span xs + l + span ys = 4096" "P mod 4096 = 0"
    "\<forall>a\<in>set (hlists h LargeHeap). a < P \<or> P + 4096 \<le> a" "\<forall>(a, b)\<in>R. a < P \<or> P + 4096 \<le> a" "links_ok ?A h"
    using assms(1) unfolding gap_def by blast+
  have notpage: "\<not> (?d mod PAGE_SIZE = 0 \<and> l = PAGE_SIZE)"
  proof
    assume "?d mod PAGE_SIZE = 0 \<and> l = PAGE_SIZE"
    then have "span xs = 0" "span ys = 0" "l = 4096" using g(4) by (auto simp: PAGE_SIZE_def)
    with chain_empty [OF g(1)] chain_empty [OF g(2)] False show False by simp
  qed
  have "(?d, b) \<notin> ?A" for b by (rule gap_unlinked [OF assms(1)])
  then have "?d \<notin> fst ` ?A" by force
  moreover have "?d \<notin> set (hlists h LargeHeap)" using g(3,4,6) by force
  ultimately obtain h1 where h1: "hl_add (kind (l, False)) ?d h = Inr h1" "links_ok (insert (?d, l, False) ?A) h1"
    "relinked h h1"
    using hl_add_spec [OF g(8), of ?d "(l, False)"] g(3) by auto
  let ?h = "put_header ?d SMALL_HEAP_MAGIC l False h1"
  have "smallQueueUnusedHeap ?d l h = Inr (?h, ?d)"
    unfolding smallQueueUnusedHeap_def if_not_P [OF notpage] using h1(1) unused_list_kind [OF g(3)] by simp
  moreover have "page_linked R P (xs @ (l, False) # ys) ?h"
    using h1(2) hdr_of_lists [OF h1(3)] by (intro gap_page [OF assms(1-3) False]) (simp_all add: links_ok_cong [of ?h h1])
  moreover have "outside_same P h ?h" using hdr_of_lists [OF h1(3)] g(3,4) by (auto simp: outside_same_def)
  ultimately show ?thesis by blast
qed

lemma smallInternalFree_spec:
  assumes "gap R P xs l ys h" "xs = [] \<Longrightarrow> hreserved (hdr h P)"
    "merge xs l ys = [(4096, False)] \<Longrightarrow>
      \<exists>m. pagingReleasePhysMem (getPagingEntry 0) (word_of_nat P) 1 (hmem h) = Inr m"
  shows "\<exists>h' r. smallInternalFree (P + span xs) l h = Inr (h', r) \<and> page_linked R P (merge xs l ys) h' \<and> outside_same P h h'"
proof -
  let ?k = "(span xs - span (left xs)) + l"
  obtain h1 where h1: "kbind (smallGetPreviousHeap (P + span xs) h) (\<lambda>prev.
      if prev \<noteq> 0 \<and> \<not> hreserved (hdr h prev)
      then kbind (hl_remove prev h) (\<lambda>h. Inr (h, prev, P + span xs + l - prev)) else Inr (h, P + span xs, l)) =
      Inr (h1, P + span (left xs), ?k)" "gap R P (left xs) ?k ys h1" "relinked h h1"
    "left xs = [] \<or> snd (last (left xs))"
    using left_step [OF assms(1,2)] by blast
  let ?m = "?k + (span ys - span (right ys))"
  obtain h2 where h2: "kbind (smallGetNextHeap (P + span (left xs)) ?k h1) (\<lambda>nxt.
      if nxt \<noteq> 0 \<and> \<not> hreserved (hdr h1 nxt)
      then kbind (hl_remove nxt h1) (\<lambda>h. Inr (h, nxt + hlength (hdr h nxt) - (P + span (left xs)))) else Inr (h1, ?k)) =
      Inr (h2, ?m)" "gap R P (left xs) ?m (right ys) h2" "relinked h1 h2"
    "right ys = [] \<or> snd (hd (right ys))"
    using right_step [OF h1(2)] by blast
  have mem: "hmem h2 = hmem h" "hdr h2 = hdr h" "bytes h2 = bytes h"
    using hdr_of_lists [OF h1(3)] hdr_of_lists [OF h2(3)] by auto
  from queue_step [OF h2(2) h1(4) h2(4)] assms(3) mem obtain h3 r where
    h3: "smallQueueUnusedHeap (P + span (left xs)) ?m h2 = Inr (h3, r)" "page_linked R P (merge xs l ys) h3"
    "outside_same P h2 h3" by (auto simp: merge_def add.assoc)
  have large: "hlists h2 LargeHeap = hlists h LargeHeap"
    using hdr_of_lists [OF h1(3)] hdr_of_lists [OF h2(3)] by auto
  have "(P + span xs) mod 16 = 0" "l mod 16 = 0 \<and> 0 < l"
    using assms(1) chain_align [of "hdr h" P xs] by (auto simp: gap_def mod_add_eq [symmetric])
  then have "smallInternalFree (P + span xs) l h = Inr (h3, r)"
    using h1(1) h2(1) h3(1) by (simp add: smallInternalFree_def HEAP_ALIGN_SIZE_def kbind_assoc [symmetric])
  moreover have "outside_same P h h3" using h3(3) mem large by (simp add: outside_same_def)
  ultimately show ?thesis using h3(2) by blast
qed

section \<open>The heap\<close>

definition allpos :: "(nat \<Rightarrow> block list option) \<Rightarrow> (nat \<times> block) set" where
  "allpos pg = {x. \<exists>P bs. pg P = Some bs \<and> x \<in> set (pos P bs)}"

text \<open>The blocks in use: address of the header and length with the header.\<close>

definition in_use :: "(nat \<times> block) set \<Rightarrow> (nat \<times> nat) set" where
  "in_use A = {(a, l). (a, l, True) \<in> A}"

definition large_ok :: "nat \<Rightarrow> kheap \<Rightarrow> bool" where
  "large_ok a h \<longleftrightarrow> a mod 4096 = 0 \<and> heapMagic (hdr h a) = LARGE_HEAP_MAGIC \<and> 0 < hlength (hdr h a) \<and>
     hlength (hdr h a) mod 4096 = 0 \<and> hreserved (hdr h a)"

definition heap_ok :: "(nat \<Rightarrow> block list option) \<Rightarrow> kheap \<Rightarrow> bool" where
  "heap_ok pg h \<longleftrightarrow> (\<forall>P bs. pg P = Some bs \<longrightarrow> page_ok h P bs) \<and> links_ok (allpos pg) h \<and>
     (\<forall>a\<in>set (hlists h LargeHeap). pg a = None \<and> large_ok a h)"

lemma allpos_upd: "allpos (pg(P := Some bs)) = allpos (pg(P := None)) \<union> set (pos P bs)"
  by (auto simp: allpos_def split: if_splits)

lemma allpos_page: "pg P = Some bs \<Longrightarrow> allpos pg = allpos (pg(P := None)) \<union> set (pos P bs)"
  using allpos_upd [of pg P bs] by (simp add: fun_upd_idem)

lemma in_use_Un [simp]: "in_use (A \<union> B) = in_use A \<union> in_use B"
  by (auto simp: in_use_def)

lemma in_use_free: "in_use (insert (a, l, False) A) = in_use A"
  by (auto simp: in_use_def)

lemma pages_apart: "P mod 4096 = 0 \<Longrightarrow> Q mod 4096 = 0 \<Longrightarrow> P \<noteq> Q \<Longrightarrow> P + 4096 \<le> Q \<or> Q + 4096 \<le> (P :: nat)"
proof -
  assume "P mod 4096 = 0" "Q mod 4096 = 0" "P \<noteq> Q"
  moreover from this obtain p q where "P = 4096 * p" "Q = 4096 * q" by (metis mod_0_imp_dvd dvdE)
  ultimately show ?thesis by (cases "p < q") auto
qed

lemma page_member:
  assumes "page_ok h P bs" "(a, x) \<in> set (pos P bs)"
  shows "P \<le> a" "a + fst x \<le> P + 4096" "32 \<le> fst x" "hdr h a = \<lparr>heapMagic = SMALL_HEAP_MAGIC, hlength = fst x, hreserved = snd x\<rparr>"
    "P mod 4096 = 0"
  using assms chain_member [of "hdr h" P bs a x] by (auto simp: page_ok_def list_all_iff block_ok_def)

lemma others_outside:
  assumes "heap_ok pg h" "P mod 4096 = 0" "(a, b) \<in> allpos (pg(P := None))"
  shows "a + fst b \<le> P \<or> P + 4096 \<le> a"
proof -
  obtain Q bs where Q: "pg Q = Some bs" "(a, b) \<in> set (pos Q bs)" "Q \<noteq> P"
    using assms(3) by (auto simp: allpos_def split: if_splits)
  then have "page_ok h Q bs" using assms(1) by (simp add: heap_ok_def)
  from page_member [OF this Q(2)] pages_apart [OF _ assms(2) Q(3)] show ?thesis by linarith
qed

lemma large_outside:
  assumes "heap_ok pg h" "P mod 4096 = 0" "a \<in> set (hlists h LargeHeap)" "a \<noteq> P"
  shows "a < P \<or> P + 4096 \<le> a"
proof -
  have "a mod 4096 = 0" using assms(1,3) by (simp add: heap_ok_def large_ok_def)
  from pages_apart [OF this assms(2,4)] show ?thesis by linarith
qed

text \<open>Changing one page keeps the heap well formed.\<close>

lemma heap_ok_page:
  assumes "heap_ok pg h" "P mod 4096 = 0" "P \<notin> set (hlists h LargeHeap)"
    "page_linked (allpos (pg(P := None))) P bs h'" "outside_same P h h'"
  shows "heap_ok (pg(P := if bs = [(4096, False)] then None else Some bs)) h'"
proof -
  let ?pg = "pg(P := if bs = [(4096, False)] then None else Some bs)"
  have same: "hdr h' a = hdr h a" if "a < P \<or> P + 4096 \<le> a" for a using assms(5) that by (auto simp: outside_same_def)
  have "page_ok h' Q cs" if Q: "pg Q = Some cs" "Q \<noteq> P" for Q cs
  proof -
    have ok: "page_ok h Q cs" using assms(1) Q by (simp add: heap_ok_def)
    have "hdr h' a = hdr h a" if "(a, x) \<in> set (pos Q cs)" for a x
      using page_member [OF ok that] pages_apart [OF _ assms(2) Q(2)] by (intro same) linarith
    then show ?thesis using ok by (auto simp: page_ok_def list_all_iff block_ok_def)
  qed
  moreover have "bs \<noteq> [(4096, False)] \<Longrightarrow> page_ok h' P bs" using assms(4) by (simp add: page_linked_def)
  moreover have "links_ok (allpos ?pg) h'" using assms(4) allpos_upd [of pg P bs] by (simp add: page_linked_def split: if_splits)
  moreover have "?pg a = None \<and> large_ok a h'" if a: "a \<in> set (hlists h' LargeHeap)" for a
  proof -
    have a: "a \<in> set (hlists h LargeHeap)" using a assms(5) by (simp add: outside_same_def)
    then have "a \<noteq> P" using assms(3) by blast
    with same [OF large_outside [OF assms(1,2) a]] a assms(1) show ?thesis by (simp add: heap_ok_def large_ok_def)
  qed
  ultimately show ?thesis by (auto simp: heap_ok_def split: if_splits)
qed

lemma gap_from_page:
  assumes "heap_ok pg h" "pg P = Some (xs @ (l, r) # ys)"
  shows "\<exists>h'. hl_remove (P + span xs) h = Inr h' \<and> gap (allpos (pg(P := None))) P xs l ys h' \<and> relinked h h'"
proof -
  let ?x = "(P + span xs, l, r)" and ?R = "allpos (pg(P := None))"
  have page: "page_ok h P (xs @ (l, r) # ys)" and links: "links_ok (allpos pg) h"
    using assms by (auto simp: heap_ok_def)
  have all: "allpos pg = ?R \<union> set (pos P (xs @ (l, r) # ys))" using assms(2) by (rule allpos_page)
  have c: "chain h P xs" "chain h (P + span xs + l) ys" "block_ok (hdr h) ?x" and P: "P mod 4096 = 0"
    using page by (auto simp: page_ok_def)
  have l: "32 \<le> l" using c(3) by (simp add: block_ok_def)
  have "?x \<in> allpos pg" unfolding all by simp
  from hl_remove_spec [OF links this] obtain h' where
    h': "hl_remove (P + span xs) h = Inr h'" "links_ok (allpos pg - {?x}) h'" "relinked h h'" by blast
  have "?x \<notin> ?R" using others_outside [OF assms(1) P, of "P + span xs" "(l, r)"] page l by (auto simp: page_ok_def)
  moreover have "?x \<notin> set (pos P xs)" using chain_member [OF c(1), of "P + span xs" "(l, r)"] by auto
  moreover have "?x \<notin> set (pos (P + span xs + l) ys)" using chain_member [OF c(2), of "P + span xs" "(l, r)"] l by auto
  ultimately have "allpos pg - {?x} = ?R \<union> set (pos P xs) \<union> set (pos (P + span xs + l) ys)" unfolding all by auto
  moreover have "\<forall>(a, b)\<in>?R. a < P \<or> P + 4096 \<le> a"
  proof safe
    fix a k b assume "(a, k, b) \<in> ?R" "\<not> P + 4096 \<le> a"
    moreover from this have "32 \<le> k" using links_length [OF links, of a "(k, b)"] all by simp
    ultimately show "a < P" using others_outside [OF assms(1) P, of a "(k, b)"] by simp
  qed
  moreover have "\<forall>a\<in>set (hlists h LargeHeap). a < P \<or> P + 4096 \<le> a"
    using large_outside [OF assms(1) P] assms by (force simp: heap_ok_def)
  ultimately have "gap ?R P xs l ys h'"
    using page h'(2) c hdr_of_lists [OF h'(3)] unfolding gap_def page_ok_def
    by (simp add: apart_append apart_Cons block_ok_def)
  then show ?thesis using h' by blast
qed

lemma in_use_right: "in_use (set (pos (a + (span ys - span (right ys))) (right ys))) = in_use (set (pos a ys))"
  by (auto simp: right_def in_use_def split: list.split)

lemma in_use_left: "in_use (set (pos a (left xs))) = in_use (set (pos a xs))"
  by (cases xs rule: rev_cases) (auto simp: left_def in_use_def)

lemma span_left: "span (left xs) \<le> span xs"
  by (cases xs rule: rev_cases) (auto simp: left_def)

lemma in_use_merge: "in_use (set (pos a (merge xs l ys))) = in_use (set (pos a xs)) \<union> in_use (set (pos (a + span xs + l) ys))"
proof -
  have "a + span (left xs) + (span xs - span (left xs) + l + (span ys - span (right ys))) =
      a + span xs + l + (span ys - span (right ys))" using span_left [of xs] by simp
  then have "in_use (set (pos a (merge xs l ys))) = in_use (set (pos a (left xs))) \<union>
      in_use (set (pos (a + span xs + l + (span ys - span (right ys))) (right ys)))"
    unfolding merge_def pos_append pos.simps fst_conv set_append list.set in_use_Un by (simp only: in_use_free)
  then show ?thesis by (simp only: in_use_left in_use_right)
qed

lemma span_right: "span (right ys) \<le> span ys"
  by (cases ys) (auto simp: right_def)

lemma in_use_disjoint:
  assumes "heap_ok pg h" "(a, l) \<in> in_use (allpos pg)" "(b, k) \<in> in_use (allpos pg)" "a \<noteq> b"
  shows "{a..<a + l} \<inter> {b..<b + k} = {}"
proof -
  obtain P bs where P: "pg P = Some bs" "(a, l, True) \<in> set (pos P bs)"
    using assms(2) by (auto simp: in_use_def allpos_def)
  then have page: "page_ok h P bs" using assms(1) by (simp add: heap_ok_def)
  note pa = page_member [OF page P(2)]
  show ?thesis
  proof (cases "(b, k, True) \<in> set (pos P bs)")
    case False
    then have "(b, k, True) \<in> allpos (pg(P := None))"
      using assms(3) allpos_page [of pg P bs] P(1) by (auto simp: in_use_def)
    from others_outside [OF assms(1) pa(5) this] pa show ?thesis by auto
  next
    case True
    have "\<And>q. list_all (block_ok (hdr h)) (pos q bs) \<Longrightarrow> (a, l, True) \<in> set (pos q bs) \<Longrightarrow> (b, k, True) \<in> set (pos q bs) \<Longrightarrow>
        a + l \<le> b \<or> b + k \<le> a"
    proof (induction bs)
      case (Cons c cs)
      then show ?case
        using assms(4) chain_member [of "hdr h" "q + fst c" cs a "(l, True)"] chain_member [of "hdr h" "q + fst c" cs b "(k, True)"]
        by auto
    qed simp
    from this [of P] page P(2) True show ?thesis by (auto simp: page_ok_def)
  qed
qed

section \<open>Allocating from a gap\<close>

text \<open>Put a block of \<open>k\<close> bytes at the start of the gap and give the rest back.\<close>

lemma carve:
  assumes "gap R P xs l ys h" "32 \<le> len" "len mod 16 = 0" "len \<le> l"
  defines "k \<equiv> keep_length l len"
  shows "\<exists>h' bs. kbind (hl_add SmallHeap (P + span xs) h) (\<lambda>h.
      give_back (P + span xs) k l (put_header (P + span xs) SMALL_HEAP_MAGIC k True h)) = Inr h' \<and>
    page_linked R P bs h' \<and> outside_same P h h' \<and>
    in_use (set (pos P bs)) = insert (P + span xs, k) (in_use (set (pos P xs) \<union> set (pos (P + span xs + l) ys)))"
proof -
  let ?d = "P + span xs" and ?A = "R \<union> set (pos P xs) \<union> set (pos (P + span xs + l) ys)"
  have g: "chain h P xs" "chain h (?d + l) ys" "32 \<le> l" "span xs + l + span ys = 4096" "P mod 4096 = 0" "P \<noteq> 0"
    "\<forall>a\<in>set (hlists h LargeHeap). a < P \<or> P + 4096 \<le> a" "\<forall>(a, b)\<in>R. a < P \<or> P + 4096 \<le> a" "links_ok ?A h"
    "l mod 16 = 0" "apart xs" "apart ys"
    using assms(1) unfolding gap_def by blast+
  have k: "32 \<le> k" "k \<le> l" "k mod 16 = 0" "k < l \<Longrightarrow> k + 32 \<le> l"
    using assms(2-4) g(10) by (auto simp: k_def keep_length_def HEADER_def)
  have "(?d, b) \<notin> ?A" for b by (rule gap_unlinked [OF assms(1)])
  then have "?d \<notin> fst ` ?A" by force
  moreover have "?d \<notin> set (hlists h LargeHeap)" using g(3,4,7) by force
  moreover have "kind (k, True) = SmallHeap" by (simp add: kind_def)
  ultimately obtain h1 where h1: "hl_add SmallHeap ?d h = Inr h1" "links_ok (insert (?d, k, True) ?A) h1" "relinked h h1"
    using hl_add_spec [OF g(9), of ?d "(k, True)"] k(1) by auto
  let ?h = "put_header ?d SMALL_HEAP_MAGIC k True h1"
  have hdr: "hdr ?h = (hdr h)(?d := \<lparr>heapMagic = SMALL_HEAP_MAGIC, hlength = k, hreserved = True\<rparr>)"
    and same: "outside_same P h ?h" and large: "hlists ?h LargeHeap = hlists h LargeHeap"
    using hdr_of_lists [OF h1(3)] g(3,4) by (auto simp: outside_same_def)
  have c: "chain ?h P xs" "chain ?h (?d + l) ys" "block_ok (hdr ?h) (?d, k, True)"
    unfolding hdr by (rule chain_other [OF g(1)], simp, rule chain_other [OF g(2)], use g(3) in simp)
      (use k in \<open>simp add: block_ok_def\<close>)
  have links: "links_ok (insert (?d, k, True) ?A) ?h" using h1(2) by (simp add: links_ok_cong [of ?h h1])
  show ?thesis
  proof (cases "k = l")
    case True
    let ?bs = "xs @ (l, True) # ys"
    have "R \<union> set (pos P ?bs) = insert (?d, k, True) ?A" using True by auto
    moreover have "page_ok ?h P ?bs"
      using g c True unfolding page_ok_def by (auto simp: apart_append apart_Cons append_eq_Cons_conv)
    ultimately have "page_linked R P ?bs ?h" using links by (simp add: page_linked_def page_ok_def)
    moreover have "in_use (set (pos P ?bs)) = insert (?d, k) (in_use (set (pos P xs) \<union> set (pos (?d + l) ys)))"
      using True by (auto simp: in_use_def)
    ultimately show ?thesis using h1(1) same True by (auto simp: give_back_def)
  next
    case False
    then have rest: "k < l" "k + 32 \<le> l" using k by auto
    let ?xs = "xs @ [(k, True)]" and ?bs = "merge (xs @ [(k, True)]) (l - k) ys"
    have e: "P + span ?xs + (l - k) = ?d + l" "span ?xs + (l - k) + span ys = 4096" using rest g(4) by auto
    have "R \<union> set (pos P ?xs) \<union> set (pos (?d + l) ys) = insert (?d, k, True) ?A" by auto
    then have "gap R P ?xs (l - k) ys ?h"
      unfolding gap_def e(1) using g c links e(2) rest k(3) large by (simp add: apart_append mod_diff_eq [symmetric] mod_0_imp_dvd dvd_diff_nat)
    moreover have ne: "?bs \<noteq> [(4096, False)]" by (auto simp: merge_def left_def)
    ultimately obtain h' r where h': "smallInternalFree (P + span ?xs) (l - k) ?h = Inr (h', r)"
      "page_linked R P ?bs h'" "outside_same P ?h h'"
      using smallInternalFree_spec [of R P ?xs "l - k" ys ?h] by auto
    have "in_use (set (pos P ?bs)) = insert (?d, k) (in_use (set (pos P xs) \<union> set (pos (?d + l) ys)))"
      unfolding in_use_merge e(1) by (auto simp: in_use_def)
    then show ?thesis using h1(1) h' same rest by (auto simp: give_back_def add.assoc intro: outside_same_trans)
  qed
qed

lemma pos_split: "(a, b) \<in> set (pos q bs) \<Longrightarrow> \<exists>xs ys. bs = xs @ b # ys \<and> a = q + span xs"
proof (induction bs arbitrary: q)
  case (Cons c cs)
  show ?case
  proof (cases "(a, b) = (q, c)")
    case True
    then show ?thesis by (intro exI [of _ "[]"] exI [of _ cs]) auto
  next
    case False
    then have "(a, b) \<in> set (pos (q + fst c) cs)" using Cons.prems by auto
    from Cons.IH [OF this] obtain xs ys where "cs = xs @ b # ys" "a = q + fst c + span xs" by blast
    then show ?thesis by (intro exI [of _ "c # xs"] exI [of _ ys]) auto
  qed
qed simp

lemma in_class:
  assumes "heap_ok pg h" "a \<in> set (hlists h c)" "c \<noteq> LargeHeap" "c \<noteq> SmallHeap"
  obtains P xs l ys where "pg P = Some (xs @ (l, False) # ys)" "a = P + span xs" "unused_list l = Some c"
proof -
  have links: "links_ok (allpos pg) h" using assms(1) by (simp add: heap_ok_def)
  then obtain l r where b: "(a, l, r) \<in> allpos pg" "kind (l, r) = c" using links_member [OF links assms(3)] assms(2) by auto
  then have r: "\<not> r" using assms(4) by (auto simp: kind_def)
  moreover have "32 \<le> l" using links_length [OF links b(1)] by simp
  ultimately have "unused_list l = Some c" using unused_list_kind b(2) by simp
  moreover obtain P bs where P: "pg P = Some bs" "(a, l, r) \<in> set (pos P bs)" using b(1) by (auto simp: allpos_def)
  from pos_split [OF P(2)] r obtain xs ys where "bs = xs @ (l, False) # ys" "a = P + span xs" by blast
  ultimately show ?thesis using that P(1) by blast
qed

lemma find_unused:
  assumes "heap_ok pg h" "len \<le> 1024"
  shows "smallFindUnusedHeapEntry len h = Inr (h, 0) \<or>
    (\<exists>P xs l ys h'. pg P = Some (xs @ (l, False) # ys) \<and> len \<le> l \<and>
      smallFindUnusedHeapEntry len h = Inr (h', P + span xs) \<and> hl_remove (P + span xs) h = Inr h')"
proof -
  have hit: "\<exists>P xs l ys h'. pg P = Some (xs @ (l, False) # ys) \<and> len \<le> l \<and>
      (case hlists h c of [] \<Rightarrow> Inl MemFault | a # as \<Rightarrow> kbind (hl_remove a h) (\<lambda>h. Inr (h, a))) = Inr (h', P + span xs) \<and>
      hl_remove (P + span xs) h = Inr h'"
    if c: "hlists h c \<noteq> []" "c \<noteq> LargeHeap" "c \<noteq> SmallHeap" "\<And>l. unused_list l = Some c \<Longrightarrow> len \<le> l" for c
  proof -
    obtain a as where a: "hlists h c = a # as" using c(1) by (cases "hlists h c") auto
    then obtain P xs l ys where P: "pg P = Some (xs @ (l, False) # ys)" "a = P + span xs" "unused_list l = Some c"
      using in_class [OF assms(1), of a c] c(2,3) by (metis list.set_intros(1))
    from gap_from_page [OF assms(1) P(1)] obtain h' where "hl_remove (P + span xs) h = Inr h'" by blast
    with P a c(4) show ?thesis by (intro exI [of _ P] exI [of _ xs] exI [of _ l] exI [of _ ys] exI [of _ h']) simp
  qed
  have bound: "unused_list l = Some Unused32 \<Longrightarrow> 32 \<le> l" "unused_list l = Some Unused64 \<Longrightarrow> 64 \<le> l"
    "unused_list l = Some Unused128 \<Longrightarrow> 128 \<le> l" "unused_list l = Some Unused256 \<Longrightarrow> 256 \<le> l"
    "unused_list l = Some Unused512 \<Longrightarrow> 512 \<le> l" "unused_list l = Some Unused1024 \<Longrightarrow> 1024 \<le> l" for l
    by (auto simp: unused_list_def split: if_splits)
  consider c n where "c \<in> {(Unused32, 32), (Unused64, 64), (Unused128, 128), (Unused256, 256), (Unused512, 512), (Unused1024, 1024)}"
    "n = snd c" "len \<le> n" "hlists h (fst c) \<noteq> []"
    "smallFindUnusedHeapEntry len h = (case hlists h (fst c) of [] \<Rightarrow> Inl MemFault | a # as \<Rightarrow> kbind (hl_remove a h) (\<lambda>h. Inr (h, a)))"
  | "smallFindUnusedHeapEntry len h = Inr (h, 0)"
    unfolding smallFindUnusedHeapEntry_def Let_def by (fastforce split: if_splits)
  then show ?thesis
  proof cases
    case 1
    have "len \<le> l" if "unused_list l = Some (fst c)" for l using 1(1-3) that bound [of l] by force
    from hit [OF 1(4) _ _ this] 1 show ?thesis by auto
  qed blast
qed

section \<open>Properties\<close>

lemma round16_bounds: "n \<le> round16 n" "round16 n mod 16 = 0" "round16 n < n + 16"
proof -
  have "(n + 15) div 16 * 16 + (n + 15) mod 16 = n + 15" "(n + 15) mod 16 < 16" by simp_all
  then show "n \<le> round16 n" "round16 n < n + 16" unfolding round16_def by linarith+
qed (simp add: round16_def)

lemma carve_page:
  assumes "heap_ok pg h" "gap (allpos (pg(P := None))) P xs l ys g" "relinked h g \<or> outside_same P h g"
    "P \<notin> set (hlists h LargeHeap)" "32 \<le> len" "len mod 16 = 0" "len \<le> l"
    "in_use (allpos pg) = in_use (allpos (pg(P := None)) \<union> set (pos P xs) \<union> set (pos (P + span xs + l) ys))"
  shows "\<exists>h' pg'. kbind (hl_add SmallHeap (P + span xs) g) (\<lambda>h. give_back (P + span xs) (keep_length l len) l
      (put_header (P + span xs) SMALL_HEAP_MAGIC (keep_length l len) True h)) = Inr h' \<and> heap_ok pg' h' \<and> bytes h' = bytes h \<and>
    in_use (allpos pg') = insert (P + span xs, keep_length l len) (in_use (allpos pg))"
proof -
  let ?R = "allpos (pg(P := None))" and ?k = "keep_length l len"
  obtain h' bs where h': "kbind (hl_add SmallHeap (P + span xs) g) (\<lambda>h. give_back (P + span xs) ?k l
      (put_header (P + span xs) SMALL_HEAP_MAGIC ?k True h)) = Inr h'" "page_linked ?R P bs h'" "outside_same P g h'"
    "in_use (set (pos P bs)) = insert (P + span xs, ?k) (in_use (set (pos P xs) \<union> set (pos (P + span xs + l) ys)))"
    using carve [OF assms(2,5,6,7)] by blast
  have "outside_same P h h'"
    using h'(3) assms(3) hdr_of_lists by (fastforce simp: outside_same_def)
  moreover have P: "P mod 4096 = 0" using assms(2) by (simp add: gap_def)
  ultimately have ok: "heap_ok (pg(P := if bs = [(4096, False)] then None else Some bs)) h'"
    by (intro heap_ok_page [OF assms(1) P assms(4) h'(2)])
  have "bs \<noteq> [(4096, False)]" using h'(4) by (auto simp: in_use_def)
  moreover from this have "in_use (allpos (pg(P := Some bs))) = insert (P + span xs, ?k) (in_use (allpos pg))"
    unfolding allpos_upd [of pg P bs] assms(8) using h'(4) by auto
  ultimately show ?thesis using h'(1) ok \<open>outside_same P h h'\<close> by (intro exI [of _ h'] exI [of _ "pg(P := Some bs)"])
      (auto simp: outside_same_def)
qed

text \<open>The result of a small allocation: the block was carved out of a gap of a page.\<close>

definition carved :: "(nat \<Rightarrow> block list option) \<Rightarrow> kheap \<Rightarrow> nat \<Rightarrow> nat \<Rightarrow> nat \<Rightarrow> kheap \<Rightarrow> (nat \<Rightarrow> block list option) \<Rightarrow> bool" where
  "carved pg h len a k h' pg' \<longleftrightarrow> heap_ok pg' h' \<and> bytes h' = bytes h \<and> in_use (allpos pg') = insert (a, k) (in_use (allpos pg)) \<and>
     a \<noteq> 0 \<and> (\<exists>P xs l ys g. a = P + span xs \<and> k = keep_length l len \<and> len \<le> l \<and> gap (allpos (pg(P := None))) P xs l ys g \<and>
       in_use (allpos pg) = in_use (allpos (pg(P := None)) \<union> set (pos P xs) \<union> set (pos (P + span xs + l) ys)))"

lemma carvedI:
  assumes "heap_ok pg' h'" "bytes h' = bytes h" "in_use (allpos pg') = insert (a, k) (in_use (allpos pg))" "a \<noteq> 0"
    "a = P + span xs" "k = keep_length l len" "len \<le> l" "gap (allpos (pg(P := None))) P xs l ys g"
    "in_use (allpos pg) = in_use (allpos (pg(P := None)) \<union> set (pos P xs) \<union> set (pos (P + span xs + l) ys))"
  shows "carved pg h len a k h' pg'"
  unfolding carved_def using assms by blast

lemma page_align: "P mod 4096 = 0 \<Longrightarrow> s mod 16 = 0 \<Longrightarrow> (P + s) mod 16 = (0 :: nat)"
proof -
  assume "P mod 4096 = 0" "s mod 16 = 0"
  moreover have "16 dvd (4096 :: nat)" by simp
  ultimately have "16 dvd P" "16 dvd s" using dvd_trans by (auto simp: mod_eq_0_iff_dvd)
  then show ?thesis by simp
qed

lemma smallAlloc_fresh:
  assumes "heap_ok pg h" "32 \<le> len" "len mod 16 = 0" "len \<le> 1024" "len = round16 (n + 16)"
    "smallFindUnusedHeapEntry len h = Inr (h, 0)"
    "pagingAllocatePhysMem (getPagingEntry 0) 1 True False (hmem h) = Inr (m, v)"
    "v \<noteq> 0" "unat v mod 4096 = 0" "pg (unat v) = None" "unat v \<notin> set (hlists h LargeHeap)"
  shows "\<exists>h' a k pg'. smallAlloc n h = Inr (h', a) \<and> carved pg h len a k h' pg'"
proof -
  let ?P = "unat v" and ?g = "h\<lparr>hmem := m\<rparr>"
  have P: "?P \<noteq> 0" using assms(8) by (simp add: unat_eq_0)
  have R: "allpos (pg(?P := None)) = allpos pg" using assms(10) by (simp add: fun_upd_idem)
  have links: "links_ok (allpos pg) ?g" using assms(1) links_ok_cong [of ?g h] by (simp add: heap_ok_def)
  have "a < ?P \<or> ?P + 4096 \<le> a" if "(a, b) \<in> allpos pg" for a b
    using others_outside [OF assms(1,9), of a b] that links_length [OF links that] R by auto
  moreover have "a < ?P \<or> ?P + 4096 \<le> a" if "a \<in> set (hlists h LargeHeap)" for a
    using large_outside [OF assms(1,9) that] that assms(11) by blast
  ultimately have g: "gap (allpos (pg(?P := None))) ?P [] 4096 [] ?g"
    using links P assms(9) R by (auto simp: gap_def)
  obtain h' pg' where h': "kbind (hl_add SmallHeap (?P + span []) ?g) (\<lambda>h. give_back (?P + span []) (keep_length 4096 len) 4096
    (put_header (?P + span []) SMALL_HEAP_MAGIC (keep_length 4096 len) True h)) = Inr h'" "heap_ok pg' h'" "bytes h' = bytes h"
    "in_use (allpos pg') = insert (?P + span [], keep_length 4096 len) (in_use (allpos pg))"
    using carve_page [OF assms(1) g _ assms(11,2,3)] assms(4) R by (auto simp: outside_same_def)
  have "smallAlloc n h = Inr (h', ?P)"
    using assms(6,7) h'(1) unfolding smallAlloc_def Let_def HEADER_def assms(5) [symmetric] PAGE_SIZE_def
    by (auto simp: kbind_eq_Inr)
  moreover have "carved pg h len ?P (keep_length 4096 len) h' pg'"
    using h' g P R assms(4) by (intro carvedI [where P = ?P and xs = "[]" and ys = "[]" and g = ?g]) auto
  ultimately show ?thesis by blast
qed

lemma smallAlloc_found:
  assumes "heap_ok pg h" "32 \<le> len" "len mod 16 = 0" "len = round16 (n + 16)" "pg P = Some (xs @ (l, False) # ys)" "len \<le> l"
    "smallFindUnusedHeapEntry len h = Inr (g, P + span xs)" "hl_remove (P + span xs) h = Inr g"
  shows "\<exists>h' a k pg'. smallAlloc n h = Inr (h', a) \<and> carved pg h len a k h' pg'"
proof -
  have g: "gap (allpos (pg(P := None))) P xs l ys g" "relinked h g" using gap_from_page [OF assms(1,5)] assms(8) by auto
  have P: "P \<notin> set (hlists h LargeHeap)" "P \<noteq> 0" using assms(1,5) g(1) by (auto simp: heap_ok_def gap_def)
  have use: "in_use (allpos pg) = in_use (allpos (pg(P := None)) \<union> set (pos P xs) \<union> set (pos (P + span xs + l) ys))"
    unfolding allpos_page [of pg P, OF assms(5)] by (auto simp: in_use_def)
  obtain h' pg' where h': "kbind (hl_add SmallHeap (P + span xs) g) (\<lambda>h. give_back (P + span xs) (keep_length l len) l
    (put_header (P + span xs) SMALL_HEAP_MAGIC (keep_length l len) True h)) = Inr h'" "heap_ok pg' h'" "bytes h' = bytes h"
    "in_use (allpos pg') = insert (P + span xs, keep_length l len) (in_use (allpos pg))"
    using carve_page [OF assms(1) g(1) _ P(1) assms(2,3,6) use] g(2) by auto
  have "page_ok h P (xs @ (l, False) # ys)" using assms(1,5) by (simp add: heap_ok_def)
  from page_member(4) [OF this, of "P + span xs" "(l, False)"]
  have "hdr g (P + span xs) = \<lparr>heapMagic = SMALL_HEAP_MAGIC, hlength = l, hreserved = False\<rparr>"
    using hdr_of_lists [OF g(2)] by simp
  moreover have "l mod 16 = 0" using g(1) by (simp add: gap_def)
  ultimately have "smallAlloc n h = Inr (h', P + span xs)"
    using assms(6,7) P(2) h'(1) unfolding smallAlloc_def Let_def HEADER_def assms(4) [symmetric]
    by (auto simp: kbind_eq_Inr HEAP_ALIGN_SIZE_def)
  moreover have "carved pg h len (P + span xs) (keep_length l len) h' pg'"
    using h' g(1) P(2) use assms(6) by (intro carvedI [where P = P and xs = xs and ys = ys and g = g]) auto
  ultimately show ?thesis by blast
qed

lemma carved_disjoint:
  assumes "heap_ok pg h" "carved pg h len a k h' pg'" "32 \<le> len"
  shows "\<forall>(b, j)\<in>in_use (allpos pg). {a..<a + k} \<inter> {b..<b + j} = {}" "a mod 16 = 0" "len \<le> k"
proof -
  from assms(2) obtain P xs l ys g where r: "heap_ok pg' h'" "in_use (allpos pg') = insert (a, k) (in_use (allpos pg))"
    "a = P + span xs" "k = keep_length l len" "len \<le> l" "gap (allpos (pg(P := None))) P xs l ys g"
    "in_use (allpos pg) = in_use (allpos (pg(P := None)) \<union> set (pos P xs) \<union> set (pos (P + span xs + l) ys))"
    unfolding carved_def by blast
  have g: "chain g P xs" "chain g (P + span xs + l) ys" "P mod 4096 = 0" "span xs + l + span ys = 4096"
    using r(6) by (auto simp: gap_def)
  show "len \<le> k" using r(4,5) by (simp add: keep_length_def)
  have "span xs mod 16 = 0" using g(1) by (rule chain_align)
  then show "a mod 16 = 0" unfolding r(3) by (rule page_align [OF g(3)])
  have "a \<noteq> b" if use: "(b, j) \<in> in_use (allpos pg)" for b j
  proof -
    consider "(b, j, True) \<in> allpos (pg(P := None))" | "(b, j, True) \<in> set (pos P xs)" | "(b, j, True) \<in> set (pos (P + span xs + l) ys)"
      using use unfolding r(7) by (auto simp: in_use_def)
    then show ?thesis
    proof cases
      case 1
      have "32 \<le> j" using links_length [of "allpos pg" h b "(j, True)"] assms(1) that by (auto simp: heap_ok_def in_use_def)
      with others_outside [OF assms(1) g(3) 1] g(4) r(3,5) assms(3) show ?thesis by auto
    next
      case 2
      from chain_member [OF g(1) 2] r(3) show ?thesis by auto
    next
      case 3
      from chain_member [OF g(2) 3] r(3,5) assms(3) show ?thesis by auto
    qed
  qed
  then show "\<forall>(b, j)\<in>in_use (allpos pg). {a..<a + k} \<inter> {b..<b + j} = {}"
    using in_use_disjoint [OF r(1), of a k] r(2) by auto
qed


text \<open>An empty heap on a machine with free memory and one page table for the first four megabytes.\<close>

definition demo_paging :: paging where
  "demo_paging = \<lparr>physMemExtra = \<lambda>_. None, physMemMap = \<lambda>_. 0, physMemInitialized = True, ramSize = 0,
     pagingBootMap = [], pagingInitialized = True, pagingEnabled = True, cr3 = 5,
     pmem = \<lambda>f i. if f = 5 \<and> i = 1023 then 0x5003 else if f = 5 \<and> i = 0 then 0x7003 else 0,
     procMem = \<lambda>_. \<lparr>pageDirectory = 0, pageTables = \<lambda>_. 0\<rparr>\<rparr>"

definition demo_heap :: kheap where
  "demo_heap = \<lparr>hdr = \<lambda>_. \<lparr>heapMagic = 0, hlength = 0, hreserved = False\<rparr>, bytes = \<lambda>_. 0, hlists = \<lambda>_. [], hmem = demo_paging\<rparr>"

lemma demo_heap_ok: "heap_ok (\<lambda>_. None) demo_heap"
  by (simp add: heap_ok_def demo_heap_def links_ok_def allpos_def)

lemma demo_walk:
  assumes "pmem s = pmem demo_paging" "cr3 s = 5" "pagingEnabled s"
  shows "getPagingEntry 0 0x1000 al s = Inr (s, Some (7, 1))"
proof -
  have pe: "pe_present 0x5003" "pe_frame 0x5003 = 5" "pe_present 0x7003" "pe_frame 0x7003 = 7" "pe_avail 0x7003 = 0"
    by (simp_all add: pe_present_def pe_frame_def pe_avail_def)
  show ?thesis
    using assms by (simp add: getPagingEntry_def getPagingEntry_kernel_def ktrans_def dir_entry_def pte_def demo_paging_def Let_def
      KERNEL_DIR_ADDR_def KERNEL_PAGE_ADDR_def pe)
qed

lemma demo_alloc: "\<exists>m. pagingAllocatePhysMem (getPagingEntry 0) 1 True False demo_paging = Inr (m, 0x1000)"
proof -
  have "searchArea_loop (getPagingEntry 0) 1 1 1 demo_paging = Inr (demo_paging, 0x1000)"
    using demo_walk [of demo_paging False] by (subst searchArea_loop.simps)
      (simp add: KERNEL_DIR_ENTRY_def PAGETABLE_COUNT_def push_bit_of_1 pte_def demo_paging_def)
  then have search: "pagingTrySearchArea (getPagingEntry 0) 1 demo_paging = Inr (demo_paging, 0x1000)"
    by (simp add: pagingTrySearchArea_def)
  have "\<not> page_reserved demo_paging q" for q by (simp add: page_reserved_def demo_paging_def)
  moreover have "first_page False < PAGE_COUNT" by (simp add: first_page_def page_consts)
  ultimately obtain mm p where "physMemAllocPage False demo_paging = Inr (demo_paging\<lparr>physMemMap := mm\<rparr>, p)"
    using physMemAllocPage_cases [of False demo_paging] by (metis order_refl)
  moreover have "getPagingEntry 0 0x1000 True (demo_paging\<lparr>physMemMap := mm\<rparr>) = Inr (demo_paging\<lparr>physMemMap := mm\<rparr>, Some (7, 1))"
    by (rule demo_walk) (simp_all add: demo_paging_def)
  moreover have "pte (demo_paging\<lparr>physMemMap := mm\<rparr>) (7, 1) = 0" by (simp add: pte_def demo_paging_def)
  ultimately show ?thesis using search
    by (simp add: pagingAllocatePhysMem_def pagingTryAllocatePhysMem_def need_def)
qed


text \<open>
  C18: Freeing a small block in use returns and removes exactly that block from the blocks in use; free
  neighbours are merged, a page that has become free is unmapped, and the heap stays well formed.
\<close>
theorem heapFree_small_correct:
  assumes "heap_ok pg h" "(a, l) \<in> in_use (allpos pg)"
    "pagingReleasePhysMem (getPagingEntry 0) (word_of_nat (a div 4096 * 4096)) 1 (hmem h) = Inr m"
  shows "\<exists>h' pg'. heapFree (a + 16) h = Inr h' \<and> heap_ok pg' h' \<and> bytes h' = bytes h \<and>
    in_use (allpos pg') = in_use (allpos pg) - {(a, l)}"
proof -
  from assms(2) obtain P bs where bs: "pg P = Some bs" "(a, l, True) \<in> set (pos P bs)" by (auto simp: in_use_def allpos_def)
  from pos_split [OF bs(2)] bs(1) obtain xs ys where P: "pg P = Some (xs @ (l, True) # ys)" and a: "a = P + span xs" by blast
  let ?R = "allpos (pg(P := None))"
  from gap_from_page [OF assms(1) P] obtain g where g: "hl_remove a h = Inr g" "gap ?R P xs l ys g" "relinked h g"
    unfolding a by blast
  have page: "page_ok h P (xs @ (l, True) # ys)" and large: "P \<notin> set (hlists h LargeHeap)"
    using assms(1) P by (auto simp: heap_ok_def)
  have head: "hdr h a = \<lparr>heapMagic = SMALL_HEAP_MAGIC, hlength = l, hreserved = True\<rparr>"
    using page_member(4) [OF page, of a "(l, True)"] a by simp
  have base: "a div 4096 * 4096 = P" unfolding a using page_of [OF _ gap_less [OF g(2)]] g(2) by (simp add: gap_def)
  have "pagingReleasePhysMem (getPagingEntry 0) (word_of_nat P) 1 (hmem g) = Inr m"
    using assms(3) hdr_of_lists [OF g(3)] unfolding base by simp
  moreover have "hreserved (hdr g P)" if "xs = []" using that head a hdr_of_lists [OF g(3)] by simp
  ultimately obtain h' r where h': "smallInternalFree a l g = Inr (h', r)" "page_linked ?R P (merge xs l ys) h'" "outside_same P g h'"
    using smallInternalFree_spec [OF g(2)] unfolding a by blast
  have same: "outside_same P h h'" using h'(3) hdr_of_lists [OF g(3)] by (simp add: outside_same_def)
  have Pm: "P mod 4096 = 0" "l mod 16 = 0" using g(2) by (auto simp: gap_def)
  let ?pg = "pg(P := if merge xs l ys = [(4096, False)] then None else Some (merge xs l ys))"
  have ok: "heap_ok ?pg h'" by (rule heap_ok_page [OF assms(1) Pm(1) large h'(2) same])
  have "(a + 16) mod 4096 \<ge> 16"
    using g(2) unfolding a by (auto simp: gap_def mod_add_eq [of P, symmetric] add.assoc)
  then have run: "heapFree (a + 16) h = Inr h'"
    using g(1) h'(1) head Pm(2) hdr_of_lists [OF g(3)]
    by (simp add: heapFree_def checked_header_def smallFree_def HEADER_def PAGE_SIZE_def HEAP_ALIGN_SIZE_def Let_def)
  have "in_use (set (pos P (merge xs l ys))) = {}" if "merge xs l ys = [(4096, False)]" using that by (auto simp: in_use_def)
  then have "in_use (allpos ?pg) = in_use ?R \<union> (in_use (set (pos P xs)) \<union> in_use (set (pos (a + l) ys)))"
    using allpos_upd [of pg P "merge xs l ys"] in_use_merge [of P xs l ys] a by (auto simp: fun_upd_def)
  moreover have "in_use (allpos pg) = insert (a, l) (in_use ?R \<union> (in_use (set (pos P xs)) \<union> in_use (set (pos (a + l) ys))))"
    unfolding allpos_page [of pg P, OF P] using a by (auto simp: in_use_def)
  moreover have "(a, l) \<notin> in_use ?R \<union> (in_use (set (pos P xs)) \<union> in_use (set (pos (a + l) ys)))"
    using gap_unlinked [OF g(2), of "(l, True)"] a by (auto simp: in_use_def)
  ultimately show ?thesis using run ok same by (intro exI [of _ h'] exI [of _ ?pg]) (auto simp: outside_same_def)
qed

text \<open>A heap of one page with one small block in use.\<close>

definition demo_page :: "nat \<Rightarrow> block list option" where
  "demo_page = [0x1000 \<mapsto> [(128, True), (3968, False)]]"

definition demo_used :: kheap where
  "demo_used = demo_heap\<lparr>
     hdr := (hdr demo_heap)(0x1000 := \<lparr>heapMagic = SMALL_HEAP_MAGIC, hlength = 128, hreserved = True\<rparr>,
       0x1080 := \<lparr>heapMagic = SMALL_HEAP_MAGIC, hlength = 3968, hreserved = False\<rparr>),
     hlists := (\<lambda>_. [])(SmallHeap := [0x1000], Unused1024 := [0x1080]),
     hmem := demo_paging\<lparr>physMemMap := \<lambda>_. 0xFFFFFFFF, pmem := (pmem demo_paging)(7 := (\<lambda>_. 0)(1 := 0x100003))\<rparr>\<rparr>"

lemma demo_used_pos: "allpos demo_page = {(0x1000, 128, True), (0x1080, 3968, False)}"
  by (auto simp: allpos_def demo_page_def split: if_splits)

lemma demo_used_ok: "heap_ok demo_page demo_used"
proof -
  have "links_ok (allpos demo_page) demo_used"
    unfolding links_ok_def demo_used_pos
  proof (intro conjI allI impI)
    have k: "kind (128, True) = SmallHeap" "kind (3968, False) = Unused1024" by (simp_all add: kind_def unused_list_def)
    show "a \<in> set (hlists demo_used c) \<longleftrightarrow> (\<exists>b. (a, b) \<in> {(0x1000, 128, True), (0x1080, 3968, False)} \<and> kind b = c)" for a c
    proof -
      have e: "(\<exists>b. (a, b) \<in> {(x, p), (y, q)} \<and> kind b = c) \<longleftrightarrow> a = x \<and> kind p = c \<or> a = y \<and> kind q = c" for x y p q
        by blast
      show ?thesis unfolding e k by (auto simp: demo_used_def)
    qed
  qed (simp_all add: demo_used_def)
  moreover have "page_ok demo_used 0x1000 [(128, True), (3968, False)]"
    by (simp add: page_ok_def block_ok_def demo_used_def)
  moreover have "hlists demo_used LargeHeap = []" by (simp add: demo_used_def)
  ultimately show ?thesis by (auto simp: heap_ok_def demo_page_def split: if_splits)
qed

lemma extra_none:
  "physMemExtra s (i div 1024) = None \<Longrightarrow> pagingEnabled s \<Longrightarrow> i div 1024 < PHYSMEMEXTRA_COUNT \<Longrightarrow>
     getPhysMemExtraInfo EXTRA_FUEL i False s = Inr (s, False)"
  by (simp add: EXTRA_FUEL_def)

lemma demo_release: "\<exists>m. pagingReleasePhysMem (getPagingEntry 0) 0x1000 1 (hmem demo_used) = Inr m"
proof -
  let ?s = "hmem demo_used"
  have pe: "pe_present 0x5003" "pe_frame 0x5003 = 5" "pe_present 0x7003" "pe_frame 0x7003 = 7" "pe_avail 0x7003 = 0"
    "pe_present 0x100003" "pe_frame 0x100003 = 256"
    by (simp_all add: pe_present_def pe_frame_def pe_avail_def)
  have "getPagingEntry 0 0x1000 False ?s = Inr (?s, Some (7, 1))"
    by (simp add: getPagingEntry_def getPagingEntry_kernel_def ktrans_def dir_entry_def pte_def demo_paging_def demo_used_def
      Let_def KERNEL_DIR_ADDR_def KERNEL_PAGE_ADDR_def pe)
  moreover have "pte ?s (7, 1) = 0x100003" by (simp add: pte_def demo_used_def)
  moreover have "\<exists>m k. physMemReleasePage 256 (set_pte (7, 1) 0 ?s) = Inr (m, k)"
    by (simp add: physMemReleasePage_def extra_none set_pte_def demo_used_def demo_paging_def MAP_LONGS_def PHYSMEMEXTRA_COUNT_def
      PAGE_COUNT_def)
  ultimately show ?thesis
    by (auto simp: pagingReleasePhysMem_def pagingTryReleasePhysMem_def present_frame_def pe)
qed

theorem heapFree_small_correct_witness:
  "\<exists>h' pg'. heapFree 0x1010 demo_used = Inr h' \<and> heap_ok pg' h' \<and> in_use (allpos pg') = {}"
proof -
  obtain m where "pagingReleasePhysMem (getPagingEntry 0) (word_of_nat (0x1000 div 4096 * 4096)) 1 (hmem demo_used) = Inr m"
    using demo_release by auto
  from heapFree_small_correct [OF demo_used_ok _ this, of 128] show ?thesis
    by (auto simp: demo_used_pos in_use_def)
qed

end
