(* ===== verification/UserMem.thy ===== *)
theory UserMem
  imports Paging
begin

text \<open>
  Bytes behind kernel virtual addresses, as the kernel reads and writes them once
  \<^verbatim>\<open>ACCESS_USER_MEMORY\<close> (\<^verbatim>\<open>include/memory/paging.h\<close>) has mapped the memory of a process. Physical
  memory consists of dwords, so a byte is a part of one of them, lowest byte first; an address that
  is not mapped is \<open>MemFault\<close>. \<open>kread\<close> and \<open>kwrite\<close> are copies of whole buffers, whose pages need
  not be adjacent in physical memory.
\<close>

unbundle bit_operations_syntax

definition get_byte :: "nat \<Rightarrow> u32 \<Rightarrow> u8" where
  "get_byte k w = ucast (drop_bit (8 * k) w)"

definition set_byte :: "nat \<Rightarrow> u8 \<Rightarrow> u32 \<Rightarrow> u32" where
  "set_byte k b w = (w AND NOT (push_bit (8 * k) (mask 8))) OR push_bit (8 * k) (ucast b)"

definition byte_of :: "u32 \<Rightarrow> nat" where
  "byte_of va = unat (va AND 3)"

definition kload :: "u32 \<Rightarrow> paging \<Rightarrow> u8 kres" where
  "kload va s = kbind (ktrans va s) (\<lambda>loc. Inr (get_byte (byte_of va) (pte s loc)))"

definition kstore :: "u32 \<Rightarrow> u8 \<Rightarrow> paging \<Rightarrow> paging kres" where
  "kstore va b s = kbind (ktrans va s) (\<lambda>loc. Inr (set_pte loc (set_byte (byte_of va) b (pte s loc)) s))"

primrec kread :: "nat \<Rightarrow> u32 \<Rightarrow> paging \<Rightarrow> u8 list kres" where
  "kread 0 va s = Inr []"
| "kread (Suc n) va s = kbind (kload va s) (\<lambda>b. kbind (kread n (va + 1) s) (\<lambda>bs. Inr (b # bs)))"

primrec kwrite :: "u8 list \<Rightarrow> u32 \<Rightarrow> paging \<Rightarrow> paging kres" where
  "kwrite [] va s = Inr s"
| "kwrite (b # bs) va s = kbind (kstore va b s) (kwrite bs (va + 1))"

text \<open>Little-endian numbers in a sequence of bytes, and back.\<close>

primrec le_word :: "u8 list \<Rightarrow> 'a::len word" where
  "le_word [] = 0"
| "le_word (b # bs) = ucast b OR push_bit 8 (le_word bs)"

definition dword_bytes :: "u32 \<Rightarrow> u8 list" where
  "dword_bytes w = map (\<lambda>k. get_byte k w) [0, 1, 2, 3]"

section \<open>Reading back what was written\<close>

lemma length_dword_bytes [simp]: "length (dword_bytes w) = 4"
  by (simp add: dword_bytes_def)

lemma get_set_byte:
  assumes "j < 4" "k < 4"
  shows "get_byte j (set_byte k b w) = (if j = k then b else get_byte j w)"
proof (rule bit_word_eqI)
  fix n assume "n < LENGTH(8)"
  then have n: "n < 8" by simp
  show "bit (get_byte j (set_byte k b w)) n = bit (if j = k then b else get_byte j w) n"
  proof (cases j k rule: linorder_cases)
    case less
    with n have "\<not> 8 * k \<le> 8 * j + n" by simp
    with less n assms show ?thesis by (simp add: get_byte_def set_byte_def bit_simps)
  next
    case equal
    with n assms show ?thesis by (auto simp: get_byte_def set_byte_def bit_simps)
  next
    case greater
    with n have "8 \<le> 8 * j + n - 8 * k" by simp
    then have "\<not> bit b (8 * j + n - 8 * k)" "\<not> bit (mask 8 :: u32) (8 * j + n - 8 * k)"
      by (auto simp: bit_simps dest: bit_imp_le_length)
    with greater n assms show ?thesis by (simp add: get_byte_def set_byte_def bit_simps)
  qed
qed

lemma byte_of_less: "byte_of va < 4"
proof -
  have "va AND 3 \<le> 3" by (rule word_and_le1)
  then have "unat (va AND 3) \<le> unat (3 :: u32)" by (simp only: word_le_nat_alt)
  then show ?thesis by (simp add: byte_of_def)
qed

lemma le_word_dword_bytes: "le_word (dword_bytes w) = w"
proof (rule bit_word_eqI)
  fix n assume "n < LENGTH(32)"
  then consider "n < 8" | "8 \<le> n" "n < 16" | "16 \<le> n" "n < 24" | "24 \<le> n" "n < 32" by fastforce
  then show "bit (le_word (dword_bytes w) :: u32) n = bit w n"
    by cases (auto simp: dword_bytes_def get_byte_def bit_simps)
qed

text \<open>The frames of the kernel's page directory and page tables: translation depends on nothing else in memory.\<close>

definition table_frame :: "paging \<Rightarrow> nat \<Rightarrow> bool" where
  "table_frame s f \<longleftrightarrow> f = cr3 s \<or> (\<exists>d. pe_present (pmem s (cr3 s) d) \<and> pe_frame (pmem s (cr3 s) d) = f)"

definition data_area :: "u32 \<Rightarrow> nat \<Rightarrow> paging \<Rightarrow> bool" where
  "data_area va n s \<longleftrightarrow> (\<forall>i<n. \<exists>loc. ktrans (va + of_nat i) s = Inr loc \<and> \<not> table_frame s (fst loc))"

text \<open>Every byte of the area has a place of its own in physical memory.\<close>

definition unaliased :: "u32 \<Rightarrow> nat \<Rightarrow> paging \<Rightarrow> bool" where
  "unaliased va n s \<longleftrightarrow> inj_on (\<lambda>i. (ktrans (va + of_nat i) s, byte_of (va + of_nat i))) {..<n}"

lemma set_pte_simps [simp]:
  "pagingEnabled (set_pte loc w s) = pagingEnabled s" "cr3 (set_pte loc w s) = cr3 s"
  "pmem (set_pte loc w s) f i = (if (f, i) = loc then w else pmem s f i)"
  by (cases loc; auto simp: set_pte_def)+

lemma table_frame_set_pte:
  assumes "\<not> table_frame s (fst loc)"
  shows "table_frame (set_pte loc w s) = table_frame s"
  using assms by (auto simp: table_frame_def fun_eq_iff)

lemma ktrans_set_pte:
  assumes "\<not> table_frame s (fst loc)"
  shows "ktrans va (set_pte loc w s) = ktrans va s"
proof -
  have "fst loc \<noteq> cr3 s" using assms by (simp add: table_frame_def)
  then have dir: "pmem (set_pte loc w s) (cr3 s) d = pmem s (cr3 s) d" for d by auto
  have "pmem (set_pte loc w s) (pe_frame (pmem s (cr3 s) d)) t = pmem s (pe_frame (pmem s (cr3 s) d)) t"
    if "pe_present (pmem s (cr3 s) d)" for d t
    using assms that by (auto simp: table_frame_def)
  with dir show ?thesis by (simp add: ktrans_def Let_def del: set_pte_simps(3))
qed

lemma kstore_data:
  assumes "ktrans va s = Inr loc" "\<not> table_frame s (fst loc)"
    and s': "s' = set_pte loc (set_byte (byte_of va) b (pte s loc)) s"
  shows "kstore va b s = Inr s'" "ktrans va' s' = ktrans va' s" "table_frame s' = table_frame s"
    "kload va s' = Inr b"
    "(ktrans va' s, byte_of va') \<noteq> (ktrans va s, byte_of va) \<Longrightarrow> kload va' s' = kload va' s"
proof -
  show "kstore va b s = Inr s'" using assms by (simp add: kstore_def)
  show t: "ktrans va' s' = ktrans va' s" for va' using assms(2) by (simp add: s' ktrans_set_pte)
  show "table_frame s' = table_frame s" using assms(2) by (simp add: s' table_frame_set_pte)
  show "kload va s' = Inr b" using assms(1)
    by (simp add: kload_def t) (simp add: s' pte_def get_set_byte byte_of_less)
  assume other: "(ktrans va' s, byte_of va') \<noteq> (ktrans va s, byte_of va)"
  show "kload va' s' = kload va' s"
  proof (cases "ktrans va' s")
    case (Inr l)
    with other assms(1) have "l \<noteq> loc \<or> byte_of va' \<noteq> byte_of va" by auto
    with Inr show ?thesis
      by (simp add: kload_def t) (auto simp: s' pte_def get_set_byte byte_of_less)
  qed (simp add: kload_def t)
qed

lemma data_area_Suc: "data_area va (Suc n) s \<longleftrightarrow>
    (\<exists>loc. ktrans va s = Inr loc \<and> \<not> table_frame s (fst loc)) \<and> data_area (va + 1) n s"
  by (auto simp: data_area_def All_less_Suc2 add.assoc)

lemma unaliased_Suc:
  assumes "unaliased va (Suc n) s"
  shows "unaliased (va + 1) n s"
    "\<And>i. i < n \<Longrightarrow> (ktrans va s, byte_of va) \<noteq> (ktrans (va + 1 + of_nat i) s, byte_of (va + 1 + of_nat i))"
proof -
  let ?f = "\<lambda>i. (ktrans (va + of_nat i) s, byte_of (va + of_nat i))"
  have f: "?f (Suc i) = (ktrans (va + 1 + of_nat i) s, byte_of (va + 1 + of_nat i))" for i
    by (simp add: add.assoc)
  have inj: "?f i = ?f j \<longleftrightarrow> i = j" if "i < Suc n" "j < Suc n" for i j
    using assms that unfolding unaliased_def by (intro inj_on_eq_iff) auto
  show "unaliased (va + 1) n s"
    unfolding unaliased_def f [symmetric] using inj [of "Suc i" "Suc j" for i j] by (intro inj_onI) auto
  show "(ktrans va s, byte_of va) \<noteq> (ktrans (va + 1 + of_nat i) s, byte_of (va + 1 + of_nat i))" if "i < n" for i
    using inj [of 0 "Suc i"] that by (simp add: add.assoc)
qed

lemma kwrite_data:
  assumes "data_area va (length bs) s"
  shows "\<exists>s'. kwrite bs va s = Inr s' \<and> (\<forall>va'. ktrans va' s' = ktrans va' s) \<and> table_frame s' = table_frame s \<and>
    (\<forall>va'. (\<forall>i<length bs. (ktrans (va + of_nat i) s, byte_of (va + of_nat i)) \<noteq> (ktrans va' s, byte_of va')) \<longrightarrow>
       kload va' s' = kload va' s)"
  using assms
proof (induction bs arbitrary: va s)
  case (Cons b bs)
  then obtain loc where loc: "ktrans va s = Inr loc" "\<not> table_frame s (fst loc)" and rest: "data_area (va + 1) (length bs) s"
    by (auto simp: data_area_Suc)
  let ?t = "set_pte loc (set_byte (byte_of va) b (pte s loc)) s"
  note st = kstore_data [OF loc refl, where b = b]
  have "data_area (va + 1) (length bs) ?t" using rest by (simp add: data_area_def st)
  from Cons.IH [OF this] obtain s' where s': "kwrite bs (va + 1) ?t = Inr s'" "\<forall>va'. ktrans va' s' = ktrans va' s"
    "table_frame s' = table_frame s"
    and other: "\<forall>va'. (\<forall>i<length bs. (ktrans (va + 1 + of_nat i) s, byte_of (va + 1 + of_nat i)) \<noteq> (ktrans va' s, byte_of va')) \<longrightarrow>
       kload va' s' = kload va' ?t" by (auto simp: st)
  have "kload va' s' = kload va' s"
    if "\<forall>i<length (b # bs). (ktrans (va + of_nat i) s, byte_of (va + of_nat i)) \<noteq> (ktrans va' s, byte_of va')" for va'
    using that other st(5) [of va'] by (force simp: All_less_Suc2 add.assoc)
  with s' st(1) show ?case by auto
qed simp

theorem kwrite_kread:
  assumes "data_area va (length bs) s" "unaliased va (length bs) s"
  shows "\<exists>s'. kwrite bs va s = Inr s' \<and> kread (length bs) va s' = Inr bs"
  using assms
proof (induction bs arbitrary: va s)
  case (Cons b bs)
  then obtain loc where loc: "ktrans va s = Inr loc" "\<not> table_frame s (fst loc)" and rest: "data_area (va + 1) (length bs) s"
    by (auto simp: data_area_Suc)
  let ?t = "set_pte loc (set_byte (byte_of va) b (pte s loc)) s"
  note st = kstore_data [OF loc refl, where b = b]
  have area: "data_area (va + 1) (length bs) ?t" using rest by (simp add: data_area_def st)
  have "unaliased (va + 1) (length bs) ?t"
    using unaliased_Suc(1) [of va "length bs" s] Cons.prems(2) by (simp add: unaliased_def st)
  with Cons.IH area obtain s' where s': "kwrite bs (va + 1) ?t = Inr s'" "kread (length bs) (va + 1) s' = Inr bs" by blast
  have "kload va s' = kload va ?t"
  proof -
    have "\<forall>i<length bs. (ktrans (va + 1 + of_nat i) ?t, byte_of (va + 1 + of_nat i)) \<noteq> (ktrans va ?t, byte_of va)"
      using unaliased_Suc(2) [of va "length bs" s] Cons.prems(2) by (fastforce simp: st)
    with kwrite_data [OF area] s'(1) show ?thesis by (metis Inr_inject)
  qed
  with s' st(1,4) show ?case by simp
qed simp

end
