(* ===== verification/Elf.thy ===== *)
theory Elf
  imports UserMem Ranges Thread
begin

text \<open>
  The ELF loader (\<^verbatim>\<open>loader/elf.c\<close>). The file is the list of bytes from its address on, and reading
  behind it is \<open>MemFault\<close>; a pointer into it is an offset of 32 bits. \<^verbatim>\<open>elfLoadBinary\<close> goes over the
  section table twice: \<open>scan_sections\<close> checks the sections and collects the pages they need,
  \<open>load_sections\<close> copies their contents into the new process.
\<close>

unbundle bit_operations_syntax

section \<open>The list of required pages\<close>

text \<open>The loop of \<^verbatim>\<open>__insertRequiredPage\<close>: the entries in front of \<^verbatim>\<open>it\<close> stay, an entry that is
  absorbed is removed.\<close>

fun required_loop :: "range list \<Rightarrow> nat \<Rightarrow> nat \<Rightarrow> range list" where
  "required_loop [] start stop = [(start, stop)]"
| "required_loop ((a, b) # pages) start stop =
     (if stop < a then (start, stop) # (a, b) # pages
      else if b < start then (a, b) # required_loop pages start stop
      else if start \<ge> a \<and> stop \<le> b then (a, b) # pages
      else required_loop pages (if a < start then a else start) (if b > stop then b else stop))"

definition insertRequiredPage :: "nat \<Rightarrow> nat \<Rightarrow> range list \<Rightarrow> range list kres" where
  "insertRequiredPage start stop pages =
     Inr (if stop \<le> start then pages else required_loop pages start stop)"

lemma required_loop_ins_range: "required_loop pages a b = ins_range pages a b"
  by (induction pages a b rule: required_loop.induct) (simp_all add: ins_range_merge del: ins_range.simps(2), auto)

interpretation required: range_set separated pages_of insertRequiredPage
  by unfold_locales
    (auto simp: insertRequiredPage_def required_loop_ins_range ins_range_separated ins_range_pages split: if_splits)

section \<open>Headers\<close>

definition ELF_STYPE_NOBITS :: u32 where "ELF_STYPE_NOBITS = 8"
definition ELF_HEADER_SIZE :: u32 where "ELF_HEADER_SIZE = 52"
definition ELF_SECTION_SIZE :: u32 where "ELF_SECTION_SIZE = 40"

definition elf_magic :: "u8 list" where "elf_magic = [0x7F, 0x45, 0x4C, 0x46]"

record elfHeader =
  eh_ident :: "u8 list"
  eh_entry :: u32
  eh_shoff :: u32
  eh_shentsize :: u16
  eh_shnum :: u16

record elfSectionTable =
  sh_type :: u32
  sh_addr :: u32
  sh_offset :: u32
  sh_size :: u32

definition field16 :: "nat \<Rightarrow> u8 list \<Rightarrow> u16" where "field16 i bs = le_word (take 2 (drop i bs))"
definition field32 :: "nat \<Rightarrow> u8 list \<Rightarrow> u32" where "field32 i bs = le_word (take 4 (drop i bs))"

definition read_header :: "u8 list \<Rightarrow> elfHeader kres" where
  "read_header img =
     kbind (buf_read 0 (unat ELF_HEADER_SIZE) img) (\<lambda>bs.
     Inr \<lparr>eh_ident = take 16 bs, eh_entry = field32 24 bs, eh_shoff = field32 32 bs,
          eh_shentsize = field16 46 bs, eh_shnum = field16 48 bs\<rparr>)"

definition read_section :: "u32 \<Rightarrow> u8 list \<Rightarrow> elfSectionTable kres" where
  "read_section pos img =
     kbind (buf_read (unat pos) (unat ELF_SECTION_SIZE) img) (\<lambda>bs.
     Inr \<lparr>sh_type = field32 4 bs, sh_addr = field32 12 bs, sh_offset = field32 16 bs, sh_size = field32 20 bs\<rparr>)"

section \<open>Loading\<close>

text \<open>The page range of a section, cut off before the last page of the address space.\<close>

definition section_start :: "elfSectionTable \<Rightarrow> u32" where
  "section_start sec = drop_bit 12 (sh_addr sec)"

definition section_stop :: "elfSectionTable \<Rightarrow> u32" where
  "section_stop sec =
     (let stop = ucast (drop_bit 12 (ucast (sh_addr sec) + ucast (sh_size sec) + 0xFFF :: u64))
      in if unat stop \<ge> PAGE_COUNT then of_nat (PAGE_COUNT - 1) else stop)"

definition section_inside :: "u32 \<Rightarrow> elfSectionTable \<Rightarrow> bool" where
  "section_inside len sec \<longleftrightarrow>
     sh_type sec = ELF_STYPE_NOBITS \<or> \<not> ucast len < (ucast (sh_offset sec) + ucast (sh_size sec) :: u64)"

text \<open>The first loop; the pointer is advanced before the section is used, so the first section of
  the table is left out and one behind the table is read.\<close>

primrec scan_sections :: "nat \<Rightarrow> u8 list \<Rightarrow> u32 \<Rightarrow> u16 \<Rightarrow> u32 \<Rightarrow> range list \<Rightarrow> range list option kres" where
  "scan_sections 0 img len entsize pos pages = Inr (Some pages)"
| "scan_sections (Suc n) img len entsize pos pages =
     (let pos = pos + ucast entsize
      in if pos + ELF_SECTION_SIZE > len then Inr None
         else kbind (read_section pos img) (\<lambda>sec.
           if sh_addr sec = 0 then scan_sections n img len entsize pos pages
           else if \<not> section_inside len sec then Inr None
           else kassert (section_start sec \<le> section_stop sec) (
                kbind (insertRequiredPage (unat (section_start sec)) (unat (section_stop sec)) pages) (\<lambda>pages.
                scan_sections n img len entsize pos pages))))"

primrec allocate_ranges :: "range list \<Rightarrow> addr \<Rightarrow> paging \<Rightarrow> paging kres" where
  "allocate_ranges [] p s = Inr s"
| "allocate_ranges (r # rs) p s =
     kbind (pagingAllocatePhysMemFixed (getPagingEntry p) (push_bit 12 (of_nat (fst r))) (snd r - fst r) True True s) (\<lambda>(s, _).
     allocate_ranges rs p s)"

text \<open>What \<^verbatim>\<open>memset\<close> or \<^verbatim>\<open>memcpy\<close> writes for a section.\<close>

definition section_data :: "u8 list \<Rightarrow> elfSectionTable \<Rightarrow> u8 list kres" where
  "section_data img sec =
     (if sh_type sec = ELF_STYPE_NOBITS then Inr (replicate (unat (sh_size sec)) 0)
      else buf_read (unat (sh_offset sec)) (unat (sh_size sec)) img)"

primrec load_sections :: "nat \<Rightarrow> u8 list \<Rightarrow> u32 \<Rightarrow> u16 \<Rightarrow> u32 \<Rightarrow> addr \<Rightarrow> paging \<Rightarrow> (paging \<times> bool) kres" where
  "load_sections 0 img len entsize pos p s = Inr (s, True)"
| "load_sections (Suc n) img len entsize pos p s =
     (let pos = pos + ucast entsize
      in if pos + ELF_SECTION_SIZE > len then Inr (s, False)
         else kbind (read_section pos img) (\<lambda>sec.
           if sh_addr sec = 0 then load_sections n img len entsize pos p s
           else kbind (ACCESS_USER_MEMORY (getPagingEntry p) (sh_addr sec) (sh_size sec) True s) (\<lambda>(s, k, valid).
             if \<not> valid then Inr (s, False)
             else kbind (section_data img sec) (\<lambda>bs.
                  kbind (kwrite bs (um_addr k) s) (\<lambda>s.
                  kbind (RELEASE_USER_MEMORY k s) (\<lambda>s.
                  load_sections n img len entsize pos p s))))))"

definition elfLoadBinary :: "addr \<Rightarrow> u8 list \<Rightarrow> u32 \<Rightarrow> kst \<Rightarrow> (kst \<times> bool) kres" where
  "elfLoadBinary p img len s =
     (if len < ELF_HEADER_SIZE then Inr (s, False)
      else kbind (read_header img) (\<lambda>header.
        if take 4 (eh_ident header) \<noteq> elf_magic then Inr (s, False)
        else if len < eh_shoff header then Inr (s, False)
        else kbind (scan_sections (unat (eh_shnum header)) img len (eh_shentsize header) (eh_shoff header) []) (\<lambda>pages.
          case pages of None \<Rightarrow> Inr (s, False)
          | Some rs \<Rightarrow>
              kbind (with_mem0 (allocate_ranges rs p) s) (\<lambda>s.
              kbind (with_mem (load_sections (unat (eh_shnum header)) img len (eh_shentsize header) (eh_shoff header) p) s)
                (\<lambda>(s, valid).
                if \<not> valid then Inr (s, False)
                else kbind (upd_process p (\<lambda>x. x\<lparr>entryPoint := eh_entry header\<rparr>) s) (\<lambda>s. Inr (s, True)))))))"

section \<open>What a file asks for\<close>

definition section_at :: "u8 list \<Rightarrow> nat \<Rightarrow> elfSectionTable" where
  "section_at img i =
     (let bs = take 40 (drop i img) in
      \<lparr>sh_type = field32 4 bs, sh_addr = field32 12 bs, sh_offset = field32 16 bs, sh_size = field32 20 bs\<rparr>)"

text \<open>A section header lies in the file, and so do the contents unless the section is not loaded or has none.\<close>

definition section_valid :: "u8 list \<Rightarrow> nat \<Rightarrow> bool" where
  "section_valid img i \<longleftrightarrow> i + 40 \<le> length img \<and>
     (let sec = section_at img i in
      sh_addr sec = 0 \<or> sh_type sec = ELF_STYPE_NOBITS \<or> unat (sh_offset sec) + unat (sh_size sec) \<le> length img)"

text \<open>The pages that hold a byte of a loaded section, without the last page of the address space.\<close>

definition section_pages :: "elfSectionTable \<Rightarrow> nat set" where
  "section_pages sec =
     (if sh_addr sec = 0 then {}
      else {unat (sh_addr sec) div 4096..<min ((unat (sh_addr sec) + unat (sh_size sec) + 4095) div 4096) 0xFFFFF})"

lemma read_section_at:
  "read_section pos img = (if unat pos + 40 \<le> length img then Inr (section_at img (unat pos)) else Inl MemFault)"
  by (simp add: read_section_def section_at_def buf_read_def ELF_SECTION_SIZE_def Let_def)

lemma unat_section_start: "unat (section_start sec) = unat (sh_addr sec) div 4096"
  by (simp add: section_start_def drop_bit_eq_div unat_div_distrib)

lemma unat_sum64: "unat (ucast (a :: u32) + ucast (b :: u32) :: u64) = unat a + unat b"
  using unat_u32 [of a] unat_u32 [of b] by (subst unat_add_small) (simp_all add: unat_ucast_take)

lemma unat_section_stop:
  "unat (section_stop sec) = min ((unat (sh_addr sec) + unat (sh_size sec) + 4095) div 4096) 0xFFFFF"
proof -
  let ?sum = "ucast (sh_addr sec) + ucast (sh_size sec) + 0xFFF :: u64"
  have "unat ?sum = unat (sh_addr sec) + unat (sh_size sec) + 4095"
    using unat_u32 [of "sh_addr sec"] unat_u32 [of "sh_size sec"] unat_sum64 [of "sh_addr sec" "sh_size sec"]
    by (subst unat_add_small) simp_all
  moreover have "unat (ucast (drop_bit 12 ?sum) :: u32) = unat ?sum div 4096"
    using calculation unat_u32 [of "sh_addr sec"] unat_u32 [of "sh_size sec"]
    by (simp add: unat_ucast_take drop_bit_eq_div unat_div_distrib)
  ultimately show ?thesis by (simp add: section_stop_def Let_def PAGE_COUNT_def)
qed

lemma section_inside_iff:
  assumes "length img = unat len" "unat i + 40 \<le> length img" "sh_addr (section_at img (unat i)) \<noteq> 0"
  shows "section_inside len (section_at img (unat i)) \<longleftrightarrow> section_valid img (unat i)"
proof -
  have "ucast len < (ucast a + ucast b :: u64) \<longleftrightarrow> unat len < unat a + unat b" for a b :: u32
    using unat_u32 [of len] by (simp add: word_less_nat_alt unat_sum64 unat_ucast_take)
  with assms show ?thesis by (auto simp: section_inside_def section_valid_def Let_def)
qed

text \<open>One step of the scan: the offset does not wrap, and the header is read inside the file.\<close>

lemma scan_step:
  assumes "length img = unat len" "unat len + 0x10028 < 2 ^ 32" "unat pos \<le> unat len" "separated pages"
  shows "scan_sections (Suc n) img len entsize pos pages =
      (if section_valid img (unat pos + unat entsize)
       then scan_sections n img len entsize (pos + ucast entsize)
              (let sec = section_at img (unat pos + unat entsize) in
               if sh_addr sec = 0 \<or> section_stop sec \<le> section_start sec then pages
               else ins_range pages (unat (section_start sec)) (unat (section_stop sec)))
       else Inr None)"
    and "section_valid img (unat pos + unat entsize) \<Longrightarrow>
      unat (pos + ucast entsize) = unat pos + unat entsize \<and> unat (pos + ucast entsize) \<le> unat len"
proof -
  let ?pos = "pos + ucast entsize"
  have ent: "unat entsize < 65536" using unsigned_less [of entsize] by simp
  then have "unat (ucast entsize :: u32) = unat entsize" using ent by (simp add: unat_ucast_take)
  then have pos: "unat ?pos = unat pos + unat entsize"
    using assms(2,3) ent by (subst unat_add_small) simp_all
  then have "unat (?pos + ELF_SECTION_SIZE) = unat pos + unat entsize + 40"
    using assms(2,3) ent unfolding ELF_SECTION_SIZE_def by (subst unat_add_small) simp_all
  then have outside: "?pos + ELF_SECTION_SIZE > len \<longleftrightarrow> \<not> unat ?pos + 40 \<le> length img"
    using pos assms(1) by (simp add: word_less_nat_alt not_le)
  show "scan_sections (Suc n) img len entsize pos pages =
      (if section_valid img (unat pos + unat entsize)
       then scan_sections n img len entsize (pos + ucast entsize)
              (let sec = section_at img (unat pos + unat entsize) in
               if sh_addr sec = 0 \<or> section_stop sec \<le> section_start sec then pages
               else ins_range pages (unat (section_start sec)) (unat (section_stop sec)))
       else Inr None)"
  proof (cases "unat ?pos + 40 \<le> length img")
    case False
    then show ?thesis using outside pos by (simp add: section_valid_def Let_def)
  next
    case True
    let ?sec = "section_at img (unat ?pos)"
    have "section_start ?sec \<le> section_stop ?sec"
      using unat_u32 [of "sh_addr ?sec"] div_less_iff_less_mult [of 4096 "unat (sh_addr ?sec)" 1048576]
      by (simp add: word_le_nat_alt unat_section_start unat_section_stop div_le_mono)
    moreover have "sh_addr ?sec = 0 \<Longrightarrow> section_valid img (unat ?pos)"
      using True by (simp add: section_valid_def Let_def)
    moreover note section_inside_iff [OF assms(1) True]
    ultimately show ?thesis using True outside pos
      by (auto simp: Let_def read_section_at kassert_def insertRequiredPage_def required_loop_ins_range word_le_nat_alt)
  qed
  show "unat ?pos = unat pos + unat entsize \<and> unat ?pos \<le> unat len" if "section_valid img (unat pos + unat entsize)"
    using that pos assms(1) by (simp add: section_valid_def)
qed

definition section_offset :: "u16 \<Rightarrow> u32 \<Rightarrow> nat \<Rightarrow> nat" where
  "section_offset entsize pos k = unat pos + Suc k * unat entsize"

lemma scan_correct:
  assumes "length img = unat len" "unat len + 0x10028 < 2 ^ 32" "unat pos \<le> unat len" "separated pages"
  shows "if \<forall>k<n. section_valid img (section_offset entsize pos k)
    then \<exists>rs. scan_sections n img len entsize pos pages = Inr (Some rs) \<and> separated rs \<and>
           pages_of rs = pages_of pages \<union> (\<Union>k<n. section_pages (section_at img (section_offset entsize pos k)))
    else scan_sections n img len entsize pos pages = Inr None"
  using assms(3,4)
proof (induction n arbitrary: pos pages)
  case (Suc n)
  let ?i = "unat pos + unat entsize" and ?pos = "pos + ucast entsize"
  let ?sec = "section_at img ?i"
  define q where "q = (if sh_addr ?sec = 0 \<or> section_stop ?sec \<le> section_start ?sec then pages
     else ins_range pages (unat (section_start ?sec)) (unat (section_stop ?sec)))"
  note step = scan_step [OF assms(1,2) Suc.prems]
  have range: "section_pages ?sec = (if sh_addr ?sec = 0 then {} else {unat (section_start ?sec)..<unat (section_stop ?sec)})"
    by (simp add: section_pages_def unat_section_start unat_section_stop)
  have new: "separated q" "pages_of q = pages_of pages \<union> section_pages ?sec"
    using Suc.prems(2) by (auto simp: q_def ins_range_separated ins_range_pages range word_le_nat_alt not_le)
  show ?case
  proof (cases "section_valid img ?i")
    case False
    then have "\<not> (\<forall>k<Suc n. section_valid img (section_offset entsize pos k))"
      by (auto simp: All_less_Suc2 section_offset_def)
    with False step(1) show ?thesis by auto
  next
    case True
    then have pos: "unat ?pos = ?i" "unat ?pos \<le> unat len" using step(2) [of entsize] by simp_all
    have idx: "section_offset entsize ?pos k = section_offset entsize pos (Suc k)" for k
      using pos by (simp add: section_offset_def)
    have "(\<Union>k<Suc n. section_pages (section_at img (section_offset entsize pos k))) =
        section_pages ?sec \<union> (\<Union>k<n. section_pages (section_at img (section_offset entsize ?pos k)))"
      unfolding idx lessThan_Suc_eq_insert_0 by (simp add: image_image section_offset_def)
    moreover have "(\<forall>k<Suc n. section_valid img (section_offset entsize pos k)) \<longleftrightarrow>
        (\<forall>k<n. section_valid img (section_offset entsize ?pos k))"
      using True pos(1) by (simp add: All_less_Suc2 section_offset_def add.assoc)
    moreover have "scan_sections (Suc n) img len entsize pos pages = scan_sections n img len entsize ?pos q"
      using step(1) [of n entsize] True by (simp only: q_def Let_def if_True)
    ultimately show ?thesis using Suc.IH [OF pos(2) new(1)] new(2) by (simp only: Un_assoc)
  qed
qed auto

section \<open>Properties\<close>

text \<open>A file the loader accepts: the header, the section headers it reads and their contents are in the file.\<close>

definition header_of :: "u8 list \<Rightarrow> elfHeader" where
  "header_of img = \<lparr>eh_ident = take 16 img, eh_entry = field32 24 img, eh_shoff = field32 32 img,
     eh_shentsize = field16 46 img, eh_shnum = field16 48 img\<rparr>"

definition sections_of :: "u8 list \<Rightarrow> nat list" where
  "sections_of img = map (section_offset (eh_shentsize (header_of img)) (eh_shoff (header_of img)))
     [0..<unat (eh_shnum (header_of img))]"

definition elf_acceptable :: "u8 list \<Rightarrow> bool" where
  "elf_acceptable img \<longleftrightarrow> 52 \<le> length img \<and> take 4 img = elf_magic \<and> unat (eh_shoff (header_of img)) \<le> length img \<and>
     (\<forall>i\<in>set (sections_of img). section_valid img i)"

lemma read_header_of: "52 \<le> length img \<Longrightarrow> read_header img = Inr (header_of img)"
  by (simp add: read_header_def header_of_def buf_read_def ELF_HEADER_SIZE_def field32_def field16_def drop_take)

lemma scan_file:
  assumes "length img = unat len" "unat len + 0x10028 < 2 ^ 32" "unat (eh_shoff (header_of img)) \<le> unat len"
  defines "h \<equiv> header_of img"
  shows "if \<forall>i\<in>set (sections_of img). section_valid img i
    then \<exists>rs. scan_sections (unat (eh_shnum h)) img len (eh_shentsize h) (eh_shoff h) [] = Inr (Some rs) \<and> separated rs \<and>
           pages_of rs = (\<Union>i\<in>set (sections_of img). section_pages (section_at img i))
    else scan_sections (unat (eh_shnum h)) img len (eh_shentsize h) (eh_shoff h) [] = Inr None"
proof -
  have "set (sections_of img) = section_offset (eh_shentsize h) (eh_shoff h) ` {..<unat (eh_shnum h)}"
    by (simp add: sections_of_def h_def atLeast0LessThan)
  moreover have "(\<forall>i\<in>set (sections_of img). section_valid img i) \<longleftrightarrow>
      (\<forall>k<unat (eh_shnum h). section_valid img (section_offset (eh_shentsize h) (eh_shoff h) k))"
    unfolding calculation by blast
  moreover note scan_correct [OF assms(1-3) separated_Nil, of "unat (eh_shnum h)" "eh_shentsize h"]
  ultimately show ?thesis by (simp only: h_def pages_of_Nil Un_empty_left image_image)
qed

text \<open>A file with one loaded section of four zero bytes at a given page or inside page 0.\<close>

definition demo_elf :: "u8 \<Rightarrow> u8 list" where
  "demo_elf page =
     elf_magic @ replicate 20 0 @ [0, 0x10, 0, 0] @ replicate 4 0 @ [52, 0, 0, 0] @ replicate 10 0 @ [40, 0, 1, 0, 0, 0] @
     replicate 40 0 @ replicate 4 0 @ [8, 0, 0, 0] @ replicate 4 0 @ [0x20, page, 0, 0] @ replicate 4 0 @ [4, 0, 0, 0] @
     replicate 16 0"

lemma le_word_zeros [simp]: "le_word (replicate n 0) = 0"
  by (induction n) simp_all

lemma demo_elf_facts:
  "length (demo_elf b) = 132" "header_of (demo_elf b) = \<lparr>eh_ident = elf_magic @ replicate 12 0, eh_entry = 0x1000,
     eh_shoff = 52, eh_shentsize = 40, eh_shnum = 1\<rparr>"
  "sections_of (demo_elf b) = [92]"
  "section_at (demo_elf b) 92 = \<lparr>sh_type = 8, sh_addr = le_word [0x20, b, 0, 0], sh_offset = 0, sh_size = 4\<rparr>"
proof -
  show "length (demo_elf b) = 132" by (simp add: demo_elf_def elf_magic_def)
  show h: "header_of (demo_elf b) = \<lparr>eh_ident = elf_magic @ replicate 12 0, eh_entry = 0x1000,
     eh_shoff = 52, eh_shentsize = 40, eh_shnum = 1\<rparr>"
    by (simp add: demo_elf_def elf_magic_def header_of_def field32_def field16_def)
  show "sections_of (demo_elf b) = [92]" by (simp add: sections_of_def h section_offset_def)
  show "section_at (demo_elf b) 92 = \<lparr>sh_type = 8, sh_addr = le_word [0x20, b, 0, 0], sh_offset = 0, sh_size = 4\<rparr>"
    by (simp add: demo_elf_def elf_magic_def section_at_def field32_def Let_def)
qed

lemma demo_elf_acceptable: "elf_acceptable (demo_elf b)"
  by (simp add: elf_acceptable_def demo_elf_facts section_valid_def Let_def ELF_STYPE_NOBITS_def)
    (simp add: demo_elf_def elf_magic_def)



text \<open>
  A file that is not acceptable is rejected: the loader returns false and has changed neither the
  memory nor any kernel object.
\<close>
theorem elfLoadBinary_rejects:
  assumes "length img = unat len" "unat len + 0x10028 < 2 ^ 32" "\<not> elf_acceptable img"
  shows "elfLoadBinary p img len s = Inr (s, False)"
proof (cases "52 \<le> length img \<and> take 4 img = elf_magic \<and> unat (eh_shoff (header_of img)) \<le> unat len")
  case True
  then have "\<not> (\<forall>i\<in>set (sections_of img). section_valid img i)" using assms(1,3) by (simp add: elf_acceptable_def)
  with scan_file [OF assms(1,2)] True have
    "scan_sections (unat (eh_shnum (header_of img))) img len (eh_shentsize (header_of img)) (eh_shoff (header_of img)) [] = Inr None"
    by (simp split: if_splits)
  with True assms(1) show ?thesis
    by (simp add: elfLoadBinary_def read_header_of ELF_HEADER_SIZE_def word_less_nat_alt header_of_def)
next
  case False
  show ?thesis
  proof (cases "52 \<le> length img")
    case long: True
    then have "take 4 (eh_ident (header_of img)) = take 4 img" by (simp add: header_of_def)
    with long False assms(1) show ?thesis
      by (auto simp: elfLoadBinary_def read_header_of ELF_HEADER_SIZE_def word_less_nat_alt)
  qed (use assms(1) in \<open>simp add: elfLoadBinary_def ELF_HEADER_SIZE_def word_less_nat_alt\<close>)
qed

theorem elfLoadBinary_rejects_witness: "elfLoadBinary 1 (0 # tl (demo_elf 0x10)) 132 initial_kst = Inr (initial_kst, False)"
proof (rule elfLoadBinary_rejects)
  show "\<not> elf_acceptable (0 # tl (demo_elf 0x10))" by (simp add: elf_acceptable_def elf_magic_def)
qed (simp_all add: demo_elf_facts)

lemma separated_first:
  assumes "separated rs" "0 \<in> pages_of rs"
  obtains b rs' where "rs = (0, b) # rs'"
proof (cases rs)
  case (Cons r rs')
  obtain a b where r: "r = (a, b)" by (cases r)
  have "a = 0" using assms r Cons by (auto simp: separated_Cons pages_of_def)
  with r Cons that show ?thesis by blast
qed (use assms in simp)

text \<open>
  An acceptable file with a loaded section below address \<^verbatim>\<open>0x1000\<close> stops the machine: page 0 cannot be
  allocated, and the loader does not check for it.
\<close>
theorem elf_low_section_panics:
  assumes "length img = unat len" "unat len + 0x10028 < 2 ^ 32" "elf_acceptable img"
    and "i \<in> set (sections_of img)" "0 \<in> section_pages (section_at img i)"
  shows "elfLoadBinary p img len s = Inl (SystemFailure ''Requested virtual memory address is already in use'')"
proof -
  let ?h = "header_of img"
  have ok: "52 \<le> length img" "take 4 img = elf_magic" "unat (eh_shoff ?h) \<le> unat len"
    "\<forall>i\<in>set (sections_of img). section_valid img i" using assms(1,3) by (simp_all add: elf_acceptable_def)
  with scan_file [OF assms(1,2)] obtain rs where
    rs: "scan_sections (unat (eh_shnum ?h)) img len (eh_shentsize ?h) (eh_shoff ?h) [] = Inr (Some rs)" "separated rs"
    "pages_of rs = (\<Union>i\<in>set (sections_of img). section_pages (section_at img i))" by auto
  have "0 \<in> pages_of rs" using rs(3) assms(4,5) by blast
  with rs(2) obtain b rs' where "rs = (0, b) # rs'" by (rule separated_first)
  moreover have "take 4 (eh_ident ?h) = take 4 img" by (simp add: header_of_def)
  ultimately show ?thesis using ok rs(1) assms(1)
    by (simp add: elfLoadBinary_def read_header_of ELF_HEADER_SIZE_def word_less_nat_alt with_mem0_def
        pagingAllocatePhysMemFixed_def pagingTryAllocatePhysMemFixed_def)
qed

theorem elf_low_section_panics_witness:
  "elfLoadBinary 1 (demo_elf 0) 132 initial_kst = Inl (SystemFailure ''Requested virtual memory address is already in use'')"
proof (rule elf_low_section_panics)
  show "0 \<in> section_pages (section_at (demo_elf 0) 92)" by (simp add: demo_elf_facts section_pages_def)
qed (simp_all add: demo_elf_facts demo_elf_acceptable)

end
