(* ===== verification/Interrupt.thy ===== *)
theory Interrupt
  imports Dispatch Elf
begin

text \<open>
  Interrupts and system calls (\<^verbatim>\<open>interrupt/interrupt.c\<close>). A handler gets the thread that was
  interrupted, \<open>0\<close> for the kernel. System calls find their number in \<^verbatim>\<open>eax\<close> and their arguments in the other
  registers of the thread; the result replaces \<^verbatim>\<open>eax\<close>, which is \<open>-1\<close> while the call runs. User buffers
  are mapped with \<^verbatim>\<open>ACCESS_USER_MEMORY\<close>, read or written bytewise and released again. The argument \<open>n\<close>
  bounds the recursion of the calls through the function tables (theory \<open>Dispatch\<close>).
\<close>

unbundle bit_operations_syntax

section \<open>System call numbers\<close>

datatype syscall =
    SYSCALL_YIELD | SYSCALL_EXIT_PROCESS | SYSCALL_EXIT_THREAD | SYSCALL_GET_CURRENT_PROCESS
  | SYSCALL_GET_CURRENT_THREAD | SYSCALL_GET_MONOTONIC_CLOCK | SYSCALL_GET_PROCESS_INFO | SYSCALL_EXECUTE_PROGRAM
  | SYSCALL_GET_THREADLOCAL_STORAGE_BASE | SYSCALL_GET_THREADLOCAL_STORAGE_LENGTH
  | SYSCALL_GET_PROGRAM_ARGUMENTS_BASE | SYSCALL_GET_PROGRAM_ARGUMENTS_LENGTH
  | SYSCALL_GET_ENVIRONMENT_VARIABLES_BASE | SYSCALL_GET_ENVIRONMENT_VARIABLES_LENGTH
  | SYSCALL_ALLOCATE_MEMORY | SYSCALL_RELEASE_MEMORY
  | SYSCALL_FORK | SYSCALL_CREATE_THREAD | SYSCALL_CREATE_EVENT | SYSCALL_CREATE_SEMAPHORE | SYSCALL_CREATE_PIPE
  | SYSCALL_CREATE_TIMER
  | SYSCALL_OBJECT_DUP | SYSCALL_OBJECT_DUP2 | SYSCALL_OBJECT_EXISTS | SYSCALL_OBJECT_COMPARE | SYSCALL_OBJECT_CLOSE
  | SYSCALL_OBJECT_SHUTDOWN | SYSCALL_OBJECT_GET_STATUS | SYSCALL_OBJECT_WAIT | SYSCALL_OBJECT_SIGNAL
  | SYSCALL_OBJECT_WRITE | SYSCALL_OBJECT_READ | SYSCALL_OBJECT_ATTACH_OBJ | SYSCALL_OBJECT_DETACH_OBJ
  | SYSCALL_CONSOLE_WRITE | SYSCALL_CONSOLE_WRITE_RAW | SYSCALL_CONSOLE_CLEAR | SYSCALL_CONSOLE_GET_SIZE
  | SYSCALL_CONSOLE_SET_COLOR | SYSCALL_CONSOLE_GET_COLOR | SYSCALL_CONSOLE_SET_CURSOR | SYSCALL_CONSOLE_GET_CURSOR
  | SYSCALL_CONSOLE_SET_HARDWARE_CURSOR | SYSCALL_CONSOLE_GET_HARDWARE_CURSOR | SYSCALL_CONSOLE_SET_FLAGS
  | SYSCALL_CONSOLE_GET_FLAGS
  | SYSCALL_FILESYSTEM_SEARCH_FILE | SYSCALL_FILESYSTEM_SEARCH_DIRECTORY | SYSCALL_FILESYSTEM_OPEN

definition syscall_numbers :: "(u32 \<times> syscall) list" where
  "syscall_numbers =
     [(0x000, SYSCALL_YIELD), (0x001, SYSCALL_EXIT_PROCESS), (0x002, SYSCALL_EXIT_THREAD),
      (0x003, SYSCALL_GET_CURRENT_PROCESS), (0x004, SYSCALL_GET_CURRENT_THREAD), (0x005, SYSCALL_GET_MONOTONIC_CLOCK),
      (0x006, SYSCALL_GET_PROCESS_INFO), (0x007, SYSCALL_EXECUTE_PROGRAM),
      (0x100, SYSCALL_GET_THREADLOCAL_STORAGE_BASE), (0x101, SYSCALL_GET_THREADLOCAL_STORAGE_LENGTH),
      (0x102, SYSCALL_GET_PROGRAM_ARGUMENTS_BASE), (0x103, SYSCALL_GET_PROGRAM_ARGUMENTS_LENGTH),
      (0x104, SYSCALL_GET_ENVIRONMENT_VARIABLES_BASE), (0x105, SYSCALL_GET_ENVIRONMENT_VARIABLES_LENGTH),
      (0x200, SYSCALL_ALLOCATE_MEMORY), (0x201, SYSCALL_RELEASE_MEMORY),
      (0x300, SYSCALL_FORK), (0x301, SYSCALL_CREATE_THREAD), (0x302, SYSCALL_CREATE_EVENT),
      (0x303, SYSCALL_CREATE_SEMAPHORE), (0x304, SYSCALL_CREATE_PIPE), (0x305, SYSCALL_CREATE_TIMER),
      (0x400, SYSCALL_OBJECT_DUP), (0x401, SYSCALL_OBJECT_DUP2), (0x402, SYSCALL_OBJECT_EXISTS),
      (0x403, SYSCALL_OBJECT_COMPARE), (0x404, SYSCALL_OBJECT_CLOSE), (0x405, SYSCALL_OBJECT_SHUTDOWN),
      (0x406, SYSCALL_OBJECT_GET_STATUS), (0x407, SYSCALL_OBJECT_WAIT), (0x408, SYSCALL_OBJECT_SIGNAL),
      (0x409, SYSCALL_OBJECT_WRITE), (0x40A, SYSCALL_OBJECT_READ), (0x40B, SYSCALL_OBJECT_ATTACH_OBJ),
      (0x40C, SYSCALL_OBJECT_DETACH_OBJ),
      (0x500, SYSCALL_CONSOLE_WRITE), (0x501, SYSCALL_CONSOLE_WRITE_RAW), (0x502, SYSCALL_CONSOLE_CLEAR),
      (0x503, SYSCALL_CONSOLE_GET_SIZE), (0x504, SYSCALL_CONSOLE_SET_COLOR), (0x505, SYSCALL_CONSOLE_GET_COLOR),
      (0x506, SYSCALL_CONSOLE_SET_CURSOR), (0x507, SYSCALL_CONSOLE_GET_CURSOR),
      (0x508, SYSCALL_CONSOLE_SET_HARDWARE_CURSOR), (0x509, SYSCALL_CONSOLE_GET_HARDWARE_CURSOR),
      (0x50A, SYSCALL_CONSOLE_SET_FLAGS), (0x50B, SYSCALL_CONSOLE_GET_FLAGS),
      (0x600, SYSCALL_FILESYSTEM_SEARCH_FILE), (0x601, SYSCALL_FILESYSTEM_SEARCH_DIRECTORY),
      (0x602, SYSCALL_FILESYSTEM_OPEN)]"

section \<open>Helpers of the system calls\<close>

type_synonym sysResult = "(kst \<times> intStatus) kres"

definition set_eax :: "addr \<Rightarrow> u32 \<Rightarrow> kst \<Rightarrow> kst kres" where
  "set_eax t v = upd_thread t (\<lambda>x. x\<lparr>task := (task x)\<lparr>eax := v\<rparr>\<rparr>)"

definition continue_with :: "kst kres \<Rightarrow> sysResult" where
  "continue_with m = kbind m (\<lambda>s. Inr (s, INTERRUPT_CONTINUE_EXECUTION))"

definition return_value :: "addr \<Rightarrow> (kst \<times> u32) kres \<Rightarrow> kst kres" where
  "return_value t m = kbind m (\<lambda>(s, v). set_eax t v s)"

text \<open>A handle for a new object replaces the reference of its creator.\<close>

definition publish :: "nat \<Rightarrow> addr \<Rightarrow> addr \<Rightarrow> addr \<Rightarrow> kst \<Rightarrow> kst kres" where
  "publish n t p obj s =
     (if obj = 0 then Inr s
      else kbind (return_value t (handleAllocate p obj s)) (objRelease n obj))"

definition with_user :: "addr \<Rightarrow> u32 \<Rightarrow> u32 \<Rightarrow> bool \<Rightarrow> (userMemory \<Rightarrow> kst \<Rightarrow> kst kres) \<Rightarrow> kst \<Rightarrow> kst kres" where
  "with_user p va len rw f s =
     kbind (with_mem (ACCESS_USER_MEMORY (getPagingEntry p) va len rw) s) (\<lambda>(s, k, valid).
       if \<not> valid then Inr s
       else kbind (f k s) (with_mem0 (RELEASE_USER_MEMORY k)))"

definition with_user_struct ::
  "addr \<Rightarrow> u32 \<Rightarrow> u32 \<Rightarrow> u32 \<Rightarrow> bool \<Rightarrow> (userMemory \<Rightarrow> kst \<Rightarrow> kst kres) \<Rightarrow> kst \<Rightarrow> kst kres" where
  "with_user_struct p va count struct_length rw f s =
     kbind (with_mem (ACCESS_USER_MEMORY_STRUCT (getPagingEntry p) va count struct_length rw) s) (\<lambda>(s, k, valid).
       case k of None \<Rightarrow> Inr s
       | Some k \<Rightarrow> if \<not> valid then Inr s
                   else kbind (f k s) (with_mem0 (RELEASE_USER_MEMORY k)))"

definition user_read :: "userMemory \<Rightarrow> nat \<Rightarrow> kst \<Rightarrow> u8 list kres" where
  "user_read k len s = kread len (um_addr k) (mem s)"

definition user_write :: "userMemory \<Rightarrow> u8 list \<Rightarrow> kst \<Rightarrow> kst kres" where
  "user_write k bs = with_mem0 (kwrite bs (um_addr k))"

section \<open>Information, memory and handles\<close>

definition info_bytes :: "fullProcessInfo \<Rightarrow> u8 list" where
  "info_bytes x = concat (map dword_bytes
     [processID x, pagesPhysical x, pagesShared x, pagesNoFork x, pagesReserved x, pagesOutpaged x,
      info_handleCount x, numberOfTotalThreads x, numberOfBlockedThreads x])"

definition sys_process_info :: "addr \<Rightarrow> addr \<Rightarrow> taskContext \<Rightarrow> kst \<Rightarrow> kst kres" where
  "sys_process_info t p r =
     with_user_struct p (ebx r) (ecx r) 36 True (\<lambda>k s.
       kbind (processInfo_all (ecx r) s) (\<lambda>(s, infos, count).
       kbind (user_write k (concat (map info_bytes infos)) s) (set_eax t count)))"

definition sys_fork :: "nat \<Rightarrow> addr \<Rightarrow> addr \<Rightarrow> kst \<Rightarrow> kst kres" where
  "sys_fork n t p s =
     kbind (processCreate p s) (\<lambda>(s, new_p).
       if new_p = 0 then Inr s
       else kbind (threadCreate new_p t 0 s) (\<lambda>(s, new_t).
            kbind (if new_t = 0 then Inr s
                   else kbind (return_value t (handleAllocate p new_p s)) (\<lambda>s.
                        kbind (set_eax new_t 0 s) (objRelease n new_t)))
              (objRelease n new_p)))"

definition sys_create_thread :: "nat \<Rightarrow> addr \<Rightarrow> addr \<Rightarrow> taskContext \<Rightarrow> kst \<Rightarrow> kst kres" where
  "sys_create_thread n t p r s =
     kbind (threadCreate p 0 (ebx r) s) (\<lambda>(s, new_t).
       if new_t = 0 then Inr s
       else kbind (return_value t (handleAllocate p new_t s)) (\<lambda>s.
            kbind (upd_thread new_t (\<lambda>x. x\<lparr>task := (task x)\<lparr>eax := ecx r, ebx := edx r, ecx := esi r, edx := edi r\<rparr>\<rparr>) s)
              (objRelease n new_t)))"

text \<open>\<^verbatim>\<open>SYSCALL_OBJECT_SHUTDOWN\<close>; shutting down the caller itself yields.\<close>

definition sys_shutdown :: "nat \<Rightarrow> addr \<Rightarrow> addr \<Rightarrow> taskContext \<Rightarrow> kst \<Rightarrow> sysResult" where
  "sys_shutdown n t p r s =
     kbind (handleGet p (ebx r) s) (\<lambda>obj.
     kbind (set_eax t (of_bool (obj \<noteq> 0)) s) (\<lambda>s.
     kbind (if obj \<noteq> 0 then objShutdown n obj (ecx r) s else Inr s) (\<lambda>s.
     Inr (s, if obj = t \<or> obj = p then INTERRUPT_YIELD else INTERRUPT_CONTINUE_EXECUTION))))"

text \<open>Calls that need an object and do nothing else without one.\<close>

definition with_object :: "addr \<Rightarrow> u32 \<Rightarrow> (addr \<Rightarrow> kst \<Rightarrow> kst kres) \<Rightarrow> kst \<Rightarrow> kst kres" where
  "with_object p h f s = kbind (handleGet p h s) (\<lambda>obj. if obj = 0 then Inr s else f obj s)"

definition sys_write :: "nat \<Rightarrow> addr \<Rightarrow> addr \<Rightarrow> taskContext \<Rightarrow> kst \<Rightarrow> kst kres" where
  "sys_write n t p r =
     with_object p (ebx r) (\<lambda>obj.
       with_user p (ecx r) (edx r) False (\<lambda>k s.
         kbind (user_read k (unat (edx r)) s) (\<lambda>buf.
         return_value t (objWrite n obj buf (edx r) s))))"

definition sys_read :: "nat \<Rightarrow> addr \<Rightarrow> addr \<Rightarrow> taskContext \<Rightarrow> kst \<Rightarrow> kst kres" where
  "sys_read n t p r =
     with_object p (ebx r) (\<lambda>obj.
       with_user p (ecx r) (edx r) True (\<lambda>k s.
         kbind (objRead n obj (edx r) s) (\<lambda>(s, bs).
           case bs of None \<Rightarrow> set_eax t (- 1) s
           | Some bs \<Rightarrow> kbind (user_write k bs s) (set_eax t (of_nat (length bs))))))"

definition sys_attach :: "addr \<Rightarrow> addr \<Rightarrow> taskContext \<Rightarrow> kst \<Rightarrow> kst kres" where
  "sys_attach t p r s =
     kbind (handleGet p (ebx r) s) (\<lambda>obj.
     kbind (handleGet p (ecx r) s) (\<lambda>subObj.
       if obj \<noteq> 0 \<and> subObj \<noteq> 0
       then kbind (objAttachObj obj subObj (edx r) (esi r) s) (\<lambda>(s, b). set_eax t (of_bool b) s)
       else set_eax t 0 s))"

definition sys_compare :: "addr \<Rightarrow> addr \<Rightarrow> taskContext \<Rightarrow> kst \<Rightarrow> kst kres" where
  "sys_compare t p r s =
     kbind (handleGet p (ebx r) s) (\<lambda>obj1.
     kbind (handleGet p (ecx r) s) (\<lambda>obj2.
       if obj1 \<noteq> 0 \<or> obj2 \<noteq> 0 then set_eax t (of_bool (obj1 = obj2)) s else Inr s))"

section \<open>Console and files\<close>

definition with_console :: "(console \<Rightarrow> console kres) \<Rightarrow> kst \<Rightarrow> kst kres" where
  "with_console f s = kbind (f (console s)) (\<lambda>c. Inr (s\<lparr>console := c\<rparr>))"

definition sys_console_write :: "addr \<Rightarrow> addr \<Rightarrow> taskContext \<Rightarrow> kst \<Rightarrow> kst kres" where
  "sys_console_write t p r s =
     kbind (with_mem (ACCESS_USER_MEMORY (getPagingEntry p) (ebx r) (ecx r) True) s) (\<lambda>(s, k, valid).
       if \<not> valid then Inr s
       else kbind (user_read k (unat (ecx r)) s) (\<lambda>buf.
            kbind (with_console (consoleWriteStringLen (unat (ecx r)) buf) s) (\<lambda>s.
            kbind (with_mem0 (RELEASE_USER_MEMORY k) s) (set_eax t (ecx r)))))"

fun raw_chars :: "u8 list \<Rightarrow> u16 list" where
  "raw_chars (a # b # bs) = le_word [a, b] # raw_chars bs"
| "raw_chars _ = []"

definition sys_console_write_raw :: "addr \<Rightarrow> addr \<Rightarrow> taskContext \<Rightarrow> kst \<Rightarrow> kst kres" where
  "sys_console_write_raw t p r s =
     kbind (with_mem (ACCESS_USER_MEMORY_STRUCT (getPagingEntry p) (ebx r) (ecx r) 2 True) s) (\<lambda>(s, k, valid).
       case k of None \<Rightarrow> Inr s
       | Some k \<Rightarrow>
           if \<not> valid then Inr s
           else kbind (user_read k (2 * unat (ecx r)) s) (\<lambda>buf.
                kbind (with_console (consoleWriteRawLen (unat (ecx r)) (raw_chars buf)) s) (\<lambda>s.
                kbind (with_mem0 (RELEASE_USER_MEMORY k) s) (set_eax t (ecx r)))))"

text \<open>The two search calls leave the path mapped: the source has no \<^verbatim>\<open>RELEASE_USER_MEMORY\<close> here.\<close>

definition sys_search :: "nat \<Rightarrow> addr \<Rightarrow> addr \<Rightarrow> taskContext \<Rightarrow>
    (addr \<Rightarrow> u8 list \<Rightarrow> nat \<Rightarrow> bool \<Rightarrow> kst \<Rightarrow> (kst \<times> addr) kres) \<Rightarrow> kst \<Rightarrow> kst kres" where
  "sys_search n t p r search s =
     kbind (handleGet p (ebx r) s) (\<lambda>obj.
     kbind (fileSystemIsValidDirectory obj s) (\<lambda>directory.
     kbind (with_mem (ACCESS_USER_MEMORY (getPagingEntry p) (ecx r) (edx r) True) s) (\<lambda>(s, k, valid).
       if \<not> valid then Inr s
       else kbind (user_read k (unat (edx r)) s) (\<lambda>path.
            kbind (search directory path (unat (edx r)) (esi r \<noteq> 0) s) (\<lambda>(s, new_obj).
            publish n t p new_obj s)))))"

definition sys_open :: "nat \<Rightarrow> addr \<Rightarrow> addr \<Rightarrow> taskContext \<Rightarrow> kst \<Rightarrow> kst kres" where
  "sys_open n t p r s =
     kbind (handleGet p (ebx r) s) (\<lambda>obj.
     kbind (fileSystemIsValidFile obj s) (\<lambda>f.
       if f \<noteq> 0 then kbind (fileOpen f s) (\<lambda>(s, h). publish n t p h s)
       else kbind (fileSystemIsValidDirectory obj s) (\<lambda>d.
            if d \<noteq> 0 then kbind (directoryOpen d s) (\<lambda>(s, h). publish n t p h s) else Inr s)))"

section \<open>Executing a program\<close>

text \<open>The kernel mappings every process has.\<close>

definition map_kernel_pages :: "addr \<Rightarrow> kst \<Rightarrow> kst kres" where
  "map_kernel_pages p s =
     kbind (mapFromKernel p USERMODE_KERNELSTACK_ADDRESS (kernelStack s) 1 True s) (\<lambda>s.
     kbind (mapFromKernel p USERMODE_GDT_ADDRESS USERMODE_GDT_ADDRESS GDT_MAX_PAGES False s) (\<lambda>s.
     kbind (mapFromKernel p USERMODE_IDT_ADDRESS USERMODE_IDT_ADDRESS 1 False s) (\<lambda>s.
     kbind (mapFromKernel p USERMODE_INTJMP_ADDRESS (intJmpTable_user s) 1 False s) (\<lambda>s.
     mapFromKernel p USERMODE_TASK_ADDRESS USERMODE_TASK_ADDRESS 1 False s))))"

text \<open>Copy a block of the old address space into fresh pages of the new one; the result is the address and
  the length in pages.\<close>

definition copy_block :: "addr \<Rightarrow> addr \<Rightarrow> u32 \<Rightarrow> u32 \<Rightarrow> kst \<Rightarrow> (kst \<times> u32 \<times> u32) kres" where
  "copy_block p old_p va len s =
     kbind (with_mem (ACCESS_USER_MEMORY (getPagingEntry old_p) va len True) s) (\<lambda>(s, k2, valid).
       if \<not> valid then Inr (s, 0, 0)
       else let pages = drop_bit 12 (len + 0xFFF) in
            kbind (with_mem (pagingTryAllocatePhysMem (getPagingEntry p) pages True True) s) (\<lambda>(s, base).
            kbind (if base = 0 then Inr s
                   else with_user p base len True (\<lambda>k s.
                          kbind (user_read k2 (unat len) s) (\<lambda>bs. user_write k bs s)) s) (\<lambda>s.
            kbind (with_mem0 (RELEASE_USER_MEMORY k2) s) (\<lambda>s.
            Inr (s, base, pages)))))"

text \<open>\<^verbatim>\<open>LL_FOR_EACH_SAFE\<close> over the threads of the process, shutting down all but the caller.\<close>

primrec shutdown_others :: "addr list \<Rightarrow> nat \<Rightarrow> addr \<Rightarrow> addr \<Rightarrow> kst \<Rightarrow> kst kres" where
  "shutdown_others [] n t p s = Inr s"
| "shutdown_others (old_t # ts) n t p s =
     kbind (get_process p s) (\<lambda>x.
       if old_t \<notin> set (threads x) then Inl StaleIteration
       else kbind (if t \<noteq> old_t then objShutdown n old_t (- 3) s else Inr s) (shutdown_others ts n t p))"

text \<open>The new program starts with a fresh stack, thread-local storage and registers.\<close>

definition restart_thread :: "addr \<Rightarrow> addr \<Rightarrow> kst \<Rightarrow> kst kres" where
  "restart_thread t p s =
     (let stackLength = drop_bit 12 DEFAULT_STACK_SIZE; tlbLength = drop_bit 12 DEFAULT_TLB_SIZE in
      kbind (upd_thread t (\<lambda>x. x\<lparr>fpuInitialized := False, user_ring3StackLength := stackLength\<rparr>) s) (\<lambda>s.
      kbind (with_mem (pagingAllocatePhysMem (getPagingEntry p) stackLength True True) s) (\<lambda>(s, stack).
      kbind (with_mem (pagingAllocatePhysMem (getPagingEntry p) tlbLength True True) s) (\<lambda>(s, tlb).
      kbind (with_mem (pagingGetPhysMem (getPagingEntry 0) (pageDirectory (procMem (mem s) p))) s) (\<lambda>(s, frame).
      kbind (get_process p s) (\<lambda>x.
      upd_thread t (\<lambda>y. y\<lparr>user_ring3StackBase := stack, user_threadLocalLength := tlbLength,
        user_threadLocalBase := tlb,
        task := initial_task s (word_of_nat frame) (entryPoint x) stack stackLength\<rparr>) s))))))"

text \<open>\<^verbatim>\<open>SYSCALL_EXECUTE_PROGRAM\<close>. The copy \<^verbatim>\<open>old_p\<close> on the stack is a process at an address no object has;
  nothing is allocated there before the call has ended.\<close>

definition sys_execute :: "nat \<Rightarrow> addr \<Rightarrow> addr \<Rightarrow> taskContext \<Rightarrow> kst \<Rightarrow> kst kres" where
  "sys_execute n t p r s =
     kbind (handleGet p (ebx r) s) (\<lambda>obj.
     kbind (fileSystemIsValidFile obj s) (\<lambda>f.
       if f = 0 then Inr s
       else
     kbind (get_process p s) (\<lambda>x.
     kbind (get_thread t s) (\<lambda>th.
     kbind (get_file f s) (\<lambda>fl.
     let old_p = heapNext s; old = procMem (mem s) p in
     kassert (pageDirectory old \<noteq> 0) (
     kassert (\<not> th_blocked th) (
     kassert (th_process th = p) (
     let s = s\<lparr>mem := set_proc p (old\<lparr>pageDirectory := 0\<rparr>) (set_proc old_p old (mem s))\<rparr> in
     kbind (with_mem0 (pagingAllocProcessPageTable p) s) (\<lambda>s.
     kbind (map_kernel_pages p s) (\<lambda>s.
     kbind (elfLoadBinary p (case f_buffer fl of None \<Rightarrow> [] | Some b \<Rightarrow> b) (f_size fl) s) (\<lambda>(s, loaded).
       if \<not> loaded
       then kbind (with_mem0 (pagingReleaseProcessPageTable p) s) (\<lambda>s.
            upd_process p (\<lambda>y. y\<lparr>entryPoint := entryPoint x\<rparr>) (s\<lparr>mem := set_proc p old (mem s)\<rparr>))
       else
     kbind (copy_block p old_p (ecx r) (edx r) s) (\<lambda>(s, base, pages).
     kbind (upd_process p (\<lambda>y. y\<lparr>user_programArgumentsBase := base, user_programArgumentsLength := pages\<rparr>) s) (\<lambda>s.
     kbind (copy_block p old_p (esi r) (edi r) s) (\<lambda>(s, base, pages).
     kbind (upd_process p (\<lambda>y. y\<lparr>user_environmentVariablesBase := base, user_environmentVariablesLength := pages\<rparr>) s) (\<lambda>s.
     kbind (with_mem0 (pagingReleaseProcessPageTable old_p) s) (\<lambda>s.
     kbind (get_process p s) (\<lambda>y.
     kbind (shutdown_others (threads y) n t p s)
       (restart_thread t p))))))))))))))))))"

section \<open>The handlers\<close>

text \<open>Addresses and lengths of the thread-local storage, the arguments and the environment, and memory.\<close>

definition syscall_storage :: "syscall \<Rightarrow> addr \<Rightarrow> addr \<Rightarrow> thread \<Rightarrow> kst \<Rightarrow> sysResult" where
  "syscall_storage call t p th s =
     (let r = task th in case call of
       SYSCALL_GET_THREADLOCAL_STORAGE_BASE \<Rightarrow> continue_with (set_eax t (user_threadLocalBase th) s)
     | SYSCALL_GET_THREADLOCAL_STORAGE_LENGTH \<Rightarrow>
         continue_with (set_eax t (push_bit 12 (user_threadLocalLength th)) s)
     | SYSCALL_GET_PROGRAM_ARGUMENTS_BASE \<Rightarrow>
         continue_with (kbind (get_process p s) (\<lambda>x. set_eax t (user_programArgumentsBase x) s))
     | SYSCALL_GET_PROGRAM_ARGUMENTS_LENGTH \<Rightarrow>
         continue_with (kbind (get_process p s) (\<lambda>x. set_eax t (push_bit 12 (user_programArgumentsLength x)) s))
     | SYSCALL_GET_ENVIRONMENT_VARIABLES_BASE \<Rightarrow>
         continue_with (kbind (get_process p s) (\<lambda>x. set_eax t (user_environmentVariablesBase x) s))
     | SYSCALL_GET_ENVIRONMENT_VARIABLES_LENGTH \<Rightarrow>
         continue_with (kbind (get_process p s) (\<lambda>x. set_eax t (push_bit 12 (user_environmentVariablesLength x)) s))
     | SYSCALL_ALLOCATE_MEMORY \<Rightarrow>
         continue_with (return_value t (with_mem (pagingTryAllocatePhysMem (getPagingEntry p) (ebx r) True True) s))
     | SYSCALL_RELEASE_MEMORY \<Rightarrow>
         continue_with (kbind (with_mem (pagingTryReleaseUserMem (getPagingEntry p) (ebx r) (unat (ecx r))) s)
         (\<lambda>(s, b). set_eax t (of_bool b) s))
     | _ \<Rightarrow> Inr (s, INTERRUPT_UNHANDLED))"

text \<open>New objects.\<close>

definition syscall_create :: "nat \<Rightarrow> syscall \<Rightarrow> addr \<Rightarrow> addr \<Rightarrow> taskContext \<Rightarrow> kst \<Rightarrow> sysResult" where
  "syscall_create n call t p r s =
     (case call of
       SYSCALL_FORK \<Rightarrow> continue_with (sys_fork n t p s)
     | SYSCALL_CREATE_THREAD \<Rightarrow> continue_with (sys_create_thread n t p r s)
     | SYSCALL_CREATE_EVENT \<Rightarrow> continue_with (let (s, e) = eventCreate (ebx r \<noteq> 0) s in publish n t p e s)
     | SYSCALL_CREATE_SEMAPHORE \<Rightarrow> continue_with (let (s, e) = semaphoreCreate (ebx r) s in publish n t p e s)
     | SYSCALL_CREATE_PIPE \<Rightarrow> continue_with (let (s, e) = pipeCreate s in publish n t p e s)
     | SYSCALL_CREATE_TIMER \<Rightarrow> continue_with (let (s, e) = timerCreate (ebx r \<noteq> 0) s in publish n t p e s)
     | _ \<Rightarrow> Inr (s, INTERRUPT_UNHANDLED))"

text \<open>Handles and operations on objects.\<close>

definition syscall_object :: "nat \<Rightarrow> syscall \<Rightarrow> addr \<Rightarrow> addr \<Rightarrow> taskContext \<Rightarrow> kst \<Rightarrow> sysResult" where
  "syscall_object n call t p r s =
     (case call of
       SYSCALL_OBJECT_DUP \<Rightarrow>
         continue_with (with_object p (ebx r) (\<lambda>obj s. return_value t (handleAllocate p obj s)) s)
     | SYSCALL_OBJECT_DUP2 \<Rightarrow>
         continue_with (with_object p (ebx r) (\<lambda>obj s.
         kbind (handleSet (objRelease n) p (ecx r) obj s) (\<lambda>(s, b). set_eax t (of_bool b) s)) s)
     | SYSCALL_OBJECT_EXISTS \<Rightarrow>
         continue_with (kbind (handleGet p (ebx r) s) (\<lambda>obj. set_eax t (of_bool (obj \<noteq> 0)) s))
     | SYSCALL_OBJECT_COMPARE \<Rightarrow> continue_with (sys_compare t p r s)
     | SYSCALL_OBJECT_CLOSE \<Rightarrow>
         continue_with (kbind (handleRelease (objRelease n) p (ebx r) s) (\<lambda>(s, b). set_eax t (of_bool b) s))
     | SYSCALL_OBJECT_SHUTDOWN \<Rightarrow> sys_shutdown n t p r s
     | SYSCALL_OBJECT_GET_STATUS \<Rightarrow>
         continue_with (with_object p (ebx r) (\<lambda>obj s. kbind (objGetStatus obj (ecx r) s) (\<lambda>v. set_eax t v s)) s)
     | SYSCALL_OBJECT_WAIT \<Rightarrow>
         kbind (handleGet p (ebx r) s) (\<lambda>obj.
         if obj = 0 then Inr (s, INTERRUPT_CONTINUE_EXECUTION) else threadWait (objWait n) t obj (ecx r) s)
     | SYSCALL_OBJECT_SIGNAL \<Rightarrow>
         continue_with (kbind (handleGet p (ebx r) s) (\<lambda>obj.
         kbind (set_eax t (of_bool (obj \<noteq> 0)) s) (\<lambda>s.
         if obj \<noteq> 0 then objSignal n obj (ecx r) s else Inr s)))
     | SYSCALL_OBJECT_WRITE \<Rightarrow> continue_with (sys_write n t p r s)
     | SYSCALL_OBJECT_READ \<Rightarrow> continue_with (sys_read n t p r s)
     | SYSCALL_OBJECT_ATTACH_OBJ \<Rightarrow> continue_with (sys_attach t p r s)
     | SYSCALL_OBJECT_DETACH_OBJ \<Rightarrow>
         continue_with (with_object p (ebx r) (\<lambda>obj s.
         kbind (objDetachObj n obj (ecx r) s) (\<lambda>(s, b). set_eax t (of_bool b) s)) s)
     | _ \<Rightarrow> Inr (s, INTERRUPT_UNHANDLED))"

text \<open>The console.\<close>

definition syscall_console :: "syscall \<Rightarrow> addr \<Rightarrow> addr \<Rightarrow> taskContext \<Rightarrow> kst \<Rightarrow> sysResult" where
  "syscall_console call t p r s =
     (case call of
       SYSCALL_CONSOLE_WRITE \<Rightarrow> continue_with (sys_console_write t p r s)
     | SYSCALL_CONSOLE_WRITE_RAW \<Rightarrow> continue_with (sys_console_write_raw t p r s)
     | SYSCALL_CONSOLE_CLEAR \<Rightarrow> continue_with (with_console consoleClear s)
     | SYSCALL_CONSOLE_GET_SIZE \<Rightarrow> continue_with (set_eax t consoleGetSize s)
     | SYSCALL_CONSOLE_SET_COLOR \<Rightarrow>
         continue_with (with_console (\<lambda>c. Inr (consoleSetColor (ucast (ebx r)) c)) s)
     | SYSCALL_CONSOLE_GET_COLOR \<Rightarrow> continue_with (set_eax t (ucast (consoleGetColor (console s))) s)
     | SYSCALL_CONSOLE_SET_CURSOR \<Rightarrow>
         continue_with (with_console (\<lambda>c. Inr (fst (consoleSetCursorPos (ucast (ebx r)) (ucast (ecx r)) c))) s)
     | SYSCALL_CONSOLE_GET_CURSOR \<Rightarrow> continue_with (set_eax t (consoleGetCursorPos (console s)) s)
     | SYSCALL_CONSOLE_SET_HARDWARE_CURSOR \<Rightarrow>
         continue_with (with_console (\<lambda>c. Inr (consoleSetHardwareCursor (ucast (ebx r)) (ucast (ecx r)) c)) s)
     | SYSCALL_CONSOLE_GET_HARDWARE_CURSOR \<Rightarrow> continue_with (set_eax t (consoleGetHardwareCursor (console s)) s)
     | SYSCALL_CONSOLE_SET_FLAGS \<Rightarrow> continue_with (with_console (\<lambda>c. Inr (consoleSetFlags (ebx r) c)) s)
     | SYSCALL_CONSOLE_GET_FLAGS \<Rightarrow> continue_with (set_eax t (consoleGetFlags (console s)) s)
     | _ \<Rightarrow> Inr (s, INTERRUPT_UNHANDLED))"

text \<open>Files.\<close>

definition syscall_filesystem :: "nat \<Rightarrow> syscall \<Rightarrow> addr \<Rightarrow> addr \<Rightarrow> taskContext \<Rightarrow> kst \<Rightarrow> sysResult" where
  "syscall_filesystem n call t p r s =
     (case call of
       SYSCALL_FILESYSTEM_SEARCH_FILE \<Rightarrow>
         continue_with (sys_search n t p r (fileSystemSearchFile (objRelease n)) s)
     | SYSCALL_FILESYSTEM_SEARCH_DIRECTORY \<Rightarrow> continue_with (sys_search n t p r fileSystemSearchDirectory s)
     | SYSCALL_FILESYSTEM_OPEN \<Rightarrow> continue_with (sys_open n t p r s)
     | _ \<Rightarrow> Inr (s, INTERRUPT_UNHANDLED))"

definition interrupt_0x80 :: "nat \<Rightarrow> addr \<Rightarrow> kst \<Rightarrow> sysResult" where
  "interrupt_0x80 n t s =
     (if t = 0 then Inr (s, INTERRUPT_UNHANDLED)
      else kbind (get_thread t s) (\<lambda>th.
        let r = task th; p = th_process th in
        kbind (set_eax t (- 1) s) (\<lambda>s.
        case map_of syscall_numbers (eax r) of
          None \<Rightarrow> Inr (s, INTERRUPT_UNHANDLED)
        | Some call \<Rightarrow> (case call of
            SYSCALL_YIELD \<Rightarrow> kbind (set_eax t 0 s) (\<lambda>s. Inr (s, INTERRUPT_YIELD))
          | SYSCALL_EXIT_PROCESS \<Rightarrow> Inr (s, INTERRUPT_EXIT_PROCESS)
          | SYSCALL_EXIT_THREAD \<Rightarrow> Inr (s, INTERRUPT_EXIT_THREAD)
          | SYSCALL_GET_CURRENT_PROCESS \<Rightarrow> continue_with (return_value t (handleAllocate p p s))
          | SYSCALL_GET_CURRENT_THREAD \<Rightarrow> continue_with (return_value t (handleAllocate p t s))
          | SYSCALL_GET_MONOTONIC_CLOCK \<Rightarrow> continue_with (set_eax t (ucast (timerGetTimestamp s)) s)
          | SYSCALL_GET_PROCESS_INFO \<Rightarrow> continue_with (sys_process_info t p r s)
          | SYSCALL_EXECUTE_PROGRAM \<Rightarrow> continue_with (sys_execute n t p r s)
          | _ \<Rightarrow>
              if eax r < 0x300 then syscall_storage call t p th s
              else if eax r < 0x400 then syscall_create n call t p r s
              else if eax r < 0x500 then syscall_object n call t p r s
              else if eax r < 0x600 then syscall_console call t p r s
              else syscall_filesystem n call t p r s))))"

text \<open>The coprocessor belongs to \<open>lastFPUthread\<close>; the first use by another thread raises this exception.
  \<^verbatim>\<open>frstor\<close> loads a saved state, with the pending exceptions masked first.\<close>

definition mask_status :: "fpuContext \<Rightarrow> fpuContext" where
  "mask_status f = f\<lparr>statusWord := statusWord f AND (controlWord f OR 0xFF80)\<rparr>"

definition interrupt_0x07 :: "addr \<Rightarrow> kst \<Rightarrow> sysResult" where
  "interrupt_0x07 t s =
     (if t = 0 then Inr (s, INTERRUPT_UNHANDLED)
      else if t = lastFPUthread s then Inr (s, INTERRUPT_CONTINUE_EXECUTION)
      else kbind (if lastFPUthread s \<noteq> 0 then fnsave (lastFPUthread s) s else Inr s) (\<lambda>s.
           kbind (get_thread t s) (\<lambda>x.
           kbind (if fpuInitialized x
                  then kbind (upd_thread t (\<lambda>x. x\<lparr>fpu := mask_status (fpu x)\<rparr>) s) (\<lambda>s.
                       Inr (s\<lparr>hwFpu := mask_status (fpu x)\<rparr>))
                  else upd_thread t (\<lambda>x. x\<lparr>fpuInitialized := True\<rparr>) (s\<lparr>hwFpu := hwFpuInit s\<rparr>)) (\<lambda>s.
           Inr (s\<lparr>lastFPUthread := t\<rparr>, INTERRUPT_CONTINUE_EXECUTION)))))"

definition interrupt_0x10 :: "addr \<Rightarrow> kst \<Rightarrow> sysResult" where
  "interrupt_0x10 t s =
     (if t = 0 then Inr (s, INTERRUPT_UNHANDLED)
      else kassert (t = lastFPUthread s) (
           kbind (fnsave t s) (\<lambda>s. Inr (s, INTERRUPT_UNHANDLED))))"

text \<open>The table of handlers. A handler gets the number of the interrupt, the error code, the register \<^verbatim>\<open>cr2\<close>
  and the thread.\<close>

type_synonym interrupt_callback = "u32 \<Rightarrow> u32 \<Rightarrow> u32 \<Rightarrow> addr \<Rightarrow> kst \<Rightarrow> sysResult"
type_synonym interruptTable = "u32 \<Rightarrow> interrupt_callback option"

definition IDT_MAX_COUNT :: u32 where "IDT_MAX_COUNT = 256"

definition page_fault :: interrupt_callback where
  "page_fault interrupt error cr2 t s =
     kbind (if t = 0 then Inr 0 else kbind (get_thread t s) (\<lambda>x. Inr (th_process x))) (\<lambda>p.
     with_mem (interrupt_0x0E p cr2 error) s)"

definition initial_interruptTable :: "nat \<Rightarrow> interruptTable" where
  "initial_interruptTable n = (\<lambda>i.
     if i = 0x07 then Some (\<lambda>_ _ _. interrupt_0x07)
     else if i = 0x0E then Some page_fault
     else if i = 0x10 then Some (\<lambda>_ _ _. interrupt_0x10)
     else if i = 0x80 then Some (\<lambda>_ _ _. interrupt_0x80 n)
     else None)"

definition dispatchInterrupt :: "interruptTable \<Rightarrow> interrupt_callback" where
  "dispatchInterrupt table interrupt error cr2 t s =
     (if interrupt \<ge> IDT_MAX_COUNT then Inl MemFault
      else kbind (case table interrupt of None \<Rightarrow> Inr (s, INTERRUPT_UNHANDLED) | Some f \<Rightarrow> f interrupt error cr2 t s)
             (\<lambda>(s, st).
           if t \<noteq> 0 \<and> st = INTERRUPT_UNHANDLED
           then kbind (upd_thread t (\<lambda>x. x\<lparr>task := (task x)\<lparr>ebx := - 2\<rparr>\<rparr>) s) (\<lambda>s. Inr (s, INTERRUPT_EXIT_PROCESS))
           else Inr (s, st)))"

definition interruptReserve :: "u32 \<Rightarrow> interrupt_callback \<Rightarrow> interruptTable \<Rightarrow> (interruptTable \<times> bool) kres" where
  "interruptReserve interrupt callback table =
     kassert (interrupt < IDT_MAX_COUNT) (
     Inr (case table interrupt of Some _ \<Rightarrow> (table, False) | None \<Rightarrow> (table(interrupt \<mapsto> callback), True)))"

definition interruptFree :: "u32 \<Rightarrow> interruptTable \<Rightarrow> interruptTable kres" where
  "interruptFree interrupt table = (if interrupt \<ge> IDT_MAX_COUNT then Inl MemFault else Inr (table(interrupt := None)))"

section \<open>The coprocessor is switched without loss\<close>

text \<open>The state of the coprocessor as a thread sees it: the registers if it used the coprocessor last, what
  will be restored if it used it before, and otherwise the initial state.\<close>

definition fpu_of :: "addr \<Rightarrow> kst \<Rightarrow> fpuContext option" where
  "fpu_of a s = (if a = 0 then None else case objs s a of
       Some (Thread x) \<Rightarrow> Some (if lastFPUthread s = a then hwFpu s
         else if fpuInitialized x then mask_status (fpu x) else hwFpuInit s)
     | _ \<Rightarrow> None)"

definition fpu_ok :: "kst \<Rightarrow> bool" where
  "fpu_ok s \<longleftrightarrow> (lastFPUthread s = 0 \<or>
     (\<exists>x. objs s (lastFPUthread s) = Some (Thread x) \<and> fpuInitialized x))"

lemma mask_status_idem [simp]: "mask_status (mask_status f) = mask_status f"
  by (cases f) (simp add: mask_status_def and.assoc)

lemma upd_thread_simps:
  assumes "a \<noteq> 0" "objs s a = Some (Thread x)"
  shows "upd_thread a f s = Inr (s\<lparr>objs := (objs s)(a \<mapsto> Thread (f x))\<rparr>)"
  using assms get_thread_iff [of a s x] by (simp add: upd_thread_def set_thread_def set_obj_def)

text \<open>What the handler leaves behind, once the state of the last user has been saved in \<open>u\<close>.\<close>

definition fpu_given :: "addr \<Rightarrow> thread \<Rightarrow> kst \<Rightarrow> kst" where
  "fpu_given t x u = u\<lparr>objs := (objs u)(t \<mapsto> Thread (x\<lparr>fpu := if fpuInitialized x then mask_status (fpu x) else fpu x,
     fpuInitialized := True\<rparr>)), hwFpu := if fpuInitialized x then mask_status (fpu x) else hwFpuInit u, lastFPUthread := t\<rparr>"

definition fpu_saved :: "kst \<Rightarrow> kst" where
  "fpu_saved s = (case objs s (lastFPUthread s) of
       Some (Thread y) \<Rightarrow> s\<lparr>objs := (objs s)(lastFPUthread s \<mapsto> Thread (y\<lparr>fpu := hwFpu s\<rparr>)), hwFpu := hwFpuInit s\<rparr>
     | _ \<Rightarrow> s)"

lemma interrupt_0x07_given:
  assumes "fpu_ok s" "t \<noteq> 0" "objs s t = Some (Thread x)" "t \<noteq> lastFPUthread s"
  shows "interrupt_0x07 t s =
    Inr (fpu_given t x (if lastFPUthread s = 0 then s else fpu_saved s), INTERRUPT_CONTINUE_EXECUTION)"
proof -
  define u where "u = (if lastFPUthread s = 0 then s else fpu_saved s)"
  have save: "(if lastFPUthread s \<noteq> 0 then fnsave (lastFPUthread s) s else Inr s) = Inr u"
    using assms(1) by (auto simp: u_def fpu_ok_def fnsave_def fpu_saved_def upd_thread_simps)
  have x: "objs u t = Some (Thread x)"
    using assms by (auto simp: u_def fpu_saved_def split: option.splits kobj.splits)
  then have get: "get_thread t u = Inr x" using assms(2) by (simp add: get_thread_iff)
  have "interrupt_0x07 t s = Inr (fpu_given t x u, INTERRUPT_CONTINUE_EXECUTION)"
  proof (cases "fpuInitialized x")
    case True
    then have upd: "x\<lparr>fpu := f, fpuInitialized := True\<rparr> = x\<lparr>fpu := f\<rparr>" for f by (cases x) simp
    have "fpu_given t x u = u\<lparr>objs := (objs u)(t \<mapsto> Thread (x\<lparr>fpu := mask_status (fpu x)\<rparr>)),
        hwFpu := mask_status (fpu x), lastFPUthread := t\<rparr>"
      unfolding fpu_given_def if_P [OF True] upd ..
    with True assms(2,4) x show ?thesis
      unfolding interrupt_0x07_def save by (simp add: get upd_thread_simps)
  next
    case False
    with assms(2,4) x show ?thesis
      unfolding interrupt_0x07_def save by (simp add: get upd_thread_simps fpu_given_def)
  qed
  then show ?thesis by (simp only: u_def)
qed

lemma fpu_of_given:
  assumes "t \<noteq> lastFPUthread u" "objs u t = Some (Thread x)"
  shows "t \<noteq> 0 \<Longrightarrow> Some (hwFpu (fpu_given t x u)) = fpu_of t u" "fpu_ok (fpu_given t x u)"
    "a \<noteq> t \<Longrightarrow> a \<noteq> lastFPUthread u \<Longrightarrow> fpu_of a (fpu_given t x u) = fpu_of a u"
  using assms by (auto simp: fpu_given_def fpu_of_def fpu_ok_def split: option.splits kobj.splits)


text \<open>Operations that touch neither the coprocessor nor a thread.\<close>

definition fpu_kept :: "kst \<Rightarrow> kst \<Rightarrow> bool" where
  "fpu_kept u v \<longleftrightarrow> lastFPUthread v = lastFPUthread u \<and> hwFpu v = hwFpu u \<and> hwFpuInit v = hwFpuInit u \<and>
     (\<forall>a x. objs u a = Some (Thread x) \<longrightarrow> objs v a = Some (Thread x))"

lemma fpu_kept_steps:
  "ll_add_tail_obj q a u = Inr v \<Longrightarrow> fpu_kept u v"
  "upd_process p f u = Inr v \<Longrightarrow> fpu_kept u v"
  "with_mem g u = Inr (v, r) \<Longrightarrow> fpu_kept u v"
  "objectAddRef a u = Inr v \<Longrightarrow> fpu_kept u v"
  "fpu_kept u (u\<lparr>queue := qs\<rparr>)"
  by (auto simp: fpu_kept_def ll_add_tail_obj_def link_tail_def upd_process_def get_process_def object_at_def set_obj_def
      with_mem_def objectAddRef_def kbind_eq_Inr split: if_splits option.splits kobj.splits prod.splits)

lemma fpu_kept_trans [trans]: "fpu_kept u v \<Longrightarrow> fpu_kept v w \<Longrightarrow> fpu_kept u w"
  by (simp add: fpu_kept_def)

lemma get_thread_simps: "a \<noteq> 0 \<Longrightarrow> objs s a = Some (Thread x) \<Longrightarrow> get_thread a s = Inr x"
  by (simp add: get_thread_iff)

lemma copy_fpu_result:
  assumes "a \<noteq> t" "t \<noteq> 0" "a \<noteq> 0" "lastFPUthread s = t" "objs s t = Some (Thread x)" "objs s a = Some (Thread y)"
  shows "copy_fpu a t s = Inr (s\<lparr>objs := (objs s)(t \<mapsto> Thread (x\<lparr>fpu := hwFpu s\<rparr>), a \<mapsto> Thread (y\<lparr>fpu := hwFpu s\<rparr>)),
    hwFpu := hwFpuInit s\<rparr>)"
  using assms by (simp add: copy_fpu_def fnsave_def upd_thread_simps get_thread_simps fun_upd_twist)

lemma copy_thread_fpu:
  assumes "copy_thread a p t s = Inr s'" "a \<noteq> t" "t \<noteq> 0" "a \<noteq> 0" "lastFPUthread s = t"
    and "objs s t = Some (Thread x)" "fpuInitialized x" "objs s a = Some (Thread y)"
  shows "lastFPUthread s' = t \<and> hwFpu s' = hwFpuInit s \<and> hwFpuInit s' = hwFpuInit s \<and>
    objs s' t = Some (Thread (x\<lparr>fpu := hwFpu s\<rparr>)) \<and>
    (\<exists>y. objs s' a = Some (Thread y) \<and> fpuInitialized y \<and> fpu y = hwFpu s)"
proof -
  let ?get = "with_mem (pagingGetPhysMem (getPagingEntry 0) (pageDirectory (procMem (mem s) p))) s"
  obtain u frame where u: "?get = Inr (u, frame)"
    using assms(1,3,6) by (auto simp: copy_thread_def get_thread_simps kbind_eq_Inr)
  then have fr: "objs u = objs s" "lastFPUthread u = lastFPUthread s" "hwFpu u = hwFpu s" "hwFpuInit u = hwFpuInit s"
    by (auto simp: with_mem_def kbind_eq_Inr)
  define y' where "y' = y\<lparr>fpuInitialized := True, user_ring3StackLength := user_ring3StackLength x,
    user_ring3StackBase := user_ring3StackBase x, user_threadLocalLength := user_threadLocalLength x,
    user_threadLocalBase := user_threadLocalBase x, task := (task x)\<lparr>t_cr3 := push_bit 12 (word_of_nat frame)\<rparr>\<rparr>"
  have "copy_fpu a t (u\<lparr>objs := (objs s)(a \<mapsto> Thread y')\<rparr>) = Inr s'"
    using assms(1,3,4,6,7,8) u fr by (simp add: copy_thread_def get_thread_simps upd_thread_simps y'_def split: if_splits)
  moreover have "copy_fpu a t (u\<lparr>objs := (objs s)(a \<mapsto> Thread y')\<rparr>) =
      Inr (u\<lparr>objs := (objs s)(t \<mapsto> Thread (x\<lparr>fpu := hwFpu s\<rparr>), a \<mapsto> Thread (y'\<lparr>fpu := hwFpu s\<rparr>)), hwFpu := hwFpuInit s\<rparr>)"
    using assms(2-6) fr by (subst copy_fpu_result [where x = x and y = y']) (simp_all add: fun_upd_twist)
  ultimately have "s' = u\<lparr>objs := (objs s)(t \<mapsto> Thread (x\<lparr>fpu := hwFpu s\<rparr>), a \<mapsto> Thread (y'\<lparr>fpu := hwFpu s\<rparr>)),
      hwFpu := hwFpuInit s\<rparr>" by simp
  with fr assms(2,5) show ?thesis by (simp add: y'_def)
qed

text \<open>
  Forking a thread that owns the coprocessor gives the child the state of the parent, but leaves the
  parent itself with an initialized coprocessor: its own state is lost.
\<close>
theorem fork_loses_fpu:
  assumes "threadCreate p t entry s = Inr (s', a)" "t \<noteq> 0" "lastFPUthread s = t" "t < heapNext s"
    and "objs s t = Some (Thread x)" "fpuInitialized x"
  shows "fpu_of t s = Some (hwFpu s) \<and> fpu_of t s' = Some (hwFpuInit s) \<and> fpu_of a s' = Some (mask_status (hwFpu s))"
proof -
  let ?a = "heapNext s"
  let ?init = "objectInit ?a (Thread (blank_thread p)) (s\<lparr>heapNext := Suc ?a\<rparr>)"
  obtain s1 s2 s3 s4 where st: "ll_add_tail_obj ThreadList ?a ?init = Inr s1"
    "upd_process p (\<lambda>x. x\<lparr>threads := threads x @ [?a]\<rparr>) (s1\<lparr>queue := (queue s1)(Waiters ?a := [])\<rparr>) = Inr s2"
    "copy_thread ?a p t s2 = Inr s3" "objectAddRef ?a s3 = Inr s4" "objectAddRef p s4 = Inr s'" and a: "a = ?a"
    using assms(1,2,4) by (auto simp: threadCreate_def heapAlloc_obj_def Let_def kbind_eq_Inr)
  have at: "?a \<noteq> t" "?a \<noteq> 0" using assms(4) by simp_all
  have "fpu_kept ?init s2"
    using fpu_kept_steps(1) [OF st(1)] fpu_kept_steps(5) [of s1] fpu_kept_steps(2) [OF st(2)] by (blast intro: fpu_kept_trans)
  moreover have "objs ?init t = Some (Thread x)" "objs ?init ?a = Some (Thread (blank_thread p))" "lastFPUthread ?init = t"
    "hwFpu ?init = hwFpu s" "hwFpuInit ?init = hwFpuInit s"
    using at assms(3,5) by (simp_all add: objectInit_def set_obj_def)
  ultimately have "objs s2 t = Some (Thread x)" "objs s2 ?a = Some (Thread (blank_thread p))" "lastFPUthread s2 = t"
    and hw: "hwFpu s2 = hwFpu s" "hwFpuInit s2 = hwFpuInit s"
    by (auto simp: fpu_kept_def)
  from copy_thread_fpu [OF st(3) at(1) assms(2) at(2) this(3,1) assms(6) this(2)] hw obtain y where
    "lastFPUthread s3 = t" "hwFpu s3 = hwFpuInit s" "hwFpuInit s3 = hwFpuInit s"
    "objs s3 t = Some (Thread (x\<lparr>fpu := hwFpu s\<rparr>))" "objs s3 ?a = Some (Thread y)" "fpuInitialized y" "fpu y = hwFpu s"
    by auto
  moreover have "fpu_kept s3 s'" using st(4,5) by (blast intro: fpu_kept_trans fpu_kept_steps)
  ultimately show ?thesis using assms(2,3,5) at a by (simp add: fpu_kept_def fpu_of_def)
qed

text \<open>A thread (1) of a process (3) with values in the coprocessor, another thread (2), and a second process (4)
  whose page directory is the one of the kernel.\<close>

definition demo_fpu :: kst where
  "demo_fpu = initial_kst\<lparr>heapNext := 10, lastFPUthread := 1, hwFpu := blank_fpu\<lparr>controlWord := 7\<rparr>,
     mem := set_proc 4 \<lparr>pageDirectory = 0xFFFFF000, pageTables = \<lambda>_. 0\<rparr> (mem initial_kst),
     objs := [1 \<mapsto> Thread ((blank_thread 3)\<lparr>fpuInitialized := True\<rparr>), 2 \<mapsto> Thread (blank_thread 3),
       3 \<mapsto> Process blank_process, 4 \<mapsto> Process blank_process]\<rparr>"


lemma demo_fork: "\<exists>s'. threadCreate 4 1 0 demo_fpu = Inr (s', 10)"
proof -
  have "pagingGetPhysMem (getPagingEntry 0) 0xFFFFF000 (mem demo_fpu) = Inr (mem demo_fpu, 5)"
    by (simp add: pagingGetPhysMem_def getPagingEntry_def getPagingEntry_kernel_def demo_fpu_def initial_kst_def set_proc_def
        ktrans_def dir_entry_def Let_def pe_present_def pe_frame_def pe_avail_def pte_def KERNEL_DIR_ADDR_def
        KERNEL_PAGE_ADDR_def present_frame_def need_def)
  moreover have "heapNext demo_fpu = 10" "linked demo_fpu = (\<lambda>_. None)" "lastFPUthread demo_fpu = 1"
    "pageDirectory (procMem (mem demo_fpu) 4) = 0xFFFFF000"
    "objs demo_fpu = [1 \<mapsto> Thread ((blank_thread 3)\<lparr>fpuInitialized := True\<rparr>), 2 \<mapsto> Thread (blank_thread 3),
       3 \<mapsto> Process blank_process, 4 \<mapsto> Process blank_process]"
    by (simp_all add: demo_fpu_def initial_kst_def set_proc_def)
  ultimately show ?thesis
    by (simp add: threadCreate_def heapAlloc_obj_def Let_def ll_add_tail_obj_def link_tail_def objectInit_def set_obj_def
        upd_process_def get_process_def object_at_def copy_thread_def with_mem_def get_thread_def upd_thread_def
        set_thread_def copy_fpu_def fnsave_def objectAddRef_def blank_thread_def)
qed

theorem fork_loses_fpu_witness:
  "\<exists>s'. threadCreate 4 1 0 demo_fpu = Inr (s', 10) \<and> fpu_of 1 demo_fpu = Some (blank_fpu\<lparr>controlWord := 7\<rparr>) \<and>
     fpu_of 1 s' = Some blank_fpu"
proof -
  obtain s' where s': "threadCreate 4 1 0 demo_fpu = Inr (s', 10)" using demo_fork by blast
  have "objs demo_fpu 1 = Some (Thread ((blank_thread 3)\<lparr>fpuInitialized := True\<rparr>))" "lastFPUthread demo_fpu = 1"
    "1 < heapNext demo_fpu" "hwFpuInit demo_fpu = blank_fpu" "hwFpu demo_fpu = blank_fpu\<lparr>controlWord := 7\<rparr>"
    by (simp_all add: demo_fpu_def initial_kst_def)
  with fork_loses_fpu [OF s', of "(blank_thread 3)\<lparr>fpuInitialized := True\<rparr>"] s' show ?thesis by simp
qed

section \<open>A new object belongs to its handle\<close>

text \<open>The state after a handle \<open>h\<close> for the object was entered into the table of the process.\<close>

lemma handleAllocate_result:
  assumes "a \<noteq> 0" "objs s a = Some y" "\<And>z. y \<noteq> Process z" "p \<noteq> 0" "objs s p = Some (Process x)"
    and "table_ok (pr_handles x)"
  obtains h tb where "handleAllocate p a s = Inr (if h = - 1 then s
      else s\<lparr>refcount := (refcount s)(a := refcount s a + 1), objs := (objs s)(p \<mapsto> Process (x\<lparr>pr_handles := tb\<rparr>))\<rparr>, h)"
    "h \<noteq> - 1 \<Longrightarrow> table_ok tb \<and> tbl_map tb = (tbl_map (pr_handles x))(unat h := a)"
proof -
  define m :: u32 where "m = (case y of Pipe _ \<Rightarrow> 0 | Stdout \<Rightarrow> 0 | _ \<Rightarrow> 3)"
  have "m \<le> 3" by (simp add: m_def split: kobj.splits)
  from tbl_allocate_spec [OF assms(6) this assms(1)] obtain tb h where
    "tbl_allocate m a (pr_handles x) = Inr (tb, h)"
    "table_ok tb" "if h = - 1 then tb = pr_handles x else tbl_map tb = (tbl_map (pr_handles x))(unat h := a)"
    by (metis (mono_tags, lifting))
  moreover have "objectGetMinHandle a s = Inr m" using assms(1,2) by (simp add: objectGetMinHandle_def object_at_def m_def)
  moreover have "a \<noteq> p" using assms(2,3,5) by force
  ultimately show thesis using assms
    by (intro that [of h tb]) (auto simp: handleAllocate_def get_process_def object_at_def objectAddRef_def set_handles_def set_obj_def)
qed

text \<open>
  C24: The system call that creates a semaphore returns and leaks nothing: either the caller gets a handle, under
  which its process finds the new semaphore, and that handle holds the only reference, or the handle table is
  full, the result is \<open>-1\<close>, the table is unchanged and the semaphore is gone again.
\<close>
theorem create_semaphore_balanced:
  assumes "t \<noteq> 0" "objs s t = Some (Thread th)" "eax (task th) = 0x303" "th_process th = p" "p \<noteq> 0"
    and "objs s p = Some (Process x)" "table_ok (pr_handles x)" "t < heapNext s" "p < heapNext s"
  shows "\<exists>s' h. interrupt_0x80 (Suc (Suc n)) t s = Inr (s', INTERRUPT_CONTINUE_EXECUTION) \<and>
    objs s' t = Some (Thread (th\<lparr>task := (task th)\<lparr>eax := h\<rparr>\<rparr>)) \<and>
    (if h = - 1 then objs s' (heapNext s) = None \<and> objs s' p = objs s p
     else handleGet p h s' = Inr (heapNext s) \<and> refcount s' (heapNext s) = 1 \<and>
       objs s' (heapNext s) = Some (Semaphore \<lparr>sem_value = ebx (task th)\<rparr>))"
proof -
  let ?a = "heapNext s" and ?th = "\<lambda>v. Thread (th\<lparr>task := (task th)\<lparr>eax := v\<rparr>\<rparr>)"
  have ne: "?a \<noteq> t" "?a \<noteq> p" "?a \<noteq> 0" "t \<noteq> p" using assms by auto
  define u where "u = s\<lparr>heapNext := Suc ?a, objs := (objs s)(t \<mapsto> ?th (- 1), ?a \<mapsto> Semaphore \<lparr>sem_value = ebx (task th)\<rparr>),
    refcount := (refcount s)(?a := 1), linked := (linked s)(?a := None), queue := (queue s)(Waiters ?a := [])\<rparr>"
  have u: "objs u ?a = Some (Semaphore \<lparr>sem_value = ebx (task th)\<rparr>)" "objs u p = Some (Process x)" "objs u t = Some (?th (- 1))"
    "refcount u ?a = 1" "queue u (Waiters ?a) = []"
    using ne assms(6) by (simp_all add: u_def)
  have call: "interrupt_0x80 (Suc (Suc n)) t s = continue_with (publish (Suc (Suc n)) t p ?a u)"
    using assms(1-4) ne
    by (simp add: interrupt_0x80_def get_thread_simps set_eax_def upd_thread_simps syscall_numbers_def syscall_create_def
        semaphoreCreate_def heapAlloc_obj_def objectInit_def set_obj_def Let_def u_def)
  obtain h tb where alloc: "handleAllocate p ?a u = Inr (if h = - 1 then u
      else u\<lparr>refcount := (refcount u)(?a := refcount u ?a + 1), objs := (objs u)(p \<mapsto> Process (x\<lparr>pr_handles := tb\<rparr>))\<rparr>, h)"
    "h \<noteq> - 1 \<Longrightarrow> table_ok tb \<and> tbl_map tb = (tbl_map (pr_handles x))(unat h := ?a)"
    using handleAllocate_result [OF ne(3) u(1) _ assms(5) u(2) assms(7)] by auto
  show ?thesis
  proof (cases "h = - 1")
    case True
    then show ?thesis
      using alloc(1) call u ne assms(1) assms(6)
      by (simp add: publish_def return_value_def set_eax_def upd_thread_simps objectRelease_def object_at_def destroy_with_def
          semaphoreDestroy_def get_semaphore_def queueWakeup_def first_in_def heapFree_obj_def continue_with_def)
  next
    case False
    let ?s = "u\<lparr>objs := (objs u)(p \<mapsto> Process (x\<lparr>pr_handles := tb\<rparr>), t \<mapsto> ?th h), refcount := (refcount u)(?a := 1)\<rparr>"
    have "interrupt_0x80 (Suc (Suc n)) t s = Inr (?s, INTERRUPT_CONTINUE_EXECUTION)"
      using False alloc(1) call u ne assms(1)
      by (simp add: publish_def return_value_def set_eax_def upd_thread_simps objectRelease_def object_at_def continue_with_def)
    moreover have "handleGet p h ?s = Inr ?a"
      using False alloc(2) ne assms(5) by (simp add: handleGet_def get_process_def object_at_def tbl_lookup_map)
    ultimately show ?thesis using False u ne by (intro exI [of _ ?s] exI [of _ h]) simp
  qed
qed

definition demo_create :: kst where
  "demo_create = initial_kst\<lparr>heapNext := 10,
     objs := [1 \<mapsto> Thread ((blank_thread 3)\<lparr>task := blank_task\<lparr>eax := 0x303, ebx := 5\<rparr>\<rparr>),
       3 \<mapsto> Process (blank_process\<lparr>pr_handles := handleTableInit\<rparr>)]\<rparr>"

theorem create_semaphore_balanced_witness:
  "\<exists>s' h. interrupt_0x80 2 1 demo_create = Inr (s', INTERRUPT_CONTINUE_EXECUTION) \<and>
     (if h = - 1 then objs s' 10 = None else handleGet 3 h s' = Inr 10 \<and> refcount s' 10 = 1)"
proof -
  let ?th = "(blank_thread 3)\<lparr>task := blank_task\<lparr>eax := 0x303, ebx := 5\<rparr>\<rparr>"
  let ?x = "blank_process\<lparr>pr_handles := handleTableInit\<rparr>"
  have "objs demo_create 1 = Some (Thread ?th)" "objs demo_create 3 = Some (Process ?x)" and heap: "heapNext demo_create = 10"
    by (simp_all add: demo_create_def)
  moreover have "eax (task ?th) = 0x303" "th_process ?th = 3" "table_ok (pr_handles ?x)"
    using handleTableInit_ok by (simp_all add: blank_thread_def)
  ultimately obtain s' h where "interrupt_0x80 (Suc (Suc 0)) 1 demo_create = Inr (s', INTERRUPT_CONTINUE_EXECUTION)"
    "if h = - 1 then objs s' (heapNext demo_create) = None \<and> objs s' 3 = objs demo_create 3
     else handleGet 3 h s' = Inr (heapNext demo_create) \<and> refcount s' (heapNext demo_create) = 1 \<and>
       objs s' (heapNext demo_create) = Some (Semaphore \<lparr>sem_value = ebx (task ?th)\<rparr>)"
    using create_semaphore_balanced [of 1 demo_create ?th 3 ?x 0] by auto
  then show ?thesis unfolding heap numeral_2_eq_2 by (intro exI [of _ s'] exI [of _ h]) (simp split: if_splits)
qed

end
