(* ===== verification/Keyboard.thy ===== *)
theory Keyboard
  imports Dispatch
begin

text \<open>
  The keyboard driver (\<^verbatim>\<open>hardware/keyboard.c\<close>) and the German key map (\<^verbatim>\<open>hardware/keymap_de.c\<close>). A scan code goes
  through the decoder of multi-byte codes (\<open>keyboard_irq\<close>), the tables of key codes and the map that the pressed
  modifiers select; a character is echoed on the console and written to the standard input. Reading outside
  a table is \<open>MemFault\<close>. The trailing entries of the maps, all of them \<^verbatim>\<open>0xf200\<close>, are written as \<open>replicate\<close>.
\<close>

unbundle bit_operations_syntax

section \<open>Tables\<close>

definition standardKeyCodes :: "u8 list" where
  "standardKeyCodes =
     [0, 1, 2, 3, 4, 5, 6, 7, 8, 9, 10, 11, 12, 13, 14, 15,
      16, 17, 18, 19, 20, 21, 22, 23, 24, 25, 26, 27, 28, 29, 30, 31,
      32, 33, 34, 35, 36, 37, 38, 39, 40, 41, 42, 43, 44, 45, 46, 47,
      48, 49, 50, 51, 52, 53, 54, 55, 56, 57, 58, 59, 60, 61, 62, 63,
      64, 65, 66, 67, 68, 69, 70, 71, 72, 73, 74, 75, 76, 77, 78, 79,
      80, 81, 82, 84, 0, 0, 86, 87, 88, 0, 0, 0, 0, 0, 0, 0,
      0, 0, 0, 0, 0, 0, 0, 0, 0, 0, 0, 0, 0, 0, 0, 0,
      0, 0, 0, 0, 0, 0, 0, 0, 0, 0, 0, 0, 0, 0, 0, 0]"

definition extendedKeyCodes :: "u8 list" where
  "extendedKeyCodes =
     [0, 0, 0, 0, 0, 0, 0, 0, 0, 0, 0, 0, 0, 0, 0, 0,
      0, 0, 0, 0, 0, 0, 0, 0, 0, 0, 0, 0, 96, 97, 0, 0,
      0, 0, 0, 0, 0, 0, 0, 0, 0, 0, 0, 0, 0, 0, 0, 0,
      0, 0, 0, 0, 0, 99, 0, 0, 100, 0, 0, 0, 0, 0, 0, 0,
      0, 0, 0, 0, 0, 0, 0, 102, 103, 104, 0, 105, 0, 106, 0, 107,
      108, 109, 110, 111, 0, 0, 0, 0, 0, 0, 0, 0, 0, 0, 0, 0,
      0, 0, 0, 0, 0, 0, 0, 0, 0, 0, 0, 0, 0, 0, 0, 0,
      0, 0, 0, 0, 0, 0, 0, 0, 0, 0, 0, 0, 0, 0, 0, 0]"

definition plain_map :: "u16 list" where
  "plain_map =
     [0xF200, 0xF01B, 0xF031, 0xF032, 0xF033, 0xF034, 0xF035, 0xF036,
      0xF037, 0xF038, 0xF039, 0xF030, 0xF0DF, 0xF027, 0xF07F, 0xF009,
      0xFB71, 0xFB77, 0xFB65, 0xFB72, 0xFB74, 0xFB7A, 0xFB75, 0xFB69,
      0xFB6F, 0xFB70, 0xF0FC, 0xF02B, 0xF201, 0xF702, 0xFB61, 0xFB73,
      0xFB64, 0xFB66, 0xFB67, 0xFB68, 0xFB6A, 0xFB6B, 0xFB6C, 0xF0F6,
      0xF0E4, 0xF05E, 0xF700, 0xF023, 0xFB79, 0xFB78, 0xFB63, 0xFB76,
      0xFB62, 0xFB6E, 0xFB6D, 0xF02C, 0xF02E, 0xF02D, 0xF700, 0xF30C,
      0xF703, 0xF020, 0xF207, 0xF100, 0xF101, 0xF102, 0xF103, 0xF104,
      0xF105, 0xF106, 0xF107, 0xF108, 0xF109, 0xF208, 0xF209, 0xF307,
      0xF308, 0xF309, 0xF30B, 0xF304, 0xF305, 0xF306, 0xF30A, 0xF301,
      0xF302, 0xF303, 0xF300, 0xF30F, 0xF206, 0xF200, 0xF03C, 0xF10A,
      0xF10B, 0xF200, 0xF200, 0xF200, 0xF200, 0xF200, 0xF200, 0xF200,
      0xF30E, 0xF702, 0xF30D, 0xF20E, 0xF701, 0xF205, 0xF114, 0xF603,
      0xF118, 0xF601, 0xF602, 0xF117, 0xF600, 0xF119, 0xF115, 0xF116,
      0xF200, 0xF200, 0xF200, 0xF200, 0xF200, 0xF200, 0xF200, 0xF11D] @
     replicate 136 0xF200"

definition shift_map :: "u16 list" where
  "shift_map =
     [0xF200, 0xF01B, 0xF021, 0xF022, 0xF023, 0xF024, 0xF025, 0xF026,
      0xF02F, 0xF028, 0xF029, 0xF03D, 0xF03F, 0xF060, 0xF07F, 0xF809,
      0xFB51, 0xFB57, 0xFB45, 0xFB52, 0xFB54, 0xFB5A, 0xFB55, 0xFB49,
      0xFB4F, 0xFB50, 0xF0DC, 0xF02A, 0xF201, 0xF702, 0xFB41, 0xFB53,
      0xFB44, 0xFB46, 0xFB47, 0xFB48, 0xFB4A, 0xFB4B, 0xFB4C, 0xF0D6,
      0xF0C4, 0xF07E, 0xF700, 0xF027, 0xFB59, 0xFB58, 0xFB43, 0xFB56,
      0xFB42, 0xFB4E, 0xFB4D, 0xF03B, 0xF03A, 0xF05F, 0xF700, 0xF30C,
      0xF703, 0xF020, 0xF207, 0xF10C, 0xF10D, 0xF10E, 0xF10F, 0xF110,
      0xF111, 0xF112, 0xF113, 0xF11E, 0xF11F, 0xF208, 0xF203, 0xF307,
      0xF308, 0xF309, 0xF30B, 0xF304, 0xF305, 0xF306, 0xF30A, 0xF301,
      0xF302, 0xF303, 0xF300, 0xF30F, 0xF206, 0xF200, 0xF03E, 0xF120,
      0xF121, 0xF200, 0xF200, 0xF200, 0xF200, 0xF200, 0xF200, 0xF200,
      0xF30E, 0xF702, 0xF30D, 0xF20E, 0xF701, 0xF205, 0xF114, 0xF603,
      0xF20B, 0xF601, 0xF602, 0xF117, 0xF600, 0xF20A, 0xF115, 0xF116,
      0xF200, 0xF200, 0xF200, 0xF200, 0xF200, 0xF200, 0xF200, 0xF11D] @
     replicate 136 0xF200"

definition altgr_map :: "u16 list" where
  "altgr_map =
     [0xF200, 0xF200, 0xF200, 0xF032, 0xF033, 0xF200, 0xF200, 0xF200,
      0xF07B, 0xF05B, 0xF05D, 0xF07D, 0xF05C, 0xF200, 0xF200, 0xF200,
      0xF040, 0xFB77, 0xF080, 0xFB72, 0xFB74, 0xFB7A, 0xFB75, 0xFB69,
      0xFB6F, 0xFB70, 0xF200, 0xF07E, 0xF201, 0xF702, 0xFB61, 0xFB73,
      0xFB64, 0xFB66, 0xFB67, 0xFB68, 0xFB6A, 0xFB6B, 0xFB6C, 0xF200,
      0xF200, 0xF860, 0xF700, 0xF200, 0xFB79, 0xFB78, 0xF0A2, 0xFB76,
      0xFB62, 0xFB6E, 0xF0B5, 0xF200, 0xF200, 0xF82D, 0xF700, 0xF916,
      0xF703, 0xF820, 0xF207, 0xF200, 0xF200, 0xF200, 0xF200, 0xF200,
      0xF200, 0xF200, 0xF200, 0xF200, 0xF200, 0xF914, 0xF202, 0xF911,
      0xF912, 0xF913, 0xF917, 0xF90E, 0xF90F, 0xF910, 0xF918, 0xF90B,
      0xF90C, 0xF90D, 0xF90A, 0xF30F, 0xF206, 0xF200, 0xF07C, 0xF200,
      0xF200, 0xF200, 0xF200, 0xF200, 0xF200, 0xF200, 0xF200, 0xF200,
      0xF919, 0xF702, 0xF915, 0xF20E, 0xF701, 0xF205, 0xF114, 0xF603,
      0xF118, 0xF601, 0xF602, 0xF117, 0xF600, 0xF119, 0xF115, 0xF116,
      0xF200, 0xF200, 0xF200, 0xF200, 0xF200, 0xF200, 0xF200, 0xF11D] @
     replicate 136 0xF200"

definition ctrl_map :: "u16 list" where
  "ctrl_map =
     [0xF200, 0xF200, 0xF200, 0xF000, 0xF01B, 0xF200, 0xF200, 0xF200,
      0xF200, 0xF200, 0xF200, 0xF200, 0xF200, 0xF200, 0xF200, 0xF200,
      0xF011, 0xF017, 0xF005, 0xF012, 0xF014, 0xF01A, 0xF015, 0xF009,
      0xF00F, 0xF010, 0xF200, 0xF200, 0xF201, 0xF702, 0xF001, 0xF013,
      0xF004, 0xF006, 0xF007, 0xF008, 0xF00A, 0xF00B, 0xF00C, 0xF200,
      0xF200, 0xF01E, 0xF700, 0xF200, 0xF019, 0xF018, 0xF003, 0xF016,
      0xF002, 0xF00E, 0xF00D, 0xF200, 0xF200, 0xF200, 0xF700, 0xF30C,
      0xF703, 0xF000, 0xF207, 0xF122, 0xF123, 0xF124, 0xF125, 0xF126,
      0xF127, 0xF128, 0xF129, 0xF12A, 0xF12B, 0xF208, 0xF204, 0xF307,
      0xF308, 0xF309, 0xF30B, 0xF304, 0xF305, 0xF306, 0xF30A, 0xF301,
      0xF302, 0xF303, 0xF300, 0xF30F, 0xF206, 0xF200, 0xF200, 0xF12C,
      0xF12D, 0xF200, 0xF200, 0xF200, 0xF200, 0xF200, 0xF200, 0xF200,
      0xF30E, 0xF702, 0xF30D, 0xF01C, 0xF701, 0xF205, 0xF114, 0xF603,
      0xF118, 0xF601, 0xF602, 0xF117, 0xF600, 0xF119, 0xF115, 0xF116,
      0xF200, 0xF200, 0xF200, 0xF200, 0xF200, 0xF200, 0xF200, 0xF11D] @
     replicate 136 0xF200"

definition shift_ctrl_map :: "u16 list" where
  "shift_ctrl_map =
     [0xF200, 0xF200, 0xF200, 0xF200, 0xF200, 0xF200, 0xF200, 0xF200,
      0xF200, 0xF200, 0xF200, 0xF200, 0xF200, 0xF200, 0xF200, 0xF200,
      0xF011, 0xF017, 0xF005, 0xF012, 0xF014, 0xF01A, 0xF015, 0xF009,
      0xF00F, 0xF010, 0xF200, 0xF200, 0xF201, 0xF702, 0xF001, 0xF013,
      0xF004, 0xF006, 0xF007, 0xF008, 0xF00A, 0xF00B, 0xF00C, 0xF200,
      0xF01D, 0xF200, 0xF700, 0xF200, 0xF019, 0xF018, 0xF003, 0xF016,
      0xF002, 0xF00E, 0xF00D, 0xF200, 0xF200, 0xF01F, 0xF700, 0xF30C,
      0xF703, 0xF200, 0xF207, 0xF200, 0xF200, 0xF200, 0xF200, 0xF200,
      0xF200, 0xF200, 0xF200, 0xF200, 0xF200, 0xF208, 0xF200, 0xF307,
      0xF308, 0xF309, 0xF30B, 0xF304, 0xF305, 0xF306, 0xF30A, 0xF301,
      0xF302, 0xF303, 0xF300, 0xF30F, 0xF206, 0xF200, 0xF200, 0xF200,
      0xF200, 0xF200, 0xF200, 0xF200, 0xF200, 0xF200, 0xF200, 0xF200,
      0xF30E, 0xF702, 0xF30D, 0xF20E, 0xF701, 0xF205, 0xF114, 0xF603,
      0xF118, 0xF601, 0xF602, 0xF117, 0xF600, 0xF119, 0xF115, 0xF116,
      0xF200, 0xF200, 0xF200, 0xF200, 0xF200, 0xF200, 0xF200, 0xF11D] @
     replicate 136 0xF200"

definition altgr_ctrl_map :: "u16 list" where
  "altgr_ctrl_map =
     [0xF200, 0xF200, 0xF200, 0xF200, 0xF200, 0xF200, 0xF200, 0xF200,
      0xF200, 0xF200, 0xF01D, 0xF200, 0xF01C, 0xF200, 0xF200, 0xF200,
      0xF000, 0xF017, 0xF005, 0xF012, 0xF014, 0xF01A, 0xF015, 0xF009,
      0xF00F, 0xF010, 0xF200, 0xF200, 0xF201, 0xF702, 0xF001, 0xF013,
      0xF004, 0xF006, 0xF007, 0xF008, 0xF00A, 0xF00B, 0xF00C, 0xF200,
      0xF200, 0xF200, 0xF700, 0xF200, 0xF019, 0xF018, 0xF003, 0xF016,
      0xF002, 0xF00E, 0xF00D, 0xF200, 0xF200, 0xF200, 0xF700, 0xF30C,
      0xF703, 0xF200, 0xF207, 0xF200, 0xF200, 0xF200, 0xF200, 0xF200,
      0xF200, 0xF200, 0xF200, 0xF200, 0xF200, 0xF208, 0xF200, 0xF307,
      0xF308, 0xF309, 0xF30B, 0xF304, 0xF305, 0xF306, 0xF30A, 0xF301,
      0xF302, 0xF303, 0xF300, 0xF20C, 0xF206, 0xF200, 0xF200, 0xF200,
      0xF200, 0xF200, 0xF200, 0xF200, 0xF200, 0xF200, 0xF200, 0xF200,
      0xF30E, 0xF702, 0xF30D, 0xF20E, 0xF701, 0xF205, 0xF114, 0xF603,
      0xF118, 0xF601, 0xF602, 0xF117, 0xF600, 0xF119, 0xF115, 0xF20C,
      0xF200, 0xF200, 0xF200, 0xF200, 0xF200, 0xF200, 0xF200, 0xF11D] @
     replicate 136 0xF200"

definition alt_map :: "u16 list" where
  "alt_map =
     [0xF200, 0xF81B, 0xF831, 0xF832, 0xF833, 0xF834, 0xF835, 0xF836,
      0xF837, 0xF838, 0xF839, 0xF830, 0xF85C, 0xF827, 0xF87F, 0xF809,
      0xF871, 0xF877, 0xF865, 0xF872, 0xF874, 0xF87A, 0xF875, 0xF869,
      0xF86F, 0xF870, 0xF840, 0xF82B, 0xF80D, 0xF702, 0xF861, 0xF873,
      0xF864, 0xF866, 0xF867, 0xF868, 0xF86A, 0xF86B, 0xF86C, 0xF85B,
      0xF85D, 0xF85E, 0xF700, 0xF823, 0xF879, 0xF878, 0xF863, 0xF876,
      0xF862, 0xF86E, 0xF86D, 0xF82C, 0xF82E, 0xF82D, 0xF700, 0xF30C,
      0xF703, 0xF820, 0xF207, 0xF500, 0xF501, 0xF502, 0xF503, 0xF504,
      0xF505, 0xF506, 0xF507, 0xF508, 0xF509, 0xF208, 0xF209, 0xF907,
      0xF908, 0xF909, 0xF30B, 0xF904, 0xF905, 0xF906, 0xF30A, 0xF901,
      0xF902, 0xF903, 0xF900, 0xF30F, 0xF206, 0xF200, 0xF83C, 0xF50A,
      0xF50B, 0xF200, 0xF200, 0xF200, 0xF200, 0xF200, 0xF200, 0xF200,
      0xF30E, 0xF702, 0xF30D, 0xF01C, 0xF20E, 0xF205, 0xF114, 0xF212,
      0xF118, 0xF210, 0xF211, 0xF117, 0xF600, 0xF119, 0xF115, 0xF116,
      0xF200, 0xF200, 0xF200, 0xF200, 0xF200, 0xF200, 0xF200, 0xF11D] @
     replicate 136 0xF200"

definition shift_alt_map :: "u16 list" where
  "shift_alt_map =
     [0xF200, 0xF81B, 0xF821, 0xF822, 0xF823, 0xF824, 0xF825, 0xF826,
      0xF82F, 0xF828, 0xF829, 0xF83D, 0xF83F, 0xF860, 0xF87F, 0xF200,
      0xF851, 0xF857, 0xF845, 0xF852, 0xF854, 0xF85A, 0xF855, 0xF849,
      0xF84F, 0xF850, 0xF85C, 0xF82A, 0xF201, 0xF702, 0xF841, 0xF853,
      0xF844, 0xF846, 0xF847, 0xF848, 0xF84A, 0xF84B, 0xF84C, 0xF87B,
      0xF87D, 0xF87E, 0xF700, 0xF827, 0xF859, 0xF858, 0xF843, 0xF856,
      0xF842, 0xF84E, 0xF84D, 0xF83B, 0xF83A, 0xF85F, 0xF700, 0xF30C,
      0xF703, 0xF820, 0xF207, 0xF200, 0xF200, 0xF200, 0xF200, 0xF200,
      0xF200, 0xF200, 0xF200, 0xF200, 0xF200, 0xF208, 0xF200, 0xF307,
      0xF308, 0xF309, 0xF30B, 0xF304, 0xF305, 0xF306, 0xF30A, 0xF301,
      0xF302, 0xF303, 0xF300, 0xF30F, 0xF206, 0xF200, 0xF83E, 0xF200,
      0xF200, 0xF200, 0xF200, 0xF200, 0xF200, 0xF200, 0xF200, 0xF200,
      0xF30E, 0xF702, 0xF30D, 0xF20E, 0xF701, 0xF205, 0xF114, 0xF603,
      0xF118, 0xF601, 0xF602, 0xF117, 0xF600, 0xF119, 0xF115, 0xF116,
      0xF200, 0xF200, 0xF200, 0xF200, 0xF200, 0xF200, 0xF200, 0xF11D] @
     replicate 136 0xF200"

definition altgr_alt_map :: "u16 list" where
  "altgr_alt_map =
     [0xF200, 0xF200, 0xF200, 0xF832, 0xF833, 0xF200, 0xF200, 0xF200,
      0xF87B, 0xF85B, 0xF85D, 0xF87D, 0xF200, 0xF200, 0xF200, 0xF200,
      0xF840, 0xF877, 0xF865, 0xF872, 0xF874, 0xF87A, 0xF875, 0xF869,
      0xF86F, 0xF870, 0xF200, 0xF87E, 0xF201, 0xF702, 0xF861, 0xF873,
      0xF864, 0xF866, 0xF867, 0xF868, 0xF86A, 0xF86B, 0xF86C, 0xF200,
      0xF200, 0xF200, 0xF700, 0xF200, 0xF879, 0xF878, 0xF863, 0xF876,
      0xF862, 0xF86E, 0xF86D, 0xF200, 0xF200, 0xF200, 0xF700, 0xF30C,
      0xF703, 0xF200, 0xF207, 0xF200, 0xF200, 0xF200, 0xF200, 0xF200,
      0xF200, 0xF200, 0xF200, 0xF200, 0xF200, 0xF208, 0xF200, 0xF307,
      0xF308, 0xF309, 0xF30B, 0xF304, 0xF305, 0xF306, 0xF30A, 0xF301,
      0xF302, 0xF303, 0xF300, 0xF30F, 0xF206, 0xF200, 0xF87C, 0xF200,
      0xF200, 0xF200, 0xF200, 0xF200, 0xF200, 0xF200, 0xF200, 0xF200,
      0xF30E, 0xF702, 0xF30D, 0xF20E, 0xF701, 0xF205, 0xF114, 0xF603,
      0xF118, 0xF601, 0xF602, 0xF117, 0xF600, 0xF119, 0xF115, 0xF116,
      0xF200, 0xF200, 0xF200, 0xF200, 0xF200, 0xF200, 0xF200, 0xF11D] @
     replicate 136 0xF200"

definition ctrl_alt_map :: "u16 list" where
  "ctrl_alt_map =
     [0xF200, 0xF200, 0xF200, 0xF800, 0xF81B, 0xF200, 0xF200, 0xF200,
      0xF200, 0xF200, 0xF200, 0xF200, 0xF200, 0xF200, 0xF200, 0xF200,
      0xF811, 0xF817, 0xF805, 0xF812, 0xF814, 0xF81A, 0xF815, 0xF809,
      0xF80F, 0xF810, 0xF200, 0xF200, 0xF201, 0xF702, 0xF801, 0xF813,
      0xF804, 0xF806, 0xF807, 0xF808, 0xF80A, 0xF80B, 0xF80C, 0xF200,
      0xF200, 0xF81E, 0xF700, 0xF200, 0xF819, 0xF818, 0xF803, 0xF816,
      0xF802, 0xF80E, 0xF80D, 0xF200, 0xF200, 0xF200, 0xF700, 0xF30C,
      0xF703, 0xF800, 0xF207, 0xF500, 0xF501, 0xF502, 0xF503, 0xF504,
      0xF505, 0xF506, 0xF507, 0xF508, 0xF509, 0xF208, 0xF200, 0xF307,
      0xF308, 0xF309, 0xF30B, 0xF304, 0xF305, 0xF306, 0xF30A, 0xF301,
      0xF302, 0xF303, 0xF300, 0xF20C, 0xF206, 0xF200, 0xF200, 0xF50A,
      0xF50B, 0xF200, 0xF200, 0xF200, 0xF200, 0xF200, 0xF200, 0xF200,
      0xF30E, 0xF702, 0xF30D, 0xF81C, 0xF701, 0xF205, 0xF114, 0xF603,
      0xF118, 0xF601, 0xF602, 0xF117, 0xF600, 0xF119, 0xF115, 0xF20C,
      0xF200, 0xF200, 0xF200, 0xF200, 0xF200, 0xF200, 0xF200, 0xF11D] @
     replicate 136 0xF200"

section \<open>Decoding\<close>

definition KEY_TYPE :: "u16 \<Rightarrow> u16" where "KEY_TYPE x = drop_bit 8 x"
definition KEY_VALUE :: "u16 \<Rightarrow> u8" where "KEY_VALUE x = ucast (x AND 0xFF)"

definition KEY_TYPE_LATIN :: u16 where "KEY_TYPE_LATIN = 0"
definition KEY_TYPE_SPEC :: u16 where "KEY_TYPE_SPEC = 2"
definition KEY_TYPE_SHIFT :: u16 where "KEY_TYPE_SHIFT = 7"
definition KEY_TYPE_ASCII :: u16 where "KEY_TYPE_ASCII = 9"
definition KEY_TYPE_LETTER :: u16 where "KEY_TYPE_LETTER = 0xB"
definition KEY_CODE_ENTER :: u16 where "KEY_CODE_ENTER = 0x201"
definition KEY_CODE_CAPS :: u16 where "KEY_CODE_CAPS = 0x207"

record keyModifier =
  m_shift :: bool
  m_shiftLocked :: bool
  m_ctrl :: bool
  m_alt :: bool
  m_altgr :: bool

record keyboard =
  modifiers :: keyModifier
  ext1Code :: bool
  ext2Code :: nat
  e1_prev :: u16
  keyboardStdin :: addr
  keyboardLEDFlags :: u32

definition select_map :: "keyModifier \<Rightarrow> u16 list" where
  "select_map m =
     (if m_shift m \<or> m_shiftLocked m
      then (if m_ctrl m then shift_ctrl_map else if m_alt m then shift_alt_map else shift_map)
      else if m_ctrl m then (if m_altgr m then altgr_ctrl_map else ctrl_map)
      else if m_altgr m then (if m_alt m then altgr_alt_map else altgr_map)
      else if m_alt m then alt_map
      else plain_map)"

definition key_table :: "nat \<Rightarrow> u8 list option" where
  "key_table extended = (if extended = 0 then Some standardKeyCodes
     else if extended = 1 then Some extendedKeyCodes else None)"

text \<open>The switch over the modifier keys; \<^verbatim>\<open>SHIFTL\<close> and \<^verbatim>\<open>SHIFTR\<close> are 4 and 5, \<^verbatim>\<open>CTRLL\<close> and \<^verbatim>\<open>CTRLR\<close> 6 and 7.\<close>

definition update_modifiers :: "u16 \<Rightarrow> bool \<Rightarrow> keyModifier \<Rightarrow> keyModifier" where
  "update_modifiers keyCode pressed m =
     (if KEY_TYPE keyCode = KEY_TYPE_SHIFT
      then (let v = KEY_VALUE keyCode in
            if v = 0 \<or> v = 4 \<or> v = 5 then m\<lparr>m_shift := pressed\<rparr>
            else if v = 2 \<or> v = 6 \<or> v = 7 then m\<lparr>m_ctrl := pressed\<rparr>
            else if v = 3 then m\<lparr>m_alt := pressed\<rparr>
            else if v = 1 then m\<lparr>m_altgr := pressed\<rparr>
            else m)
      else if KEY_TYPE keyCode = KEY_TYPE_SPEC \<and> keyCode = KEY_CODE_CAPS \<and> pressed
      then m\<lparr>m_shiftLocked := \<not> m_shiftLocked m\<rparr>
      else m)"

definition is_character :: "u16 \<Rightarrow> bool" where
  "is_character keyCode \<longleftrightarrow> KEY_TYPE keyCode = KEY_TYPE_LATIN \<or> KEY_TYPE keyCode = KEY_TYPE_ASCII \<or>
     KEY_TYPE keyCode = KEY_TYPE_LETTER \<or> keyCode = KEY_CODE_ENTER"

definition char_code :: "u16 \<Rightarrow> u8" where
  "char_code keyCode = (if keyCode = KEY_CODE_ENTER then 0x0A else KEY_VALUE keyCode)"

definition type_char :: "nat \<Rightarrow> addr \<Rightarrow> u8 \<Rightarrow> kst \<Rightarrow> kst kres" where
  "type_char n stdin c s =
     kbind (consoleEchoChar c (console s)) (\<lambda>con.
     let s = s\<lparr>console := con\<rparr> in
     if stdin = 0 then Inr s else kbind (objWrite n stdin [c] 1 s) (\<lambda>(s, _). Inr s))"

definition processScancode :: "nat \<Rightarrow> nat \<Rightarrow> u8 \<Rightarrow> bool \<Rightarrow> keyboard \<times> kst \<Rightarrow> (keyboard \<times> kst) kres" where
  "processScancode n extended scanCode keyUp = (\<lambda>(k, s).
     kbind (case key_table extended of None \<Rightarrow> Inr 0
            | Some tab \<Rightarrow> if unat scanCode < length tab then Inr (tab ! unat scanCode) else Inl MemFault) (\<lambda>mappedCode.
       if mappedCode = 0 then Inr (k, s)
       else let decodeMap = select_map (modifiers k) in
         if length decodeMap \<le> unat mappedCode then Inl MemFault
         else let keyCode = decodeMap ! unat mappedCode AND 0x0FFF in
           if keyCode = 0 then Inr (k, s)
           else let k = k\<lparr>modifiers := update_modifiers keyCode (\<not> keyUp) (modifiers k)\<rparr> in
             if keyUp \<or> \<not> is_character keyCode then Inr (k, s)
             else kbind (type_char n (keyboardStdin k) (char_code keyCode) s) (\<lambda>s. Inr (k, s))))"

definition keyboard_irq :: "nat \<Rightarrow> u8 \<Rightarrow> keyboard \<times> kst \<Rightarrow> (keyboard \<times> kst) kres" where
  "keyboard_irq n scanCode = (\<lambda>(k, s).
     (let keyUp = (scanCode AND 0x80 \<noteq> 0 \<and> (ext2Code k \<noteq> 0 \<or> scanCode \<noteq> 0xE1) \<and> (ext1Code k \<or> scanCode \<noteq> 0xE0));
          scanCode = (if keyUp then scanCode AND 0x7F else scanCode)
      in if ext1Code k
         then (if scanCode = 0x2A \<or> scanCode = 0x36 then Inr (k\<lparr>ext1Code := False\<rparr>, s)
               else kbind (processScancode n 1 scanCode keyUp (k, s)) (\<lambda>(k, s). Inr (k\<lparr>ext1Code := False\<rparr>, s)))
         else if ext2Code k = 2
         then let k = k\<lparr>e1_prev := e1_prev k OR push_bit 8 (ucast scanCode)\<rparr> in
              kbind (processScancode n 2 (ucast (e1_prev k)) keyUp (k, s)) (\<lambda>(k, s). Inr (k\<lparr>ext2Code := 0\<rparr>, s))
         else if ext2Code k = 1 then Inr (k\<lparr>e1_prev := ucast scanCode, ext2Code := 2\<rparr>, s)
         else if scanCode = 0xE0 then Inr (k\<lparr>ext1Code := True\<rparr>, s)
         else if scanCode = 0xE1 then Inr (k\<lparr>ext2Code := 1\<rparr>, s)
         else processScancode n 0 scanCode keyUp (k, s)))"

section \<open>The controller\<close>

text \<open>\<open>status\<close> is what the status port reads, in the order of the reads. \<^verbatim>\<open>keyboardSend\<close> waits while the input
  buffer is full; \<^verbatim>\<open>None\<close> says that it is still waiting when the sequence ends.\<close>

fun keyboardSend :: "u8 list \<Rightarrow> u8 \<Rightarrow> console \<Rightarrow> (u8 list \<times> console) option" where
  "keyboardSend [] cmd c = None"
| "keyboardSend (v # vs) cmd c = (if v AND 2 \<noteq> 0 then keyboardSend vs cmd c else Some (vs, outb 0x60 cmd c))"

definition keyboardSetLEDFlags :: "u8 list \<Rightarrow> u32 \<Rightarrow> keyboard \<times> console \<Rightarrow> (u8 list \<times> keyboard \<times> console) option" where
  "keyboardSetLEDFlags vs led = (\<lambda>(k, c).
     let k = k\<lparr>keyboardLEDFlags := led AND 7\<rparr> in
     case keyboardSend vs 0xED c of None \<Rightarrow> None
     | Some (vs, c) \<Rightarrow> (case keyboardSend vs (ucast (keyboardLEDFlags k)) c of None \<Rightarrow> None
         | Some (vs, c) \<Rightarrow> Some (vs, k, c)))"

definition keyboardGetLEDFlags :: "keyboard \<Rightarrow> u32" where
  "keyboardGetLEDFlags k = keyboardLEDFlags k"

fun clear_buffer :: "u8 list \<Rightarrow> u8 list option" where
  "clear_buffer [] = None"
| "clear_buffer (v # vs) = (if v AND 1 \<noteq> 0 then clear_buffer vs else Some vs)"

text \<open>\<^verbatim>\<open>keyboardInit\<close> behind the registration of the interrupt.\<close>

definition keyboard_start :: "addr \<Rightarrow> u8 list \<Rightarrow> keyboard \<times> console \<Rightarrow> (u8 list \<times> keyboard \<times> console) option" where
  "keyboard_start obj vs = (\<lambda>(k, c).
     let k = k\<lparr>keyboardStdin := obj\<rparr> in
     case clear_buffer vs of None \<Rightarrow> None
     | Some vs \<Rightarrow> (case keyboardSend vs 0xF4 c of None \<Rightarrow> None
         | Some (vs, c) \<Rightarrow> keyboardSetLEDFlags vs 0 (k, c)))"

definition initial_keyboard :: keyboard where
  "initial_keyboard = \<lparr>modifiers = \<lparr>m_shift = False, m_shiftLocked = False, m_ctrl = False, m_alt = False, m_altgr = False\<rparr>,
     ext1Code = False, ext2Code = 0, e1_prev = 0, keyboardStdin = 0, keyboardLEDFlags = 0\<rparr>"

section \<open>Facts on the tables\<close>

definition all_maps :: "u16 list list" where
  "all_maps = [plain_map, shift_map, altgr_map, ctrl_map, shift_ctrl_map, altgr_ctrl_map, alt_map, shift_alt_map,
     altgr_alt_map, ctrl_alt_map]"

lemma select_map_in: "select_map m \<in> set all_maps"
  by (simp add: select_map_def all_maps_def)

lemma maps_length: "list_all (\<lambda>t. length t = 256) all_maps"
  by code_simp

lemma tables_length [simp]: "length standardKeyCodes = 128" "length extendedKeyCodes = 128"
  by code_simp+

lemma length_select_map [simp]: "length (select_map m) = 256"
  using maps_length select_map_in by (auto simp: list_all_iff)

definition modifier_keys :: "nat list" where
  "modifier_keys = [29, 42, 54, 56, 58, 97, 100]"

definition modifier_code :: "nat \<Rightarrow> u16" where
  "modifier_code i = (if i = 42 \<or> i = 54 then 0x700 else if i = 29 \<or> i = 97 then 0x702 else if i = 56 then 0x703
     else if i = 100 then 0x701 else if i = 58 then 0x207 else 0)"

definition plain_code :: "u16 \<Rightarrow> bool" where
  "plain_code c \<longleftrightarrow> KEY_TYPE c \<noteq> KEY_TYPE_SHIFT \<and> c \<noteq> KEY_CODE_CAPS"

lemma maps_modifiers:
  "list_all (\<lambda>t. list_all (\<lambda>i. t ! i AND 0x0FFF = modifier_code i \<or> (i = 100 \<and> t = alt_map)) modifier_keys) all_maps"
  by code_simp

fun scan_codes :: "nat \<Rightarrow> u16 list \<Rightarrow> bool" where
  "scan_codes i [] = True"
| "scan_codes i (c # cs) = ((plain_code (c AND 0x0FFF) \<or> i \<in> set modifier_keys) \<and> scan_codes (Suc i) cs)"

lemma scan_codes_nth: "scan_codes i cs \<Longrightarrow> j < length cs \<Longrightarrow> plain_code (cs ! j AND 0x0FFF) \<or> i + j \<in> set modifier_keys"
proof (induction i cs arbitrary: j rule: scan_codes.induct)
  case (2 i c cs) then show ?case by (cases j) auto
qed simp

lemma scan_codes_append: "scan_codes i (xs @ ys) \<longleftrightarrow> scan_codes i xs \<and> scan_codes (i + length xs) ys"
  by (induction i xs rule: scan_codes.induct) auto

lemma scan_codes_rest: "scan_codes i (replicate n 0xF200)"
  by (induction n arbitrary: i) (simp_all add: plain_code_def KEY_TYPE_def KEY_TYPE_SHIFT_def KEY_CODE_CAPS_def)

lemmas map_defs = plain_map_def shift_map_def altgr_map_def ctrl_map_def shift_ctrl_map_def
  altgr_ctrl_map_def alt_map_def shift_alt_map_def altgr_alt_map_def ctrl_alt_map_def

lemma maps_plain: "list_all (scan_codes 0) all_maps"
  unfolding all_maps_def map_defs
  by (simp only: list.pred_inject scan_codes_append scan_codes_rest) code_simp

lemma alt_map_altgr: "alt_map ! 100 AND 0x0FFF = 0x20E"
  by code_simp

lemma select_map_plain:
  assumes "i < 256" and "i \<notin> set modifier_keys"
  shows "plain_code (select_map m ! i AND 0x0FFF)"
  using maps_plain select_map_in [of m] assms scan_codes_nth [of 0 "select_map m" i] by (auto simp: list_all_iff)

lemma select_map_modifier:
  assumes "i \<in> set modifier_keys" and "i \<noteq> 100 \<or> select_map m \<noteq> alt_map"
  shows "select_map m ! i AND 0x0FFF = modifier_code i"
  using maps_modifiers select_map_in [of m] assms by (auto simp: list_all_iff)

text \<open>Only Alt without any other modifier selects the map in which the AltGr key is not a modifier.\<close>

definition alt_only :: "keyModifier \<Rightarrow> bool" where
  "alt_only m \<longleftrightarrow> m_alt m \<and> \<not> m_altgr m \<and> \<not> m_ctrl m \<and> \<not> m_shift m \<and> \<not> m_shiftLocked m"

lemma maps_altgr: "list_all (\<lambda>t. t ! 100 AND 0x0FFF = 0x701)
   [plain_map, shift_map, altgr_map, ctrl_map, shift_ctrl_map, altgr_ctrl_map, shift_alt_map, altgr_alt_map, ctrl_alt_map]"
  by code_simp

lemma select_map_altgr: "select_map m ! 100 AND 0x0FFF = (if alt_only m then 0x20E else 0x701)"
  using maps_altgr alt_map_altgr by (auto simp: select_map_def alt_only_def)

section \<open>Specification of the decoder\<close>

text \<open>What a key does to the modifiers, by its number: Shift 42 and 54, Ctrl 29 and 97, Alt 56, AltGr 100, Caps Lock 58.\<close>

definition track :: "nat \<Rightarrow> bool \<Rightarrow> keyModifier \<Rightarrow> keyModifier" where
  "track i pressed m =
     (if i = 42 \<or> i = 54 then m\<lparr>m_shift := pressed\<rparr>
      else if i = 29 \<or> i = 97 then m\<lparr>m_ctrl := pressed\<rparr>
      else if i = 56 then m\<lparr>m_alt := pressed\<rparr>
      else if i = 100 then (if alt_only m then m else m\<lparr>m_altgr := pressed\<rparr>)
      else if i = 58 \<and> pressed then m\<lparr>m_shiftLocked := \<not> m_shiftLocked m\<rparr>
      else m)"

definition typed :: "nat \<Rightarrow> bool \<Rightarrow> keyModifier \<Rightarrow> u8 list" where
  "typed i pressed m = (let c = select_map m ! i AND 0x0FFF in
     if pressed \<and> i \<noteq> 0 \<and> c \<noteq> 0 \<and> is_character c then [char_code c] else [])"

lemma update_modifiers_plain: "plain_code c \<Longrightarrow> update_modifiers c p m = m"
  by (simp add: plain_code_def update_modifiers_def)

lemma update_modifiers_code:
  "i \<in> set modifier_keys \<Longrightarrow> i \<noteq> 100 \<Longrightarrow> update_modifiers (modifier_code i) p m = track i p m"
  "update_modifiers 0x701 p m = m\<lparr>m_altgr := p\<rparr>" "update_modifiers 0x20E p m = m"
  by (auto simp: modifier_keys_def modifier_code_def update_modifiers_def track_def KEY_TYPE_def KEY_VALUE_def
      KEY_TYPE_SHIFT_def KEY_TYPE_SPEC_def KEY_CODE_CAPS_def)

lemma update_modifiers_track:
  assumes "i < 256" shows "update_modifiers (select_map m ! i AND 0x0FFF) p m = track i p m"
proof (cases "i \<in> set modifier_keys")
  case False
  then have "track i p m = m" by (simp add: track_def modifier_keys_def)
  then show ?thesis using select_map_plain [OF assms False, of m] by (simp add: update_modifiers_plain)
next
  case True
  show ?thesis
  proof (cases "i = 100")
    case False
    then show ?thesis using True select_map_modifier [OF True, of m] by (simp add: update_modifiers_code)
  next
    case i: True
    then show ?thesis by (simp add: select_map_altgr update_modifiers_code track_def)
  qed
qed

text \<open>The keys of an event: without the prefix \<^verbatim>\<open>0xE0\<close> or with it.\<close>

definition key_number :: "bool \<Rightarrow> u8 \<Rightarrow> nat" where
  "key_number extended scan = unat ((if extended then extendedKeyCodes else standardKeyCodes) ! unat scan)"

definition type_all :: "nat \<Rightarrow> addr \<Rightarrow> u8 list \<Rightarrow> kst \<Rightarrow> kst kres" where
  "type_all n stdin cs s = fold (\<lambda>c r. kbind r (type_char n stdin c)) cs (Inr s)"

lemma type_all_simps [simp]: "type_all n stdin [] s = Inr s" "type_all n stdin [c] s = type_char n stdin c s"
  by (simp_all add: type_all_def)

lemma type_all_err: "fold (\<lambda>c r. kbind r (type_char n stdin c)) cs (Inl e) = Inl e"
  by (induction cs) simp_all

lemma type_all_append: "type_all n stdin (cs @ ds) s = kbind (type_all n stdin cs s) (type_all n stdin ds)"
  by (cases "type_all n stdin cs s") (auto simp: type_all_def type_all_err)

lemma track_0 [simp]: "track 0 p m = m"
  by (simp add: track_def)

lemma processScancode_exact:
  assumes "unat scan < 128"
  shows "processScancode n (if ext then 1 else 0) scan up (k, s) =
    (let i = key_number ext scan in
     kbind (type_all n (keyboardStdin k) (typed i (\<not> up) (modifiers k)) s)
       (\<lambda>s. Inr (k\<lparr>modifiers := track i (\<not> up) (modifiers k)\<rparr>, s)))"
proof -
  let ?tab = "if ext then extendedKeyCodes else standardKeyCodes"
  have tab: "key_table (if ext then 1 else 0) = Some ?tab" "unat scan < length ?tab"
    using assms by (simp_all add: key_table_def)
  define v where "v = ?tab ! unat scan"
  have v: "unat v < 256" using unsigned_less [of v] by simp
  have "track (unat v) (\<not> up) (modifiers k) = modifiers k" if "select_map (modifiers k) ! unat v AND 0x0FFF = 0"
    using update_modifiers_track [OF v, of "modifiers k" "\<not> up"] that
    by (simp add: update_modifiers_def KEY_TYPE_def KEY_TYPE_SHIFT_def KEY_TYPE_SPEC_def)
  then show ?thesis
    using tab v unfolding key_number_def processScancode_def v_def [symmetric]
    by (auto simp: typed_def Let_def unat_eq_0 update_modifiers_track v_def [symmetric] is_character_def split: if_splits)
qed

section \<open>Sequences of interrupts\<close>

fun keyboard_irqs :: "nat \<Rightarrow> u8 list \<Rightarrow> keyboard \<times> kst \<Rightarrow> (keyboard \<times> kst) kres" where
  "keyboard_irqs n [] x = Inr x"
| "keyboard_irqs n (c # cs) x = kbind (keyboard_irq n c x) (keyboard_irqs n cs)"

lemma keyboard_irqs_append: "keyboard_irqs n (cs @ ds) x = kbind (keyboard_irqs n cs x) (keyboard_irqs n ds)"
proof (induction cs arbitrary: x)
  case (Cons c cs) then show ?case by (cases "keyboard_irq n c x") simp_all
qed simp

lemma keyboard_irqs_single [simp]: "kbind y (keyboard_irqs n []) = y"
  by (cases y) simp_all

type_synonym key_event = "bool \<times> u8 \<times> bool"

definition encode_event :: "key_event \<Rightarrow> u8 list" where
  "encode_event = (\<lambda>(ext, scan, up). (if ext then [0xE0] else []) @ [if up then scan OR 0x80 else scan])"

definition event_ok :: "key_event \<Rightarrow> bool" where
  "event_ok = (\<lambda>(ext, scan, up). scan < 0x60)"

definition idle :: "keyboard \<Rightarrow> bool" where
  "idle k \<longleftrightarrow> \<not> ext1Code k \<and> ext2Code k = 0"

lemma byte_release_table:
  "list_all (\<lambda>i. let w = of_nat i :: u8 in (w OR 0x80) AND 0x7F = w \<and> (w OR 0x80) AND 0x80 \<noteq> 0 \<and> w AND 0x80 = 0 \<and>
     w OR 0x80 \<noteq> 0xE0 \<and> w OR 0x80 \<noteq> 0xE1 \<and> w \<noteq> 0xE0 \<and> w \<noteq> 0xE1) [0..<96]"
  by code_simp

lemma byte_release:
  assumes "(w :: u8) < 0x60"
  shows "(w OR 0x80) AND 0x7F = w" "(w OR 0x80) AND 0x80 \<noteq> 0" "w AND 0x80 = 0"
    "w OR 0x80 \<noteq> 0xE0" "w OR 0x80 \<noteq> 0xE1" "w \<noteq> 0xE0" "w \<noteq> 0xE1" "unat w < 128"
proof -
  have "unat w < 96" using assms by (simp add: word_less_nat_alt)
  then have "let v = of_nat (unat w) :: u8 in (v OR 0x80) AND 0x7F = v \<and> (v OR 0x80) AND 0x80 \<noteq> 0 \<and> v AND 0x80 = 0 \<and>
     v OR 0x80 \<noteq> 0xE0 \<and> v OR 0x80 \<noteq> 0xE1 \<and> v \<noteq> 0xE0 \<and> v \<noteq> 0xE1"
    using byte_release_table unfolding list_all_iff by fastforce
  then show "(w OR 0x80) AND 0x7F = w" "(w OR 0x80) AND 0x80 \<noteq> 0" "w AND 0x80 = 0"
    "w OR 0x80 \<noteq> 0xE0" "w OR 0x80 \<noteq> 0xE1" "w \<noteq> 0xE0" "w \<noteq> 0xE1"
    by (simp_all add: Let_def)
  show "unat w < 128" using \<open>unat w < 96\<close> by simp
qed

lemma fake_shifts: "key_number True 0x2A = 0" "key_number True 0x36 = 0"
  by code_simp+

lemma typed_0 [simp]: "typed 0 p m = []"
  by (simp add: typed_def)

lemma ext1Code_reset: "\<not> ext1Code k \<Longrightarrow> k\<lparr>modifiers := m, ext1Code := False\<rparr> = k\<lparr>modifiers := m\<rparr>"
  by (cases k) simp

lemma irq_event:
  assumes "event_ok ev" and "idle k" and ev: "ev = (ext, scan, up)"
  shows "keyboard_irqs n (encode_event ev) (k, s) =
    kbind (type_all n (keyboardStdin k) (typed (key_number ext scan) (\<not> up) (modifiers k)) s)
      (\<lambda>s. Inr (k\<lparr>modifiers := track (key_number ext scan) (\<not> up) (modifiers k)\<rparr>, s))"
proof -
  have scan: "scan < 0x60" using assms(1) by (simp add: event_ok_def ev)
  note b = byte_release [OF scan]
  have k: "\<not> ext1Code k" "ext2Code k = 0" using assms(2) by (simp_all add: idle_def)
  show ?thesis
  proof (cases ext)
    case False
    then show ?thesis using b k processScancode_exact [of scan n False up k s]
      by (cases up) (simp_all add: ev encode_event_def keyboard_irq_def Let_def)
  next
    case True
    define k1 where "k1 = k\<lparr>ext1Code := True\<rparr>"
    have "keyboard_irq n 0xE0 (k, s) = Inr (k1, s)" using k by (simp add: keyboard_irq_def k1_def)
    moreover have "keyboard_irq n (if up then scan OR 0x80 else scan) (k1, s) =
       kbind (type_all n (keyboardStdin k) (typed (key_number ext scan) (\<not> up) (modifiers k)) s)
      (\<lambda>s. Inr (k\<lparr>modifiers := track (key_number ext scan) (\<not> up) (modifiers k)\<rparr>, s))"
    proof (cases "scan = 0x2A \<or> scan = 0x36")
      case fake: True
      then show ?thesis using True k fake_shifts by (cases up) (auto simp: keyboard_irq_def k1_def)
    next
      case False
      then show ?thesis using True b k processScancode_exact [of scan n True up k1 s]
        by (cases up) (simp_all add: keyboard_irq_def k1_def Let_def kbind_assoc ext1Code_reset)
    qed
    ultimately show ?thesis using True by (cases up) (simp_all add: ev encode_event_def)
  qed
qed

fun typed_keys :: "key_event list \<Rightarrow> keyModifier \<Rightarrow> u8 list" where
  "typed_keys [] m = []"
| "typed_keys ((ext, scan, up) # evs) m =
     typed (key_number ext scan) (\<not> up) m @ typed_keys evs (track (key_number ext scan) (\<not> up) m)"

definition track_keys :: "key_event list \<Rightarrow> keyModifier \<Rightarrow> keyModifier" where
  "track_keys evs m = fold (\<lambda>(ext, scan, up). track (key_number ext scan) (\<not> up)) evs m"

lemma kbind_cong: "(\<And>x. f x = g x) \<Longrightarrow> kbind m f = kbind m g"
  by (cases m) simp_all



subsection \<open>Arbitrary bytes\<close>

fun no_e0_e1 :: "u8 list \<Rightarrow> bool" where
  "no_e0_e1 (a # b # cs) = (\<not> (a = 0xE0 \<and> b = 0xE1) \<and> no_e0_e1 (b # cs))"
| "no_e0_e1 cs = True"

lemma byte_low:
  "unat (w AND 0x7F :: u8) < 128" "w AND 0x80 = 0 \<Longrightarrow> unat (w :: u8) < 128"
proof -
  have m: "unat (w AND 0x7F) < 128" for w :: u8
  proof -
    have "w AND 0x7F \<le> 0x7F" by (rule word_and_le1)
    then show ?thesis by (simp add: word_le_nat_alt)
  qed
  then show "unat (w AND 0x7F) < 128" .
  assume "w AND 0x80 = 0"
  moreover have ones: "(0x80 OR 0x7F :: u8) = - 1" by simp
  have "w = w AND (0x80 OR 0x7F)" unfolding ones by simp
  then have "w = (w AND 0x80) OR (w AND 0x7F)" by (simp only: bit.conj_disj_distrib)
  ultimately have "w = w AND 0x7F" by simp
  then show "unat w < 128" using m [of w] by metis
qed

lemma processScancode_safe:
  assumes "unat scan < 128 \<or> extended = 2"
  shows "\<exists>m cs. processScancode n extended scan up (k, s) =
    kbind (type_all n (keyboardStdin k) cs s) (\<lambda>s. Inr (k\<lparr>modifiers := m\<rparr>, s))"
proof -
  consider "extended = 0" | "extended = 1" | "1 < extended" by linarith
  then show ?thesis
  proof cases
    case 1 then show ?thesis using assms processScancode_exact [of scan n False up k s] by (auto simp: Let_def)
  next
    case 2 then show ?thesis using assms processScancode_exact [of scan n True up k s] by (auto simp: Let_def)
  next
    case 3
    then have "processScancode n extended scan up (k, s) = Inr (k, s)" by (simp add: processScancode_def key_table_def)
    also have "\<dots> = kbind (type_all n (keyboardStdin k) [] s) (\<lambda>s. Inr (k\<lparr>modifiers := modifiers k\<rparr>, s))" by simp
    finally show ?thesis by blast
  qed
qed

text \<open>A result in which only the console or the pipe can fail, and that stays behind a prefix only for the byte \<^verbatim>\<open>0xE0\<close>.\<close>

definition harmless :: "nat \<Rightarrow> u8 \<Rightarrow> addr \<Rightarrow> kst \<Rightarrow> (keyboard \<times> kst) kres \<Rightarrow> bool" where
  "harmless n c stdin s r \<longleftrightarrow> (\<exists>k' cs. r = kbind (type_all n stdin cs s) (\<lambda>s. Inr (k', s)) \<and>
     keyboardStdin k' = stdin \<and> (ext1Code k' \<longrightarrow> c = 0xE0))"

lemma harmless_ret: "keyboardStdin k = i \<Longrightarrow> (ext1Code k \<Longrightarrow> c = 0xE0) \<Longrightarrow> harmless n c i s (Inr (k, s))"
  unfolding harmless_def by (intro exI [of _ k] exI [of _ "[]"]) simp

lemma harmless_process:
  assumes "unat scan < 128 \<or> extended = 2" "keyboardStdin k = i" "\<And>m. keyboardStdin (f (k\<lparr>modifiers := m\<rparr>)) = i"
    "\<And>m. ext1Code (f (k\<lparr>modifiers := m\<rparr>)) \<Longrightarrow> c = 0xE0"
  shows "harmless n c i s (kbind (processScancode n extended scan up (k, s)) (\<lambda>(k, s). Inr (f k, s)))"
proof -
  obtain m cs where "processScancode n extended scan up (k, s) =
    kbind (type_all n (keyboardStdin k) cs s) (\<lambda>s. Inr (k\<lparr>modifiers := m\<rparr>, s))"
    using processScancode_safe [OF assms(1)] by blast
  then show ?thesis unfolding harmless_def using assms(2) assms(3,4) [of m]
    by (intro exI [of _ "f (k\<lparr>modifiers := m\<rparr>)"] exI [of _ cs]) (simp add: kbind_assoc)
qed

lemma harmless_process_plain:
  assumes "unat scan < 128" "keyboardStdin k = i" "\<not> ext1Code k"
  shows "harmless n c i s (processScancode n extended scan up (k, s))"
proof -
  have "kbind r (\<lambda>(k, s). Inr (k, s)) = r" for r :: "(keyboard \<times> kst) kres" by (cases r) auto
  then show ?thesis using harmless_process [of scan extended k i "\<lambda>k. k" c n s up] assms by simp
qed

lemma irq_safe:
  assumes "ext1Code k \<Longrightarrow> ext2Code k = 0 \<Longrightarrow> c \<noteq> 0xE1"
  shows "harmless n c (keyboardStdin k) s (keyboard_irq n c (k, s))"
proof -
  define up where "up \<longleftrightarrow> c AND 0x80 \<noteq> 0 \<and> (ext2Code k \<noteq> 0 \<or> c \<noteq> 0xE1) \<and> (ext1Code k \<or> c \<noteq> 0xE0)"
  define w where "w = (if up then c AND 0x7F else c)"
  have low: "unat w < 128" if "ext1Code k \<or> w \<noteq> 0xE0 \<and> w \<noteq> 0xE1"
    using that assms byte_low [of c] by (auto simp: w_def up_def split: if_splits)
  have e0: "w = 0xE0 \<Longrightarrow> c = 0xE0" using byte_low(1) [of c] by (auto simp: w_def split: if_splits)
  show ?thesis
    unfolding keyboard_irq_def Let_def split up_def [symmetric] w_def [symmetric]
    using low e0 by (auto intro!: harmless_ret harmless_process harmless_process_plain)
qed

lemma irqs_safe:
  assumes "no_e0_e1 codes" and "ext1Code k \<Longrightarrow> codes \<noteq> [] \<Longrightarrow> hd codes \<noteq> 0xE1"
  shows "\<exists>k' cs. keyboard_irqs n codes (k, s) = kbind (type_all n (keyboardStdin k) cs s) (\<lambda>s. Inr (k', s))"
  using assms
proof (induction codes arbitrary: k s)
  case Nil
  have "keyboard_irqs n [] (k, s) = kbind (type_all n (keyboardStdin k) [] s) (\<lambda>s. Inr (k, s))" by simp
  then show ?case by blast
next
  case (Cons c codes)
  obtain k1 cs where k1: "keyboard_irq n c (k, s) = kbind (type_all n (keyboardStdin k) cs s) (\<lambda>s. Inr (k1, s))"
      "keyboardStdin k1 = keyboardStdin k" "ext1Code k1 \<longrightarrow> c = 0xE0"
    using irq_safe [of k c n s] Cons.prems(2) unfolding harmless_def by auto
  have "no_e0_e1 codes" "ext1Code k1 \<Longrightarrow> codes \<noteq> [] \<Longrightarrow> hd codes \<noteq> 0xE1"
    using Cons.prems(1) k1(3) by (cases codes; auto)+
  then have step: "\<exists>k' ds. keyboard_irqs n codes (k1, s') = kbind (type_all n (keyboardStdin k) ds s') (\<lambda>s. Inr (k', s))" for s'
    using Cons.IH [of k1 s'] k1(2) by simp
  show ?case
  proof (cases "type_all n (keyboardStdin k) cs s")
    case (Inl e)
    then show ?thesis using k1(1) by (intro exI [of _ k1] exI [of _ cs]) simp
  next
    case (Inr s')
    obtain k' ds where "keyboard_irqs n codes (k1, s') = kbind (type_all n (keyboardStdin k) ds s') (\<lambda>s. Inr (k', s))"
      using step by blast
    then show ?thesis using k1(1) Inr by (intro exI [of _ k'] exI [of _ "cs @ ds"]) (simp add: type_all_append)
  qed
qed

text \<open>whatever bytes the keyboard controller delivers, the driver never reads outside its tables, unless the byte
  \<^verbatim>\<open>0xE1\<close> follows the prefix \<^verbatim>\<open>0xE0\<close>: it then takes the byte unmasked as an index of the table of 128 extended keys.
  For all other sequences an error can only come from the console or the pipe.\<close>

theorem keyboard_tables_safe:
  assumes "idle k"
  shows "(no_e0_e1 codes \<longrightarrow>
      (\<exists>k' cs. keyboard_irqs n codes (k, s) = kbind (type_all n (keyboardStdin k) cs s) (\<lambda>s. Inr (k', s)))) \<and>
    keyboard_irqs n [0xE0, 0xE1] (k, s) = Inl MemFault"
proof
  show "no_e0_e1 codes \<longrightarrow>
      (\<exists>k' cs. keyboard_irqs n codes (k, s) = kbind (type_all n (keyboardStdin k) cs s) (\<lambda>s. Inr (k', s)))"
    using assms irqs_safe [of codes k n s] by (simp add: idle_def)
  show "keyboard_irqs n [0xE0, 0xE1] (k, s) = Inl MemFault"
    using assms by (simp add: idle_def keyboard_irq_def processScancode_def key_table_def)
qed

theorem keyboard_tables_safe_witness:
  "\<forall>n s. (\<exists>k' cs. keyboard_irqs n [0xE1, 0x1D, 0x45, 0xE0, 0x1C, 0xFF] (initial_keyboard, s) =
      kbind (type_all n 0 cs s) (\<lambda>s. Inr (k', s))) \<and>
   keyboard_irqs n [0xE0, 0xE1] (initial_keyboard, s) = Inl MemFault"
proof (intro allI)
  fix n s
  have "idle initial_keyboard" "keyboardStdin initial_keyboard = 0" "no_e0_e1 [0xE1, 0x1D, 0x45, 0xE0, 0x1C, 0xFF]"
    by (simp_all add: initial_keyboard_def idle_def)
  then show "(\<exists>k' cs. keyboard_irqs n [0xE1, 0x1D, 0x45, 0xE0, 0x1C, 0xFF] (initial_keyboard, s) =
      kbind (type_all n 0 cs s) (\<lambda>s. Inr (k', s))) \<and> keyboard_irqs n [0xE0, 0xE1] (initial_keyboard, s) = Inl MemFault"
    using keyboard_tables_safe [of initial_keyboard "[0xE1, 0x1D, 0x45, 0xE0, 0x1C, 0xFF]" n s] by (simp del: no_e0_e1.simps)
qed

end
