(* ===== verification/Pic.thy ===== *)
theory Pic
  imports Interrupt Keyboard
begin

text \<open>
  The interrupt controller (\<^verbatim>\<open>hardware/pic.c\<close>), the interval timer (\<^verbatim>\<open>hardware/pit.c\<close>) and the two drivers that are
  attached to them (\<open>timerInit\<close>, \<open>keyboardInit\<close>). What a port reads is the parameter \<open>rd\<close>, a function of the port and of
  everything written before; \<open>reads_back\<close> states what the code relies on: the data port of a controller reads the
  mask that was written last. A function pointer in the table of interrupts has the meaning that it has at the
  time of the call, so \<open>picInit\<close> takes \<open>interrupt_irq\<close> as an argument.
\<close>

unbundle bit_operations_syntax

section \<open>The interrupt controller\<close>

definition PIC1_COMMAND_PORT :: u16 where "PIC1_COMMAND_PORT = 0x20"
definition PIC1_DATA_PORT :: u16 where "PIC1_DATA_PORT = 0x21"
definition PIC2_COMMAND_PORT :: u16 where "PIC2_COMMAND_PORT = 0xA0"
definition PIC2_DATA_PORT :: u16 where "PIC2_DATA_PORT = 0xA1"
definition PIC_EOI :: u8 where "PIC_EOI = 0x20"
definition IRQ_COUNT :: u32 where "IRQ_COUNT = 16"
definition IRQ_PIT :: u32 where "IRQ_PIT = 0"
definition IRQ_KEYBOARD :: u32 where "IRQ_KEYBOARD = 1"
definition IRQ_SLAVE :: u32 where "IRQ_SLAVE = 2"

lemmas pic_ports = PIC1_COMMAND_PORT_def PIC1_DATA_PORT_def PIC2_COMMAND_PORT_def PIC2_DATA_PORT_def

type_synonym irq_callback = "u32 \<Rightarrow> kst \<Rightarrow> sysResult"
type_synonym port_reader = "u16 \<Rightarrow> (u16 \<times> u16) list \<Rightarrow> u8"

record pic =
  irqBase :: u32
  irqTable :: "u32 \<Rightarrow> irq_callback option"

definition unhandled_irq :: "u32 \<Rightarrow> console \<Rightarrow> console kres" where
  "unhandled_irq irq c =
     kbind (consoleWriteString (cstr ''Unhandled IRQ: '') c) (\<lambda>c.
     kbind (consoleWriteHex32 irq c) (consoleWriteString (cstr ''\<newline>'')))"

definition send_eoi :: "u32 \<Rightarrow> console \<Rightarrow> console" where
  "send_eoi irq c = outb PIC1_COMMAND_PORT PIC_EOI (if irq \<ge> 8 then outb PIC2_COMMAND_PORT PIC_EOI c else c)"

definition interrupt_irq :: "pic \<Rightarrow> interrupt_callback" where
  "interrupt_irq p interrupt error cr2 t s =
     (let irq = interrupt - irqBase p in
      kassert (irq < IRQ_COUNT) (kassert (irq \<noteq> IRQ_SLAVE) (
      kbind (case irqTable p irq of Some callback \<Rightarrow> callback irq s
             | None \<Rightarrow> kbind (unhandled_irq irq (console s)) (\<lambda>c. Inr (s\<lparr>console := c\<rparr>, INTERRUPT_CONTINUE_EXECUTION)))
        (\<lambda>(s, status). Inr (s\<lparr>console := send_eoi irq (console s)\<rparr>, status)))))"

text \<open>The initialisation words; the second one goes to the first controller again, as in the source.\<close>

definition pic_words :: "u32 \<Rightarrow> (u16 \<times> u8) list" where
  "pic_words interruptOffset =
     [(PIC1_COMMAND_PORT, 0x11), (PIC1_COMMAND_PORT, 0x11),
      (PIC1_DATA_PORT, ucast interruptOffset), (PIC2_DATA_PORT, ucast (interruptOffset + 8)),
      (PIC1_DATA_PORT, 4), (PIC2_DATA_PORT, 2),
      (PIC1_DATA_PORT, 1), (PIC2_DATA_PORT, 1),
      (PIC1_DATA_PORT, 0x0F AND NOT (ucast IRQ_SLAVE)), (PIC2_DATA_PORT, 0x0F)]"

primrec reserve_irqs :: "nat \<Rightarrow> u32 \<Rightarrow> interrupt_callback \<Rightarrow> interruptTable \<Rightarrow> interruptTable kres" where
  "reserve_irqs 0 interruptOffset h table = Inr table"
| "reserve_irqs (Suc n) interruptOffset h table =
     kbind (interruptReserve (interruptOffset + (IRQ_COUNT - of_nat (Suc n))) h table) (\<lambda>(table, ok).
     kassert ok (reserve_irqs n interruptOffset h table))"

definition picInit :: "interrupt_callback \<Rightarrow> u32 \<Rightarrow> interruptTable \<Rightarrow> console \<Rightarrow> (pic \<times> interruptTable \<times> console) kres" where
  "picInit h interruptOffset table c =
     kassert (interruptOffset AND 7 = 0) (
     let c = fold (\<lambda>(port, v). outb port v) (pic_words interruptOffset) c in
     kbind (reserve_irqs (unat IRQ_COUNT) interruptOffset h table) (\<lambda>table.
     Inr (\<lparr>irqBase = interruptOffset, irqTable = (\<lambda>_. None)\<rparr>, table, c)))"

definition inb :: "port_reader \<Rightarrow> u16 \<Rightarrow> console \<Rightarrow> u8" where
  "inb rd port c = rd port (ioLog c)"

definition irq_port :: "u32 \<Rightarrow> u16 \<times> nat" where
  "irq_port irq = (if irq < 8 then (PIC1_DATA_PORT, unat irq) else (PIC2_DATA_PORT, unat (irq - 8)))"

definition picReserveIRQ :: "port_reader \<Rightarrow> u32 \<Rightarrow> irq_callback \<Rightarrow> pic \<times> console \<Rightarrow> ((pic \<times> console) \<times> bool) kres" where
  "picReserveIRQ rd irq callback = (\<lambda>(p, c).
     kassert (irq < IRQ_COUNT) (
     if irqTable p irq \<noteq> None then Inr ((p, c), False)
     else kassert (irq \<noteq> IRQ_SLAVE) (
       let p = p\<lparr>irqTable := (irqTable p)(irq \<mapsto> callback)\<rparr>;
           (port, i) = irq_port irq
       in Inr ((p, outb port (inb rd port c AND NOT (push_bit i 1)) c), True))))"

definition picFreeIRQ :: "port_reader \<Rightarrow> u32 \<Rightarrow> pic \<times> console \<Rightarrow> (pic \<times> console) kres" where
  "picFreeIRQ rd irq = (\<lambda>(p, c).
     kassert (irq < IRQ_COUNT) (
     if irqTable p irq = None then Inr (p, c)
     else kassert (irq \<noteq> IRQ_SLAVE) (
       let p = p\<lparr>irqTable := (irqTable p)(irq := None)\<rparr>;
           (port, i) = irq_port irq
       in Inr (p, outb port (inb rd port c OR push_bit i 1) c))))"

section \<open>The interval timer\<close>

definition PIT_CONTROL_VALUE :: "u32 \<Rightarrow> u32 \<Rightarrow> u32 \<Rightarrow> u32 \<Rightarrow> u32" where
  "PIT_CONTROL_VALUE format mode' register channel = push_bit 6 channel OR push_bit 4 register OR push_bit 1 mode' OR format"

definition PIT_MODE_PORT :: u16 where "PIT_MODE_PORT = 0x43"
definition PIT_CHANNEL_BASE :: u16 where "PIT_CHANNEL_BASE = 0x40"
definition PIT_CHANNEL_COUNT :: u32 where "PIT_CHANNEL_COUNT = 3"
definition PIT_FREQUENCY :: u32 where "PIT_FREQUENCY = 1193182"
definition PIT_MODE_RATE_GENERATOR :: u32 where "PIT_MODE_RATE_GENERATOR = 2"

definition pitSetValue :: "u32 \<Rightarrow> u32 \<Rightarrow> u16 \<Rightarrow> console \<Rightarrow> console kres" where
  "pitSetValue channel mode' value c =
     kassert (channel < PIT_CHANNEL_COUNT) (
     let port = PIT_CHANNEL_BASE + ucast channel in
     Inr (outb port (ucast (drop_bit 8 value)) (outb port (ucast (value AND 0xFF))
       (outb PIT_MODE_PORT (ucast (PIT_CONTROL_VALUE 0 mode' 3 channel)) c))))"

definition pitSetFrequency :: "u32 \<Rightarrow> u32 \<Rightarrow> console \<Rightarrow> console kres" where
  "pitSetFrequency channel frequency c =
     kassert (channel < PIT_CHANNEL_COUNT) (
     if frequency = 0 then Inl DivideError
     else let value = PIT_FREQUENCY div frequency in
       kassert (value \<noteq> 0) (pitSetValue channel PIT_MODE_RATE_GENERATOR (ucast value) c))"

section \<open>The drivers\<close>

definition timerInit :: "port_reader \<Rightarrow> irq_callback \<Rightarrow> pic \<times> console \<Rightarrow> (pic \<times> console) kres" where
  "timerInit rd timer_irq' = (\<lambda>(p, c).
     kbind (pitSetFrequency 0 TIMER_INTERRUPT_FREQUENCY c) (\<lambda>c.
     kbind (picReserveIRQ rd IRQ_PIT timer_irq' (p, c)) (\<lambda>((p, c), _). Inr (p, c))))"

definition keyboardInit :: "port_reader \<Rightarrow> irq_callback \<Rightarrow> addr \<Rightarrow> u8 list \<Rightarrow> keyboard \<Rightarrow> pic \<times> console \<Rightarrow>
    (u8 list \<times> keyboard \<times> pic \<times> console) option kres" where
  "keyboardInit rd keyboard_irq' obj vs k = (\<lambda>(p, c).
     kbind (picReserveIRQ rd IRQ_KEYBOARD keyboard_irq' (p, c)) (\<lambda>((p, c), _).
     Inr (case keyboard_start obj vs (k, c) of None \<Rightarrow> None | Some (vs, k, c) \<Rightarrow> Some (vs, k, p, c))))"

section \<open>Masks\<close>

definition reads_back :: "port_reader \<Rightarrow> bool" where
  "reads_back rd \<longleftrightarrow>
     (\<forall>log port v. port = PIC1_DATA_PORT \<or> port = PIC2_DATA_PORT \<longrightarrow> rd port (log @ [(port, ucast v)]) = v) \<and>
     (\<forall>log port port' v. port \<noteq> port' \<longrightarrow> rd port (log @ [(port', v)]) = rd port log)"

definition masked :: "port_reader \<Rightarrow> console \<Rightarrow> u32 \<Rightarrow> bool" where
  "masked rd c irq = (case irq_port irq of (port, i) \<Rightarrow> bit (inb rd port c) i)"

datatype pic_op = Reserve u32 irq_callback | Free u32

primrec pic_do :: "port_reader \<Rightarrow> pic_op \<Rightarrow> pic \<times> console \<Rightarrow> (pic \<times> console) kres" where
  "pic_do rd (Reserve irq callback) x = kbind (picReserveIRQ rd irq callback x) (\<lambda>(x, _). Inr x)"
| "pic_do rd (Free irq) x = picFreeIRQ rd irq x"

primrec pic_run :: "port_reader \<Rightarrow> pic_op list \<Rightarrow> pic \<times> console \<Rightarrow> (pic \<times> console) kres" where
  "pic_run rd [] x = Inr x"
| "pic_run rd (op # ops) x = kbind (pic_do rd op x) (pic_run rd ops)"

definition reserves :: "u32 \<Rightarrow> pic_op \<Rightarrow> bool" where
  "reserves irq op = (case op of Reserve i _ \<Rightarrow> i = irq | Free _ \<Rightarrow> False)"

lemma irq_port_inj:
  assumes "irq < IRQ_COUNT" "irq' < IRQ_COUNT" "irq_port irq = irq_port irq'" shows "irq = irq'"
  using assms by (auto simp: irq_port_def pic_ports IRQ_COUNT_def word_unat_eq_iff split: if_splits)
    (metis diff_add_cancel word_unat_eq_iff)+

lemma irq_port_less: "irq < IRQ_COUNT \<Longrightarrow> snd (irq_port irq) < 8"
proof -
  assume "irq < IRQ_COUNT"
  then have "unat irq < 16" by (simp add: IRQ_COUNT_def word_less_nat_alt)
  moreover have "unat (irq - 8) = unat irq - 8" if "\<not> irq < 8"
    using that unat_sub [of 8 irq] by simp
  ultimately show ?thesis by (auto simp: irq_port_def word_less_nat_alt)
qed

lemma irq_port_data: "fst (irq_port irq) = PIC1_DATA_PORT \<or> fst (irq_port irq) = PIC2_DATA_PORT"
  by (simp add: irq_port_def)

lemma inb_outb:
  assumes "reads_back rd" and "port = PIC1_DATA_PORT \<or> port = PIC2_DATA_PORT"
  shows "inb rd port (outb port' v c) = (if port = port' then v else inb rd port c)"
  using assms by (auto simp: reads_back_def inb_def outb_def)

lemma masked_outb:
  assumes "reads_back rd" "irq < IRQ_COUNT" "irq' < IRQ_COUNT" "irq_port irq = (port, i)"
  shows "masked rd (outb port (inb rd port c AND NOT (push_bit i 1)) c) irq' = (irq' \<noteq> irq \<and> masked rd c irq')"
    and "masked rd (outb port (inb rd port c OR push_bit i 1) c) irq' = (irq' = irq \<or> masked rd c irq')"
proof -
  obtain port' j where p': "irq_port irq' = (port', j)" by (cases "irq_port irq'")
  have j: "j < 8" "i < 8" using irq_port_less [OF assms(2)] irq_port_less [OF assms(3)] assms(4) p' by simp_all
  have data: "port' = PIC1_DATA_PORT \<or> port' = PIC2_DATA_PORT" using irq_port_data [of irq'] p' by simp
  have eq: "irq' = irq \<longleftrightarrow> port' = port \<and> j = i"
    using irq_port_inj [OF assms(2,3)] assms(4) p' by auto
  have b: "bit (push_bit i (1 :: u8)) j \<longleftrightarrow> j = i" using j by (auto simp: bit_simps)
  show "masked rd (outb port (inb rd port c AND NOT (push_bit i 1)) c) irq' = (irq' \<noteq> irq \<and> masked rd c irq')"
    using j b by (auto simp: masked_def p' inb_outb [OF assms(1) data] eq bit_and_iff bit_not_iff)
  show "masked rd (outb port (inb rd port c OR push_bit i 1) c) irq' = (irq' = irq \<or> masked rd c irq')"
    using j b by (auto simp: masked_def p' inb_outb [OF assms(1) data] eq bit_or_iff)
qed

text \<open>An IRQ that was never reserved keeps the mask of the initialisation, every other one is masked exactly while
  it has no callback.\<close>

definition initially_masked :: "u32 \<Rightarrow> bool" where
  "initially_masked irq \<longleftrightarrow> irq \<in> {0, 2, 3, 8, 9, 10, 11}"

definition mask_inv :: "port_reader \<Rightarrow> u32 \<Rightarrow> bool \<Rightarrow> pic \<times> console \<Rightarrow> bool" where
  "mask_inv rd irq touched = (\<lambda>(p, c).
     masked rd c irq = (if touched then irqTable p irq = None else initially_masked irq) \<and>
     (\<not> touched \<longrightarrow> irqTable p irq = None) \<and> (irq = IRQ_SLAVE \<longrightarrow> \<not> touched))"

lemma pic_do_inv:
  assumes "reads_back rd" and "irq < IRQ_COUNT" and "mask_inv rd irq touched x" and "pic_do rd op x = Inr y"
  shows "mask_inv rd irq (touched \<or> reserves irq op) y"
proof (cases op)
  case (Reserve i callback)
  obtain p c where x: "x = (p, c)" by (cases x)
  obtain port j where pj: "irq_port i = (port, j)" by (cases "irq_port i")
  show ?thesis
  proof (cases "irqTable p i")
    case (Some f)
    then have "y = x" using assms(4) by (auto simp: Reserve x picReserveIRQ_def kbind_eq_Inr)
    then show ?thesis using assms(3) Some by (auto simp: mask_inv_def reserves_def Reserve x)
  next
    case None
    then have i: "i < IRQ_COUNT" "i \<noteq> IRQ_SLAVE" and
      y: "y = (p\<lparr>irqTable := (irqTable p)(i \<mapsto> callback)\<rparr>, outb port (inb rd port c AND NOT (push_bit j 1)) c)"
      using assms(4) by (auto simp: Reserve x picReserveIRQ_def kbind_eq_Inr pj)
    show ?thesis using assms(3) i(2) masked_outb(1) [OF assms(1) i(1) assms(2) pj, of c]
      by (auto simp: mask_inv_def reserves_def Reserve x y)
  qed
next
  case (Free i)
  obtain p c where x: "x = (p, c)" by (cases x)
  obtain port j where pj: "irq_port i = (port, j)" by (cases "irq_port i")
  show ?thesis
  proof (cases "irqTable p i = None")
    case True
    then have "y = x" using assms(4) by (auto simp: Free x picFreeIRQ_def)
    then show ?thesis using assms(3) by (simp add: reserves_def Free)
  next
    case False
    then have i: "i < IRQ_COUNT" and y: "y = (p\<lparr>irqTable := (irqTable p)(i := None)\<rparr>, outb port (inb rd port c OR push_bit j 1) c)"
      using assms(4) by (auto simp: Free x picFreeIRQ_def pj)
    show ?thesis using assms(3) False masked_outb(2) [OF assms(1) i assms(2) pj, of c]
      by (auto simp: mask_inv_def reserves_def Free x y)
  qed
qed

lemma pic_run_inv:
  assumes "reads_back rd" and "irq < IRQ_COUNT" and "mask_inv rd irq touched x" and "pic_run rd ops x = Inr y"
  shows "mask_inv rd irq (touched \<or> list_ex (reserves irq) ops) y"
  using assms(3,4)
proof (induction ops arbitrary: x touched)
  case (Cons op ops)
  obtain x' where x': "pic_do rd op x = Inr x'" "pic_run rd ops x' = Inr y" using Cons.prems(2) by (auto simp: kbind_eq_Inr)
  show ?case using Cons.IH [OF pic_do_inv [OF assms(1,2) Cons.prems(1) x'(1)] x'(2)] by (simp add: disj_assoc)
qed simp

lemma irq_cases:
  "irq < IRQ_COUNT \<Longrightarrow> irq \<in> set (map of_nat [0..<16])"
proof -
  assume "irq < IRQ_COUNT"
  then have "unat irq \<in> set [0..<16]" by (simp add: IRQ_COUNT_def word_less_nat_alt)
  then have "of_nat (unat irq) \<in> set (map (of_nat :: nat \<Rightarrow> u32) [0..<16])" by (metis image_eqI list.set_map)
  then show ?thesis by simp
qed

lemma initial_masks:
  "list_all (\<lambda>irq. bit (if irq < 8 then 0x0D else 0x0F :: u8) (snd (irq_port irq)) = initially_masked irq) (map of_nat [0..<16])"
  by (simp add: upt_rec irq_port_def initially_masked_def bit_numeral_simps)

lemma picInit_inv:
  assumes "reads_back rd" and "irq < IRQ_COUNT" and "picInit h off table c = Inr (p, table', c')"
  shows "mask_inv rd irq False (p, c')"
proof -
  have "c' = fold (\<lambda>(port, v). outb port v) (pic_words off) c" "irqTable p irq = None"
    using assms(3) by (auto simp: picInit_def Let_def kbind_eq_Inr)
  then have "inb rd PIC1_DATA_PORT c' = 0x0D" "inb rd PIC2_DATA_PORT c' = 0x0F" "irqTable p irq = None"
    using inb_outb [OF assms(1)] by (simp_all add: pic_words_def pic_ports IRQ_SLAVE_def)
  moreover have "bit (if irq < 8 then 0x0D else 0x0F :: u8) (snd (irq_port irq)) = initially_masked irq"
    using initial_masks irq_cases [OF assms(2)] by (auto simp only: list_all_iff)
  ultimately show ?thesis by (auto simp: mask_inv_def masked_def irq_port_def split: if_splits)
qed

text \<open>C39: the masks of the interrupt controllers. After the initialisation and any sequence of reservations and releases,
  an IRQ that some driver reserved is masked exactly while it has no callback, and all others keep the initial mask; that mask
  lets the IRQs 1, 4 to 7 and 12 to 15 through, which have no driver. The line 2, through which all IRQs of the second controller
  reach the processor, is masked at any time, so no IRQ from 8 on is ever delivered.\<close>

theorem pic_masks:
  assumes "reads_back rd" and "picInit h off table c0 = Inr (p0, table', c1)"
    and "pic_run rd ops (p0, c1) = Inr (p, c)" and "irq < IRQ_COUNT"
  shows "masked rd c irq = (if list_ex (reserves irq) ops then irqTable p irq = None else irq \<in> {0, 2, 3, 8, 9, 10, 11}) \<and>
    masked rd c IRQ_SLAVE"
proof -
  have inv: "mask_inv rd i (list_ex (reserves i) ops) (p, c)" if "i < IRQ_COUNT" for i
    using pic_run_inv [OF assms(1) that picInit_inv [OF assms(1) that assms(2)] assms(3)] by simp
  have "IRQ_SLAVE < IRQ_COUNT" "initially_masked IRQ_SLAVE" by (simp_all add: IRQ_SLAVE_def IRQ_COUNT_def initially_masked_def)
  then show ?thesis using inv [OF assms(4)] inv [of IRQ_SLAVE] by (simp add: mask_inv_def initially_masked_def)
qed

text \<open>A reader for which the hypothesis holds: the last value written to the port.\<close>

definition last_write :: port_reader where
  "last_write port log = (case filter (\<lambda>(q, _). q = port) (rev log) of [] \<Rightarrow> 0xFF | (_, v) # _ \<Rightarrow> ucast v)"

lemma ucast_byte: "ucast (ucast v :: u16) = (v :: u8)"
  by (rule bit_word_eqI) (simp add: bit_simps)

lemma reads_back_last_write: "reads_back last_write"
  by (simp add: reads_back_def last_write_def pic_ports ucast_byte)

section \<open>Delivery\<close>

definition in_range :: "u32 \<Rightarrow> nat \<Rightarrow> u32 \<Rightarrow> bool" where
  "in_range off n i \<longleftrightarrow> unat off + 16 - n \<le> unat i \<and> unat i < unat off + 16"

lemma irq_number:
  assumes "n < 16" and "unat off + 16 \<le> 256"
  shows "unat (off + (IRQ_COUNT - of_nat (Suc n))) = unat off + 16 - Suc n"
proof -
  have "IRQ_COUNT - of_nat (Suc n) = (of_nat (16 - Suc n) :: u32)"
    using assms(1) by (simp add: IRQ_COUNT_def of_nat_diff)
  then have "off + (IRQ_COUNT - of_nat (Suc n)) = of_nat (unat off + (16 - Suc n))"
    by (simp only: of_nat_add) simp
  then have "off + (IRQ_COUNT - of_nat (Suc n)) = of_nat (unat off + 16 - Suc n)" using assms(1) by simp
  moreover have "unat off + 16 - Suc n < 2 ^ 32" using assms by simp
  ultimately show ?thesis by (simp add: unsigned_of_nat take_bit_nat_eq_self)
qed

lemma reserve_irqs_all:
  assumes "n \<le> 16" and "unat off + 16 \<le> 256" and "\<And>i. in_range off n i \<Longrightarrow> table i = None"
  shows "reserve_irqs n off h table = Inr (\<lambda>i. if in_range off n i then Some h else table i)"
  using assms
proof (induction n arbitrary: table)
  case 0
  then show ?case by (auto simp: in_range_def)
next
  case (Suc n)
  define w where "w = off + (IRQ_COUNT - of_nat (Suc n))"
  have w: "unat w = unat off + 16 - Suc n" unfolding w_def using irq_number Suc.prems by simp
  then have "w < IDT_MAX_COUNT" using Suc.prems(1,2) by (simp add: IDT_MAX_COUNT_def word_less_nat_alt)
  have split: "in_range off (Suc n) i \<longleftrightarrow> i = w \<or> in_range off n i" for i
    using w Suc.prems(1) by (auto simp: in_range_def word_unat_eq_iff)
  have "\<not> in_range off n w" using w Suc.prems(1) by (simp add: in_range_def)
  then have "(table(w \<mapsto> h)) i = None" if "in_range off n i" for i
    using that Suc.prems(3) split by auto
  then have rest: "reserve_irqs n off h (table(w \<mapsto> h)) = Inr (\<lambda>i. if in_range off n i then Some h else (table(w \<mapsto> h)) i)"
    using Suc.prems(1,2) by (intro Suc.IH) simp_all
  have "table w = None" using Suc.prems(3) split by simp
  then have "interruptReserve w h table = Inr (table(w \<mapsto> h), True)"
    using \<open>w < IDT_MAX_COUNT\<close> by (simp add: interruptReserve_def)
  then have "reserve_irqs (Suc n) off h table = reserve_irqs n off h (table(w \<mapsto> h))"
    unfolding reserve_irqs.simps w_def [symmetric] by simp
  then show ?case unfolding rest by (auto simp: split)
qed

lemma picInit_returns:
  assumes "off AND 7 = 0" and "unat off + 16 \<le> 256" and "\<And>i. in_range off 16 i \<Longrightarrow> table i = None"
  shows "picInit h off table c = Inr (\<lparr>irqBase = off, irqTable = (\<lambda>_. None)\<rparr>,
    (\<lambda>i. if in_range off 16 i then Some h else table i), fold (\<lambda>(port, v). outb port v) (pic_words off) c)"
  using reserve_irqs_all [of 16 off table h] assms by (simp add: picInit_def IRQ_COUNT_def)

theorem pic_masks_witness:
  "\<forall>c cb. \<exists>p0 table c1 p c'. picInit (interrupt_irq p) 0x20 (\<lambda>_. None) c = Inr (p0, table, c1) \<and>
     pic_run last_write [Reserve 0 cb, Reserve 9 cb, Free 0] (p0, c1) = Inr (p, c') \<and>
     masked last_write c' 0 \<and> \<not> masked last_write c' 9 \<and> masked last_write c' IRQ_SLAVE"
proof (intro allI)
  fix c and cb :: irq_callback
  define p0 :: pic where "p0 = \<lparr>irqBase = 0x20, irqTable = (\<lambda>_. None)\<rparr>"
  define c1 where "c1 = fold (\<lambda>(port, v). outb port v) (pic_words 0x20) c"
  obtain p c' where run: "pic_run last_write [Reserve 0 cb, Reserve 9 cb, Free 0] (p0, c1) = Inr (p, c')" "irqTable p 0 = None" "irqTable p 9 \<noteq> None"
    by (simp add: picReserveIRQ_def picFreeIRQ_def p0_def IRQ_COUNT_def IRQ_SLAVE_def irq_port_def Let_def)
  have init: "picInit (interrupt_irq p) 0x20 (\<lambda>_. None) c =
      Inr (p0, (\<lambda>i. if in_range 0x20 16 i then Some (interrupt_irq p) else None), c1)"
    using picInit_returns [of "0x20" "\<lambda>_. None" "interrupt_irq p" c] by (simp add: p0_def c1_def)
  have "masked last_write c' 0" "\<not> masked last_write c' 9" "masked last_write c' IRQ_SLAVE"
    using pic_masks [OF reads_back_last_write init run(1), of 0] pic_masks [OF reads_back_last_write init run(1), of 9] run(2,3)
    by (simp_all add: reserves_def IRQ_COUNT_def)
  then show "\<exists>p0 table c1 p c'. picInit (interrupt_irq p) 0x20 (\<lambda>_. None) c = Inr (p0, table, c1) \<and>
     pic_run last_write [Reserve 0 cb, Reserve 9 cb, Free 0] (p0, c1) = Inr (p, c') \<and>
     masked last_write c' 0 \<and> \<not> masked last_write c' 9 \<and> masked last_write c' IRQ_SLAVE"
    using init run(1) by blast
qed

text \<open>C40: an IRQ reaches its driver. When the controller was initialised for the vectors from \<open>off\<close> on and a driver is
  registered for an IRQ, dispatching the vector of the IRQ runs exactly this driver, with the number of the IRQ, keeps its status
  and acknowledges the IRQ: at the first controller, and before that at the second one if the IRQ belongs to it. The vectors
  outside of the sixteen keep their handlers.\<close>

theorem irq_delivered:
  assumes "picInit (interrupt_irq p) off table c = Inr (p0, table', c1)"
    and "irqBase p = irqBase p0" and "irqTable p irq = Some callback" and "irq < IRQ_COUNT" and "irq \<noteq> IRQ_SLAVE"
    and "unat off + 16 \<le> 256" and "\<And>i. in_range off 16 i \<Longrightarrow> table i = None"
    and "callback irq s = Inr (s', st)" and "t = 0 \<or> st \<noteq> INTERRUPT_UNHANDLED"
  shows "dispatchInterrupt table' (off + irq) error cr2 t s =
      Inr (s'\<lparr>console := (console s')\<lparr>ioLog := ioLog (console s') @
        (if irq \<ge> 8 then [(PIC2_COMMAND_PORT, 0x20)] else []) @ [(PIC1_COMMAND_PORT, 0x20)]\<rparr>\<rparr>, st) \<and>
    (\<forall>i. \<not> in_range off 16 i \<longrightarrow> table' i = table i)"
proof -
  have off: "off AND 7 = 0" using assms(1) by (auto simp: picInit_def kassert_def split: if_splits)
  have t': "table' = (\<lambda>i. if in_range off 16 i then Some (interrupt_irq p) else table i)" "irqBase p0 = off"
    using assms(1) picInit_returns [OF off assms(6,7), where h = "interrupt_irq p" and c = c] by auto
  have "unat irq < 16" using assms(4) by (simp add: IRQ_COUNT_def word_less_nat_alt)
  then have u: "unat (off + irq) = unat off + unat irq" using assms(6) by (simp add: unat_word_ariths)
  then have num: "off + irq < IDT_MAX_COUNT" "in_range off 16 (off + irq)"
    using \<open>unat irq < 16\<close> assms(6) by (simp_all add: IDT_MAX_COUNT_def word_less_nat_alt in_range_def)
  have "interrupt_irq p (off + irq) error cr2 t s = Inr (s'\<lparr>console := send_eoi irq (console s')\<rparr>, st)"
    using assms(2-5,8) t'(2) by (simp add: interrupt_irq_def)
  then show ?thesis using num assms(9)
    by (auto simp: dispatchInterrupt_def t'(1) send_eoi_def outb_def PIC_EOI_def)
qed

theorem irq_delivered_witness:
  "\<forall>s. \<exists>p p0 table' c1. picInit (interrupt_irq p) 0x20 (\<lambda>_. None) (console s) = Inr (p0, table', c1) \<and>
     dispatchInterrupt table' 0x2C 0 0 0 s =
       Inr (s\<lparr>console := (console s)\<lparr>ioLog := ioLog (console s) @ [(PIC2_COMMAND_PORT, 0x20), (PIC1_COMMAND_PORT, 0x20)]\<rparr>\<rparr>,
            INTERRUPT_YIELD)"
proof
  fix s :: kst
  define cb :: irq_callback where "cb = (\<lambda>_ s. Inr (s, INTERRUPT_YIELD))"
  define p :: pic where "p = \<lparr>irqBase = 0x20, irqTable = [12 \<mapsto> cb]\<rparr>"
  obtain p0 table' c1 where init: "picInit (interrupt_irq p) 0x20 (\<lambda>_. None) (console s) = Inr (p0, table', c1)" "irqBase p0 = 0x20"
    using picInit_returns [of "0x20" "\<lambda>_. None" "interrupt_irq p" "console s"] by auto
  have "dispatchInterrupt table' (0x20 + 12) 0 0 0 s =
      Inr (s\<lparr>console := (console s)\<lparr>ioLog := ioLog (console s) @
        (if (12 :: u32) \<ge> 8 then [(PIC2_COMMAND_PORT, 0x20)] else []) @ [(PIC1_COMMAND_PORT, 0x20)]\<rparr>\<rparr>, INTERRUPT_YIELD)"
    using irq_delivered [OF init(1), of 12 cb s s INTERRUPT_YIELD 0 0 0] init(2)
    by (simp add: p_def cb_def IRQ_COUNT_def IRQ_SLAVE_def)
  then show "\<exists>p p0 table' c1. picInit (interrupt_irq p) 0x20 (\<lambda>_. None) (console s) = Inr (p0, table', c1) \<and>
     dispatchInterrupt table' 0x2C 0 0 0 s =
       Inr (s\<lparr>console := (console s)\<lparr>ioLog := ioLog (console s) @ [(PIC2_COMMAND_PORT, 0x20), (PIC1_COMMAND_PORT, 0x20)]\<rparr>\<rparr>,
            INTERRUPT_YIELD)"
    using init(1) by auto
qed

section \<open>The rate of the timer\<close>

text \<open>The number that the timer chip assembles from the two bytes written to a channel, low byte first.\<close>

definition programmed :: "(u16 \<times> u16) list \<Rightarrow> nat" where
  "programmed log = (case rev log of (_, hi) # (_, lo) # _ \<Rightarrow> unat hi * 256 + unat lo | _ \<Rightarrow> 0)"

lemma split_bytes: "unat (ucast (ucast (drop_bit 8 (v :: u16)) :: u8) :: u16) * 256 + unat (ucast (ucast (v AND 0xFF) :: u8) :: u16) = unat v"
proof -
  have "unat (v AND 0xFF) = unat v mod 256"
  proof -
    have m: "(0xFF :: u16) = mask 8" by (simp add: mask_eq_exp_minus_1)
    show ?thesis unfolding m take_bit_eq_mask [symmetric] by (simp add: take_bit_eq_mod unat_mod)
  qed
  then have lo: "unat (ucast (ucast (v AND 0xFF) :: u8) :: u16) = unat v mod 256"
    by (simp add: unsigned_ucast_eq take_bit_eq_mod unat_mod)
  have "unat (drop_bit 8 v) = unat v div 256" by (simp add: drop_bit_eq_div unat_div)
  moreover have "unat v < 65536" using unsigned_less [of v] by simp
  ultimately have hi: "unat (ucast (ucast (drop_bit 8 v) :: u8) :: u16) = unat v div 256"
    by (simp add: unsigned_ucast_eq take_bit_eq_mod unat_mod)
  show ?thesis by (simp only: lo hi) simp
qed

text \<open>for every frequency in the documented range from 19 Hz to 1193182 Hz the timer channel is programmed with exactly
  the quotient of the base frequency, none of its bits lost in the 16 bits of the chip; a higher frequency stops in the assertion,
  and the frequency 0 divides by zero.\<close>

theorem pit_frequency_exact:
  assumes "channel < PIT_CHANNEL_COUNT"
  shows "(19 \<le> unat frequency \<and> unat frequency \<le> 1193182 \<longrightarrow>
      (\<exists>c'. pitSetFrequency channel frequency c = Inr c' \<and> programmed (ioLog c') = 1193182 div unat frequency)) \<and>
    (1193182 < unat frequency \<longrightarrow> pitSetFrequency channel frequency c = Inl AssertFailed) \<and>
    pitSetFrequency channel 0 c = Inl DivideError"
proof (intro conjI impI)
  have q: "unat (PIT_FREQUENCY div frequency) = 1193182 div unat frequency" by (simp add: PIT_FREQUENCY_def unat_div)
  show "pitSetFrequency channel 0 c = Inl DivideError" using assms by (simp add: pitSetFrequency_def)
  {
    assume f: "19 \<le> unat frequency \<and> unat frequency \<le> 1193182"
    have "1193182 div unat frequency \<le> 1193182 div 19" using f by (intro div_le_mono2) simp_all
    then have "unat (PIT_FREQUENCY div frequency) < 65536" using q by simp
    then have v: "unat (ucast (PIT_FREQUENCY div frequency) :: u16) = 1193182 div unat frequency"
      using q by (simp add: unsigned_ucast_eq take_bit_eq_mod)
    have "1193182 div unat frequency \<noteq> 0" using f by (simp add: div_eq_0_iff)
    then have "PIT_FREQUENCY div frequency \<noteq> 0" using q by auto
    moreover have "frequency \<noteq> 0" using f by auto
    ultimately show "\<exists>c'. pitSetFrequency channel frequency c = Inr c' \<and> programmed (ioLog c') = 1193182 div unat frequency"
      using assms split_bytes [of "ucast (PIT_FREQUENCY div frequency)"] v
      by (simp add: pitSetFrequency_def pitSetValue_def programmed_def outb_def Let_def)
  }
  assume "1193182 < unat frequency"
  then have "1193182 div unat frequency = 0" "frequency \<noteq> 0" by auto
  then have "PIT_FREQUENCY div frequency = 0" using q by (simp add: unat_eq_0)
  then show "pitSetFrequency channel frequency c = Inl AssertFailed"
    using assms \<open>frequency \<noteq> 0\<close> by (simp add: pitSetFrequency_def)
qed

theorem pit_frequency_exact_witness:
  "\<forall>c. \<exists>c'. pitSetFrequency 0 TIMER_INTERRUPT_FREQUENCY c = Inr c' \<and> programmed (ioLog c') = 14551"
  using pit_frequency_exact [of 0 TIMER_INTERRUPT_FREQUENCY]
  by (simp add: PIT_CHANNEL_COUNT_def TIMER_INTERRUPT_FREQUENCY_def)
end
