(* ===== verification/X86.thy ===== *)
theory X86
  imports Console UserMem
begin

text \<open>
  The part of the 32-bit x86 instruction set that the generated code of \<^verbatim>\<open>hardware/gdt.c\<close> consists of: a decoder of
  the machine code and the effect of each instruction. Memory is a function from addresses to double words; the code
  only accesses addresses that differ by multiples of four, so that no two accesses overlap partially. The flags that
  arithmetic instructions set are the parameter \<open>fl\<close>, by the address behind the instruction. Registers and segment registers have the numbers of the
  encoding: \<^verbatim>\<open>eax\<close> 0, \<^verbatim>\<open>ecx\<close> 1, \<^verbatim>\<open>edx\<close> 2, \<^verbatim>\<open>ebx\<close> 3, \<^verbatim>\<open>esp\<close> 4, \<^verbatim>\<open>ebp\<close> 5, \<^verbatim>\<open>esi\<close> 6, \<^verbatim>\<open>edi\<close> 7, and
  \<^verbatim>\<open>es\<close> 0, \<^verbatim>\<open>cs\<close> 1, \<^verbatim>\<open>ss\<close> 2, \<^verbatim>\<open>ds\<close> 3, \<^verbatim>\<open>fs\<close> 4, \<^verbatim>\<open>gs\<close> 5.
\<close>

unbundle bit_operations_syntax

section \<open>Instructions\<close>

datatype instr =
    AddEsp u32
  | SubEsp u32
  | Store nat u32
  | Load nat u32
  | Lea nat u32
  | StoreSeg nat u32
  | Store16 nat u32
  | Load16 nat u32
  | ReadCr3 nat
  | Push nat
  | Pop nat
  | PushMem u32
  | SubEax u32
  | ShrEax nat
  | Call u32
  | JmpFar u32 u16
  | Int3
  | Clts
  | Iret

definition sign_byte :: "u8 \<Rightarrow> u32" where
  "sign_byte b = (if b < 0x80 then ucast b else ucast b OR 0xFFFFFF00)"

text \<open>The operand \<^verbatim>\<open>[esp + displacement]\<close> with its register: a ModRM byte, the SIB byte \<^verbatim>\<open>0x24\<close> and 1 or 4 bytes.\<close>

fun esp_operand :: "u8 list \<Rightarrow> (nat \<times> u32 \<times> nat) option" where
  "esp_operand (m # b # d # bs) =
     (let r = unat (drop_bit 3 m AND 7) in
      if b \<noteq> 0x24 then None
      else if m AND 0xC7 = 0x44 then Some (r, sign_byte d, 3)
      else if m AND 0xC7 = 0x84 then Some (r, le_word (take 4 (d # bs)), 6)
      else None)"
| "esp_operand bs = None"

definition with_operand :: "nat \<Rightarrow> (nat \<Rightarrow> u32 \<Rightarrow> instr) \<Rightarrow> u8 list \<Rightarrow> (instr \<times> nat) option" where
  "with_operand l f bs = (case esp_operand bs of None \<Rightarrow> None | Some (r, d, n) \<Rightarrow> Some (f r d, l + n))"

definition decode2 :: "u8 \<Rightarrow> u8 list \<Rightarrow> (instr \<times> nat) option" where
  "decode2 op code = (case code of [] \<Rightarrow> None | m # bs \<Rightarrow>
     if op = 0x66 then (if m = 0x89 then with_operand 2 Store16 bs else if m = 0x8B then with_operand 2 Load16 bs else None)
     else if op = 0x0F \<and> m = 0x06 then Some (Clts, 2)
     else case bs of [] \<Rightarrow> None | b # _ \<Rightarrow>
       if op = 0x83 \<and> m = 0xC4 then Some (AddEsp (sign_byte b), 3)
       else if op = 0x83 \<and> m = 0xEC then Some (SubEsp (sign_byte b), 3)
       else if op = 0xC1 \<and> m = 0xE8 then Some (ShrEax (unat b), 3)
       else if op = 0x0F \<and> m = 0x20 \<and> b = 0xD8 then Some (ReadCr3 0, 3)
       else None)"

definition decode :: "u8 list \<Rightarrow> (instr \<times> nat) option" where
  "decode code = (case code of [] \<Rightarrow> None | op # bs \<Rightarrow>
     if op = 0x89 then with_operand 1 Store bs
     else if op = 0x8B then with_operand 1 Load bs
     else if op = 0x8D then with_operand 1 Lea bs
     else if op = 0x8C then with_operand 1 StoreSeg bs
     else if op = 0xFF then (case esp_operand bs of Some (r, d, n) \<Rightarrow> if r = 6 then Some (PushMem d, Suc n) else None | None \<Rightarrow> None)
     else if 0x50 \<le> op \<and> op < 0x58 then Some (Push (unat (op AND 7)), 1)
     else if 0x58 \<le> op \<and> op < 0x60 then Some (Pop (unat (op AND 7)), 1)
     else if op = 0x2D then Some (SubEax (le_word (take 4 bs)), 5)
     else if op = 0xE8 then Some (Call (le_word (take 4 bs)), 5)
     else if op = 0xEA then Some (JmpFar (le_word (take 4 bs)) (le_word (take 2 (drop 4 bs))), 7)
     else if op = 0xCC then Some (Int3, 1)
     else if op = 0xCF then Some (Iret, 1)
     else decode2 op bs)"

section \<open>The processor\<close>

record cpu =
  reg :: "nat \<Rightarrow> u32"
  sreg :: "nat \<Rightarrow> u16"
  c_eip :: u32
  c_eflags :: u32
  c_cr3 :: u32
  taskSwitched :: bool
  dword :: "u32 \<Rightarrow> u32"

definition c_esp :: "cpu \<Rightarrow> u32" where "c_esp c = reg c 4"

definition set_reg :: "nat \<Rightarrow> u32 \<Rightarrow> cpu \<Rightarrow> cpu" where "set_reg r v c = c\<lparr>reg := (reg c)(r := v)\<rparr>"

definition poke :: "u32 \<Rightarrow> u32 \<Rightarrow> cpu \<Rightarrow> cpu" where "poke a v c = c\<lparr>dword := (dword c)(a := v)\<rparr>"

definition poke_low :: "u32 \<Rightarrow> u16 \<Rightarrow> cpu \<Rightarrow> cpu" where
  "poke_low a v c = poke a ((dword c a AND 0xFFFF0000) OR ucast v) c"

definition push :: "u32 \<Rightarrow> cpu \<Rightarrow> cpu" where "push v c = poke (c_esp c - 4) v (set_reg 4 (c_esp c - 4) c)"

text \<open>\<open>step\<close> runs with the instruction pointer already behind the instruction. \<^verbatim>\<open>IRET\<close> also restores the stack if it
  leaves to an outer ring.\<close>

primrec step :: "(u32 \<Rightarrow> u32) \<Rightarrow> instr \<Rightarrow> cpu \<Rightarrow> cpu option" where
  "step fl (AddEsp d) c = Some (set_reg 4 (c_esp c + d) c\<lparr>c_eflags := fl (c_eip c)\<rparr>)"
| "step fl (SubEsp d) c = Some (set_reg 4 (c_esp c - d) c\<lparr>c_eflags := fl (c_eip c)\<rparr>)"
| "step fl (Store r d) c = Some (poke (c_esp c + d) (reg c r) c)"
| "step fl (Load r d) c = Some (set_reg r (dword c (c_esp c + d)) c)"
| "step fl (Lea r d) c = Some (set_reg r (c_esp c + d) c)"
| "step fl (StoreSeg r d) c = Some (poke_low (c_esp c + d) (sreg c r) c)"
| "step fl (Store16 r d) c = Some (poke_low (c_esp c + d) (ucast (reg c r)) c)"
| "step fl (Load16 r d) c = Some (set_reg r ((reg c r AND 0xFFFF0000) OR (dword c (c_esp c + d) AND 0xFFFF)) c)"
| "step fl (ReadCr3 r) c = Some (set_reg r (c_cr3 c) c)"
| "step fl (Push r) c = Some (push (reg c r) c)"
| "step fl (Pop r) c = Some (set_reg r (dword c (c_esp c)) (set_reg 4 (c_esp c + 4) c))"
| "step fl (PushMem d) c = Some (push (dword c (c_esp c + d)) c)"
| "step fl (SubEax v) c = Some (set_reg 0 (reg c 0 - v) c\<lparr>c_eflags := fl (c_eip c)\<rparr>)"
| "step fl (ShrEax n) c = Some (set_reg 0 (drop_bit n (reg c 0)) c\<lparr>c_eflags := fl (c_eip c)\<rparr>)"
| "step fl (Call d) c = Some (push (c_eip c) c\<lparr>c_eip := c_eip c + d\<rparr>)"
| "step fl (JmpFar off sel) c = None"
| "step fl Int3 c = None"
| "step fl Clts c = Some (c\<lparr>taskSwitched := False\<rparr>)"
| "step fl Iret c =
     (let a = c_esp c; cs = ucast (dword c (a + 4));
          c' = set_reg 4 (a + 12) c\<lparr>c_eip := dword c a, c_eflags := dword c (a + 8), sreg := (sreg c)(1 := cs)\<rparr>
      in Some (if cs AND 3 = sreg c 1 AND 3 then c'
               else set_reg 4 (dword c (a + 12)) c'\<lparr>sreg := (sreg c')(2 := ucast (dword c (a + 16)))\<rparr>))"

section \<open>Running code\<close>

definition fetch :: "u32 \<Rightarrow> u8 list \<Rightarrow> u32 \<Rightarrow> u8 list" where
  "fetch base page a = drop (unat (a - base)) page"

primrec run :: "(u32 \<Rightarrow> u32) \<Rightarrow> u32 \<Rightarrow> u8 list \<Rightarrow> nat \<Rightarrow> cpu \<Rightarrow> cpu option" where
  "run fl base page 0 c = Some c"
| "run fl base page (Suc n) c =
     (case decode (fetch base page (c_eip c)) of None \<Rightarrow> None
      | Some (i, l) \<Rightarrow> (case step fl i (c\<lparr>c_eip := c_eip c + of_nat l\<rparr>) of None \<Rightarrow> None | Some c \<Rightarrow> run fl base page n c))"

definition straight :: "instr \<Rightarrow> bool" where
  "straight i = (case i of Call _ \<Rightarrow> False | JmpFar _ _ \<Rightarrow> False | Int3 \<Rightarrow> False | Iret \<Rightarrow> False | _ \<Rightarrow> True)"

fun disassemble :: "nat \<Rightarrow> u8 list \<Rightarrow> ((instr \<times> nat) list \<times> u8 list) option" where
  "disassemble 0 code = Some ([], code)"
| "disassemble (Suc n) code = (case decode code of None \<Rightarrow> None
     | Some (i, l) \<Rightarrow> if \<not> straight i \<or> length code < l then None else (case disassemble n (drop l code) of None \<Rightarrow> None
         | Some (is, rest) \<Rightarrow> Some ((i, l) # is, rest)))"

primrec exec :: "(u32 \<Rightarrow> u32) \<Rightarrow> (instr \<times> nat) list \<Rightarrow> cpu \<Rightarrow> cpu" where
  "exec fl [] c = c"
| "exec fl (x # xs) c = exec fl xs (the (step fl (fst x) (c\<lparr>c_eip := c_eip c + of_nat (snd x)\<rparr>)))"

lemma run_add: "run fl base page (m + n) c = (case run fl base page m c of None \<Rightarrow> None | Some c \<Rightarrow> run fl base page n c)"
  by (induction m arbitrary: c) (auto split: option.splits)

lemma run_last:
  assumes "run fl base page n c = Some c1" and "decode (fetch base page (c_eip c1)) = Some (i, l)"
  shows "run fl base page (n + 1) c = step fl i (c1\<lparr>c_eip := c_eip c1 + of_nat l\<rparr>)"
  unfolding run_add assms(1)
  using assms(2) by (cases "step fl i (c1\<lparr>c_eip := c_eip c1 + of_nat l\<rparr>)") (simp_all del: step.simps)

lemma esp_operand_length: "esp_operand bs = Some (r, d, n) \<Longrightarrow> n \<le> 6"
  by (cases bs rule: esp_operand.cases) (auto simp: Let_def split: if_splits)

lemma with_operand_length: "with_operand k f bs = Some (i, l) \<Longrightarrow> l \<le> k + 6"
  by (auto simp: with_operand_def dest: esp_operand_length split: option.splits)

lemma decode2_length: "decode2 op bs = Some (i, l) \<Longrightarrow> l \<le> 8"
  by (auto simp: decode2_def dest!: with_operand_length split: list.splits if_splits)

lemma decode_length: "decode code = Some (i, l) \<Longrightarrow> l \<le> 8"
  by (auto simp: decode_def dest!: with_operand_length esp_operand_length decode2_length split: list.splits if_splits option.splits)

lemma step_straight:
  assumes "straight i" shows "\<exists>c'. step fl i c = Some c' \<and> c_eip c' = c_eip c"
  using assms by (cases i) (simp_all add: straight_def set_reg_def poke_def poke_low_def push_def)

lemma fetch_next:
  assumes "unat (a - base) + l < 2 ^ 32"
  shows "fetch base page (a + of_nat l) = drop l (fetch base page a)" "unat (a + of_nat l - base) = unat (a - base) + l"
proof -
  define d where "d = a - base"
  have "unat (d + of_nat l) = unat d + l"
    using assms by (simp add: d_def [symmetric] unat_word_ariths unsigned_of_nat take_bit_eq_mod)
  moreover have "a + of_nat l - base = d + of_nat l" by (simp add: d_def)
  ultimately show "unat (a + of_nat l - base) = unat (a - base) + l" by (simp only: d_def)
  then show "fetch base page (a + of_nat l) = drop l (fetch base page a)" by (simp add: fetch_def add.commute)
qed

lemma run_straight:
  assumes "disassemble n (fetch base page (c_eip c)) = Some (is, rest)" and "unat (c_eip c - base) + 8 * n < 2 ^ 32"
  shows "run fl base page n c = Some (exec fl is c) \<and> c_eip (exec fl is c) = c_eip c + of_nat (sum_list (map snd is)) \<and>
    fetch base page (c_eip (exec fl is c)) = rest"
  using assms
proof (induction n arbitrary: c "is" rest)
  case 0 then show ?case by simp
next
  case (Suc n)
  obtain i l where i: "decode (fetch base page (c_eip c)) = Some (i, l)" "straight i"
    using Suc.prems(1) by (auto split: option.splits if_splits)
  then obtain is' where is': "disassemble n (drop l (fetch base page (c_eip c))) = Some (is', rest)" "is = (i, l) # is'"
    using Suc.prems(1) by (auto split: option.splits prod.splits if_splits)
  define c1 where "c1 = c\<lparr>c_eip := c_eip c + of_nat l\<rparr>"
  obtain c2 where c2: "step fl i c1 = Some c2" "c_eip c2 = c_eip c + of_nat l"
    using step_straight [OF i(2), of fl c1] by (auto simp: c1_def)
  have l: "unat (c_eip c - base) + l < 2 ^ 32" using decode_length [OF i(1)] Suc.prems(2) by simp
  have "unat (c_eip c2 - base) + 8 * n < 2 ^ 32"
    unfolding c2(2) fetch_next(2) [OF l] using decode_length [OF i(1)] Suc.prems(2) by simp
  then have "run fl base page n c2 = Some (exec fl is' c2) \<and>
      c_eip (exec fl is' c2) = c_eip c2 + of_nat (sum_list (map snd is')) \<and> fetch base page (c_eip (exec fl is' c2)) = rest"
    using is'(1) fetch_next(1) [OF l, of page] c2(2) by (intro Suc.IH) simp_all
  then show ?case using i(1) c2 by (auto simp: is'(2) c1_def)
qed

text \<open>Code that decodes completely decodes the same with anything behind it.\<close>

lemma esp_operand_append: "esp_operand bs = Some (r, d, n) \<Longrightarrow> n \<le> length bs \<Longrightarrow> esp_operand (bs @ suf) = Some (r, d, n)"
  by (cases bs rule: esp_operand.cases) (auto simp: Let_def split: if_splits)

lemma with_operand_append:
  "with_operand k f bs = Some (i, l) \<Longrightarrow> l \<le> k + length bs \<Longrightarrow> with_operand k f (bs @ suf) = Some (i, l)"
  using esp_operand_append by (fastforce simp: with_operand_def split: option.splits prod.splits)

lemma decode2_append:
  assumes "decode2 op bs = Some (i, l)" and "l \<le> Suc (length bs)" shows "decode2 op (bs @ suf) = Some (i, l)"
proof (cases bs)
  case Nil then show ?thesis using assms by (simp add: decode2_def)
next
  case (Cons m bs')
  show ?thesis
  proof (cases "op = 0x66")
    case True
    then show ?thesis using assms with_operand_append [of 2 Store16 bs' i l suf] with_operand_append [of 2 Load16 bs' i l suf]
      by (auto simp: decode2_def Cons split: if_splits)
  next
    case False
    then show ?thesis using assms by (cases bs') (auto simp: decode2_def Cons split: if_splits list.splits)
  qed
qed

lemma decode_append: "decode code = Some (i, l) \<Longrightarrow> l \<le> length code \<Longrightarrow> decode (code @ suf) = Some (i, l)"
proof (cases code)
  case (Cons op bs)
  assume "decode code = Some (i, l)" "l \<le> length code"
  then show ?thesis using with_operand_append [of 1] esp_operand_append decode2_append
    by (fastforce simp: decode_def Cons split: if_splits option.splits prod.splits)
qed (simp add: decode_def)

lemma disassemble_append:
  "disassemble n code = Some (is, rest) \<Longrightarrow> disassemble n (code @ suf) = Some (is, rest @ suf)"
  by (induction n arbitrary: code "is" rest) (fastforce simp: decode_append split: option.splits if_splits prod.splits)+

end
