(* ===== verification/Gdt.thy ===== *)
theory Gdt
  imports X86 Pic
begin

text \<open>
  The descriptor tables, the generated interrupt entries and the switch to user mode (\<^verbatim>\<open>hardware/gdt.c\<close>). The tables are
  lists of descriptors with the bit fields of the source; the pages with generated code are lists of bytes, which the
  decoder of \<open>X86\<close> runs. \<^verbatim>\<open>lgdt\<close>, \<^verbatim>\<open>lidt\<close> and \<^verbatim>\<open>ltr\<close> set registers of the state. What the processor does in user mode is
  the parameter \<open>user\<close> of \<open>tssRunUsermodeThread\<close>.
\<close>

unbundle bit_operations_syntax

section \<open>Descriptors\<close>

record gdtEntry =
  limit1 :: u16
  address1 :: u16
  address2 :: u8
  accessed :: bool
  readWrite :: bool
  dc :: bool
  execute :: bool
  isSystem :: bool
  privlevel :: "2 word"
  g_present :: bool
  limit2 :: "4 word"
  g_user :: bool
  g_reserved :: bool
  is32bit :: bool
  granularity :: bool
  address3 :: u8

record idtEntry =
  addressLow :: u16
  csSelector :: u16
  i_zero :: u8
  i_type :: "4 word"
  storageSegment :: bool
  dpl :: "2 word"
  i_present :: bool
  addressHigh :: u16

definition zero_gdtEntry :: gdtEntry where
  "zero_gdtEntry = \<lparr>limit1 = 0, address1 = 0, address2 = 0, accessed = False, readWrite = False, dc = False, execute = False,
     isSystem = False, privlevel = 0, g_present = False, limit2 = 0, g_user = False, g_reserved = False, is32bit = False,
     granularity = False, address3 = 0\<rparr>"

definition zero_idtEntry :: idtEntry where
  "zero_idtEntry = \<lparr>addressLow = 0, csSelector = 0, i_zero = 0, i_type = 0, storageSegment = False, dpl = 0, i_present = False,
     addressHigh = 0\<rparr>"

definition zero_task :: taskContext where
  "zero_task = \<lparr>prevTask = 0, esp0 = 0, ss0 = 0, esp1 = 0, ss1 = 0, esp2 = 0, ss2 = 0, t_cr3 = 0, eip = 0, eflags = 0, eax = 0,
     ecx = 0, edx = 0, ebx = 0, esp = 0, ebp = 0, esi = 0, edi = 0, seg_es = 0, seg_cs = 0, seg_ss = 0, seg_ds = 0, seg_fs = 0,
     seg_gs = 0, ldt = 0, iomap = 0\<rparr>"

text \<open>A pointer to an entry of the table is its index.\<close>

record gdt =
  gdtTableEntries :: "gdtEntry list"
  gdtReady :: bool
  idtTableEntries :: "idtEntry list"
  taskTable :: u32
  TSS_kernel :: taskContext
  TSS_user :: taskContext
  intJmp_kernel :: "u8 list"
  intJmp_user :: "u8 list"
  stack :: "u32 list"
  codeRing0 :: nat
  dataRing0 :: nat
  codeRing3 :: nat
  dataRing3 :: nat
  kernelTask :: nat
  usermodeTask :: nat
  gdtr :: "u16 \<times> u32"
  idtr :: "u16 \<times> u32"
  taskRegister :: u16

definition GDT_MAX_COUNT :: nat where "GDT_MAX_COUNT = 8192"
definition GDT_MAX_SIZE :: u32 where "GDT_MAX_SIZE = 0x10000"
definition GDT_CPL_MASK :: u16 where "GDT_CPL_MASK = 3"
definition GDT_CPL_RING0 :: u32 where "GDT_CPL_RING0 = 0"
definition GDT_CPL_RING3 :: u32 where "GDT_CPL_RING3 = 3"
definition INT_TYPE_INT32 :: "4 word" where "INT_TYPE_INT32 = 0xE"
definition USERMODE_INTJMP_ENABLE_FPU :: u32 where "USERMODE_INTJMP_ENABLE_FPU = USERMODE_INTJMP_ADDRESS + 2048"
definition TASK_SIZE :: u32 where "TASK_SIZE = 104"

primrec free_entry :: "nat \<Rightarrow> nat \<Rightarrow> gdtEntry list \<Rightarrow> nat option" where
  "free_entry 0 i es = None"
| "free_entry (Suc n) i es = (if \<not> g_present (es ! i) then Some i else free_entry n (Suc i) es)"

definition gdtGetFreeEntry :: "gdtEntry list \<Rightarrow> (gdtEntry list \<times> nat) kres" where
  "gdtGetFreeEntry es = (case free_entry (length es - 1) 1 es of
     None \<Rightarrow> Inl (SystemFailure ''No more GDT entries left!'')
   | Some i \<Rightarrow> Inr (es[i := (es ! i)\<lparr>g_present := True\<rparr>], i))"

definition gdtGetEntryOffset :: "gdtEntry list \<Rightarrow> nat \<Rightarrow> u32 \<Rightarrow> u32 kres" where
  "gdtGetEntryOffset es i ring = kassert (i < length es) (Inr (of_nat (8 * i) OR ring))"

definition gdtEntrySetAddress :: "u32 \<Rightarrow> gdtEntry \<Rightarrow> gdtEntry" where
  "gdtEntrySetAddress address e =
     e\<lparr>address1 := ucast (address AND 0x0000FFFF), address2 := ucast (drop_bit 16 (address AND 0x00FF0000)),
       address3 := ucast (drop_bit 24 (address AND 0xFF000000))\<rparr>"

definition gdtEntrySetLimit :: "u64 \<Rightarrow> gdtEntry \<Rightarrow> gdtEntry kres" where
  "gdtEntrySetLimit len e =
     kassert (len \<le> 0x100000000) (kassert (len > 0) (
     kbind (if len > 0x100000
            then kassert (len AND 0xFFF = 0) (Inr (drop_bit 12 len, e\<lparr>granularity := True\<rparr>))
            else Inr (len, e\<lparr>granularity := False\<rparr>)) (\<lambda>(len, e).
     let len = len - 1 in
     Inr (e\<lparr>limit1 := ucast (len AND 0xFFFF), limit2 := ucast (drop_bit 16 len AND 0xF)\<rparr>))))"

definition gdtReleaseEntry :: "nat \<Rightarrow> gdtEntry list \<Rightarrow> gdtEntry list" where
  "gdtReleaseEntry i es = es[i := zero_gdtEntry]"

text \<open>One of the four segments of \<^verbatim>\<open>__initBasicGDT\<close>, and one of the two tasks of \<^verbatim>\<open>__initBasicTask\<close>.\<close>

definition setup_segment :: "bool \<Rightarrow> 2 word \<Rightarrow> gdtEntry list \<Rightarrow> (gdtEntry list \<times> nat) kres" where
  "setup_segment ex ring es =
     kbind (gdtGetFreeEntry es) (\<lambda>(es, i).
     kbind (gdtEntrySetLimit 0x100000000 (gdtEntrySetAddress 0 (es ! i))) (\<lambda>e.
     Inr (es[i := e\<lparr>accessed := False, readWrite := True, dc := False, execute := ex, isSystem := True, privlevel := ring,
       g_present := True, g_user := False, g_reserved := False, is32bit := True\<rparr>], i)))"

definition initBasicGDT :: "gdt \<Rightarrow> gdt kres" where
  "initBasicGDT g =
     kbind (setup_segment True 0 (gdtTableEntries g)) (\<lambda>(es, c0).
     kbind (setup_segment False 0 es) (\<lambda>(es, d0).
     kbind (setup_segment True 3 es) (\<lambda>(es, c3).
     kbind (setup_segment False 3 es) (\<lambda>(es, d3).
     Inr (g\<lparr>gdtTableEntries := es, codeRing0 := c0, dataRing0 := d0, codeRing3 := c3, dataRing3 := d3\<rparr>)))))"

definition setup_task :: "u32 \<Rightarrow> gdtEntry list \<Rightarrow> (gdtEntry list \<times> nat) kres" where
  "setup_task address es =
     kbind (gdtGetFreeEntry es) (\<lambda>(es, i).
     kbind (gdtEntrySetLimit (ucast TASK_SIZE) (gdtEntrySetAddress address (es ! i))) (\<lambda>e.
     Inr (es[i := e\<lparr>accessed := True, readWrite := False, dc := False, execute := True, isSystem := False, privlevel := 0,
       g_present := True, g_user := False, g_reserved := False, is32bit := False\<rparr>], i)))"

definition initBasicTask :: "gdt \<Rightarrow> gdt kres" where
  "initBasicTask g =
     kassert (taskTable g \<noteq> 0) (
     kbind (setup_task (taskTable g) (gdtTableEntries g)) (\<lambda>(es, k).
     kbind (setup_task (taskTable g + TASK_SIZE) es) (\<lambda>(es, u).
     Inr (g\<lparr>gdtTableEntries := es, kernelTask := k, usermodeTask := u, TSS_kernel := zero_task\<lparr>iomap := 104\<rparr>,
       TSS_user := zero_task\<lparr>iomap := 104\<rparr>\<rparr>))))"

section \<open>Generated code\<close>

definition isErrorCodeInterrupt :: "nat \<Rightarrow> bool" where
  "isErrorCodeInterrupt i \<longleftrightarrow> i = 8 \<or> (i \<ge> 10 \<and> i \<le> 14) \<or> i = 17"

primrec write_entries :: "nat \<Rightarrow> (nat \<Rightarrow> u8 list) \<Rightarrow> u8 list \<Rightarrow> u8 list kres" where
  "write_entries 0 f page = Inr page"
| "write_entries (Suc n) f page = kbind (write_entries n f page) (buf_write (8 * n) (f n))"

text \<open>\<open>table\<close> is the address of the page, \<open>dispatch\<close> the address of \<^verbatim>\<open>__dispatchKernelInterrupt\<close>.\<close>

definition kernel_entry :: "u32 \<Rightarrow> nat \<Rightarrow> u8 list" where
  "kernel_entry table i =
     (if \<not> isErrorCodeInterrupt i then [0x83, 0xEC, 0x6C] else [0x83, 0xEC, 0x68]) @ [0xE8] @
     dword_bytes ((table + 8 * 256) - (table + of_nat (8 * i) + 4 + 4))"

definition dispatcher_save :: "u8 list" where
  "dispatcher_save =
     [0x89, 0x44, 0x24, 0x2C,
      0x89, 0x4C, 0x24, 0x30,
      0x89, 0x54, 0x24, 0x34,
      0x89, 0x5C, 0x24, 0x38,
      0x8D, 0x84, 0x24, 0x80,
      0x00, 0x00, 0x00,
      0x89, 0x44, 0x24, 0x3C,
      0x89, 0x6C, 0x24, 0x40,
      0x89, 0x74, 0x24, 0x44,
      0x89, 0x7C, 0x24, 0x48,
      0x8C, 0x44, 0x24, 0x4C,
      0x66, 0x8B, 0x44, 0x24,
      0x74,
      0x66, 0x89, 0x44, 0x24,
      0x50,
      0x8C, 0x54, 0x24, 0x54,
      0x8C, 0x5C, 0x24, 0x58,
      0x8C, 0x64, 0x24, 0x5C,
      0x8C, 0x6C, 0x24, 0x60,
      0x0F, 0x20, 0xD8,
      0x89, 0x44, 0x24, 0x20,
      0x8B, 0x44, 0x24, 0x70,
      0x89, 0x44, 0x24, 0x24,
      0x8B, 0x44, 0x24, 0x78,
      0x89, 0x44, 0x24, 0x28,
      0x58,
      0x2D] @
     dword_bytes (USERMODE_INTJMP_ADDRESS + 8) @
     [0xC1, 0xE8, 0x03,
      0x54,
      0xFF, 0x74, 0x24, 0x6C,
      0x50]"

definition dispatcher_restore :: "u8 list" where
  "dispatcher_restore =
     [0x8B, 0x44, 0x24, 0x2C,
      0x89, 0x44, 0x24, 0x78,
      0x8B, 0x44, 0x24, 0x58,
      0x66, 0x89, 0x44, 0x24,
      0x7C,
      0x8B, 0x44, 0x24, 0x30,
      0x89, 0x84, 0x24, 0x80,
      0x00, 0x00, 0x00,
      0x8B, 0x7C, 0x24, 0x50,
      0x8B, 0x74, 0x24, 0x4C,
      0x8B, 0x6C, 0x24, 0x48,
      0x8B, 0x5C, 0x24, 0x40,
      0x8B, 0x54, 0x24, 0x3C,
      0x8B, 0x4C, 0x24, 0x38,
      0x8B, 0x44, 0x24, 0x34,
      0x83, 0xC4, 0x78,
      0xCF]"

definition dispatcher_code :: "u32 \<Rightarrow> u32 \<Rightarrow> u8 list" where
  "dispatcher_code table dispatch =
     dispatcher_save @ [0xE8] @
     dword_bytes (dispatch - (table + 8 * 256 + of_nat (length dispatcher_save) + 1 + 4)) @ dispatcher_restore"

definition user_entry :: "u16 \<Rightarrow> nat \<Rightarrow> u8 list" where
  "user_entry sel i = [0xEA] @ dword_bytes 0 @ [ucast sel, ucast (drop_bit 8 sel)] @ [0xCC]"

definition enable_fpu_code :: "u8 list" where "enable_fpu_code = [0x0F, 0x06, 0xCF]"

definition generateIntJmpTables :: "u32 \<Rightarrow> u32 \<Rightarrow> gdt \<Rightarrow> gdt kres" where
  "generateIntJmpTables table dispatch g =
     kbind (write_entries 256 (kernel_entry table) (intJmp_kernel g)) (\<lambda>k.
     kbind (buf_write 2048 (dispatcher_code table dispatch) k) (\<lambda>k.
     kbind (gdtGetEntryOffset (gdtTableEntries g) (kernelTask g) GDT_CPL_RING0) (\<lambda>sel.
     kbind (write_entries 256 (user_entry (ucast sel)) (intJmp_user g)) (\<lambda>u.
     kbind (buf_write (unat (USERMODE_INTJMP_ENABLE_FPU - USERMODE_INTJMP_ADDRESS)) enable_fpu_code u) (\<lambda>u.
     Inr (g\<lparr>intJmp_kernel := k, intJmp_user := u\<rparr>))))))"

section \<open>Entering the kernel\<close>

text \<open>\<^verbatim>\<open>debugCaptureCpuContext\<close> of \<^verbatim>\<open>util.c\<close>, called with the return address on the stack.\<close>

definition debugCaptureCpuContext :: "cpu \<Rightarrow> taskContext \<Rightarrow> taskContext" where
  "debugCaptureCpuContext c ctx =
     ctx\<lparr>eax := reg c 0, ecx := reg c 1, edx := reg c 2, ebx := reg c 3, esp := c_esp c + 4, ebp := reg c 5, esi := reg c 6,
       edi := reg c 7, seg_es := sreg c 0, seg_cs := sreg c 1, seg_ss := sreg c 2, seg_ds := sreg c 3, seg_fs := sreg c 4,
       seg_gs := sreg c 5, t_cr3 := c_cr3 c, eip := dword c (c_esp c), eflags := c_eflags c\<rparr>"

text \<open>\<open>idle\<close> holds the addresses of \<^verbatim>\<open>__kernelIdleBegin\<close> and \<^verbatim>\<open>__kernelIdleEnd\<close>.\<close>

definition dispatchKernelInterrupt ::
  "interruptTable \<Rightarrow> u32 \<times> u32 \<Rightarrow> u32 \<Rightarrow> u32 \<Rightarrow> u32 \<Rightarrow> taskContext \<Rightarrow> kst \<Rightarrow> (kst \<times> taskContext) kres" where
  "dispatchKernelInterrupt table idle' interrupt error cr2 context s =
     kbind (dispatchInterrupt table interrupt error cr2 0 s) (\<lambda>(s, st).
       if st \<noteq> INTERRUPT_CONTINUE_EXECUTION \<and> st \<noteq> INTERRUPT_YIELD
       then Inl (SystemFailure ''Unable to handle kernel interrupt!'')
       else Inr (s, if fst idle' \<le> eip context \<and> eip context < snd idle'
              then context\<lparr>eflags := eflags context AND NOT (push_bit 9 1), eip := snd idle'\<rparr> else context))"

definition idt_gate :: "u32 \<Rightarrow> nat \<Rightarrow> idtEntry" where
  "idt_gate sel i =
     (let address = USERMODE_INTJMP_ADDRESS + 8 * of_nat i in
      \<lparr>addressLow = ucast (address AND 0xFFFF), csSelector = ucast sel, i_zero = 0, i_type = INT_TYPE_INT32,
       storageSegment = False, dpl = (if i = 0x80 then 3 else 0), i_present = True,
       addressHigh = ucast (drop_bit 16 address)\<rparr>)"

definition gdtInit :: "cpu \<Rightarrow> u32 \<Rightarrow> gdt \<times> kst \<Rightarrow> (gdt \<times> kst) kres" where
  "gdtInit c dispatch = (\<lambda>(g, s).
     kassert (\<not> gdtReady g) (
     kbind (with_mem (pagingAllocatePhysMemUnpageable (getPagingEntry 0) 1 True False) s) (\<lambda>(s, kstack).
     kbind (with_mem (pagingAllocatePhysMemFixedUnpageable (getPagingEntry 0) USERMODE_GDT_ADDRESS 16 True False) s) (\<lambda>(s, gdtAddr).
     kbind (with_mem (pagingAllocatePhysMemFixedUnpageable (getPagingEntry 0) USERMODE_IDT_ADDRESS 1 True False) s) (\<lambda>(s, idtAddr).
     kbind (with_mem (pagingAllocatePhysMemFixedUnpageable (getPagingEntry 0) USERMODE_TASK_ADDRESS 1 True False) s) (\<lambda>(s, taskAddr).
     kbind (with_mem (pagingAllocatePhysMemFixedUnpageable (getPagingEntry 0) USERMODE_INTJMP_ADDRESS 1 True False) s) (\<lambda>(s, intJmp).
     kbind (with_mem (pagingAllocatePhysMemUnpageable (getPagingEntry 0) 1 True False) s) (\<lambda>(s, intJmpUser).
     let g = g\<lparr>gdtReady := True, stack := replicate 1024 0, gdtTableEntries := replicate GDT_MAX_COUNT zero_gdtEntry,
               idtTableEntries := replicate 256 zero_idtEntry, taskTable := taskAddr,
               intJmp_kernel := replicate 4096 0, intJmp_user := replicate 4096 0\<rparr> in
     kbind (initBasicGDT g) (\<lambda>g.
     let g = g\<lparr>gdtr := (ucast (GDT_MAX_SIZE - 1), gdtAddr)\<rparr> in
     kbind (gdtGetEntryOffset (gdtTableEntries g) (codeRing0 g) GDT_CPL_RING0) (\<lambda>code0.
     kbind (gdtGetEntryOffset (gdtTableEntries g) (dataRing0 g) GDT_CPL_RING0) (\<lambda>data0.
     let c = c\<lparr>sreg := (\<lambda>r. if r = 1 then ucast code0 else ucast data0)\<rparr> in
     kbind (initBasicTask g) (\<lambda>g.
     let g = g\<lparr>TSS_kernel := debugCaptureCpuContext c (TSS_kernel g)\<rparr> in
     kbind (gdtGetEntryOffset (gdtTableEntries g) (kernelTask g) GDT_CPL_RING0) (\<lambda>tr.
     kbind (generateIntJmpTables intJmp dispatch (g\<lparr>taskRegister := ucast tr\<rparr>)) (\<lambda>g.
     kbind (gdtGetEntryOffset (gdtTableEntries g) (codeRing3 g) GDT_CPL_RING3) (\<lambda>code3.
     kbind (gdtGetEntryOffset (gdtTableEntries g) (dataRing3 g) GDT_CPL_RING3) (\<lambda>data3.
     Inr (g\<lparr>idtTableEntries := map (idt_gate code0) [0..<256], idtr := (256 * 8 - 1, idtAddr)\<rparr>,
          s\<lparr>kernelStack := kstack, intJmpTable_user := intJmpUser, sel_dataRing0 := ucast data0,
            sel_codeRing3 := ucast code3, sel_dataRing3 := ucast data3\<rparr>)))))))))))))))))"

text \<open>\<open>user\<close> is the processor from the task switch to the interrupt: from the task and the kernel stack of the process to the
  task, the stack, the register \<^verbatim>\<open>cr2\<close> and the state.\<close>

type_synonym userFun = "taskContext \<Rightarrow> u32 list \<Rightarrow> kst \<Rightarrow> taskContext \<times> u32 list \<times> u32 \<times> kst"

definition load_task :: "addr \<Rightarrow> thread \<Rightarrow> gdt \<Rightarrow> kst \<Rightarrow> gdt kres" where
  "load_task a t g s =
     (let u = task t in
      if a = lastFPUthread s
      then kbind (gdtGetEntryOffset (gdtTableEntries g) (codeRing0 g) GDT_CPL_RING0) (\<lambda>code0.
           kbind (gdtGetEntryOffset (gdtTableEntries g) (dataRing0 g) GDT_CPL_RING0) (\<lambda>data0.
           Inr (g\<lparr>stack := take 1019 (stack g) @ [eip u, ucast (seg_cs u), eflags u, esp u, ucast (seg_ss u)],
             TSS_user := u\<lparr>eip := USERMODE_INTJMP_ENABLE_FPU, seg_cs := ucast code0, eflags := 0,
               esp := USERMODE_KERNELSTACK_LIMIT - 20, seg_ss := ucast data0\<rparr>\<rparr>)))
      else Inr (g\<lparr>TSS_user := u\<rparr>))"

definition interrupt_number :: "taskContext \<Rightarrow> u32 kres" where
  "interrupt_number u =
     (let n = eip u - (USERMODE_INTJMP_ADDRESS + 7) in
      kassert (n AND 7 = 0) (let n = drop_bit 3 n in kassert (n AND NOT 255 = 0) (Inr n)))"

definition unwind :: "u32 list \<Rightarrow> taskContext \<Rightarrow> (taskContext \<times> u32) kres" where
  "unwind stk u =
     (let args = drop (unat (esp u - USERMODE_KERNELSTACK_ADDRESS) div 4) stk;
          frame = (\<lambda>k. u\<lparr>eip := args ! k, seg_cs := ucast (args ! (k + 1)), eflags := args ! (k + 2), esp := args ! (k + 3),
                         seg_ss := ucast (args ! (k + 4))\<rparr>)
      in if esp u = USERMODE_KERNELSTACK_LIMIT - 24 then Inr (frame 1, args ! 0)
         else if esp u = USERMODE_KERNELSTACK_LIMIT - 20 then Inr (frame 0, 0)
         else Inl (SystemFailure ''Unable to recover from usermode interrupt!''))"

definition tssRunUsermodeThread :: "interruptTable \<Rightarrow> userFun \<Rightarrow> addr \<Rightarrow> gdt \<times> kst \<Rightarrow> ((gdt \<times> kst) \<times> intStatus) kres" where
  "tssRunUsermodeThread table user a = (\<lambda>(g, s).
     kbind (get_thread a s) (\<lambda>t.
     kbind (load_task a t g s) (\<lambda>g.
     kbind (gdtGetEntryOffset (gdtTableEntries g) (usermodeTask g) GDT_CPL_RING0) (\<lambda>_.
     let (u, stk, cr2, s) = user (TSS_user g) (stack g) s; g = g\<lparr>TSS_user := u, stack := stk\<rparr> in
     kassert (seg_ss u = ss0 u) (
     kbind (interrupt_number u) (\<lambda>interrupt.
     kbind (unwind stk u) (\<lambda>(u', error).
     kbind (upd_thread a (\<lambda>x. x\<lparr>task := u'\<rparr>) s) (\<lambda>s.
     kassert (seg_cs u' AND GDT_CPL_MASK = 3) (kassert (seg_ss u' AND GDT_CPL_MASK = 3) (
     kbind (dispatchInterrupt table interrupt error cr2 a s) (\<lambda>(s, st). Inr ((g, s), st)))))))))))) "

section \<open>The generated code is where the descriptors point\<close>

lemma write_entries_spec:
  assumes "\<And>i. length (f i) = 8" and "8 * n \<le> length page"
  shows "write_entries n f page = Inr (concat (map f [0..<n]) @ drop (8 * n) page)"
  using assms(2)
proof (induction n)
  case (Suc n)
  have "length (concat (map f [0..<n])) = 8 * n" by (induction n) (simp_all add: assms(1))
  then show ?case using Suc assms(1) by (simp add: buf_write_def)
qed simp

lemma concat_entries:
  assumes "\<And>i. length (f i) = 8" and "i < n"
  shows "\<exists>rest. drop (8 * i) (concat (map f [0..<n])) = f i @ rest"
proof -
  have "length (concat (map f [0..<m])) = 8 * m" for m by (induction m) (simp_all add: assms(1))
  moreover have "[0..<n] = [0..<i] @ i # [Suc i..<n]"
    using assms(2) by (metis le_add_same_cancel1 less_imp_add_positive less_imp_le upt_add_eq_append upt_conv_Cons zero_le add.left_neutral)
  then have "concat (map f [0..<n]) = concat (map f [0..<i]) @ f i @ concat (map f [Suc i..<n])" by simp
  ultimately show ?thesis by simp
qed

lemma entry_lengths [simp]: "length (kernel_entry table i) = 8" "length (user_entry sel i) = 8"
  by (simp_all add: kernel_entry_def user_entry_def)

lemma dispatcher_lengths [simp]: "length dispatcher_save = 107" "length dispatcher_restore = 60"
  by code_simp+

lemma length_dispatcher_code [simp]: "length (dispatcher_code table dispatch) = 172"
  by (simp add: dispatcher_code_def)

lemma length_entries [simp]:
  "length (concat (map (kernel_entry table) [0..<n])) = 8 * n" "length (concat (map (user_entry sel) [0..<n])) = 8 * n"
  by (induction n) simp_all

definition kernel_page :: "u32 \<Rightarrow> u32 \<Rightarrow> u8 list \<Rightarrow> u8 list" where
  "kernel_page table dispatch rest = concat (map (kernel_entry table) [0..<256]) @ dispatcher_code table dispatch @ rest"

definition user_page :: "u16 \<Rightarrow> u8 list \<Rightarrow> u8 list" where
  "user_page sel rest = concat (map (user_entry sel) [0..<256]) @ enable_fpu_code @ rest"

lemma generateIntJmpTables_spec:
  assumes "length (intJmp_kernel g) = 4096" "length (intJmp_user g) = 4096" "kernelTask g < length (gdtTableEntries g)"
  shows "generateIntJmpTables table dispatch g =
    Inr (g\<lparr>intJmp_kernel := kernel_page table dispatch (drop 2220 (intJmp_kernel g)),
           intJmp_user := user_page (ucast (of_nat (8 * kernelTask g) OR GDT_CPL_RING0 :: u32)) (drop 2051 (intJmp_user g))\<rparr>)"
proof -
  have k: "write_entries 256 (kernel_entry table) (intJmp_kernel g) =
      Inr (concat (map (kernel_entry table) [0..<256]) @ drop 2048 (intJmp_kernel g))"
    using write_entries_spec [of "kernel_entry table" 256] assms(1) by simp
  have u: "write_entries 256 (user_entry sel) (intJmp_user g) =
      Inr (concat (map (user_entry sel) [0..<256]) @ drop 2048 (intJmp_user g))" for sel
    using write_entries_spec [of "user_entry sel" 256] assms(2) by simp
  have fpu: "unat (USERMODE_INTJMP_ENABLE_FPU - USERMODE_INTJMP_ADDRESS) = 2048" "length enable_fpu_code = 3"
    by (simp_all add: USERMODE_INTJMP_ENABLE_FPU_def USERMODE_INTJMP_ADDRESS_def enable_fpu_code_def)
  show ?thesis using assms
    by (simp add: generateIntJmpTables_def k u fpu buf_write_def gdtGetEntryOffset_def kernel_page_def user_page_def del: upt_rec_numeral)
qed

subsection \<open>Decoding the dispatcher\<close>

definition save_instrs :: "(instr \<times> nat) list" where
  "save_instrs =
     [(Store 0 0x2C, 4), (Store 1 0x30, 4), (Store 2 0x34, 4), (Store 3 0x38, 4), (Lea 0 0x80, 7), (Store 0 0x3C, 4),
      (Store 5 0x40, 4), (Store 6 0x44, 4), (Store 7 0x48, 4), (StoreSeg 0 0x4C, 4), (Load16 0 0x74, 5), (Store16 0 0x50, 5),
      (StoreSeg 2 0x54, 4), (StoreSeg 3 0x58, 4), (StoreSeg 4 0x5C, 4), (StoreSeg 5 0x60, 4), (ReadCr3 0, 3), (Store 0 0x20, 4),
      (Load 0 0x70, 4), (Store 0 0x24, 4), (Load 0 0x78, 4), (Store 0 0x28, 4), (Pop 0, 1), (SubEax 0xFF812008, 5), (ShrEax 3, 3),
      (Push 4, 1), (PushMem 0x6C, 4), (Push 0, 1)]"

definition restore_instrs :: "(instr \<times> nat) list" where
  "restore_instrs =
     [(Load 0 0x2C, 4), (Store 0 0x78, 4), (Load 0 0x58, 4), (Store16 0 0x7C, 5), (Load 0 0x30, 4), (Store 0 0x80, 7),
      (Load 7 0x50, 4), (Load 6 0x4C, 4), (Load 5 0x48, 4), (Load 3 0x40, 4), (Load 2 0x3C, 4), (Load 1 0x38, 4), (Load 0 0x34, 4),
      (AddEsp 0x78, 3)]"

lemma decode_save: "disassemble 28 (dispatcher_save @ code) = Some (save_instrs, code)"
proof -
  have "disassemble 28 dispatcher_save = Some (save_instrs, [])" by code_simp
  then show ?thesis using disassemble_append by fastforce
qed

lemma decode_restore: "disassemble 14 (dispatcher_restore @ code) = Some (restore_instrs, 0xCF # code)"
proof -
  have "disassemble 14 dispatcher_restore = Some (restore_instrs, [0xCF])" by code_simp
  then show ?thesis using disassemble_append by fastforce
qed

lemma take_dword_bytes [simp]: "take 4 (dword_bytes w @ code) = dword_bytes w"
  by simp

lemma decode_call [simp]: "decode (0xE8 # dword_bytes w @ code) = Some (Call w, 5)"
  by (simp add: decode_def le_word_dword_bytes)

lemma decode_sub_esp:
  "decode (0x83 # 0xEC # 0x6C # code) = Some (SubEsp 0x6C, 3)" "decode (0x83 # 0xEC # 0x68 # code) = Some (SubEsp 0x68, 3)"
  by (simp_all add: decode_def decode2_def sign_byte_def)

lemma decode_kernel_entry:
  "decode (kernel_entry table i @ code) = Some (SubEsp (if isErrorCodeInterrupt i then 0x68 else 0x6C), 3)"
  "decode (drop 3 (kernel_entry table i @ code)) = Some (Call (8 * 256 - of_nat (8 * i) - 8), 5)"
  by (simp_all add: kernel_entry_def decode_sub_esp algebra_simps)

subsection \<open>The effect of the dispatcher\<close>

lemmas machine_defs = c_esp_def set_reg_def poke_def poke_low_def push_def

lemma low_half:
  "ucast ((a AND 0xFFFF0000) OR ucast (v :: u16) :: u32) = v"
  "ucast ((a AND 0xFFFF0000) OR (b AND 0xFFFF) :: u32) = (ucast b :: u16)"
proof -
  have m: "(0xFFFF0000 :: u32) = push_bit 16 (mask 16)" "(0xFFFF :: u32) = mask 16" by (simp_all add: mask_eq_exp_minus_1)
  show "ucast ((a AND 0xFFFF0000) OR ucast (v :: u16) :: u32) = v"
    unfolding m by (rule bit_word_eqI) (auto simp: bit_simps)
  show "ucast ((a AND 0xFFFF0000) OR (b AND 0xFFFF) :: u32) = (ucast b :: u16)"
    unfolding m by (rule bit_word_eqI) (auto simp: bit_simps)
qed

lemma save_effect:
  fixes c :: cpu and fl :: "u32 \<Rightarrow> u32"
  defines "c' \<equiv> exec fl save_instrs c" and "E \<equiv> reg c 4"
  shows "reg c' 4 = E - 8"
    and "dword c' (E - 8) = drop_bit 3 (dword c E - 0xFF812008)"
    and "dword c' (E - 4) = dword c (E + 0x6C)"
    and "dword c' E = E + 4"
    and "dword c' (E + 0x20) = c_cr3 c"
    and "dword c' (E + 0x24) = dword c (E + 0x70)"
    and "dword c' (E + 0x28) = dword c (E + 0x78)"
    and "dword c' (E + 0x2C) = reg c 0"
    and "dword c' (E + 0x30) = reg c 1"
    and "dword c' (E + 0x34) = reg c 2"
    and "dword c' (E + 0x38) = reg c 3"
    and "dword c' (E + 0x3C) = E + 0x80"
    and "dword c' (E + 0x40) = reg c 5"
    and "dword c' (E + 0x44) = reg c 6"
    and "dword c' (E + 0x48) = reg c 7"
  by (simp_all add: assms save_instrs_def machine_defs)


lemma save_effect_segments:
  fixes c :: cpu and fl :: "u32 \<Rightarrow> u32"
  defines "c' \<equiv> exec fl save_instrs c" and "E \<equiv> reg c 4"
  shows "ucast (dword c' (E + 0x4C)) = sreg c 0"
    and "ucast (dword c' (E + 0x50)) = (ucast (dword c (E + 0x74)) :: u16)"
    and "ucast (dword c' (E + 0x54)) = sreg c 2"
    and "ucast (dword c' (E + 0x58)) = sreg c 3"
    and "ucast (dword c' (E + 0x5C)) = sreg c 4"
    and "ucast (dword c' (E + 0x60)) = sreg c 5"
    and "dword c' (E + 0x6C) = dword c (E + 0x6C)"
    and "dword c' (E + 0x70) = dword c (E + 0x70)"
    and "dword c' (E + 0x74) = dword c (E + 0x74)"
    and "dword c' (E + 0x78) = dword c (E + 0x78)"
    and "sreg c' = sreg c"
  by (simp_all add: assms save_instrs_def machine_defs low_half)

lemma restore_effect:
  fixes c :: cpu and fl :: "u32 \<Rightarrow> u32"
  defines "c' \<equiv> exec fl restore_instrs c" and "C \<equiv> reg c 4 + 12"
  shows "reg c' 4 = C + 0x6C"
    and "reg c' 0 = dword c (C + 0x28)" and "reg c' 1 = dword c (C + 0x2C)" and "reg c' 2 = dword c (C + 0x30)"
    and "reg c' 3 = dword c (C + 0x34)" and "reg c' 5 = dword c (C + 0x3C)" and "reg c' 6 = dword c (C + 0x40)"
    and "reg c' 7 = dword c (C + 0x44)" and "dword c' (C + 0x6C) = dword c (C + 0x20)"
    and "dword c' (C + 0x70) = (dword c (C + 0x70) AND 0xFFFF0000) OR ucast (ucast (dword c (C + 0x4C)) :: u16)"
    and "dword c' (C + 0x74) = dword c (C + 0x24)"
    and "sreg c' = sreg c"
  by (simp_all add: assms restore_instrs_def machine_defs) (simp_all only: add.commute)
subsection \<open>From the interrupt to the handler and back\<close>

text \<open>The processor at an interrupt in kernel mode: it pushes flags, code segment, instruction pointer and for some
  interrupts an error code, and continues at the gate. \<open>f\<close> are the flags behind the gate.\<close>

definition gate_address :: "idtEntry \<Rightarrow> u32" where
  "gate_address e = ucast (addressLow e) OR push_bit 16 (ucast (addressHigh e))"

definition deliver :: "idtEntry \<Rightarrow> u32 option \<Rightarrow> u32 \<Rightarrow> cpu \<Rightarrow> cpu" where
  "deliver e err f c =
     (let c = push (c_eip c) (push (ucast (sreg c 1)) (push (c_eflags c) c));
          c = (case err of None \<Rightarrow> c | Some v \<Rightarrow> push v c)
      in c\<lparr>c_eip := gate_address e, sreg := (sreg c)(1 := csSelector e), c_eflags := f\<rparr>)"

lemma gate_address_idt: "gate_address (idt_gate sel i) = USERMODE_INTJMP_ADDRESS + 8 * of_nat i"
proof -
  have m: "(0xFFFF :: u32) = mask 16" by (simp add: mask_eq_exp_minus_1)
  have "ucast (ucast (a AND 0xFFFF) :: u16) OR push_bit 16 (ucast (ucast (drop_bit 16 a) :: u16)) = (a :: u32)" for a
    unfolding m
  proof (rule bit_word_eqI)
    fix n assume n: "n < LENGTH(32)"
    show "bit (ucast (ucast (a AND mask 16) :: u16) OR push_bit 16 (ucast (ucast (drop_bit 16 a) :: u16)) :: u32) n = bit a n"
      using n by (cases "n < 16") (auto simp: bit_simps)
  qed
  then show ?thesis by (simp add: gate_address_def idt_gate_def Let_def)
qed

lemma fetch_offset: "n < 2 ^ 32 \<Longrightarrow> fetch base page (base + of_nat n) = drop n page"
  by (simp add: fetch_def unsigned_of_nat take_bit_nat_eq_self)

lemma kernel_page_parts:
  "i < 256 \<Longrightarrow> \<exists>code. fetch B (kernel_page B dispatch rest) (B + of_nat (8 * i)) = kernel_entry B i @ code"
  "fetch B (kernel_page B dispatch rest) (B + of_nat 2048) = dispatcher_code B dispatch @ rest"
proof -
  assume "i < 256"
  then obtain code where "drop (8 * i) (concat (map (kernel_entry B) [0..<256])) = kernel_entry B i @ code"
    using concat_entries [of "kernel_entry B" i 256] by auto
  then show "\<exists>code. fetch B (kernel_page B dispatch rest) (B + of_nat (8 * i)) = kernel_entry B i @ code"
    using \<open>i < 256\<close> fetch_offset [of "8 * i" B] by (simp add: kernel_page_def del: upt_rec_numeral of_nat_mult)
next
  show "fetch B (kernel_page B dispatch rest) (B + of_nat 2048) = dispatcher_code B dispatch @ rest"
    using fetch_offset [of 2048 B] by (simp add: kernel_page_def del: upt_rec_numeral of_nat_numeral)
qed

lemma entry_run:
  fixes c :: cpu
  assumes "i < 256" and "err \<noteq> None \<longleftrightarrow> isErrorCodeInterrupt i"
  defines "B \<equiv> USERMODE_INTJMP_ADDRESS" and "E \<equiv> reg c 4 - 0x7C"
  shows "\<exists>c2. run fl B (kernel_page B dispatch rest) 2 (deliver (idt_gate sel i) err f c) = Some c2 \<and>
    c_eip c2 = B + 2048 \<and> reg c2 = (reg c)(4 := E) \<and> sreg c2 = (sreg c)(1 := ucast sel) \<and> c_cr3 c2 = c_cr3 c \<and>
    dword c2 E = B + 8 * of_nat i + 8 \<and> (\<forall>v. err = Some v \<longrightarrow> dword c2 (E + 0x6C) = v) \<and>
    dword c2 (E + 0x70) = c_eip c \<and> dword c2 (E + 0x74) = ucast (sreg c 1) \<and> dword c2 (E + 0x78) = c_eflags c"
proof -
  define c1 where "c1 = deliver (idt_gate sel i) err f c"
  have eip1: "c_eip c1 = B + of_nat (8 * i)" by (simp add: c1_def deliver_def gate_address_idt B_def Let_def)
  obtain code where code: "fetch B (kernel_page B dispatch rest) (c_eip c1) = kernel_entry B i @ code"
    using kernel_page_parts(1) [OF assms(1), of B dispatch rest] unfolding eip1 by blast
  have d1: "decode (fetch B (kernel_page B dispatch rest) (c_eip c1)) = Some (SubEsp (if isErrorCodeInterrupt i then 0x68 else 0x6C), 3)"
    unfolding code by (rule decode_kernel_entry(1))
  have "unat (c_eip c1 - B) + 3 < 2 ^ 32" using assms(1) by (simp add: eip1 unsigned_of_nat take_bit_nat_eq_self del: of_nat_mult)
  then have d2: "decode (fetch B (kernel_page B dispatch rest) (c_eip c1 + 3)) = Some (Call (8 * 256 - of_nat (8 * i) - 8), 5)"
    using fetch_next(1) [of "c_eip c1" B 3] code decode_kernel_entry(2) [of B i code] by simp
  show ?thesis
    using assms(2) d1 d2 eip1
    by (cases "isErrorCodeInterrupt i"; cases err)
       (simp_all add: numeral_2_eq_2 c1_def [symmetric] machine_defs, simp_all add: c1_def deliver_def machine_defs E_def Let_def idt_gate_def)
qed

text \<open>The context that the handler gets a pointer to, and what it should hold.\<close>

definition read_context :: "u32 \<Rightarrow> cpu \<Rightarrow> taskContext" where
  "read_context a c = zero_task
     \<lparr>t_cr3 := dword c (a + 0x1C), eip := dword c (a + 0x20), eflags := dword c (a + 0x24), eax := dword c (a + 0x28),
      ecx := dword c (a + 0x2C), edx := dword c (a + 0x30), ebx := dword c (a + 0x34), esp := dword c (a + 0x38),
      ebp := dword c (a + 0x3C), esi := dword c (a + 0x40), edi := dword c (a + 0x44), seg_es := ucast (dword c (a + 0x48)),
      seg_cs := ucast (dword c (a + 0x4C)), seg_ss := ucast (dword c (a + 0x50)), seg_ds := ucast (dword c (a + 0x54)),
      seg_fs := ucast (dword c (a + 0x58)), seg_gs := ucast (dword c (a + 0x5C))\<rparr>"

definition cpu_context :: "cpu \<Rightarrow> taskContext" where
  "cpu_context c = zero_task
     \<lparr>t_cr3 := c_cr3 c, eip := c_eip c, eflags := c_eflags c, eax := reg c 0, ecx := reg c 1, edx := reg c 2, ebx := reg c 3,
      esp := reg c 4, ebp := reg c 5, esi := reg c 6, edi := reg c 7, seg_es := sreg c 0, seg_cs := sreg c 1, seg_ss := sreg c 2,
      seg_ds := sreg c 3, seg_fs := sreg c 4, seg_gs := sreg c 5\<rparr>"

definition stack_arg :: "cpu \<Rightarrow> u32 \<Rightarrow> u32" where
  "stack_arg c k = dword c (reg c 4 + 4 + 4 * k)"

text \<open>The calling convention of the handler: it returns behind the call, leaves the segments and the frame of the
  interrupt alone, and changes \<^verbatim>\<open>eip\<close> and \<^verbatim>\<open>eflags\<close> of the context at most. All other registers may change.\<close>

definition handler_returns :: "cpu \<Rightarrow> cpu \<Rightarrow> taskContext \<Rightarrow> bool" where
  "handler_returns c c' ctx \<longleftrightarrow>
     c_eip c' = dword c (reg c 4) \<and> reg c' 4 = reg c 4 + 4 \<and> sreg c' = sreg c \<and>
     read_context (stack_arg c 2) c' = (read_context (stack_arg c 2) c)\<lparr>eip := eip ctx, eflags := eflags ctx\<rparr> \<and>
     dword c' (stack_arg c 2 + 0x70) = dword c (stack_arg c 2 + 0x70)"

lemma dispatcher_call:
  fixes dispatch :: u32 and rest :: "u8 list" and fl :: "u32 \<Rightarrow> u32"
  assumes "c_eip c = B + 2048"
  defines "page \<equiv> kernel_page B dispatch rest" and "c' \<equiv> exec fl save_instrs c"
  shows "run fl B page 29 c = Some ((push (B + 2160) c')\<lparr>c_eip := dispatch\<rparr>)"
    and "fetch B page (B + 2160) = dispatcher_restore @ rest"
proof -
  let ?rel = "dispatch - (B + 8 * 256 + of_nat (length dispatcher_save) + 1 + 4)"
  have at: "fetch B page (c_eip c) = dispatcher_save @ 0xE8 # dword_bytes ?rel @ dispatcher_restore @ rest"
    using kernel_page_parts(2) [of B dispatch rest] assms(1) by (simp add: page_def dispatcher_code_def)
  have "disassemble 28 (fetch B page (c_eip c)) = Some (save_instrs, 0xE8 # dword_bytes ?rel @ dispatcher_restore @ rest)"
    unfolding at by (rule decode_save)
  moreover have "unat (c_eip c - B) + 8 * 28 < 2 ^ 32" by (simp add: assms(1))
  ultimately have r: "run fl B page 28 c = Some c' \<and> c_eip c' = c_eip c + of_nat (sum_list (map snd save_instrs)) \<and>
      fetch B page (c_eip c') = 0xE8 # dword_bytes ?rel @ dispatcher_restore @ rest"
    unfolding c'_def by (rule run_straight)
  then have save: "run fl B page 28 c = Some c'" "fetch B page (c_eip c') = 0xE8 # dword_bytes ?rel @ dispatcher_restore @ rest"
    by blast+
  have eip': "c_eip c' = B + 2155" using r assms(1) by (simp add: save_instrs_def)
  have "decode (fetch B page (c_eip c')) = Some (Call ?rel, 5)" unfolding save(2) by simp
  from run_last [OF save(1) this]
  show "run fl B page 29 c = Some ((push (B + 2160) c')\<lparr>c_eip := dispatch\<rparr>)"
    by (simp add: eip' push_def set_reg_def poke_def c_esp_def add.commute [of B])
  have "fetch B page (B + of_nat 2160) = drop 2160 page" by (rule fetch_offset) simp
  then show "fetch B page (B + 2160) = dispatcher_restore @ rest"
    by (simp add: page_def kernel_page_def dispatcher_code_def del: upt_rec_numeral)
qed

lemma dispatcher_return:
  fixes dispatch :: u32 and rest :: "u8 list" and fl :: "u32 \<Rightarrow> u32" and c :: cpu
  assumes "c_eip c = B + 2160" and "ucast (dword c (reg c 4 + 0x58)) AND 3 = sreg c 1 AND 3"
  defines "C \<equiv> reg c 4 + 12"
  shows "\<exists>c'. run fl B (kernel_page B dispatch rest) 15 c = Some c' \<and> reg c' 4 = C + 0x78 \<and>
    (\<forall>r. r < 8 \<and> r \<noteq> 4 \<longrightarrow> reg c' r = dword c (C + 0x28 + 4 * of_nat r)) \<and>
    c_eip c' = dword c (C + 0x20) \<and> c_eflags c' = dword c (C + 0x24) \<and>
    sreg c' = (sreg c)(1 := ucast (dword c (C + 0x4C)))"
proof -
  let ?page = "kernel_page B dispatch rest"
  define c1 where "c1 = exec fl restore_instrs c"
  have at: "fetch B ?page (c_eip c) = dispatcher_restore @ rest"
    using dispatcher_call(2) [of "c\<lparr>c_eip := B + 2048\<rparr>" B dispatch rest] assms(1) by simp
  have "disassemble 14 (fetch B ?page (c_eip c)) = Some (restore_instrs, 0xCF # rest)" unfolding at by (rule decode_restore)
  moreover have "unat (c_eip c - B) + 8 * 14 < 2 ^ 32" by (simp add: assms(1))
  ultimately have "run fl B ?page 14 c = Some c1 \<and> c_eip c1 = c_eip c + of_nat (sum_list (map snd restore_instrs)) \<and>
      fetch B ?page (c_eip c1) = 0xCF # rest"
    unfolding c1_def by (rule run_straight)
  then have r: "run fl B ?page 14 c = Some c1" "fetch B ?page (c_eip c1) = 0xCF # rest" by blast+
  have "decode (fetch B ?page (c_eip c1)) = Some (Iret, 1)" by (simp add: r(2) decode_def)
  from run_last [OF r(1) this]
  have run: "run fl B ?page 15 c = step fl Iret (c1\<lparr>c_eip := c_eip c1 + 1\<rparr>)" by (simp del: step.simps run.simps)
  note e = restore_effect [of fl c, folded c1_def C_def]
  have frame: "dword c1 (reg c1 4) = dword c (C + 0x20)" "ucast (dword c1 (reg c1 4 + 4)) = (ucast (dword c (C + 0x4C)) :: u16)"
      "dword c1 (reg c1 4 + 8) = dword c (C + 0x24)"
    using e(1,9-11) low_half(1) [of "dword c (C + 0x70)" "ucast (dword c (C + 0x4C))"] by (simp_all add: add.assoc)
  have ring: "(ucast (dword c (C + 0x4C)) :: u16) AND 3 = sreg c 1 AND 3" using assms(2) by (simp add: C_def add.assoc)
  have regs: "reg c1 r = dword c (C + 0x28 + 4 * of_nat r)" if "r < 8 \<and> r \<noteq> 4" for r
  proof -
    have "r \<in> {0, 1, 2, 3, 5, 6, 7}" using that by auto
    then show ?thesis using e(2-8) by (auto simp: add.commute [of C])
  qed
  show ?thesis
    unfolding run using frame ring regs e(1,12) by (simp add: Let_def c_esp_def set_reg_def)
qed

lemma ucast_half: "ucast (ucast v :: u32) = (v :: u16)"
  by (rule bit_word_eqI) (simp add: bit_simps)

lemma shift_number: "i < 256 \<Longrightarrow> drop_bit 3 (8 * of_nat i :: u32) = of_nat i"
proof -
  assume "i < 256"
  then have "unat (8 * of_nat i :: u32) = 8 * i" by (simp add: unat_word_ariths unsigned_of_nat take_bit_nat_eq_self)
  then have "unat (drop_bit 3 (8 * of_nat i :: u32)) = i" by (simp add: drop_bit_eq_div unat_div)
  then show ?thesis using \<open>i < 256\<close> by (simp add: word_unat_eq_iff unsigned_of_nat take_bit_nat_eq_self)
qed

lemma handler_exit:
  fixes c :: cpu
  assumes "reg h 4 = reg c 4 - 0x7C - 12" and "sreg h = (sreg c)(1 := sel)" and "dword h (reg c 4 - 0x7C - 12) = B + 2160"
    and "stack_arg h 2 = reg c 4 - 0x7C + 4"
    and "read_context (reg c 4 - 0x7C + 4) h = (cpu_context c)\<lparr>esp := reg c 4 + 4\<rparr>"
    and "sel AND 3 = sreg c 1 AND 3" and "handler_returns h h' ctx"
  shows "\<exists>c'. run fl B (kernel_page B dispatch rest) 15 h' = Some c' \<and>
    (\<forall>r<8. reg c' r = reg c r) \<and> sreg c' = sreg c \<and> c_eip c' = eip ctx \<and> c_eflags c' = eflags ctx"
proof -
  define C where "C = reg c 4 - 0x78"
  have h': "c_eip h' = B + 2160" "reg h' 4 + 12 = C" "sreg h' = (sreg c)(1 := sel)"
    and ctx: "read_context C h' = (cpu_context c)\<lparr>esp := reg c 4 + 4, eip := eip ctx, eflags := eflags ctx\<rparr>"
    using assms(1-5,7) by (simp_all add: handler_returns_def C_def)
  have mem: "dword h' (C + 0x28) = reg c 0" "dword h' (C + 0x2C) = reg c 1" "dword h' (C + 0x30) = reg c 2"
      "dword h' (C + 0x34) = reg c 3" "dword h' (C + 0x3C) = reg c 5" "dword h' (C + 0x40) = reg c 6" "dword h' (C + 0x44) = reg c 7"
      "dword h' (C + 0x20) = eip ctx" "dword h' (C + 0x24) = eflags ctx" "ucast (dword h' (C + 0x4C)) = sreg c 1"
    using ctx by (simp_all add: read_context_def cpu_context_def zero_task_def)
  have off: "reg h' 4 + 0x58 = C + 0x4C" using h'(2) by (simp add: algebra_simps)
  have "ucast (dword h' (reg h' 4 + 0x58)) AND 3 = sreg h' 1 AND 3" unfolding off using mem(10) assms(6) h'(3) by simp
  from dispatcher_return [OF h'(1) this, of fl dispatch rest, unfolded h'(2)]
  obtain c' where c': "run fl B (kernel_page B dispatch rest) 15 h' = Some c'" "reg c' 4 = C + 0x78"
      "\<forall>r. r < 8 \<and> r \<noteq> 4 \<longrightarrow> reg c' r = dword h' (C + 0x28 + 4 * of_nat r)"
      "c_eip c' = dword h' (C + 0x20)" "c_eflags c' = dword h' (C + 0x24)" "sreg c' = (sreg h')(1 := ucast (dword h' (C + 0x4C)))"
    by blast
  have "reg c' r = reg c r" if "r < 8" for r
  proof -
    have "r \<in> {0, 1, 2, 3, 4, 5, 6, 7}" using that by auto
    then show ?thesis using c'(2,3) mem(1-7) by (auto simp: C_def add.commute [of C])
  qed
  then show ?thesis using c' mem(8-10) h'(3) by simp
qed

lemma handler_entry:
  fixes c :: cpu
  assumes "i < 256" and "err \<noteq> None \<longleftrightarrow> isErrorCodeInterrupt i"
  defines "B \<equiv> USERMODE_INTJMP_ADDRESS" and "E \<equiv> reg c 4 - 0x7C"
  shows "\<exists>h. run fl B (kernel_page B dispatch rest) 31 (deliver (idt_gate sel i) err f c) = Some h \<and>
    c_eip h = dispatch \<and> reg h 4 = E - 12 \<and> sreg h = (sreg c)(1 := ucast sel) \<and> dword h (E - 12) = B + 2160 \<and>
    stack_arg h 0 = of_nat i \<and> (\<forall>v. err = Some v \<longrightarrow> stack_arg h 1 = v) \<and> stack_arg h 2 = E + 4 \<and>
    read_context (E + 4) h = (cpu_context c)\<lparr>esp := reg c 4 + 4\<rparr>"
proof -
  obtain c2 where c2: "run fl B (kernel_page B dispatch rest) 2 (deliver (idt_gate sel i) err f c) = Some c2"
    "c_eip c2 = B + 2048" "reg c2 = (reg c)(4 := E)" "sreg c2 = (sreg c)(1 := ucast sel)" "c_cr3 c2 = c_cr3 c"
    "dword c2 E = B + 8 * of_nat i + 8" "\<forall>v. err = Some v \<longrightarrow> dword c2 (E + 0x6C) = v"
    "dword c2 (E + 0x70) = c_eip c" "dword c2 (E + 0x74) = ucast (sreg c 1)" "dword c2 (E + 0x78) = c_eflags c"
    using entry_run [OF assms(1,2), of fl dispatch rest sel f c] unfolding B_def E_def by blast
  have E2: "reg c2 4 = E" by (simp add: c2(3))
  define c3 where "c3 = exec fl save_instrs c2"
  note e = save_effect [of fl c2, folded c3_def, unfolded E2] save_effect_segments [of fl c2, folded c3_def, unfolded E2]
  define h where "h = (push (B + 2160) c3)\<lparr>c_eip := dispatch\<rparr>"
  have "run fl B (kernel_page B dispatch rest) (2 + 29) (deliver (idt_gate sel i) err f c) = Some h"
    unfolding run_add c2(1) option.case h_def c3_def by (rule dispatcher_call(1) [OF c2(2)])
  then have run: "run fl B (kernel_page B dispatch rest) 31 (deliver (idt_gate sel i) err f c) = Some h" by (simp del: run.simps)
  have h: "reg h 4 = E - 12" "c_eip h = dispatch" "sreg h = sreg c3" "dword h = (dword c3)(E - 12 := B + 2160)"
    using e(1) by (simp_all add: h_def machine_defs)
  have num: "drop_bit 3 (dword c2 E - 0xFF812008) = of_nat i"
    using assms(1) by (simp add: c2(6) B_def USERMODE_INTJMP_ADDRESS_def shift_number)
  have args: "stack_arg h 0 = of_nat i" "stack_arg h 1 = dword c2 (E + 0x6C)" "stack_arg h 2 = E + 4"
    using e(2-4) num by (simp_all add: stack_arg_def h)
  have "read_context (E + 4) h = (cpu_context c)\<lparr>esp := reg c 4 + 4\<rparr>"
    using e c2(3-5,8-10) by (simp add: read_context_def cpu_context_def h E_def zero_task_def ucast_half add.commute [of _ "reg c 4"])
  then show ?thesis using run h args e(26) c2(4,7) by auto
qed

text \<open>C5: an interrupt in kernel mode is transparent. For each of the 256 vectors, the generated entry and dispatcher, decoded
  and run as machine code, call \<^verbatim>\<open>__dispatchKernelInterrupt\<close> with the number of the vector, the error code (for the vectors that have
  one) and a pointer to a context that holds the registers of the interrupted code; only its \<^verbatim>\<open>esp\<close> is 4 too high. When
  the handler returns, the rest of the code restores all registers, segments and the stack and continues with the \<^verbatim>\<open>eip\<close> and the flags
  of the context.\<close>

theorem kernel_interrupt_transparent:
  assumes "i < 256" and "err \<noteq> None \<longleftrightarrow> isErrorCodeInterrupt i" and "(ucast sel :: u16) AND 3 = sreg c 1 AND 3"
    and "generateIntJmpTables USERMODE_INTJMP_ADDRESS dispatch g = Inr g'"
    and "length (intJmp_kernel g) = 4096" and "length (intJmp_user g) = 4096"
    and "kernelTask g < length (gdtTableEntries g)"
  shows "\<exists>h. run fl USERMODE_INTJMP_ADDRESS (intJmp_kernel g') 31 (deliver (idt_gate sel i) err f c) = Some h \<and>
    c_eip h = dispatch \<and> stack_arg h 0 = of_nat i \<and> (\<forall>v. err = Some v \<longrightarrow> stack_arg h 1 = v) \<and>
    read_context (stack_arg h 2) h = (cpu_context c)\<lparr>esp := reg c 4 + 4\<rparr> \<and>
    (\<forall>h' ctx. handler_returns h h' ctx \<longrightarrow>
      (\<exists>c'. run fl USERMODE_INTJMP_ADDRESS (intJmp_kernel g') 15 h' = Some c' \<and>
        (\<forall>r<8. reg c' r = reg c r) \<and> sreg c' = sreg c \<and> c_eip c' = eip ctx \<and> c_eflags c' = eflags ctx))"
proof -
  define B where "B = USERMODE_INTJMP_ADDRESS"
  define rest where "rest = drop 2220 (intJmp_kernel g)"
  define E where "E = reg c 4 - 0x7C"
  have page: "intJmp_kernel g' = kernel_page B dispatch rest"
    using generateIntJmpTables_spec [OF assms(5-7), of USERMODE_INTJMP_ADDRESS dispatch] assms(4) by (auto simp: B_def rest_def)
  obtain h where h: "run fl B (kernel_page B dispatch rest) 31 (deliver (idt_gate sel i) err f c) = Some h"
      "c_eip h = dispatch" "reg h 4 = E - 12" "sreg h = (sreg c)(1 := ucast sel)" "dword h (E - 12) = B + 2160"
      "stack_arg h 0 = of_nat i" "\<forall>v. err = Some v \<longrightarrow> stack_arg h 1 = v" "stack_arg h 2 = E + 4"
      "read_context (E + 4) h = (cpu_context c)\<lparr>esp := reg c 4 + 4\<rparr>"
    using handler_entry [OF assms(1,2), of fl dispatch rest sel f c] unfolding B_def E_def by blast
  have "\<exists>c'. run fl B (kernel_page B dispatch rest) 15 h' = Some c' \<and>
        (\<forall>r<8. reg c' r = reg c r) \<and> sreg c' = sreg c \<and> c_eip c' = eip ctx \<and> c_eflags c' = eflags ctx"
    if "handler_returns h h' ctx" for h' ctx
    using that handler_exit [OF h(3-5,8,9) [unfolded E_def] assms(3)] by blast
  then show ?thesis using h by (simp add: page B_def [symmetric] del: run.simps)
qed

definition demo_gdt :: gdt where
  "demo_gdt = \<lparr>gdtTableEntries = replicate 8192 zero_gdtEntry, gdtReady = True, idtTableEntries = [], taskTable = USERMODE_TASK_ADDRESS,
     TSS_kernel = zero_task, TSS_user = zero_task, intJmp_kernel = replicate 4096 0, intJmp_user = replicate 4096 0,
     stack = replicate 1024 0, codeRing0 = 1, dataRing0 = 2, codeRing3 = 3, dataRing3 = 4, kernelTask = 5, usermodeTask = 6,
     gdtr = (0xFFFF, USERMODE_GDT_ADDRESS), idtr = (0x7FF, USERMODE_IDT_ADDRESS), taskRegister = 0x28\<rparr>"

definition demo_cpu :: cpu where
  "demo_cpu = \<lparr>reg = (\<lambda>r. if r = 4 then 0x8000 else of_nat r), sreg = (\<lambda>r. if r = 1 then 8 else 0x10), c_eip = 0x100000,
     c_eflags = 0x202, c_cr3 = 0x5000, taskSwitched = True, dword = (\<lambda>_. 0)\<rparr>"

theorem kernel_interrupt_transparent_witness:
  "\<exists>g' h. generateIntJmpTables USERMODE_INTJMP_ADDRESS 0x104000 demo_gdt = Inr g' \<and>
     run (\<lambda>_. 2) USERMODE_INTJMP_ADDRESS (intJmp_kernel g') 31 (deliver (idt_gate 8 14) (Some 2) 2 demo_cpu) = Some h \<and>
     c_eip h = 0x104000 \<and> stack_arg h 0 = 14 \<and> stack_arg h 1 = 2 \<and> esp (read_context (stack_arg h 2) h) = 0x8004"
proof -
  have len: "length (intJmp_kernel demo_gdt) = 4096" "length (intJmp_user demo_gdt) = 4096"
      "kernelTask demo_gdt < length (gdtTableEntries demo_gdt)"
    by (simp_all add: demo_gdt_def)
  obtain g' where g': "generateIntJmpTables USERMODE_INTJMP_ADDRESS 0x104000 demo_gdt = Inr g'"
    using generateIntJmpTables_spec [OF len, of USERMODE_INTJMP_ADDRESS "0x104000"] by simp
  have "(14 :: nat) < 256" "Some 2 \<noteq> None \<longleftrightarrow> isErrorCodeInterrupt 14" "(ucast (8 :: u32) :: u16) AND 3 = sreg demo_cpu 1 AND 3"
    by (simp_all add: isErrorCodeInterrupt_def demo_cpu_def)
  from kernel_interrupt_transparent [OF this g' len, of "\<lambda>_. 2" 2]
  show ?thesis using g' by (auto simp: demo_cpu_def)
qed
section \<open>User mode\<close>

text \<open>The processor behind the switch to a task, with the kernel stack of the process in memory.\<close>

definition cpu_of_task :: "taskContext \<Rightarrow> u32 list \<Rightarrow> cpu" where
  "cpu_of_task u stk =
     \<lparr>reg = (\<lambda>r. [eax u, ecx u, edx u, ebx u, esp u, ebp u, esi u, edi u] ! (r mod 8)),
      sreg = (\<lambda>r. [seg_es u, seg_cs u, seg_ss u, seg_ds u, seg_fs u, seg_gs u] ! (r mod 6)),
      c_eip = eip u, c_eflags = eflags u, c_cr3 = t_cr3 u, taskSwitched = True,
      dword = (\<lambda>a. stk ! (unat (a - USERMODE_KERNELSTACK_ADDRESS) div 4))\<rparr>"

text \<open>The processor at the vector \<open>i\<close> in user code with the registers \<open>u\<close>: it pushes \<^verbatim>\<open>ss\<close>, \<^verbatim>\<open>esp\<close>, the flags, \<^verbatim>\<open>cs\<close>, \<^verbatim>\<open>eip\<close>
  and possibly an error code on the kernel stack; the jump of the entry then switches to the kernel's task, which saves
  the address behind the jump.\<close>

definition interrupted_task :: "u16 \<Rightarrow> nat \<Rightarrow> u32 option \<Rightarrow> u32 \<Rightarrow> taskContext \<Rightarrow> taskContext" where
  "interrupted_task code0 i err f u =
     u\<lparr>eip := USERMODE_INTJMP_ADDRESS + 8 * of_nat i + 7, seg_cs := code0, eflags := f,
       esp := USERMODE_KERNELSTACK_LIMIT - (if err = None then 20 else 24), seg_ss := ss0 u\<rparr>"

definition interrupted_stack :: "u32 option \<Rightarrow> taskContext \<Rightarrow> u32 list \<Rightarrow> u32 list" where
  "interrupted_stack err u stk =
     take (1019 - (if err = None then 0 else 1)) stk @ (case err of None \<Rightarrow> [] | Some v \<Rightarrow> [v]) @
     [eip u, ucast (seg_cs u), eflags u, esp u, ucast (seg_ss u)]"

lemma user_jump:
  assumes "i < 256"
  shows "decode (fetch B (user_page sel rest) (B + of_nat (8 * i))) = Some (JmpFar 0 sel, 7)"
proof -
  obtain code where "drop (8 * i) (concat (map (user_entry sel) [0..<256])) = user_entry sel i @ code"
    using concat_entries [of "user_entry sel" i 256] assms by auto
  then have at: "fetch B (user_page sel rest) (B + of_nat (8 * i)) = user_entry sel i @ code @ enable_fpu_code @ rest"
    using assms fetch_offset [of "8 * i" B] by (simp add: user_page_def del: upt_rec_numeral of_nat_mult)
  have "ucast (ucast sel :: u8) OR push_bit 8 (ucast (ucast (drop_bit 8 sel) :: u8)) = (sel :: u16)"
  proof (rule bit_word_eqI)
    fix n assume "n < LENGTH(16)"
    then show "bit (ucast (ucast sel :: u8) OR push_bit 8 (ucast (ucast (drop_bit 8 sel) :: u8)) :: u16) n = bit sel n"
      by (cases "n < 8") (auto simp: bit_simps)
  qed
  then show ?thesis unfolding at by (simp add: user_entry_def decode_def le_word_dword_bytes)
qed

lemma number_masks:
  assumes "i < 256" shows "(8 * of_nat i :: u32) AND 7 = 0" and "(of_nat i :: u32) AND NOT 255 = 0"
proof -
  have m: "(7 :: u32) = mask 3" "(255 :: u32) = mask 8" by (simp_all add: mask_eq_exp_minus_1)
  have "unat (8 * of_nat i :: u32) = 8 * i" using assms by (simp add: unat_word_ariths unsigned_of_nat take_bit_nat_eq_self)
  then have "unat ((8 * of_nat i :: u32) AND 7) = 0" unfolding m unat_and_mask by simp
  then show "(8 * of_nat i :: u32) AND 7 = 0" by (simp only: unat_eq_0)
  have "unat (take_bit 8 (of_nat i :: u32)) = unat (of_nat i :: u32)"
    using assms by (simp add: unsigned_take_bit_eq unsigned_of_nat take_bit_nat_eq_self)
  then have "take_bit 8 (of_nat i :: u32) = of_nat i" by (simp only: word_unat_eq_iff)
  then have "bit (of_nat i :: u32) n \<Longrightarrow> n < 8" for n by (metis bit_take_bit_iff)
  then show "(of_nat i :: u32) AND NOT 255 = 0" unfolding m by (intro bit_word_eqI) (auto simp: bit_simps)
qed

lemma interrupted_number:
  assumes "i < 256" shows "interrupt_number (interrupted_task code0 i err f u) = Inr (of_nat i)"
  using number_masks [OF assms] shift_number [OF assms] by (simp add: interrupt_number_def interrupted_task_def)

lemma interrupted_unwind:
  assumes "length stk = 1024"
  shows "unwind (interrupted_stack err u stk) (interrupted_task code0 i err f u) =
    Inr (u, case err of None \<Rightarrow> 0 | Some v \<Rightarrow> v)"
  using assms
  by (cases err) (simp_all add: unwind_def interrupted_stack_def interrupted_task_def USERMODE_KERNELSTACK_LIMIT_def
      USERMODE_KERNELSTACK_ADDRESS_def ucast_half)

lemma user_page_fpu:
  "fetch B (user_page sel rest) (B + 2048) = 0x0F # 0x06 # 0xCF # rest" "fetch B (user_page sel rest) (B + 2050) = 0xCF # rest"
  using fetch_offset [of 2048 B "user_page sel rest"] fetch_offset [of 2050 B "user_page sel rest"]
  by (simp_all add: user_page_def enable_fpu_code_def del: upt_rec_numeral)

lemma fpu_entry:
  fixes data0 :: u16
  assumes "length stk = 1019" and "seg_cs u AND 3 = 3" and "code0 AND 3 = 0"
  defines "u' \<equiv> u\<lparr>eip := USERMODE_INTJMP_ENABLE_FPU, seg_cs := code0, eflags := 0, esp := USERMODE_KERNELSTACK_LIMIT - 20, seg_ss := data0\<rparr>"
    and "stk' \<equiv> stk @ [eip u, ucast (seg_cs u), eflags u, esp u, ucast (seg_ss u)]"
  shows "\<exists>c. run fl USERMODE_INTJMP_ADDRESS (user_page sel rest) 2 (cpu_of_task u' stk') = Some c \<and>
    (\<forall>r<8. reg c r = reg (cpu_of_task u stk') r) \<and> (\<forall>r<6. sreg c r = sreg (cpu_of_task u stk') r) \<and>
    c_eip c = eip u \<and> c_eflags c = eflags u \<and> \<not> taskSwitched c"
proof -
  let ?page = "user_page sel rest"
  define B where "B = USERMODE_INTJMP_ADDRESS"
  define c0 where "c0 = cpu_of_task u' stk'"
  define c1 where "c1 = c0\<lparr>c_eip := B + 2050, taskSwitched := False\<rparr>"
  have c0: "c_eip c0 = B + 2048" "reg c0 4 = 0xFF800FEC" "sreg c0 (Suc 0) = code0"
    by (simp_all add: c0_def u'_def cpu_of_task_def B_def USERMODE_INTJMP_ENABLE_FPU_def USERMODE_KERNELSTACK_LIMIT_def)
  have mem: "dword c0 0xFF800FEC = eip u" "dword c0 0xFF800FF0 = ucast (seg_cs u)" "dword c0 0xFF800FF4 = eflags u"
      "dword c0 0xFF800FF8 = esp u" "dword c0 0xFF800FFC = ucast (seg_ss u)"
    using assms(1) by (simp_all add: c0_def cpu_of_task_def USERMODE_KERNELSTACK_ADDRESS_def stk'_def nth_append)
  have "decode (fetch B ?page (c_eip c0)) = Some (Clts, 2)" by (simp add: c0(1) user_page_fpu decode_def decode2_def)
  then have run1: "run fl B ?page 1 c0 = Some c1" using c0(1) by (simp add: c1_def)
  have "decode (fetch B ?page (c_eip c1)) = Some (Iret, 1)" by (simp add: c1_def user_page_fpu decode_def)
  from run_last [OF run1 this] have run2: "run fl B ?page 2 c0 = step fl Iret (c1\<lparr>c_eip := B + 2051\<rparr>)"
    by (simp add: c1_def numeral_2_eq_2 add.commute [of B] del: step.simps run.simps)
  have "(ucast (ucast (seg_cs u) :: u32) :: u16) AND 3 \<noteq> code0 AND 3" using assms(2,3) by (simp add: ucast_half)
  then have "\<exists>c. run fl B ?page 2 c0 = Some c \<and> c_eip c = eip u \<and> c_eflags c = eflags u \<and> \<not> taskSwitched c \<and>
      reg c = (reg c0)(4 := esp u) \<and> sreg c = (sreg c0)(1 := seg_cs u, 2 := seg_ss u)"
    unfolding run2 by (simp add: Let_def machine_defs c1_def c0 mem ucast_half)
  then obtain c where c: "run fl B ?page 2 c0 = Some c" "c_eip c = eip u" "c_eflags c = eflags u" "\<not> taskSwitched c"
      "reg c = (reg c0)(4 := esp u)" "sreg c = (sreg c0)(1 := seg_cs u, 2 := seg_ss u)" by blast
  have "reg c r = reg (cpu_of_task u stk') r" if "r < 8" for r
    using that c(5) by (simp add: c0_def cpu_of_task_def u'_def nth_Cons')
  moreover have "sreg c r = sreg (cpu_of_task u stk') r" if "r < 6" for r
    using that c(6) by (simp add: c0_def cpu_of_task_def u'_def nth_Cons')
  ultimately show ?thesis using c unfolding c0_def B_def by blast
qed

lemma selector_ring0: "(ucast (of_nat (8 * n) OR GDT_CPL_RING0 :: u32) :: u16) AND 3 = 0"
proof -
  have m: "(3 :: u16) = mask 2" by (simp add: mask_eq_exp_minus_1)
  have "(of_nat (8 * n) :: u32) = push_bit 3 (of_nat n)" by (simp add: push_bit_eq_mult)
  then show ?thesis unfolding m GDT_CPL_RING0_def by (intro bit_word_eqI) (auto simp: bit_simps simp del: of_nat_mult)
qed


section \<open>The descriptor tables\<close>

text \<open>How the processor reads a descriptor: the base, and the number of bytes from it on.\<close>

definition seg_base :: "gdtEntry \<Rightarrow> u32" where
  "seg_base e = ucast (address1 e) OR push_bit 16 (ucast (address2 e)) OR push_bit 24 (ucast (address3 e))"

definition seg_size :: "gdtEntry \<Rightarrow> nat" where
  "seg_size e = (let n = unat (limit1 e) + 65536 * unat (limit2 e) + 1 in if granularity e then 4096 * n else n)"

lemma split_address: "seg_base (gdtEntrySetAddress address e) = address"
proof -
  have m: "(0xFFFF :: u32) = mask 16" "(0xFF0000 :: u32) = push_bit 16 (mask 8)" "(0xFF000000 :: u32) = push_bit 24 (mask 8)"
    by (simp_all add: mask_eq_exp_minus_1)
  have "ucast (ucast (address AND 0xFFFF) :: u16) OR push_bit 16 (ucast (ucast (drop_bit 16 (address AND 0xFF0000)) :: u8)) OR
      push_bit 24 (ucast (ucast (drop_bit 24 (address AND 0xFF000000)) :: u8)) = address" (is "?w = _")
  proof (rule bit_word_eqI)
    fix n assume "n < LENGTH(32)"
    then consider "n < 16" | "16 \<le> n" "n < 24" | "24 \<le> n" "n < 32" by fastforce
    then show "bit ?w n = bit address n" unfolding m by cases (auto simp: bit_simps)
  qed
  then show ?thesis by (simp add: seg_base_def gdtEntrySetAddress_def)
qed

lemma limit_value:
  assumes "unat (v :: u64) < 2 ^ 20"
  shows "unat (ucast (v AND 0xFFFF) :: u16) + 65536 * unat (ucast (drop_bit 16 v AND 0xF) :: 4 word) = unat v"
proof -
  have m: "(0xFFFF :: u64) = mask 16" "(0xF :: u64) = mask 4" by (simp_all add: mask_eq_exp_minus_1)
  have "unat (v AND 0xFFFF) = unat v mod 65536" unfolding m by (simp add: unat_and_mask)
  moreover have "unat (drop_bit 16 v AND 0xF) = unat v div 65536"
    using assms unfolding m unat_and_mask by (simp add: drop_bit_eq_div unat_div)
  ultimately show ?thesis using assms by (simp add: unsigned_ucast_eq take_bit_eq_mod unat_mod)
qed

definition limit_ok :: "u64 \<Rightarrow> bool" where
  "limit_ok len \<longleftrightarrow> 0 < unat len \<and> (unat len \<le> 0x100000 \<or> unat len \<le> 0x100000000 \<and> unat len mod 4096 = 0)"

lemma set_limit_size:
  assumes "limit_ok len" shows "\<exists>e'. gdtEntrySetLimit len e = Inr e' \<and> seg_size e' = unat len \<and> seg_base e' = seg_base e"
proof -
  have m: "(0xFFF :: u64) = mask 12" by (simp add: mask_eq_exp_minus_1)
  have page: "len AND 0xFFF = 0 \<longleftrightarrow> unat len mod 4096 = 0" unfolding m by (simp add: unat_and_mask flip: unat_eq_0)
  have le: "len \<le> 0x100000000" "0 < len" using assms by (auto simp: limit_ok_def word_le_nat_alt word_less_nat_alt)
  show ?thesis
  proof (cases "unat len \<le> 0x100000")
    case True
    then have "\<not> 0x100000 < len" by (simp add: word_less_nat_alt)
    moreover have "unat (len - 1) = unat len - 1" using le(2) by (intro unat_minus_one) auto
    moreover have "0 < unat len" using assms by (simp add: limit_ok_def)
    ultimately have "unat (len - 1) < 2 ^ 20" "unat (len - 1) + 1 = unat len" "\<not> 0x100000 < len" using True by simp_all
    then show ?thesis using le True limit_value [of "len - 1"]
      by (simp add: gdtEntrySetLimit_def seg_size_def seg_base_def Let_def)
  next
    case False
    define n where "n = drop_bit 12 len"
    have n: "unat n = unat len div 4096" by (simp add: n_def drop_bit_eq_div unat_div)
    have big: "0x100000 < len" "len AND 0xFFF = 0" using False assms page by (auto simp: limit_ok_def word_less_nat_alt)
    have "0 < unat n" "unat n \<le> 2 ^ 20" using False assms n by (auto simp: limit_ok_def div_greater_zero_iff)
    moreover have "unat (n - 1) = unat n - 1" using \<open>0 < unat n\<close> by (intro unat_minus_one) auto
    ultimately have "unat (n - 1) < 2 ^ 20" "unat (n - 1) + 1 = unat len div 4096" using n by simp_all
    moreover have "4096 * (unat len div 4096) = unat len" using big(2) page by (simp add: mod_eq_0_iff_dvd)
    ultimately have "unat (n - 1) < 2 ^ 20" "4096 * (unat (n - 1) + 1) = unat len" by simp_all
    then show ?thesis using le big limit_value [of "n - 1"] n page
      by (simp add: gdtEntrySetLimit_def seg_size_def seg_base_def Let_def flip: n_def)
  qed
qed

text \<open>The entries below \<open>k\<close> are in use, all others are zero.\<close>

definition filled :: "nat \<Rightarrow> gdtEntry list \<Rightarrow> bool" where
  "filled k es \<longleftrightarrow> length es = GDT_MAX_COUNT \<and> 1 \<le> k \<and> k < GDT_MAX_COUNT \<and>
     (\<forall>j. 1 \<le> j \<and> j < k \<longrightarrow> g_present (es ! j)) \<and> (\<forall>j. k \<le> j \<and> j < GDT_MAX_COUNT \<longrightarrow> es ! j = zero_gdtEntry)"

lemma free_entry_first:
  assumes "i \<le> k" "k < i + n" "\<And>j. i \<le> j \<Longrightarrow> j < k \<Longrightarrow> g_present (es ! j)" "\<not> g_present (es ! k)"
  shows "free_entry n i es = Some k"
  using assms
proof (induction n arbitrary: i)
  case (Suc n) then show ?case by (cases "i = k") auto
qed simp

lemma filled_free:
  assumes "filled k es" shows "gdtGetFreeEntry es = Inr (es[k := zero_gdtEntry\<lparr>g_present := True\<rparr>], k)"
proof -
  have "es ! k = zero_gdtEntry" using assms by (simp add: filled_def)
  moreover have "free_entry (length es - 1) 1 es = Some k"
    using assms \<open>es ! k = zero_gdtEntry\<close> by (intro free_entry_first) (auto simp: filled_def zero_gdtEntry_def)
  ultimately show ?thesis by (simp add: gdtGetFreeEntry_def)
qed

lemma filled_next: "filled k es \<Longrightarrow> Suc k < GDT_MAX_COUNT \<Longrightarrow> g_present e \<Longrightarrow> filled (Suc k) (es[k := e])"
  by (auto simp: filled_def nth_list_update less_Suc_eq)

definition flat_segment :: "bool \<Rightarrow> 2 word \<Rightarrow> gdtEntry" where
  "flat_segment ex ring = zero_gdtEntry
     \<lparr>limit1 := 0xFFFF, limit2 := 0xF, granularity := True, readWrite := True, execute := ex, isSystem := True, privlevel := ring,
      g_present := True, is32bit := True\<rparr>"

definition task_segment :: "u32 \<Rightarrow> gdtEntry" where
  "task_segment address = (gdtEntrySetAddress address zero_gdtEntry)
     \<lparr>limit1 := 103, accessed := True, execute := True, g_present := True\<rparr>"

lemma setup_filled:
  assumes "filled k es"
  shows "setup_segment ex ring es = Inr (es[k := flat_segment ex ring], k)" "setup_task address es = Inr (es[k := task_segment address], k)"
proof -
  have k: "k < length es" using assms by (simp add: filled_def)
  show "setup_segment ex ring es = Inr (es[k := flat_segment ex ring], k)"
    using k by (simp add: setup_segment_def filled_free [OF assms] gdtEntrySetLimit_def gdtEntrySetAddress_def flat_segment_def
        zero_gdtEntry_def Let_def)
  show "setup_task address es = Inr (es[k := task_segment address], k)"
    using k by (simp add: setup_task_def filled_free [OF assms] gdtEntrySetLimit_def gdtEntrySetAddress_def task_segment_def
        zero_gdtEntry_def TASK_SIZE_def Let_def)
qed

definition final_entries :: "u32 \<Rightarrow> gdtEntry list" where
  "final_entries taskAddr = (replicate GDT_MAX_COUNT zero_gdtEntry)
     [1 := flat_segment True 0, 2 := flat_segment False 0, 3 := flat_segment True 3, 4 := flat_segment False 3,
      5 := task_segment taskAddr, 6 := task_segment (taskAddr + 104)]"

lemma init_segments:
  assumes "gdtTableEntries g = replicate GDT_MAX_COUNT zero_gdtEntry" and "taskTable g \<noteq> 0"
  shows "\<exists>g'. kbind (initBasicGDT g) initBasicTask = Inr g' \<and> gdtTableEntries g' = final_entries (taskTable g) \<and>
    codeRing0 g' = 1 \<and> dataRing0 g' = 2 \<and> codeRing3 g' = 3 \<and> dataRing3 g' = 4 \<and> kernelTask g' = 5 \<and> usermodeTask g' = 6"
proof -
  define es0 where "es0 = replicate GDT_MAX_COUNT zero_gdtEntry"
  define es1 where "es1 = es0[1 := flat_segment True 0]"
  define es2 where "es2 = es1[2 := flat_segment False 0]"
  define es3 where "es3 = es2[3 := flat_segment True 3]"
  define es4 where "es4 = es3[4 := flat_segment False 3]"
  define es5 where "es5 = es4[5 := task_segment (taskTable g)]"
  have p: "g_present (flat_segment ex ring)" "g_present (task_segment a)" for ex ring a
    by (simp_all add: flat_segment_def task_segment_def)
  have f0: "filled 1 es0" by (simp add: filled_def es0_def GDT_MAX_COUNT_def)
  have f1: "filled 2 es1" using filled_next [OF f0 _ p(1)] by (simp add: es1_def GDT_MAX_COUNT_def numeral_2_eq_2)
  have f2: "filled 3 es2" using filled_next [OF f1 _ p(1)] by (simp add: es2_def GDT_MAX_COUNT_def numeral_3_eq_3)
  have f3: "filled 4 es3" using filled_next [OF f2 _ p(1)] by (simp add: es3_def GDT_MAX_COUNT_def)
  have f4: "filled 5 es4" using filled_next [OF f3 _ p(1)] by (simp add: es4_def GDT_MAX_COUNT_def)
  have f5: "filled 6 es5" using filled_next [OF f4 _ p(2)] by (simp add: es5_def GDT_MAX_COUNT_def)
  have "initBasicGDT g = Inr (g\<lparr>gdtTableEntries := es4, codeRing0 := 1, dataRing0 := 2, codeRing3 := 3, dataRing3 := 4\<rparr>)"
    by (simp add: initBasicGDT_def assms(1) setup_filled(1) [OF f0] setup_filled(1) [OF f1] setup_filled(1) [OF f2]
        setup_filled(1) [OF f3] del: One_nat_def flip: es0_def es1_def es2_def es3_def es4_def)
  then show ?thesis using assms(2)
    by (simp add: initBasicTask_def setup_filled(2) [OF f4] setup_filled(2) [OF f5] TASK_SIZE_def flip: es5_def)
      (simp add: final_entries_def es0_def es1_def es2_def es3_def es4_def es5_def)
qed

lemma flat_segment_reads: "seg_base (flat_segment ex ring) = 0" "seg_size (flat_segment ex ring) = 2 ^ 32"
    "execute (flat_segment ex ring) = ex" "privlevel (flat_segment ex ring) = ring"
  by (simp_all add: seg_base_def seg_size_def flat_segment_def zero_gdtEntry_def)

lemma task_segment_reads: "seg_base (task_segment a) = a" "seg_size (task_segment a) = 104"
proof -
  have "seg_base (task_segment a) = seg_base (gdtEntrySetAddress a zero_gdtEntry)" by (simp add: seg_base_def task_segment_def)
  then show "seg_base (task_segment a) = a" by (simp only: split_address)
  show "seg_size (task_segment a) = 104" by (simp add: seg_size_def task_segment_def gdtEntrySetAddress_def zero_gdtEntry_def)
qed



end
