(* ===== verification/VConsole.thy ===== *)
theory VConsole
  imports Console
begin

text \<open>
  The virtual consoles of the init process (\<^verbatim>\<open>usermode/vconsole.c\<close> and the event loop of \<^verbatim>\<open>usermode/main.c\<close>). The calls of
  the process that reach the kernel's console (\<^verbatim>\<open>consoleWriteRaw\<close>, \<^verbatim>\<open>consoleSetCursor\<close>, \<^verbatim>\<open>consoleSetHardwareCursor\<close>,
  \<^verbatim>\<open>consoleSetFlags\<close>) are the operations of \<open>Console\<close> behind the system calls of the same names. The state is the array
  of virtual consoles together with the kernel's console; an index outside of the array is \<open>MemFault\<close>.
\<close>

unbundle bit_operations_syntax

section \<open>Virtual consoles\<close>

definition NUM_VIRT_CONSOLES :: nat where "NUM_VIRT_CONSOLES = 7"
definition ESCAPE_COLOR :: u8 where "ESCAPE_COLOR = 1"
definition ESCAPE_CURSORX :: u8 where "ESCAPE_CURSORX = 2"
definition ESCAPE_CURSORY :: u8 where "ESCAPE_CURSORY = 3"
definition CONSOLE_BLANK :: u16 where "CONSOLE_BLANK = cell 0x20 (MAKE_COLOR 15 0)"

record virtConsole =
  v_data :: "u16 list"
  v_cursorX :: u32
  v_cursorY :: u32
  v_input :: u32
  v_output :: u32
  v_color :: u8
  v_pid :: u32
  v_escape :: bool
  v_escapeCode :: u8
  v_escapeValue :: u8

type_synonym vstate = "virtConsole list \<times> console"

definition get_console :: "nat \<Rightarrow> vstate \<Rightarrow> virtConsole kres" where
  "get_console index = (\<lambda>(vs, c). if index < length vs then Inr (vs ! index) else Inl MemFault)"

definition set_console :: "nat \<Rightarrow> virtConsole \<Rightarrow> vstate \<Rightarrow> vstate" where
  "set_console index v = (\<lambda>(vs, c). (vs[index := v], c))"

definition RAW_FLAGS :: u32 where "RAW_FLAGS = CONFLAGS_HWCURSOR_AUTO OR CONFLAGS_RAW_MODE"
definition SHOW_FLAGS :: u32 where "SHOW_FLAGS = CONFLAGS_HWCURSOR OR CONFLAGS_HWCURSOR_AUTO OR CONFLAGS_RAW_MODE"

text \<open>The system calls take the coordinates as bytes.\<close>

definition move_cursor :: "u32 \<Rightarrow> u32 \<Rightarrow> console \<Rightarrow> console" where
  "move_cursor x y c = consoleSetHardwareCursor (ucast x) (ucast y) (fst (consoleSetCursorPos (ucast x) (ucast y) c))"

definition virtConsoleSwitchTo :: "nat \<Rightarrow> vstate \<Rightarrow> vstate kres" where
  "virtConsoleSwitchTo index st =
     kbind (get_console index st) (\<lambda>v.
     kbind (consoleWriteRawLen (VGA_WIDTH * VGA_HEIGHT) (v_data v) (fst (consoleSetCursorPos 0 0 (consoleSetFlags RAW_FLAGS (snd st))))) (\<lambda>c.
     Inr (fst st, consoleSetFlags SHOW_FLAGS (move_cursor (v_cursorX v) (v_cursorY v) c))))"

text \<open>\<^verbatim>\<open>snprintf(text, VGA_WIDTH, "IBN OS - Console %d", index)\<close> for the single-digit indices.\<close>

definition header_text :: "nat \<Rightarrow> u8 list" where
  "header_text index = map of_char ''IBN OS - Console '' @ [0x30 + of_nat index]"

definition header_line :: "nat \<Rightarrow> u16 list" where
  "header_line index =
     map (\<lambda>b. cell (if b \<noteq> 0 then b else 0x20) (MAKE_COLOR 15 1)) (header_text index @ replicate (VGA_WIDTH - length (header_text index)) 0)"

definition virtConsoleInit :: "nat \<Rightarrow> u32 \<Rightarrow> u32 \<Rightarrow> vstate \<Rightarrow> vstate kres" where
  "virtConsoleInit index inp outp st =
     kassert (index < NUM_VIRT_CONSOLES) (
     kbind (get_console index st) (\<lambda>v.
     kassert (sint inp \<ge> 0) (kassert (sint outp \<ge> 0) (
     Inr (set_console index
       \<lparr>v_data = header_line index @ replicate (VGA_WIDTH * VGA_HEIGHT - VGA_WIDTH) CONSOLE_BLANK, v_cursorX = 0, v_cursorY = 1, v_input = inp,
        v_output = outp, v_color = MAKE_COLOR 15 0, v_pid = v_pid v, v_escape = False, v_escapeCode = 0, v_escapeValue = 0\<rparr> st)))))"

definition virtConsoleScrollUp :: "nat \<Rightarrow> vstate \<Rightarrow> vstate kres" where
  "virtConsoleScrollUp index st =
     kassert (index < NUM_VIRT_CONSOLES) (
     kbind (get_console index st) (\<lambda>v.
     kbind (copy_rows (VGA_HEIGHT - 2) 2 (v_data v)) (\<lambda>m.
     kbind (clear_row VGA_WIDTH 0 (VGA_HEIGHT - 1) CONSOLE_BLANK m) (\<lambda>m.
     Inr (set_console index (v\<lparr>v_data := m\<rparr>) st)))))"

definition set_cursor :: "nat \<Rightarrow> int \<Rightarrow> int \<Rightarrow> vstate \<Rightarrow> vstate kres" where
  "set_cursor index x y st =
     kbind (get_console index st) (\<lambda>v. Inr (set_console index (v\<lparr>v_cursorX := of_int x, v_cursorY := of_int y\<rparr>) st))"

definition put_data :: "nat \<Rightarrow> int \<Rightarrow> int \<Rightarrow> u16 \<Rightarrow> vstate \<Rightarrow> vstate kres" where
  "put_data index x y v' st =
     kbind (get_console index st) (\<lambda>v.
     if y * 80 + x < 0 then Inl MemFault
     else kbind (put_cell (nat (y * 80 + x)) v' (v_data v)) (\<lambda>m. Inr (set_console index (v\<lparr>v_data := m\<rparr>) st)))"

text \<open>The end of \<^verbatim>\<open>virtConsolePutChar\<close>.\<close>

definition finish_put :: "nat \<Rightarrow> int \<Rightarrow> int \<Rightarrow> bool \<Rightarrow> vstate \<Rightarrow> vstate kres" where
  "finish_put index x y active st =
     kbind (set_cursor index x y st) (\<lambda>st.
     Inr (if active then (fst st, move_cursor (of_int x) (of_int y) (snd st)) else st))"

text \<open>Breaking the line and scrolling, for the position behind the character.\<close>

definition wrap_put :: "nat \<Rightarrow> int \<Rightarrow> int \<Rightarrow> bool \<Rightarrow> vstate \<Rightarrow> vstate kres" where
  "wrap_put index x y active st =
     (let (x, y) = (if x \<ge> int VGA_WIDTH then (0, y + 1) else (x, y)) in
      if y \<ge> int VGA_HEIGHT
      then kbind (virtConsoleScrollUp index st) (\<lambda>st.
           kbind (set_cursor index x (int VGA_HEIGHT - 1) st) (\<lambda>st.
           if active then virtConsoleSwitchTo index st else Inr st))
      else finish_put index x y active st)"

definition virtConsolePutChar :: "nat \<Rightarrow> u8 \<Rightarrow> bool \<Rightarrow> vstate \<Rightarrow> vstate kres" where
  "virtConsolePutChar index chr active st =
     kbind (get_console index st) (\<lambda>v.
     kassert (index < NUM_VIRT_CONSOLES) (
     let x = sint (v_cursorX v); y = sint (v_cursorY v) in
     if chr = 127
     then let (x, y) = (if x - 1 < 0 then (int VGA_WIDTH - 1, y - 1) else (x - 1, y));
              y = (if y < 1 then 1 else y) in
          kbind (put_data index x y (cell 0x20 (v_color v)) st) (\<lambda>st.
          kbind (if active then virtConsoleSwitchTo index st else Inr st) (finish_put index x y active))
     else kbind (if chr \<noteq> 0x0A
                 then kbind (put_data index x y (cell chr (v_color v)) st) (\<lambda>st.
                      kbind (if active then kbind (consolePutCharRaw (cell chr (v_color v)) (snd st)) (\<lambda>c. Inr (fst st, c)) else Inr st) (\<lambda>st.
                      Inr (st, x + 1, y)))
                 else Inr (st, 0, y + 1)) (\<lambda>(st, x, y).
          wrap_put index x y active st)))"

definition virtConsoleProcessEscape :: "nat \<Rightarrow> bool \<Rightarrow> vstate \<Rightarrow> vstate kres" where
  "virtConsoleProcessEscape index active st =
     kbind (get_console index st) (\<lambda>v.
     if \<not> v_escape v then Inr st
     else if v_escapeCode v = ESCAPE_COLOR then Inr (set_console index (v\<lparr>v_color := v_escapeValue v\<rparr>) st)
     else if v_escapeCode v = ESCAPE_CURSORX \<or> v_escapeCode v = ESCAPE_CURSORY
     then let posX = (if v_escapeCode v = ESCAPE_CURSORX then ucast (v_escapeValue v) else v_cursorX v);
              posY = (if v_escapeCode v = ESCAPE_CURSORY then ucast (v_escapeValue v) + 1 else v_cursorY v) in
          if unat posX < VGA_WIDTH \<and> unat posY < VGA_HEIGHT
          then let st = set_console index (v\<lparr>v_cursorX := posX, v_cursorY := posY\<rparr>) st in
               Inr (if active then (fst st, move_cursor posX posY (snd st)) else st)
          else Inr st
     else Inr st)"

section \<open>The event loop\<close>

text \<open>A byte from the process behind the console \<open>index\<close>; \<open>cur\<close> is the console on the screen.\<close>

definition output_byte :: "nat \<Rightarrow> nat \<Rightarrow> u8 \<Rightarrow> vstate \<Rightarrow> vstate kres" where
  "output_byte cur index b st =
     kbind (get_console index st) (\<lambda>v.
     if \<not> v_escape v \<and> b = 0x1B
     then Inr (set_console index (v\<lparr>v_escape := True, v_escapeCode := 0, v_escapeValue := 0\<rparr>) st)
     else if v_escape v
     then if v_escapeCode v = 0 then Inr (set_console index (v\<lparr>v_escapeCode := b\<rparr>) st)
          else kbind (virtConsoleProcessEscape index (index = cur) (set_console index (v\<lparr>v_escapeValue := b\<rparr>) st)) (\<lambda>st.
               kbind (get_console index st) (\<lambda>v. Inr (set_console index (v\<lparr>v_escape := False\<rparr>) st)))
     else virtConsolePutChar index b (cur = index) st)"

primrec output_bytes :: "nat \<Rightarrow> nat \<Rightarrow> u8 list \<Rightarrow> vstate \<Rightarrow> vstate kres" where
  "output_bytes cur index [] st = Inr st"
| "output_bytes cur index (b # bs) st = kbind (output_byte cur index b st) (output_bytes cur index bs)"

text \<open>The console whose output pipe is \<open>handle\<close>.\<close>

definition find_console :: "u32 \<Rightarrow> virtConsole list \<Rightarrow> nat option" where
  "find_console handle vs = find (\<lambda>i. v_output (vs ! i) = handle) [0..<NUM_VIRT_CONSOLES]"

text \<open>Bytes from the keyboard: a tabulator shows the next console, all others go to the input pipe of the current one.\<close>

primrec input_bytes :: "u8 list \<Rightarrow> nat \<times> vstate \<times> (u32 \<times> u8) list \<Rightarrow> (nat \<times> vstate \<times> (u32 \<times> u8) list) kres" where
  "input_bytes [] x = Inr x"
| "input_bytes (b # bs) x = (case x of (cur, st, sent) \<Rightarrow>
     if b = 0x09
     then let cur = (cur + 1) mod NUM_VIRT_CONSOLES in kbind (virtConsoleSwitchTo cur st) (\<lambda>st. input_bytes bs (cur, st, sent))
     else kbind (get_console cur st) (\<lambda>v. input_bytes bs (cur, st, sent @ [(v_input v, b)])))"

text \<open>One round of the event loop: the handle that \<^verbatim>\<open>objectWait\<close> has returned, and the bytes that \<^verbatim>\<open>read\<close> has got from it. The
  last component of the state collects what is forwarded to the processes: the handle of the input pipe and the byte.\<close>

definition handle_event :: "u32 \<Rightarrow> u8 list \<Rightarrow> nat \<times> vstate \<times> (u32 \<times> u8) list \<Rightarrow> (nat \<times> vstate \<times> (u32 \<times> u8) list) kres" where
  "handle_event handle bytes = (\<lambda>(cur, st, sent).
     if sint handle < 0 then Inr (cur, st, sent)
     else if handle \<noteq> 0
     then case find_console handle (fst st) of None \<Rightarrow> Inr (cur, st, sent)
          | Some index \<Rightarrow> kbind (output_bytes cur index bytes st) (\<lambda>st. Inr (cur, st, sent))
     else input_bytes bytes (cur, st, sent))"

primrec handle_events :: "(u32 \<times> u8 list) list \<Rightarrow> nat \<times> vstate \<times> (u32 \<times> u8) list \<Rightarrow> (nat \<times> vstate \<times> (u32 \<times> u8) list) kres" where
  "handle_events [] x = Inr x"
| "handle_events (e # es) x = kbind (handle_event (fst e) (snd e) x) (handle_events es)"

primrec init_consoles :: "(nat \<Rightarrow> u32 \<times> u32) \<Rightarrow> nat list \<Rightarrow> vstate \<Rightarrow> vstate kres" where
  "init_consoles pipes [] st = Inr st"
| "init_consoles pipes (i # is) st = kbind (virtConsoleInit i (fst (pipes i)) (snd (pipes i)) st) (init_consoles pipes is)"

text \<open>\<^verbatim>\<open>main\<close> with the handles that the calls of \<^verbatim>\<open>createPipe\<close> return, up to any number of rounds of its event loop.\<close>

definition main_run :: "(nat \<Rightarrow> u32 \<times> u32) \<Rightarrow> (u32 \<times> u8 list) list \<Rightarrow> vstate \<Rightarrow> (nat \<times> vstate \<times> (u32 \<times> u8) list) kres" where
  "main_run pipes events st =
     kbind (init_consoles pipes [0..<NUM_VIRT_CONSOLES] st) (\<lambda>st.
     kbind (virtConsoleSwitchTo 0 st) (\<lambda>st. handle_events events (0, st, [])))"

section \<open>Writing cells to the screen\<close>

definition cursor_index :: "console \<Rightarrow> nat" where
  "cursor_index c = unat (cursorY c) * 80 + unat (cursorX c)"

lemma raw_put:
  assumes "console_ok c" and "flag CONFLAGS_RAW_MODE c"
  shows "\<exists>c'. consolePutCharRaw v c = Inr c' \<and> console_ok c' \<and> consoleFlags c' = consoleFlags c \<and>
    screen c' = (screen c)[cursor_index c := v] \<and> cursor_index c' = Suc (cursor_index c) mod 2000"
proof -
  have ok: "length (screen c) = 2000" "unat (cursorX c) < 80" "unat (cursorY c) < 25" using assms(1) by (auto simp: console_ok_def)
  then have i: "cursor_index c < 2000" by (simp add: cursor_index_def)
  have x: "unat (cursorX c + 1) = unat (cursorX c) + 1" "unat (cursorY c + 1) = unat (cursorY c) + 1"
    using ok by (simp_all add: unat_add_small)
  let ?d = "c\<lparr>screen := (screen c)[cursor_index c := v], cursorX := cursorX c + 1\<rparr>"
  let ?fin = "\<lambda>c. if flag CONFLAGS_HWCURSOR_AUTO c then consoleSetHardwareCursor (cursorX c) (cursorY c) c else c"
  have raw: "flag CONFLAGS_RAW_MODE ?d" using assms(2) by (simp add: flag_def)
  have put: "consolePutCharRaw v c = advance (v AND 0xFF = 0x0A) ?d"
    using i ok(1) by (simp add: consolePutCharRaw_def put_cell_def CHAR_OFFSET_def VGA_WIDTH_def cursor_index_def)
  have fin: "console_ok (?fin e) = console_ok e" "consoleFlags (?fin e) = consoleFlags e" "screen (?fin e) = screen e"
      "cursor_index (?fin e) = cursor_index e" for e
    by (simp_all add: console_ok_def cursor_index_def)
  consider "unat (cursorX c) < 79" | "unat (cursorX c) = 79" "unat (cursorY c) < 24" | "unat (cursorX c) = 79" "unat (cursorY c) = 24"
    using ok by linarith
  then show ?thesis
  proof cases
    case 1
    then have "advance (v AND 0xFF = 0x0A) ?d = Inr (?fin ?d)"
      unfolding advance_def Let_def using raw ok x by (simp add: VGA_WIDTH_def VGA_HEIGHT_def)
    then show ?thesis unfolding put using 1 ok x fin [of ?d]
      by (intro exI [of _ "?fin ?d"]) (simp add: console_ok_def cursor_index_def)
  next
    case 2
    let ?e = "?d\<lparr>cursorY := cursorY c + 1, cursorX := 0\<rparr>"
    have "advance (v AND 0xFF = 0x0A) ?d = Inr (?fin ?e)"
      unfolding advance_def Let_def using 2 raw ok x by (simp add: VGA_WIDTH_def VGA_HEIGHT_def flag_def)
    then show ?thesis unfolding put using 2 ok x fin [of ?e]
      by (intro exI [of _ "?fin ?e"]) (simp add: console_ok_def cursor_index_def)
  next
    case 3
    let ?e = "?d\<lparr>cursorX := 0, cursorY := 0\<rparr>"
    have "advance (v AND 0xFF = 0x0A) ?d = Inr (?fin ?e)"
      unfolding advance_def Let_def using 3 raw ok x by (simp add: VGA_WIDTH_def VGA_HEIGHT_def flag_def)
    then show ?thesis unfolding put using 3 ok x fin [of ?e]
      by (intro exI [of _ "?fin ?e"]) (simp add: console_ok_def cursor_index_def)
  qed
qed

lemma raw_write:
  assumes "console_ok c" "flag CONFLAGS_RAW_MODE c" "cursor_index c + n \<le> 2000" "n \<le> length d"
  shows "\<exists>c'. consoleWriteRawLen n d c = Inr c' \<and> console_ok c' \<and> consoleFlags c' = consoleFlags c \<and>
    screen c' = take (cursor_index c) (screen c) @ take n d @ drop (cursor_index c + n) (screen c)"
  using assms
proof (induction n arbitrary: d c)
  case 0 then show ?case by simp
next
  case (Suc n)
  obtain v vs where d: "d = v # vs" using Suc.prems(4) by (cases d) auto
  obtain c1 where c1: "consolePutCharRaw v c = Inr c1" "console_ok c1" "consoleFlags c1 = consoleFlags c"
      "screen c1 = (screen c)[cursor_index c := v]" "cursor_index c1 = Suc (cursor_index c) mod 2000"
    using raw_put [OF Suc.prems(1,2), of v] by blast
  have len: "length (screen c) = 2000" using Suc.prems(1) by (simp add: console_ok_def)
  show ?case
  proof (cases n)
    case 0
    then show ?thesis using c1 d Suc.prems(3) len by (auto simp: upd_conv_take_nth_drop)
  next
    case (Suc k)
    then have i: "cursor_index c1 = Suc (cursor_index c)" using c1(5) Suc.prems(3) by simp
    have "flag CONFLAGS_RAW_MODE c1" using Suc.prems(2) c1(3) by (simp add: flag_def)
    then obtain c' where "consoleWriteRawLen n vs c1 = Inr c'" "console_ok c'" "consoleFlags c' = consoleFlags c1"
        "screen c' = take (cursor_index c1) (screen c1) @ take n vs @ drop (cursor_index c1 + n) (screen c1)"
      using Suc.IH [OF c1(2), of vs] Suc.prems(3,4) i d by auto
    then show ?thesis using c1 i d len Suc.prems(3) by (simp add: take_list_update_snoc drop_update_cancel)
  qed
qed

section \<open>The screen shows the current console\<close>

definition vc_ok :: "virtConsole \<Rightarrow> bool" where
  "vc_ok v \<longleftrightarrow> length (v_data v) = 2000 \<and> unat (v_cursorX v) < 80 \<and> 1 \<le> unat (v_cursorY v) \<and> unat (v_cursorY v) < 25"

definition shown :: "virtConsole \<Rightarrow> console \<Rightarrow> bool" where
  "shown v c \<longleftrightarrow> screen c = v_data v \<and> cursorX c = ucast (v_cursorX v) \<and> cursorY c = ucast (v_cursorY v) \<and>
     cursorHardwareX c = cursorX c \<and> cursorHardwareY c = cursorY c \<and> consoleFlags c = SHOW_FLAGS"

lemma ucast_small: "unat (w :: u32) < 80 \<Longrightarrow> unat (ucast w :: u8) = unat w"
  by (simp add: unsigned_ucast_eq take_bit_nat_eq_self)

lemma move_cursor_fields:
  assumes "unat x < 80" "unat y < 25"
  shows "screen (move_cursor x y c) = screen c" "cursorX (move_cursor x y c) = ucast x" "cursorY (move_cursor x y c) = ucast y"
    "cursorHardwareX (move_cursor x y c) = ucast x" "cursorHardwareY (move_cursor x y c) = ucast y"
    "consoleFlags (move_cursor x y c) = consoleFlags c"
  using assms ucast_small [of x] ucast_small [of y]
  by (simp_all add: move_cursor_def consoleSetCursorPos_def VGA_WIDTH_def VGA_HEIGHT_def consoleSetHardwareCursor_def
      consoleShowHardwareCursor_def consoleSetMiscOutputRegister_def outb_def Let_def)

lemma set_flags_hardware [simp]:
  "cursorHardwareX (consoleSetFlags f c) = cursorHardwareX c" "cursorHardwareY (consoleSetFlags f c) = cursorHardwareY c"
  by (simp_all add: consoleSetFlags_def consoleShowHardwareCursor_def consoleSetMiscOutputRegister_def outb_def Let_def)

lemma shown_ok: "vc_ok v \<Longrightarrow> shown v c \<Longrightarrow> console_ok c \<and> flag CONFLAGS_RAW_MODE c \<and> cursor_index c = unat (v_cursorY v) * 80 + unat (v_cursorX v)"
  using ucast_small [of "v_cursorX v"] ucast_small [of "v_cursorY v"]
  by (simp add: vc_ok_def shown_def console_ok_def cursor_index_def flag_def SHOW_FLAGS_def CONFLAGS_RAW_MODE_def
      CONFLAGS_HWCURSOR_def CONFLAGS_HWCURSOR_AUTO_def)

lemma switch_shows:
  assumes "index < length vs" "vc_ok (vs ! index)" "length (screen c) = 2000"
  shows "\<exists>c'. virtConsoleSwitchTo index (vs, c) = Inr (vs, c') \<and> shown (vs ! index) c'"
proof -
  let ?v = "vs ! index"
  define c0 where "c0 = fst (consoleSetCursorPos 0 0 (consoleSetFlags RAW_FLAGS c))"
  have c0: "console_ok c0" "flag CONFLAGS_RAW_MODE c0" "cursor_index c0 = 0"
    using assms(3) by (simp_all add: c0_def console_ok_def cursor_index_def consoleSetCursorPos_def VGA_WIDTH_def VGA_HEIGHT_def
        flag_def RAW_FLAGS_def CONFLAGS_RAW_MODE_def CONFLAGS_HWCURSOR_AUTO_def)
  obtain c1 where c1: "consoleWriteRawLen 2000 (v_data ?v) c0 = Inr c1" "console_ok c1" "screen c1 = v_data ?v"
    using raw_write [OF c0(1,2), of 2000 "v_data ?v"] c0 assms(2) by (auto simp: vc_ok_def console_ok_def)
  let ?c = "consoleSetFlags SHOW_FLAGS (move_cursor (v_cursorX ?v) (v_cursorY ?v) c1)"
  have "virtConsoleSwitchTo index (vs, c) = Inr (vs, ?c)"
    using c1(1) assms(1) by (simp add: virtConsoleSwitchTo_def get_console_def VGA_WIDTH_def VGA_HEIGHT_def c0_def)
  moreover have "shown ?v ?c"
    using assms(2) c1(3) by (simp add: shown_def vc_ok_def move_cursor_fields)
  ultimately show ?thesis by blast
qed

lemma scroll_data:
  assumes "index < length vs" "length vs = 7" "length (v_data (vs ! index)) = 2000"
  shows "virtConsoleScrollUp index (vs, c) = Inr (vs[index := (vs ! index)
    \<lparr>v_data := take 80 (v_data (vs ! index)) @ drop 160 (v_data (vs ! index)) @ replicate 80 CONSOLE_BLANK\<rparr>], c)"
proof -
  let ?m = "v_data (vs ! index)"
  have "copy_rows 23 (Suc 1) ?m = Inr (take 80 ?m @ take 1840 (drop 160 ?m) @ drop 1920 ?m)"
    using copy_rows_spec [of 1 23 ?m] assms(3) by simp
  then have "copy_rows 23 2 ?m = Inr (take 80 ?m @ drop 160 ?m @ drop 1920 ?m)" using assms(3) by (simp add: numeral_2_eq_2)
  moreover have "clear_row 80 0 24 CONSOLE_BLANK (take 80 ?m @ drop 160 ?m @ drop 1920 ?m) =
      Inr (take 80 ?m @ drop 160 ?m @ replicate 80 CONSOLE_BLANK)"
    using clear_row_spec [of 24 0 80 "take 80 ?m @ drop 160 ?m @ drop 1920 ?m" CONSOLE_BLANK] assms(3) by simp
  ultimately show ?thesis using assms
    by (simp add: virtConsoleScrollUp_def get_console_def set_console_def NUM_VIRT_CONSOLES_def VGA_HEIGHT_def VGA_WIDTH_def)
qed

section \<open>The terminal\<close>

text \<open>What the bytes written to a console do to it, on one console alone and with the positions as natural numbers: the lines below
  the header scroll, a line that is full is continued on the next one, and 127 rubs out the character before the cursor, up to
  the first column of the line below the header.\<close>

definition vt_wrap :: "nat \<Rightarrow> nat \<Rightarrow> virtConsole \<Rightarrow> virtConsole" where
  "vt_wrap x y v =
     (let (x, y) = (if x = 80 then (0, y + 1) else (x, y)) in
      if y = 25 then v\<lparr>v_data := take 80 (v_data v) @ drop 160 (v_data v) @ replicate 80 CONSOLE_BLANK, v_cursorX := of_nat x, v_cursorY := 24\<rparr>
      else v\<lparr>v_cursorX := of_nat x, v_cursorY := of_nat y\<rparr>)"

definition rub_out :: "nat \<Rightarrow> nat \<Rightarrow> nat \<times> nat" where
  "rub_out x y = (if x = 0 then (79, max 1 (y - 1)) else (x - 1, y))"

definition vt_put :: "u8 \<Rightarrow> virtConsole \<Rightarrow> virtConsole" where
  "vt_put chr v =
     (let x = unat (v_cursorX v); y = unat (v_cursorY v) in
      if chr = 127
      then let (x, y) = rub_out x y in
           v\<lparr>v_data := (v_data v)[y * 80 + x := cell 0x20 (v_color v)], v_cursorX := of_nat x, v_cursorY := of_nat y\<rparr>
      else if chr = 0x0A then vt_wrap 0 (y + 1) v
      else vt_wrap (x + 1) y (v\<lparr>v_data := (v_data v)[y * 80 + x := cell chr (v_color v)]\<rparr>))"

definition vt_escape :: "u8 \<Rightarrow> u8 \<Rightarrow> virtConsole \<Rightarrow> virtConsole" where
  "vt_escape code val v =
     (if code = ESCAPE_COLOR then v\<lparr>v_color := val\<rparr>
      else if code = ESCAPE_CURSORX \<and> unat val < 80 then v\<lparr>v_cursorX := ucast val\<rparr>
      else if code = ESCAPE_CURSORY \<and> unat val < 24 then v\<lparr>v_cursorY := ucast val + 1\<rparr>
      else v)"

definition vt_byte :: "u8 \<Rightarrow> virtConsole \<Rightarrow> virtConsole" where
  "vt_byte b v =
     (if v_escape v
      then if v_escapeCode v = 0 then v\<lparr>v_escapeCode := b\<rparr> else (vt_escape (v_escapeCode v) b v)\<lparr>v_escapeValue := b, v_escape := False\<rparr>
      else if b = 0x1B then v\<lparr>v_escape := True, v_escapeCode := 0, v_escapeValue := 0\<rparr>
      else vt_put b v)"

text \<open>The operation \<open>r\<close> on the console \<open>index\<close> has made it \<open>v'\<close> and kept the others; the screen shows the console if it is the
  active one, and is left alone otherwise.\<close>

definition makes :: "nat \<Rightarrow> bool \<Rightarrow> virtConsole \<Rightarrow> vstate \<Rightarrow> vstate kres \<Rightarrow> bool" where
  "makes index active v' st r \<longleftrightarrow> (\<exists>c'. r = Inr ((fst st)[index := v'], c') \<and> vc_ok v' \<and>
     take 80 (v_data v') = take 80 (v_data (fst st ! index)) \<and> v_output v' = v_output (fst st ! index) \<and> v_input v' = v_input (fst st ! index) \<and>
     (if active then shown v' c' else c' = snd st))"

lemma sint_small: "unat (w :: u32) < 80 \<Longrightarrow> sint w = int (unat w)"
proof -
  assume "unat w < 80"
  moreover have "uint w = int (unat w)" by (rule uint_nat)
  ultimately have "uint w < 80" "0 \<le> uint w" by linarith+
  moreover have "- (2 ^ 31) \<le> (0 :: int)" "(80 :: int) \<le> 2 ^ 31" by simp_all
  ultimately have "- (2 ^ 31) \<le> uint w" "uint w < 2 ^ 31" by (metis order_trans, metis order_less_le_trans)
  then have "signed_take_bit 31 (uint w) = uint w" by (rule signed_take_bit_int_eq_self)
  then have "sint w = uint w" by (simp add: sint_uint)
  then show ?thesis by (simp only: uint_nat)
qed

lemma of_nat_small: "n < 80 \<Longrightarrow> unat (of_nat n :: u32) = n"
  by (simp add: unsigned_of_nat take_bit_nat_eq_self)

text \<open>The state in the middle of an operation: the data is written, the cursor not yet.\<close>

definition written :: "nat \<Rightarrow> bool \<Rightarrow> virtConsole \<Rightarrow> vstate \<Rightarrow> vstate \<Rightarrow> bool" where
  "written index active v1 st st1 \<longleftrightarrow> fst st1 = (fst st)[index := v1] \<and> index < length (fst st) \<and> length (fst st) = 7 \<and>
     length (v_data v1) = 2000 \<and> take 80 (v_data v1) = take 80 (v_data (fst st ! index)) \<and> v_output v1 = v_output (fst st ! index) \<and>
     v_input v1 = v_input (fst st ! index) \<and>
     (active \<longrightarrow> screen (snd st1) = v_data v1 \<and> consoleFlags (snd st1) = SHOW_FLAGS) \<and> (\<not> active \<longrightarrow> snd st1 = snd st)"

lemma finish_makes:
  assumes "written index active v1 (vs, c) st1" "x < 80" "1 \<le> y" "y < 25"
  shows "makes index active (v1\<lparr>v_cursorX := of_nat x, v_cursorY := of_nat y\<rparr>) (vs, c) (finish_put index (int x) (int y) active st1)"
proof -
  obtain c1 where st1: "st1 = (vs[index := v1], c1)" using assms(1) by (cases st1) (simp add: written_def)
  note w = assms(1) [unfolded st1 written_def, simplified]
  let ?v = "v1\<lparr>v_cursorX := of_nat x, v_cursorY := of_nat y\<rparr>" and ?c = "if active then move_cursor (of_nat x) (of_nat y) c1 else c1"
  have n: "unat (of_nat x :: u32) = x" "unat (of_nat y :: u32) = y" using assms(2-4) by (simp_all add: of_nat_small)
  have "finish_put index (int x) (int y) active st1 = Inr (vs[index := ?v], ?c)"
    using w by (simp add: finish_put_def set_cursor_def get_console_def set_console_def st1)
  moreover have "vc_ok ?v" using w n assms(2-4) by (simp add: vc_ok_def)
  moreover have "if active then shown ?v ?c else ?c = c"
    using w n assms(2-4) by (auto simp: shown_def move_cursor_fields)
  ultimately show ?thesis using w by (auto simp: makes_def)
qed

lemma scroll_makes:
  assumes "written index active v1 (vs, c) st1" "x < 80"
  defines "v2 \<equiv> v1\<lparr>v_data := take 80 (v_data v1) @ drop 160 (v_data v1) @ replicate 80 CONSOLE_BLANK, v_cursorX := of_nat x, v_cursorY := 24\<rparr>"
  shows "makes index active v2 (vs, c) (kbind (virtConsoleScrollUp index st1) (\<lambda>st. kbind (set_cursor index (int x) (int VGA_HEIGHT - 1) st) (\<lambda>st.
    if active then virtConsoleSwitchTo index st else Inr st)))"
proof -
  obtain c1 where st1: "st1 = (vs[index := v1], c1)" using assms(1) by (cases st1) (simp add: written_def)
  note w = assms(1) [unfolded st1 written_def, simplified]
  let ?d = "take 80 (v_data v1) @ drop 160 (v_data v1) @ replicate 80 CONSOLE_BLANK"
  have "virtConsoleScrollUp index st1 = Inr (vs[index := v1\<lparr>v_data := ?d\<rparr>], c1)"
    using scroll_data [of index "vs[index := v1]" c1] w by (simp add: st1)
  then have run: "kbind (virtConsoleScrollUp index st1) (\<lambda>st. kbind (set_cursor index (int x) (int VGA_HEIGHT - 1) st) (\<lambda>st.
      if active then virtConsoleSwitchTo index st else Inr st)) = (if active then virtConsoleSwitchTo index (vs[index := v2], c1) else Inr (vs[index := v2], c1))"
    using w by (simp add: set_cursor_def get_console_def set_console_def VGA_HEIGHT_def v2_def)
  have len: "length (v_data v1) = 2000" using w by simp
  then have ok: "vc_ok v2" using assms(2) by (simp add: vc_ok_def of_nat_small v2_def)
  from len have "take 80 (v_data v2) = take 80 (v_data v1)" by (simp add: v2_def)
  then have head: "take 80 (v_data v2) = take 80 (v_data (vs ! index))" by (rule trans) (use w in simp)
  have pipes: "v_output v2 = v_output (vs ! index)" "v_input v2 = v_input (vs ! index)" using w by (simp_all add: v2_def)
  show ?thesis
  proof (cases active)
    case True
    then have "length (screen c1) = 2000" using w by simp
    then obtain c' where "virtConsoleSwitchTo index (vs[index := v2], c1) = Inr (vs[index := v2], c')" "shown v2 c'"
      using switch_shows [of index "vs[index := v2]" c1] w ok by auto
    then show ?thesis unfolding run using True ok head pipes by (auto simp: makes_def)
  next
    case False
    then show ?thesis unfolding run using ok head pipes w by (auto simp: makes_def)
  qed
qed

text \<open>The end of an operation that has moved the cursor to column \<open>x\<close>, line \<open>y\<close>: breaking the line, scrolling.\<close>

lemma wrap_makes:
  assumes "written index active v1 (vs, c) st1" "x \<le> 80" "1 \<le> y" "y \<le> 25" "x = 80 \<Longrightarrow> y < 25"
  shows "makes index active (vt_wrap x y v1) (vs, c) (wrap_put index (int x) (int y) active st1)"
proof -
  consider "x < 80" "y < 25" | "x < 80" "y = 25" | "x = 80" "y < 24" | "x = 80" "y = 24" using assms(2,4,5) by linarith
  then show ?thesis
  proof cases
    case 1 then show ?thesis using finish_makes [OF assms(1), of x y] assms(3) by (simp add: wrap_put_def vt_wrap_def VGA_WIDTH_def VGA_HEIGHT_def)
  next
    case 2 then show ?thesis using scroll_makes [OF assms(1), of x] by (simp add: wrap_put_def vt_wrap_def VGA_WIDTH_def VGA_HEIGHT_def)
  next
    case 3 then show ?thesis using finish_makes [OF assms(1), of 0 "y + 1"]
      by (simp add: wrap_put_def vt_wrap_def VGA_WIDTH_def VGA_HEIGHT_def add.commute)
  next
    case 4 then show ?thesis using scroll_makes [OF assms(1), of 0] by (simp add: wrap_put_def vt_wrap_def VGA_WIDTH_def VGA_HEIGHT_def)
  qed
qed

lemma put_written:
  assumes "length vs = 7" "index < 7" "vc_ok (vs ! index)" "active \<longrightarrow> shown (vs ! index) c" "x < 80" "1 \<le> y" "y < 25"
  defines "v1 \<equiv> \<lambda>v'. (vs ! index)\<lparr>v_data := (v_data (vs ! index))[y * 80 + x := v']\<rparr>"
  shows "put_data index (int x) (int y) v' (vs, c) = Inr (vs[index := v1 v'], c)"
    and "\<not> active \<Longrightarrow> written index active (v1 v') (vs, c) (vs[index := v1 v'], c)"
    and "screen c' = v_data (v1 v') \<Longrightarrow> consoleFlags c' = SHOW_FLAGS \<Longrightarrow> active \<Longrightarrow> written index active (v1 v') (vs, c) (vs[index := v1 v'], c')"
proof -
  have i: "nat (int y * 80 + int x) = y * 80 + x" "y * 80 + x < 2000" "80 \<le> y * 80 + x" using assms(5-7) by linarith+
  show "put_data index (int x) (int y) v' (vs, c) = Inr (vs[index := v1 v'], c)"
    using assms(1-3) i by (simp add: put_data_def get_console_def set_console_def put_cell_def vc_ok_def v1_def)
  show "\<not> active \<Longrightarrow> written index active (v1 v') (vs, c) (vs[index := v1 v'], c)"
    using assms(1-3) i(3) by (auto simp: written_def vc_ok_def v1_def)
  show "screen c' = v_data (v1 v') \<Longrightarrow> consoleFlags c' = SHOW_FLAGS \<Longrightarrow> active \<Longrightarrow> written index active (v1 v') (vs, c) (vs[index := v1 v'], c')"
    using assms(1-3) i(3) by (auto simp: written_def vc_ok_def v1_def)
qed

lemma rub_out_bounds:
  assumes "x < 80" "1 \<le> y" "y < 25"
  shows "fst (rub_out x y) < 80" "1 \<le> snd (rub_out x y)" "snd (rub_out x y) < 25"
    "(let (x, y) = (if int x - 1 < 0 then (int VGA_WIDTH - 1, int y - 1) else (int x - 1, int y)) in (x, if y < 1 then 1 else y)) =
    (int (fst (rub_out x y)), int (snd (rub_out x y)))"
  using assms by (auto simp: rub_out_def VGA_WIDTH_def)

lemma rub_makes:
  fixes b :: u16
  assumes "length vs = 7" "index < 7" "vc_ok (vs ! index)" "active \<longrightarrow> shown (vs ! index) c" "x < 80" "1 \<le> y" "y < 25"
  defines "v1 \<equiv> (vs ! index)\<lparr>v_data := (v_data (vs ! index))[y * 80 + x := b]\<rparr>"
  shows "makes index active (v1\<lparr>v_cursorX := of_nat x, v_cursorY := of_nat y\<rparr>) (vs, c)
    (kbind (if active then virtConsoleSwitchTo index (vs[index := v1], c) else Inr (vs[index := v1], c)) (finish_put index (int x) (int y) active))"
proof (cases active)
  case True
  then have "length (screen c) = 2000" using assms(3,4) by (simp add: shown_def vc_ok_def)
  moreover have "vc_ok v1" using assms(1-3) by (simp add: vc_ok_def v1_def)
  ultimately obtain c' where c': "virtConsoleSwitchTo index (vs[index := v1], c) = Inr (vs[index := v1], c')" "shown v1 c'"
    using switch_shows [of index "vs[index := v1]" c] assms(1,2) by auto
  then have "written index active v1 (vs, c) (vs[index := v1], c')"
    unfolding v1_def using put_written(3) [OF assms(1-7), of c' b] True by (simp add: shown_def v1_def)
  from finish_makes [OF this assms(5-7)] show ?thesis using True c'(1) by simp
next
  case False
  from finish_makes [OF put_written(2) [OF assms(1-7) this] assms(5-7)] show ?thesis using False by (simp add: v1_def)
qed

lemma char_makes:
  fixes b :: u16
  assumes "length vs = 7" "index < 7" "vc_ok (vs ! index)" "active \<longrightarrow> shown (vs ! index) c"
  defines "x \<equiv> unat (v_cursorX (vs ! index))" and "y \<equiv> unat (v_cursorY (vs ! index))"
  defines "v1 \<equiv> (vs ! index)\<lparr>v_data := (v_data (vs ! index))[y * 80 + x := b]\<rparr>"
  shows "makes index active (vt_wrap (x + 1) y v1) (vs, c)
    (kbind (if active then kbind (consolePutCharRaw b c) (\<lambda>c. Inr (vs[index := v1], c)) else Inr (vs[index := v1], c))
      (wrap_put index (int x + 1) (int y) active))"
proof -
  have xy: "x < 80" "1 \<le> y" "y < 25" using assms(3) by (simp_all add: vc_ok_def x_def y_def)
  have int: "int x + 1 = int (x + 1)" by simp
  show ?thesis
  proof (cases active)
    case True
    have sh: "console_ok c" "flag CONFLAGS_RAW_MODE c" "cursor_index c = y * 80 + x" "screen c = v_data (vs ! index)" "consoleFlags c = SHOW_FLAGS"
      using shown_ok [OF assms(3) mp [OF assms(4) True]] mp [OF assms(4) True] by (simp_all add: x_def y_def shown_def)
    obtain c' where c': "consolePutCharRaw b c = Inr c'" "consoleFlags c' = consoleFlags c" "screen c' = (screen c)[cursor_index c := b]"
      using raw_put [OF sh(1,2)] by blast
    then have "written index active v1 (vs, c) (vs[index := v1], c')"
      unfolding v1_def using put_written(3) [OF assms(1-4) xy, of c' b] True sh by simp
    from wrap_makes [OF this, of "x + 1" y] show ?thesis unfolding int using True xy c'(1) by simp
  next
    case False
    from wrap_makes [OF put_written(2) [OF assms(1-4) xy this], of "x + 1" y] show ?thesis
      unfolding int v1_def using False xy by simp
  qed
qed

lemma putChar_makes:
  assumes "length vs = 7" "index < 7" "vc_ok (vs ! index)" "active \<longrightarrow> shown (vs ! index) c"
  shows "makes index active (vt_put chr (vs ! index)) (vs, c) (virtConsolePutChar index chr active (vs, c))"
proof -
  let ?v = "vs ! index"
  define x y where "x = unat (v_cursorX ?v)" and "y = unat (v_cursorY ?v)"
  have xy: "x < 80" "1 \<le> y" "y < 25" using assms(3) by (simp_all add: vc_ok_def x_def y_def)
  have s: "sint (v_cursorX ?v) = int x" "sint (v_cursorY ?v) = int y" using xy by (simp_all add: x_def y_def sint_small)
  have get: "get_console index (vs, c) = Inr ?v" "index < NUM_VIRT_CONSOLES" using assms(1,2) by (simp_all add: get_console_def NUM_VIRT_CONSOLES_def)
  consider "chr = 127" | "chr = 0x0A" | "chr \<noteq> 127" "chr \<noteq> 0x0A" by blast
  then show ?thesis
  proof cases
    case 1
    note p = rub_out_bounds [OF xy]
    let ?v1 = "?v\<lparr>v_data := (v_data ?v)[snd (rub_out x y) * 80 + fst (rub_out x y) := cell 0x20 (v_color ?v)]\<rparr>"
    have "virtConsolePutChar index chr active (vs, c) = kbind (if active then virtConsoleSwitchTo index (vs[index := ?v1], c) else Inr (vs[index := ?v1], c))
        (finish_put index (int (fst (rub_out x y))) (int (snd (rub_out x y))) active)"
      using p(4) put_written(1) [OF assms p(1-3)] by (auto simp: virtConsolePutChar_def get s 1 Let_def split: if_splits)
    then show ?thesis using rub_makes [OF assms p(1-3)] 1
      by (simp add: vt_put_def x_def [symmetric] y_def [symmetric] case_prod_beta)
  next
    case 2
    have "written index active ?v (vs, c) (vs, c)" using assms by (auto simp: written_def vc_ok_def shown_def)
    from wrap_makes [OF this, of 0 "y + 1"] show ?thesis using xy
      by (simp add: virtConsolePutChar_def vt_put_def get s 2 y_def [symmetric] add.commute [of _ "int y"])
  next
    case 3
    have "virtConsolePutChar index chr active (vs, c) =
      (kbind (if active then kbind (consolePutCharRaw (cell chr (v_color ?v)) c) (\<lambda>c. Inr (vs[index := ?v\<lparr>v_data := (v_data ?v)[y * 80 + x := cell chr (v_color ?v)]\<rparr>], c))
          else Inr (vs[index := ?v\<lparr>v_data := (v_data ?v)[y * 80 + x := cell chr (v_color ?v)]\<rparr>], c))
        (wrap_put index (int x + 1) (int y) active))"
      using 3 by (cases "consolePutCharRaw (cell chr (v_color ?v)) c") (simp_all add: virtConsolePutChar_def get s put_written(1) [OF assms xy])
    then show ?thesis using char_makes [OF assms, folded x_def y_def, of "cell chr (v_color ?v)"] 3
      by (simp add: vt_put_def x_def [symmetric] y_def [symmetric])
  qed
qed

lemma makes_fields:
  assumes "index < length vs" "vc_ok (vs ! index)" "active \<longrightarrow> shown (vs ! index) c"
    and "v_data v' = v_data (vs ! index)" "v_cursorX v' = v_cursorX (vs ! index)" "v_cursorY v' = v_cursorY (vs ! index)"
      "v_output v' = v_output (vs ! index)" "v_input v' = v_input (vs ! index)"
  shows "makes index active v' (vs, c) (Inr (vs[index := v'], c))"
  using assms by (auto simp: makes_def vc_ok_def shown_def)

lemma ucast_value: "unat (ucast (b :: u8) + 1 :: u32) = unat b + 1" "unat (ucast b :: u32) = unat b"
proof -
  have "unat b < 256" using unsigned_less [of b] by simp
  moreover from this show "unat (ucast b :: u32) = unat b" by (simp add: unsigned_ucast_eq take_bit_nat_eq_self)
  ultimately show "unat (ucast b + 1 :: u32) = unat b + 1" by (simp add: unat_word_ariths)
qed

lemma processEscape_makes:
  assumes "length vs = 7" "index < 7" "vc_ok (vs ! index)" "active \<longrightarrow> shown (vs ! index) c" "v_escape (vs ! index)"
  shows "makes index active (vt_escape (v_escapeCode (vs ! index)) (v_escapeValue (vs ! index)) (vs ! index)) (vs, c)
    (virtConsoleProcessEscape index active (vs, c))"
proof -
  let ?v = "vs ! index"
  have get: "get_console index (vs, c) = Inr ?v" "index < length vs" using assms(1,2) by (simp_all add: get_console_def)
  have same: "makes index active ?v (vs, c) (Inr (vs, c))"
    using makes_fields [OF get(2) assms(3,4), of ?v] by simp
  have move: "makes index active (?v\<lparr>v_cursorX := x, v_cursorY := y\<rparr>) (vs, c)
      (Inr (vs[index := ?v\<lparr>v_cursorX := x, v_cursorY := y\<rparr>], if active then move_cursor x y c else c))" if "unat x < 80" "1 \<le> unat y" "unat y < 25" for x y
    unfolding makes_def using that assms(3,4)
    by (intro exI [of _ "if active then move_cursor x y c else c"]) (auto simp: vc_ok_def shown_def move_cursor_fields)
  note ok = assms(3) [unfolded vc_ok_def]
  have distinct: "ESCAPE_COLOR \<noteq> ESCAPE_CURSORX" "ESCAPE_COLOR \<noteq> ESCAPE_CURSORY" "ESCAPE_CURSORX \<noteq> ESCAPE_CURSORY"
    by (simp_all add: ESCAPE_COLOR_def ESCAPE_CURSORX_def ESCAPE_CURSORY_def)
  note defs = virtConsoleProcessEscape_def vt_escape_def get assms(5) VGA_WIDTH_def VGA_HEIGHT_def ucast_value
  consider "v_escapeCode ?v = ESCAPE_COLOR" | "v_escapeCode ?v = ESCAPE_CURSORX" | "v_escapeCode ?v = ESCAPE_CURSORY"
    | "v_escapeCode ?v \<notin> {ESCAPE_COLOR, ESCAPE_CURSORX, ESCAPE_CURSORY}" by blast
  then show ?thesis
  proof cases
    case 1 then show ?thesis using makes_fields [OF get(2) assms(3,4), of "?v\<lparr>v_color := v_escapeValue ?v\<rparr>"] by (simp add: defs set_console_def)
  next
    case 2 then show ?thesis using move [of "ucast (v_escapeValue ?v)" "v_cursorY ?v"] same distinct ok
      by (cases active) (simp_all add: defs Let_def set_console_def)
  next
    case 3 then show ?thesis using move [of "v_cursorX ?v" "ucast (v_escapeValue ?v) + 1"] same distinct ok
      by (cases active) (simp_all add: defs Let_def set_console_def)
  next
    case 4 then show ?thesis using same by (simp add: defs)
  qed
qed

section \<open>Any sequence of events\<close>

definition vinv :: "(nat \<Rightarrow> u32 \<times> u32) \<Rightarrow> nat \<Rightarrow> vstate \<Rightarrow> bool" where
  "vinv pipes cur = (\<lambda>(vs, c). length vs = 7 \<and> cur < 7 \<and> shown (vs ! cur) c \<and>
     (\<forall>i<7. vc_ok (vs ! i) \<and> take 80 (v_data (vs ! i)) = header_line i \<and> v_input (vs ! i) = fst (pipes i) \<and> v_output (vs ! i) = snd (pipes i)))"

lemma makes_vinv:
  assumes "vinv pipes cur (vs, c)" "index < 7" "makes index (index = cur) v' (vs, c) r"
  shows "\<exists>c'. r = Inr (vs[index := v'], c') \<and> vinv pipes cur (vs[index := v'], c')"
proof -
  obtain c' where "r = Inr (vs[index := v'], c')" "vc_ok v'" "v_output v' = v_output (vs ! index)" "v_input v' = v_input (vs ! index)"
      "take 80 (v_data v') = take 80 (v_data (vs ! index))" "if index = cur then shown v' c' else c' = c"
    using assms(3) by (auto simp: makes_def)
  then show ?thesis using assms(1,2) by (auto simp: vinv_def nth_list_update split: if_splits)
qed

lemma vinv_at:
  assumes "vinv pipes cur (vs, c)" "index < 7"
  shows "length vs = 7" "vc_ok (vs ! index)" "index = cur \<longrightarrow> shown (vs ! index) c" "get_console index (vs, c) = Inr (vs ! index)"
  using assms by (auto simp: vinv_def get_console_def)

lemma output_byte_refines:
  assumes "vinv pipes cur (vs, c)" "index < 7"
  shows "\<exists>c'. output_byte cur index b (vs, c) = Inr (vs[index := vt_byte b (vs ! index)], c') \<and>
    vinv pipes cur (vs[index := vt_byte b (vs ! index)], c')"
proof -
  let ?v = "vs ! index"
  note at = vinv_at [OF assms]
  have len: "index < length vs" using at(1) assms(2) by simp
  note defs = output_byte_def vt_byte_def at(4) set_console_def
  consider "\<not> v_escape ?v" "b = 0x1B" | "v_escape ?v" "v_escapeCode ?v = 0" | "v_escape ?v" "v_escapeCode ?v \<noteq> 0" | "\<not> v_escape ?v" "b \<noteq> 0x1B" by blast
  then show ?thesis
  proof cases
    case 1 then show ?thesis
      using makes_vinv [OF assms makes_fields [OF len at(2,3), of "?v\<lparr>v_escape := True, v_escapeCode := 0, v_escapeValue := 0\<rparr>"]] by (simp add: defs)
  next
    case 2 then show ?thesis using makes_vinv [OF assms makes_fields [OF len at(2,3), of "?v\<lparr>v_escapeCode := b\<rparr>"]] by (simp add: defs)
  next
    case 3
    let ?v1 = "?v\<lparr>v_escapeValue := b\<rparr>"
    let ?v2 = "vt_escape (v_escapeCode ?v) b ?v1"
    have i1: "vinv pipes cur (vs[index := ?v1], c)" using makes_vinv [OF assms makes_fields [OF len at(2,3), of ?v1]] by simp
    note at1 = vinv_at [OF i1 assms(2)]
    obtain c2 where s2: "virtConsoleProcessEscape index (index = cur) (vs[index := ?v1], c) = Inr (vs[index := ?v2], c2)"
        "vinv pipes cur (vs[index := ?v2], c2)"
      using makes_vinv [OF i1 assms(2) processEscape_makes [OF at1(1) assms(2) at1(2,3)]] 3 len by auto
    note at2 = vinv_at [OF s2(2) assms(2)]
    have "vinv pipes cur (vs[index := ?v2\<lparr>v_escape := False\<rparr>], c2)"
      using makes_vinv [OF s2(2) assms(2) makes_fields [OF _ at2(2,3), of "?v2\<lparr>v_escape := False\<rparr>"]] len by auto
    moreover have "?v2\<lparr>v_escape := False\<rparr> = (vt_escape (v_escapeCode ?v) b ?v)\<lparr>v_escapeValue := b, v_escape := False\<rparr>"
      by (simp add: vt_escape_def)
    ultimately show ?thesis using 3 s2 len at2(4) by (simp add: defs)
  next
    case 4
    have eq: "(cur = index) = (index = cur)" by blast
    from makes_vinv [OF assms putChar_makes [OF at(1) assms(2) at(2,3), of b]] 4 show ?thesis by (simp add: defs eq)
  qed
qed

lemma output_bytes_refines:
  assumes "vinv pipes cur (vs, c)" "index < 7"
  shows "\<exists>c'. output_bytes cur index bs (vs, c) = Inr (vs[index := fold vt_byte bs (vs ! index)], c') \<and>
    vinv pipes cur (vs[index := fold vt_byte bs (vs ! index)], c')"
  using assms
proof (induction bs arbitrary: vs c)
  case Nil then show ?case by simp
next
  case (Cons b bs)
  let ?vs = "vs[index := vt_byte b (vs ! index)]"
  obtain c1 where "output_byte cur index b (vs, c) = Inr (?vs, c1)" "vinv pipes cur (?vs, c1)"
    using output_byte_refines [OF Cons.prems] by blast
  moreover have "index < length vs" using vinv_at(1) [OF Cons.prems] Cons.prems(2) by simp
  ultimately show ?case using Cons.IH [of ?vs c1] Cons.prems(2) by auto
qed

text \<open>What is typed: a tabulator moves on to the next console, every other key goes to the process of the current one.\<close>

primrec sent_keys :: "(nat \<Rightarrow> u32 \<times> u32) \<Rightarrow> u8 list \<Rightarrow> nat \<Rightarrow> (u32 \<times> u8) list" where
  "sent_keys pipes [] cur = []"
| "sent_keys pipes (b # bs) cur = (if b = 0x09 then sent_keys pipes bs ((cur + 1) mod 7) else (fst (pipes cur), b) # sent_keys pipes bs cur)"

definition tabs :: "u8 list \<Rightarrow> nat" where
  "tabs bs = length (filter (\<lambda>b. b = 0x09) bs)"

lemma tabs_simps [simp]: "tabs [] = 0" "tabs (b # bs) = (if b = 0x09 then Suc (tabs bs) else tabs bs)" "tabs (as @ bs) = tabs as + tabs bs"
  by (simp_all add: tabs_def)

lemma sent_keys_append: "cur < 7 \<Longrightarrow> sent_keys pipes (as @ bs) cur = sent_keys pipes as cur @ sent_keys pipes bs ((cur + tabs as) mod 7)"
  by (induction as arbitrary: cur) (simp_all add: mod_add_left_eq)

lemma switch_vinv:
  assumes "vinv pipes cur (vs, c)" "cur' < 7"
  shows "\<exists>c'. virtConsoleSwitchTo cur' (vs, c) = Inr (vs, c') \<and> vinv pipes cur' (vs, c')"
proof -
  have "cur' < length vs" "vc_ok (vs ! cur')" "length (screen c) = 2000"
    using assms by (auto simp: vinv_def shown_def vc_ok_def)
  from switch_shows [OF this] show ?thesis using assms by (auto simp: vinv_def)
qed

lemma input_bytes_refines:
  assumes "vinv pipes cur (vs, c)"
  shows "\<exists>c'. input_bytes bs (cur, (vs, c), sent) = Inr ((cur + tabs bs) mod 7, (vs, c'), sent @ sent_keys pipes bs cur) \<and>
    vinv pipes ((cur + tabs bs) mod 7) (vs, c')"
  using assms
proof (induction bs arbitrary: cur c sent)
  case Nil
  then have "cur < 7" by (simp add: vinv_def)
  then show ?case using Nil by simp
next
  case (Cons b bs)
  show ?case
  proof (cases "b = 0x09")
    case True
    obtain c1 where c1: "virtConsoleSwitchTo ((cur + 1) mod 7) (vs, c) = Inr (vs, c1)" "vinv pipes ((cur + 1) mod 7) (vs, c1)"
      using switch_vinv [OF Cons.prems, of "(cur + 1) mod 7"] by auto
    from Cons.IH [OF c1(2), of sent] show ?thesis using True c1(1) by (auto simp: NUM_VIRT_CONSOLES_def mod_add_left_eq)
  next
    case False
    have "cur < 7" using Cons.prems by (simp add: vinv_def)
    then have "get_console cur (vs, c) = Inr (vs ! cur)" "v_input (vs ! cur) = fst (pipes cur)"
      using Cons.prems by (auto simp: vinv_def get_console_def)
    then show ?thesis using False Cons.IH [OF Cons.prems, of "sent @ [(fst (pipes cur), b)]"] by simp
  qed
qed

text \<open>The bytes that the events have got from a handle.\<close>

definition bytes_of :: "u32 \<Rightarrow> (u32 \<times> u8 list) list \<Rightarrow> u8 list" where
  "bytes_of handle events = concat (map snd (filter (\<lambda>e. fst e = handle) events))"

lemma bytes_of_simps [simp]: "bytes_of h [] = []" "bytes_of h (e # es) = (if fst e = h then snd e else []) @ bytes_of h es"
  by (simp_all add: bytes_of_def)

definition pipes_ok :: "(nat \<Rightarrow> u32 \<times> u32) \<Rightarrow> bool" where
  "pipes_ok pipes \<longleftrightarrow> (\<forall>i<7. 0 \<le> sint (fst (pipes i)) \<and> 0 < sint (snd (pipes i))) \<and> distinct (map (\<lambda>i. snd (pipes i)) [0..<7])"

lemma pipes_distinct: "pipes_ok pipes \<Longrightarrow> i < 7 \<Longrightarrow> j < 7 \<Longrightarrow> snd (pipes i) = snd (pipes j) \<longleftrightarrow> i = j"
  by (auto simp: pipes_ok_def distinct_map inj_on_def)

lemma find_console_eq:
  assumes "vinv pipes cur (vs, c)"
  shows "pipes_ok pipes \<Longrightarrow> i < 7 \<Longrightarrow> find_console (snd (pipes i)) vs = Some i"
    and "(\<And>i. i < 7 \<Longrightarrow> snd (pipes i) \<noteq> h) \<Longrightarrow> find_console h vs = None"
proof -
  have out: "v_output (vs ! j) = snd (pipes j)" if "j < 7" for j using assms that by (simp add: vinv_def)
  show "find_console h vs = None" if "\<And>i. i < 7 \<Longrightarrow> snd (pipes i) \<noteq> h"
    using that out by (auto simp: find_console_def find_None_iff NUM_VIRT_CONSOLES_def)
  show "find_console (snd (pipes i)) vs = Some i" if "pipes_ok pipes" "i < 7"
  proof -
    have "snd (pipes j) \<noteq> snd (pipes i)" if "j < i" for j
      using that \<open>i < 7\<close> pipes_distinct [OF \<open>pipes_ok pipes\<close>, of j i] by simp
    then show ?thesis using \<open>i < 7\<close> out unfolding find_console_def find_Some_iff NUM_VIRT_CONSOLES_def by (intro exI [of _ i]) simp
  qed
qed

lemma handle_event_refines:
  fixes h :: u32 and bytes :: "u8 list"
  assumes "vinv pipes cur (vs, c)" "pipes_ok pipes"
  defines "keys \<equiv> if h = 0 then bytes else []"
  shows "\<exists>c' vs'. handle_event h bytes (cur, (vs, c), sent) = Inr ((cur + tabs keys) mod 7, (vs', c'), sent @ sent_keys pipes keys cur) \<and>
    vinv pipes ((cur + tabs keys) mod 7) (vs', c') \<and>
    (\<forall>i<7. vs' ! i = fold vt_byte (if h = snd (pipes i) then bytes else []) (vs ! i))"
proof -
  have cur: "cur < 7" "length vs = 7" using assms(1) by (simp_all add: vinv_def)
  have pos: "0 < sint (snd (pipes i))" if "i < 7" for i using assms(2) that by (simp add: pipes_ok_def)
  consider (key) "h = 0" | (out) i where "i < 7" "h = snd (pipes i)" | (none) "h \<noteq> 0" "\<And>i. i < 7 \<Longrightarrow> snd (pipes i) \<noteq> h" by metis
  then show ?thesis
  proof cases
    case key
    then have "h \<noteq> snd (pipes i)" if "i < 7" for i using pos [OF that] by auto
    then show ?thesis using input_bytes_refines [OF assms(1), of bytes sent] key by (auto simp: handle_event_def keys_def)
  next
    case out
    then have h: "h \<noteq> 0" "\<not> sint h < 0" using pos [of i] by auto
    have "(h = snd (pipes j)) = (j = i)" if "j < 7" for j
      using that out pipes_distinct [OF assms(2), of j i] by auto
    then show ?thesis
      using output_bytes_refines [OF assms(1) out(1), of bytes] find_console_eq(1) [OF assms(1,2) out(1)] h out cur
      by (auto simp: handle_event_def keys_def nth_list_update)
  next
    case none
    then show ?thesis using find_console_eq(2) [OF assms(1) none(2)] cur assms(1) by (auto simp: handle_event_def keys_def)
  qed
qed

lemma handle_events_refine:
  assumes "vinv pipes cur (vs, c)" "pipes_ok pipes"
  shows "\<exists>c' vs'. handle_events es (cur, (vs, c), sent) =
      Inr ((cur + tabs (bytes_of 0 es)) mod 7, (vs', c'), sent @ sent_keys pipes (bytes_of 0 es) cur) \<and>
    vinv pipes ((cur + tabs (bytes_of 0 es)) mod 7) (vs', c') \<and>
    (\<forall>i<7. vs' ! i = fold vt_byte (bytes_of (snd (pipes i)) es) (vs ! i))"
  using assms(1)
proof (induction es arbitrary: cur vs c sent)
  case Nil
  then have "cur < 7" by (simp add: vinv_def)
  then show ?case using Nil by auto
next
  case (Cons e es)
  let ?k = "if fst e = 0 then snd e else []"
  let ?cur = "(cur + tabs ?k) mod 7"
  obtain c1 vs1 where e: "handle_event (fst e) (snd e) (cur, (vs, c), sent) = Inr (?cur, (vs1, c1), sent @ sent_keys pipes ?k cur)"
      "vinv pipes ?cur (vs1, c1)" "\<forall>i<7. vs1 ! i = fold vt_byte (if fst e = snd (pipes i) then snd e else []) (vs ! i)"
    using handle_event_refines [OF Cons.prems assms(2), of "fst e" "snd e" sent] by blast
  obtain c2 vs2 where es: "handle_events es (?cur, (vs1, c1), sent @ sent_keys pipes ?k cur) =
        Inr ((?cur + tabs (bytes_of 0 es)) mod 7, (vs2, c2), (sent @ sent_keys pipes ?k cur) @ sent_keys pipes (bytes_of 0 es) ?cur)"
      "vinv pipes ((?cur + tabs (bytes_of 0 es)) mod 7) (vs2, c2)"
      "\<forall>i<7. vs2 ! i = fold vt_byte (bytes_of (snd (pipes i)) es) (vs1 ! i)"
    using Cons.IH [OF e(2), of "sent @ sent_keys pipes ?k cur"] by blast
  have cur: "cur < 7" using Cons.prems by (simp add: vinv_def)
  have "(?cur + tabs (bytes_of 0 es)) mod 7 = (cur + tabs (bytes_of 0 (e # es))) mod 7" by (simp add: mod_add_left_eq add.assoc)
  moreover have "(sent @ sent_keys pipes ?k cur) @ sent_keys pipes (bytes_of 0 es) ?cur = sent @ sent_keys pipes (bytes_of 0 (e # es)) cur"
    using sent_keys_append [OF cur, of pipes ?k "bytes_of 0 es"] by simp
  moreover have "vs2 ! i = fold vt_byte (bytes_of (snd (pipes i)) (e # es)) (vs ! i)" if "i < 7" for i
    using es(3) e(3) that by simp
  ultimately show ?case using e(1) es(1,2) by (simp only: handle_events.simps kbind_Inr) blast
qed

text \<open>A console as \<^verbatim>\<open>virtConsoleInit\<close> leaves it.\<close>

definition fresh_console :: "nat \<Rightarrow> u32 \<times> u32 \<Rightarrow> virtConsole \<Rightarrow> virtConsole" where
  "fresh_console index p v = \<lparr>v_data = header_line index @ replicate 1920 CONSOLE_BLANK, v_cursorX = 0, v_cursorY = 1, v_input = fst p,
     v_output = snd p, v_color = MAKE_COLOR 15 0, v_pid = v_pid v, v_escape = False, v_escapeCode = 0, v_escapeValue = 0\<rparr>"

lemma fresh_console_ok:
  "vc_ok (fresh_console i p v)" "take 80 (v_data (fresh_console i p v)) = header_line i"
  "v_input (fresh_console i p v) = fst p" "v_output (fresh_console i p v) = snd p"
proof -
  have "length (header_line i) = 80" by (simp add: header_line_def header_text_def VGA_WIDTH_def)
  then show "vc_ok (fresh_console i p v)" "take 80 (v_data (fresh_console i p v)) = header_line i"
    by (simp_all add: fresh_console_def vc_ok_def)
qed (simp_all add: fresh_console_def)

lemma init_consoles_fresh:
  assumes "length vs = 7" "\<forall>i\<in>set is. i < 7" "distinct is" "pipes_ok pipes"
  shows "\<exists>vs'. init_consoles pipes is (vs, c) = Inr (vs', c) \<and> length vs' = 7 \<and>
    (\<forall>i<7. vs' ! i = (if i \<in> set is then fresh_console i (pipes i) (vs ! i) else vs ! i))"
  using assms(1-3)
proof (induction "is" arbitrary: vs)
  case Nil then show ?case by simp
next
  case (Cons i "is")
  let ?vs = "vs[i := fresh_console i (pipes i) (vs ! i)]"
  have "i < 7" "0 \<le> sint (fst (pipes i))" "0 \<le> sint (snd (pipes i))" using Cons.prems(2) assms(4) by (auto simp: pipes_ok_def intro: less_imp_le)
  then have "virtConsoleInit i (fst (pipes i)) (snd (pipes i)) (vs, c) = Inr (?vs, c)"
    using Cons.prems(1) by (simp add: virtConsoleInit_def get_console_def set_console_def fresh_console_def NUM_VIRT_CONSOLES_def VGA_WIDTH_def VGA_HEIGHT_def)
  moreover obtain vs' where "init_consoles pipes is (?vs, c) = Inr (vs', c)" "length vs' = 7"
      "\<forall>j<7. vs' ! j = (if j \<in> set is then fresh_console j (pipes j) (?vs ! j) else ?vs ! j)"
    using Cons.IH [of ?vs] Cons.prems by auto
  ultimately show ?case using Cons.prems(1,3) \<open>i < 7\<close> by (auto simp: nth_list_update)
qed

lemma main_starts:
  assumes "length vs = 7" "length (screen c) = 2000" "pipes_ok pipes"
  shows "\<exists>vs' c'. kbind (init_consoles pipes [0..<NUM_VIRT_CONSOLES] (vs, c)) (virtConsoleSwitchTo 0) = Inr (vs', c') \<and> vinv pipes 0 (vs', c') \<and>
    (\<forall>i<7. vs' ! i = fresh_console i (pipes i) (vs ! i))"
proof -
  obtain vs' where vs': "init_consoles pipes [0..<7] (vs, c) = Inr (vs', c)" "length vs' = 7" "\<forall>i<7. vs' ! i = fresh_console i (pipes i) (vs ! i)"
    using init_consoles_fresh [OF assms(1) _ _ assms(3), of "[0..<7]" c] by auto
  moreover obtain c' where "virtConsoleSwitchTo 0 (vs', c) = Inr (vs', c')" "shown (vs' ! 0) c'"
    using switch_shows [of 0 vs' c] vs'(2,3) assms(2) by (auto simp: fresh_console_ok)
  ultimately show ?thesis by (auto simp: NUM_VIRT_CONSOLES_def vinv_def fresh_console_ok)
qed

text \<open>
  C6: After \<^verbatim>\<open>main\<close> has set up the consoles and handled any events whatsoever, without an error: each virtual console holds
  exactly what its own process has written, as a terminal of 24 lines below the header line interprets it (whatever else has been
  written or typed in between, and whether or not the console was on the screen meanwhile); the console on the screen is the one the
  number of tabulators typed selects, and the screen of the kernel, its cursor and its hardware cursor are those of that console; the
  other keys have gone to the process that was on the screen when they were typed, in their order; and every header line is intact.
\<close>

theorem virtual_terminals:
  assumes "length vs = 7" "length (screen c) = 2000" "pipes_ok pipes"
  shows "\<exists>cur vs' c'. main_run pipes events (vs, c) = Inr (cur, (vs', c'), sent_keys pipes (bytes_of 0 events) 0) \<and>
    cur = tabs (bytes_of 0 events) mod 7 \<and> shown (vs' ! cur) c' \<and>
    (\<forall>i<7. vs' ! i = fold vt_byte (bytes_of (snd (pipes i)) events) (fresh_console i (pipes i) (vs ! i)) \<and>
       vc_ok (vs' ! i) \<and> take 80 (v_data (vs' ! i)) = header_line i)"
proof -
  obtain vs1 c1 where s: "kbind (init_consoles pipes [0..<NUM_VIRT_CONSOLES] (vs, c)) (virtConsoleSwitchTo 0) = Inr (vs1, c1)" "vinv pipes 0 (vs1, c1)"
      "\<forall>i<7. vs1 ! i = fresh_console i (pipes i) (vs ! i)"
    using main_starts [OF assms] by blast
  then have run: "main_run pipes events (vs, c) = handle_events events (0, (vs1, c1), [])"
    by (cases "init_consoles pipes [0..<NUM_VIRT_CONSOLES] (vs, c)") (simp_all add: main_run_def)
  show ?thesis unfolding run using handle_events_refine [OF s(2) assms(3), of events "[]"] s(3) by (auto simp: vinv_def)
qed

definition example_pipes :: "nat \<Rightarrow> u32 \<times> u32" where
  "example_pipes i = [(1, 2), (3, 4), (5, 6), (7, 8), (9, 10), (11, 12), (13, 14)] ! i"

theorem virtual_terminals_witness:
  "\<exists>vs' c'. main_run example_pipes [(2, [0x48, 0x1B, 2, 9]), (0, [0x61, 0x09, 0x62]), (2, [0x69, 0x0A])]
       (replicate 7 (fresh_console 0 (0, 0) undefined), initial_console) = Inr (1, (vs', c'), [(1, 0x61), (3, 0x62)]) \<and> shown (vs' ! 1) c' \<and>
     v_data (vs' ! 0) ! 80 = cell 0x48 (MAKE_COLOR 15 0) \<and> v_data (vs' ! 0) ! 89 = cell 0x69 (MAKE_COLOR 15 0) \<and> v_cursorY (vs' ! 0) = 2"
proof -
  let ?es = "[(2, [0x48, 0x1B, 2, 9]), (0, [0x61, 0x09, 0x62]), (2, [0x69, 0x0A])] :: (u32 \<times> u8 list) list"
  let ?vs = "replicate 7 (fresh_console 0 (0, 0) undefined)"
  have ok: "pipes_ok example_pipes" by code_simp
  have keys: "sent_keys example_pipes (bytes_of 0 ?es) 0 = [(1, 0x61), (3, 0x62)]" "tabs (bytes_of 0 ?es) mod 7 = 1" by code_simp+
  have out: "snd (example_pipes 0) = 2" "bytes_of 2 ?es = [0x48, 0x1B, 2, 9, 0x69, 0x0A]" by code_simp+
  have "length (header_line 0) = 80" by code_simp
  then have "v_data (fold vt_byte [0x48, 0x1B, 2, 9, 0x69, 0x0A] (fresh_console 0 p v)) ! 80 = cell 0x48 (MAKE_COLOR 15 0)"
      "v_data (fold vt_byte [0x48, 0x1B, 2, 9, 0x69, 0x0A] (fresh_console 0 p v)) ! 89 = cell 0x69 (MAKE_COLOR 15 0)"
      "v_cursorY (fold vt_byte [0x48, 0x1B, 2, 9, 0x69, 0x0A] (fresh_console 0 p v)) = 2" for p v
    by (simp_all add: fresh_console_def vt_byte_def vt_put_def vt_wrap_def vt_escape_def ESCAPE_COLOR_def ESCAPE_CURSORX_def)
  note v0 = this
  have "length ?vs = 7" "length (screen initial_console) = 2000" by (simp_all add: initial_console_def)
  from virtual_terminals [OF this ok, of ?es, unfolded keys] obtain vs' c'
    where run: "main_run example_pipes ?es (?vs, initial_console) = Inr (1, (vs', c'), [(1, 0x61), (3, 0x62)])" "shown (vs' ! 1) c'"
      "\<forall>i<7. vs' ! i = fold vt_byte (bytes_of (snd (example_pipes i)) ?es) (fresh_console i (example_pipes i) (?vs ! i))" by blast
  from run(3) [rule_format, of 0, unfolded out]
  have "vs' ! 0 = fold vt_byte [0x48, 0x1B, 2, 9, 0x69, 0x0A] (fresh_console 0 (example_pipes 0) (?vs ! 0))" by (simp only: zero_less_numeral simp_thms)
  with run(1,2) v0 show ?thesis by (intro exI [of _ vs'] exI [of _ c']) (simp only: simp_thms)
qed

end
