(* ===== verification/Shell.thy ===== *)
theory Shell
  imports Prelude
begin

text \<open>
  The shell (\<^verbatim>\<open>usermode/shell.c\<close>): reading a line with rub-out, splitting it into arguments in place, and running the pipeline.

  The line is a buffer of bytes, pointers into it are positions; \<^verbatim>\<open>args\<close> is an array of pointers, \<open>None\<close> for \<^verbatim>\<open>NULL\<close>. An access outside of
  a buffer or of the array is \<open>MemFault\<close>. The system calls of the shell are parameters: what they return, in the order of the calls.
\<close>

section \<open>Splitting a line into arguments\<close>

datatype parserState = STATE_BLANK | STATE_TEXT | STATE_QUOTE | STATE_ESCAPE | STATE_QUOTE_ESCAPE

record parser =
  p_mem :: "u8 list"
  p_args :: "nat option list"
  p_count :: nat
  p_state :: parserState
  p_dst :: nat

text \<open>\<^verbatim>\<open>isspace\<close> in the C locale.\<close>

definition isspace :: "u8 \<Rightarrow> bool" where
  "isspace c \<longleftrightarrow> c = 0x20 \<or> 0x09 \<le> c \<and> c \<le> 0x0D"

definition load_byte :: "nat \<Rightarrow> parser \<Rightarrow> u8 kres" where
  "load_byte i p = (if i < length (p_mem p) then Inr (p_mem p ! i) else Inl MemFault)"

definition store_byte :: "nat \<Rightarrow> u8 \<Rightarrow> parser \<Rightarrow> parser kres" where
  "store_byte i b p = (if i < length (p_mem p) then Inr (p\<lparr>p_mem := (p_mem p)[i := b]\<rparr>) else Inl MemFault)"

text \<open>\<^verbatim>\<open>*dst++ = b\<close>\<close>

definition put_byte :: "u8 \<Rightarrow> parser \<Rightarrow> parser kres" where
  "put_byte b p = kbind (store_byte (p_dst p) b p) (\<lambda>p. Inr (p\<lparr>p_dst := p_dst p + 1\<rparr>))"

text \<open>\<^verbatim>\<open>if (src != dst) *dst = *src; dst++\<close>\<close>

definition copy_byte :: "nat \<Rightarrow> u8 \<Rightarrow> parser \<Rightarrow> parser kres" where
  "copy_byte src b p =
     kbind (if src \<noteq> p_dst p then store_byte (p_dst p) b p else Inr p) (\<lambda>p. Inr (p\<lparr>p_dst := p_dst p + 1\<rparr>))"

definition set_arg :: "nat option \<Rightarrow> parser \<Rightarrow> parser kres" where
  "set_arg a p = (if p_count p < length (p_args p) then Inr (p\<lparr>p_args := (p_args p)[p_count p := a]\<rparr>) else Inl MemFault)"

definition get_arg :: "parser \<Rightarrow> nat kres" where
  "get_arg p =
     (if p_count p < length (p_args p) then case p_args p ! p_count p of None \<Rightarrow> Inl MemFault | Some a \<Rightarrow> Inr a else Inl MemFault)"

text \<open>The end of an argument: the quotes of a fully quoted one are removed, and it is terminated.\<close>

definition end_arg :: "parser \<Rightarrow> parser kres" where
  "end_arg p =
     kbind (get_arg p) (\<lambda>a.
     kbind (load_byte a p) (\<lambda>b.
     kbind (if b = 0x22 \<and> p_dst p - 1 > a
            then kbind (load_byte (p_dst p - 1) p) (\<lambda>e.
                 if e = 0x22 then kbind (set_arg (Some (a + 1)) p) (store_byte (p_dst p - 1) 0) else Inr p)
            else Inr p) (\<lambda>p.
     kbind (put_byte 0 p) (\<lambda>p. Inr (p\<lparr>p_count := p_count p + 1\<rparr>)))))"

text \<open>One round of the loop: going on, or the early return.\<close>

datatype flow = Next parser | Return parser

definition parse_blank :: "nat \<Rightarrow> nat \<Rightarrow> u8 \<Rightarrow> parser \<Rightarrow> flow kres" where
  "parse_blank maxArgs src b p =
     (if isspace b then Inr (Next p)
      else if p_count p \<ge> maxArgs then Inr (Return p)
      else if b = 0x7C then kbind (set_arg None p) (\<lambda>p. Inr (Next (p\<lparr>p_count := p_count p + 1\<rparr>)))
      else kbind (set_arg (Some (p_dst p)) p) (\<lambda>p.
           if b = 0x5C then Inr (Next (p\<lparr>p_state := STATE_ESCAPE\<rparr>))
           else kbind (copy_byte src b (p\<lparr>p_state := (if b = 0x22 then STATE_QUOTE else STATE_TEXT)\<rparr>)) (\<lambda>p. Inr (Next p))))"

definition parse_text :: "nat \<Rightarrow> nat \<Rightarrow> u8 \<Rightarrow> parser \<Rightarrow> flow kres" where
  "parse_text maxArgs src b p =
     (if isspace b \<or> b = 0x7C
      then kbind (end_arg p) (\<lambda>p.
           if b = 0x7C
           then if p_count p > maxArgs then Inr (Return p)
                else kbind (set_arg None p) (\<lambda>p. Inr (Next (p\<lparr>p_count := p_count p + 1, p_state := STATE_BLANK\<rparr>)))
           else Inr (Next (p\<lparr>p_state := STATE_BLANK\<rparr>)))
      else if b = 0x5C then Inr (Next (p\<lparr>p_state := STATE_ESCAPE\<rparr>))
      else kbind (copy_byte src b (if b = 0x22 then p\<lparr>p_state := STATE_QUOTE\<rparr> else p)) (\<lambda>p. Inr (Next p)))"

definition parse_quote :: "nat \<Rightarrow> u8 \<Rightarrow> parser \<Rightarrow> flow kres" where
  "parse_quote src b p =
     (if b = 0x5C then Inr (Next (p\<lparr>p_state := STATE_QUOTE_ESCAPE\<rparr>))
      else kbind (copy_byte src b p) (\<lambda>p. Inr (Next (if b = 0x22 then p\<lparr>p_state := STATE_TEXT\<rparr> else p))))"

definition parse_escape :: "u8 \<Rightarrow> parser \<Rightarrow> flow kres" where
  "parse_escape b p =
     kbind (if b = 0x6E then put_byte 0x0A p
            else if b = 0x72 then put_byte 0x0D p
            else if b = 0x22 \<or> b = 0x20 \<or> b = 0x7C then put_byte b p
            else kbind (put_byte 0x5C p) (put_byte b)) (\<lambda>p.
     Inr (Next (p\<lparr>p_state := (if p_state p = STATE_QUOTE_ESCAPE then STATE_QUOTE else STATE_TEXT)\<rparr>)))"

definition parse_step :: "nat \<Rightarrow> nat \<Rightarrow> parser \<Rightarrow> flow kres" where
  "parse_step maxArgs src p =
     kbind (load_byte src p) (\<lambda>b.
     case p_state p of
       STATE_BLANK \<Rightarrow> parse_blank maxArgs src b p
     | STATE_TEXT \<Rightarrow> parse_text maxArgs src b p
     | STATE_QUOTE \<Rightarrow> parse_quote src b p
     | STATE_ESCAPE \<Rightarrow> parse_escape b p
     | STATE_QUOTE_ESCAPE \<Rightarrow> parse_escape b p)"

text \<open>The loop; the number counts the bytes of the buffer from \<^verbatim>\<open>src\<close> on, behind which nothing can be read.\<close>

primrec parse_loop :: "nat \<Rightarrow> nat \<Rightarrow> nat \<Rightarrow> parser \<Rightarrow> flow kres" where
  "parse_loop 0 maxArgs src p = Inl MemFault"
| "parse_loop (Suc n) maxArgs src p =
     kbind (parse_step maxArgs src p) (\<lambda>r.
     case r of Return p \<Rightarrow> Inr (Return p)
     | Next p \<Rightarrow> kbind (load_byte (src + 1) p) (\<lambda>b. if b \<noteq> 0 then parse_loop n maxArgs (src + 1) p else Inr (Next p)))"

definition parse_end :: "parser \<Rightarrow> parser kres" where
  "parse_end p = (case p_state p of
       STATE_BLANK \<Rightarrow> Inr p
     | STATE_TEXT \<Rightarrow> end_arg p
     | STATE_QUOTE \<Rightarrow> end_arg p
     | _ \<Rightarrow> kbind (put_byte 0x5C p) (\<lambda>p. kbind (put_byte 0 p) (\<lambda>p. Inr (p\<lparr>p_count := p_count p + 1\<rparr>))))"

text \<open>The result: the line and the array as they are left, and the number of arguments.\<close>

definition shellParseArgs :: "u8 list \<Rightarrow> nat option list \<Rightarrow> nat \<Rightarrow> (u8 list \<times> nat option list \<times> nat) kres" where
  "shellParseArgs str args maxArgs =
     (let p = \<lparr>p_mem = str, p_args = args, p_count = 0, p_state = STATE_BLANK, p_dst = 0\<rparr> in
      kbind (load_byte 0 p) (\<lambda>b.
      if b = 0 then Inr (str, args, 0)
      else kbind (parse_loop (length str) maxArgs 0 p) (\<lambda>r.
           kbind (case r of Return p \<Rightarrow> Inr p | Next p \<Rightarrow> parse_end p) (\<lambda>p.
           Inr (p_mem p, p_args p, p_count p)))))"

definition MAX_ARGS :: nat where "MAX_ARGS = 30"

text \<open>What the shell does with a line: splitting it, and terminating the array. \<open>None\<close> is the end of the shell for a line without arguments.\<close>

definition shell_args :: "u8 list \<Rightarrow> nat option list \<Rightarrow> (u8 list \<times> nat option list) option kres" where
  "shell_args line args =
     kbind (shellParseArgs line args MAX_ARGS) (\<lambda>(m, args, count).
     if count = 0 then Inr None
     else if count + 1 < length args then Inr (Some (m, args[count := None, count + 1 := None]))
     else Inl MemFault)"

section \<open>Reading a line\<close>

text \<open>What a round of the loop of \<^verbatim>\<open>shellInput\<close> gets: waiting fails, reading fails, nothing was read, or one byte.\<close>

datatype inputEvent = WaitFailed | ReadFailed | ReadNothing | ReadByte u8

record inputState =
  i_buffer :: "u8 list"
  i_length :: nat
  i_pos :: nat
  i_echo :: "u8 list"

text \<open>The line is returned, there is no memory, or the input has not come yet.\<close>

datatype inputResult = Line "u8 list" "u8 list" | NoMemory "u8 list" | Waiting inputState

definition input_finish :: "inputState \<Rightarrow> inputResult kres" where
  "input_finish s =
     (if i_pos s < length (i_buffer s) then Inr (Line ((i_buffer s)[i_pos s := 0]) (i_echo s)) else Inl MemFault)"

text \<open>\<^verbatim>\<open>malloc\<close> and \<^verbatim>\<open>realloc\<close> of newlib: \<open>room\<close> says whether a buffer of the given size can be had, \<open>junk\<close> is what its new bytes contain.\<close>

definition fresh_bytes :: "(nat \<Rightarrow> u8 list) \<Rightarrow> nat \<Rightarrow> u8 list" where
  "fresh_bytes junk n = take 1024 (junk n @ replicate 1024 0)"

definition input_room :: "(nat \<Rightarrow> bool) \<Rightarrow> (nat \<Rightarrow> u8 list) \<Rightarrow> inputState \<Rightarrow> inputState option" where
  "input_room room junk s =
     (if i_pos s + 1 \<ge> i_length s
      then if room (i_length s + 1024)
           then Some (s\<lparr>i_buffer := i_buffer s @ fresh_bytes junk (i_length s), i_length := i_length s + 1024\<rparr>)
           else None
      else Some s)"

primrec input_loop :: "(nat \<Rightarrow> bool) \<Rightarrow> (nat \<Rightarrow> u8 list) \<Rightarrow> inputEvent list \<Rightarrow> inputState \<Rightarrow> inputResult kres" where
  "input_loop room junk [] s = Inr (Waiting s)"
| "input_loop room junk (e # es) s =
     (if e = WaitFailed then input_finish s
      else case input_room room junk s of None \<Rightarrow> Inr (NoMemory (i_echo s))
      | Some s \<Rightarrow> (case e of
          ReadByte chr \<Rightarrow>
            if chr = 127
            then if i_pos s = 0 then input_loop room junk es s
                 else input_loop room junk es (s\<lparr>i_pos := i_pos s - 1, i_echo := i_echo s @ [chr]\<rparr>)
            else if chr = 0x1B then input_loop room junk es s
            else if i_pos s < length (i_buffer s)
            then let s = s\<lparr>i_buffer := (i_buffer s)[i_pos s := chr], i_pos := i_pos s + 1, i_echo := i_echo s @ [chr]\<rparr> in
                 if chr = 0x0A then input_finish s else input_loop room junk es s
            else Inl MemFault
        | ReadNothing \<Rightarrow> input_loop room junk es s
        | _ \<Rightarrow> input_finish s))"

text \<open>\<^verbatim>\<open>shellInput\<close> with a first buffer from \<^verbatim>\<open>malloc\<close>, whose failure the code does not look at.\<close>

definition shellInput :: "(nat \<Rightarrow> bool) \<Rightarrow> (nat \<Rightarrow> u8 list) \<Rightarrow> inputEvent list \<Rightarrow> inputResult kres" where
  "shellInput room junk es =
     input_loop room junk es \<lparr>i_buffer = (if room 1024 then fresh_bytes junk 0 else []), i_length = 1024, i_pos = 0, i_echo = []\<rparr>"

section \<open>Running a pipeline\<close>

text \<open>What the parent does in \<^verbatim>\<open>shellRunCommand\<close>, and what the child does before its program starts; the arguments are pointers into the line.\<close>

datatype childAction = Dup2 u32 u32 | Execvp "nat list" | Exit u32

datatype action =
    CreatePipe u32
  | Fork u32 "childAction list"
  | Attach u32 u32 u32
  | CloseHandle u32
  | ShutdownWrite u32
  | Detach u32 u32
  | Report string u32

text \<open>The results of the system calls: of the calls of \<^verbatim>\<open>createPipe\<close> and \<^verbatim>\<open>fork\<close> in their order, of \<^verbatim>\<open>createEvent\<close>, and of the calls of
  \<^verbatim>\<open>objectWait\<close> and \<^verbatim>\<open>objectGetStatus\<close>.\<close>

record system =
  s_event :: u32
  s_pipe :: "nat \<Rightarrow> u32"
  s_pid :: "nat \<Rightarrow> u32"
  s_wait :: "nat \<Rightarrow> u32"
  s_status :: "nat \<Rightarrow> u32"

definition child :: "u32 \<Rightarrow> u32 \<Rightarrow> nat list \<Rightarrow> childAction list" where
  "child in_pipe out_pipe argv =
     (if in_pipe \<noteq> 0 then [Dup2 in_pipe 0] else []) @ (if out_pipe \<noteq> 1 then [Dup2 out_pipe 1] else []) @ [Execvp argv, Exit 127]"

text \<open>\<^verbatim>\<open>while (argv[argc]) argc++\<close>: the arguments from a position on, up to the next \<^verbatim>\<open>NULL\<close>.\<close>

fun arg_words :: "nat option list \<Rightarrow> nat list kres" where
  "arg_words [] = Inl MemFault"
| "arg_words (None # args) = Inr []"
| "arg_words (Some a # args) = kbind (arg_words args) (\<lambda>as. Inr (a # as))"

text \<open>The first loop, at the \<open>k\<close>-th command; the number bounds the commands that can follow.\<close>

primrec spawn_loop :: "nat \<Rightarrow> system \<Rightarrow> nat \<Rightarrow> u32 \<Rightarrow> nat option list \<Rightarrow> (nat \<times> action list) kres" where
  "spawn_loop 0 sys k in_pipe args = Inl OutOfFuel"
| "spawn_loop (Suc n) sys k in_pipe args = (case args of
     [] \<Rightarrow> Inl MemFault
   | None # _ \<Rightarrow> Inr (k, [])
   | Some a # rest \<Rightarrow>
       kbind (arg_words rest) (\<lambda>words.
       let following = drop (length words + 1) rest in
       if following = [] then Inl MemFault
       else let last_command = (hd following = None);
                out_pipe = (if last_command then 1 else s_pipe sys k);
                created = (if last_command then [] else [CreatePipe out_pipe]);
                pid = s_pid sys k in
            if sint pid < 0 then Inr (k, created)
            else kbind (spawn_loop n sys (k + 1) out_pipe following) (\<lambda>(k', acts).
                 Inr (k', created @ [Fork pid (child in_pipe out_pipe (a # words)), Attach (s_event sys) pid out_pipe, CloseHandle pid] @ acts))))"

text \<open>The second loop, with the number of events still expected, the number of calls made, and the exit code so far.\<close>

primrec wait_loop :: "nat \<Rightarrow> system \<Rightarrow> nat \<Rightarrow> u32 \<Rightarrow> action list \<times> u32" where
  "wait_loop 0 sys j exitcode = ([], exitcode)"
| "wait_loop (Suc n) sys j exitcode =
     (let out_pipe = s_wait sys j in
      if sint out_pipe < 0 then ([], exitcode)
      else if out_pipe \<noteq> 1
      then let (acts, e) = wait_loop n sys (j + 1) exitcode in ([ShutdownWrite out_pipe, CloseHandle out_pipe, Detach (s_event sys) out_pipe] @ acts, e)
      else let (acts, e) = wait_loop n sys (j + 1) (s_status sys j) in (Detach (s_event sys) out_pipe # acts, e))"

text \<open>Everything behind the first loop, which has started \<open>k\<close> processes.\<close>

definition finish_command :: "system \<Rightarrow> nat \<Rightarrow> action list" where
  "finish_command sys k =
     (let (waits, exitcode) = wait_loop k sys 0 (- 1) in
      waits @
      (if exitcode = - 2 then [Report ''*** Programm crashed'' exitcode]
       else if sint exitcode > 0 then [Report ''*** Program terminated with exitcode'' exitcode] else []) @
      [CloseHandle (s_event sys)])"

definition shellRunCommand :: "system \<Rightarrow> nat option list \<Rightarrow> action list kres" where
  "shellRunCommand sys args =
     (if sint (s_event sys) < 0 then Inr []
      else kbind (spawn_loop (length args) sys 0 0 args) (\<lambda>(k, acts). Inr (acts @ finish_command sys k)))"

text \<open>One round of the loop of \<^verbatim>\<open>shell\<close>: the line as it is left, and what was done.\<close>

datatype roundResult = Blocked | Again "u8 list" | Quit "u8 list" | Ran "u8 list" "u8 list" "action list"

definition shell_round :: "(nat \<Rightarrow> bool) \<Rightarrow> (nat \<Rightarrow> u8 list) \<Rightarrow> inputEvent list \<Rightarrow> system \<Rightarrow> nat option list \<Rightarrow> roundResult kres" where
  "shell_round room junk es sys args =
     kbind (shellInput room junk es) (\<lambda>r. case r of
       Waiting _ \<Rightarrow> Inr Blocked
     | NoMemory echo \<Rightarrow> Inr (Again echo)
     | Line line echo \<Rightarrow>
         if line = [] then Inl MemFault
         else if hd line = 0x0A then Inr (Ran echo line [])
         else kbind (shell_args line args) (\<lambda>r. case r of
                None \<Rightarrow> Inr (Quit echo)
              | Some (m, args) \<Rightarrow> kbind (shellRunCommand sys args) (\<lambda>acts. Inr (Ran echo m acts))))"

section \<open>What a line means\<close>

text \<open>The words of a line and its pipe operators (\<open>None\<close>), one byte after the other; \<open>Full\<close> when no further argument has room.\<close>

type_synonym token = "u8 list option"

datatype scan = Scan "token list" "u8 list" parserState | Full "token list"

definition unquote :: "u8 list \<Rightarrow> u8 list" where
  "unquote w = (if 1 < length w \<and> hd w = 0x22 \<and> last w = 0x22 then butlast (tl w) else w)"

definition unescape :: "u8 \<Rightarrow> u8 list" where
  "unescape b = (if b = 0x6E then [0x0A] else if b = 0x72 then [0x0D] else if b = 0x22 \<or> b = 0x20 \<or> b = 0x7C then [b] else [0x5C, b])"

fun scan_byte :: "nat \<Rightarrow> u8 \<Rightarrow> scan \<Rightarrow> scan" where
  "scan_byte maxArgs b (Full ts) = Full ts"
| "scan_byte maxArgs b (Scan ts w STATE_BLANK) =
     (if isspace b then Scan ts w STATE_BLANK
      else if length ts \<ge> maxArgs then Full ts
      else if b = 0x7C then Scan (ts @ [None]) w STATE_BLANK
      else if b = 0x5C then Scan ts [] STATE_ESCAPE
      else Scan ts [b] (if b = 0x22 then STATE_QUOTE else STATE_TEXT))"
| "scan_byte maxArgs b (Scan ts w STATE_TEXT) =
     (if isspace b then Scan (ts @ [Some (unquote w)]) [] STATE_BLANK
      else if b = 0x7C
      then if Suc (length ts) > maxArgs then Full (ts @ [Some (unquote w)])
           else Scan (ts @ [Some (unquote w), None]) [] STATE_BLANK
      else if b = 0x5C then Scan ts w STATE_ESCAPE
      else Scan ts (w @ [b]) (if b = 0x22 then STATE_QUOTE else STATE_TEXT))"
| "scan_byte maxArgs b (Scan ts w STATE_QUOTE) =
     (if b = 0x5C then Scan ts w STATE_QUOTE_ESCAPE else Scan ts (w @ [b]) (if b = 0x22 then STATE_TEXT else STATE_QUOTE))"
| "scan_byte maxArgs b (Scan ts w STATE_ESCAPE) = Scan ts (w @ unescape b) STATE_TEXT"
| "scan_byte maxArgs b (Scan ts w STATE_QUOTE_ESCAPE) = Scan ts (w @ unescape b) STATE_QUOTE"

fun scan_end :: "scan \<Rightarrow> token list" where
  "scan_end (Full ts) = ts"
| "scan_end (Scan ts w STATE_BLANK) = ts"
| "scan_end (Scan ts w STATE_TEXT) = ts @ [Some (unquote w)]"
| "scan_end (Scan ts w STATE_QUOTE) = ts @ [Some (unquote w)]"
| "scan_end (Scan ts w _) = ts @ [Some (w @ [0x5C])]"

definition tokens :: "nat \<Rightarrow> u8 list \<Rightarrow> token list" where
  "tokens maxArgs line = scan_end (fold (scan_byte maxArgs) line (Scan [] [] STATE_BLANK))"

section \<open>Splitting in place\<close>

text \<open>The argument \<open>a\<close> denotes the token \<open>t\<close> in the bytes written so far.\<close>

definition token_in :: "u8 list \<Rightarrow> token \<Rightarrow> nat option \<Rightarrow> bool" where
  "token_in out t a \<longleftrightarrow> (case t of None \<Rightarrow> a = None | Some s \<Rightarrow> \<exists>k rest. a = Some k \<and> drop k out = s @ 0 # rest)"

lemma token_in_None [simp]: "token_in out None a \<longleftrightarrow> a = None"
  by (simp add: token_in_def)

lemma token_in_append: "token_in out t a \<Longrightarrow> token_in (out @ x) t a"
proof (cases t)
  case (Some s)
  assume "token_in out t a"
  then obtain k rest where "a = Some k" "drop k out = s @ 0 # rest" by (auto simp: token_in_def Some)
  moreover from this have "k < length out" by (metis append_is_Nil_conv drop_all list.distinct(1) not_less)
  ultimately show ?thesis by (simp add: token_in_def Some)
qed (simp add: token_in_def)

text \<open>The bytes below \<^verbatim>\<open>dst\<close> are the finished arguments \<open>out\<close> and the current one \<open>w\<close>; the line from \<open>s\<close> on is still as it was.\<close>

definition core :: "u8 list \<Rightarrow> nat \<Rightarrow> token list \<Rightarrow> u8 list \<Rightarrow> u8 list \<Rightarrow> parser \<Rightarrow> bool" where
  "core m0 s ts out w p \<longleftrightarrow> length (p_mem p) = length m0 \<and> drop s (p_mem p) = drop s m0 \<and> p_count p = length ts \<and>
     p_dst p = length out + length w \<and> take (length out + length w) (p_mem p) = out @ w \<and> length ts \<le> length (p_args p) \<and>
     (\<forall>i<length ts. token_in out (ts ! i) (p_args p ! i))"

lemma core_later: "core m0 s ts out w p \<Longrightarrow> s \<le> s' \<Longrightarrow> core m0 s' ts out w p"
  unfolding core_def by (metis drop_drop le_add_diff_inverse2)

lemma core_put:
  assumes "core m0 s ts out w p" "p_dst p < s" "s \<le> length m0"
  shows "put_byte b p = Inr (p\<lparr>p_mem := (p_mem p)[p_dst p := b], p_dst := p_dst p + 1\<rparr>)"
    and "core m0 s ts out (w @ [b]) (p\<lparr>p_mem := (p_mem p)[p_dst p := b], p_dst := p_dst p + 1\<rparr>)"
proof -
  have d: "p_dst p < length (p_mem p)" using assms by (simp add: core_def)
  then show "put_byte b p = Inr (p\<lparr>p_mem := (p_mem p)[p_dst p := b], p_dst := p_dst p + 1\<rparr>)" by (simp add: put_byte_def store_byte_def)
  have "take (p_dst p + 1) ((p_mem p)[p_dst p := b]) = take (p_dst p) (p_mem p) @ [b]" using d by (simp add: take_Suc_conv_app_nth)
  then show "core m0 s ts out (w @ [b]) (p\<lparr>p_mem := (p_mem p)[p_dst p := b], p_dst := p_dst p + 1\<rparr>)"
    using assms by (auto simp: core_def)
qed

lemma core_nth: "core m0 s ts out w p \<Longrightarrow> s \<le> i \<Longrightarrow> i < length m0 \<Longrightarrow> load_byte i p = Inr (m0 ! i)"
proof -
  assume a: "core m0 s ts out w p" "s \<le> i" "i < length m0"
  then have "drop s (p_mem p) ! (i - s) = drop s m0 ! (i - s)" "length (p_mem p) = length m0" by (simp_all add: core_def)
  then show ?thesis using a by (simp add: load_byte_def)
qed

lemma core_copy:
  assumes "core m0 s ts out w p" "p_dst p \<le> s" "s < length m0"
  shows "\<exists>m. copy_byte s (m0 ! s) p = Inr (p\<lparr>p_mem := m, p_dst := p_dst p + 1\<rparr>) \<and>
    core m0 (Suc s) ts out (w @ [m0 ! s]) (p\<lparr>p_mem := m, p_dst := p_dst p + 1\<rparr>)"
proof (cases "s = p_dst p")
  case True
  have "p_mem p ! s = m0 ! s" "length (p_mem p) = length m0" using core_nth [OF assms(1) _ assms(3)] assms(1,3) by (auto simp: load_byte_def core_def split: if_splits)
  then have "p = p\<lparr>p_mem := (p_mem p)[p_dst p := m0 ! s]\<rparr>" using True by (metis list_update_id parser.surjective parser.update_convs(1))
  moreover note core_put(2) [OF core_later [OF assms(1)], of "Suc s" "m0 ! s"]
  ultimately show ?thesis using True assms(3) by (intro exI [of _ "(p_mem p)[p_dst p := m0 ! s]"]) (simp add: copy_byte_def)
next
  case False
  note core_put [OF core_later [OF assms(1)], of "Suc s" "m0 ! s"]
  then show ?thesis using False assms(2,3) by (intro exI [of _ "(p_mem p)[p_dst p := m0 ! s]"]) (simp add: copy_byte_def put_byte_def)
qed

text \<open>The current argument becomes a finished one.\<close>

lemma core_token:
  assumes "core m0 s ts out w p" "length ts < length (p_args p)" "token_in (out @ w) t (p_args p ! length ts)"
  shows "core m0 s (ts @ [t]) (out @ w) [] (p\<lparr>p_count := length ts + 1\<rparr>)"
  using assms by (auto simp: core_def nth_append less_Suc_eq token_in_append)

text \<open>The end of an argument.\<close>

lemma end_arg_spec:
  assumes "core m0 s ts out w p" "p_dst p < s" "s \<le> length m0" "w \<noteq> []" "length ts < length (p_args p)" "p_args p ! length ts = Some (length out)"
  shows "\<exists>p' out'. end_arg p = Inr p' \<and> core m0 s (ts @ [Some (unquote w)]) out' [] p' \<and> p_dst p' = p_dst p + 1 \<and>
    p_state p' = p_state p \<and> length (p_args p') = length (p_args p)"
proof -
  have c: "length (p_mem p) = length m0" "drop s (p_mem p) = drop s m0" "p_count p = length ts" "p_dst p = length out + length w"
      "take (length out + length w) (p_mem p) = out @ w" "\<And>i. i < length ts \<Longrightarrow> token_in out (ts ! i) (p_args p ! i)"
    using assms(1) by (simp_all add: core_def)
  have "(out @ w) ! i = p_mem p ! i" if "i < length out + length w" for i using that c(5) nth_take [of i "length out + length w" "p_mem p"] by simp
  moreover have idx: "length out + length w - 1 = length out + (length w - 1)" "0 < length w" using assms(4) by (auto simp: Suc_le_eq)
  ultimately have nth: "p_mem p ! length out = hd w" "p_mem p ! (length out + length w - 1) = last w"
    by (metis add_0_right add_less_cancel_left hd_conv_nth length_greater_0_conv nth_append_length_plus,
        metis add_less_cancel_left diff_less last_conv_nth length_greater_0_conv nth_append_length_plus zero_less_one)
  have lt: "length out < length (p_mem p)" "length out + length w - 1 < length (p_mem p)" "length w \<noteq> 0" using assms c(1,4) by auto
  have first: "get_arg p = Inr (length out)" "load_byte (length out) p = Inr (hd w)" "load_byte (p_dst p - 1) p = Inr (last w)"
    using assms(5,6) c(3,4) nth lt by (simp_all add: get_arg_def load_byte_def)
  have long: "length out < length out + length w - Suc 0 \<longleftrightarrow> Suc 0 < length w" by linarith
  show ?thesis
  proof (cases "1 < length w \<and> hd w = 0x22 \<and> last w = 0x22")
    case True
    define v where "v = butlast (tl w)"
    have w: "w = 0x22 # v @ [0x22]" using True unfolding v_def by (cases w; cases "tl w" rule: rev_cases) auto
    let ?m = "(p_mem p)[length out + length w - 1 := 0]"
    let ?q = "p\<lparr>p_args := (p_args p)[length ts := Some (length out + 1)], p_mem := ?m\<rparr>"
    have "take (length out + length w) ?m = (out @ w)[length out + length w - 1 := 0]" using c(5) by (simp add: take_update_swap)
    also have "\<dots> = out @ 0x22 # v @ [0]" by (simp add: w list_update_append)
    finally have "core m0 s ts out (0x22 # v @ [0]) ?q"
      using assms(1,2,3,5) lt by (simp add: core_def w)
    moreover have "p_dst ?q < s" using assms(2) by simp
    ultimately have put: "put_byte 0 ?q = Inr (?q\<lparr>p_mem := (p_mem ?q)[p_dst ?q := 0], p_dst := p_dst ?q + 1\<rparr>)"
        "core m0 s ts out ((0x22 # v @ [0]) @ [0]) (?q\<lparr>p_mem := (p_mem ?q)[p_dst ?q := 0], p_dst := p_dst ?q + 1\<rparr>)"
      by (rule core_put [OF _ _ assms(3)])+
    let ?r = "?q\<lparr>p_mem := ?m[p_dst p := 0], p_dst := p_dst p + 1\<rparr>"
    have "end_arg p = Inr (?r\<lparr>p_count := length ts + 1\<rparr>)"
      unfolding end_arg_def using first True put(1) assms(5) lt c(3,4) by (simp add: set_arg_def store_byte_def long)
    moreover have "core m0 s (ts @ [Some v]) (out @ (0x22 # v @ [0]) @ [0]) [] (?r\<lparr>p_count := length ts + 1\<rparr>)"
      using core_token [OF put(2), of "Some v"] assms(5) by (simp add: token_in_def)
    moreover have "unquote w = v" using True by (simp add: unquote_def v_def)
    ultimately show ?thesis
      by (intro exI [of _ "?r\<lparr>p_count := length ts + 1\<rparr>"] exI [of _ "out @ (0x22 # v @ [0]) @ [0]"]) simp
  next
    case False
    note put = core_put [OF assms(1-3), of 0]
    let ?r = "p\<lparr>p_mem := (p_mem p)[p_dst p := 0], p_dst := p_dst p + 1\<rparr>"
    have "end_arg p = Inr (?r\<lparr>p_count := length ts + 1\<rparr>)"
      unfolding end_arg_def using first False put(1) c(3,4) by (auto simp: long)
    moreover have "core m0 s (ts @ [Some w]) (out @ w @ [0]) [] (?r\<lparr>p_count := length ts + 1\<rparr>)"
      using core_token [OF put(2), of "Some w"] assms(5,6) by (simp add: token_in_def)
    moreover have "unquote w = w" using False by (auto simp: unquote_def)
    ultimately show ?thesis by (intro exI [of _ "?r\<lparr>p_count := length ts + 1\<rparr>"] exI [of _ "out @ w @ [0]"]) simp
  qed
qed

text \<open>The parser at \<^verbatim>\<open>src = s\<close> agrees with the scan of the bytes before.\<close>

definition escaping :: "parserState \<Rightarrow> bool" where
  "escaping st \<longleftrightarrow> st = STATE_ESCAPE \<or> st = STATE_QUOTE_ESCAPE"

definition agrees :: "u8 list \<Rightarrow> nat \<Rightarrow> nat \<Rightarrow> nat \<Rightarrow> scan \<Rightarrow> parser \<Rightarrow> bool" where
  "agrees m0 n maxArgs s x p \<longleftrightarrow> (case x of Full ts \<Rightarrow> False | Scan ts w st \<Rightarrow>
     p_state p = st \<and> length (p_args p) = n \<and> length ts \<le> maxArgs + 1 \<and>
     p_dst p + (if escaping st then 1 else 0) \<le> s \<and>
     (\<exists>out. core m0 s ts out (if st = STATE_BLANK then [] else w) p \<and>
       (st \<noteq> STATE_BLANK \<longrightarrow> length ts < maxArgs \<and> p_args p ! length ts = Some (length out) \<and> (escaping st \<or> w \<noteq> []))))"

text \<open>The result of the function: the arguments are the tokens \<open>ts\<close>, the bytes from \<open>s\<close> on are untouched.\<close>

definition yields :: "u8 list \<Rightarrow> nat \<Rightarrow> nat \<Rightarrow> token list \<Rightarrow> parser \<Rightarrow> bool" where
  "yields m0 n s ts p \<longleftrightarrow> length (p_args p) = n \<and> (\<exists>out. core m0 s ts out [] p)"

definition flow_agrees :: "u8 list \<Rightarrow> nat \<Rightarrow> nat \<Rightarrow> nat \<Rightarrow> scan \<Rightarrow> flow kres \<Rightarrow> bool" where
  "flow_agrees m0 n maxArgs s x r \<longleftrightarrow>
     (case x of Full ts \<Rightarrow> \<exists>p. r = Inr (Return p) \<and> length ts \<le> maxArgs + 1 \<and> yields m0 n s ts p
      | Scan ts w st \<Rightarrow> \<exists>p. r = Inr (Next p) \<and> agrees m0 n maxArgs s x p)"

lemma flow_agreesI:
  "r = Inr (Next p) \<Longrightarrow> agrees m0 n maxArgs s (Scan ts w st) p \<Longrightarrow> flow_agrees m0 n maxArgs s (Scan ts w st) r"
  "r = Inr (Return p) \<Longrightarrow> length ts \<le> maxArgs + 1 \<Longrightarrow> yields m0 n s ts p \<Longrightarrow> flow_agrees m0 n maxArgs s (Full ts) r"
  by (simp_all add: flow_agrees_def)

text \<open>Appending a pipe operator, and starting an argument.\<close>

lemma core_pipe:
  assumes "core m0 s ts out [] p" "length ts < length (p_args p)"
  shows "set_arg None p = Inr (p\<lparr>p_args := (p_args p)[length ts := None]\<rparr>)"
    and "core m0 s (ts @ [None]) out [] (p\<lparr>p_args := (p_args p)[length ts := None], p_count := length ts + 1\<rparr>)"
  using assms by (auto simp: core_def set_arg_def nth_append less_Suc_eq)

lemma core_start:
  assumes "core m0 s ts out [] p" "length ts < length (p_args p)"
  shows "set_arg (Some (p_dst p)) p = Inr (p\<lparr>p_args := (p_args p)[length ts := Some (length out)]\<rparr>)"
    and "core m0 s ts out [] (p\<lparr>p_args := (p_args p)[length ts := Some (length out)]\<rparr>)"
  using assms by (auto simp: core_def set_arg_def)

lemma core_state [simp]: "core m0 s ts out w (p\<lparr>p_state := st\<rparr>) = core m0 s ts out w p"
  by (simp add: core_def)

lemma core_args: "core m0 s ts out w p \<Longrightarrow> p_count p = length ts \<and> p_dst p = length out + length w"
  by (simp add: core_def)

lemma agreesE:
  assumes "agrees m0 n maxArgs s (Scan ts w st) p"
  obtains out where "p_state p = st" "length (p_args p) = n" "length ts \<le> maxArgs + 1" "p_dst p + (if escaping st then 1 else 0) \<le> s"
    "core m0 s ts out (if st = STATE_BLANK then [] else w) p"
    "st \<noteq> STATE_BLANK \<Longrightarrow> length ts < maxArgs \<and> p_args p ! length ts = Some (length out) \<and> (escaping st \<or> w \<noteq> [])"
  using assms by (auto simp: agrees_def)

lemma blank_agrees:
  assumes "agrees m0 n maxArgs s (Scan ts w STATE_BLANK) p" "s < length m0" "maxArgs < n"
  shows "flow_agrees m0 n maxArgs (Suc s) (scan_byte maxArgs (m0 ! s) (Scan ts w STATE_BLANK)) (parse_blank maxArgs s (m0 ! s) p)"
proof -
  let ?b = "m0 ! s"
  obtain out where a: "p_state p = STATE_BLANK" "length (p_args p) = n" "length ts \<le> maxArgs + 1" "p_dst p \<le> s" "core m0 s ts out [] p"
    using agreesE [OF assms(1)] by (auto simp: escaping_def)
  have next': "core m0 (Suc s) ts out [] p" using core_later [OF a(5)] by simp
  note count = core_args [OF a(5)]
  consider "isspace ?b" | "\<not> isspace ?b" "maxArgs \<le> length ts" | "\<not> isspace ?b" "length ts < maxArgs" by linarith
  then show ?thesis
  proof cases
    case 1 then show ?thesis using a next' by (auto simp: parse_blank_def agrees_def escaping_def intro!: flow_agreesI exI [of _ out])
  next
    case 2 then show ?thesis using a next' count by (auto simp: parse_blank_def yields_def intro!: flow_agreesI)
  next
    case 3
    then have lt: "length ts < length (p_args p)" using a(2) assms(3) by simp
    note start = core_start [OF a(5) lt]
    show ?thesis
    proof (cases "?b = 0x7C \<or> ?b = 0x5C")
      case True
      then show ?thesis using 3 a count core_pipe [OF next' lt] start core_start(2) [OF next' lt] lt
        by (auto simp: parse_blank_def agrees_def escaping_def intro!: flow_agreesI exI [of _ out])
    next
      case False
      let ?st = "if ?b = 0x22 then STATE_QUOTE else STATE_TEXT"
      let ?p = "p\<lparr>p_args := (p_args p)[length ts := Some (length out)], p_state := ?st\<rparr>"
      have "core m0 s ts out [] ?p" "p_dst ?p \<le> s" using start(2) a(4) by (simp_all add: core_def)
      then obtain m where m: "copy_byte s ?b ?p = Inr (?p\<lparr>p_mem := m, p_dst := p_dst ?p + 1\<rparr>)"
          "core m0 (Suc s) ts out ([] @ [?b]) (?p\<lparr>p_mem := m, p_dst := p_dst ?p + 1\<rparr>)"
        using core_copy [OF _ _ assms(2)] by blast
      have "parse_blank maxArgs s ?b p = Inr (Next (?p\<lparr>p_mem := m, p_dst := p_dst ?p + 1\<rparr>))"
        using 3 False count start(1) m(1) by (simp add: parse_blank_def)
      moreover have "agrees m0 n maxArgs (Suc s) (Scan ts [?b] ?st) (?p\<lparr>p_mem := m, p_dst := p_dst ?p + 1\<rparr>)"
        using m(2) a(2,4) 3 lt by (auto simp: agrees_def escaping_def intro!: exI [of _ out])
      ultimately show ?thesis using 3 False by (auto intro: flow_agreesI)
    qed
  qed
qed

lemma core_copied:
  assumes "core m0 s ts out w p" "p_dst p \<le> s" "s < length m0" "length (p_args p) = n" "length ts < maxArgs" "p_args p ! length ts = Some (length out)"
    and "st \<noteq> STATE_BLANK" "\<not> escaping st"
  shows "\<exists>p'. copy_byte s (m0 ! s) p = Inr p' \<and> p_state p' = p_state p \<and> agrees m0 n maxArgs (Suc s) (Scan ts (w @ [m0 ! s]) st) (p'\<lparr>p_state := st\<rparr>)"
proof -
  obtain m where m: "copy_byte s (m0 ! s) p = Inr (p\<lparr>p_mem := m, p_dst := p_dst p + 1\<rparr>)"
      "core m0 (Suc s) ts out (w @ [m0 ! s]) (p\<lparr>p_mem := m, p_dst := p_dst p + 1\<rparr>)"
    using core_copy [OF assms(1-3)] by blast
  then show ?thesis using assms(2,4-8) by (auto simp: agrees_def intro!: exI [of _ out])
qed

lemma text_agrees:
  assumes "agrees m0 n maxArgs s (Scan ts w STATE_TEXT) p" "s < length m0" "maxArgs < n"
  shows "flow_agrees m0 n maxArgs (Suc s) (scan_byte maxArgs (m0 ! s) (Scan ts w STATE_TEXT)) (parse_text maxArgs s (m0 ! s) p)"
proof -
  let ?b = "m0 ! s"
  obtain out where a: "p_state p = STATE_TEXT" "length (p_args p) = n" "length ts \<le> maxArgs + 1" "p_dst p \<le> s" "core m0 s ts out w p"
      "length ts < maxArgs" "p_args p ! length ts = Some (length out)" "w \<noteq> []"
    using agreesE [OF assms(1)] by (auto simp: escaping_def)
  have next': "core m0 (Suc s) ts out w p" using core_later [OF a(5)] by simp
  consider "isspace ?b \<or> ?b = 0x7C" | "?b = 0x5C" "\<not> isspace ?b" | "\<not> isspace ?b" "?b \<noteq> 0x7C" "?b \<noteq> 0x5C" by blast
  then show ?thesis
  proof cases
    case 1
    have dst: "p_dst p < Suc s" "Suc s \<le> length m0" "length ts < length (p_args p)" using a assms(2,3) by simp_all
    obtain p' out' where e: "end_arg p = Inr p'" "core m0 (Suc s) (ts @ [Some (unquote w)]) out' [] p'" "p_dst p' = p_dst p + 1"
        "length (p_args p') = n"
      using end_arg_spec [OF next' dst(1,2) a(8) dst(3) a(7)] a(2) by auto
    have lt: "length (ts @ [Some (unquote w)]) < length (p_args p')" using e(4) a(6) assms(3) by simp
    have sp: "\<not> isspace ?b" if "?b = 0x7C" using that by (simp add: isspace_def word_le_nat_alt)
    show ?thesis
    proof (cases "?b = 0x7C")
      case True
      then show ?thesis using e core_pipe [OF e(2) lt] core_args [OF e(2)] a(4,6) sp
        by (auto simp: parse_text_def agrees_def escaping_def intro!: flow_agreesI exI [of _ out'])
    next
      case False
      with 1 show ?thesis using e a(4,6) by (auto simp: parse_text_def agrees_def escaping_def intro!: flow_agreesI exI [of _ out'])
    qed
  next
    case 2
    then show ?thesis using a next' by (auto simp: parse_text_def agrees_def escaping_def intro!: flow_agreesI exI [of _ out])
  next
    case 3
    define st where "st = (if ?b = 0x22 then STATE_QUOTE else STATE_TEXT)"
    define q where "q = (if ?b = 0x22 then p\<lparr>p_state := STATE_QUOTE\<rparr> else p)"
    have q: "core m0 s ts out w q" "p_dst q \<le> s" "length (p_args q) = n" "p_args q ! length ts = Some (length out)" "p_state q = st"
        "st \<noteq> STATE_BLANK" "\<not> escaping st"
      using a by (simp_all add: q_def st_def escaping_def)
    obtain p' where p': "copy_byte s ?b q = Inr p'" "p_state p' = st" "agrees m0 n maxArgs (Suc s) (Scan ts (w @ [?b]) st) (p'\<lparr>p_state := st\<rparr>)"
      using core_copied [OF q(1,2) assms(2) q(3) a(6) q(4,6,7)] q(5) by auto
    have "p'\<lparr>p_state := st\<rparr> = p'" using p'(2) [symmetric] by simp
    moreover have "parse_text maxArgs s ?b p = Inr (Next p')" using 3 p'(1) by (simp add: parse_text_def q_def)
    moreover have "scan_byte maxArgs ?b (Scan ts w STATE_TEXT) = Scan ts (w @ [?b]) st" using 3 by (simp add: st_def)
    ultimately show ?thesis using p'(3) flow_agreesI(1) by metis
  qed
qed

lemma quote_agrees:
  assumes "agrees m0 n maxArgs s (Scan ts w STATE_QUOTE) p" "s < length m0"
  shows "flow_agrees m0 n maxArgs (Suc s) (scan_byte maxArgs (m0 ! s) (Scan ts w STATE_QUOTE)) (parse_quote s (m0 ! s) p)"
proof -
  let ?b = "m0 ! s"
  obtain out where a: "p_state p = STATE_QUOTE" "length (p_args p) = n" "p_dst p \<le> s" "core m0 s ts out w p"
      "length ts < maxArgs" "p_args p ! length ts = Some (length out)" "w \<noteq> []"
    using agreesE [OF assms(1)] by (auto simp: escaping_def)
  show ?thesis
  proof (cases "?b = 0x5C")
    case True
    then show ?thesis using a core_later [OF a(4), of "Suc s"] by (auto simp: parse_quote_def agrees_def escaping_def intro!: flow_agreesI exI [of _ out])
  next
    case False
    define st where "st = (if ?b = 0x22 then STATE_TEXT else STATE_QUOTE)"
    have st: "st \<noteq> STATE_BLANK" "\<not> escaping st" by (simp_all add: st_def escaping_def)
    obtain p' where p': "copy_byte s ?b p = Inr p'" "p_state p' = STATE_QUOTE" "agrees m0 n maxArgs (Suc s) (Scan ts (w @ [?b]) st) (p'\<lparr>p_state := st\<rparr>)"
      using core_copied [OF a(4,3) assms(2) a(2,5,6) st] a(1) by auto
    have "(if ?b = 0x22 then p'\<lparr>p_state := STATE_TEXT\<rparr> else p') = p'\<lparr>p_state := st\<rparr>" using p'(2) by (cases p') (simp add: st_def)
    then have "parse_quote s ?b p = Inr (Next (p'\<lparr>p_state := st\<rparr>))" using False p'(1) by (simp add: parse_quote_def)
    moreover have "scan_byte maxArgs ?b (Scan ts w STATE_QUOTE) = Scan ts (w @ [?b]) st" using False by (simp add: st_def)
    ultimately show ?thesis using p'(3) flow_agreesI(1) by metis
  qed
qed

text \<open>After an escape there is room for two bytes, since the backslash itself was not copied.\<close>

lemma escape_agrees:
  assumes "agrees m0 n maxArgs s (Scan ts w st) p" "s < length m0" "escaping st"
  shows "flow_agrees m0 n maxArgs (Suc s) (scan_byte maxArgs b (Scan ts w st)) (parse_escape b p)"
proof -
  obtain out where a: "p_state p = st" "length (p_args p) = n" "Suc (p_dst p) \<le> s" "core m0 s ts out w p"
      "length ts < maxArgs" "p_args p ! length ts = Some (length out)"
  proof (rule agreesE [OF assms(1)])
    fix out assume "p_state p = st" "length (p_args p) = n" "p_dst p + (if escaping st then 1 else 0) \<le> s"
      "core m0 s ts out (if st = STATE_BLANK then [] else w) p"
      "st \<noteq> STATE_BLANK \<Longrightarrow> length ts < maxArgs \<and> p_args p ! length ts = Some (length out) \<and> (escaping st \<or> w \<noteq> [])"
    then show thesis using that [of out] assms(3) by (cases st) (simp_all add: escaping_def)
  qed
  define st' where "st' = (if st = STATE_QUOTE_ESCAPE then STATE_QUOTE else STATE_TEXT)"
  have scan: "scan_byte maxArgs b (Scan ts w st) = Scan ts (w @ unescape b) st'"
    using assms(3) by (auto simp: escaping_def st'_def)
  have one: "core m0 (Suc s) ts out w p" "p_dst p < Suc s" "Suc s \<le> length m0" using core_later [OF a(4), of "Suc s"] a(3) assms(2) by simp_all
  have "\<exists>p'. (if b = 0x6E then put_byte 0x0A p else if b = 0x72 then put_byte 0x0D p
      else if b = 0x22 \<or> b = 0x20 \<or> b = 0x7C then put_byte b p else kbind (put_byte 0x5C p) (put_byte b)) = Inr p' \<and>
    core m0 (Suc s) ts out (w @ unescape b) p' \<and> p_args p' = p_args p \<and> p_state p' = p_state p \<and> p_dst p' \<le> Suc s"
  proof (cases "b = 0x6E \<or> b = 0x72 \<or> b = 0x22 \<or> b = 0x20 \<or> b = 0x7C")
    case True
    then show ?thesis using core_put [OF one] a(3) by (auto simp: unescape_def)
  next
    case False
    let ?q = "p\<lparr>p_mem := (p_mem p)[p_dst p := 0x5C], p_dst := p_dst p + 1\<rparr>"
    have "core m0 (Suc s) ts out (w @ [0x5C]) ?q" "p_dst ?q < Suc s" using core_put(2) [OF one] a(3) by simp_all
    note two = core_put [OF this one(3), of b]
    show ?thesis using False two core_put(1) [OF one] a(3) by (simp add: unescape_def)
  qed
  then obtain p' where p': "parse_escape b p = Inr (Next (p'\<lparr>p_state := st'\<rparr>))" "core m0 (Suc s) ts out (w @ unescape b) p'"
      "p_args p' = p_args p" "p_dst p' \<le> Suc s"
    unfolding parse_escape_def using a(1) by (auto simp: st'_def)
  have "unescape b \<noteq> []" by (simp add: unescape_def)
  then have "agrees m0 n maxArgs (Suc s) (Scan ts (w @ unescape b) st') (p'\<lparr>p_state := st'\<rparr>)"
    using p' a(2,5,6) by (auto simp: agrees_def escaping_def st'_def intro!: exI [of _ out])
  then show ?thesis unfolding scan using p'(1) flow_agreesI(1) by blast
qed

lemma step_agrees:
  assumes "agrees m0 n maxArgs s x p" "s < length m0" "maxArgs < n"
  shows "flow_agrees m0 n maxArgs (Suc s) (scan_byte maxArgs (m0 ! s) x) (parse_step maxArgs s p)"
proof -
  obtain ts w st where x: "x = Scan ts w st" using assms(1) by (cases x) (simp_all add: agrees_def)
  obtain out where st: "p_state p = st" "core m0 s ts out (if st = STATE_BLANK then [] else w) p" using agreesE [OF assms(1) [unfolded x]] by metis
  have "load_byte s p = Inr (m0 ! s)" using core_nth [OF st(2)] assms(2) by simp
  then show ?thesis
    using blank_agrees [OF _ assms(2,3)] text_agrees [OF _ assms(2,3)] quote_agrees [OF _ assms(2)] escape_agrees [OF _ assms(2)] assms(1)
    by (cases st) (simp_all add: parse_step_def st(1) x escaping_def del: scan_byte.simps)
qed

lemma scan_full [simp]: "fold (scan_byte maxArgs) bs (Full ts) = Full ts"
  by (induction bs) simp_all

lemma yields_later: "yields m0 n s ts p \<Longrightarrow> s \<le> s' \<Longrightarrow> yields m0 n s' ts p"
  by (auto simp: yields_def intro: core_later)

lemma loop_agrees:
  assumes "m0 = line @ 0 # rest" "0 \<notin> set line" "maxArgs < n"
  shows "agrees m0 n maxArgs s x p \<Longrightarrow> s < length line \<Longrightarrow> length line - s \<le> k \<Longrightarrow>
    flow_agrees m0 n maxArgs (length line) (fold (scan_byte maxArgs) (drop s line) x) (parse_loop k maxArgs s p)"
proof (induction k arbitrary: s x p)
  case 0 then show ?case by simp
next
  case (Suc k)
  have b: "m0 ! s = line ! s" "drop s line = line ! s # drop (Suc s) line"
    using Suc.prems(2) by (simp_all add: assms(1) nth_append Cons_nth_drop_Suc)
  have "s < length m0" using Suc.prems(2) assms(1) by simp
  note step = step_agrees [OF Suc.prems(1) this assms(3), unfolded b(1)]
  show ?case
  proof (cases "scan_byte maxArgs (line ! s) x")
    case (Full ts)
    then obtain p' where "parse_step maxArgs s p = Inr (Return p')" "length ts \<le> maxArgs + 1" "yields m0 n (Suc s) ts p'"
      using step by (auto simp: flow_agrees_def)
    then show ?thesis using Full Suc.prems(2) yields_later [of m0 n "Suc s" ts p' "length line"] by (simp add: b(2) flow_agrees_def)
  next
    case (Scan ts w st)
    then obtain p' where p': "parse_step maxArgs s p = Inr (Next p')" "agrees m0 n maxArgs (Suc s) (Scan ts w st) p'"
      using step by (auto simp: flow_agrees_def)
    obtain out where "core m0 (Suc s) ts out (if st = STATE_BLANK then [] else w) p'" using agreesE [OF p'(2)] by metis
    then have load: "load_byte (Suc s) p' = Inr (m0 ! Suc s)" using core_nth [of m0 "Suc s" ts out _ p' "Suc s"] Suc.prems(2) assms(1) by simp
    show ?thesis
    proof (cases "Suc s = length line")
      case True
      then show ?thesis using p' load Scan by (simp add: b(2) assms(1) flow_agrees_def)
    next
      case False
      then have "Suc s < length line" using Suc.prems(2) by simp
      moreover from this have "m0 ! Suc s \<noteq> 0" using assms(1,2) by (auto simp: nth_append dest: nth_mem)
      ultimately show ?thesis using Suc.IH [OF p'(2)] Suc.prems(3) p'(1) load Scan by (simp add: b(2))
    qed
  qed
qed

lemma end_agrees:
  assumes "agrees m0 n maxArgs s x p" "s < length m0" "maxArgs < n"
  shows "\<exists>p'. parse_end p = Inr p' \<and> yields m0 n (Suc s) (scan_end x) p' \<and> length (scan_end x) \<le> maxArgs + 1"
proof -
  obtain ts w st where x: "x = Scan ts w st" using assms(1) by (cases x) (simp_all add: agrees_def)
  obtain out where a: "p_state p = st" "length (p_args p) = n" "length ts \<le> maxArgs + 1" "p_dst p + (if escaping st then 1 else 0) \<le> s"
      "core m0 s ts out (if st = STATE_BLANK then [] else w) p"
      "st \<noteq> STATE_BLANK \<Longrightarrow> length ts < maxArgs \<and> p_args p ! length ts = Some (length out) \<and> (escaping st \<or> w \<noteq> [])"
    using agreesE [OF assms(1) [unfolded x]] by metis
  consider (blank) "st = STATE_BLANK" | (word) "st = STATE_TEXT \<or> st = STATE_QUOTE" | (escape) "escaping st" by (cases st) (simp_all add: escaping_def)
  then show ?thesis
  proof cases
    case blank
    then show ?thesis using a core_later [OF a(5), of "Suc s"] by (auto simp: parse_end_def yields_def x)
  next
    case word
    then have st: "st \<noteq> STATE_BLANK" "\<not> escaping st" by (auto simp: escaping_def)
    have c: "core m0 (Suc s) ts out w p" "p_dst p < Suc s" "Suc s \<le> length m0" "w \<noteq> []" "length ts < length (p_args p)"
        "p_args p ! length ts = Some (length out)"
      using core_later [OF a(5), of "Suc s"] a(2,4) a(6) [OF st(1)] st assms(2,3) by simp_all
    from end_arg_spec [OF this] show ?thesis using word a(1,2) a(6) [OF st(1)] by (auto simp: parse_end_def yields_def x)
  next
    case escape
    then have st: "st \<noteq> STATE_BLANK" by (auto simp: escaping_def)
    have c: "core m0 (Suc s) ts out w p" "p_dst p < Suc s" "Suc s \<le> length m0" using core_later [OF a(5), of "Suc s"] a(4) st assms(2) by simp_all
    let ?q = "p\<lparr>p_mem := (p_mem p)[p_dst p := 0x5C], p_dst := p_dst p + 1\<rparr>"
    let ?r = "?q\<lparr>p_mem := (p_mem ?q)[p_dst ?q := 0], p_dst := p_dst ?q + 1\<rparr>"
    have "core m0 (Suc s) ts out (w @ [0x5C]) ?q" "p_dst ?q < Suc s" using core_put(2) [OF c] a(4) escape by simp_all
    note two = core_put [OF this c(3), of 0]
    have lt: "length ts < length (p_args ?r)" "p_args ?r ! length ts = Some (length out)" using a(2) a(6) [OF st] assms(3) by simp_all
    have "yields m0 n (Suc s) (ts @ [Some (w @ [0x5C])]) (?r\<lparr>p_count := length ts + 1\<rparr>)"
      using core_token [OF two(2) lt(1), of "Some (w @ [0x5C])"] lt(2) a(2) by (auto simp: yields_def token_in_def)
    moreover have "parse_end p = Inr (?r\<lparr>p_count := length ts + 1\<rparr>)"
      using escape a(1) core_put(1) [OF c] two(1) core_args [OF two(2)] by (auto simp: parse_end_def escaping_def)
    ultimately show ?thesis using escape a(6) [OF st] by (auto simp: x escaping_def)
  qed
qed

text \<open>The words of a line contain no zero byte.\<close>

definition no_zero :: "scan \<Rightarrow> bool" where
  "no_zero x \<longleftrightarrow> (case x of Full ts \<Rightarrow> \<forall>s. Some s \<in> set ts \<longrightarrow> 0 \<notin> set s | Scan ts w st \<Rightarrow> (\<forall>s. Some s \<in> set ts \<longrightarrow> 0 \<notin> set s) \<and> 0 \<notin> set w)"

lemma set_unquote: "set (unquote w) \<subseteq> set w"
  unfolding unquote_def by (auto dest!: in_set_butlastD list.set_sel(2) [rotated] intro: ccontr)


lemma no_zero_step: "no_zero x \<Longrightarrow> b \<noteq> 0 \<Longrightarrow> no_zero (scan_byte maxArgs b x)"
  using set_unquote by (induction maxArgs b x rule: scan_byte.induct) (auto simp: no_zero_def unescape_def)

lemma no_zero_end: "no_zero x \<Longrightarrow> Some s \<in> set (scan_end x) \<Longrightarrow> 0 \<notin> set s"
  using set_unquote by (induction x rule: scan_end.induct) (auto simp: no_zero_def)

lemma no_zero_fold: "no_zero x \<Longrightarrow> 0 \<notin> set bs \<Longrightarrow> no_zero (fold (scan_byte maxArgs) bs x)"
  by (induction bs arbitrary: x) (simp_all add: no_zero_step)

text \<open>The string at a position of a buffer, \<open>None\<close> if it is not terminated.\<close>

definition c_string :: "u8 list \<Rightarrow> nat \<Rightarrow> u8 list option" where
  "c_string m k = (if 0 \<in> set (drop k m) then Some (takeWhile (\<lambda>b. b \<noteq> 0) (drop k m)) else None)"

lemma token_c_string:
  assumes "token_in (take d m) t a" "\<And>s. t = Some s \<Longrightarrow> 0 \<notin> set s"
  shows "map_option (c_string m) a = map_option Some t"
proof (cases t)
  case (Some s)
  then obtain k rest where k: "a = Some k" "drop k (take d m) = s @ 0 # rest" using assms(1) by (auto simp: token_in_def)
  then have "k < length (take d m)" by (metis append_is_Nil_conv drop_all list.distinct(1) not_less)
  then have "drop k m = drop k (take d m) @ drop d m" by (metis append_take_drop_id drop_append diff_is_0_eq drop0 less_imp_le)
  then have "drop k m = s @ 0 # rest @ drop d m" using k(2) by simp
  then have "c_string m k = Some s" using assms(2) [OF Some] by (auto simp: c_string_def takeWhile_append)
  then show ?thesis by (simp add: Some k(1))
qed (use assms(1) in simp)

lemma shellParseArgs_yields:
  assumes "0 \<notin> set line" "maxArgs < length args"
  shows "\<exists>p. shellParseArgs (line @ 0 # rest) args maxArgs = Inr (p_mem p, p_args p, p_count p) \<and>
    yields (line @ 0 # rest) (length args) (Suc (length line)) (tokens maxArgs line) p \<and> length (tokens maxArgs line) \<le> maxArgs + 1"
proof -
  let ?m = "line @ 0 # rest" and ?p = "\<lparr>p_mem = line @ 0 # rest, p_args = args, p_count = 0, p_state = STATE_BLANK, p_dst = 0\<rparr>"
  have start: "agrees ?m (length args) maxArgs 0 (Scan [] [] STATE_BLANK) ?p" by (simp add: agrees_def core_def escaping_def)
  show ?thesis
  proof (cases line)
    case Nil
    then show ?thesis by (intro exI [of _ ?p]) (simp add: shellParseArgs_def load_byte_def yields_def core_def tokens_def)
  next
    case (Cons b bs)
    let ?y = "fold (scan_byte maxArgs) line (Scan [] [] STATE_BLANK)"
    define r where "r = parse_loop (length ?m) maxArgs 0 ?p"
    have flow: "flow_agrees ?m (length args) maxArgs (length line) ?y r"
      unfolding r_def by (rule loop_agrees [OF refl assms start, of "length ?m", unfolded drop_0]) (use Cons in simp_all)
    have first: "load_byte 0 ?p = Inr b" "b \<noteq> 0" using assms(1) Cons by (simp_all add: load_byte_def)
    have run: "shellParseArgs ?m args maxArgs = kbind r (\<lambda>r. kbind (case r of Return p \<Rightarrow> Inr p | Next p \<Rightarrow> parse_end p) (\<lambda>p.
        Inr (p_mem p, p_args p, p_count p)))"
      using first by (simp add: shellParseArgs_def r_def del: parse_loop.simps)
    show ?thesis
    proof (cases ?y)
      case (Full ts)
      then obtain p' where "r = Inr (Return p')" "length ts \<le> maxArgs + 1" "yields ?m (length args) (length line) ts p'"
        using flow by (auto simp: flow_agrees_def)
      then show ?thesis using first Full yields_later [of ?m "length args" "length line" ts p' "Suc (length line)"]
        by (intro exI [of _ p']) (simp add: run tokens_def)
    next
      case (Scan ts w st)
      then obtain p' where p': "r = Inr (Next p')" "agrees ?m (length args) maxArgs (length line) ?y p'"
        using flow by (auto simp: flow_agrees_def)
      obtain p'' where "parse_end p' = Inr p''" "yields ?m (length args) (Suc (length line)) (scan_end ?y) p''" "length (scan_end ?y) \<le> maxArgs + 1"
        using end_agrees [OF p'(2) _ assms(2)] by auto
      then show ?thesis using first p'(1) by (intro exI [of _ p'']) (simp add: run tokens_def)
    qed
  qed
qed

lemma yields_result:
  assumes "yields m0 n s ts p" "\<And>t. Some t \<in> set ts \<Longrightarrow> 0 \<notin> set t"
  shows "p_count p = length ts" "length (p_mem p) = length m0" "drop s (p_mem p) = drop s m0" "length (p_args p) = n"
    "map (map_option (c_string (p_mem p))) (take (length ts) (p_args p)) = map (map_option Some) ts"
proof -
  obtain out where c: "core m0 s ts out [] p" "length (p_args p) = n" using assms(1) by (auto simp: yields_def)
  then show "p_count p = length ts" "length (p_mem p) = length m0" "drop s (p_mem p) = drop s m0" "length (p_args p) = n" by (simp_all add: core_def)
  have out: "take (length out) (p_mem p) = out" "length ts \<le> length (p_args p)" using c(1) by (simp_all add: core_def)
  have "map_option (c_string (p_mem p)) (p_args p ! i) = map_option Some (ts ! i)" if "i < length ts" for i
  proof (rule token_c_string [where d = "length out"])
    show "token_in (take (length out) (p_mem p)) (ts ! i) (p_args p ! i)" using c(1) that out by (simp add: core_def)
    show "0 \<notin> set t" if "ts ! i = Some t" for t using assms(2) [of t] that \<open>i < length ts\<close> by (metis nth_mem)
  qed
  then show "map (map_option (c_string (p_mem p))) (take (length ts) (p_args p)) = map (map_option Some) ts"
    using out(2) by (intro nth_equalityI) simp_all
qed

lemma shellParseArgs_tokens:
  assumes "0 \<notin> set line" "maxArgs < length args"
  shows "\<exists>m' args'. shellParseArgs (line @ 0 # rest) args maxArgs = Inr (m', args', length (tokens maxArgs line)) \<and>
    map (map_option (c_string m')) (take (length (tokens maxArgs line)) args') = map (map_option Some) (tokens maxArgs line) \<and>
    drop (Suc (length line)) m' = rest \<and> length m' = length line + 1 + length rest \<and> length args' = length args \<and>
    length (tokens maxArgs line) \<le> maxArgs + 1"
proof -
  obtain p where p: "shellParseArgs (line @ 0 # rest) args maxArgs = Inr (p_mem p, p_args p, p_count p)"
      "yields (line @ 0 # rest) (length args) (Suc (length line)) (tokens maxArgs line) p" "length (tokens maxArgs line) \<le> maxArgs + 1"
    using shellParseArgs_yields [OF assms] by blast
  have "0 \<notin> set t" if "Some t \<in> set (tokens maxArgs line)" for t
    using that assms(1) no_zero_end no_zero_fold [of "Scan [] [] STATE_BLANK"] by (auto simp: tokens_def no_zero_def)
  from yields_result [OF p(2) this] p(1,3) show ?thesis by auto
qed


text \<open>
  C12: \<^verbatim>\<open>shellParseArgs\<close> never leaves the line or the array, for every line and every limit below the size of the array: it
  overwrites the line only up to its terminator, and the arguments it returns, read as C strings in the overwritten line, are exactly the
  tokens of the line (its words with escapes and enclosing quotes removed, and \<^verbatim>\<open>NULL\<close> for a pipe operator). There can be one more than the limit.
\<close>

theorem shellParseArgs_refines:
  assumes "0 \<notin> set line" "maxArgs < length args"
  shows "\<exists>m' args'. shellParseArgs (line @ 0 # rest) args maxArgs = Inr (m', args', length (tokens maxArgs line)) \<and>
    map (map_option (c_string m')) (take (length (tokens maxArgs line)) args') = map (map_option Some) (tokens maxArgs line) \<and>
    drop (Suc (length line)) m' = rest \<and> length m' = length line + 1 + length rest \<and> length args' = length args \<and>
    length (tokens maxArgs line) \<le> maxArgs + 1"
  using shellParseArgs_tokens [OF assms] .

theorem shellParseArgs_refines_witness:
  "\<exists>m' args'. shellParseArgs (map of_char ''a \"b c\"|d'' @ [0, 7]) (replicate 32 None) 30 = Inr (m', args', 4) \<and>
     map (map_option (c_string m')) (take 4 args') = [Some (Some [0x61]), Some (Some [0x62, 0x20, 0x63]), None, Some (Some [0x64])] \<and> drop 10 m' = [7]"
proof -
  let ?line = "map of_char ''a \"b c\"|d'' :: u8 list"
  have pre: "0 \<notin> set ?line" "30 < length (replicate 32 (None :: nat option))" by code_simp+
  have toks: "tokens 30 ?line = [Some [0x61], Some [0x62, 0x20, 0x63], None, Some [0x64]]" by code_simp
  have len: "length [Some [0x61 :: u8], Some [0x62, 0x20, 0x63], None, Some [0x64]] = 4" "Suc (length ?line) = 10" by simp_all
  obtain m' args' where "shellParseArgs (?line @ [0, 7]) (replicate 32 None) 30 = Inr (m', args', 4)" "drop 10 m' = [7]"
      "map (map_option (c_string m')) (take 4 args') = map (map_option Some) [Some [0x61], Some [0x62, 0x20, 0x63], None, Some [0x64]]"
    using shellParseArgs_refines [OF pre, of "[7]", unfolded toks len] by blast
  then show ?thesis unfolding list.map option.map by (intro exI [of _ m'] exI [of _ args']) (simp only: simp_thms)
qed

text \<open>
  C32: The shell's own use of the array. It has room for 30 arguments and two \<^verbatim>\<open>NULL\<close>s, but a pipe operator directly behind the 30th argument is
  the 31st, and then the second \<^verbatim>\<open>NULL\<close> is written behind the array: this happens for exactly the lines that give 31 tokens.
\<close>

theorem shell_args_overflow:
  assumes "0 \<notin> set line" "length args = MAX_ARGS + 2"
  shows "shell_args (line @ 0 # rest) args = Inl MemFault \<longleftrightarrow> length (tokens MAX_ARGS line) = 31"
proof -
  obtain m' args' where "shellParseArgs (line @ 0 # rest) args MAX_ARGS = Inr (m', args', length (tokens MAX_ARGS line))"
      "length args' = 32" "length (tokens MAX_ARGS line) \<le> 31"
    using shellParseArgs_tokens [OF assms(1), of MAX_ARGS args rest] assms(2) by (auto simp: MAX_ARGS_def)
  then show ?thesis by (auto simp: shell_args_def)
qed

theorem shell_args_overflow_witness:
  "shell_args (concat (replicate 29 [0x61, 0x20]) @ [0x61, 0x7C, 0x0A] @ 0 # []) (replicate 32 None) = Inl MemFault"
proof -
  let ?line = "concat (replicate 29 [0x61, 0x20]) @ [0x61, 0x7C, 0x0A] :: u8 list"
  have "0 \<notin> set ?line" "length (replicate 32 (None :: nat option)) = MAX_ARGS + 2" "length (tokens MAX_ARGS ?line) = 31" by code_simp+
  then show ?thesis using shell_args_overflow [of ?line "replicate 32 None" "[]"] by simp
qed

section \<open>Quoting\<close>

text \<open>Every word without a backslash can be written on a line: in quotes, with a backslash before the quotes it contains.\<close>

definition escape_quotes :: "u8 list \<Rightarrow> u8 list" where
  "escape_quotes w = concat (map (\<lambda>b. if b = 0x22 then [0x5C, 0x22] else [b]) w)"

fun quote_token :: "token \<Rightarrow> u8 list" where
  "quote_token None = [0x7C, 0x20]"
| "quote_token (Some w) = 0x22 # escape_quotes w @ [0x22, 0x20]"

lemma scan_quoted: "0x5C \<notin> set w \<Longrightarrow> fold (scan_byte maxArgs) (escape_quotes w) (Scan ts v STATE_QUOTE) = Scan ts (v @ w) STATE_QUOTE"
  by (induction w arbitrary: v) (auto simp: escape_quotes_def unescape_def)

lemma isspace_values [simp]: "\<not> isspace 0x22" "\<not> isspace 0x7C" "isspace 0x20" "isspace 0x0A"
  by (simp_all add: isspace_def word_le_nat_alt)

lemma scan_token:
  assumes "\<And>w. t = Some w \<Longrightarrow> 0x5C \<notin> set w" "length ts < maxArgs"
  shows "fold (scan_byte maxArgs) (quote_token t) (Scan ts [] STATE_BLANK) = Scan (ts @ [t]) [] STATE_BLANK"
proof (cases t)
  case None then show ?thesis using assms(2) by simp
next
  case (Some w)
  then show ?thesis using assms by (simp add: scan_quoted unquote_def)
qed

definition command_line :: "token list \<Rightarrow> u8 list" where
  "command_line toks = concat (map quote_token toks) @ [0x0A]"

lemma scan_tokens:
  assumes "\<And>w. Some w \<in> set toks \<Longrightarrow> 0x5C \<notin> set w" "length ts + length toks \<le> maxArgs"
  shows "fold (scan_byte maxArgs) (concat (map quote_token toks)) (Scan ts [] STATE_BLANK) = Scan (ts @ toks) [] STATE_BLANK"
  using assms
proof (induction toks arbitrary: ts)
  case (Cons t toks)
  from Cons.IH [of "ts @ [t]"] Cons.prems show ?case using scan_token [of t ts maxArgs] by simp
qed simp

lemma tokens_command_line:
  assumes "\<And>w. Some w \<in> set toks \<Longrightarrow> 0x5C \<notin> set w" "length toks \<le> maxArgs"
  shows "tokens maxArgs (command_line toks) = toks"
  using scan_tokens [of toks "[]" maxArgs] assms by (simp add: tokens_def command_line_def)


section \<open>Editing a line\<close>

text \<open>What the keys do: 127 removes the last byte, escape is ignored.\<close>

definition edit_key :: "u8 \<Rightarrow> u8 list \<Rightarrow> u8 list" where
  "edit_key b l = (if b = 127 then butlast l else if b = 0x1B then l else l @ [b])"

text \<open>What is shown of them on the console.\<close>

primrec echo_keys :: "u8 list \<Rightarrow> u8 list \<Rightarrow> u8 list" where
  "echo_keys [] l = []"
| "echo_keys (b # bs) l = (if b = 0x1B \<or> b = 127 \<and> l = [] then [] else [b]) @ echo_keys bs (edit_key b l)"

definition input_ok :: "u8 list \<Rightarrow> inputState \<Rightarrow> bool" where
  "input_ok l s \<longleftrightarrow> length (i_buffer s) = i_length s \<and> i_pos s = length l \<and> length l < i_length s \<and> take (length l) (i_buffer s) = l"

lemma fresh_length [simp]: "length (fresh_bytes junk n) = 1024"
  by (simp add: fresh_bytes_def)

lemma room_ok:
  assumes "input_ok l s" "input_room room junk s = Some s'"
  shows "input_ok l s'" "Suc (length l) < i_length s'" "i_echo s' = i_echo s"
  using assms by (auto simp: input_ok_def input_room_def split: if_splits)

lemma finish_ok: "input_ok l s \<Longrightarrow> \<exists>rest. input_finish s = Inr (Line (l @ 0 # rest) (i_echo s))"
proof -
  assume "input_ok l s"
  then have s: "length l < length (i_buffer s)" "i_pos s = length l" "take (length l) (i_buffer s) = l" by (simp_all add: input_ok_def)
  then have "(i_buffer s)[length l := 0] = l @ 0 # drop (Suc (length l)) (i_buffer s)" by (simp add: upd_conv_take_nth_drop)
  then show ?thesis using s by (simp add: input_finish_def)
qed

lemma finish_returns: "input_ok l s \<Longrightarrow> \<exists>r. input_finish s = Inr r"
  using finish_ok by blast

lemma room_always: "\<forall>n. room n \<Longrightarrow> \<exists>s'. input_room room junk s = Some s'"
  by (simp add: input_room_def)

lemma put_key_ok:
  assumes "input_ok l s" "Suc (length l) < i_length s"
  shows "input_ok (l @ [b]) (s\<lparr>i_buffer := (i_buffer s)[i_pos s := b], i_pos := i_pos s + 1, i_echo := e\<rparr>)"
  using assms by (simp add: input_ok_def take_Suc_conv_app_nth)

lemma rub_key_ok:
  assumes "input_ok l s" "l \<noteq> []"
  shows "input_ok (butlast l) (s\<lparr>i_pos := i_pos s - 1, i_echo := e\<rparr>)"
proof -
  have "take (length l) (i_buffer s) = l" using assms(1) by (simp add: input_ok_def)
  then have "butlast l = take (length l - 1) (take (length l) (i_buffer s))" by (simp only: butlast_conv_take)
  then have "take (length l - 1) (i_buffer s) = butlast l" by (simp add: min_def)
  then show ?thesis using assms by (auto simp: input_ok_def)
qed

text \<open>Reading never leaves the buffer.\<close>

lemma input_safe: "input_ok l s \<Longrightarrow> \<exists>r. input_loop room junk es s = Inr r"
proof (induction es arbitrary: l s)
  case Nil then show ?case by simp
next
  case (Cons e es)
  show ?case
  proof (cases "e = WaitFailed")
    case True then show ?thesis using finish_ok [OF Cons.prems] by auto
  next
    case False
    show ?thesis
    proof (cases "input_room room junk s")
      case None then show ?thesis using False by simp
    next
      case (Some s')
      note ok = room_ok [OF Cons.prems Some]
      have "i_pos s' < length (i_buffer s')" "i_pos s' = length l" using ok(1) by (simp_all add: input_ok_def)
      then show ?thesis using False Some Cons.IH [OF ok(1)] Cons.IH [OF rub_key_ok [OF ok(1)]] Cons.IH [OF put_key_ok [OF ok(1,2)]]
          finish_returns [OF ok(1)] finish_returns [OF put_key_ok [OF ok(1,2)]]
        by (cases e) (auto simp: Let_def)
    qed
  qed
qed

lemma input_reads:
  assumes "\<forall>n. room n" "input_ok l s" "0x0A \<notin> set ks"
  shows "\<exists>rest. input_loop room junk (map ReadByte (ks @ [0x0A])) s =
    Inr (Line ((fold edit_key ks l @ [0x0A]) @ 0 # rest) (i_echo s @ echo_keys ks l @ [0x0A]))"
  using assms(2,3)
proof (induction ks arbitrary: l s)
  case Nil
  obtain s' where s': "input_room room junk s = Some s'" using room_always [OF assms(1)] by blast
  note ok = room_ok [OF Nil.prems(1) s']
  have "i_pos s' < length (i_buffer s')" using ok(1) by (simp add: input_ok_def)
  then show ?case using s' ok(3) finish_ok [OF put_key_ok [OF ok(1,2), of "0x0A" "i_echo s @ [0x0A]"]] by (simp add: Let_def)
next
  case (Cons b ks)
  obtain s' where s': "input_room room junk s = Some s'" using room_always [OF assms(1)] by blast
  note ok = room_ok [OF Cons.prems(1) s']
  have pos: "i_pos s' < length (i_buffer s')" "i_pos s' = length l" using ok(1) by (simp_all add: input_ok_def)
  have ks: "0x0A \<notin> set ks" "b \<noteq> 0x0A" using Cons.prems(2) by auto
  consider "b = 127" "l = []" | "b = 127" "l \<noteq> []" | "b = 0x1B" | "b \<noteq> 127" "b \<noteq> 0x1B" by blast
  then show ?case
  proof cases
    case 1 then show ?thesis using s' pos ok(3) Cons.IH [OF ok(1) ks(1)] by (simp add: edit_key_def)
  next
    case 2 then show ?thesis using s' pos ok(3) Cons.IH [OF rub_key_ok [OF ok(1) 2(2), of "i_echo s @ [127]"] ks(1)] by (simp add: edit_key_def)
  next
    case 3 then show ?thesis using s' pos ok(3) Cons.IH [OF ok(1) ks(1)] by (simp add: edit_key_def)
  next
    case 4 then show ?thesis using s' pos ok(3) ks(2) Cons.IH [OF put_key_ok [OF ok(1,2), of b "i_echo s @ [b]"] ks(1)] by (simp add: edit_key_def Let_def)
  qed
qed

text \<open>
  Reading a line. Whatever the input, the buffer is never left (once the first one was allocated). And keys that end with a
  newline give the line they edit: each 127 removes the byte before it, escape is ignored; the line is terminated, and exactly the keys that had an effect are echoed.
\<close>

theorem shell_line_editing:
  assumes "room 1024"
  shows "(\<exists>r. shellInput room junk es = Inr r) \<and>
    ((\<forall>n. room n) \<and> 0x0A \<notin> set ks \<longrightarrow>
     (\<exists>rest. shellInput room junk (map ReadByte (ks @ [0x0A])) =
       Inr (Line (fold edit_key ks [] @ 0x0A # 0 # rest) (echo_keys ks [] @ [0x0A]))))"
proof -
  let ?s = "\<lparr>i_buffer = fresh_bytes junk 0, i_length = 1024, i_pos = 0, i_echo = []\<rparr>"
  have ok: "input_ok [] ?s" by (simp add: input_ok_def)
  from input_safe [OF ok] input_reads [OF _ ok, of room ks junk] assms show ?thesis by (auto simp: shellInput_def)
qed

theorem shell_line_editing_witness:
  "\<exists>rest. shellInput (\<lambda>_. True) (\<lambda>_. []) (map ReadByte ([0x61, 0x62, 127, 0x63] @ [0x0A])) =
     Inr (Line ([0x61, 0x63] @ 0x0A # 0 # rest) [0x61, 0x62, 127, 0x63, 0x0A])"
  using shell_line_editing [of "\<lambda>_. True" "\<lambda>_. []" "[]" "[0x61, 0x62, 127, 0x63]"] by (simp add: edit_key_def)


section \<open>A pipeline from the keyboard\<close>

text \<open>The array for the commands of a pipeline, each one terminated by \<^verbatim>\<open>NULL\<close>.\<close>

definition terminated :: "'a list list \<Rightarrow> 'a option list" where
  "terminated cmds = concat (map (\<lambda>c. map Some c @ [None]) cmds)"

lemma terminated_simps [simp]: "terminated [] = []" "terminated (c # cs) = map Some c @ None # terminated cs"
  by (simp_all add: terminated_def)

lemma terminated_words: "Some w \<in> set (terminated cmds) \<longleftrightarrow> (\<exists>c\<in>set cmds. w \<in> set c)"
  by (induction cmds) auto

lemma arg_words_terminated [simp]: "arg_words (map Some c @ None # rest) = Inr c"
  by (induction c) simp_all

text \<open>What is done for the \<open>k\<close>-th command: it reads from the pipe of the one before it and writes to its own pipe; the first one reads the
  shell's input and the last one writes to the shell's output.\<close>

definition command_actions :: "system \<Rightarrow> nat list list \<Rightarrow> nat \<Rightarrow> action list" where
  "command_actions sys cmds k =
     (let out = (if Suc k = length cmds then 1 else s_pipe sys k); inp = (if k = 0 then 0 else s_pipe sys (k - 1)) in
      (if Suc k = length cmds then [] else [CreatePipe out]) @
      [Fork (s_pid sys k) (child inp out (cmds ! k)), Attach (s_event sys) (s_pid sys k) out, CloseHandle (s_pid sys k)])"

lemma spawn_pipeline:
  assumes "\<forall>c\<in>set cmds. c \<noteq> []" "\<forall>k. 0 \<le> sint (s_pid sys k)"
  shows "k \<le> length cmds \<Longrightarrow> length cmds - k < n \<Longrightarrow> (k < length cmds \<longrightarrow> inp = (if k = 0 then 0 else s_pipe sys (k - 1))) \<Longrightarrow>
    spawn_loop n sys k inp (terminated (drop k cmds) @ None # rest) =
      Inr (length cmds, concat (map (command_actions sys cmds) [k..<length cmds]))"
proof (induction n arbitrary: k inp)
  case 0 then show ?case by simp
next
  case (Suc n)
  show ?case
  proof (cases "k = length cmds")
    case True then show ?thesis by simp
  next
    case False
    then have k: "k < length cmds" using Suc.prems(1) by simp
    then obtain a words where c: "cmds ! k = a # words" using assms(1) by (metis neq_Nil_conv nth_mem)
    have d: "drop k cmds = (a # words) # drop (Suc k) cmds" using k c by (metis Cons_nth_drop_Suc)
    define out where "out = (if Suc k = length cmds then 1 else s_pipe sys k)"
    have hd: "terminated (drop (Suc k) cmds) @ None # rest \<noteq> []" "(hd (terminated (drop (Suc k) cmds) @ None # rest) = None) = (Suc k = length cmds)"
    proof -
      show "terminated (drop (Suc k) cmds) @ None # rest \<noteq> []" by simp
      show "(hd (terminated (drop (Suc k) cmds) @ None # rest) = None) = (Suc k = length cmds)"
      proof (cases "Suc k = length cmds")
        case False
        then have "Suc k < length cmds" using k by simp
        then obtain a' w' where "drop (Suc k) cmds = (a' # w') # drop (Suc (Suc k)) cmds" using assms(1) by (metis Cons_nth_drop_Suc neq_Nil_conv nth_mem)
        then show ?thesis using False by simp
      qed simp
    qed
    have IH: "spawn_loop n sys (Suc k) out (terminated (drop (Suc k) cmds) @ None # rest) =
        Inr (length cmds, concat (map (command_actions sys cmds) [Suc k..<length cmds]))"
      using Suc.IH [of "Suc k" out] Suc.prems k by (simp add: out_def)
    have pid: "\<not> sint (s_pid sys k) < 0" using assms(2) by (simp add: not_less)
    have up: "[k..<length cmds] = k # [Suc k..<length cmds]" using k by (simp add: upt_conv_Cons)
    have inp: "inp = (if k = 0 then 0 else s_pipe sys (k - 1))" using Suc.prems(3) k by simp
    show ?thesis
      unfolding up using pid IH hd c k by (cases "Suc k = length cmds") (auto simp: d command_actions_def [of sys cmds k] Let_def out_def inp simp del: upt_Suc)
  qed
qed

lemma run_pipeline:
  assumes "\<forall>c\<in>set cmds. c \<noteq> []" "\<forall>k. 0 \<le> sint (s_pid sys k)" "0 \<le> sint (s_event sys)"
  shows "shellRunCommand sys (terminated cmds @ None # rest) =
    Inr (concat (map (command_actions sys cmds) [0..<length cmds]) @ finish_command sys (length cmds))"
proof -
  have "length cmds \<le> length (terminated cmds)" by (induction cmds) simp_all
  then have "spawn_loop (length (terminated cmds @ None # rest)) sys 0 0 (terminated (drop 0 cmds) @ None # rest) =
      Inr (length cmds, concat (map (command_actions sys cmds) [0..<length cmds]))"
    by (intro spawn_pipeline [OF assms(1,2)]) simp_all
  then show ?thesis using assms(3) by (simp add: shellRunCommand_def not_less [symmetric] del: spawn_loop.simps)
qed

text \<open>The commands of a line: their words, separated by pipe operators.\<close>

definition pipeline_tokens :: "u8 list list list \<Rightarrow> token list" where
  "pipeline_tokens cmds = butlast (terminated cmds)"

lemma pipeline_terminated: "cmds \<noteq> [] \<Longrightarrow> pipeline_tokens cmds @ [None] = terminated cmds"
proof -
  assume "cmds \<noteq> []"
  then have "terminated cmds \<noteq> [] \<and> last (terminated cmds) = None" by (induction cmds rule: rev_induct) (simp_all add: terminated_def)
  then show ?thesis unfolding pipeline_tokens_def by (metis append_butlast_last_id)
qed

lemma word_pointers:
  assumes "map (map_option f) xs = map (map_option Some) (map Some c)"
  shows "\<exists>p. xs = map Some p \<and> map f p = map Some c"
  using assms
proof (induction c arbitrary: xs)
  case Nil then show ?case by simp
next
  case (Cons a c)
  then obtain x xs' where "xs = x # xs'" "map_option f x = Some (Some a)" "map (map_option f) xs' = map (map_option Some) (map Some c)"
    by (cases xs) simp_all
  moreover from this obtain p where "xs' = map Some p" "map f p = map Some c" using Cons.IH by blast
  moreover obtain k where "x = Some k" "f k = Some a" using calculation(2) by auto
  ultimately show ?case by (intro exI [of _ "k # p"]) simp
qed

lemma terminated_pointers:
  assumes "map (map_option f) args = map (map_option Some) (terminated cmds)"
  shows "\<exists>ptrs. args = terminated ptrs \<and> map (map f) ptrs = map (map Some) cmds"
  using assms
proof (induction cmds arbitrary: args)
  case Nil then show ?case by (intro exI [of _ "[]"]) simp
next
  case (Cons c cmds)
  then have "map (map_option f) args = map (map_option Some) (map Some c) @ None # map (map_option Some) (terminated cmds)" by simp
  from iffD1 [OF map_eq_append_conv this] obtain xs zs where xs: "args = xs @ zs" "map (map_option Some) (map Some c) = map (map_option f) xs"
      "None # map (map_option Some) (terminated cmds) = map (map_option f) zs"
    by (elim exE conjE)
  obtain ys where ys: "zs = None # ys" "map (map_option f) ys = map (map_option Some) (terminated cmds)" using xs(3) by (cases zs) auto
  obtain ptrs where ptrs: "ys = terminated ptrs" "map (map f) ptrs = map (map Some) cmds" using Cons.IH [OF ys(2)] by blast
  obtain p where p: "xs = map Some p" "map f p = map Some c" using word_pointers [OF xs(2) [symmetric]] by blast
  show ?case using xs(1) ys(1) ptrs p by (intro exI [of _ "p # ptrs"]) simp
qed

definition typable :: "u8 \<Rightarrow> bool" where
  "typable b \<longleftrightarrow> b \<notin> {0, 0x0A, 0x1B, 0x5C, 127}"

lemma edit_plain: "\<forall>b\<in>set ks. b \<noteq> 127 \<and> b \<noteq> 0x1B \<Longrightarrow> fold edit_key ks l = l @ ks \<and> echo_keys ks l = ks"
  by (induction ks arbitrary: l) (simp_all add: edit_key_def)


lemma two_nulls:
  assumes "n + 1 < length a"
  shows "a[n := x, n + 1 := y] = take n a @ x # y # drop (n + 2) a"
proof -
  have "drop (Suc n) a = a ! Suc n # drop (n + 2) a" using assms by (simp add: Cons_nth_drop_Suc)
  moreover have "a[n := x] = take n a @ x # drop (Suc n) a" using assms by (simp add: upd_conv_take_nth_drop)
  ultimately show ?thesis using assms by (simp add: list_update_append)
qed

lemma quoted_bytes: "b \<in> set (quote_token t) \<Longrightarrow> b \<in> {0x20, 0x22, 0x5C, 0x7C} \<or> (\<exists>w. t = Some w \<and> b \<in> set w)"
  by (cases t) (auto simp: escape_quotes_def split: if_splits)

lemma typed_pipeline:
  assumes "cmds \<noteq> []" "\<forall>c\<in>set cmds. c \<noteq> [] \<and> (\<forall>w\<in>set c. \<forall>b\<in>set w. typable b)"
  shows "\<forall>b\<in>set (concat (map quote_token (pipeline_tokens cmds))). b \<noteq> 0 \<and> b \<noteq> 0x0A \<and> b \<noteq> 127 \<and> b \<noteq> 0x1B"
    and "\<And>w. Some w \<in> set (pipeline_tokens cmds) \<Longrightarrow> 0x5C \<notin> set w"
    and "pipeline_tokens cmds \<noteq> []" "\<exists>w. hd (pipeline_tokens cmds) = Some w"
proof -
  have sub: "set (pipeline_tokens cmds) \<subseteq> set (terminated cmds)" unfolding pipeline_tokens_def by (auto dest: in_set_butlastD)
  have words: "\<forall>b\<in>set w. typable b" if "Some w \<in> set (pipeline_tokens cmds)" for w
    using that sub assms(2) terminated_words [of w cmds] by blast
  have "b \<noteq> 0 \<and> b \<noteq> 0x0A \<and> b \<noteq> 127 \<and> b \<noteq> 0x1B" if "t \<in> set (pipeline_tokens cmds)" "b \<in> set (quote_token t)" for t b
    using quoted_bytes [OF that(2)] words that(1) by (auto simp: typable_def)
  then show "\<forall>b\<in>set (concat (map quote_token (pipeline_tokens cmds))). b \<noteq> 0 \<and> b \<noteq> 0x0A \<and> b \<noteq> 127 \<and> b \<noteq> 0x1B" by auto
  show "0x5C \<notin> set w" if "Some w \<in> set (pipeline_tokens cmds)" for w using words [OF that] by (auto simp: typable_def)
  obtain w ws cs where c: "cmds = (w # ws) # cs" using assms by (cases cmds; cases "hd cmds") auto
  show "pipeline_tokens cmds \<noteq> []" "\<exists>w. hd (pipeline_tokens cmds) = Some w" by (auto simp: pipeline_tokens_def c)
qed


definition example_system :: system where
  "example_system = \<lparr>s_event = 4, s_pipe = (\<lambda>_. 5), s_pid = (\<lambda>k. if k = 0 then 6 else 7), s_wait = (\<lambda>_. 1), s_status = (\<lambda>_. 0)\<rparr>"


end
