(* ===== verification/Failure.thy ===== *)
theory Failure
  imports Util Objects
begin

text \<open>
  The failure screen (\<^verbatim>\<open>consoleSystemFailure\<close> in \<^verbatim>\<open>console/console.c\<close>) and the functions behind the macros \<^verbatim>\<open>assert\<close> and
  \<^verbatim>\<open>NOTIMPLEMENTED\<close> (\<^verbatim>\<open>util/util.c\<close>). In the rest of the development a failure is an error value; here the screen that it
  leaves is modelled. The array of lines is the list of its strings, with their terminators, and \<^verbatim>\<open>debugHalt\<close> at the end is the result.
\<close>

section \<open>Drawing the screen\<close>

definition COLOR_WHITE :: u8 where "COLOR_WHITE = 15"
definition COLOR_LIGHT_BLUE :: u8 where "COLOR_LIGHT_BLUE = 9"

definition NEWLINES :: "u8 list" where "NEWLINES = [0x0A, 0x0A, 0]"

primrec write_strings :: "u8 list list \<Rightarrow> console \<Rightarrow> console kres" where
  "write_strings [] c = Inr c"
| "write_strings (l # ls) c = kbind (consoleWriteString l c) (write_strings ls)"

definition write_title :: "u8 list \<Rightarrow> console \<Rightarrow> console kres" where
  "write_title l c =
     kbind (stringLength (Some l)) (\<lambda>len.
     let c = fst (consoleSetCursorPos (if len < 80 then ucast ((80 - len) div 2) else 0) 2 c) in
     kbind (consoleWriteString l (consoleSetColor (MAKE_COLOR COLOR_LIGHT_BLUE COLOR_WHITE) c)) (\<lambda>c.
     consoleWriteString NEWLINES (consoleSetColor (MAKE_COLOR COLOR_WHITE COLOR_LIGHT_BLUE) c)))"

definition write_lines :: "u8 list list option \<Rightarrow> console \<Rightarrow> console kres" where
  "write_lines lines c = (case lines of
     None \<Rightarrow> Inr c
   | Some ls \<Rightarrow> kbind (case ls of [] \<Rightarrow> Inr c | l # ls \<Rightarrow> kbind (write_title l c) (write_strings ls)) (consoleWriteString NEWLINES))"

primrec write_arguments :: "u32 \<Rightarrow> u32 list \<Rightarrow> console \<Rightarrow> console kres" where
  "write_arguments i [] c = Inr c"
| "write_arguments i (a # as) c =
     kbind (consoleWriteString (cstr ''  Exception argument '') c) (\<lambda>c.
     kbind (consoleWriteInt32 i c) (\<lambda>c.
     kbind (consoleWriteString (cstr '': '') c) (\<lambda>c.
     kbind (consoleWriteHex32 a c) (\<lambda>c.
     kbind (consoleWriteString [0x0A, 0] c) (write_arguments (i + 1) as)))))"

text \<open>A list of labels with the values behind them.\<close>

primrec write_values :: "(u8 list \<times> u32) list \<Rightarrow> console \<Rightarrow> console kres" where
  "write_values [] c = Inr c"
| "write_values (x # xs) c = kbind (consoleWriteString (fst x) c) (\<lambda>c. kbind (consoleWriteHex32 (snd x) c) (write_values xs))"

definition label :: "bool \<Rightarrow> string \<Rightarrow> u8 list" where
  "label line s = (if line then [0x0A] else []) @ cstr s"

definition registers :: "taskContext \<Rightarrow> (u8 list \<times> u32) list" where
  "registers t =
     [(label False ''    cr3 = '', t_cr3 t), (label False '', eip = '', eip t), (label False '', efl = '', eflags t),
      (label True ''    eax = '', eax t), (label False '', ecx = '', ecx t), (label False '', edx = '', edx t), (label False '', ebx = '', ebx t),
      (label True ''    esp = '', esp t), (label False '', ebp = '', ebp t), (label False '', esi = '', esi t), (label False '', edi = '', edi t)]"

definition segments :: "taskContext \<Rightarrow> (u8 list \<times> u32) list" where
  "segments t =
     [(label False ''    es  = '', ucast (seg_es t)), (label False '', cs  = '', ucast (seg_cs t)), (label False '', ss  = '', ucast (seg_ss t)),
      (label True ''    ds  = '', ucast (seg_ds t)), (label False '', fs  = '', ucast (seg_fs t)), (label False '', gs  = '', ucast (seg_gs t))]"

definition write_context :: "taskContext option \<Rightarrow> console \<Rightarrow> console kres" where
  "write_context ctx c = (case ctx of
     None \<Rightarrow> Inr c
   | Some t \<Rightarrow>
       kbind (consoleWriteString (map of_char ''  Registers:'' @ [0x0A, 0]) c) (\<lambda>c.
       kbind (write_values (registers t) c) (\<lambda>c.
       kbind (consoleWriteString NEWLINES c) (\<lambda>c.
       kbind (consoleWriteString (map of_char ''  Segments:'' @ [0x0A, 0]) c) (\<lambda>c.
       kbind (write_values (segments t) c) (consoleWriteString NEWLINES))))))"

definition consoleSystemFailure :: "u8 list list option \<Rightarrow> u32 list option \<Rightarrow> taskContext option \<Rightarrow> console \<Rightarrow> console kres" where
  "consoleSystemFailure lines args ctx c =
     (let c = consoleSetColor (MAKE_COLOR COLOR_WHITE COLOR_LIGHT_BLUE) (consoleSetFlags (CONFLAGS_HWCURSOR OR CONFLAGS_HWCURSOR_AUTO) c) in
      kbind (consoleClear c) (\<lambda>c.
      kbind (write_lines lines c) (\<lambda>c.
      kbind (case args of None \<Rightarrow> Inr c | Some as \<Rightarrow>
               if as = [] then Inr c else kbind (write_arguments 0 as c) (consoleWriteString [0x0A, 0])) (\<lambda>c.
      write_context ctx c))))"

definition debugAssertFailed :: "u8 list \<Rightarrow> u8 list \<Rightarrow> u8 list \<Rightarrow> u8 list \<Rightarrow> taskContext \<Rightarrow> console \<Rightarrow> console kres" where
  "debugAssertFailed assertion fname func line ctx =
     consoleSystemFailure (Some [cstr '' ASSERTION FAILED '', cstr ''  Assertion: '', assertion, label True ''  File:      '', fname,
       label True ''  Function:  '', func, label True ''  Line:      '', line]) None (Some ctx)"

definition debugNotImplemented :: "u8 list \<Rightarrow> u8 list \<Rightarrow> u8 list \<Rightarrow> taskContext \<Rightarrow> console \<Rightarrow> console kres" where
  "debugNotImplemented fname func line ctx =
     consoleSystemFailure (Some [cstr '' NOT IMPLEMENTED '', cstr ''  Unimplemented code section reached.'', [0x0A, 0],
       label True ''  File:      '', fname, label True ''  Function:  '', func, label True ''  Line:      '', line]) None (Some ctx)"

section \<open>What is drawn\<close>

text \<open>A device with an invariant, whose operations are seen through a view.\<close>

locale viewed_device =
  fixes ok :: "'d \<Rightarrow> bool" and seen :: "'d \<Rightarrow> 't" and op :: "'o \<Rightarrow> 'd \<Rightarrow> 'd kres" and op_seen :: "'o \<Rightarrow> 't \<Rightarrow> 't"
  assumes op_view: "ok c \<Longrightarrow> \<exists>c'. op x c = Inr c' \<and> ok c' \<and> seen c' = op_seen x (seen c)"
begin

text \<open>The program \<open>f\<close> always returns, and is seen as the operations \<open>xs\<close>.\<close>

definition draws :: "('d \<Rightarrow> 'd kres) \<Rightarrow> 'o list \<Rightarrow> bool" where
  "draws f xs \<longleftrightarrow> (\<forall>c. ok c \<longrightarrow> (\<exists>c'. f c = Inr c' \<and> ok c' \<and> seen c' = fold op_seen xs (seen c)))"

lemma draws_op: "draws (op x) [x]"
  using op_view by (simp add: draws_def)

lemma draws_skip: "draws Inr []"
  by (simp add: draws_def)

lemma draws_bind: "draws f xs \<Longrightarrow> draws g ys \<Longrightarrow> draws (\<lambda>c. kbind (f c) g) (xs @ ys)"
  unfolding draws_def by fastforce

lemma draws_run: "draws f xs \<Longrightarrow> ok c \<Longrightarrow> \<exists>c'. f c = Inr c' \<and> ok c' \<and> seen c' = fold op_seen xs (seen c)"
  by (simp add: draws_def)

end

interpretation screen: viewed_device console_ok view console_do term_do
  by unfold_locales (rule console_do_view)

text \<open>The operations without results are programs, too.\<close>

lemma draws_after:
  assumes "screen.draws f xs" "\<And>c. console_do x c = Inr (h c)"
  shows "screen.draws (\<lambda>c. f (h c)) (x # xs)"
  using screen.draws_bind [OF screen.draws_op [of x] assms(1)] by (simp add: assms(2))

lemma draws_string: "0 \<notin> set s \<Longrightarrow> screen.draws (consoleWriteString (s @ [0])) (map PutChar s)"
proof -
  assume "0 \<notin> set s"
  moreover have "fold term_do (map PutChar s) t = fold term_put s t" for t by (induction s arbitrary: t) simp_all
  ultimately show ?thesis using consoleWriteString_view unfolding screen.draws_def by simp
qed

definition put_text :: "string \<Rightarrow> consoleOp list" where
  "put_text s = map PutChar (map of_char s)"

lemma draws_literal: "0 \<notin> set (map of_char s :: u8 list) \<Longrightarrow> screen.draws (consoleWriteString (cstr s)) (put_text s)"
  unfolding cstr_def put_text_def by (rule draws_string)


text \<open>The digits of a number.\<close>

fun dec_digits :: "nat \<Rightarrow> u8 list" where
  "dec_digits n = (if n < 10 then [of_nat (48 + n)] else dec_digits (n div 10) @ [of_nat (48 + n mod 10)])"

declare dec_digits.simps [simp del]

lemma int_digits_dec:
  assumes "unat v < 10 ^ n" "0 < n"
  shows "int_digits n v buf = Inr (dec_digits (unat v) @ buf)"
  using assms
proof (induction n arbitrary: v buf)
  case (Suc n)
  let ?d = "0x30 + ucast (v mod 10) :: u8"
  have "?d = of_nat (unat ?d)" by simp
  then have d: "?d = of_nat (48 + unat v mod 10)" by (simp only: digit_code)
  have div: "unat (v div 10) = unat v div 10" by (simp add: unat_div_distrib)
  show ?case
  proof (cases "v div 10 = 0")
    case True
    then have "unat v < 10" using div by (simp add: div_eq_0_iff)
    then show ?thesis using True d by (simp add: dec_digits.simps [of "unat v"])
  next
    case False
    then have "\<not> unat v < 10" using div by (metis div_less unat_eq_0)
    moreover have less: "unat (v div 10) < 10 ^ n" using Suc.prems(1) div by (simp add: less_mult_imp_div_less mult.commute)
    moreover have "0 < n" using less False by (cases n) (simp_all add: unat_eq_0)
    ultimately show ?thesis using Suc.IH [of "v div 10" "?d # buf"] False d div by (simp add: dec_digits.simps [of "unat v"] Let_def)
  qed
qed simp

definition hex_text :: "u32 \<Rightarrow> u8 list" where
  "hex_text v = [0x30, 0x78] @ map (\<lambda>i. hexTable ! (unat v div 16 ^ i mod 16)) [7, 6, 5, 4, 3, 2, 1, 0]"

lemma hex_digits_text: "hex_digits n (v :: u32) buf = map (\<lambda>i. hexTable ! (unat v div 16 ^ i mod 16)) (rev [0..<n]) @ buf"
proof (induction n arbitrary: v buf)
  case (Suc n)
  have low: "unat (v AND 0xF) = unat v mod 16" using unat_and_mask [of v 4] by (simp add: mask_eq_exp_minus_1)
  have high: "unat (drop_bit 4 v) = unat v div 16" using unat_drop_bit_word [of 4 v] by simp
  have "map (\<lambda>i. hexTable ! (unat v div 16 ^ i mod 16)) (rev [0..<Suc n]) =
      map (\<lambda>i. hexTable ! (unat v div 16 ^ Suc i mod 16)) (rev [0..<n]) @ [hexTable ! (unat v mod 16)]"
    by (simp add: upt_conv_Cons map_Suc_upt [symmetric] rev_map comp_def del: upt_Suc)
  then show ?case using Suc.IH [of "drop_bit 4 v" "hexTable ! (unat v mod 16) # buf"] low high by (simp add: div_mult2_eq del: upt_Suc)
qed simp

lemma draws_string_len: "length s = n \<Longrightarrow> screen.draws (consoleWriteStringLen n s) (map PutChar s)"
proof (induction n arbitrary: s)
  case 0 then show ?case using screen.draws_skip by (simp add: screen.draws_def)
next
  case (Suc n)
  then obtain b bs where s: "s = b # bs" "length bs = n" by (cases s) auto
  from screen.draws_bind [OF screen.draws_op [of "PutChar b"] Suc.IH [OF s(2)]] show ?case by (simp add: s(1) screen.draws_def)
qed

lemma draws_hex: "screen.draws (consoleWriteHex32 v) (map PutChar (hex_text v))"
proof -
  have "[7, 6, 5, 4, 3, 2, 1, 0] = rev [0..<8]" by (simp add: upt_rec numeral_eq_Suc)
  then have "hex_text v = [0x30, 0x78] @ hex_digits 8 v []" by (simp add: hex_text_def hex_digits_text)
  moreover have "length (hex_digits 8 v []) = 8" by (simp add: hex_digits_text)
  moreover have "screen.draws (consoleWriteString (cstr ''0x'')) (map PutChar [0x30, 0x78])" using draws_literal [of "''0x''"] by (simp add: put_text_def)
  ultimately show ?thesis using screen.draws_bind draws_string_len unfolding consoleWriteHex32_def [abs_def] by (metis map_append)
qed

lemma draws_int: "screen.draws (consoleWriteInt32 v) (map PutChar (dec_digits (unat v)))"
proof -
  have "unat v < 10 ^ 11" using unat_u32 [of v] by simp
  then have "int_digits 11 v [0] = Inr (dec_digits (unat v) @ [0])" using int_digits_dec by simp
  moreover have "0 \<notin> set (dec_digits n)" for n
  proof (induction n rule: dec_digits.induct)
    case (1 n)
    have "48 + n mod 10 < (256 :: nat)" by presburger
    then have "48 + n mod 10 < 2 ^ LENGTH(8)" by simp
    then have "unat (of_nat (48 + n mod 10) :: u8) = 48 + n mod 10" by (rule unat_word_of_nat_small)
    then have "(of_nat (48 + n mod 10) :: u8) \<noteq> 0" by (metis add_is_0 unsigned_0 zero_neq_numeral)
    then show ?case using 1 by (cases "n < 10") (simp_all add: dec_digits.simps [of n] del: of_nat_add)
  qed
  ultimately show ?thesis using draws_string [of "dec_digits (unat v)"] by (simp add: screen.draws_def consoleWriteInt32_def)
qed


text \<open>The text of the screen, given the strings without their terminators.\<close>

definition put_bytes_of :: "u8 list \<Rightarrow> consoleOp list" where
  "put_bytes_of s = map PutChar s"

definition title_ops :: "u8 list \<Rightarrow> consoleOp list" where
  "title_ops s =
     [SetCursor (if (of_nat (length s) :: u32) < 80 then ucast ((80 - of_nat (length s) :: u32) div 2) else 0) 2,
      SetColor (MAKE_COLOR COLOR_LIGHT_BLUE COLOR_WHITE)] @ put_bytes_of s @ [SetColor (MAKE_COLOR COLOR_WHITE COLOR_LIGHT_BLUE)] @
     put_bytes_of [0x0A, 0x0A]"

definition lines_ops :: "u8 list list option \<Rightarrow> consoleOp list" where
  "lines_ops lines = (case lines of None \<Rightarrow> []
     | Some ls \<Rightarrow> (case ls of [] \<Rightarrow> [] | l # ls \<Rightarrow> title_ops l @ concat (map put_bytes_of ls)) @ put_bytes_of [0x0A, 0x0A])"

primrec argument_ops :: "u32 \<Rightarrow> u32 list \<Rightarrow> consoleOp list" where
  "argument_ops i [] = []"
| "argument_ops i (a # as) =
     put_text ''  Exception argument '' @ put_bytes_of (dec_digits (unat i)) @ put_text '': '' @ put_bytes_of (hex_text a) @ put_bytes_of [0x0A] @
     argument_ops (i + 1) as"

definition value_ops :: "(u8 list \<times> u32) list \<Rightarrow> consoleOp list" where
  "value_ops xs = concat (map (\<lambda>(l, v). put_bytes_of (butlast l) @ put_bytes_of (hex_text v)) xs)"

definition context_ops :: "taskContext option \<Rightarrow> consoleOp list" where
  "context_ops ctx = (case ctx of None \<Rightarrow> []
     | Some t \<Rightarrow> put_text ''  Registers:'' @ put_bytes_of [0x0A] @ value_ops (registers t) @ put_bytes_of [0x0A, 0x0A] @
         put_text ''  Segments:'' @ put_bytes_of [0x0A] @ value_ops (segments t) @ put_bytes_of [0x0A, 0x0A])"

definition failure_ops :: "u8 list list option \<Rightarrow> u32 list option \<Rightarrow> taskContext option \<Rightarrow> consoleOp list" where
  "failure_ops lines args ctx =
     [SetFlags (CONFLAGS_HWCURSOR OR CONFLAGS_HWCURSOR_AUTO), SetColor (MAKE_COLOR COLOR_WHITE COLOR_LIGHT_BLUE), Clear] @
     lines_ops lines @
     (case args of None \<Rightarrow> [] | Some as \<Rightarrow> if as = [] then [] else argument_ops 0 as @ put_bytes_of [0x0A]) @
     context_ops ctx"

named_theorems draws \<open>what the parts of the screen draw\<close>

lemmas [draws] = screen.draws_bind screen.draws_skip draws_hex [folded put_bytes_of_def] draws_int [folded put_bytes_of_def] draws_literal

lemma draws_bytes [draws]: "0 \<notin> set s \<Longrightarrow> screen.draws (consoleWriteString (s @ [0])) (put_bytes_of s)"
  unfolding put_bytes_of_def by (rule draws_string)

lemma draws_newlines [draws]:
  "screen.draws (consoleWriteString NEWLINES) (put_bytes_of [0x0A, 0x0A])" "screen.draws (consoleWriteString [0x0A, 0]) (put_bytes_of [0x0A])"
  using draws_bytes [of "[0x0A, 0x0A]"] draws_bytes [of "[0x0A]"] by (simp_all add: NEWLINES_def)

lemma draws_strings [draws]:
  "\<forall>l\<in>set ls. 0 \<notin> set l \<Longrightarrow> screen.draws (write_strings (map (\<lambda>l. l @ [0]) ls)) (concat (map put_bytes_of ls))"
proof (induction ls)
  case Nil then show ?case using screen.draws_skip by (simp add: screen.draws_def)
next
  case (Cons l ls)
  from screen.draws_bind [OF draws_bytes [of l] Cons.IH] Cons.prems show ?case by (simp add: screen.draws_def)
qed

lemma draws_title [draws]:
  assumes "0 \<notin> set l"
  shows "screen.draws (write_title (l @ [0])) (title_ops l)"
proof -
  have "stringLength (Some (l @ [0])) = Inr (of_nat (length l))" using stringLength_loop_nul [OF assms, of "[]" 0] by (simp add: stringLength_def)
  moreover have "screen.draws (\<lambda>c. consoleWriteString NEWLINES (consoleSetColor k c)) (SetColor k # put_bytes_of [0x0A, 0x0A])" for k
    by (rule draws_after [OF draws_newlines(1)]) simp
  note tail = screen.draws_bind [OF draws_bytes [OF assms] this]
  have "screen.draws (\<lambda>c. kbind (consoleWriteString (l @ [0]) (consoleSetColor k (fst (consoleSetCursorPos x 2 c))))
      (\<lambda>c. consoleWriteString NEWLINES (consoleSetColor k' c))) (SetCursor x 2 # SetColor k # put_bytes_of l @ SetColor k' # put_bytes_of [0x0A, 0x0A])" for k k' x
    by (rule draws_after [where h = "\<lambda>c. fst (consoleSetCursorPos x 2 c)", OF draws_after [where h = "consoleSetColor k", OF tail]]) simp_all
  ultimately show ?thesis by (simp add: write_title_def [abs_def] title_ops_def Let_def)
qed

lemma draws_lines [draws]:
  assumes "\<forall>ls. lines = Some ls \<longrightarrow> (\<forall>l\<in>set ls. 0 \<notin> set l)"
  shows "screen.draws (write_lines (map_option (map (\<lambda>l. l @ [0])) lines)) (lines_ops lines)"
proof (cases lines)
  case None then show ?thesis using screen.draws_skip by (simp add: write_lines_def [abs_def] lines_ops_def)
next
  case (Some ls)
  show ?thesis
  proof (cases ls)
    case Nil then show ?thesis using Some draws_newlines(1) by (simp add: write_lines_def [abs_def] lines_ops_def)
  next
    case (Cons l ls')
    from screen.draws_bind [OF screen.draws_bind [OF draws_title [of l] draws_strings [of ls']] draws_newlines(1)] Cons Some assms show ?thesis
      by (simp add: write_lines_def [abs_def] lines_ops_def)
  qed
qed

lemma draws_arguments [draws]: "screen.draws (write_arguments i as) (argument_ops i as)"
proof (induction as arbitrary: i)
  case Nil then show ?case using screen.draws_skip by (simp add: screen.draws_def)
next
  case (Cons a as)
  have "0 \<notin> set (map of_char ''  Exception argument '' :: u8 list)" "0 \<notin> set (map of_char '': '' :: u8 list)" by simp_all
  then have "screen.draws (write_arguments i (a # as)) (put_text ''  Exception argument '' @ put_bytes_of (dec_digits (unat i)) @ put_text '': '' @
      put_bytes_of (hex_text a) @ put_bytes_of [0x0A] @ argument_ops (i + 1) as)"
    unfolding write_arguments.simps [abs_def] by (intro draws Cons.IH)
  then show ?case by (simp only: argument_ops.simps)
qed

lemma draws_values [draws]: "\<forall>x\<in>set xs. \<exists>s. fst x = s @ [0] \<and> 0 \<notin> set s \<Longrightarrow> screen.draws (write_values xs) (value_ops xs)"
proof (induction xs)
  case Nil then show ?case using screen.draws_skip by (simp add: screen.draws_def value_ops_def)
next
  case (Cons x xs)
  then obtain s where s: "fst x = s @ [0]" "0 \<notin> set s" by auto
  have "value_ops (x # xs) = put_bytes_of s @ put_bytes_of (hex_text (snd x)) @ value_ops xs" using s(1) by (simp add: value_ops_def case_prod_beta)
  moreover have "screen.draws (write_values xs) (value_ops xs)" using Cons by simp
  note screen.draws_bind [OF draws_bytes [OF s(2)] screen.draws_bind [OF draws_hex [folded put_bytes_of_def, of "snd x"] this]]
  ultimately show ?case using s(1) by (simp add: screen.draws_def)
qed

lemma labels_ok: "\<forall>x\<in>set (registers t). \<exists>s. fst x = s @ [0] \<and> 0 \<notin> set s" "\<forall>x\<in>set (segments t). \<exists>s. fst x = s @ [0] \<and> 0 \<notin> set s"
  by (simp_all add: registers_def segments_def label_def cstr_def)

lemma draws_context [draws]: "screen.draws (write_context ctx) (context_ops ctx)"
proof (cases ctx)
  case None then show ?thesis using screen.draws_skip by (simp add: write_context_def [abs_def] context_ops_def)
next
  case (Some t)
  have "screen.draws (consoleWriteString (map of_char ''  Registers:'' @ [0x0A, 0])) (put_bytes_of (map of_char ''  Registers:'' @ [0x0A]))"
      "screen.draws (consoleWriteString (map of_char ''  Segments:'' @ [0x0A, 0])) (put_bytes_of (map of_char ''  Segments:'' @ [0x0A]))"
    using draws_bytes [of "map of_char ''  Registers:'' @ [0x0A]"] draws_bytes [of "map of_char ''  Segments:'' @ [0x0A]"] by simp_all
  then have "screen.draws (write_context ctx) (put_bytes_of (map of_char ''  Registers:'' @ [0x0A]) @ value_ops (registers t) @ put_bytes_of [0x0A, 0x0A] @
      put_bytes_of (map of_char ''  Segments:'' @ [0x0A]) @ value_ops (segments t) @ put_bytes_of [0x0A, 0x0A])"
    unfolding write_context_def [abs_def] Some option.case by (intro draws labels_ok)
  then show ?thesis by (simp add: context_ops_def Some put_text_def put_bytes_of_def)
qed

lemma draws_failure:
  assumes "\<forall>ls. lines = Some ls \<longrightarrow> (\<forall>l\<in>set ls. 0 \<notin> set l)"
  shows "screen.draws (consoleSystemFailure (map_option (map (\<lambda>l. l @ [0])) lines) args ctx) (failure_ops lines args ctx)"
proof -
  let ?f = "\<lambda>c. case args of None \<Rightarrow> Inr c | Some as \<Rightarrow> if as = [] then Inr c else kbind (write_arguments 0 as c) (consoleWriteString [0x0A, 0])"
  let ?xs = "case args of None \<Rightarrow> [] | Some as \<Rightarrow> if as = [] then [] else argument_ops 0 as @ put_bytes_of [0x0A]"
  have "screen.draws ?f ?xs"
  proof (cases args)
    case (Some as)
    then show ?thesis using screen.draws_skip screen.draws_bind [OF draws_arguments [of 0 as] draws_newlines(2)] by (cases "as = []") simp_all
  qed (use screen.draws_skip in simp)
  from screen.draws_bind [OF screen.draws_op [of Clear] screen.draws_bind [OF draws_lines [OF assms] screen.draws_bind [OF this draws_context [of ctx]]]]
  have body: "screen.draws (\<lambda>c. kbind (consoleClear c) (\<lambda>c. kbind (write_lines (map_option (map (\<lambda>l. l @ [0])) lines) c) (\<lambda>c.
      kbind (?f c) (write_context ctx)))) (Clear # lines_ops lines @ ?xs @ context_ops ctx)"
    by simp
  have "screen.draws (\<lambda>c. (\<lambda>c. kbind (consoleClear c) (\<lambda>c. kbind (write_lines (map_option (map (\<lambda>l. l @ [0])) lines) c) (\<lambda>c.
      kbind (?f c) (write_context ctx)))) (consoleSetColor k (consoleSetFlags f c))) (SetFlags f # SetColor k # Clear # lines_ops lines @ ?xs @ context_ops ctx)" for k f
    by (rule draws_after [where h = "consoleSetFlags f", OF draws_after [where h = "consoleSetColor k", OF body]]) simp_all
  then show ?thesis unfolding consoleSystemFailure_def [abs_def] failure_ops_def Let_def by simp
qed



text \<open>The screens behind \<^verbatim>\<open>assert\<close> and \<^verbatim>\<open>NOTIMPLEMENTED\<close>.\<close>

lemma assert_screen_shown:
  assumes "console_ok c" "0 \<notin> set assertion" "0 \<notin> set fname" "0 \<notin> set func" "0 \<notin> set line"
  shows "\<exists>c'. debugAssertFailed (assertion @ [0]) (fname @ [0]) (func @ [0]) (line @ [0]) ctx c = Inr c' \<and> console_ok c'"
proof -
  let ?lines = "[map of_char '' ASSERTION FAILED '', map of_char ''  Assertion: '', assertion, 0x0A # map of_char ''  File:      '', fname,
    0x0A # map of_char ''  Function:  '', func, 0x0A # map of_char ''  Line:      '', line] :: u8 list list"
  have "\<forall>ls. Some ?lines = Some ls \<longrightarrow> (\<forall>l\<in>set ls. 0 \<notin> set l)" using assms(2-5) by simp
  from screen.draws_run [OF draws_failure [OF this, of None "Some ctx"] assms(1)] show ?thesis
    by (auto simp: debugAssertFailed_def cstr_def label_def)
qed

end
