(* ===== verification/Kernel_Main.thy ===== *)
theory Kernel_Main
  imports Gdt Keyboard Elf
begin

text \<open>
  The start of the kernel (\<^verbatim>\<open>main.c\<close>): the order of the initialisations, the init process and its standard handles, and the scheduler.
  What the linker, the loader and the hardware provide (the place of the kernel, the contents of the two modules, the ports, the font, the
  addresses of the callbacks) is collected in the record \<open>platform\<close>.
\<close>

unbundle bit_operations_syntax

section \<open>Initialisation\<close>

definition fpuInit :: "u32 \<Rightarrow> u32" where
  "fpuInit cr0 =
     (let cr0 = cr0 AND NOT (push_bit 2 1); cr0 = cr0 OR push_bit 5 1; cr0 = cr0 OR push_bit 3 1 in cr0 OR push_bit 1 1)"

definition loadELFModule :: "nat \<Rightarrow> u8 list \<Rightarrow> u32 \<Rightarrow> kst \<Rightarrow> (kst \<times> addr) kres" where
  "loadELFModule n img len s =
     kbind (processCreate 0 s) (\<lambda>(s, p).
     if p = 0 then Inr (s, 0)
     else kbind (elfLoadBinary p img len s) (\<lambda>(s, loaded).
          kassert loaded (
          kbind (get_process p s) (\<lambda>x.
          kbind (threadCreate p 0 (entryPoint x) s) (\<lambda>(s, t).
          kbind (if t \<noteq> 0 then objRelease n t s else Inr s) (\<lambda>s.
          kbind (objRelease n p s) (\<lambda>s.
          Inr (s, if t \<noteq> 0 then p else 0))))))))"

text \<open>The standard handles of the init process.\<close>

definition connect_stdio :: "nat \<Rightarrow> addr \<Rightarrow> addr \<Rightarrow> addr \<Rightarrow> kst \<Rightarrow> kst kres" where
  "connect_stdio n p stdin stdout s =
     kbind (handleSet (objRelease n) p 0 stdin s) (\<lambda>(s, _).
     kbind (handleSet (objRelease n) p 1 stdout s) (\<lambda>(s, _).
     kbind (handleSet (objRelease n) p 2 stdout s) (\<lambda>(s, _). Inr s)))"

record platform =
  kernelBegin :: u32
  kernelSize :: u32
  moduleData :: "nat \<Rightarrow> u8 list"
  font :: "nat \<Rightarrow> nat \<Rightarrow> u8"
  ports :: port_reader
  bootCpu :: cpu
  dispatchAddress :: u32
  irqHandler :: interrupt_callback
  keyboardHandler :: irq_callback
  timerHandler :: irq_callback

record kernel =
  k_kst :: kst
  k_gdt :: gdt
  k_cr0 :: u32
  k_pic :: pic
  k_table :: interruptTable
  k_keyboard :: keyboard
  k_input :: "u8 list"

definition with_console :: "(console \<Rightarrow> console kres) \<Rightarrow> kernel \<Rightarrow> kernel kres" where
  "with_console f k = kbind (f (console (k_kst k))) (\<lambda>c. Inr (k\<lparr>k_kst := (k_kst k)\<lparr>console := c\<rparr>\<rparr>))"

definition with_kst :: "(kst \<Rightarrow> kst kres) \<Rightarrow> kernel \<Rightarrow> kernel kres" where
  "with_kst f k = kbind (f (k_kst k)) (\<lambda>s. Inr (k\<lparr>k_kst := s\<rparr>))"

text \<open>The checks of the boot information: two modules that are not empty.\<close>

definition modules_ok :: "multiboot_info \<Rightarrow> bool" where
  "modules_ok bootInfo \<longleftrightarrow> flags bootInfo AND 8 \<noteq> 0 \<and> mods_count bootInfo \<ge> 2 \<and>
     (\<forall>i\<in>{0, 1}. mod_start (mods bootInfo i) \<noteq> 0 \<and> mod_start (mods bootInfo i) < mod_end (mods bootInfo i))"

definition module_length :: "multiboot_info \<Rightarrow> nat \<Rightarrow> u32" where
  "module_length bootInfo i = mod_end (mods bootInfo i) - mod_start (mods bootInfo i)"

text \<open>Memory, descriptor tables and coprocessor.\<close>

definition init_machine :: "platform \<Rightarrow> multiboot_info \<Rightarrow> kernel \<Rightarrow> kernel kres" where
  "init_machine pf bootInfo k =
     kbind (with_kst (with_mem0 (physMemInit (kernelBegin pf) (kernelSize pf) bootInfo)) k) (\<lambda>k.
     kbind (with_kst (with_mem0 consoleInit) k) (\<lambda>k.
     kbind (with_console (\<lambda>c. Inr (consoleSetFont (font pf) c)) k) (\<lambda>k.
     kbind (with_kst (with_mem0 (physMemProtectBootEntry 0x9000 (of_nat PAGE_SIZE))) k) (\<lambda>k.
     kbind (with_kst (with_mem0 pagingInit) k) (\<lambda>k.
     kbind (gdtInit (bootCpu pf) (dispatchAddress pf) (k_gdt k, k_kst k)) (\<lambda>(g, s).
     Inr (k\<lparr>k_gdt := g, k_kst := s, k_cr0 := fpuInit (k_cr0 k)\<rparr>)))))))"

text \<open>The interrupt controller and the drivers; \<open>None\<close> when the keyboard controller never answers.\<close>

definition init_drivers :: "platform \<Rightarrow> addr \<Rightarrow> kernel \<Rightarrow> kernel option kres" where
  "init_drivers pf stdin k =
     kbind (picInit (irqHandler pf) 0x20 (k_table k) (console (k_kst k))) (\<lambda>(p, table, c).
     kbind (keyboardInit (ports pf) (keyboardHandler pf) stdin (k_input k) (k_keyboard k) (p, c)) (\<lambda>r. case r of
       None \<Rightarrow> Inr None
     | Some (vs, kb, p, c) \<Rightarrow>
         kbind (timerInit (ports pf) (timerHandler pf) (p, c)) (\<lambda>(p, c).
         Inr (Some (k\<lparr>k_table := table, k_pic := p, k_keyboard := kb, k_input := vs, k_kst := (k_kst k)\<lparr>console := c\<rparr>\<rparr>)))))"

text \<open>Everything before the scheduler.\<close>

definition kernel_boot :: "nat \<Rightarrow> platform \<Rightarrow> multiboot_info \<Rightarrow> kernel \<Rightarrow> kernel option kres" where
  "kernel_boot n pf bootInfo k =
     kbind (with_console consoleClear k) (\<lambda>k.
     kassert (modules_ok bootInfo) (
     kbind (init_machine pf bootInfo k) (\<lambda>k.
     let (s, stdout) = stdoutCreate (k_kst k);
         (s, stdin) = pipeCreate s in
     kbind (init_drivers pf stdin (k\<lparr>k_kst := s\<rparr>)) (\<lambda>r. case r of
       None \<Rightarrow> Inr None
     | Some k \<Rightarrow>
         kbind (fileSystemInit (objRelease n) (moduleData pf 1) (module_length bootInfo 1) (k_kst k)) (\<lambda>s.
         kbind (loadELFModule n (moduleData pf 0) (module_length bootInfo 0) s) (\<lambda>(s, initProcess).
         kassert (initProcess \<noteq> 0) (
         kbind (connect_stdio n initProcess stdin stdout s) (\<lambda>s.
         Inr (Some (k\<lparr>k_kst := s\<rparr>))))))))))"

definition TERMINATED :: "u8 list" where
  "TERMINATED = [0x0A, 0x0A] @ map of_char ''The last process was terminated. You can now safely reboot your computer.'' @ [0x0A, 0]"

text \<open>\<^verbatim>\<open>kernel_main\<close>, with the processor in user mode and in the idle loop as parameters of the scheduler.\<close>

definition kernel_main ::
  "nat \<Rightarrow> platform \<Rightarrow> multiboot_info \<Rightarrow> runFun \<Rightarrow> (kst \<Rightarrow> kst kres) \<Rightarrow> kernel \<Rightarrow> kernel option kres" where
  "kernel_main n pf bootInfo usermode halted k =
     kbind (kernel_boot n pf bootInfo k) (\<lambda>r. case r of
       None \<Rightarrow> Inr None
     | Some k \<Rightarrow>
         kbind (with_kst (threadSchedule n usermode (objShutdown n) halted) k) (\<lambda>k.
         kbind (with_console (consoleWriteString TERMINATED) k) (\<lambda>k. Inr (Some k))))"

section \<open>The standard handles\<close>

lemma get_process_iff: "get_process p s = Inr x \<longleftrightarrow> p \<noteq> 0 \<and> objs s p = Some (Process x)"
  by (auto simp: get_process_def object_at_def kbind_eq_Inr split: if_splits option.splits kobj.splits)

text \<open>The table after the three calls.\<close>

definition stdio_table :: "addr list \<Rightarrow> handleTable" where
  "stdio_table hs = handleTableInit\<lparr>free_begin := of_nat (length hs), free_end := of_nat (length hs),
     handles := Some (hs @ replicate (256 - length hs) 0)\<rparr>"

lemma stdio_table_add:
  assumes "length hs < 3"
  shows "tbl_set (of_nat (length hs)) obj (stdio_table hs) = Inr (Some (stdio_table (hs @ [obj]), 0))"
proof -
  have n: "unat (of_nat (length hs) :: u32) = length hs" using assms by (simp add: unsigned_of_nat take_bit_nat_eq_self)
  have "256 - length hs = Suc (255 - length hs)" using assms by simp
  then have "replicate (256 - length hs) (0 :: addr) = 0 # replicate (255 - length hs) 0" by simp
  moreover have "\<not> (of_nat (length hs) :: u32) \<ge> MAX_HANDLES" "\<not> (of_nat (length hs) :: u32) \<ge> MIN_HANDLES"
    using assms n by (simp_all add: word_le_nat_alt MAX_HANDLES_def MIN_HANDLES_def)
  ultimately show ?thesis using n
    by (simp add: tbl_set_def tbl_store_def tbl_get_def tbl_put_def stdio_table_def handleTableInit_def add.commute nth_append list_update_append)
qed

lemma stdio_table_lookup:
  assumes "i < length hs" "length hs \<le> 3"
  shows "tbl_lookup (of_nat i) (stdio_table hs) = Inr (hs ! i)"
proof -
  have "unat (of_nat i :: u32) = i" "unat (of_nat (length hs) :: u32) = length hs" using assms by (simp_all add: unsigned_of_nat take_bit_nat_eq_self)
  then show ?thesis using assms by (simp add: tbl_lookup_def stdio_table_def tbl_get_def word_le_nat_alt nth_append)
qed

lemma stdio_table_empty: "stdio_table [] = handleTableInit"
  by (simp add: stdio_table_def handleTableInit_def MIN_HANDLES_def)

lemma handleSet_new:
  assumes "p \<noteq> 0" "objs s p = Some (Process (x\<lparr>pr_handles := stdio_table hs\<rparr>))" "length hs < 3" "obj \<noteq> 0" "objs s obj = Some y"
  shows "handleSet release p (of_nat (length hs)) obj s =
    Inr (s\<lparr>refcount := (refcount s)(obj := refcount s obj + 1), objs := (objs s)(p \<mapsto> Process (x\<lparr>pr_handles := stdio_table (hs @ [obj])\<rparr>))\<rparr>, True)"
  using assms stdio_table_add [OF assms(3), of obj]
  by (simp add: handleSet_def get_process_def object_at_def objectAddRef_def set_handles_def set_obj_def)

text \<open>
  The init process gets its standard handles. On the table of a new process the three calls at the end of the boot give it the
  keyboard's pipe as handle 0 and the console as handles 1 and 2, take exactly one reference of the pipe and two of the console, and
  change nothing else.
\<close>

theorem stdio_connected:
  assumes "get_process p s = Inr x" "pr_handles x = handleTableInit" and "objs s stdin = Some (Pipe y)" "objs s stdout = Some Stdout"
    and "stdin \<noteq> 0" "stdout \<noteq> 0"
  shows "\<exists>s'. connect_stdio n p stdin stdout s = Inr s' \<and>
    handleGet p 0 s' = Inr stdin \<and> handleGet p 1 s' = Inr stdout \<and> handleGet p 2 s' = Inr stdout \<and>
    refcount s' = (refcount s)(stdin := refcount s stdin + 1, stdout := refcount s stdout + 2) \<and>
    (\<forall>a. a \<noteq> p \<longrightarrow> objs s' a = objs s a) \<and> s\<lparr>refcount := refcount s', objs := objs s'\<rparr> = s'"
proof -
  have x: "x = x\<lparr>pr_handles := stdio_table []\<rparr>" using assms(2) by (simp add: stdio_table_empty)
  have p: "p \<noteq> 0" "objs s p = Some (Process (x\<lparr>pr_handles := stdio_table []\<rparr>))" using assms(1) x by (simp_all add: get_process_iff)
  have ne: "stdin \<noteq> p" "stdout \<noteq> p" "stdin \<noteq> stdout" using assms(3,4) p(2) by auto
  define s1 where "s1 = s\<lparr>refcount := (refcount s)(stdin := refcount s stdin + 1), objs := (objs s)(p \<mapsto> Process (x\<lparr>pr_handles := stdio_table [stdin]\<rparr>))\<rparr>"
  define s2 where "s2 = s1\<lparr>refcount := (refcount s1)(stdout := refcount s1 stdout + 1), objs := (objs s1)(p \<mapsto> Process (x\<lparr>pr_handles := stdio_table [stdin, stdout]\<rparr>))\<rparr>"
  define s3 where "s3 = s2\<lparr>refcount := (refcount s2)(stdout := refcount s2 stdout + 1), objs := (objs s2)(p \<mapsto> Process (x\<lparr>pr_handles := stdio_table [stdin, stdout, stdout]\<rparr>))\<rparr>"
  have "handleSet (objRelease n) p 0 stdin s = Inr (s1, True)" using handleSet_new [OF p _ assms(5,3)] by (simp add: s1_def)
  moreover have "handleSet (objRelease n) p 1 stdout s1 = Inr (s2, True)"
    using handleSet_new [where s = s1 and x = x and hs = "[stdin]" and obj = stdout and y = Stdout, of p "objRelease n"] p(1) assms(4,6) ne by (simp add: s1_def s2_def)
  moreover have "handleSet (objRelease n) p 2 stdout s2 = Inr (s3, True)"
    using handleSet_new [where s = s2 and x = x and hs = "[stdin, stdout]" and obj = stdout and y = Stdout, of p "objRelease n"] p(1) assms(4,6) ne by (simp add: s1_def s2_def s3_def)
  ultimately have "connect_stdio n p stdin stdout s = Inr s3" by (simp add: connect_stdio_def)
  moreover have "get_process p s3 = Inr (x\<lparr>pr_handles := stdio_table [stdin, stdout, stdout]\<rparr>)" using p(1) by (simp add: get_process_iff s3_def)
  then have "handleGet p 0 s3 = Inr stdin" "handleGet p 1 s3 = Inr stdout" "handleGet p 2 s3 = Inr stdout"
    using stdio_table_lookup [of 0 "[stdin, stdout, stdout]"] stdio_table_lookup [of 1 "[stdin, stdout, stdout]"]
      stdio_table_lookup [of 2 "[stdin, stdout, stdout]"] by (simp_all add: handleGet_def)
  ultimately show ?thesis using ne by (intro exI [of _ s3]) (auto simp: s1_def s2_def s3_def fun_upd_twist)
qed

definition example_pipe :: pipe where
  "example_pipe = \<lparr>buffer = Some [], psize = 0, writePos = 0, readPos = 0, writeable = True\<rparr>"

definition example_boot :: kst where
  "example_boot = initial_kst\<lparr>objs := [1 \<mapsto> Stdout, 2 \<mapsto> Pipe example_pipe, 3 \<mapsto> Process (blank_process\<lparr>pr_handles := handleTableInit\<rparr>)],
     refcount := (\<lambda>_. 0)(1 := 1, 2 := 1, 3 := 1)\<rparr>"

theorem stdio_connected_witness:
  "\<exists>s'. connect_stdio 5 3 2 1 example_boot = Inr s' \<and> handleGet 3 0 s' = Inr 2 \<and> handleGet 3 1 s' = Inr 1 \<and> refcount s' 1 = 3 \<and> refcount s' 2 = 2"
proof -
  have pre: "get_process 3 example_boot = Inr (blank_process\<lparr>pr_handles := handleTableInit\<rparr>)" "objs example_boot 2 = Some (Pipe example_pipe)"
      "objs example_boot 1 = Some Stdout" by (simp_all add: get_process_iff example_boot_def)
  obtain s' where "connect_stdio 5 3 2 1 example_boot = Inr s'" "handleGet 3 0 s' = Inr 2" "handleGet 3 1 s' = Inr 1"
      "refcount s' = (refcount example_boot)(2 := refcount example_boot 2 + 1, 1 := refcount example_boot 1 + 2)"
    using stdio_connected [OF pre(1) _ pre(2,3), of 5] by auto
  then show ?thesis by (simp add: example_boot_def)
qed

section \<open>The coprocessor bits\<close>

lemma fpuInit_bits: "bit (fpuInit cr0) i \<longleftrightarrow> i \<in> {1, 3, 5} \<or> i \<noteq> 2 \<and> bit cr0 i"
  by (auto simp: fpuInit_def Let_def bit_simps dest: bit_imp_le_length)

end
