(* ===== verification/Arguments.thy ===== *)
theory Arguments
  imports Shell UserMem
begin

text \<open>
  How a program hands its arguments to the next one. \<^verbatim>\<open>_execve_r\<close> (\<^verbatim>\<open>execve.c\<close> of the port of newlib) packs the strings into
  one block: a table of offsets that ends with 0, and the strings. The kernel copies the block into pages of the new address space and
  keeps only the number of pages, and \<^verbatim>\<open>__get_ibnos_argv\<close> (\<^verbatim>\<open>helper.c\<close>) turns the offsets into pointers, in place.
  Blocks are lists of bytes; a pointer of the new program is an address, and the block starts at its \<open>base\<close>. A string is the list of its
  bytes without the terminator.
\<close>

section \<open>Packing\<close>

definition load32 :: "nat \<Rightarrow> u8 list \<Rightarrow> u32 kres" where
  "load32 pos b = kbind (buf_read pos 4 b) (\<lambda>bs. Inr (le_word bs))"

definition store32 :: "nat \<Rightarrow> u32 \<Rightarrow> u8 list \<Rightarrow> u8 list kres" where
  "store32 pos w b = buf_write pos (dword_bytes w) b"

text \<open>\<^verbatim>\<open>for (argc = 0; argv && argv[argc]; argc++) buflen_argv += sizeof(uint32_t) + strlen(argv[argc]) + 1\<close>, in 32 bits.\<close>

primrec block_length :: "u8 list list \<Rightarrow> u32 \<Rightarrow> u32" where
  "block_length [] buflen = buflen"
| "block_length (s # ss) buflen = block_length ss (buflen + (4 + of_nat (length s) + 1))"

primrec pack_loop :: "u8 list list \<Rightarrow> nat \<Rightarrow> nat \<Rightarrow> u8 list \<Rightarrow> u8 list kres" where
  "pack_loop [] offsets cur buf = store32 offsets 0 buf"
| "pack_loop (s # ss) offsets cur buf =
     kbind (store32 offsets (of_nat cur) buf) (\<lambda>buf.
     kbind (buf_write cur (s @ [0]) buf) (\<lambda>buf.
     pack_loop ss (offsets + 4) (cur + (length s + 1)) buf))"

definition pack :: "u8 list list \<Rightarrow> u8 list \<Rightarrow> u8 list kres" where
  "pack ss buf = pack_loop ss 0 (4 * (length ss + 1)) buf"

text \<open>The system calls that \<^verbatim>\<open>_execve_r\<close> makes, and the result of the function with \<^verbatim>\<open>errno\<close>. What \<^verbatim>\<open>filesystemSearchFile\<close> and
  \<^verbatim>\<open>executeProgram\<close> return (the latter only if the program could not be started) and the buffers that the two calls of \<^verbatim>\<open>malloc\<close> yield
  are parameters. The program that is started begins where the list of calls has \<open>ExecuteProgram\<close>.\<close>

datatype execCall = ExecuteProgram u32 "u8 list" "u8 list" | CloseFile u32

definition ENOENT :: u32 where "ENOENT = 2"
definition ENOEXEC :: u32 where "ENOEXEC = 8"

definition execve_r ::
  "u32 \<Rightarrow> (u32 \<Rightarrow> u8 list option) \<Rightarrow> (u32 \<Rightarrow> u8 list option) \<Rightarrow> u32 \<Rightarrow> u8 list list option \<Rightarrow> u8 list list option \<Rightarrow> (execCall list \<times> u32 \<times> u32) kres" where
  "execve_r fileobj malloc1 malloc2 result argv envp =
     (if sint fileobj < 0 then Inr ([], ENOENT, - 1)
      else let args = (case argv of None \<Rightarrow> [] | Some ss \<Rightarrow> ss);
               envs = (case envp of None \<Rightarrow> [] | Some ss \<Rightarrow> ss) in
           kbind (case malloc1 (block_length args 4) of None \<Rightarrow> Inr ([], - 1) | Some buf_argv \<Rightarrow>
                  (case malloc2 (block_length envs 4) of None \<Rightarrow> Inr ([], - 1) | Some buf_envp \<Rightarrow>
                   kbind (pack args buf_argv) (\<lambda>buf_argv.
                   kbind (pack envs buf_envp) (\<lambda>buf_envp.
                   Inr ([ExecuteProgram fileobj buf_argv buf_envp], result))))) (\<lambda>(calls, ret).
           Inr (calls @ [CloseFile fileobj], if sint ret \<ge> 0 then 0 else ENOEXEC, ret)))"

section \<open>Unpacking\<close>

lemma kbind_fundef_cong [fundef_cong]:
  "m = m' \<Longrightarrow> (\<And>x. m' = Inr x \<Longrightarrow> f x = f' x) \<Longrightarrow> kbind m f = kbind m' f'"
  by (cases m') simp_all

lemma unat_minus_4: "\<not> (len :: u32) < 4 \<Longrightarrow> unat (len - 4) = unat len - 4"
  by (simp add: unat_sub_small not_less)

text \<open>The loop: the length counts the bytes from \<^verbatim>\<open>offset\<close> on.\<close>

function unpack_loop :: "u32 \<Rightarrow> u32 \<Rightarrow> nat \<Rightarrow> u8 list \<Rightarrow> u8 list kres" where
  "unpack_loop base buflen offset buf =
     (if buflen < 4 then Inr buf
      else kbind (load32 offset buf) (\<lambda>w.
           if w = 0 \<or> w \<ge> buflen \<or> buflen < 8 then store32 offset 0 buf
           else kbind (store32 offset (w + base) buf) (\<lambda>buf. unpack_loop base (buflen - 4) (offset + 4) buf)))"
  by auto
termination
  by (relation "measure (\<lambda>(_, buflen, _, _). unat buflen)") (auto simp: unat_minus_4 not_less word_le_nat_alt)

declare unpack_loop.simps [simp del]

text \<open>\<^verbatim>\<open>__get_ibnos_argv\<close> and \<^verbatim>\<open>__get_ibnos_envp\<close> have the same body, with an \<^verbatim>\<open>init\<close> flag of their own.\<close>

definition unpack_block :: "bool \<Rightarrow> u32 \<Rightarrow> u32 \<Rightarrow> u8 list \<Rightarrow> (bool \<times> u8 list \<times> u32) kres" where
  "unpack_block initialized base buflen buf =
     (if \<not> initialized \<and> base \<noteq> 0 \<and> buflen \<ge> 4
      then kbind (buf_write (unat (buflen - 1)) [0] buf) (\<lambda>buf.
           kbind (unpack_loop base buflen 0 buf) (\<lambda>buf. Inr (True, buf, base)))
      else Inr (initialized, buf, base))"

definition get_ibnos_argv :: "bool \<Rightarrow> u32 \<Rightarrow> u32 \<Rightarrow> u8 list \<Rightarrow> (bool \<times> u8 list \<times> u32) kres" where
  "get_ibnos_argv = unpack_block"

definition get_ibnos_envp :: "bool \<Rightarrow> u32 \<Rightarrow> u32 \<Rightarrow> u8 list \<Rightarrow> (bool \<times> u8 list \<times> u32) kres" where
  "get_ibnos_envp = unpack_block"

function count_args :: "nat \<Rightarrow> u8 list \<Rightarrow> nat kres" where
  "count_args argc buf = kbind (load32 (4 * argc) buf) (\<lambda>w. if w \<noteq> 0 then count_args (argc + 1) buf else Inr argc)"
  by auto
termination
  by (relation "measure (\<lambda>(argc, buf). length buf - 4 * argc)") (auto simp: load32_def buf_read_def split: if_splits)

declare count_args.simps [simp del]

definition get_ibnos_argc :: "bool \<Rightarrow> u32 \<Rightarrow> u32 \<Rightarrow> u8 list \<Rightarrow> (bool \<times> u8 list \<times> nat) kres" where
  "get_ibnos_argc initialized base buflen buf =
     kbind (get_ibnos_argv initialized base buflen buf) (\<lambda>(initialized, buf, argv).
     kbind (if argv \<noteq> 0 then count_args 0 buf else Inr 0) (\<lambda>argc. Inr (initialized, buf, argc)))"

section \<open>The packed block\<close>

primrec string_offsets :: "nat \<Rightarrow> u8 list list \<Rightarrow> u32 list" where
  "string_offsets cur [] = []"
| "string_offsets cur (s # ss) = of_nat cur # string_offsets (cur + (length s + 1)) ss"

definition strings :: "u8 list list \<Rightarrow> u8 list" where
  "strings ss = concat (map (\<lambda>s. s @ [0]) ss)"

definition dwords :: "u32 list \<Rightarrow> u8 list" where
  "dwords ws = concat (map dword_bytes ws)"

definition packed :: "u8 list list \<Rightarrow> u8 list" where
  "packed ss = dwords (string_offsets (4 * (length ss + 1)) ss @ [0]) @ strings ss"

lemma dwords_simps [simp]:
  "dwords [] = []" "dwords (w # ws) = dword_bytes w @ dwords ws" "dwords (ws @ vs) = dwords ws @ dwords vs"
  by (simp_all add: dwords_def)

lemma strings_simps [simp]: "strings [] = []" "strings (s # ss) = s @ 0 # strings ss" "strings (ss @ ts) = strings ss @ strings ts"
  by (simp_all add: strings_def)

lemma length_dwords [simp]: "length (dwords ws) = 4 * length ws"
  by (induction ws) simp_all

lemma length_string_offsets [simp]: "length (string_offsets cur ss) = length ss"
  by (induction ss arbitrary: cur) simp_all

lemma length_packed: "length (packed ss) = 4 * (length ss + 1) + length (strings ss)"
  by (simp add: packed_def)

lemma buf_write_middle:
  "length A = pos \<Longrightarrow> length D = length X \<Longrightarrow> buf_write pos D (A @ X @ R) = Inr (A @ D @ R)"
  by (simp add: buf_write_def)

lemma store32_middle: "length A = pos \<Longrightarrow> length X = 4 \<Longrightarrow> store32 pos w (A @ X @ R) = Inr (A @ dword_bytes w @ R)"
  by (simp add: store32_def buf_write_middle)

lemma load32_middle: "length A = pos \<Longrightarrow> load32 pos (A @ dword_bytes w @ R) = Inr w"
  by (simp add: load32_def buf_read_def le_word_dword_bytes)

lemma split_prefix: "n \<le> length X \<Longrightarrow> \<exists>Y Z. X = Y @ Z \<and> length Y = n"
  by (intro exI [of _ "take n X"] exI [of _ "drop n X"]) simp

lemma pack_loop_packs:
  assumes "length A = pos" "length X = 4 * (length ss + 1)" "cur = length (A @ X @ M)" "length Y = length (strings ss)"
  shows "pack_loop ss pos cur (A @ X @ M @ Y) = Inr (A @ dwords (string_offsets cur ss @ [0]) @ M @ strings ss)"
  using assms
proof (induction ss arbitrary: A X M Y pos cur)
  case Nil
  then show ?case using store32_middle [of A pos X 0 "M @ Y"] by simp
next
  case (Cons s ss)
  obtain X1 X2 where X: "X = X1 @ X2" "length X1 = 4" using split_prefix [of 4 X] Cons.prems(2) by auto
  obtain Y1 Y2 where Y: "Y = Y1 @ Y2" "length Y1 = length s + 1" using split_prefix [of "length s + 1" Y] Cons.prems(4) by auto
  let ?A = "A @ dword_bytes (of_nat cur)"
  have 1: "store32 pos (of_nat cur) (A @ X @ M @ Y) = Inr (?A @ X2 @ M @ Y)"
    using store32_middle [OF Cons.prems(1) X(2), of "of_nat cur" "X2 @ M @ Y"] X by simp
  have 2: "buf_write cur (s @ [0]) (?A @ X2 @ M @ Y) = Inr (?A @ X2 @ (M @ s @ [0]) @ Y2)"
    using buf_write_middle [of "?A @ X2 @ M" cur "s @ [0]" Y1 Y2] Y Cons.prems X by simp
  have 3: "pack_loop ss (pos + 4) (cur + (length s + 1)) (?A @ X2 @ (M @ s @ [0]) @ Y2) =
      Inr (?A @ dwords (string_offsets (cur + (length s + 1)) ss @ [0]) @ (M @ s @ [0]) @ strings ss)"
    using Cons.prems X Y by (intro Cons.IH) simp_all
  show ?case using 1 2 3 by simp
qed

lemma pack_packs: "length buf = length (packed ss) \<Longrightarrow> pack ss buf = Inr (packed ss)"
  using split_prefix [of "4 * (length ss + 1)" buf] pack_loop_packs [of "[]" 0 _ ss "4 * (length ss + 1)" "[]"]
  by (auto simp: pack_def length_packed packed_def)

lemma block_length_packed: "block_length ss n = n + of_nat (4 * length ss + length (strings ss))"
  by (induction ss arbitrary: n) (simp_all add: algebra_simps)

section \<open>What the new program sees\<close>

text \<open>The loop of \<^verbatim>\<open>helper.c\<close> compares each offset with the bytes that are left of the block, not with the length of the block.\<close>

primrec kept :: "nat \<Rightarrow> u32 list \<Rightarrow> u32 list" where
  "kept buflen [] = []"
| "kept buflen (w # ws) = (if unat w < buflen then w # kept (buflen - 4) ws else [])"

text \<open>The arguments that arrive: \<open>i\<close> counts them, \<open>off\<close> is the offset of the next one.\<close>

primrec received :: "nat \<Rightarrow> nat \<Rightarrow> nat \<Rightarrow> u8 list list \<Rightarrow> u8 list list" where
  "received len i off [] = []"
| "received len i off (s # ss) = (if off + 4 * i < len then s # received len (i + 1) (off + (length s + 1)) ss else [])"

lemma kept_prefix: "\<exists>n. kept buflen ws = take n ws"
proof (induction ws arbitrary: buflen)
  case (Cons w ws)
  then obtain n where "kept (buflen - 4) ws = take n ws" by blast
  then show ?case by (cases "unat w < buflen") (auto intro: exI [of _ "Suc n"] exI [of _ 0])
qed simp

lemma length_kept: "length (kept buflen ws) \<le> length ws"
  by (induction ws arbitrary: buflen) simp_all

lemma unpack_loop_keeps:
  assumes "length A = pos" "unat len = 4 * (length ws + 1) + length R" "0 \<notin> set ws"
  shows "unpack_loop base len pos (A @ dwords (ws @ [0]) @ R) =
    Inr (A @ dwords (map (\<lambda>w. w + base) (kept (unat len) ws) @ [0]) @ dwords (drop (length (kept (unat len) ws) + 1) (ws @ [0])) @ R)"
  using assms
proof (induction ws arbitrary: A pos len)
  case Nil
  then have "\<not> len < 4" by (simp add: word_less_nat_alt)
  then show ?case using Nil load32_middle [OF Nil(1), of 0 R] store32_middle [OF Nil(1), of "dword_bytes 0" 0 R]
    by (subst unpack_loop.simps) simp
next
  case (Cons w ws)
  have len: "\<not> len < 4" "\<not> len < 8" using Cons.prems(2) by (simp_all add: word_less_nat_alt)
  have load: "load32 pos (A @ dwords ((w # ws) @ [0]) @ R) = Inr w"
    using load32_middle [OF Cons.prems(1), of w "dwords (ws @ [0]) @ R"] by simp
  have store: "store32 pos v (A @ dwords ((w # ws) @ [0]) @ R) = Inr (A @ dword_bytes v @ dwords (ws @ [0]) @ R)" for v
    using store32_middle [OF Cons.prems(1), of "dword_bytes w" v "dwords (ws @ [0]) @ R"] by simp
  show ?case
  proof (cases "unat w < unat len")
    case True
    have next_len: "unat (len - 4) = unat len - 4" using len(1) by (rule unat_minus_4)
    have "unpack_loop base (len - 4) (pos + 4) ((A @ dword_bytes (w + base)) @ dwords (ws @ [0]) @ R) =
        Inr ((A @ dword_bytes (w + base)) @ dwords (map (\<lambda>w. w + base) (kept (unat (len - 4)) ws) @ [0]) @
          dwords (drop (length (kept (unat (len - 4)) ws) + 1) (ws @ [0])) @ R)"
      using Cons.prems next_len by (intro Cons.IH) simp_all
    moreover have "w \<noteq> 0" "\<not> w \<ge> len" using Cons.prems(3) True by (auto simp: word_le_nat_alt)
    ultimately show ?thesis using len load store True next_len by (subst unpack_loop.simps) simp
  next
    case False
    then have "w \<ge> len" by (simp add: word_le_nat_alt)
    then show ?thesis using len load store False by (subst unpack_loop.simps) simp
  qed
qed

lemma count_args_table:
  assumes "length A = 4 * n" "0 \<notin> set ws"
  shows "count_args n (A @ dwords (ws @ [0]) @ R) = Inr (n + length ws)"
  using assms
proof (induction ws arbitrary: A n)
  case Nil
  then show ?case using load32_middle [of A "4 * n" 0 R] by (subst count_args.simps) simp
next
  case (Cons w ws)
  have "count_args (n + 1) ((A @ dword_bytes w) @ dwords (ws @ [0]) @ R) = Inr (n + 1 + length ws)"
    using Cons.prems by (intro Cons.IH) simp_all
  then show ?case using load32_middle [of A "4 * n" w "dwords (ws @ [0]) @ R"] Cons.prems by (subst count_args.simps) simp
qed

lemma string_offsets_values:
  assumes "cur + length (strings ss) < 2 ^ 32"
  shows "map unat (string_offsets cur ss) = map (\<lambda>i. cur + length (strings (take i ss))) [0..<length ss]"
  using assms
proof (induction ss arbitrary: cur)
  case (Cons s ss)
  have "map unat (string_offsets (cur + (length s + 1)) ss) = map (\<lambda>i. cur + length (strings (take (Suc i) (s # ss)))) [0..<length ss]"
    using Cons by (simp add: algebra_simps)
  then show ?case using Cons.prems
    by (simp add: unat_word_of_nat_small upt_conv_Cons map_Suc_upt [symmetric] del: upt_Suc)
qed simp

lemma received_kept:
  assumes "off + length (strings ss) < 2 ^ 32"
  shows "length (kept (len - 4 * i) (string_offsets off ss)) = length (received len i off ss) \<and>
    received len i off ss = take (length (received len i off ss)) ss"
  using assms
proof (induction ss arbitrary: off i)
  case (Cons s ss)
  have "length (kept (len - 4 * (i + 1)) (string_offsets (off + (length s + 1)) ss)) = length (received len (i + 1) (off + (length s + 1)) ss) \<and>
      received len (i + 1) (off + (length s + 1)) ss = take (length (received len (i + 1) (off + (length s + 1)) ss)) ss"
    using Cons.prems by (intro Cons.IH) simp
  moreover have "unat (of_nat off :: u32) = off" using Cons.prems by (simp add: unat_word_of_nat_small)
  ultimately show ?case by (simp add: less_diff_conv add.commute)
qed simp

text \<open>A program sees a list of strings in a block that starts at \<open>base\<close>.\<close>

definition sees :: "u32 \<Rightarrow> u8 list \<Rightarrow> u8 list list \<Rightarrow> bool" where
  "sees base buf ss \<longleftrightarrow> count_args 0 buf = Inr (length ss) \<and>
     (\<forall>i<length ss. \<exists>a. load32 (4 * i) buf = Inr a \<and> c_string buf (unat (a - base)) = Some (ss ! i))"

text \<open>The length the kernel reports: whole pages.\<close>

definition page_rounded :: "nat \<Rightarrow> nat" where
  "page_rounded n = (n + 0xFFF) div 0x1000 * 0x1000"

definition arrived :: "u8 list list \<Rightarrow> u8 list list" where
  "arrived ss = received (page_rounded (length (packed ss))) 0 (4 * (length ss + 1)) ss"

lemma page_rounded_ge: "n \<le> page_rounded n"
  unfolding page_rounded_def by linarith

lemma unat_page_rounded:
  assumes "n + 0xFFF < 2 ^ 32"
  shows "unat (push_bit 12 (drop_bit 12 (of_nat n + 0xFFF)) :: u32) = page_rounded n"
proof -
  have n: "unat (of_nat n + 0xFFF :: u32) = n + 0xFFF"
    using assms unat_add_small [of "of_nat n :: u32" "0xFFF"] by (simp add: unat_word_of_nat_small)
  have "unat (push_bit 12 (drop_bit 12 (of_nat n + 0xFFF)) :: u32) = take_bit 32 (push_bit 12 (drop_bit 12 (n + 0xFFF)))"
    using assms by (simp add: unsigned_push_bit_eq unsigned_drop_bit_eq n take_bit_nat_eq_self)
  also have "\<dots> = page_rounded n"
    using assms by (simp add: push_bit_eq_mult drop_bit_eq_div page_rounded_def take_bit_nat_eq_self)
  finally show ?thesis .
qed

lemma received_all: "off + length (strings ss) + 4 * (i + length ss) \<le> len \<Longrightarrow> received len i off ss = ss"
  by (induction ss arbitrary: i off) (simp_all add: algebra_simps)

lemma string_offsets_nonzero:
  assumes "0 < cur" "cur + length (strings ss) < 2 ^ 32"
  shows "0 \<notin> set (string_offsets cur ss)"
proof -
  have "unat w \<noteq> 0" if "w \<in> set (string_offsets cur ss)" for w
  proof -
    have "unat w \<in> set (map unat (string_offsets cur ss))" using that by simp
    then show ?thesis using assms(1) by (auto simp: string_offsets_values [OF assms(2)])
  qed
  then show ?thesis by fastforce
qed

lemma last_zero:
  assumes "unat len = length (packed ss @ rest)"
  shows "\<exists>rest'. buf_write (unat (len - 1)) [0] (packed ss @ rest) = Inr (packed ss @ rest') \<and> length rest' = length rest"
proof -
  have len: "unat (len - 1) = length (packed ss @ rest) - 1" "0 < length (packed ss @ rest)"
    using assms unat_sub_small [of 1 len] by (simp_all add: length_packed word_le_nat_alt)
  have w: "buf_write (unat (len - 1)) [0] (packed ss @ rest) = Inr (butlast (packed ss @ rest) @ [0])"
    using len by (simp add: buf_write_def butlast_conv_take)
  show ?thesis
  proof (cases rest rule: rev_cases)
    case Nil
    have "last (packed ss) = 0"
      by (cases ss rule: rev_cases) (simp_all add: packed_def dword_bytes_def get_byte_def)
    then have "butlast (packed ss) @ [0] = packed ss" using len(2) Nil by (metis append_Nil2 append_butlast_last_id length_greater_0_conv)
    then show ?thesis using w Nil by auto
  next
    case (snoc r b)
    then show ?thesis using w by (intro exI [of _ "r @ [0]"]) (simp add: butlast_append)
  qed
qed

lemma c_string_strings:
  assumes "i < length ss" "\<forall>s\<in>set ss. 0 \<notin> set s" "length A = off"
  shows "c_string (A @ strings ss @ R) (off + length (strings (take i ss))) = Some (ss ! i)"
proof -
  have "strings ss = strings (take i ss) @ (ss ! i) @ 0 # strings (drop (Suc i) ss)"
    by (subst id_take_nth_drop [OF assms(1)]) simp
  then have "drop (off + length (strings (take i ss))) (A @ strings ss @ R) = (ss ! i) @ 0 # strings (drop (Suc i) ss) @ R"
    using assms(3) by simp
  moreover have "0 \<notin> set (ss ! i)" using assms(1,2) by simp
  ultimately show ?thesis by (auto simp: c_string_def takeWhile_append)
qed

lemma load32_dwords: "i < length ws \<Longrightarrow> load32 (4 * i) (dwords ws @ R) = Inr (ws ! i)"
  using load32_middle [of "dwords (take i ws)" "4 * i" "ws ! i" "dwords (drop (Suc i) ws) @ R"]
  by (simp flip: dwords_simps append_assoc add: id_take_nth_drop [symmetric])

text \<open>The offset of a string, and the pointer it becomes, which is not 0.\<close>

lemma string_pointer:
  assumes fits: "unat base + 4 * (length ss + 1) + length (strings ss) \<le> 2 ^ 32" and small: "4 * (length ss + 1) + length (strings ss) < 2 ^ 32" and i: "i < length ss"
  shows "unat (string_offsets (4 * (length ss + 1)) ss ! i) = 4 * (length ss + 1) + length (strings (take i ss))"
    and "string_offsets (4 * (length ss + 1)) ss ! i + base \<noteq> 0"
proof -
  let ?w = "string_offsets (4 * (length ss + 1)) ss ! i"
  show val: "unat ?w = 4 * (length ss + 1) + length (strings (take i ss))"
    using arg_cong [OF string_offsets_values [OF small], of "\<lambda>xs. xs ! i"] i by simp
  have "strings ss = strings (take i ss) @ strings (drop i ss)" by (simp flip: strings_simps(3))
  moreover have "strings (drop i ss) \<noteq> []" using i by (simp add: Cons_nth_drop_Suc [symmetric])
  ultimately have "length (strings (take i ss)) < length (strings ss)" by simp
  then have "unat ?w + unat base < 2 ^ 32" using val fits by simp
  then have "unat (?w + base) = unat ?w + unat base" using unat_add_small [of ?w base] by simp
  then show "?w + base \<noteq> 0" using val by auto
qed

text \<open>A table of pointers that ends with 0, in front of the strings.\<close>

definition pointer_table :: "u32 \<Rightarrow> nat \<Rightarrow> u8 list list \<Rightarrow> u8 list" where
  "pointer_table base len ss =
     (let ws = string_offsets (4 * (length ss + 1)) ss; k = kept len ws in
      dwords (map (\<lambda>w. w + base) k @ [0]) @ dwords (drop (length k + 1) (ws @ [0])))"

lemma table_sees:
  assumes ss: "\<forall>s\<in>set ss. 0 \<notin> set s" and small: "4 * (length ss + 1) + length (strings ss) < 2 ^ 32"
    and fits: "unat base + 4 * (length ss + 1) + length (strings ss) \<le> 2 ^ 32" and len: "len = page_rounded (length (packed ss))"
  shows "sees base (pointer_table base len ss @ strings ss @ rest) (arrived ss)"
proof -
  let ?ws = "string_offsets (4 * (length ss + 1)) ss" let ?k = "kept len ?ws" let ?t = "pointer_table base len ss"
  have k: "length ?k \<le> length ss" using length_kept [of len ?ws] by simp
  have t: "length ?t = 4 * (length ss + 1)" using k by (simp add: pointer_table_def Let_def)
  have arr: "length ?k = length (arrived ss)" "arrived ss = take (length (arrived ss)) ss"
    using received_kept [OF small, of len 0] len by (simp_all add: arrived_def)
  note ptr = string_pointer [OF fits small]
  obtain n where "?k = take n ?ws" using kept_prefix by blast
  then have nth: "?k ! i = ?ws ! i" if "i < length ?k" for i using that by simp
  then have "0 \<notin> set (map (\<lambda>w. w + base) ?k)" using ptr(2) k by (auto simp: in_set_conv_nth)
  then have count: "count_args 0 (?t @ strings ss @ rest) = Inr (length (arrived ss))"
    using count_args_table [of "[]" 0 "map (\<lambda>w. w + base) ?k"] arr by (simp add: pointer_table_def Let_def)
  have "\<exists>a. load32 (4 * i) (?t @ strings ss @ rest) = Inr a \<and> c_string (?t @ strings ss @ rest) (unat (a - base)) = Some (arrived ss ! i)"
    if i: "i < length (arrived ss)" for i
  proof -
    have i': "i < length ?k" "i < length ss" using i arr k by auto
    have "load32 (4 * i) (?t @ strings ss @ rest) = Inr (?ws ! i + base)"
      using load32_dwords [of i "map (\<lambda>w. w + base) ?k @ [0]"] i' nth by (simp add: pointer_table_def Let_def nth_append del: dwords_simps)
    moreover have "c_string (?t @ strings ss @ rest) (unat (?ws ! i)) = Some (arrived ss ! i)"
      using c_string_strings [OF i'(2) ss t, of rest] ptr(1) [OF i'(2)] arr(2) i by (metis nth_take)
    ultimately show ?thesis by auto
  qed
  then show ?thesis using count by (simp add: sees_def)
qed

lemma unpack_block_sees:
  assumes ss: "\<forall>s\<in>set ss. 0 \<notin> set s" and size: "length (packed ss) + 0xFFF < 2 ^ 32"
    and base: "base \<noteq> 0" and rest: "length (packed ss) + length rest = page_rounded (length (packed ss))"
    and fits: "unat base + page_rounded (length (packed ss)) \<le> 2 ^ 32"
  shows "\<exists>buf. unpack_block False base (push_bit 12 (drop_bit 12 (of_nat (length (packed ss)) + 0xFFF))) (packed ss @ rest) =
      Inr (True, buf, base) \<and> sees base buf (arrived ss)"
proof -
  define len where "len = (push_bit 12 (drop_bit 12 (of_nat (length (packed ss)) + 0xFFF)) :: u32)"
  let ?ws = "string_offsets (4 * (length ss + 1)) ss"
  have len: "unat len = page_rounded (length (packed ss))" unfolding len_def using size by (rule unat_page_rounded)
  have len4: "\<not> len < 4" using len rest by (simp add: word_less_nat_alt length_packed)
  have small: "4 * (length ss + 1) + length (strings ss) < 2 ^ 32" using size by (simp add: length_packed)
  have fits': "unat base + 4 * (length ss + 1) + length (strings ss) \<le> 2 ^ 32" using fits rest by (simp add: length_packed)
  obtain rest' where zero: "buf_write (unat (len - 1)) [0] (packed ss @ rest) = Inr (packed ss @ rest')" and "length rest' = length rest"
    using last_zero [of len ss rest] len rest by auto
  have nz: "0 \<notin> set ?ws" using string_offsets_nonzero [OF _ small] by simp
  have total: "unat len = 4 * (length ?ws + 1) + length (strings ss @ rest')" using len rest \<open>length rest' = length rest\<close> by (simp add: length_packed)
  have "unpack_loop base len 0 (dwords (?ws @ [0]) @ strings ss @ rest') = Inr (pointer_table base (unat len) ss @ strings ss @ rest')"
    unfolding pointer_table_def Let_def using unpack_loop_keeps [of "[]" 0 len ?ws "strings ss @ rest'" base, OF _ total nz] by simp
  then have "unpack_block False base len (packed ss @ rest) = Inr (True, pointer_table base (unat len) ss @ strings ss @ rest', base)"
    using base len4 zero by (simp add: unpack_block_def packed_def not_less)
  then show ?thesis using table_sees [OF ss small fits' len] unfolding len_def by blast
qed

lemma malloc_pack:
  assumes "malloc (block_length ss 4) = Some buf" "length buf = unat (block_length ss 4)" "length (packed ss) + 0xFFF < 2 ^ 32"
  shows "pack ss buf = Inr (packed ss)"
proof -
  have "block_length ss 4 = of_nat (length (packed ss))" by (simp add: block_length_packed length_packed)
  then show ?thesis using assms by (intro pack_packs) (simp add: unat_word_of_nat_small)
qed

text \<open>
  C10: The arguments of a program. When there is memory, \<^verbatim>\<open>_execve_r\<close> starts the program with two blocks, in which the new
  program, after the kernel has copied them into whole pages at any address, finds the arguments and the environment: \<^verbatim>\<open>argc\<close> is their
  number, and the pointers lead to the strings. All of them arrive if the block leaves 4 bytes for each of them in its last page;
  otherwise exactly those arrive whose offset is below what the loop takes for the end of the block, and the rest is lost.
\<close>

theorem exec_arguments:
  assumes strs: "\<forall>s\<in>set args \<union> set envs. 0 \<notin> set s" and found: "0 \<le> sint fileobj"
    and sizes: "length (packed args) + 0xFFF < 2 ^ 32" "length (packed envs) + 0xFFF < 2 ^ 32"
    and mem: "\<forall>n. \<exists>b. malloc1 n = Some b \<and> length b = unat n" "\<forall>n. \<exists>b. malloc2 n = Some b \<and> length b = unat n"
  shows "\<exists>block envblock.
    execve_r fileobj malloc1 malloc2 result (Some args) (Some envs) =
      Inr ([ExecuteProgram fileobj block envblock, CloseFile fileobj], if 0 \<le> sint result then 0 else ENOEXEC, result) \<and>
    (\<forall>base rest. base \<noteq> 0 \<and> unat base + page_rounded (length block) \<le> 2 ^ 32 \<and> length (block @ rest) = page_rounded (length block) \<longrightarrow>
      (\<exists>buf. get_ibnos_argc False base (push_bit 12 (drop_bit 12 (of_nat (length block) + 0xFFF))) (block @ rest) =
         Inr (True, buf, length (arrived args)) \<and> sees base buf (arrived args))) \<and>
    (\<forall>base rest. base \<noteq> 0 \<and> unat base + page_rounded (length envblock) \<le> 2 ^ 32 \<and> length (envblock @ rest) = page_rounded (length envblock) \<longrightarrow>
      (\<exists>buf. get_ibnos_envp False base (push_bit 12 (drop_bit 12 (of_nat (length envblock) + 0xFFF))) (envblock @ rest) =
         Inr (True, buf, base) \<and> sees base buf (arrived envs))) \<and>
    (length block + 4 * length args \<le> page_rounded (length block) \<longrightarrow> arrived args = args)"
proof (rule exI [of _ "packed args"], rule exI [of _ "packed envs"], intro conjI allI impI)
  obtain b1 b2 where "malloc1 (block_length args 4) = Some b1" "length b1 = unat (block_length args 4)"
      "malloc2 (block_length envs 4) = Some b2" "length b2 = unat (block_length envs 4)" using mem by metis
  then show "execve_r fileobj malloc1 malloc2 result (Some args) (Some envs) =
      Inr ([ExecuteProgram fileobj (packed args) (packed envs), CloseFile fileobj], if 0 \<le> sint result then 0 else ENOEXEC, result)"
    using malloc_pack [of malloc1 args b1] malloc_pack [of malloc2 envs b2] sizes found by (simp add: execve_r_def)
next
  fix base :: u32 and rest assume "base \<noteq> 0 \<and> unat base + page_rounded (length (packed args)) \<le> 2 ^ 32 \<and> length (packed args @ rest) = page_rounded (length (packed args))"
  then obtain buf where "unpack_block False base (push_bit 12 (drop_bit 12 (of_nat (length (packed args)) + 0xFFF))) (packed args @ rest) =
      Inr (True, buf, base)" "sees base buf (arrived args)" "base \<noteq> 0"
    using unpack_block_sees [of args base rest] strs sizes(1) by auto
  then show "\<exists>buf. get_ibnos_argc False base (push_bit 12 (drop_bit 12 (of_nat (length (packed args)) + 0xFFF))) (packed args @ rest) =
      Inr (True, buf, length (arrived args)) \<and> sees base buf (arrived args)"
    by (simp add: get_ibnos_argc_def get_ibnos_argv_def sees_def)
next
  fix base :: u32 and rest assume "base \<noteq> 0 \<and> unat base + page_rounded (length (packed envs)) \<le> 2 ^ 32 \<and> length (packed envs @ rest) = page_rounded (length (packed envs))"
  then show "\<exists>buf. get_ibnos_envp False base (push_bit 12 (drop_bit 12 (of_nat (length (packed envs)) + 0xFFF))) (packed envs @ rest) =
      Inr (True, buf, base) \<and> sees base buf (arrived envs)"
    using unpack_block_sees [of envs base rest] strs sizes(2) by (auto simp: get_ibnos_envp_def)
next
  assume "length (packed args) + 4 * length args \<le> page_rounded (length (packed args))"
  then show "arrived args = args" unfolding arrived_def by (intro received_all) (simp add: length_packed)
qed

text \<open>An argument of 4081 bytes and a second one of a single byte fill a page, and the second one is lost.\<close>

theorem exec_arguments_witness:
  "\<exists>block envblock.
     execve_r 5 (\<lambda>n. Some (replicate (unat n) 0)) (\<lambda>n. Some (replicate (unat n) 0)) (- 1) (Some [replicate 4081 0x61, [0x62]]) (Some []) =
       Inr ([ExecuteProgram 5 block envblock, CloseFile 5], ENOEXEC, - 1) \<and>
     (\<exists>buf. get_ibnos_argc False 0x40000000 (push_bit 12 (drop_bit 12 (of_nat (length block) + 0xFFF))) block = Inr (True, buf, 1) \<and>
        sees 0x40000000 buf [replicate 4081 0x61])"
proof -
  let ?args = "[replicate 4081 0x61, [0x62]] :: u8 list list"
  have arr: "arrived ?args = [replicate 4081 0x61]" and size: "length (packed ?args) = 4096"
    by (simp_all add: arrived_def length_packed page_rounded_def)
  have pre: "\<forall>s\<in>set ?args \<union> set ([] :: u8 list list). 0 \<notin> set s" "0 \<le> sint (5 :: u32)" "length (packed ?args) + 0xFFF < 2 ^ 32"
      "length (packed []) + 0xFFF < 2 ^ 32" "\<forall>n. \<exists>b. Some (replicate (unat n) 0) = Some (b :: u8 list) \<and> length b = unat (n :: u32)"
    by (simp_all add: length_packed)
  obtain block envblock where ex: "execve_r 5 (\<lambda>n. Some (replicate (unat n) 0)) (\<lambda>n. Some (replicate (unat n) 0)) (- 1) (Some ?args) (Some []) =
       Inr ([ExecuteProgram 5 block envblock, CloseFile 5], if 0 \<le> sint (- 1 :: u32) then 0 else ENOEXEC, - 1)"
    and all: "\<forall>base rest. base \<noteq> 0 \<and> unat base + page_rounded (length block) \<le> 2 ^ 32 \<and> length (block @ rest) = page_rounded (length block) \<longrightarrow>
      (\<exists>buf. get_ibnos_argc False base (push_bit 12 (drop_bit 12 (of_nat (length block) + 0xFFF))) (block @ rest) =
         Inr (True, buf, length (arrived ?args)) \<and> sees base buf (arrived ?args))"
    using exec_arguments [OF pre(1-5) pre(5), where result = "- 1"] by auto
  have "pack ?args (replicate 4096 0) = Inr (packed ?args)" using size by (intro pack_packs) simp
  then have "block = packed ?args" using ex by (auto simp: execve_r_def block_length_packed size kbind_eq_Inr)
  then have "length block = 4096" using size by simp
  then show ?thesis using ex spec [OF spec [OF all, of "0x40000000"], of "[]"] arr by (auto simp: page_rounded_def)
qed

end
