(* ===== verification/Liballoc.thy ===== *)
theory Liballoc
  imports Prelude
begin

text \<open>
  The heap of user programs: \<^verbatim>\<open>liballoc.c\<close> and \<^verbatim>\<open>malloc.c\<close> of the port of newlib. Every block is preceded by a boundary tag of 32 bytes;
  the tags of one allocation of pages are chained to the left and to the right, and unused blocks are kept in one list for each power of two.
  The state has the tags and the bytes of the blocks as two views of the memory (the invariant below keeps them apart), the two
  arrays of \<^verbatim>\<open>liballoc.c\<close>, and the areas that the process has got from the kernel. What the kernel answers to a request for pages is the parameter
  \<open>pages\<close>. The loops over tags have a bound as their first argument. The spin lock around the functions is not part of the state.
\<close>

section \<open>Tags and lists\<close>

definition LIBALLOC_MAGIC :: u32 where "LIBALLOC_MAGIC = 0xC001C0DE"
definition MAXCOMPLETE :: int where "MAXCOMPLETE = 5"
definition MAXEXP :: nat where "MAXEXP = 32"
definition MINEXP :: nat where "MINEXP = 8"
definition l_pageSize :: u32 where "l_pageSize = 4096"
definition l_pageCount :: u32 where "l_pageCount = 16"

record boundary_tag =
  magic :: u32
  tag_size :: u32
  real_size :: u32
  tag_index :: int
  split_left :: u32
  split_right :: u32
  tag_next :: u32
  tag_prev :: u32

record userheap =
  tags :: "u32 \<Rightarrow> boundary_tag"
  l_freePages :: "nat \<Rightarrow> u32"
  l_completePages :: "nat \<Rightarrow> int"
  l_initialized :: bool
  bytes :: "u32 \<Rightarrow> u8"
  areas :: "(u32 \<times> u32) list"

text \<open>Access through a pointer, and to the two arrays.\<close>

definition get_tag :: "u32 \<Rightarrow> userheap \<Rightarrow> boundary_tag kres" where
  "get_tag a h = (if a = 0 then Inl MemFault else Inr (tags h a))"

definition upd_tag :: "u32 \<Rightarrow> (boundary_tag \<Rightarrow> boundary_tag) \<Rightarrow> userheap \<Rightarrow> userheap kres" where
  "upd_tag a f h = (if a = 0 then Inl MemFault else Inr (h\<lparr>tags := (tags h)(a := f (tags h a))\<rparr>))"

definition in_array :: "int \<Rightarrow> 'a kres \<Rightarrow> 'a kres" where
  "in_array i m = (if 0 \<le> i \<and> i < int MAXEXP then m else Inl MemFault)"

definition set_free :: "int \<Rightarrow> u32 \<Rightarrow> userheap \<Rightarrow> userheap" where
  "set_free i a h = h\<lparr>l_freePages := (l_freePages h)(nat i := a)\<rparr>"

definition add_complete :: "int \<Rightarrow> int \<Rightarrow> userheap \<Rightarrow> userheap" where
  "add_complete i d h = h\<lparr>l_completePages := (l_completePages h)(nat i := l_completePages h (nat i) + d)\<rparr>"

text \<open>\<^verbatim>\<open>getexp\<close>, with the loop over \<^verbatim>\<open>shift\<close>.\<close>

function exp_loop :: "nat \<Rightarrow> u32 \<Rightarrow> nat" where
  "exp_loop shift sz = (if shift < MAXEXP then if push_bit shift 1 > sz then shift else exp_loop (shift + 1) sz else shift)"
  by auto
termination by (relation "measure (\<lambda>(shift, _). MAXEXP - shift)") auto

declare exp_loop.simps [simp del]

definition getexp :: "u32 \<Rightarrow> int" where
  "getexp sz = (if sz < push_bit MINEXP 1 then - 1 else int (exp_loop MINEXP sz) - 1)"

definition list_index :: "u32 \<Rightarrow> int" where
  "list_index sz = (if getexp sz < int MINEXP then int MINEXP else getexp sz)"

definition insert_tag :: "u32 \<Rightarrow> int \<Rightarrow> userheap \<Rightarrow> userheap kres" where
  "insert_tag tag ix h =
     kbind (get_tag tag h) (\<lambda>t.
     let realIndex = (if ix < 0 then list_index (real_size t - 32) else ix) in
     kbind (upd_tag tag (\<lambda>t. t\<lparr>tag_index := realIndex\<rparr>) h) (\<lambda>h.
     in_array realIndex (
     let first = l_freePages h (nat realIndex) in
     kbind (if first \<noteq> 0
            then kbind (upd_tag first (\<lambda>t. t\<lparr>tag_prev := tag\<rparr>) h) (upd_tag tag (\<lambda>t. t\<lparr>tag_next := first\<rparr>))
            else Inr h) (\<lambda>h.
     Inr (set_free realIndex tag h)))))"

definition remove_tag :: "u32 \<Rightarrow> userheap \<Rightarrow> userheap kres" where
  "remove_tag tag h =
     kbind (get_tag tag h) (\<lambda>t.
     in_array (tag_index t) (
     let h = (if l_freePages h (nat (tag_index t)) = tag then set_free (tag_index t) (tag_next t) h else h) in
     kbind (if tag_prev t \<noteq> 0 then upd_tag (tag_prev t) (\<lambda>p. p\<lparr>tag_next := tag_next t\<rparr>) h else Inr h) (\<lambda>h.
     kbind (get_tag tag h) (\<lambda>t.
     kbind (if tag_next t \<noteq> 0 then upd_tag (tag_next t) (\<lambda>n. n\<lparr>tag_prev := tag_prev t\<rparr>) h else Inr h) (\<lambda>h.
     upd_tag tag (\<lambda>t. t\<lparr>tag_next := 0, tag_prev := 0, tag_index := - 1\<rparr>) h)))))"

definition melt_left :: "u32 \<Rightarrow> userheap \<Rightarrow> (userheap \<times> u32) kres" where
  "melt_left tag h =
     kbind (get_tag tag h) (\<lambda>t.
     let left = split_left t in
     kbind (upd_tag left (\<lambda>l. l\<lparr>real_size := real_size l + real_size t, split_right := split_right t\<rparr>) h) (\<lambda>h.
     kbind (if split_right t \<noteq> 0 then upd_tag (split_right t) (\<lambda>r. r\<lparr>split_left := left\<rparr>) h else Inr h) (\<lambda>h.
     Inr (h, left))))"

definition absorb_right :: "u32 \<Rightarrow> userheap \<Rightarrow> userheap kres" where
  "absorb_right tag h =
     kbind (get_tag tag h) (\<lambda>t.
     let right = split_right t in
     kbind (remove_tag right h) (\<lambda>h.
     kbind (get_tag right h) (\<lambda>r.
     kbind (upd_tag tag (\<lambda>t. t\<lparr>real_size := real_size t + real_size r, split_right := split_right r\<rparr>) h) (\<lambda>h.
     if split_right r \<noteq> 0 then upd_tag (split_right r) (\<lambda>x. x\<lparr>split_left := tag\<rparr>) h else Inr h))))"

definition split_tag :: "u32 \<Rightarrow> userheap \<Rightarrow> (userheap \<times> u32) kres" where
  "split_tag tag h =
     kbind (get_tag tag h) (\<lambda>t.
     let remainder = real_size t - 32 - tag_size t; new_tag = tag + 32 + tag_size t in
     kbind (upd_tag new_tag (\<lambda>n. n\<lparr>magic := LIBALLOC_MAGIC, real_size := remainder, tag_next := 0, tag_prev := 0,
       split_left := tag, split_right := split_right t\<rparr>) h) (\<lambda>h.
     kbind (if split_right t \<noteq> 0 then upd_tag (split_right t) (\<lambda>r. r\<lparr>split_left := new_tag\<rparr>) h else Inr h) (\<lambda>h.
     kbind (upd_tag tag (\<lambda>t. t\<lparr>split_right := new_tag, real_size := real_size t - remainder\<rparr>) h) (\<lambda>h.
     kbind (insert_tag new_tag (- 1) h) (\<lambda>h. Inr (h, new_tag))))))"

section \<open>Allocating and freeing\<close>

text \<open>The kernel gives pages (0 if it cannot), and takes them back; \<^verbatim>\<open>areas\<close> are the pages that the process has.\<close>

definition liballoc_alloc :: "((u32 \<times> u32) list \<Rightarrow> u32 \<Rightarrow> u32) \<Rightarrow> u32 \<Rightarrow> userheap \<Rightarrow> userheap \<times> u32" where
  "liballoc_alloc pages n h =
     (let a = pages (areas h) n in if a = 0 then (h, 0) else (h\<lparr>areas := (a, n) # areas h\<rparr>, a))"

definition liballoc_free :: "u32 \<Rightarrow> u32 \<Rightarrow> userheap \<Rightarrow> userheap" where
  "liballoc_free a n h = h\<lparr>areas := remove1 (a, n) (areas h)\<rparr>"

definition page_number :: "u32 \<Rightarrow> u32" where
  "page_number usage =
     (let n = usage div l_pageSize + (if usage mod l_pageSize \<noteq> 0 then 1 else 0) in if n < l_pageCount then l_pageCount else n)"

definition allocate_new_tag :: "((u32 \<times> u32) list \<Rightarrow> u32 \<Rightarrow> u32) \<Rightarrow> u32 \<Rightarrow> userheap \<Rightarrow> (userheap \<times> u32) kres" where
  "allocate_new_tag pages sz h =
     (let n = page_number (sz + 32); (h, tag) = liballoc_alloc pages n h in
      if tag = 0 then Inr (h, 0)
      else kbind (upd_tag tag (\<lambda>_. \<lparr>magic = LIBALLOC_MAGIC, tag_size = sz, real_size = n * l_pageSize, tag_index = - 1,
             split_left = 0, split_right = 0, tag_next = 0, tag_prev = 0\<rparr>) h) (\<lambda>h. Inr (h, tag)))"

definition initialize :: "userheap \<Rightarrow> userheap" where
  "initialize h = (if l_initialized h then h else h\<lparr>l_freePages := \<lambda>_. 0, l_completePages := \<lambda>_. 0, l_initialized := True\<rparr>)"

text \<open>The first tag of a list with enough space.\<close>

primrec find_tag :: "nat \<Rightarrow> u32 \<Rightarrow> u32 \<Rightarrow> userheap \<Rightarrow> u32 kres" where
  "find_tag 0 tag sz h = (if tag = 0 then Inr 0 else Inl OutOfFuel)"
| "find_tag (Suc n) tag sz h =
     (if tag = 0 then Inr 0
      else kbind (get_tag tag h) (\<lambda>t. if real_size t - 32 \<ge> sz + 32 then Inr tag else find_tag n (tag_next t) sz h))"

text \<open>The end of \<^verbatim>\<open>liballoc_malloc_r\<close>: the tag gets its size, and what is left is split off if it is worth it.\<close>

definition finish_malloc :: "u32 \<Rightarrow> u32 \<Rightarrow> userheap \<Rightarrow> (userheap \<times> u32) kres" where
  "finish_malloc sz tag h =
     kbind (upd_tag tag (\<lambda>t. t\<lparr>tag_size := sz\<rparr>) h) (\<lambda>h.
     kbind (get_tag tag h) (\<lambda>t.
     let remainder = real_size t - sz - 32 * 2 in
     kbind (if sint remainder > 0 \<and> getexp remainder \<ge> 0 then kbind (split_tag tag h) (\<lambda>(h, _). Inr h) else Inr h) (\<lambda>h.
     Inr (h, tag + 32))))"

definition liballoc_malloc_r :: "nat \<Rightarrow> ((u32 \<times> u32) list \<Rightarrow> u32 \<Rightarrow> u32) \<Rightarrow> u32 \<Rightarrow> userheap \<Rightarrow> (userheap \<times> u32) kres" where
  "liballoc_malloc_r n pages sz h =
     (let h = initialize h; ix = list_index sz in
      in_array ix (
      kbind (find_tag n (l_freePages h (nat ix)) sz h) (\<lambda>found.
      kbind (if found = 0 then allocate_new_tag pages sz h
             else kbind (remove_tag found h) (\<lambda>h.
                  kbind (get_tag found h) (\<lambda>t.
                  Inr (if split_left t = 0 \<and> split_right t = 0 then add_complete ix (- 1) h else h, found)))) (\<lambda>(h, tag).
      if tag = 0 then Inr (h, 0) else finish_malloc sz tag h))))"

text \<open>The two loops of \<^verbatim>\<open>liballoc_free_r\<close>.\<close>

primrec melt_left_loop :: "nat \<Rightarrow> u32 \<Rightarrow> userheap \<Rightarrow> (userheap \<times> u32) kres" where
  "melt_left_loop 0 tag h = Inl OutOfFuel"
| "melt_left_loop (Suc n) tag h =
     kbind (get_tag tag h) (\<lambda>t.
     if split_left t = 0 then Inr (h, tag)
     else kbind (get_tag (split_left t) h) (\<lambda>l.
          if tag_index l \<ge> 0
          then kbind (melt_left tag h) (\<lambda>(h, tag). kbind (remove_tag tag h) (melt_left_loop n tag))
          else Inr (h, tag)))"

primrec melt_right_loop :: "nat \<Rightarrow> u32 \<Rightarrow> userheap \<Rightarrow> userheap kres" where
  "melt_right_loop 0 tag h = Inl OutOfFuel"
| "melt_right_loop (Suc n) tag h =
     kbind (get_tag tag h) (\<lambda>t.
     if split_right t = 0 then Inr h
     else kbind (get_tag (split_right t) h) (\<lambda>r.
          if tag_index r \<ge> 0 then kbind (absorb_right tag h) (melt_right_loop n tag) else Inr h))"

definition liballoc_free_r :: "nat \<Rightarrow> u32 \<Rightarrow> userheap \<Rightarrow> userheap kres" where
  "liballoc_free_r n ptr h =
     (if ptr = 0 then Inr h
      else kbind (get_tag (ptr - 32) h) (\<lambda>t.
           if magic t \<noteq> LIBALLOC_MAGIC then Inr h
           else kbind (melt_left_loop n (ptr - 32) h) (\<lambda>(h, tag).
                kbind (melt_right_loop n tag h) (\<lambda>h.
                kbind (get_tag tag h) (\<lambda>t.
                let ix = list_index (real_size t - 32) in
                if split_left t = 0 \<and> split_right t = 0
                then in_array ix (
                     if l_completePages h (nat ix) = MAXCOMPLETE
                     then Inr (liballoc_free tag (page_number (real_size t)) h)
                     else insert_tag tag ix (add_complete ix 1 h))
                else insert_tag tag ix h)))))"

section \<open>Lists of tags\<close>

text \<open>A part of a doubly linked list: its first tag is \<open>a\<close> with predecessor \<open>p\<close>, its last one (or \<open>p\<close>) is \<open>q\<close>, and \<open>b\<close> follows it.\<close>

primrec dseg :: "(u32 \<Rightarrow> boundary_tag) \<Rightarrow> u32 \<Rightarrow> u32 \<Rightarrow> u32 list \<Rightarrow> u32 \<Rightarrow> u32 \<Rightarrow> bool" where
  "dseg f p a [] q b \<longleftrightarrow> a = b \<and> q = p"
| "dseg f p a (x # xs) q b \<longleftrightarrow> a = x \<and> x \<noteq> 0 \<and> tag_prev (f x) = p \<and> dseg f x (tag_next (f x)) xs q b"

lemma dseg_append: "dseg f p a (xs @ ys) q b \<longleftrightarrow> (\<exists>r c. dseg f p a xs r c \<and> dseg f r c ys q b)"
  by (induction xs arbitrary: p a) auto

lemma dseg_cong: "(\<And>x. x \<in> set xs \<Longrightarrow> tag_next (f' x) = tag_next (f x) \<and> tag_prev (f' x) = tag_prev (f x)) \<Longrightarrow> dseg f' p a xs q b = dseg f p a xs q b"
  by (induction xs arbitrary: p a) auto

lemma dseg_other [simp]: "x \<notin> set xs \<Longrightarrow> dseg (f(x := v)) p a xs q b = dseg f p a xs q b"
  by (rule dseg_cong) auto

lemma dseg_nonzero: "dseg f p a xs q b \<Longrightarrow> 0 \<notin> set xs"
  by (induction xs arbitrary: p a) auto

lemma dseg_first: "dseg f p a xs q b \<Longrightarrow> a = (if xs = [] then b else hd xs)"
  by (cases xs) auto

lemma dseg_last: "dseg f p a xs q b \<Longrightarrow> q = (if xs = [] then p else last xs)"
  by (induction xs arbitrary: p a) auto

text \<open>The last tag gets another successor, the first one another predecessor.\<close>

lemma dseg_set_next:
  assumes "dseg f p a (xs @ [x]) q b" "x \<notin> set xs"
  shows "dseg (f(x := (f x)\<lparr>tag_next := c\<rparr>)) p a (xs @ [x]) x c"
proof -
  have "dseg f p a xs (tag_prev (f x)) x" "x \<noteq> 0" using assms(1) by (auto simp: dseg_append)
  then show ?thesis using assms(2) by (auto simp: dseg_append)
qed

lemma dseg_set_prev:
  assumes "dseg f p a (y # ys) q b" "y \<notin> set ys"
  shows "dseg (f(y := (f y)\<lparr>tag_prev := r\<rparr>)) r a (y # ys) q b"
  using assms by simp

definition unlink :: "u32 \<Rightarrow> (u32 \<Rightarrow> boundary_tag) \<Rightarrow> u32 \<Rightarrow> boundary_tag" where
  "unlink t f =
     (let p = tag_prev (f t); n = tag_next (f t);
          f1 = (if p \<noteq> 0 then f(p := (f p)\<lparr>tag_next := n\<rparr>) else f);
          f2 = (if n \<noteq> 0 then f1(n := (f1 n)\<lparr>tag_prev := p\<rparr>) else f1) in
      f2(t := (f t)\<lparr>tag_next := 0, tag_prev := 0, tag_index := - 1\<rparr>))"

lemma dseg_unlink:
  assumes "dseg f 0 a (xs @ t # ys) q 0" "distinct (xs @ t # ys)"
  shows "\<exists>q. dseg (unlink t f) 0 (if a = t then tag_next (f t) else a) (xs @ ys) q 0"
proof -
  obtain b where l: "dseg f 0 a xs b t" and t: "t \<noteq> 0" "tag_prev (f t) = b" and r: "dseg f t (tag_next (f t)) ys q 0"
    using assms(1) by (auto simp: dseg_append)
  define n where "n = tag_next (f t)"
  define f1 where "f1 = (if b \<noteq> 0 then f(b := (f b)\<lparr>tag_next := n\<rparr>) else f)"
  define f2 where "f2 = (if n \<noteq> 0 then f1(n := (f1 n)\<lparr>tag_prev := b\<rparr>) else f1)"
  have u: "unlink t f = f2(t := (f t)\<lparr>tag_next := 0, tag_prev := 0, tag_index := - 1\<rparr>)"
    unfolding unlink_def Let_def by (simp only: t(2) n_def [symmetric] f1_def [symmetric] f2_def [symmetric])
  have b: "b = (if xs = [] then 0 else last xs)" using dseg_last [OF l] .
  have n: "n = (if ys = [] then 0 else hd ys)" using dseg_first [OF r] by (simp add: n_def)
  have nz: "0 \<notin> set xs" "0 \<notin> set ys" using dseg_nonzero [OF l] dseg_nonzero [OF r] by auto
  have left: "dseg f1 0 (if a = t then n else a) xs b n"
  proof (cases xs rule: rev_cases)
    case Nil
    then show ?thesis using l b by auto
  next
    case (snoc zs z)
    then have "a \<noteq> t" using dseg_first [OF l] assms(2) by (auto simp: hd_append split: if_splits)
    moreover have "dseg (f(z := (f z)\<lparr>tag_next := n\<rparr>)) 0 a xs z n" using l snoc assms(2) dseg_set_next [of f 0 a zs z b t n] by auto
    ultimately show ?thesis using snoc b nz by (simp add: f1_def)
  qed
  have "\<exists>q. dseg f2 b n ys q 0"
  proof (cases ys)
    case Nil
    then show ?thesis using n by (simp add: f2_def)
  next
    case (Cons y zs)
    have "xs \<noteq> [] \<Longrightarrow> last xs \<in> set xs" by simp
    then have "b \<notin> set ys" using b nz(2) assms(2) by (auto simp: disjoint_iff split: if_splits)
    then have "dseg f1 t n ys q 0" using r by (simp add: f1_def n_def)
    then have "dseg (f1(y := (f1 y)\<lparr>tag_prev := b\<rparr>)) b n ys q 0" using Cons assms(2) dseg_set_prev [of f1 t n y zs q 0 b] by auto
    then show ?thesis using Cons n nz by (auto simp: f2_def)
  qed
  then obtain q' where right: "dseg f2 b n ys q' 0" by blast
  have ln: "n \<noteq> 0 \<Longrightarrow> n \<in> set ys" using n nz by (auto split: if_splits)
  have "dseg f2 0 (if a = t then n else a) xs b n"
    using left ln assms(2) by (subst dseg_cong [where f = f1]) (auto simp: f2_def)
  then have "dseg f2 0 (if a = t then n else a) (xs @ ys) q' 0" using right unfolding dseg_append by blast
  then have "dseg (unlink t f) 0 (if a = t then n else a) (xs @ ys) q' 0"
    using assms(2) by (subst dseg_cong [where f = f2]) (auto simp: u)
  then show ?thesis by (auto simp: n_def)
qed

section \<open>The invariant\<close>

text \<open>The lists: \<open>L i\<close> are the tags of the \<open>i\<close>-th list, and these are the tags of the heap with that index.\<close>

definition list_ok :: "u32 set \<Rightarrow> (nat \<Rightarrow> u32 list) \<Rightarrow> userheap \<Rightarrow> nat \<Rightarrow> bool" where
  "list_ok T L h i \<longleftrightarrow> (\<exists>q. dseg (tags h) 0 (l_freePages h i) (L i) q 0) \<and> distinct (L i) \<and>
     set (L i) = {t \<in> T. tag_index (tags h t) = int i}"

definition member_ok :: "userheap \<Rightarrow> u32 \<Rightarrow> bool" where
  "member_ok h t \<longleftrightarrow> t \<noteq> 0 \<and>
     (tag_index (tags h t) = - 1 \<and> tag_next (tags h t) = 0 \<and> tag_prev (tags h t) = 0 \<or> 8 \<le> tag_index (tags h t) \<and> tag_index (tags h t) < 32)"

definition lists_ok :: "u32 set \<Rightarrow> (nat \<Rightarrow> u32 list) \<Rightarrow> userheap \<Rightarrow> bool" where
  "lists_ok T L h \<longleftrightarrow> (\<forall>i<32. list_ok T L h i) \<and> (\<forall>t\<in>T. member_ok h t)"

text \<open>What the operations on the lists leave alone.\<close>

definition core :: "boundary_tag \<Rightarrow> boundary_tag" where
  "core x = x\<lparr>tag_index := 0, tag_next := 0, tag_prev := 0\<rparr>"

definition relinked :: "userheap \<Rightarrow> userheap \<Rightarrow> bool" where
  "relinked h h' \<longleftrightarrow> (\<forall>x. core (tags h' x) = core (tags h x)) \<and> h' = h\<lparr>tags := tags h', l_freePages := l_freePages h'\<rparr>"

lemma core_eq: "core x = core y \<longleftrightarrow> magic x = magic y \<and> tag_size x = tag_size y \<and> real_size x = real_size y \<and>
    split_left x = split_left y \<and> split_right x = split_right y"
  by (cases x; cases y) (auto simp: core_def)

lemma core_upd [simp]:
  "core (x\<lparr>tag_index := i\<rparr>) = core x" "core (x\<lparr>tag_next := n\<rparr>) = core x" "core (x\<lparr>tag_prev := n\<rparr>) = core x"
  by (simp_all add: core_def)

lemma core_fields: "core x = core y \<Longrightarrow> magic x = magic y" "core x = core y \<Longrightarrow> tag_size x = tag_size y"
    "core x = core y \<Longrightarrow> real_size x = real_size y" "core x = core y \<Longrightarrow> split_left x = split_left y" "core x = core y \<Longrightarrow> split_right x = split_right y"
  by (simp_all add: core_eq)

lemma relinked_fields:
  assumes "relinked h h'"
  shows "magic (tags h' x) = magic (tags h x)" "tag_size (tags h' x) = tag_size (tags h x)" "real_size (tags h' x) = real_size (tags h x)"
    "split_left (tags h' x) = split_left (tags h x)" "split_right (tags h' x) = split_right (tags h x)"
    "l_completePages h' = l_completePages h" "l_initialized h' = l_initialized h" "bytes h' = bytes h" "areas h' = areas h"
proof -
  have "core (tags h' x) = core (tags h x)" using assms by (simp add: relinked_def)
  note c = core_fields [OF this]
  show "magic (tags h' x) = magic (tags h x)" "tag_size (tags h' x) = tag_size (tags h x)" "real_size (tags h' x) = real_size (tags h x)"
    "split_left (tags h' x) = split_left (tags h x)" "split_right (tags h' x) = split_right (tags h x)" by (rule c)+
  obtain f g where "h' = h\<lparr>tags := f, l_freePages := g\<rparr>" using assms by (auto simp: relinked_def)
  then show "l_completePages h' = l_completePages h" "l_initialized h' = l_initialized h" "bytes h' = bytes h" "areas h' = areas h" by simp_all
qed

lemma unlink_index: "tag_index (unlink t f x) = (if x = t then - 1 else tag_index (f x))"
  by (simp add: unlink_def Let_def)

lemma unlink_core: "core (unlink t f x) = core (f x)"
  by (simp add: unlink_def Let_def)

lemma unlink_other: "x \<noteq> t \<Longrightarrow> x \<noteq> tag_prev (f t) \<Longrightarrow> x \<noteq> tag_next (f t) \<Longrightarrow> unlink t f x = f x"
  by (simp add: unlink_def Let_def)

lemma remove_tag_unlink:
  assumes "t \<noteq> 0" "0 \<le> tag_index (tags h t)" "tag_index (tags h t) < 32" "tag_prev (tags h t) \<noteq> t" "tag_next (tags h t) \<noteq> t"
  shows "remove_tag t h = Inr (h\<lparr>tags := unlink t (tags h),
    l_freePages := (l_freePages h)(nat (tag_index (tags h t)) := (if l_freePages h (nat (tag_index (tags h t))) = t then tag_next (tags h t) else l_freePages h (nat (tag_index (tags h t)))))\<rparr>)"
  using assms
  by (auto simp: remove_tag_def get_tag_def upd_tag_def in_array_def MAXEXP_def set_free_def unlink_def Let_def fun_upd_twist)

lemma lists_member: "lists_ok T L h \<Longrightarrow> t \<in> T \<Longrightarrow> 0 \<le> tag_index (tags h t) \<Longrightarrow>
    t \<noteq> 0 \<and> 8 \<le> tag_index (tags h t) \<and> tag_index (tags h t) < 32 \<and> t \<in> set (L (nat (tag_index (tags h t))))"
  by (fastforce simp: lists_ok_def member_ok_def list_ok_def)

lemma dseg_neighbours:
  assumes "dseg f 0 a (xs @ t # ys) q 0" "distinct (xs @ t # ys)"
  shows "tag_prev (f t) \<noteq> t" "tag_next (f t) \<noteq> t" "tag_prev (f t) \<noteq> 0 \<Longrightarrow> tag_prev (f t) \<in> set (xs @ t # ys)"
    "tag_next (f t) \<noteq> 0 \<Longrightarrow> tag_next (f t) \<in> set (xs @ t # ys)"
proof -
  have l: "dseg f 0 a xs (tag_prev (f t)) t" and r: "dseg f t (tag_next (f t)) ys q 0" and "t \<noteq> 0" using assms(1) by (auto simp: dseg_append)
  have "tag_prev (f t) = (if xs = [] then 0 else last xs)" "tag_next (f t) = (if ys = [] then 0 else hd ys)"
    using dseg_last [OF l] dseg_first [OF r] by auto
  moreover have "xs \<noteq> [] \<Longrightarrow> last xs \<in> set xs" "ys \<noteq> [] \<Longrightarrow> hd ys \<in> set ys" by simp_all
  ultimately show "tag_prev (f t) \<noteq> t" "tag_next (f t) \<noteq> t" "tag_prev (f t) \<noteq> 0 \<Longrightarrow> tag_prev (f t) \<in> set (xs @ t # ys)"
    "tag_next (f t) \<noteq> 0 \<Longrightarrow> tag_next (f t) \<in> set (xs @ t # ys)" using assms(2) \<open>t \<noteq> 0\<close> by (auto split: if_splits)
qed

text \<open>An operation that changes only the \<open>i\<close>-th list and the tag \<open>t\<close>, which enters or leaves it.\<close>

lemma one_list_changed:
  assumes ok: "lists_ok T L h" and i: "i < 32" and t: "tag_index (tags h t) = - 1 \<or> tag_index (tags h t) = int i"
    "tag_index (tags h' t) = - 1 \<or> tag_index (tags h' t) = int i" "member_ok h' t"
    and idx: "\<And>x. x \<noteq> t \<Longrightarrow> tag_index (tags h' x) = tag_index (tags h x)"
    and other: "\<And>x. x \<noteq> t \<Longrightarrow> x \<notin> set (L i) \<Longrightarrow> x \<noteq> 0 \<Longrightarrow> tags h' x = tags h x"
    and heads: "\<And>j. j \<noteq> i \<Longrightarrow> l_freePages h' j = l_freePages h j" and new: "list_ok T (L(i := ls)) h' i"
  shows "lists_ok T (L(i := ls)) h'"
proof -
  have sets: "set (L j) = {x \<in> T. tag_index (tags h x) = int j}" if "j < 32" for j using ok that by (simp add: lists_ok_def list_ok_def)
  have "list_ok T (L(i := ls)) h' j" if j: "j < 32" for j
  proof (cases "j = i")
    case False
    have lj: "list_ok T L h j" using ok j by (simp add: lists_ok_def)
    have out: "x \<noteq> t \<and> x \<notin> set (L i) \<and> x \<noteq> 0" if "x \<in> set (L j)" for x
      using that sets [OF j] sets [OF i] False t(1) ok by (auto simp: lists_ok_def member_ok_def)
    have "tag_index (tags h' x) = int j \<longleftrightarrow> tag_index (tags h x) = int j" for x using False t(1,2) idx [of x] by (cases "x = t") auto
    then have "{x \<in> T. tag_index (tags h' x) = int j} = {x \<in> T. tag_index (tags h x) = int j}" by simp
    moreover have "dseg (tags h') 0 (l_freePages h j) (L j) q 0 = dseg (tags h) 0 (l_freePages h j) (L j) q 0" for q
      using out other by (intro dseg_cong) auto
    ultimately show ?thesis using lj False heads by (simp add: list_ok_def)
  qed (use new in simp)
  moreover have "member_ok h' x" if x: "x \<in> T" for x
  proof (cases "x = t")
    case False
    have m: "member_ok h x" using ok x by (simp add: lists_ok_def)
    have "tags h' x = tags h x" if "tag_index (tags h x) = - 1" using other [of x] False m sets [OF i] that by (auto simp: member_ok_def)
    then show ?thesis using m idx [OF False] by (auto simp: member_ok_def)
  qed (use t(3) in simp)
  ultimately show ?thesis by (simp add: lists_ok_def)
qed

text \<open>Removing a tag from its list.\<close>

lemma remove_tag_ok:
  assumes ok: "lists_ok T L h" and t: "t \<in> T" "0 \<le> tag_index (tags h t)"
  shows "\<exists>h' L'. remove_tag t h = Inr h' \<and> lists_ok T L' h' \<and> relinked h h' \<and>
    (\<forall>x. tag_index (tags h' x) = (if x = t then - 1 else tag_index (tags h x)))"
proof -
  define i where "i = nat (tag_index (tags h t))"
  from lists_member [OF ok t] have i: "tag_index (tags h t) = int i" "i < 32" "t \<in> set (L i)" and "t \<noteq> 0" using t(2) by (auto simp: i_def)
  then obtain xs ys where L: "L i = xs @ t # ys" by (meson split_list)
  have li: "list_ok T L h i" using ok i(2) by (simp add: lists_ok_def)
  then obtain q where seg: "dseg (tags h) 0 (l_freePages h i) (xs @ t # ys) q 0" and dist: "distinct (xs @ t # ys)" and sets: "set (xs @ t # ys) = {t \<in> T. tag_index (tags h t) = int i}"
    by (auto simp: list_ok_def L)
  note nb = dseg_neighbours [OF seg dist]
  define h' where "h' = h\<lparr>tags := unlink t (tags h),
    l_freePages := (l_freePages h)(i := (if l_freePages h i = t then tag_next (tags h t) else l_freePages h i))\<rparr>"
  have run: "remove_tag t h = Inr h'"
    using remove_tag_unlink [of t h] \<open>t \<noteq> 0\<close> i nb(1,2) by (simp add: h'_def)
  have idx: "tag_index (tags h' x) = (if x = t then - 1 else tag_index (tags h x))" for x by (simp add: h'_def unlink_index)
  have other: "x \<noteq> t \<Longrightarrow> x \<notin> set (L i) \<Longrightarrow> x \<noteq> 0 \<Longrightarrow> tags h' x = tags h x" for x
    using nb(3,4) by (auto simp: h'_def L intro!: unlink_other)
  have "list_ok T (L(i := xs @ ys)) h' i"
  proof -
    obtain q' where "dseg (unlink t (tags h)) 0 (if l_freePages h i = t then tag_next (tags h t) else l_freePages h i) (xs @ ys) q' 0"
      using dseg_unlink [OF seg dist] by blast
    moreover have "set (xs @ ys) = {t \<in> T. tag_index (tags h' t) = int i}" using sets dist by (auto simp: idx split: if_splits)
    ultimately show ?thesis using dist by (auto simp: list_ok_def h'_def)
  qed
  moreover have "member_ok h' t" using \<open>t \<noteq> 0\<close> by (simp add: member_ok_def h'_def unlink_def Let_def)
  ultimately have "lists_ok T (L(i := xs @ ys)) h'"
    using i(1) idx other by (intro one_list_changed [OF ok i(2)]) (auto simp: h'_def)
  moreover have "relinked h h'" by (simp add: relinked_def h'_def unlink_core)
  ultimately show ?thesis using run idx by blast
qed

lemma exp_loop_bounds: "shift \<le> 32 \<Longrightarrow> shift \<le> exp_loop shift sz \<and> exp_loop shift sz \<le> 32"
proof (induction shift sz rule: exp_loop.induct)
  case (1 shift sz)
  then show ?case by (subst (1 2) exp_loop.simps) (auto simp: MAXEXP_def)
qed

lemma list_index_bounds: "8 \<le> list_index sz" "list_index sz < 32"
  using exp_loop_bounds [of 8 sz] by (simp_all add: list_index_def getexp_def MINEXP_def)

text \<open>Inserting a tag that is in no list.\<close>

lemma insert_tag_ok:
  assumes ok: "lists_ok T L h" and t: "t \<in> T" "tag_index (tags h t) = - 1" and ix: "ix = - 1 \<or> 8 \<le> ix \<and> ix < 32"
  shows "\<exists>h' L'. insert_tag t ix h = Inr h' \<and> lists_ok T L' h' \<and> relinked h h' \<and> 0 \<le> tag_index (tags h' t) \<and>
    (ix \<noteq> - 1 \<longrightarrow> tag_index (tags h' t) = ix) \<and> (\<forall>x. x \<noteq> t \<longrightarrow> tag_index (tags h' x) = tag_index (tags h x))"
proof -
  have mt: "t \<noteq> 0" "tag_next (tags h t) = 0" "tag_prev (tags h t) = 0" using ok t by (auto simp: lists_ok_def member_ok_def)
  define r where "r = (if ix < 0 then list_index (real_size (tags h t) - 32) else ix)"
  have r: "8 \<le> r" "r < 32" using ix list_index_bounds by (auto simp: r_def)
  define i where "i = nat r"
  have i: "int i = r" "i < 32" using r by (simp_all add: i_def)
  have li: "list_ok T L h i" using ok i(2) by (simp add: lists_ok_def)
  then obtain q where seg: "dseg (tags h) 0 (l_freePages h i) (L i) q 0" and dist: "distinct (L i)" and sets: "set (L i) = {t \<in> T. tag_index (tags h t) = int i}"
    by (auto simp: list_ok_def)
  have fresh: "t \<notin> set (L j)" if "j < 32" for j using ok that t(2) by (auto simp: lists_ok_def list_ok_def)
  define a where "a = l_freePages h i"
  have a: "a = (if L i = [] then 0 else hd (L i))" using dseg_first [OF seg] by (simp add: a_def)
  have at: "a \<noteq> t" using a fresh [OF i(2)] mt(1) hd_in_set [of "L i"] by (auto split: if_splits)
  define f where "f = (tags h)(t := (tags h t)\<lparr>tag_index := r\<rparr>)"
  define g where "g = (if a \<noteq> 0 then f(a := (f a)\<lparr>tag_prev := t\<rparr>, t := (f t)\<lparr>tag_next := a\<rparr>) else f)"
  define h' where "h' = h\<lparr>tags := g, l_freePages := (l_freePages h)(i := t)\<rparr>"
  have run: "insert_tag t ix h = Inr h'"
    using mt(1) r at by (auto simp: insert_tag_def get_tag_def upd_tag_def in_array_def MAXEXP_def set_free_def Let_def
      r_def [symmetric] h'_def g_def f_def a_def i_def)
  have idx: "tag_index (tags h' x) = (if x = t then r else tag_index (tags h x))" for x by (simp add: h'_def g_def f_def)
  have gt: "tag_prev (g t) = 0" "tag_next (g t) = a" using mt at by (auto simp: g_def f_def)
  have "dseg g t a (L i) q 0" if "L i \<noteq> []" using that
  proof (cases "L i")
    case (Cons y ys)
    have "dseg (tags h) 0 a (y # ys) q 0" using seg Cons by (simp add: a_def)
    then have "dseg ((tags h)(y := (tags h y)\<lparr>tag_prev := t\<rparr>)) t a (y # ys) q 0" using Cons dist by (intro dseg_set_prev) auto
    moreover have "y \<noteq> t" "a = y" "y \<noteq> 0" using a Cons fresh [OF i(2)] dseg_nonzero [OF seg] by auto
    ultimately show ?thesis using Cons fresh [OF i(2)] at
      by (subst dseg_cong [where f = "(tags h)(y := (tags h y)\<lparr>tag_prev := t\<rparr>)"]) (auto simp: g_def f_def)
  qed simp
  then have seg': "\<exists>q. dseg g 0 t (t # L i) q 0" using gt mt(1) a by (cases "L i = []") auto
  have other: "tags h' x = tags h x" if "x \<noteq> t" "x \<notin> set (L i)" "x \<noteq> 0" for x
    using that a hd_in_set [of "L i"] by (auto simp: h'_def g_def f_def split: if_splits)
  have "list_ok T (L(i := t # L i)) h' i"
  proof -
    have "set (t # L i) = {t \<in> T. tag_index (tags h' t) = int i}" using sets t i(1) by (auto simp: idx)
    then show ?thesis using seg' dist fresh [OF i(2)] by (auto simp: list_ok_def h'_def)
  qed
  moreover have "member_ok h' t" using r mt(1) idx [of t] by (simp add: member_ok_def)
  ultimately have "lists_ok T (L(i := t # L i)) h'"
    using t(2) i(1) idx other by (intro one_list_changed [OF ok i(2)]) (auto simp: h'_def)
  moreover have "relinked h h'" by (simp add: relinked_def h'_def g_def f_def)
  moreover have "ix \<noteq> - 1 \<longrightarrow> r = ix" using ix by (auto simp: r_def)
  ultimately show ?thesis using run idx r by (intro exI [of _ h'] exI [of _ "L(i := t # L i)"]) auto
qed

section \<open>Tags and areas\<close>

definition tag_end :: "userheap \<Rightarrow> u32 \<Rightarrow> nat" where
  "tag_end h t = unat t + unat (real_size (tags h t))"

text \<open>A tag lies in an area of the process, and is chained to its neighbours there.\<close>

definition in_area :: "userheap \<Rightarrow> u32 \<Rightarrow> u32 \<times> u32 \<Rightarrow> bool" where
  "in_area h t an \<longleftrightarrow> an \<in> set (areas h) \<and> unat (fst an) \<le> unat t \<and> tag_end h t \<le> unat (fst an) + 4096 * unat (snd an) \<and>
     (split_left (tags h t) = 0 \<longleftrightarrow> t = fst an) \<and> (split_right (tags h t) = 0 \<longleftrightarrow> tag_end h t = unat (fst an) + 4096 * unat (snd an))"

definition tag_ok :: "u32 set \<Rightarrow> userheap \<Rightarrow> u32 \<Rightarrow> bool" where
  "tag_ok T h t \<longleftrightarrow> t \<noteq> 0 \<and> magic (tags h t) = LIBALLOC_MAGIC \<and> 32 \<le> unat (real_size (tags h t)) \<and>
     (let r = split_right (tags h t); l = split_left (tags h t) in
      (r \<noteq> 0 \<longrightarrow> r \<in> T \<and> unat r = tag_end h t \<and> split_left (tags h r) = t) \<and>
      (l \<noteq> 0 \<longrightarrow> l \<in> T \<and> split_right (tags h l) = t)) \<and>
     (\<exists>an. in_area h t an)"

definition areas_ok :: "u32 set \<Rightarrow> (u32 \<times> u32) list \<Rightarrow> bool" where
  "areas_ok T as \<longleftrightarrow> distinct as \<and>
     (\<forall>(a, n)\<in>set as. a \<noteq> 0 \<and> 16 \<le> unat n \<and> unat a + 4096 * unat n < 2 ^ 32 \<and> a \<in> T) \<and>
     (\<forall>(a, n)\<in>set as. \<forall>(b, m)\<in>set as. (a, n) \<noteq> (b, m) \<longrightarrow> unat a + 4096 * unat n \<le> unat b \<or> unat b + 4096 * unat m \<le> unat a)"

definition tags_ok :: "u32 set \<Rightarrow> userheap \<Rightarrow> bool" where
  "tags_ok T h \<longleftrightarrow> (\<forall>t\<in>T. tag_ok T h t) \<and> (\<forall>t\<in>T. \<forall>u\<in>T. t \<noteq> u \<longrightarrow> tag_end h t \<le> unat u \<or> tag_end h u \<le> unat t) \<and> areas_ok T (areas h)"

text \<open>Blocks in use are large enough; one tag that is being worked on may be excepted.\<close>

definition used_ok :: "u32 set \<Rightarrow> userheap \<Rightarrow> bool" where
  "used_ok T h \<longleftrightarrow> (\<forall>t\<in>T. tag_index (tags h t) = - 1 \<longrightarrow> unat (tag_size (tags h t)) + 32 \<le> unat (real_size (tags h t)))"

lemma in_area_relinked: "relinked h h' \<Longrightarrow> in_area h' t an \<longleftrightarrow> in_area h t an"
  by (simp add: in_area_def tag_end_def relinked_fields)

lemma tags_ok_relinked: "relinked h h' \<Longrightarrow> tags_ok T h' \<longleftrightarrow> tags_ok T h"
  by (simp add: tags_ok_def tag_ok_def tag_end_def relinked_fields in_area_relinked)

lemma areas_unique:
  assumes "areas_ok T as" "(a, n) \<in> set as" "(b, m) \<in> set as" "unat a \<le> k" "k < unat a + 4096 * unat n" "unat b \<le> k" "k < unat b + 4096 * unat m"
  shows "(b, m) = (a, n)"
  using assms by (fastforce simp: areas_ok_def)

lemma areas_ok_subset:
  assumes "areas_ok T as" "distinct bs" "set bs \<subseteq> set as" "\<forall>(a, n)\<in>set bs. a \<in> T'"
  shows "areas_ok T' bs"
  unfolding areas_ok_def
proof (intro conjI)
  show "\<forall>(a, n)\<in>set bs. a \<noteq> 0 \<and> 16 \<le> unat n \<and> unat a + 4096 * unat n < 2 ^ 32 \<and> a \<in> T'"
    using assms by (fastforce simp: areas_ok_def)
  show "\<forall>(a, n)\<in>set bs. \<forall>(b, m)\<in>set bs. (a, n) \<noteq> (b, m) \<longrightarrow> unat a + 4096 * unat n \<le> unat b \<or> unat b + 4096 * unat m \<le> unat a"
    using assms(1,3) by (simp add: areas_ok_def subset_eq split_beta)
qed (rule assms(2))

lemma area_bounds: "areas_ok T as \<Longrightarrow> (a, n) \<in> set as \<Longrightarrow> a \<noteq> 0 \<and> 16 \<le> unat n \<and> unat a + 4096 * unat n < 2 ^ 32 \<and> a \<in> T"
  by (auto simp: areas_ok_def)

lemma tag_bounds:
  assumes "tags_ok T h" "t \<in> T"
  shows "t \<noteq> 0" "magic (tags h t) = LIBALLOC_MAGIC" "32 \<le> unat (real_size (tags h t))" "tag_end h t < 2 ^ 32"
  using assms by (fastforce simp: tags_ok_def tag_ok_def in_area_def dest: area_bounds)+

lemma tag_plus_32:
  assumes "tags_ok T h" "t \<in> T"
  shows "unat (t + 32) = unat t + 32"
  using unat_add_small [of t 32] tag_bounds [OF assms] by (simp add: tag_end_def)

lemma tag_right:
  assumes "tags_ok T h" "t \<in> T" "split_right (tags h t) = r" "r \<noteq> 0"
  shows "r \<in> T" "unat r = tag_end h t" "split_left (tags h r) = t"
  using assms by (auto simp: tags_ok_def tag_ok_def Let_def)

lemma tag_left:
  assumes "tags_ok T h" "t \<in> T" "split_left (tags h t) = l" "l \<noteq> 0"
  shows "l \<in> T" "split_right (tags h l) = t"
  using assms by (auto simp: tags_ok_def tag_ok_def Let_def)

lemma tag_area: "tags_ok T h \<Longrightarrow> t \<in> T \<Longrightarrow> \<exists>a n. in_area h t (a, n)"
  by (auto simp: tags_ok_def tag_ok_def)

lemma in_area_unique:
  assumes "tags_ok T h" "t \<in> T" "in_area h t (a, n)" "(b, m) \<in> set (areas h)" "unat b \<le> unat t" "unat t < unat b + 4096 * unat m"
  shows "(b, m) = (a, n)"
proof (rule areas_unique)
  show "areas_ok T (areas h)" using assms(1) by (simp add: tags_ok_def)
  show "unat t < unat a + 4096 * unat n" using assms(3) tag_bounds [OF assms(1,2)] by (simp add: in_area_def tag_end_def)
qed (use assms in \<open>auto simp: in_area_def\<close>)

text \<open>Neighbours are in the same area.\<close>

lemma right_area:
  assumes ok: "tags_ok T h" and t: "t \<in> T" "split_right (tags h t) = r" "r \<noteq> 0" and a: "in_area h t (a, n)"
  shows "in_area h r (a, n)"
proof -
  note r = tag_right [OF ok t]
  obtain b m where b: "in_area h r (b, m)" using tag_area [OF ok r(1)] by blast
  have "(a, n) = (b, m)"
  proof (rule in_area_unique [OF ok r(1) b])
    show "unat r < unat a + 4096 * unat n" using a t r by (simp add: in_area_def)
    show "unat a \<le> unat r" using a r tag_bounds [OF ok t(1)] by (simp add: in_area_def tag_end_def)
    show "(a, n) \<in> set (areas h)" using a by (simp add: in_area_def)
  qed
  then show ?thesis using b by simp
qed

definition merge_tags :: "u32 \<Rightarrow> u32 \<Rightarrow> (u32 \<Rightarrow> boundary_tag) \<Rightarrow> u32 \<Rightarrow> boundary_tag" where
  "merge_tags l r f =
     (let rr = split_right (f r); f1 = f(l := (f l)\<lparr>real_size := real_size (f l) + real_size (f r), split_right := rr\<rparr>) in
      if rr \<noteq> 0 then f1(rr := (f1 rr)\<lparr>split_left := l\<rparr>) else f1)"

lemma merge_fields [simp]:
  "tag_index (merge_tags l r f x) = tag_index (f x)" "tag_next (merge_tags l r f x) = tag_next (f x)" "tag_prev (merge_tags l r f x) = tag_prev (f x)"
  "tag_size (merge_tags l r f x) = tag_size (f x)" "magic (merge_tags l r f x) = magic (f x)"
  "real_size (merge_tags l r f x) = (if x = l then real_size (f l) + real_size (f r) else real_size (f x))"
  "split_right (merge_tags l r f x) = (if x = l then split_right (f r) else split_right (f x))"
  "split_left (merge_tags l r f x) = (if x = split_right (f r) \<and> x \<noteq> 0 then l else split_left (f x))"
  by (simp_all add: merge_tags_def Let_def)

lemma tags_apart: "tags_ok T h \<Longrightarrow> t \<in> T \<Longrightarrow> u \<in> T \<Longrightarrow> t \<noteq> u \<Longrightarrow> tag_end h t \<le> unat u \<or> tag_end h u \<le> unat t"
  by (auto simp: tags_ok_def)

lemma tags_okI:
  assumes "\<And>t. t \<in> T \<Longrightarrow> t \<noteq> 0 \<and> magic (tags h t) = LIBALLOC_MAGIC \<and> 32 \<le> unat (real_size (tags h t)) \<and> (\<exists>an. in_area h t an)"
    and "\<And>t r. t \<in> T \<Longrightarrow> split_right (tags h t) = r \<Longrightarrow> r \<noteq> 0 \<Longrightarrow> r \<in> T \<and> unat r = tag_end h t \<and> split_left (tags h r) = t"
    and "\<And>t l. t \<in> T \<Longrightarrow> split_left (tags h t) = l \<Longrightarrow> l \<noteq> 0 \<Longrightarrow> l \<in> T \<and> split_right (tags h l) = t"
    and "\<And>t u. t \<in> T \<Longrightarrow> u \<in> T \<Longrightarrow> t \<noteq> u \<Longrightarrow> tag_end h t \<le> unat u \<or> tag_end h u \<le> unat t"
    and "areas_ok T (areas h)"
  shows "tags_ok T h"
  unfolding tags_ok_def tag_ok_def Let_def using assms by blast

text \<open>Merging a tag with its right neighbour.\<close>

abbreviation merged :: "u32 \<Rightarrow> u32 \<Rightarrow> userheap \<Rightarrow> userheap" where
  "merged l r h \<equiv> h\<lparr>tags := merge_tags l r (tags h)\<rparr>"

lemma merge_neighbours:
  assumes ok: "tags_ok T h" and l: "l \<in> T" "split_right (tags h l) = r" "r \<noteq> 0"
  shows "l \<noteq> r" "split_right (tags h r) \<noteq> r" "split_right (tags h r) \<noteq> l"
proof -
  note r = tag_right [OF ok l]
  show "l \<noteq> r" using r(2) tag_bounds [OF ok l(1)] by (auto simp: tag_end_def)
  show "split_right (tags h r) \<noteq> r" using tag_right [OF ok r(1), of r] tag_bounds [OF ok r(1)] by (auto simp: tag_end_def)
  show "split_right (tags h r) \<noteq> l"
    using tag_right(2) [OF ok r(1), of l] tag_bounds [OF ok l(1)] tag_bounds [OF ok r(1)] r(2) by (auto simp: tag_end_def)
qed

lemma merge_size:
  assumes ok: "tags_ok T h" and l: "l \<in> T" "split_right (tags h l) = r" "r \<noteq> 0"
  shows "unat (real_size (merge_tags l r (tags h) l)) = unat (real_size (tags h l)) + unat (real_size (tags h r))"
    and "tag_end (merged l r h) l = tag_end h r" and "t \<noteq> l \<Longrightarrow> tag_end (merged l r h) t = tag_end h t"
proof -
  note r = tag_right [OF ok l]
  have sum: "unat (real_size (tags h l) + real_size (tags h r)) = unat (real_size (tags h l)) + unat (real_size (tags h r))"
  proof (rule unat_add_small)
    have "0 < unat l" using tag_bounds [OF ok l(1)] by (simp add: unat_gt_0)
    then show "unat (real_size (tags h l)) + unat (real_size (tags h r)) < 2 ^ LENGTH(32)"
      using tag_bounds(4) [OF ok r(1)] r(2) by (simp add: tag_end_def)
  qed
  then show "unat (real_size (merge_tags l r (tags h) l)) = unat (real_size (tags h l)) + unat (real_size (tags h r))" by simp
  show "tag_end (merged l r h) l = tag_end h r" using r(2) sum by (simp add: tag_end_def)
  show "t \<noteq> l \<Longrightarrow> tag_end (merged l r h) t = tag_end h t" by (simp add: tag_end_def)
qed

lemma merge_area:
  assumes ok: "tags_ok T h" and l: "l \<in> T" "split_right (tags h l) = r" "r \<noteq> 0" and t: "t \<in> T - {r}" "in_area h t (a, n)"
  shows "in_area (merged l r h) t (a, n)"
proof (cases "t = l")
  case True
  then have "in_area h r (a, n)" using right_area [OF ok l] t(2) by simp
  then show ?thesis using True t(2) merge_size(2) [OF ok l] merge_neighbours [OF ok l] by (simp add: in_area_def)
next
  case False
  have "split_left (tags h t) \<noteq> 0" if "t = split_right (tags h r)" "t \<noteq> 0"
    using tag_right(3) [OF ok tag_right(1) [OF ok l] that(1) [symmetric] that(2)] l(3) by simp
  then show ?thesis using False t(2) merge_size(3) [OF ok l False] tag_bounds(1) [OF ok l(1)] by (auto simp: in_area_def)
qed

lemma merge_right:
  assumes ok: "tags_ok T h" and l: "l \<in> T" "split_right (tags h l) = r" "r \<noteq> 0"
    and t: "t \<in> T - {r}" "split_right (tags (merged l r h) t) = x" "x \<noteq> 0"
  shows "x \<in> T - {r} \<and> unat x = tag_end (merged l r h) t \<and> split_left (tags (merged l r h) x) = t"
proof (cases "t = l")
  case True
  note r = tag_right [OF ok l]
  have x: "split_right (tags h r) = x" using t(2) True by simp
  show ?thesis using tag_right [OF ok r(1) x t(3)] True merge_size(2) [OF ok l] merge_neighbours(2) [OF ok l] x t(3) by auto
next
  case False
  note r = tag_right [OF ok l]
  have x: "split_right (tags h t) = x" using t(2) False by simp
  note x' = tag_right [OF ok _ x t(3)]
  have "x \<noteq> r" using x' t False r(3) by auto
  moreover have "x \<noteq> split_right (tags h r)" using x' t tag_right [OF ok r(1), of x] by auto
  ultimately show ?thesis using x' t(1) merge_size(3) [OF ok l False] by auto
qed

lemma merge_left:
  assumes ok: "tags_ok T h" and l: "l \<in> T" "split_right (tags h l) = r" "r \<noteq> 0"
    and t: "t \<in> T - {r}" "split_left (tags (merged l r h) t) = x" "x \<noteq> 0"
  shows "x \<in> T - {r} \<and> split_right (tags (merged l r h) x) = t"
proof (cases "t = split_right (tags h r) \<and> t \<noteq> 0")
  case True
  then show ?thesis using t l(1) merge_neighbours(1) [OF ok l] by auto
next
  case False
  then have x: "split_left (tags h t) = x" using t(2) by auto
  have "t \<in> T" "t \<noteq> r" "t \<noteq> 0" using t(1) tag_bounds [OF ok] by auto
  note x' = tag_left [OF ok \<open>t \<in> T\<close> x t(3)]
  have "x \<noteq> l" using x' l(2) \<open>t \<noteq> r\<close> by auto
  moreover have "x \<noteq> r" using x' False \<open>t \<noteq> 0\<close> by auto
  ultimately show ?thesis using x' by simp
qed

lemma merge_apart:
  assumes ok: "tags_ok T h" and l: "l \<in> T" "split_right (tags h l) = r" "r \<noteq> 0" and tu: "t \<in> T - {r}" "u \<in> T - {r}" "t \<noteq> u"
  shows "tag_end (merged l r h) t \<le> unat u \<or> tag_end (merged l r h) u \<le> unat t"
proof -
  note r = tag_right [OF ok l]
  have *: "tag_end h r \<le> unat u \<or> tag_end h u \<le> unat l" if "u \<in> T" "u \<noteq> l" "u \<noteq> r" for u
    using tags_apart [OF ok l(1) that(1)] tags_apart [OF ok r(1) that(1)] that r(2) tag_bounds [OF ok that(1)] by (auto simp: tag_end_def)
  show ?thesis
  proof (cases "t = l \<or> u = l")
    case True
    then show ?thesis using * [of t] * [of u] tu merge_size(2,3) [OF ok l] by auto
  next
    case False
    then show ?thesis using tags_apart [OF ok, of t u] tu merge_size(3) [OF ok l] by auto
  qed
qed

lemma merge_areas:
  assumes ok: "tags_ok T h" and l: "l \<in> T" "split_right (tags h l) = r" "r \<noteq> 0"
  shows "areas_ok (T - {r}) (areas h)"
proof -
  note r = tag_right [OF ok l]
  have ar: "areas_ok T (areas h)" using ok by (simp add: tags_ok_def)
  have "a \<noteq> r" if a: "(a, n) \<in> set (areas h)" for a n
  proof
    assume "a = r"
    obtain b m where b: "in_area h r (b, m)" using tag_area [OF ok r(1)] by blast
    have "(a, n) = (b, m)" by (rule in_area_unique [OF ok r(1) b a]) (use area_bounds [OF ar a] \<open>a = r\<close> in auto)
    then have "split_left (tags h r) = 0" using b \<open>a = r\<close> by (simp add: in_area_def)
    then show False using r(3) tag_bounds [OF ok l(1)] by simp
  qed
  then show ?thesis using ar by (fastforce simp: areas_ok_def)
qed

lemma merge_ok:
  assumes ok: "tags_ok T h" and l: "l \<in> T" "split_right (tags h l) = r" "r \<noteq> 0"
  shows "tags_ok (T - {r}) (merged l r h)"
    and "tag_end (merged l r h) l = tag_end h r"
    and "unat (real_size (merge_tags l r (tags h) l)) = unat (real_size (tags h l)) + unat (real_size (tags h r))"
proof -
  note size = merge_size [OF ok l]
  show "tag_end (merged l r h) l = tag_end h r" by (rule size(2))
  show "unat (real_size (merge_tags l r (tags h) l)) = unat (real_size (tags h l)) + unat (real_size (tags h r))" by (rule size(1))
  show "tags_ok (T - {r}) (merged l r h)"
  proof (rule tags_okI)
    fix t assume t: "t \<in> T - {r}"
    then obtain a n where "in_area h t (a, n)" using tag_area [OF ok] by blast
    then have "in_area (merged l r h) t (a, n)" by (rule merge_area [OF ok l t])
    moreover have "32 \<le> unat (real_size (tags (merged l r h) t))" using t tag_bounds [OF ok] size(1) by (cases "t = l") (auto simp: trans_le_add1 l)
    ultimately show "t \<noteq> 0 \<and> magic (tags (merged l r h) t) = LIBALLOC_MAGIC \<and> 32 \<le> unat (real_size (tags (merged l r h) t)) \<and> (\<exists>an. in_area (merged l r h) t an)"
      using t tag_bounds [OF ok] by auto
  next
    show "areas_ok (T - {r}) (areas (merged l r h))" using merge_areas [OF ok l] by simp
  qed (rule merge_right [OF ok l] merge_left [OF ok l] merge_apart [OF ok l]; assumption)+
qed

text \<open>Splitting the rest of a block off.\<close>

definition cut_tag :: "u32 \<Rightarrow> u32 \<Rightarrow> (u32 \<Rightarrow> boundary_tag) \<Rightarrow> u32 \<Rightarrow> boundary_tag" where
  "cut_tag t new f =
     (let sr = split_right (f t); rest = real_size (f t) - (new - t);
          f1 = f(new := (f new)\<lparr>magic := LIBALLOC_MAGIC, real_size := rest, tag_next := 0, tag_prev := 0, split_left := t, split_right := sr\<rparr>);
          f2 = (if sr \<noteq> 0 then f1(sr := (f1 sr)\<lparr>split_left := new\<rparr>) else f1) in
      f2(t := (f2 t)\<lparr>split_right := new, real_size := new - t\<rparr>))"

lemma cut_fields:
  assumes "new \<noteq> t" "split_right (f t) \<noteq> new" "split_right (f t) \<noteq> t"
  shows "tag_index (cut_tag t new f x) = tag_index (f x)" "tag_size (cut_tag t new f x) = tag_size (f x)"
    "tag_next (cut_tag t new f x) = (if x = new then 0 else tag_next (f x))" "tag_prev (cut_tag t new f x) = (if x = new then 0 else tag_prev (f x))"
    "magic (cut_tag t new f x) = (if x = new then LIBALLOC_MAGIC else magic (f x))"
    "real_size (cut_tag t new f x) = (if x = new then real_size (f t) - (new - t) else if x = t then new - t else real_size (f x))"
    "split_right (cut_tag t new f x) = (if x = new then split_right (f t) else if x = t then new else split_right (f x))"
    "split_left (cut_tag t new f x) = (if x = new then t else if x = split_right (f t) \<and> x \<noteq> 0 then new else split_left (f x))"
  using assms by (auto simp: cut_tag_def Let_def)

abbreviation cut :: "u32 \<Rightarrow> u32 \<Rightarrow> userheap \<Rightarrow> userheap" where
  "cut t new h \<equiv> h\<lparr>tags := cut_tag t new (tags h)\<rparr>"

text \<open>A new tag in the middle of the tag \<open>t\<close>.\<close>

definition inside :: "u32 set \<Rightarrow> userheap \<Rightarrow> u32 \<Rightarrow> u32 \<Rightarrow> bool" where
  "inside T h t new \<longleftrightarrow> tags_ok T h \<and> t \<in> T \<and> unat t + 32 \<le> unat new \<and> unat new + 32 \<le> tag_end h t"

lemma inside_new:
  assumes "inside T h t new"
  shows "new \<notin> T" "new \<noteq> 0" "new \<noteq> t" "split_right (tags h t) \<noteq> new" "split_right (tags h t) \<noteq> t"
proof -
  have ok: "tags_ok T h" "t \<in> T" "unat t + 32 \<le> unat new" "unat new + 32 \<le> tag_end h t" using assms by (simp_all add: inside_def)
  show n: "new \<noteq> 0" "new \<noteq> t" using ok(3) by auto
  show nT: "new \<notin> T" using tags_apart [OF ok(1,2), of new] tag_bounds [OF ok(1), of new] ok(3,4) n(2) by (auto simp: tag_end_def)
  show "split_right (tags h t) \<noteq> new" using tag_right(1) [OF ok(1,2) refl] nT n(1) by auto
  show "split_right (tags h t) \<noteq> t" using tag_right(2) [OF ok(1,2) refl] tag_bounds [OF ok(1,2)] by (auto simp: tag_end_def)
qed

lemma inside_ok: "inside T h t new \<Longrightarrow> tags_ok T h" "inside T h t new \<Longrightarrow> t \<in> T" "inside T h t new \<Longrightarrow> unat t + 32 \<le> unat new" "inside T h t new \<Longrightarrow> unat new + 32 \<le> tag_end h t"
  by (simp_all add: inside_def)

lemmas inside_fields = cut_fields [where f = "tags h", OF inside_new(3,4,5)] for h

lemma cut_sizes:
  assumes "inside T h t new"
  shows "unat (new - t) = unat new - unat t" "unat (real_size (tags h t) - (new - t)) = tag_end h t - unat new"
proof -
  show d: "unat (new - t) = unat new - unat t" using inside_ok(3) [OF assms] by (intro unat_sub_small) (simp add: word_le_nat_alt)
  then show "unat (real_size (tags h t) - (new - t)) = tag_end h t - unat new"
    using inside_ok(3,4) [OF assms] by (subst unat_sub_small) (auto simp: word_le_nat_alt tag_end_def)
qed

lemma cut_ends:
  assumes "inside T h t new"
  shows "tag_end (cut t new h) t = unat new" "tag_end (cut t new h) new = tag_end h t" "x \<noteq> t \<Longrightarrow> x \<noteq> new \<Longrightarrow> tag_end (cut t new h) x = tag_end h x"
  using inside_ok(3,4) [OF assms] cut_sizes [OF assms] inside_new(3) [OF assms] by (auto simp: tag_end_def inside_fields [OF assms assms assms])

lemma cut_area:
  assumes "inside T h t new" "in_area h t (a, m)"
  shows "in_area (cut t new h) t (a, m)" "in_area (cut t new h) new (a, m)"
proof -
  note e = cut_ends [OF assms(1)] and i = inside_ok [OF assms(1)] and n = inside_new [OF assms(1)]
  show "in_area (cut t new h) t (a, m)" using assms(2) e i n by (auto simp: in_area_def inside_fields [OF assms(1) assms(1) assms(1)])
  have "new \<noteq> a" using i(3) assms(2) by (auto simp: in_area_def)
  then show "in_area (cut t new h) new (a, m)" using assms(2) e i tag_bounds(1) [OF i(1,2)] by (simp add: in_area_def inside_fields [OF assms(1) assms(1) assms(1)])
qed

lemma cut_area_other:
  assumes ins: "inside T h t new" and x: "x \<in> T" "x \<noteq> t" "in_area h x (b, k)"
  shows "in_area (cut t new h) x (b, k)"
proof -
  note i = inside_ok [OF ins] and n = inside_new [OF ins]
  have "x \<noteq> new" using x(1) n(1) by auto
  moreover have "split_left (tags h x) \<noteq> 0" if "x = split_right (tags h t)" "x \<noteq> 0" using tag_right(3) [OF i(1,2), of x] that tag_bounds(1) [OF i(1,2)] by auto
  ultimately show ?thesis using x cut_ends(3) [OF ins, of x] n(2) by (auto simp: in_area_def inside_fields [OF ins ins ins])
qed

lemma cut_tags:
  assumes ins: "inside T h t new" and x: "x \<in> insert new T"
  shows "x \<noteq> 0 \<and> magic (tags (cut t new h) x) = LIBALLOC_MAGIC \<and> 32 \<le> unat (real_size (tags (cut t new h) x)) \<and> (\<exists>an. in_area (cut t new h) x an)"
proof -
  note i = inside_ok [OF ins] and n = inside_new [OF ins]
  obtain a m where a: "in_area h t (a, m)" using tag_area [OF i(1,2)] by blast
  have "\<exists>an. in_area (cut t new h) x an"
  proof (cases "x = t \<or> x = new")
    case False
    then obtain b k where "in_area h x (b, k)" using tag_area [OF i(1), of x] x by auto
    then show ?thesis using cut_area_other [OF ins, of x b k] x False by auto
  qed (use cut_area [OF ins a] in auto)
  moreover have "32 \<le> unat (real_size (tags (cut t new h) x))" using x tag_bounds(3) [OF i(1)] i(3,4) cut_sizes [OF ins] n(3) by (auto simp: inside_fields [OF ins ins ins])
  ultimately show ?thesis using x tag_bounds [OF i(1)] n(2) by (auto simp: inside_fields [OF ins ins ins])
qed

lemma cut_right:
  assumes ins: "inside T h t new" and x: "x \<in> insert new T" "split_right (tags (cut t new h) x) = y" "y \<noteq> 0"
  shows "y \<in> insert new T \<and> unat y = tag_end (cut t new h) x \<and> split_left (tags (cut t new h) y) = x"
proof (cases "x = t \<or> x = new")
  case True
  then show ?thesis using x cut_ends [OF ins] tag_right [OF inside_ok(1) [OF ins] inside_ok(2) [OF ins], of y] inside_new(3,4) [OF ins] by (auto simp: inside_fields [OF ins ins ins])
next
  case False
  note i = inside_ok [OF ins]
  have y: "split_right (tags h x) = y" "x \<in> T" using x False by (auto simp: inside_fields [OF ins ins ins])
  note y' = tag_right [OF i(1) y(2,1) x(3)]
  have "y \<noteq> split_right (tags h t)" using y' tag_right(3) [OF i(1,2), of y] False x(3) by auto
  then show ?thesis using y' False cut_ends(3) [OF ins, of x] inside_new(1) [OF ins] by (auto simp: inside_fields [OF ins ins ins])
qed

lemma cut_left:
  assumes ins: "inside T h t new" and x: "x \<in> insert new T" "split_left (tags (cut t new h) x) = y" "y \<noteq> 0"
  shows "y \<in> insert new T \<and> split_right (tags (cut t new h) y) = x"
proof (cases "x = new \<or> x = split_right (tags h t)")
  case True
  then show ?thesis using x inside_ok(2) [OF ins] inside_new [OF ins] tag_bounds(1) [OF inside_ok(1) [OF ins]] by (auto simp: inside_fields [OF ins ins ins])
next
  case False
  then have y: "split_left (tags h x) = y" "x \<in> T" using x by (auto simp: inside_fields [OF ins ins ins])
  note y' = tag_left [OF inside_ok(1) [OF ins] y(2,1) x(3)]
  have "y \<noteq> t" using y' False by auto
  then show ?thesis using y' inside_new(1) [OF ins] by (auto simp: inside_fields [OF ins ins ins])
qed

lemma cut_apart:
  assumes ins: "inside T h t new" and xy: "x \<in> insert new T" "y \<in> insert new T" "x \<noteq> y"
  shows "tag_end (cut t new h) x \<le> unat y \<or> tag_end (cut t new h) y \<le> unat x"
proof -
  note i = inside_ok [OF ins] and e = cut_ends [OF ins]
  have *: "tag_end h z \<le> unat t \<or> tag_end h t \<le> unat z" if "z \<in> T" "z \<noteq> t" for z using tags_apart [OF i(1) that(1) i(2) that(2)] .
  show ?thesis
    using xy * [of x] * [of y] tags_apart [OF i(1), of x y] e(1,2) e(3) [of x] e(3) [of y] i(3,4)
    by (cases "x = t"; cases "y = t"; cases "x = new"; cases "y = new") auto
qed

lemma cut_ok:
  assumes ok: "tags_ok T h" and t: "t \<in> T" and d: "32 \<le> unat d" "unat d + 32 \<le> unat (real_size (tags h t))"
  shows "tags_ok (insert (t + d) T) (cut t (t + d) h)"
    and "t + d \<notin> T" "t + d \<noteq> 0" "split_right (tags h t) \<noteq> t + d" "split_right (tags h t) \<noteq> t"
proof -
  have "unat (t + d) = unat t + unat d" using tag_bounds [OF ok t] d by (intro unat_add_small) (simp add: tag_end_def)
  then have ins: "inside T h t (t + d)" using ok t d by (simp add: inside_def tag_end_def)
  show "tags_ok (insert (t + d) T) (cut t (t + d) h)"
  proof (rule tags_okI)
    show "areas_ok (insert (t + d) T) (areas (cut t (t + d) h))" using ok by (fastforce simp: tags_ok_def areas_ok_def)
  qed (rule cut_tags [OF ins] cut_right [OF ins] cut_left [OF ins] cut_apart [OF ins]; assumption)+
  show "t + d \<notin> T" "t + d \<noteq> 0" "split_right (tags h t) \<noteq> t + d" "split_right (tags h t) \<noteq> t" using inside_new [OF ins] by auto
qed

section \<open>Working on one tag\<close>

lemma lists_ok_cong:
  assumes "lists_ok T L h" "l_freePages h' = l_freePages h"
    and "\<And>x. x \<in> T \<Longrightarrow> tag_index (tags h' x) = tag_index (tags h x) \<and> tag_next (tags h' x) = tag_next (tags h x) \<and> tag_prev (tags h' x) = tag_prev (tags h x)"
  shows "lists_ok T L h'"
proof -
  have "list_ok T L h' i" if i: "i < 32" for i
  proof -
    have l: "list_ok T L h i" using assms(1) i by (simp add: lists_ok_def)
    then have "dseg (tags h') 0 (l_freePages h i) (L i) q 0 = dseg (tags h) 0 (l_freePages h i) (L i) q 0" for q
      using assms(3) by (intro dseg_cong) (auto simp: list_ok_def)
    moreover have "{t \<in> T. tag_index (tags h' t) = int i} = {t \<in> T. tag_index (tags h t) = int i}" using assms(3) by auto
    ultimately show ?thesis using l assms(2) by (simp add: list_ok_def)
  qed
  then show ?thesis using assms by (auto simp: lists_ok_def member_ok_def)
qed

lemma lists_ok_drop: "lists_ok T L h \<Longrightarrow> tag_index (tags h t) = - 1 \<Longrightarrow> lists_ok (T - {t}) L h"
  by (auto simp: lists_ok_def list_ok_def)

lemma lists_ok_add: "lists_ok T L h \<Longrightarrow> t \<noteq> 0 \<Longrightarrow> tag_index (tags h t) = - 1 \<Longrightarrow> tag_next (tags h t) = 0 \<Longrightarrow> tag_prev (tags h t) = 0 \<Longrightarrow>
    lists_ok (insert t T) L h"
  by (auto simp: lists_ok_def list_ok_def member_ok_def)

text \<open>A tag is taken out of the lists while it is worked on; all other blocks are as they should be.\<close>

definition holding :: "u32 set \<Rightarrow> (nat \<Rightarrow> u32 list) \<Rightarrow> userheap \<Rightarrow> u32 \<Rightarrow> bool" where
  "holding T L h t \<longleftrightarrow> lists_ok T L h \<and> tags_ok T h \<and> used_ok (T - {t}) h \<and> t \<in> T \<and> tag_index (tags h t) = - 1"

definition heap_ok :: "u32 set \<Rightarrow> (nat \<Rightarrow> u32 list) \<Rightarrow> userheap \<Rightarrow> bool" where
  "heap_ok T L h \<longleftrightarrow> lists_ok T L h \<and> tags_ok T h \<and> used_ok T h"

text \<open>The blocks in use: their tags and sizes.\<close>

definition busy :: "u32 set \<Rightarrow> userheap \<Rightarrow> (u32 \<times> u32) set" where
  "busy T h = {(t, tag_size (tags h t)) |t. t \<in> T \<and> tag_index (tags h t) = - 1}"

lemma busy_iff: "(t, n) \<in> busy T h \<longleftrightarrow> t \<in> T \<and> tag_index (tags h t) = - 1 \<and> n = tag_size (tags h t)"
  by (auto simp: busy_def)

lemma busy_cong:
  assumes "\<And>x. (x \<in> T' \<and> tag_index (tags h' x) = - 1) \<longleftrightarrow> (x \<in> T \<and> tag_index (tags h x) = - 1)"
    and "\<And>x. x \<in> T \<Longrightarrow> tag_size (tags h' x) = tag_size (tags h x)"
  shows "busy T' h' = busy T h"
  unfolding busy_def using assms by (auto; metis)

definition same_rest :: "userheap \<Rightarrow> userheap \<Rightarrow> bool" where
  "same_rest h h' \<longleftrightarrow> l_completePages h' = l_completePages h \<and> l_initialized h' = l_initialized h \<and> bytes h' = bytes h \<and> areas h' = areas h"

lemma same_rest_refl [simp]: "same_rest h h" and same_rest_trans: "same_rest h h' \<Longrightarrow> same_rest h' h'' \<Longrightarrow> same_rest h h''"
  by (simp_all add: same_rest_def)

lemma relinked_rest: "relinked h h' \<Longrightarrow> same_rest h h'"
  by (simp add: same_rest_def relinked_fields)

lemma melt_left_run:
  assumes "tag \<noteq> 0" "split_left (tags h tag) \<noteq> 0"
  shows "melt_left tag h = Inr (h\<lparr>tags := merge_tags (split_left (tags h tag)) tag (tags h)\<rparr>, split_left (tags h tag))"
  using assms by (simp add: melt_left_def get_tag_def upd_tag_def merge_tags_def Let_def)

lemma absorb_right_run:
  assumes "tag \<noteq> 0" "split_right (tags h tag) = r" "r \<noteq> 0" "remove_tag r h = Inr h'"
  shows "absorb_right tag h = Inr (h'\<lparr>tags := merge_tags tag r (tags h')\<rparr>)"
  using assms by (simp add: absorb_right_def get_tag_def upd_tag_def merge_tags_def Let_def)

text \<open>The tag swallows its left neighbour, or its right one.\<close>

lemma melt_left_holding:
  assumes hold: "holding T L h t" and l: "split_left (tags h t) = l" "l \<noteq> 0" "0 \<le> tag_index (tags h l)"
  shows "\<exists>h1 h2 L2. melt_left t h = Inr (h1, l) \<and> remove_tag l h1 = Inr h2 \<and> holding (T - {t}) L2 h2 l \<and>
    busy (T - {t} - {l}) h2 = busy (T - {t}) h \<and> same_rest h h2"
proof -
  have ok: "lists_ok T L h" "tags_ok T h" "used_ok (T - {t}) h" "t \<in> T" "tag_index (tags h t) = - 1" using hold by (auto simp: holding_def)
  have t0: "t \<noteq> 0" using tag_bounds [OF ok(2,4)] by simp
  note lT = tag_left [OF ok(2,4) l(1,2)]
  have lt: "l \<noteq> t" using l(3) ok(5) by auto
  define h1 where "h1 = h\<lparr>tags := merge_tags l t (tags h)\<rparr>"
  have run1: "melt_left t h = Inr (h1, l)" using melt_left_run [OF t0] l by (simp add: h1_def)
  have tags1: "tags_ok (T - {t}) h1" unfolding h1_def using merge_ok(1) [OF ok(2) lT t0] .
  have lists1: "lists_ok (T - {t}) L h1" by (rule lists_ok_cong [OF lists_ok_drop [OF ok(1,5)]]) (simp_all add: h1_def)
  have "l \<in> T - {t}" "0 \<le> tag_index (tags h1 l)" using lT lt l(3) by (auto simp: h1_def)
  from remove_tag_ok [OF lists1 this] obtain h2 L2 where run2: "remove_tag l h1 = Inr h2" and lists2: "lists_ok (T - {t}) L2 h2"
    and re: "relinked h1 h2" and idx: "\<And>x. tag_index (tags h2 x) = (if x = l then - 1 else tag_index (tags h1 x))" by blast
  have "tags_ok (T - {t}) h2" using tags1 tags_ok_relinked [OF re] by simp
  moreover have "used_ok (T - {t} - {l}) h2" using ok(3) by (auto simp: used_ok_def idx relinked_fields [OF re] h1_def)
  ultimately have "holding (T - {t}) L2 h2 l" using lists2 lT lt idx by (simp add: holding_def)
  moreover have "busy (T - {t} - {l}) h2 = busy (T - {t}) h" by (rule busy_cong) (use l(3) in \<open>auto simp: idx relinked_fields [OF re] h1_def\<close>)
  moreover have "same_rest h h2" using same_rest_trans [OF _ relinked_rest [OF re], of h] by (simp add: h1_def same_rest_def)
  ultimately show ?thesis using run1 run2 by blast
qed

lemma absorb_right_holding:
  assumes hold: "holding T L h t" and r: "split_right (tags h t) = r" "r \<noteq> 0" "0 \<le> tag_index (tags h r)"
  shows "\<exists>h2 L2. absorb_right t h = Inr h2 \<and> holding (T - {r}) L2 h2 t \<and> busy (T - {r} - {t}) h2 = busy (T - {t}) h \<and> same_rest h h2"
proof -
  have ok: "lists_ok T L h" "tags_ok T h" "used_ok (T - {t}) h" "t \<in> T" "tag_index (tags h t) = - 1" using hold by (auto simp: holding_def)
  have t0: "t \<noteq> 0" using tag_bounds [OF ok(2,4)] by simp
  note rT = tag_right [OF ok(2,4) r(1,2)]
  have rt: "r \<noteq> t" using r(3) ok(5) by auto
  from remove_tag_ok [OF ok(1) rT(1) r(3)] obtain h1 L1 where run1: "remove_tag r h = Inr h1" and lists1: "lists_ok T L1 h1"
    and re: "relinked h h1" and idx: "\<And>x. tag_index (tags h1 x) = (if x = r then - 1 else tag_index (tags h x))" by blast
  define h2 where "h2 = h1\<lparr>tags := merge_tags t r (tags h1)\<rparr>"
  have run2: "absorb_right t h = Inr h2" using absorb_right_run [OF t0 r(1,2) run1] by (simp add: h2_def)
  have "tags_ok T h1" "split_right (tags h1 t) = r" using ok(2) tags_ok_relinked [OF re] r(1) relinked_fields [OF re] by simp_all
  from merge_ok(1) [OF this(1) ok(4) this(2) r(2)] have tags2: "tags_ok (T - {r}) h2" by (simp add: h2_def)
  have lists2: "lists_ok (T - {r}) L1 h2" by (rule lists_ok_cong [OF lists_ok_drop [OF lists1]]) (simp_all add: h2_def idx)
  have "used_ok (T - {r} - {t}) h2" using ok(3) by (auto simp: used_ok_def idx relinked_fields [OF re] h2_def)
  then have "holding (T - {r}) L1 h2 t" using lists2 tags2 ok rt by (simp add: holding_def h2_def idx)
  moreover have "busy (T - {r} - {t}) h2 = busy (T - {t}) h" by (rule busy_cong) (use r(3) in \<open>auto simp: idx relinked_fields [OF re] h2_def\<close>)
  moreover have "same_rest h h2" using relinked_rest [OF re] by (simp add: h2_def same_rest_def)
  ultimately show ?thesis using run2 by blast
qed

section \<open>Freeing\<close>

lemma card_less: "t \<in> T \<Longrightarrow> card (T - {t}) < card (T :: u32 set)"
  by (rule card_Diff1_less) simp_all

lemma melt_left_loop_ok:
  assumes "holding T L h t" "card T \<le> n"
  shows "\<exists>T' L' h' t'. melt_left_loop n t h = Inr (h', t') \<and> holding T' L' h' t' \<and> busy (T' - {t'}) h' = busy (T - {t}) h \<and> same_rest h h' \<and> card T' \<le> card T"
  using assms
proof (induction n arbitrary: T L h t)
  case 0
  then show ?case by (auto simp: holding_def card_eq_0_iff)
next
  case (Suc n)
  have ok: "tags_ok T h" "t \<in> T" using Suc.prems by (auto simp: holding_def)
  have t0: "t \<noteq> 0" using tag_bounds [OF ok] by simp
  let ?l = "split_left (tags h t)"
  show ?case
  proof (cases "?l \<noteq> 0 \<and> 0 \<le> tag_index (tags h ?l)")
    case True
    then obtain h1 h2 L2 where step: "melt_left t h = Inr (h1, ?l)" "remove_tag ?l h1 = Inr h2" "holding (T - {t}) L2 h2 ?l"
        "busy (T - {t} - {?l}) h2 = busy (T - {t}) h" "same_rest h h2"
      using melt_left_holding [OF Suc.prems(1) refl] by blast
    have "card (T - {t}) \<le> n" using card_less [OF ok(2)] Suc.prems(2) by simp
    from Suc.IH [OF step(3) this] obtain T' L' h' t' where "melt_left_loop n ?l h2 = Inr (h', t')" "holding T' L' h' t'"
        "busy (T' - {t'}) h' = busy (T - {t} - {?l}) h2" "same_rest h2 h'" "card T' \<le> card (T - {t})" by blast
    moreover from this have "card T' \<le> card T" using card_less [OF ok(2)] by simp
    ultimately show ?thesis using True t0 step same_rest_trans [OF step(5)] by (auto simp: get_tag_def)
  next
    case False
    then have "melt_left_loop (Suc n) t h = Inr (h, t)" using t0 by (auto simp: get_tag_def)
    then show ?thesis using Suc.prems(1) by auto
  qed
qed

lemma melt_right_loop_ok:
  assumes "holding T L h t" "card T \<le> n"
  shows "\<exists>T' L' h'. melt_right_loop n t h = Inr h' \<and> holding T' L' h' t \<and> busy (T' - {t}) h' = busy (T - {t}) h \<and> same_rest h h'"
  using assms
proof (induction n arbitrary: T L h)
  case 0
  then show ?case by (auto simp: holding_def card_eq_0_iff)
next
  case (Suc n)
  have ok: "tags_ok T h" "t \<in> T" using Suc.prems by (auto simp: holding_def)
  have t0: "t \<noteq> 0" using tag_bounds [OF ok] by simp
  let ?r = "split_right (tags h t)"
  show ?case
  proof (cases "?r \<noteq> 0 \<and> 0 \<le> tag_index (tags h ?r)")
    case True
    then obtain h2 L2 where step: "absorb_right t h = Inr h2" "holding (T - {?r}) L2 h2 t" "busy (T - {?r} - {t}) h2 = busy (T - {t}) h" "same_rest h h2"
      using absorb_right_holding [OF Suc.prems(1) refl] by blast
    have "card (T - {?r}) \<le> n" using card_less [of ?r T] tag_right(1) [OF ok refl] True Suc.prems(2) by simp
    from Suc.IH [OF step(2) this] obtain T' L' h' where "melt_right_loop n t h2 = Inr h'" "holding T' L' h' t"
        "busy (T' - {t}) h' = busy (T - {?r} - {t}) h2" "same_rest h2 h'" by blast
    then show ?thesis using True t0 step same_rest_trans [OF step(4)] by (auto simp: get_tag_def)
  next
    case False
    then have "melt_right_loop (Suc n) t h = Inr h" using t0 by (auto simp: get_tag_def)
    then show ?thesis using Suc.prems(1) by auto
  qed
qed

text \<open>A whole area is given back to the kernel.\<close>

lemma whole_area:
  assumes "tags_ok T h" "t \<in> T" "split_left (tags h t) = 0" "split_right (tags h t) = 0"
  shows "\<exists>n. (t, n) \<in> set (areas h) \<and> unat (real_size (tags h t)) = 4096 * unat n \<and> 16 \<le> unat n"
proof -
  obtain a n where a: "in_area h t (a, n)" using tag_area [OF assms(1,2)] by blast
  moreover have "areas_ok T (areas h)" using assms(1) by (simp add: tags_ok_def)
  ultimately show ?thesis using assms(3,4) area_bounds [of T "areas h" a n] by (auto simp: in_area_def tag_end_def)
qed

lemma page_number_whole:
  assumes "unat sz = 4096 * unat n" "16 \<le> unat n"
  shows "page_number sz = n"
proof -
  have "sz div l_pageSize = n" by (rule word_unat_eq_iff [THEN iffD2]) (simp add: l_pageSize_def unat_div assms(1))
  moreover have "sz mod l_pageSize = 0" by (rule word_unat_eq_iff [THEN iffD2]) (simp add: l_pageSize_def unat_mod assms(1))
  moreover have "\<not> n < l_pageCount" using assms(2) by (simp add: l_pageCount_def word_less_nat_alt)
  ultimately show ?thesis by (simp add: page_number_def)
qed

lemma release_ok:
  assumes ok: "tags_ok T h" and t: "t \<in> T" "split_left (tags h t) = 0" "split_right (tags h t) = 0"
  shows "tags_ok (T - {t}) (liballoc_free t (page_number (real_size (tags h t))) h)" (is "tags_ok ?T ?h")
proof -
  obtain n where n: "(t, n) \<in> set (areas h)" "unat (real_size (tags h t)) = 4096 * unat n" "16 \<le> unat n"
    using whole_area [OF ok t] by blast
  have pn: "page_number (real_size (tags h t)) = n" using page_number_whole n by simp
  have ar: "areas_ok T (areas h)" using ok by (simp add: tags_ok_def)
  then have set_areas: "set (areas ?h) = set (areas h) - {(t, n)}" by (simp add: liballoc_free_def pn areas_ok_def)
  have same: "tags ?h = tags h" "tag_end ?h = tag_end h" by (simp_all add: liballoc_free_def tag_end_def fun_eq_iff)
  have area: "in_area ?h x (a, m)" if x: "x \<in> ?T" "in_area h x (a, m)" for x a m
  proof -
    have "(a, m) \<noteq> (t, n)"
      using tags_apart [OF ok t(1), of x] x n(2) tag_bounds(3) [OF ok, of x] by (auto simp: in_area_def tag_end_def)
    then show ?thesis using x by (simp add: in_area_def set_areas same)
  qed
  show ?thesis
  proof (rule tags_okI)
    fix x assume x: "x \<in> ?T"
    then obtain a m where "in_area h x (a, m)" using tag_area [OF ok, of x] by auto
    from area [OF x this] show "x \<noteq> 0 \<and> magic (tags ?h x) = LIBALLOC_MAGIC \<and> 32 \<le> unat (real_size (tags ?h x)) \<and> (\<exists>an. in_area ?h x an)"
      using x tag_bounds [OF ok, of x] by (auto simp: same)
  next
    fix x r assume x: "x \<in> ?T" "split_right (tags ?h x) = r" "r \<noteq> 0"
    then show "r \<in> ?T \<and> unat r = tag_end ?h x \<and> split_left (tags ?h r) = x"
      using tag_right [OF ok, of x r] tag_bounds(1) [OF ok, of x] t(2) by (auto simp: same)
  next
    fix x l assume x: "x \<in> ?T" "split_left (tags ?h x) = l" "l \<noteq> 0"
    then show "l \<in> ?T \<and> split_right (tags ?h l) = x"
      using tag_left [OF ok, of x l] tag_bounds(1) [OF ok, of x] t(3) by (auto simp: same)
  next
    fix x y assume "x \<in> ?T" "y \<in> ?T" "x \<noteq> y"
    then show "tag_end ?h x \<le> unat y \<or> tag_end ?h y \<le> unat x" using tags_apart [OF ok, of x y] by (simp add: same)
  next
    have "a \<noteq> t" if "(a, m) \<in> set (areas h)" "(a, m) \<noteq> (t, n)" for a m
      using areas_unique [OF ar n(1) that(1), of "unat t"] that n area_bounds [OF ar that(1)] by auto
    then show "areas_ok ?T (areas ?h)" using ar set_areas area_bounds [OF ar]
      by (intro areas_ok_subset [OF ar]) (auto simp: areas_ok_def liballoc_free_def)
  qed
qed

text \<open>The tag goes back into a list, or its area to the kernel.\<close>

lemma busy_insert:
  assumes "relinked h h'" "0 \<le> tag_index (tags h' t)" "\<And>x. x \<noteq> t \<Longrightarrow> tag_index (tags h' x) = tag_index (tags h x)"
  shows "busy T h' = busy (T - {t}) h"
proof (rule busy_cong)
  show "(x \<in> T \<and> tag_index (tags h' x) = - 1) \<longleftrightarrow> (x \<in> T - {t} \<and> tag_index (tags h x) = - 1)" for x
    using assms(2) assms(3) [of x] by (cases "x = t") auto
qed (simp add: relinked_fields [OF assms(1)])

lemma insert_holding:
  assumes hold: "holding T L h t" and ix: "ix = - 1 \<or> 8 \<le> ix \<and> ix < 32"
  shows "\<exists>h' L'. insert_tag t ix h = Inr h' \<and> heap_ok T L' h' \<and> busy T h' = busy (T - {t}) h \<and> same_rest h h'"
proof -
  have ok: "lists_ok T L h" "tags_ok T h" "used_ok (T - {t}) h" "t \<in> T" "tag_index (tags h t) = - 1" using hold by (auto simp: holding_def)
  from insert_tag_ok [OF ok(1,4,5) ix] obtain h' L' where run: "insert_tag t ix h = Inr h'" and lists: "lists_ok T L' h'" and re: "relinked h h'"
    and idx: "0 \<le> tag_index (tags h' t)" "\<And>x. x \<noteq> t \<Longrightarrow> tag_index (tags h' x) = tag_index (tags h x)" by blast
  have "used_ok T h'" unfolding used_ok_def
  proof (intro ballI impI)
    fix x assume x: "x \<in> T" "tag_index (tags h' x) = - 1"
    then have "x \<noteq> t" using idx(1) by auto
    then show "unat (tag_size (tags h' x)) + 32 \<le> unat (real_size (tags h' x))"
      using x idx(2) ok(3) by (simp add: used_ok_def relinked_fields [OF re])
  qed
  then show ?thesis using run lists ok(2) tags_ok_relinked [OF re] busy_insert [OF re idx] relinked_rest [OF re] by (auto simp: heap_ok_def)
qed

lemma holding_free:
  assumes "holding T L h t"
  shows "\<exists>h' T' L'. (let ix = list_index (real_size (tags h t) - 32) in
      if split_left (tags h t) = 0 \<and> split_right (tags h t) = 0
      then in_array ix (if l_completePages h (nat ix) = MAXCOMPLETE then Inr (liballoc_free t (page_number (real_size (tags h t))) h)
        else insert_tag t ix (add_complete ix 1 h))
      else insert_tag t ix h) = Inr h' \<and> heap_ok T' L' h' \<and> busy T' h' = busy (T - {t}) h \<and> bytes h' = bytes h \<and> l_initialized h' = l_initialized h"
proof -
  have ok: "lists_ok T L h" "tags_ok T h" "used_ok (T - {t}) h" "t \<in> T" "tag_index (tags h t) = - 1" using assms by (auto simp: holding_def)
  define ix where "ix = list_index (real_size (tags h t) - 32)"
  have ix: "8 \<le> ix" "ix < 32" using list_index_bounds by (simp_all add: ix_def)
  have in_bounds: "in_array ix m = m" for m :: "userheap kres" using ix by (simp add: in_array_def MAXEXP_def)
  show ?thesis
  proof (cases "split_left (tags h t) = 0 \<and> split_right (tags h t) = 0")
    case False
    then show ?thesis using insert_holding [OF assms, of ix] ix by (fastforce simp: Let_def same_rest_def simp flip: ix_def)
  next
    case whole: True
    show ?thesis
    proof (cases "l_completePages h (nat ix) = MAXCOMPLETE")
      case True
      let ?h = "liballoc_free t (page_number (real_size (tags h t))) h"
      have tags: "tags ?h = tags h" "l_freePages ?h = l_freePages h" by (simp_all add: liballoc_free_def)
      have "lists_ok (T - {t}) L ?h" by (rule lists_ok_cong [OF lists_ok_drop [OF ok(1,5)]]) (simp_all add: tags)
      moreover have "used_ok (T - {t}) ?h" using ok(3) by (simp add: used_ok_def tags)
      ultimately have "heap_ok (T - {t}) L ?h" using release_ok [OF ok(2,4)] whole by (simp add: heap_ok_def)
      moreover have "busy (T - {t}) ?h = busy (T - {t}) h" by (simp add: busy_def tags)
      moreover have "bytes ?h = bytes h" "l_initialized ?h = l_initialized h" by (simp_all add: liballoc_free_def)
      ultimately show ?thesis using True whole by (auto simp: Let_def in_bounds simp flip: ix_def)
    next
      case False
      let ?h = "add_complete ix 1 h"
      have tags: "tags ?h = tags h" "l_freePages ?h = l_freePages h" "areas ?h = areas h" "bytes ?h = bytes h" "l_initialized ?h = l_initialized h"
        by (simp_all add: add_complete_def)
      have "tags_ok T ?h" using ok(2) tags by (simp add: tags_ok_def tag_ok_def in_area_def tag_end_def)
      moreover have "lists_ok T L ?h" by (rule lists_ok_cong [OF ok(1)]) (simp_all add: tags)
      ultimately have "holding T L ?h t" using ok by (simp add: holding_def used_ok_def tags)
      from insert_holding [OF this, of ix] obtain h' L' where "insert_tag t ix ?h = Inr h'" "heap_ok T L' h'" "busy T h' = busy (T - {t}) ?h" "same_rest ?h h'"
        using ix by blast
      moreover have "busy (T - {t}) ?h = busy (T - {t}) h" by (simp add: busy_def tags)
      ultimately show ?thesis using False whole by (auto simp: Let_def in_bounds same_rest_def tags simp flip: ix_def)
    qed
  qed
qed

lemma free_ok:
  assumes ok: "heap_ok T L h" and b: "(t, sz) \<in> busy T h" and n: "card T \<le> n"
  shows "\<exists>T' L' h'. liballoc_free_r n (t + 32) h = Inr h' \<and> heap_ok T' L' h' \<and> busy T' h' = busy T h - {(t, sz)} \<and> bytes h' = bytes h \<and>
    l_initialized h' = l_initialized h"
proof -
  have t: "t \<in> T" "tag_index (tags h t) = - 1" "sz = tag_size (tags h t)" using b by (auto simp: busy_iff)
  have tok: "tags_ok T h" using ok by (simp add: heap_ok_def)
  note tb = tag_bounds [OF tok t(1)]
  have hold: "holding T L h t" using ok t by (auto simp: holding_def heap_ok_def used_ok_def)
  from melt_left_loop_ok [OF hold n] obtain T1 L1 h1 t1 where 1: "melt_left_loop n t h = Inr (h1, t1)" "holding T1 L1 h1 t1"
      "busy (T1 - {t1}) h1 = busy (T - {t}) h" "same_rest h h1" "card T1 \<le> card T" by blast
  from melt_right_loop_ok [OF 1(2), of n] n 1(5) obtain T2 L2 h2 where 2: "melt_right_loop n t1 h1 = Inr h2" "holding T2 L2 h2 t1"
      "busy (T2 - {t1}) h2 = busy (T1 - {t1}) h1" "same_rest h1 h2" by auto
  from holding_free [OF 2(2)] obtain h3 T3 L3 where 3: "(let ix = list_index (real_size (tags h2 t1) - 32) in
      if split_left (tags h2 t1) = 0 \<and> split_right (tags h2 t1) = 0
      then in_array ix (if l_completePages h2 (nat ix) = MAXCOMPLETE then Inr (liballoc_free t1 (page_number (real_size (tags h2 t1))) h2)
        else insert_tag t1 ix (add_complete ix 1 h2))
      else insert_tag t1 ix h2) = Inr h3" "heap_ok T3 L3 h3" "busy T3 h3 = busy (T2 - {t1}) h2" "bytes h3 = bytes h2" "l_initialized h3 = l_initialized h2" by blast
  have "t1 \<noteq> 0" using 2(2) tag_bounds by (auto simp: holding_def)
  moreover have "unat (t + 32) = unat t + 32" using tag_plus_32 [OF tok t(1)] .
  then have "t + 32 \<noteq> 0" by auto
  ultimately have "liballoc_free_r n (t + 32) h = Inr h3" using 1(1) 2(1) 3(1) tb by (simp add: liballoc_free_r_def get_tag_def)
  moreover have "busy (T - {t}) h = busy T h - {(t, sz)}" using t by (auto simp: busy_def)
  ultimately show ?thesis using 1 2 3 by (auto simp: same_rest_def)
qed

section \<open>Allocating\<close>

lemma find_tag_ok:
  assumes "dseg (tags h) p a xs q 0" "length xs \<le> n"
  shows "find_tag n a sz h = Inr 0 \<or> (\<exists>t\<in>set xs. find_tag n a sz h = Inr t \<and> sz + 32 \<le> real_size (tags h t) - 32)"
  using assms
proof (induction n arbitrary: p a xs)
  case (Suc n)
  show ?case
  proof (cases xs)
    case (Cons x ys)
    then have x: "a = x" "x \<noteq> 0" "dseg (tags h) x (tag_next (tags h x)) ys q 0" "length ys \<le> n" using Suc.prems by auto
    show ?thesis using Suc.IH [OF x(3,4)] x Cons by (auto simp: get_tag_def)
  qed (use Suc.prems in simp)
qed simp

lemma list_length:
  assumes "lists_ok T L h" "i < 32"
  shows "length (L i) \<le> card T"
proof -
  have "distinct (L i)" "set (L i) \<subseteq> T" using assms by (auto simp: lists_ok_def list_ok_def)
  then show ?thesis using distinct_card [of "L i"] card_mono [of T "set (L i)"] by simp
qed

text \<open>What the code relies on when it asks the kernel for pages: it gets none, or pages it does not have yet, and never the end of the address space.\<close>

definition page_source :: "((u32 \<times> u32) list \<Rightarrow> u32 \<Rightarrow> u32) \<Rightarrow> bool" where
  "page_source pages \<longleftrightarrow> (\<forall>as n. pages as n \<noteq> 0 \<longrightarrow> unat (pages as n) + 4096 * unat n < 2 ^ 32 \<and>
     (\<forall>(b, m)\<in>set as. unat (pages as n) + 4096 * unat n \<le> unat b \<or> unat b + 4096 * unat m \<le> unat (pages as n)))"

lemma page_number_enough: "16 \<le> unat (page_number usage)" "unat usage \<le> 4096 * unat (page_number usage)"
proof -
  let ?k = "usage div l_pageSize + (if usage mod l_pageSize \<noteq> 0 then 1 else 0)"
  have d: "unat (usage div l_pageSize) = unat usage div 4096" by (simp add: l_pageSize_def unat_div)
  have m: "usage mod l_pageSize \<noteq> 0 \<longleftrightarrow> unat usage mod 4096 \<noteq> 0" by (simp add: l_pageSize_def word_unat_eq_iff unat_mod)
  have "unat usage div 4096 < 2 ^ 20" using unat_u32 [of usage] by (simp add: less_mult_imp_div_less)
  then have k: "unat ?k = unat usage div 4096 + (if unat usage mod 4096 \<noteq> 0 then 1 else 0)"
    using unat_add_small [of "usage div l_pageSize" "if usage mod l_pageSize \<noteq> 0 then 1 else 0"] d m by auto
  then have "unat usage \<le> 4096 * unat ?k" by (cases "unat usage mod 4096 = 0") (auto simp: algebra_simps)
  then show "16 \<le> unat (page_number usage)" "unat usage \<le> 4096 * unat (page_number usage)"
    by (auto simp: page_number_def Let_def l_pageCount_def word_less_nat_alt not_less)
qed

lemma fresh_area_ok:
  assumes ok: "tags_ok T h" and a: "a \<noteq> 0" "16 \<le> unat n" "unat a + 4096 * unat n < 2 ^ 32"
    and apart: "\<forall>(b, m)\<in>set (areas h). unat a + 4096 * unat n \<le> unat b \<or> unat b + 4096 * unat m \<le> unat a"
    and h': "h' = h\<lparr>areas := (a, n) # areas h, tags := (tags h)(a := x)\<rparr>"
    and x: "magic x = LIBALLOC_MAGIC" "unat (real_size x) = 4096 * unat n" "split_left x = 0" "split_right x = 0"
  shows "tags_ok (insert a T) h'" "a \<notin> T"
proof -
  have ar: "areas_ok T (areas h)" using ok by (simp add: tags_ok_def)
  have far: "unat a + 4096 * unat n \<le> unat t \<or> tag_end h t \<le> unat a" if t: "t \<in> T" for t
  proof -
    obtain b m where b: "in_area h t (b, m)" using tag_area [OF ok t] by blast
    then have "unat a + 4096 * unat n \<le> unat b \<or> unat b + 4096 * unat m \<le> unat a" using apart by (auto simp: in_area_def)
    then show ?thesis using b by (auto simp: in_area_def)
  qed
  show new: "a \<notin> T" using far [of a] tag_bounds(3) [OF ok, of a] a(2) by (auto simp: tag_end_def)
  have other: "tags h' t = tags h t" if "t \<in> T" for t using that new by (auto simp: h')
  have ends: "tag_end h' a = unat a + 4096 * unat n" "\<And>t. t \<in> T \<Longrightarrow> tag_end h' t = tag_end h t" using x other by (simp_all add: tag_end_def h')
  show "tags_ok (insert a T) h'"
  proof (rule tags_okI)
    fix t assume t: "t \<in> insert a T"
    show "t \<noteq> 0 \<and> magic (tags h' t) = LIBALLOC_MAGIC \<and> 32 \<le> unat (real_size (tags h' t)) \<and> (\<exists>an. in_area h' t an)"
    proof (cases "t = a")
      case True
      have "in_area h' a (a, n)" using x ends(1) by (simp add: in_area_def h')
      then show ?thesis using True x a by (auto simp: h')
    next
      case False
      then have "t \<in> T" using t by simp
      obtain b m where "in_area h t (b, m)" using tag_area [OF ok \<open>t \<in> T\<close>] by blast
      then have "in_area h' t (b, m)" using ends(2) [OF \<open>t \<in> T\<close>] other [OF \<open>t \<in> T\<close>] by (auto simp: in_area_def h')
      then show ?thesis using tag_bounds [OF ok \<open>t \<in> T\<close>] other [OF \<open>t \<in> T\<close>] by auto
    qed
  next
    fix t r assume t: "t \<in> insert a T" "split_right (tags h' t) = r" "r \<noteq> 0"
    then have tT: "t \<in> T" using x by (auto simp: h')
    have r: "split_right (tags h t) = r" using t(2) other [OF tT] by simp
    show "r \<in> insert a T \<and> unat r = tag_end h' t \<and> split_left (tags h' r) = t"
      using tag_right [OF ok tT r t(3)] ends(2) [OF tT] other [of r] by simp
  next
    fix t l assume t: "t \<in> insert a T" "split_left (tags h' t) = l" "l \<noteq> 0"
    then have tT: "t \<in> T" using x by (auto simp: h')
    have l: "split_left (tags h t) = l" using t(2) other [OF tT] by simp
    show "l \<in> insert a T \<and> split_right (tags h' l) = t" using tag_left [OF ok tT l t(3)] other [of l] by simp
  next
    fix t u assume "t \<in> insert a T" "u \<in> insert a T" "t \<noteq> u"
    then show "tag_end h' t \<le> unat u \<or> tag_end h' u \<le> unat t"
      using far [of t] far [of u] tags_apart [OF ok, of t u] ends by auto
  next
    have "(a, n) \<notin> set (areas h)" using area_bounds [OF ar, of a n] new by blast
    then show "areas_ok (insert a T) (areas h')" using ar a apart by (auto simp: areas_ok_def h')
  qed
qed

text \<open>A tag from a list, and a tag in fresh pages.\<close>

lemma take_found:
  assumes ok: "heap_ok T L h" and t: "t \<in> T" "0 \<le> tag_index (tags h t)"
  shows "\<exists>h' L'. remove_tag t h = Inr h' \<and> holding T L' h' t \<and> relinked h h' \<and> busy (T - {t}) h' = busy T h"
proof -
  have "lists_ok T L h" "tags_ok T h" "used_ok T h" using ok by (auto simp: heap_ok_def)
  from remove_tag_ok [OF this(1) t] obtain h' L' where run: "remove_tag t h = Inr h'" "lists_ok T L' h'" and re: "relinked h h'"
    and idx: "\<And>x. tag_index (tags h' x) = (if x = t then - 1 else tag_index (tags h x))" by blast
  have "holding T L' h' t" using run(2) \<open>tags_ok T h\<close> \<open>used_ok T h\<close> t(1) tags_ok_relinked [OF re]
    by (auto simp: holding_def idx used_ok_def relinked_fields [OF re])
  moreover have "busy (T - {t}) h' = busy T h" by (rule busy_cong) (use t in \<open>auto simp: idx relinked_fields [OF re]\<close>)
  ultimately show ?thesis using run re by blast
qed

lemma fresh_tag:
  assumes ok: "heap_ok T L h" and src: "page_source pages" and sz: "unat sz + 32 < 2 ^ 32"
  shows "allocate_new_tag pages sz h = Inr (h, 0) \<and> pages (areas h) (page_number (sz + 32)) = 0 \<or>
    (\<exists>a h'. allocate_new_tag pages sz h = Inr (h', a) \<and> holding (insert a T) L h' a \<and> unat sz + 32 \<le> unat (real_size (tags h' a)) \<and>
      busy (insert a T - {a}) h' = busy T h \<and> bytes h' = bytes h \<and> l_initialized h' = l_initialized h)"
proof (cases "pages (areas h) (page_number (sz + 32)) = 0")
  case True
  then show ?thesis by (simp add: allocate_new_tag_def liballoc_alloc_def Let_def)
next
  case False
  have lok: "lists_ok T L h" and tok: "tags_ok T h" and uok: "used_ok T h" using ok by (auto simp: heap_ok_def)
  define n where "n = page_number (sz + 32)"
  define a where "a = pages (areas h) n"
  have a: "a \<noteq> 0" "unat a + 4096 * unat n < 2 ^ 32"
      "\<forall>(b, m)\<in>set (areas h). unat a + 4096 * unat n \<le> unat b \<or> unat b + 4096 * unat m \<le> unat a"
    using False src by (auto simp: page_source_def a_def n_def)
  define x where "x = \<lparr>magic = LIBALLOC_MAGIC, tag_size = sz, real_size = n * l_pageSize, tag_index = - 1,
    split_left = 0, split_right = 0, tag_next = 0, tag_prev = 0\<rparr>"
  define h' where "h' = h\<lparr>areas := (a, n) # areas h, tags := (tags h)(a := x)\<rparr>"
  have run: "allocate_new_tag pages sz h = Inr (h', a)"
    using a(1) by (simp add: allocate_new_tag_def liballoc_alloc_def Let_def n_def [symmetric] a_def [symmetric] upd_tag_def h'_def x_def)
  have rs: "unat (real_size x) = 4096 * unat n"
    using a(2) unat_mult_lem [of n l_pageSize] by (simp add: x_def l_pageSize_def mult.commute)
  have "16 \<le> unat n" using page_number_enough(1) by (simp add: n_def)
  note new = fresh_area_ok [OF tok a(1) this a(2,3) h'_def _ rs]
  have tags: "tags_ok (insert a T) h'" "a \<notin> T" using new by (simp_all add: x_def)
  have "lists_ok T L h'" by (rule lists_ok_cong [OF lok]) (use tags(2) in \<open>auto simp: h'_def\<close>)
  then have "lists_ok (insert a T) L h'" using a(1) by (rule lists_ok_add) (simp_all add: h'_def x_def)
  moreover have "used_ok (insert a T - {a}) h'" using uok tags(2) by (auto simp: used_ok_def h'_def)
  ultimately have "holding (insert a T) L h' a" using tags by (simp add: holding_def h'_def x_def)
  moreover have "unat sz + 32 \<le> unat (real_size (tags h' a))"
  proof -
    have "unat (sz + 32) = unat sz + 32" using sz unat_add_small [of sz 32] by simp
    then show ?thesis using page_number_enough(2) [of "sz + 32"] rs by (simp add: h'_def n_def)
  qed
  moreover have "busy (insert a T - {a}) h' = busy T h" by (rule busy_cong) (use tags(2) in \<open>auto simp: h'_def\<close>)
  ultimately show ?thesis using run by (auto simp: h'_def)
qed

lemma insert_tag_index:
  "insert_tag t ix (h\<lparr>tags := (tags h)(t := (tags h t)\<lparr>tag_index := k\<rparr>)\<rparr>) = insert_tag t ix h"
  by (simp add: insert_tag_def get_tag_def upd_tag_def)

lemma split_tag_run:
  assumes "t \<noteq> 0" "t + d \<noteq> 0" "t + d \<noteq> t" "d = 32 + tag_size (tags h t)" "split_right (tags h t) \<noteq> t"
  shows "split_tag t h = kbind (insert_tag (t + d) (- 1) (h\<lparr>tags := cut_tag t (t + d) (tags h)\<rparr>)) (\<lambda>h. Inr (h, t + d))"
proof -
  have eqs: "real_size (tags h t) - 32 - tag_size (tags h t) = real_size (tags h t) - d" "t + 32 + tag_size (tags h t) = t + d"
    using assms(4) by (simp_all add: algebra_simps)
  show ?thesis using assms(1-3,5)
    by (simp add: split_tag_def get_tag_def upd_tag_def cut_tag_def Let_def eqs)
qed

lemma split_holding:
  assumes hold: "holding T L h t" and sz: "sz = tag_size (tags h t)" and fits: "unat sz + 64 \<le> unat (real_size (tags h t))"
  shows "\<exists>T' L' h'. kbind (split_tag t h) (\<lambda>(h, _). Inr h) = Inr h' \<and> heap_ok T' L' h' \<and> busy T' h' = insert (t, sz) (busy (T - {t}) h) \<and> same_rest h h'"
proof -
  have lok: "lists_ok T L h" and tok: "tags_ok T h" and uok: "used_ok (T - {t}) h" and t: "t \<in> T" "tag_index (tags h t) = - 1"
    using hold by (auto simp: holding_def)
  define d where "d = 32 + sz"
  have d: "unat d = unat sz + 32" using fits unat_u32 [of "real_size (tags h t)"] unat_add_small [of 32 sz] by (simp add: d_def)
  have d': "32 \<le> unat d" "unat d + 32 \<le> unat (real_size (tags h t))" using d fits by simp_all
  note cut = cut_ok [OF tok t(1) d']
  let ?n = "t + d"
  have nt: "?n \<noteq> t" using cut(2) t(1) by auto
  note f = cut_fields [where f = "tags h", OF nt cut(4,5)]
  define h1 where "h1 = h\<lparr>tags := cut_tag t ?n (tags h)\<rparr>"
  define h2 where "h2 = h1\<lparr>tags := (tags h1)(?n := (tags h1 ?n)\<lparr>tag_index := - 1\<rparr>)\<rparr>"
  have re: "relinked h1 h2" by (simp add: relinked_def h2_def)
  have "insert_tag ?n (- 1) h2 = insert_tag ?n (- 1) h1" unfolding h2_def by (rule insert_tag_index)
  then have run: "split_tag t h = kbind (insert_tag ?n (- 1) h2) (\<lambda>h. Inr (h, ?n))"
    using split_tag_run [of t d h] cut(3,5) nt tag_bounds(1) [OF tok t(1)] sz by (simp add: d_def h1_def)
  have "tags_ok (insert ?n T) h2" using cut(1) tags_ok_relinked [OF re] by (simp add: h1_def)
  moreover have "lists_ok T L h2" by (rule lists_ok_cong [OF lok]) (use cut(2) in \<open>auto simp: h2_def h1_def f\<close>)
  then have "lists_ok (insert ?n T) L h2" using cut(3) by (rule lists_ok_add) (simp_all add: h2_def h1_def f)
  moreover have "used_ok (insert ?n T - {?n}) h2" using uok d sz cut(2) nt
    by (auto simp: used_ok_def h2_def h1_def f)
  ultimately have "holding (insert ?n T) L h2 ?n" by (simp add: holding_def h2_def)
  from insert_holding [OF this, of "- 1"] obtain h' L' where h': "insert_tag ?n (- 1) h2 = Inr h'" "heap_ok (insert ?n T) L' h'"
      "busy (insert ?n T) h' = busy (insert ?n T - {?n}) h2" "same_rest h2 h'" by auto
  have "busy (insert ?n T - {?n}) h2 = busy T h" by (rule busy_cong) (use cut(2) in \<open>auto simp: h2_def h1_def f\<close>)
  moreover have "busy T h = insert (t, sz) (busy (T - {t}) h)" using t sz by (auto simp: busy_def)
  moreover have "same_rest h h'" using h'(4) by (simp add: same_rest_def h2_def h1_def)
  ultimately show ?thesis using run h' by (intro exI [of _ "insert ?n T"] exI [of _ L'] exI [of _ h']) simp
qed

lemma sint_minus:
  assumes "m < 2 ^ 31"
  shows "sint (- of_nat m :: u32) = - int m"
proof -
  have "sint (word_of_int k :: u32) = signed_take_bit 31 k" for k
    by (simp add: sint_uint uint_word_of_int_eq signed_take_bit_take_bit)
  moreover have "- of_nat m = (word_of_int (- int m) :: u32)" by simp
  moreover have "signed_take_bit 31 (- int m) = - int m" using assms by (intro signed_take_bit_int_eq_self) simp_all
  ultimately show ?thesis by metis
qed

lemma remainder_fits:
  fixes rs sz :: u32
  assumes "unat sz + 32 \<le> unat rs" "0 < sint (rs - sz - 64)"
  shows "unat sz + 64 \<le> unat rs"
proof (rule ccontr)
  assume "\<not> ?thesis"
  then obtain k where k: "unat rs = unat sz + k" "32 \<le> k" "k < 64" using assms(1) by (metis add_diff_inverse_nat le_add1 le_less_trans nat_add_left_cancel_le nat_add_left_cancel_less not_le)
  have "rs = sz + of_nat k" by (rule word_unat_eq_iff [THEN iffD2]) (use k unat_u32 [of rs] unat_add_small [of sz "of_nat k"] in \<open>simp add: unat_word_of_nat_small\<close>)
  then have "rs - sz - 64 = - of_nat (64 - k)" using k(3) by (simp add: of_nat_diff)
  moreover have "sint (- of_nat (64 - k) :: u32) < 0" using sint_minus [of "64 - k"] k by simp
  ultimately show False using assms(2) by simp
qed

lemma finish_malloc_ok:
  assumes hold: "holding T L h t" and fits: "unat sz + 32 \<le> unat (real_size (tags h t))"
  shows "\<exists>T' L' h'. finish_malloc sz t h = Inr (h', t + 32) \<and> heap_ok T' L' h' \<and> busy T' h' = insert (t, sz) (busy (T - {t}) h) \<and>
    bytes h' = bytes h \<and> l_initialized h' = l_initialized h"
proof -
  have lok: "lists_ok T L h" and tok: "tags_ok T h" and uok: "used_ok (T - {t}) h" and t: "t \<in> T" "tag_index (tags h t) = - 1"
    using hold by (auto simp: holding_def)
  have t0: "t \<noteq> 0" using tag_bounds [OF tok t(1)] by simp
  define h1 where "h1 = h\<lparr>tags := (tags h)(t := (tags h t)\<lparr>tag_size := sz\<rparr>)\<rparr>"
  have f: "magic (tags h1 x) = magic (tags h x)" "real_size (tags h1 x) = real_size (tags h x)" "tag_index (tags h1 x) = tag_index (tags h x)"
      "split_left (tags h1 x) = split_left (tags h x)" "split_right (tags h1 x) = split_right (tags h x)"
      "tag_next (tags h1 x) = tag_next (tags h x)" "tag_prev (tags h1 x) = tag_prev (tags h x)"
      "tag_size (tags h1 x) = (if x = t then sz else tag_size (tags h x))" for x by (simp_all add: h1_def)
  have tok1: "tags_ok T h1" using tok by (simp add: tags_ok_def tag_ok_def in_area_def tag_end_def f) (simp add: h1_def)
  have lok1: "lists_ok T L h1" by (rule lists_ok_cong [OF lok]) (simp_all add: f, simp add: h1_def)
  have hold1: "holding T L h1 t" using tok1 lok1 uok t by (auto simp: holding_def used_ok_def f)
  have busy1: "busy (T - {t}) h1 = busy (T - {t}) h" by (rule busy_cong) (auto simp: f)
  let ?rem = "real_size (tags h t) - sz - 64"
  have run: "finish_malloc sz t h = kbind (if 0 < sint ?rem \<and> 0 \<le> getexp ?rem then kbind (split_tag t h1) (\<lambda>(h, _). Inr h) else Inr h1) (\<lambda>h. Inr (h, t + 32))"
    using t0 by (simp add: finish_malloc_def upd_tag_def get_tag_def h1_def Let_def)
  show ?thesis
  proof (cases "0 < sint ?rem \<and> 0 \<le> getexp ?rem")
    case True
    have "unat sz + 64 \<le> unat (real_size (tags h1 t))" using remainder_fits [OF fits] True by (simp add: f)
    from split_holding [OF hold1 _ this] obtain T' L' h' where "kbind (split_tag t h1) (\<lambda>(h, _). Inr h) = Inr h'" "heap_ok T' L' h'"
        "busy T' h' = insert (t, sz) (busy (T - {t}) h1)" "same_rest h1 h'" by (auto simp: f)
    then show ?thesis using True run busy1 by (auto simp: same_rest_def h1_def)
  next
    case False
    have "used_ok T h1" using uok fits t by (auto simp: used_ok_def f)
    then have "heap_ok T L h1" using tok1 lok1 by (simp add: heap_ok_def)
    moreover have "busy T h1 = insert (t, sz) (busy (T - {t}) h)" using t busy1 by (auto simp: busy_def f)
    moreover have "finish_malloc sz t h = Inr (h1, t + 32)" using run False by auto
    ultimately show ?thesis by (auto simp: h1_def)
  qed
qed

text \<open>Before the first call there is no tag.\<close>

definition user_ok :: "u32 set \<Rightarrow> (nat \<Rightarrow> u32 list) \<Rightarrow> userheap \<Rightarrow> bool" where
  "user_ok T L h \<longleftrightarrow> (if l_initialized h then heap_ok T L h else T = {} \<and> areas h = [])"

lemma initialize_ok:
  assumes "user_ok T L h"
  shows "\<exists>L. heap_ok T L (initialize h) \<and> l_initialized (initialize h) \<and> busy T (initialize h) = busy T h \<and> bytes (initialize h) = bytes h \<and> areas (initialize h) = areas h"
proof (cases "l_initialized h")
  case True
  then show ?thesis using assms by (auto simp: user_ok_def initialize_def)
next
  case False
  then have "T = {}" "areas h = []" using assms by (simp_all add: user_ok_def)
  then have "heap_ok T (\<lambda>_. []) (initialize h)"
    using False by (simp add: initialize_def heap_ok_def lists_ok_def list_ok_def tags_ok_def used_ok_def areas_ok_def)
  then show ?thesis using False \<open>T = {}\<close> by (auto simp: initialize_def busy_def)
qed

lemma holding_complete: "holding T L h t \<Longrightarrow> holding T L (add_complete ix d h) t" "busy T (add_complete ix d h) = busy T h"
proof -
  have f: "tags (add_complete ix d h) = tags h" "l_freePages (add_complete ix d h) = l_freePages h" "areas (add_complete ix d h) = areas h"
    by (simp_all add: add_complete_def)
  show "holding T L h t \<Longrightarrow> holding T L (add_complete ix d h) t"
    by (simp add: holding_def lists_ok_def list_ok_def member_ok_def tags_ok_def tag_ok_def in_area_def tag_end_def used_ok_def f)
  show "busy T (add_complete ix d h) = busy T h" by (simp add: busy_def f)
qed

text \<open>The tag that \<^verbatim>\<open>liballoc_malloc_r\<close> works on, from new pages or from a list.\<close>

definition got_tag :: "u32 \<Rightarrow> u32 set \<Rightarrow> (nat \<Rightarrow> u32 list) \<Rightarrow> userheap \<Rightarrow> u32 \<Rightarrow> u32 set \<Rightarrow> userheap \<Rightarrow> bool" where
  "got_tag sz T' L' h' t T g \<longleftrightarrow> t \<noteq> 0 \<and> holding T' L' h' t \<and> unat sz + 32 \<le> unat (real_size (tags h' t)) \<and> busy (T' - {t}) h' = busy T g \<and>
     (\<forall>m. (t, m) \<notin> busy T g) \<and> bytes h' = bytes g \<and> l_initialized h' = l_initialized g"

lemma new_pages_tag:
  assumes ok: "heap_ok T L g" and src: "page_source pages" and sz: "unat sz + 32 < 2 ^ 32"
  shows "allocate_new_tag pages sz g = Inr (g, 0) \<and> pages (areas g) (page_number (sz + 32)) = 0 \<or>
    (\<exists>t h' T'. allocate_new_tag pages sz g = Inr (h', t) \<and> got_tag sz T' L h' t T g)"
proof -
  from fresh_tag [OF ok src sz] consider "allocate_new_tag pages sz g = Inr (g, 0)" "pages (areas g) (page_number (sz + 32)) = 0"
    | a h' where "allocate_new_tag pages sz g = Inr (h', a)" "holding (insert a T) L h' a" "unat sz + 32 \<le> unat (real_size (tags h' a))"
        "busy (insert a T - {a}) h' = busy T g" "bytes h' = bytes g" "l_initialized h' = l_initialized g" by blast
  then show ?thesis
  proof cases
    case (2 a h')
    have "a \<noteq> 0" using 2(2) by (auto simp: holding_def lists_ok_def member_ok_def)
    moreover have "(a, m) \<notin> busy T g" for m using 2(4) by (auto simp: busy_def)
    ultimately show ?thesis using 2 unfolding got_tag_def by blast
  qed simp
qed

lemma list_tag:
  assumes ok: "heap_ok T L g" and i: "i < 32" and t: "t \<in> set (L i)" "sz + 32 \<le> real_size (tags g t) - 32" and sz: "unat sz + 64 < 2 ^ 32"
  shows "\<exists>h' L'. remove_tag t g = Inr h' \<and>
    got_tag sz T L' (if split_left (tags h' t) = 0 \<and> split_right (tags h' t) = 0 then add_complete ix (- 1) h' else h') t T g"
proof -
  have lok: "lists_ok T L g" "tags_ok T g" using ok by (simp_all add: heap_ok_def)
  have tT: "t \<in> T" "0 \<le> tag_index (tags g t)" "t \<noteq> 0" using t(1) i lok(1) by (auto simp: list_ok_def lists_ok_def member_ok_def)
  from take_found [OF ok tT(1,2)] obtain h' L' where h': "remove_tag t g = Inr h'" "holding T L' h' t" "relinked g h'" "busy (T - {t}) h' = busy T g" by blast
  let ?h = "if split_left (tags h' t) = 0 \<and> split_right (tags h' t) = 0 then add_complete ix (- 1) h' else h'"
  have "unat (sz + 32) = unat sz + 32" using sz unat_add_small [of sz 32] by simp
  then have "unat sz + 32 \<le> unat (real_size (tags g t)) - 32"
    using t(2) tag_bounds(3) [OF lok(2) tT(1)] unat_sub_small [of 32 "real_size (tags g t)"] by (simp add: word_le_nat_alt)
  moreover have "(t, m) \<notin> busy T g" for m using tT(2) by (auto simp: busy_def)
  moreover have "bytes ?h = bytes g" "l_initialized ?h = l_initialized g" "tags ?h = tags h'"
    using relinked_fields [OF h'(3)] by (simp_all add: add_complete_def)
  ultimately have "got_tag sz T L' ?h t T g"
    using tT(3) h' holding_complete relinked_fields(3) [OF h'(3)] by (auto simp: got_tag_def split: if_splits)
  then show ?thesis using h'(1) by blast
qed

lemma malloc_tag:
  assumes g: "initialize h = g" "heap_ok T L g" and src: "page_source pages" and sz: "unat sz + 64 < 2 ^ 32" and n: "card T \<le> n"
  shows "liballoc_malloc_r n pages sz h = Inr (g, 0) \<and> pages (areas g) (page_number (sz + 32)) = 0 \<or>
    (\<exists>h1 t T1 L1. liballoc_malloc_r n pages sz h = finish_malloc sz t h1 \<and> got_tag sz T1 L1 h1 t T g)"
proof -
  have lok: "lists_ok T L g" using g(2) by (simp add: heap_ok_def)
  define ix where "ix = list_index sz"
  have ix: "8 \<le> ix" "ix < 32" using list_index_bounds by (simp_all add: ix_def)
  define i where "i = nat ix"
  have i: "i < 32" using ix by (simp add: i_def)
  obtain q where "dseg (tags g) 0 (l_freePages g i) (L i) q 0" using lok i by (auto simp: lists_ok_def list_ok_def)
  from find_tag_ok [OF this, of n sz] list_length [OF lok i] n
  consider "find_tag n (l_freePages g i) sz g = Inr 0" | t where "t \<in> set (L i)" "find_tag n (l_freePages g i) sz g = Inr t" "sz + 32 \<le> real_size (tags g t) - 32"
    by fastforce
  then show ?thesis
  proof cases
    case 1
    have m: "liballoc_malloc_r n pages sz h = kbind (allocate_new_tag pages sz g) (\<lambda>(h, tag). if tag = 0 then Inr (h, 0) else finish_malloc sz tag h)"
      using 1 ix g(1) by (simp add: liballoc_malloc_r_def Let_def in_array_def MAXEXP_def flip: ix_def i_def)
    have "unat sz + 32 < 2 ^ 32" using sz by simp
    then show ?thesis using m new_pages_tag [OF g(2) src, of sz] by (fastforce simp: got_tag_def)
  next
    case (2 t)
    from list_tag [OF g(2) i 2(1,3) sz, of ix] obtain h' L' where h': "remove_tag t g = Inr h'"
        "got_tag sz T L' (if split_left (tags h' t) = 0 \<and> split_right (tags h' t) = 0 then add_complete ix (- 1) h' else h') t T g" by blast
    have "t \<noteq> 0" using h'(2) by (simp add: got_tag_def)
    then have "liballoc_malloc_r n pages sz h =
        finish_malloc sz t (if split_left (tags h' t) = 0 \<and> split_right (tags h' t) = 0 then add_complete ix (- 1) h' else h')"
      using 2(2) h'(1) ix g(1) by (simp add: liballoc_malloc_r_def Let_def in_array_def MAXEXP_def get_tag_def flip: ix_def i_def)
    then show ?thesis using h'(2) by blast
  qed
qed

lemma malloc_ok:
  assumes ok: "user_ok T L h" and src: "page_source pages" and sz: "unat sz + 64 < 2 ^ 32" and n: "card T \<le> n"
  shows "\<exists>h' p. liballoc_malloc_r n pages sz h = Inr (h', p) \<and> bytes h' = bytes h \<and>
    (\<exists>T' L'. user_ok T' L' h' \<and> l_initialized h' \<and>
      (p = 0 \<and> pages (areas h) (page_number (sz + 32)) = 0 \<and> busy T' h' = busy T h \<or>
       (\<exists>t. p = t + 32 \<and> (\<forall>m. (t, m) \<notin> busy T h) \<and> busy T' h' = insert (t, sz) (busy T h))))"
proof -
  define g where "g = initialize h"
  obtain L0 where g: "heap_ok T L0 g" "l_initialized g" "busy T g = busy T h" "bytes g = bytes h" "areas g = areas h"
    using initialize_ok [OF ok] by (auto simp: g_def)
  from malloc_tag [OF g_def [symmetric] g(1) src sz n] show ?thesis
  proof (elim disjE exE conjE)
    assume "liballoc_malloc_r n pages sz h = Inr (g, 0)" "pages (areas g) (page_number (sz + 32)) = 0"
    then show ?thesis using g by (auto simp: user_ok_def)
  next
    fix h1 t T1 L1 assume t: "liballoc_malloc_r n pages sz h = finish_malloc sz t h1" "got_tag sz T1 L1 h1 t T g"
    from finish_malloc_ok [of T1 L1 h1 t sz] t(2) obtain T' L' h' where "finish_malloc sz t h1 = Inr (h', t + 32)" "heap_ok T' L' h'"
        "busy T' h' = insert (t, sz) (busy T g)" "bytes h' = bytes h1" "l_initialized h' = l_initialized h1" by (auto simp: got_tag_def)
    then show ?thesis using t g by (auto simp: user_ok_def got_tag_def)
  qed
qed

end
