(* ===== verification/Malloc.thy ===== *)
theory Malloc
  imports Liballoc
begin

text \<open>
  The functions that programs call: \<^verbatim>\<open>malloc\<close>, \<^verbatim>\<open>free\<close>, \<^verbatim>\<open>calloc\<close> and \<^verbatim>\<open>realloc\<close> (\<^verbatim>\<open>malloc.c\<close>, and the last functions of \<^verbatim>\<open>liballoc.c\<close>).
  The state of a process has the heap, \<^verbatim>\<open>errno\<close>, and the kernel's answers to requests for pages.
\<close>

section \<open>The functions\<close>

definition ENOMEM :: u32 where "ENOMEM = 12"

text \<open>The bound of the loops over tags: there are not more tags than addresses.\<close>

definition TAGS :: nat where "TAGS = 2 ^ 32"

record libc =
  l_pages :: "(u32 \<times> u32) list \<Rightarrow> u32 \<Rightarrow> u32"
  l_heap :: userheap
  l_errno :: u32

definition set_errno :: "u32 \<Rightarrow> libc \<Rightarrow> libc" where
  "set_errno p s = (if p = 0 then s\<lparr>l_errno := ENOMEM\<rparr> else s)"

definition malloc :: "u32 \<Rightarrow> libc \<Rightarrow> (libc \<times> u32) kres" where
  "malloc sz s = kbind (liballoc_malloc_r TAGS (l_pages s) sz (l_heap s)) (\<lambda>(h, p). Inr (set_errno p (s\<lparr>l_heap := h\<rparr>), p))"

definition free :: "u32 \<Rightarrow> libc \<Rightarrow> libc kres" where
  "free p s = kbind (liballoc_free_r TAGS p (l_heap s)) (\<lambda>h. Inr (s\<lparr>l_heap := h\<rparr>))"

definition on_bytes :: "((u32 \<Rightarrow> u8) \<Rightarrow> u32 \<Rightarrow> u8) \<Rightarrow> libc \<Rightarrow> libc" where
  "on_bytes f s = s\<lparr>l_heap := (l_heap s)\<lparr>bytes := f (bytes (l_heap s))\<rparr>\<rparr>"

primrec memset_loop :: "nat \<Rightarrow> u32 \<Rightarrow> u8 \<Rightarrow> (u32 \<Rightarrow> u8) \<Rightarrow> u32 \<Rightarrow> u8" where
  "memset_loop 0 a c d = d"
| "memset_loop (Suc n) a c d = memset_loop n (a + 1) c (d(a := c))"

definition liballoc_memset :: "u32 \<Rightarrow> u8 \<Rightarrow> u32 \<Rightarrow> libc \<Rightarrow> libc kres" where
  "liballoc_memset a c n s = (if a = 0 \<and> n \<noteq> 0 then Inl MemFault else Inr (on_bytes (memset_loop (unat n) a c) s))"

definition copy_chunk :: "nat \<Rightarrow> u32 \<Rightarrow> u32 \<Rightarrow> (u32 \<Rightarrow> u8) \<Rightarrow> u32 \<Rightarrow> u8" where
  "copy_chunk k dst src d = (\<lambda>a. if unat (a - dst) < k then d (src + (a - dst)) else d a)"

text \<open>\<^verbatim>\<open>liballoc_memcpy\<close>: four bytes at a time, then the rest one by one.\<close>

function memcpy_loop :: "nat \<Rightarrow> u32 \<Rightarrow> u32 \<Rightarrow> (u32 \<Rightarrow> u8) \<Rightarrow> u32 \<Rightarrow> u8" where
  "memcpy_loop n dst src d =
     (if n \<ge> 4 then memcpy_loop (n - 4) (dst + 4) (src + 4) (copy_chunk 4 dst src d)
      else if n > 0 then memcpy_loop (n - 1) (dst + 1) (src + 1) (copy_chunk 1 dst src d)
      else d)"
  by auto
termination by (relation "measure (\<lambda>(n, _). n)") auto

declare memcpy_loop.simps [simp del]

definition liballoc_memcpy :: "u32 \<Rightarrow> u32 \<Rightarrow> u32 \<Rightarrow> libc \<Rightarrow> libc kres" where
  "liballoc_memcpy dst src n s = (if dst = 0 \<and> n \<noteq> 0 then Inl MemFault else Inr (on_bytes (memcpy_loop (unat n) dst src) s))"

definition calloc :: "u32 \<Rightarrow> u32 \<Rightarrow> libc \<Rightarrow> (libc \<times> u32) kres" where
  "calloc nobj sz s =
     kbind (malloc (nobj * sz) s) (\<lambda>(s, p).
     kbind (liballoc_memset p 0 (nobj * sz) s) (\<lambda>s. Inr (set_errno p s, p)))"

definition liballoc_realloc_r :: "u32 \<Rightarrow> u32 \<Rightarrow> libc \<Rightarrow> (libc \<times> u32) kres" where
  "liballoc_realloc_r p sz s =
     (if sz = 0 then kbind (free p s) (\<lambda>s. Inr (s, 0))
      else if p = 0 then malloc sz s
      else kbind (get_tag (p - 32) (l_heap s)) (\<lambda>tag.
           let n = (if tag_size tag > sz then sz else tag_size tag) in
           kbind (malloc sz s) (\<lambda>(s, ptr).
           kbind (liballoc_memcpy ptr p n s) (\<lambda>s.
           kbind (free p s) (\<lambda>s. Inr (s, ptr))))))"

definition realloc :: "u32 \<Rightarrow> u32 \<Rightarrow> libc \<Rightarrow> (libc \<times> u32) kres" where
  "realloc p sz s = kbind (liballoc_realloc_r p sz s) (\<lambda>(s, a). Inr (set_errno a s, a))"

section \<open>A store of blocks\<close>

text \<open>What a program relies on: \<open>B\<close> are the blocks it has, with their sizes.\<close>

datatype request = Allocate u32 | Release nat

text \<open>A program that keeps a list of its blocks and gives them back in any order.\<close>

fun serve :: "(u32 \<Rightarrow> 's \<Rightarrow> ('s \<times> u32) kres) \<Rightarrow> (u32 \<Rightarrow> 's \<Rightarrow> 's kres) \<Rightarrow> request \<Rightarrow> 's \<times> (u32 \<times> u32) list \<Rightarrow> ('s \<times> (u32 \<times> u32) list) kres" where
  "serve alloc release (Allocate n) (s, bs) = kbind (alloc n s) (\<lambda>(s, p). Inr (s, if p = 0 then bs else (p, n) # bs))"
| "serve alloc release (Release k) (s, bs) =
     (if k < length bs then kbind (release (fst (bs ! k)) s) (\<lambda>s. Inr (s, take k bs @ drop (Suc k) bs)) else Inr (s, bs))"

primrec serve_all :: "(u32 \<Rightarrow> 's \<Rightarrow> ('s \<times> u32) kres) \<Rightarrow> (u32 \<Rightarrow> 's \<Rightarrow> 's kres) \<Rightarrow> request list \<Rightarrow> 's \<times> (u32 \<times> u32) list \<Rightarrow> ('s \<times> (u32 \<times> u32) list) kres" where
  "serve_all alloc release [] x = Inr x"
| "serve_all alloc release (r # rs) x = kbind (serve alloc release r x) (serve_all alloc release rs)"

definition request_ok :: "nat \<Rightarrow> request \<Rightarrow> bool" where
  "request_ok limit r = (case r of Allocate n \<Rightarrow> unat n < limit | Release _ \<Rightarrow> True)"

definition apart :: "(u32 \<times> u32) set \<Rightarrow> bool" where
  "apart B \<longleftrightarrow> (\<forall>(p, n)\<in>B. p \<noteq> 0 \<and> unat p + unat n < 2 ^ 32 \<and>
     (\<forall>(q, m)\<in>B. (p, n) \<noteq> (q, m) \<longrightarrow> unat p + unat n < unat q \<or> unat q + unat m < unat p))"

locale block_store =
  fixes inv :: "(u32 \<times> u32) set \<Rightarrow> 's \<Rightarrow> bool"
    and alloc :: "u32 \<Rightarrow> 's \<Rightarrow> ('s \<times> u32) kres"
    and release :: "u32 \<Rightarrow> 's \<Rightarrow> 's kres"
    and contents :: "'s \<Rightarrow> u32 \<Rightarrow> u8"
    and refused :: "u32 \<Rightarrow> 's \<Rightarrow> bool"
    and limit :: nat
  assumes alloc_gives: "inv B s \<Longrightarrow> unat n < limit \<Longrightarrow>
      \<exists>s' p. alloc n s = Inr (s', p) \<and> contents s' = contents s \<and> (p = 0 \<and> refused n s \<and> inv B s' \<or> p \<noteq> 0 \<and> (\<forall>m. (p, m) \<notin> B) \<and> inv (insert (p, n) B) s')"
    and release_takes: "inv B s \<Longrightarrow> (p, n) \<in> B \<Longrightarrow> \<exists>s'. release p s = Inr s' \<and> contents s' = contents s \<and> inv (B - {(p, n)}) s'"
    and blocks_apart: "inv B s \<Longrightarrow> apart B"
begin

lemma serve_keeps:
  assumes "inv (set bs) s" "distinct bs" "request_ok limit r"
  shows "\<exists>s' bs'. serve alloc release r (s, bs) = Inr (s', bs') \<and> inv (set bs') s' \<and> distinct bs' \<and> contents s' = contents s"
proof (cases r)
  case (Allocate n)
  then obtain s' p where a: "alloc n s = Inr (s', p)" "contents s' = contents s"
      "p = 0 \<and> refused n s \<and> inv (set bs) s' \<or> p \<noteq> 0 \<and> (\<forall>m. (p, m) \<notin> set bs) \<and> inv (insert (p, n) (set bs)) s'"
    using alloc_gives [OF assms(1), of n] assms(3) by (auto simp: request_ok_def)
  then show ?thesis using Allocate assms(2) by (cases "p = 0") auto
next
  case (Release k)
  show ?thesis
  proof (cases "k < length bs")
    case True
    obtain p n where b: "bs ! k = (p, n)" by (cases "bs ! k")
    then have "(p, n) \<in> set bs" using True by (metis nth_mem)
    from release_takes [OF assms(1) this] obtain s' where r: "release p s = Inr s'" "contents s' = contents s" "inv (set bs - {(p, n)}) s'" by blast
    have bs: "bs = take k bs @ (p, n) # drop (Suc k) bs" using id_take_nth_drop [OF True] b by simp
    have d: "distinct (take k bs @ (p, n) # drop (Suc k) bs)" using assms(2) bs by simp
    have "set bs = set (take k bs @ (p, n) # drop (Suc k) bs)" using bs by simp
    then have "set bs - {(p, n)} = set (take k bs @ drop (Suc k) bs)" using d by auto
    then show ?thesis using Release True r b d by auto
  qed (use Release assms in simp)
qed

lemma serve_all_keeps:
  assumes "inv (set bs) s" "distinct bs" "\<forall>r\<in>set rs. request_ok limit r"
  shows "\<exists>s' bs'. serve_all alloc release rs (s, bs) = Inr (s', bs') \<and> inv (set bs') s' \<and> distinct bs' \<and> apart (set bs') \<and> contents s' = contents s"
  using assms
proof (induction rs arbitrary: s bs)
  case Nil
  then show ?case using blocks_apart by auto
next
  case (Cons r rs)
  from serve_keeps [OF Cons.prems(1,2), of r] Cons.prems(3) obtain s' bs' where 1: "serve alloc release r (s, bs) = Inr (s', bs')"
      "inv (set bs') s'" "distinct bs'" "contents s' = contents s" by auto
  from Cons.IH [OF 1(2,3)] Cons.prems(3) 1 show ?case by auto
qed

end

section \<open>The heap is a store of blocks\<close>

definition blocks :: "u32 set \<Rightarrow> userheap \<Rightarrow> (u32 \<times> u32) set" where
  "blocks T h = (\<lambda>(t, n). (t + 32, n)) ` busy T h"

definition heap_inv :: "(u32 \<times> u32) set \<Rightarrow> libc \<Rightarrow> bool" where
  "heap_inv B s \<longleftrightarrow> page_source (l_pages s) \<and> (\<exists>T L. user_ok T L (l_heap s) \<and> B = blocks T (l_heap s))"

definition contents :: "libc \<Rightarrow> u32 \<Rightarrow> u8" where
  "contents s = bytes (l_heap s)"

lemma card_TAGS: "card (T :: u32 set) \<le> TAGS"
proof -
  have "card T \<le> CARD(32 word)" by (rule card_mono) simp_all
  then show ?thesis by (simp add: TAGS_def card_word)
qed

lemma mem_blocks: "(p, n) \<in> blocks T h \<longleftrightarrow> (p - 32, n) \<in> busy T h"
  by (force simp: blocks_def image_iff)

lemma blocks_insert: "busy T' h' = insert (t, n) (busy T h) \<Longrightarrow> blocks T' h' = insert (t + 32, n) (blocks T h)"
  by (simp add: blocks_def)

lemma user_ok_busy: "user_ok T L h \<Longrightarrow> (t, n) \<in> busy T h \<Longrightarrow> heap_ok T L h \<and> l_initialized h"
  by (auto simp: user_ok_def busy_def split: if_splits)

lemma apartI:
  assumes "\<And>p n. (p, n) \<in> B \<Longrightarrow> p \<noteq> 0 \<and> unat p + unat n < 2 ^ 32"
    and "\<And>p n q m. (p, n) \<in> B \<Longrightarrow> (q, m) \<in> B \<Longrightarrow> (p, n) \<noteq> (q, m) \<Longrightarrow> unat p + unat n < unat q \<or> unat q + unat m < unat p"
  shows "apart B"
  unfolding apart_def using assms by blast

lemma busy_block:
  assumes "user_ok T L h" "(p, n) \<in> blocks T h"
  shows "p - 32 \<in> T" "unat p = unat (p - 32) + 32" "unat p + unat n \<le> tag_end h (p - 32)" "tag_end h (p - 32) < 2 ^ 32" "tags_ok T h"
proof -
  have b: "(p - 32, n) \<in> busy T h" using assms(2) by (simp add: mem_blocks)
  then have "heap_ok T L h" using user_ok_busy [OF assms(1)] by simp
  then have tok: "tags_ok T h" and uok: "used_ok T h" by (simp_all add: heap_ok_def)
  then show "tags_ok T h" by simp
  show t: "p - 32 \<in> T" using b by (simp add: busy_iff)
  show up: "unat p = unat (p - 32) + 32" using tag_plus_32 [OF tok t] by simp
  show "unat p + unat n \<le> tag_end h (p - 32)" using uok b t up by (auto simp: used_ok_def busy_iff tag_end_def)
  show "tag_end h (p - 32) < 2 ^ 32" using tag_bounds(4) [OF tok t] .
qed

lemma blocks_are_apart:
  assumes "user_ok T L h"
  shows "apart (blocks T h)"
proof (rule apartI)
  fix p n assume p: "(p, n) \<in> blocks T h"
  note bp = busy_block [OF assms p]
  show "p \<noteq> 0 \<and> unat p + unat n < 2 ^ 32" using bp by auto
  fix q m assume q: "(q, m) \<in> blocks T h" "(p, n) \<noteq> (q, m)"
  note bq = busy_block [OF assms q(1)]
  have "p \<noteq> q" using p q by (auto simp: mem_blocks busy_iff)
  then have "tag_end h (p - 32) \<le> unat (q - 32) \<or> tag_end h (q - 32) \<le> unat (p - 32)" using tags_apart [OF bp(5,1) bq(1)] by simp
  then show "unat p + unat n < unat q \<or> unat q + unat m < unat p" using bp(2,3) bq(2,3) by linarith
qed

lemma heap_inv_apart: "heap_inv B s \<Longrightarrow> apart B"
  using blocks_are_apart by (auto simp: heap_inv_def)

lemma malloc_gives:
  assumes "heap_inv B s" "unat n < 2 ^ 32 - 64"
  shows "\<exists>s' p. malloc n s = Inr (s', p) \<and> contents s' = contents s \<and> (p = 0 \<and> l_pages s (areas (l_heap s)) (page_number (n + 32)) = 0 \<and> heap_inv B s' \<or> p \<noteq> 0 \<and> (\<forall>m. (p, m) \<notin> B) \<and> heap_inv (insert (p, n) B) s')"
proof -
  obtain T L where ok: "page_source (l_pages s)" "user_ok T L (l_heap s)" and B: "B = blocks T (l_heap s)" using assms(1) by (auto simp: heap_inv_def)
  have "unat n + 64 < 2 ^ 32" using assms(2) by simp
  from malloc_ok [OF ok(2,1) this card_TAGS] obtain h' p T' L' where m: "liballoc_malloc_r TAGS (l_pages s) n (l_heap s) = Inr (h', p)" "bytes h' = bytes (l_heap s)"
      "user_ok T' L' h'"
    and res: "p = 0 \<and> l_pages s (areas (l_heap s)) (page_number (n + 32)) = 0 \<and> busy T' h' = busy T (l_heap s) \<or>
       (\<exists>t. p = t + 32 \<and> (\<forall>m. (t, m) \<notin> busy T (l_heap s)) \<and> busy T' h' = insert (t, n) (busy T (l_heap s)))" by blast
  define s' where "s' = set_errno p (s\<lparr>l_heap := h'\<rparr>)"
  have s': "l_heap s' = h'" "l_pages s' = l_pages s" by (simp_all add: s'_def set_errno_def)
  have run: "malloc n s = Inr (s', p)" using m(1) by (simp add: malloc_def s'_def)
  have inv: "heap_inv (blocks T' h') s'" using ok(1) m(3) s' by (auto simp: heap_inv_def)
  from res show ?thesis
  proof (elim disjE exE conjE)
    assume "p = 0" "l_pages s (areas (l_heap s)) (page_number (n + 32)) = 0" "busy T' h' = busy T (l_heap s)"
    then show ?thesis using run inv m(2) s' B by (auto simp: contents_def blocks_def)
  next
    fix t assume t: "p = t + 32" "\<forall>m. (t, m) \<notin> busy T (l_heap s)" "busy T' h' = insert (t, n) (busy T (l_heap s))"
    have new: "blocks T' h' = insert (p, n) B" using blocks_insert [OF t(3)] t(1) B by simp
    then have "p \<noteq> 0" using blocks_are_apart [OF m(3)] by (auto simp: apart_def)
    moreover have "(p, k) \<notin> B" for k using t(1,2) B by (simp add: mem_blocks)
    ultimately show ?thesis using run inv new m(2) s' by (auto simp: contents_def)
  qed
qed

lemma free_takes:
  assumes "heap_inv B s" "(p, n) \<in> B"
  shows "\<exists>s'. free p s = Inr s' \<and> contents s' = contents s \<and> heap_inv (B - {(p, n)}) s'"
proof -
  obtain T L where ok: "page_source (l_pages s)" "user_ok T L (l_heap s)" and B: "B = blocks T (l_heap s)" using assms(1) by (auto simp: heap_inv_def)
  have b: "(p - 32, n) \<in> busy T (l_heap s)" using assms(2) B by (simp add: mem_blocks)
  have h: "heap_ok T L (l_heap s)" "l_initialized (l_heap s)" using user_ok_busy [OF ok(2) b] by simp_all
  from free_ok [OF h(1) b card_TAGS] obtain T' L' h' where f: "liballoc_free_r TAGS p (l_heap s) = Inr h'" "heap_ok T' L' h'"
      "busy T' h' = busy T (l_heap s) - {(p - 32, n)}" "bytes h' = bytes (l_heap s)" "l_initialized h'" using h(2) by auto
  have "blocks T' h' = B - {(p, n)}" by (simp add: set_eq_iff mem_blocks f(3) B)
  then have "heap_inv (B - {(p, n)}) (s\<lparr>l_heap := h'\<rparr>)" using ok(1) f(2,5) by (auto simp: heap_inv_def user_ok_def)
  then show ?thesis using f(1,4) by (simp add: free_def contents_def)
qed

interpretation user_heap: block_store heap_inv malloc free contents "\<lambda>n s. l_pages s (areas (l_heap s)) (page_number (n + 32)) = 0" "2 ^ 32 - 64"
  by unfold_locales (rule malloc_gives free_takes heap_inv_apart; assumption)+

section \<open>Properties\<close>

definition empty_heap :: userheap where
  "empty_heap = \<lparr>tags = \<lambda>_. \<lparr>magic = 0, tag_size = 0, real_size = 0, tag_index = 0, split_left = 0, split_right = 0, tag_next = 0, tag_prev = 0\<rparr>,
     l_freePages = \<lambda>_. 0, l_completePages = \<lambda>_. 0, l_initialized = False, bytes = \<lambda>_. 0, areas = []\<rparr>"

lemma heap_inv_start: "page_source (l_pages s) \<Longrightarrow> \<not> l_initialized (l_heap s) \<Longrightarrow> areas (l_heap s) = [] \<Longrightarrow> heap_inv {} s"
  by (auto simp: heap_inv_def user_ok_def blocks_def busy_def intro!: exI [of _ "{}"])

text \<open>No tag, of a free or of a used block, lies in the bytes of a block of the program.\<close>

definition tags_outside :: "u32 set \<Rightarrow> (u32 \<times> u32) set \<Rightarrow> bool" where
  "tags_outside T B \<longleftrightarrow> (\<forall>t\<in>T. \<forall>(p, n)\<in>B. unat t + 32 \<le> unat p \<or> unat p + unat n \<le> unat t)"

lemma blocks_tags_outside:
  assumes "user_ok T L h"
  shows "tags_outside T (blocks T h)"
  unfolding tags_outside_def
proof (intro ballI, clarify)
  fix t p n assume t: "t \<in> T" and b: "(p, n) \<in> blocks T h" and no: "\<not> unat p + unat n \<le> unat t"
  note k = busy_block [OF assms b]
  show "unat t + 32 \<le> unat p"
  proof (cases "t = p - 32")
    case True
    then show ?thesis using k(2) by simp
  next
    case False
    then have "tag_end h t \<le> unat (p - 32) \<or> tag_end h (p - 32) \<le> unat t" using k(1,5) t by (auto simp: tags_ok_def)
    moreover have "unat t + 32 \<le> tag_end h t" using k(5) t by (auto simp: tags_ok_def tag_ok_def tag_end_def)
    ultimately show ?thesis using k(2,3) no by linarith
  qed
qed

text \<open>
  C8: The heap of a program. From the start of the program, for every sequence of calls of \<^verbatim>\<open>malloc\<close> (of less than 4 GB less 64 bytes) and of
  \<^verbatim>\<open>free\<close> for blocks that were allocated and not freed yet, in any order, every call returns; the blocks that the program has at the end are
  inside the address space and do not overlap. The heap is well formed: its tags \<open>T\<close> divide the pages of the process completely, the blocks of the
  program are those of the used tags, the lists \<open>L\<close> hold the others, and no tag lies in a block, so that the bookkeeping changes no byte of the program.
\<close>

theorem user_heap_sequences:
  assumes "page_source (l_pages s)" "\<not> l_initialized (l_heap s)" "areas (l_heap s) = []" "\<forall>r\<in>set rs. request_ok (2 ^ 32 - 64) r"
  shows "\<exists>s' bs T L. serve_all malloc free rs (s, []) = Inr (s', bs) \<and> distinct bs \<and> apart (set bs) \<and>
    user_ok T L (l_heap s') \<and> set bs = blocks T (l_heap s') \<and> tags_outside T (set bs)"
proof -
  obtain s' bs where r: "serve_all malloc free rs (s, []) = Inr (s', bs)" "heap_inv (set bs) s'" "distinct bs" "apart (set bs)"
    using user_heap.serve_all_keeps [of "[]" s rs] heap_inv_start [OF assms(1-3)] assms(4) by auto
  moreover obtain T L where "user_ok T L (l_heap s')" "set bs = blocks T (l_heap s')" using r(2) by (auto simp: heap_inv_def)
  ultimately show ?thesis using blocks_tags_outside by fastforce
qed

text \<open>A kernel that has pages from 16 MB on, up to 3 GB.\<close>

primrec area_top :: "(u32 \<times> u32) list \<Rightarrow> nat" where
  "area_top [] = 0x1000000"
| "area_top (an # as) = max (unat (fst an) + 4096 * unat (snd an)) (area_top as)"

definition example_pages :: "(u32 \<times> u32) list \<Rightarrow> u32 \<Rightarrow> u32" where
  "example_pages as n = (if area_top as + 4096 * unat n \<le> 0xC0000000 then of_nat (area_top as) else 0)"

lemma area_top_ge: "\<forall>(b, m)\<in>set as. unat b + 4096 * unat m \<le> area_top as"
  by (induction as) auto

lemma example_page_source: "page_source example_pages"
  unfolding page_source_def
proof (intro allI impI)
  fix as n assume "example_pages as n \<noteq> 0"
  then have room: "area_top as + 4096 * unat n \<le> 0xC0000000" "example_pages as n = of_nat (area_top as)"
    by (auto simp: example_pages_def split: if_splits)
  then have "unat (example_pages as n) = area_top as" by (simp add: unat_word_of_nat_small)
  then show "unat (example_pages as n) + 4096 * unat n < 2 ^ 32 \<and>
      (\<forall>(b, m)\<in>set as. unat (example_pages as n) + 4096 * unat n \<le> unat b \<or> unat b + 4096 * unat m \<le> unat (example_pages as n))"
    using room(1) area_top_ge [of as] by auto
qed

definition example_libc :: libc where
  "example_libc = \<lparr>l_pages = example_pages, l_heap = empty_heap, l_errno = 0\<rparr>"

theorem user_heap_sequences_witness:
  "\<exists>s' bs. serve_all malloc free [Allocate 100, Allocate 5, Release 1, Allocate 70000, Release 0, Release 0] (example_libc, []) = Inr (s', bs) \<and>
     distinct bs \<and> apart (set bs)"
proof -
  have "page_source (l_pages example_libc)" "\<not> l_initialized (l_heap example_libc)" "areas (l_heap example_libc) = []"
    using example_page_source by (simp_all add: example_libc_def empty_heap_def)
  from user_heap_sequences [OF this, of "[Allocate 100, Allocate 5, Release 1, Allocate 70000, Release 0, Release 0]"]
  show ?thesis by (auto simp: request_ok_def)
qed

section \<open>Changing the size of a block\<close>

lemma unat_diff_word: "unat (a - b) = (if unat b \<le> unat a then unat a - unat b else 2 ^ 32 + unat a - unat b)" for a b :: u32
  using unat_u32 [of a] unat_u32 [of b] by (simp add: unat_sub_if', simp add: add.commute)

text \<open>Copying in pieces is copying at once when source and destination do not overlap.\<close>

definition no_overlap :: "nat \<Rightarrow> u32 \<Rightarrow> u32 \<Rightarrow> bool" where
  "no_overlap n dst src \<longleftrightarrow> (\<forall>i<n. \<forall>j<n. src + of_nat i \<noteq> dst + of_nat j)"

lemma copy_chunk_split:
  assumes "k \<le> n" "n \<le> 2 ^ 32" "k < 2 ^ 32" "no_overlap n dst src"
  shows "copy_chunk (n - k) (dst + of_nat k) (src + of_nat k) (copy_chunk k dst src d) = copy_chunk n dst src d"
proof
  fix a
  define x where "x = a - dst"
  have k: "unat (of_nat k :: u32) = k" using assms(3) by (simp add: unat_word_of_nat_small)
  have ax: "a - (dst + of_nat k) = x - of_nat k" "src + of_nat k + (x - of_nat k) = src + x" by (simp_all add: x_def)
  have ux: "unat (x - of_nat k) = (if k \<le> unat x then unat x - k else 2 ^ 32 + unat x - k)" by (simp add: unat_diff_word k)
  show "copy_chunk (n - k) (dst + of_nat k) (src + of_nat k) (copy_chunk k dst src d) a = copy_chunk n dst src d a"
  proof (cases "k \<le> unat x \<and> unat x < n")
    case True
    then have "unat (x - of_nat k) < n - k" using ux by auto
    moreover have "\<not> unat (src + x - dst) < k"
    proof
      assume "unat (src + x - dst) < k"
      moreover have "src + of_nat (unat x) = dst + of_nat (unat (src + x - dst))" by simp
      ultimately show False using assms(1,4) True unfolding no_overlap_def by (metis order_less_le_trans)
    qed
    ultimately show ?thesis using True by (simp add: copy_chunk_def ax flip: x_def)
  next
    case False
    have "\<not> unat (x - of_nat k) < n - k" using False ux assms(2) unat_u32 [of x] by auto
    then show ?thesis using False assms(1) by (auto simp: copy_chunk_def ax simp flip: x_def)
  qed
qed

lemma no_overlap_shift:
  assumes "no_overlap n dst src" "k \<le> n"
  shows "no_overlap (n - k) (dst + of_nat k) (src + of_nat k)"
  unfolding no_overlap_def
proof (intro allI impI)
  fix i j assume "i < n - k" "j < n - k"
  then have "k + i < n" "k + j < n" by linarith+
  then have "src + of_nat (k + i) \<noteq> dst + of_nat (k + j)" using assms(1) unfolding no_overlap_def by blast
  then show "src + of_nat k + of_nat i \<noteq> dst + of_nat k + of_nat j" by (simp add: algebra_simps)
qed

lemma memcpy_loop_copies:
  assumes "no_overlap n dst src" "n \<le> 2 ^ 32"
  shows "memcpy_loop n dst src d = copy_chunk n dst src d"
  using assms
proof (induction n dst src d rule: memcpy_loop.induct)
  case (1 n dst src d)
  have step: "memcpy_loop (n - k) (dst + of_nat k) (src + of_nat k) (copy_chunk k dst src d) = copy_chunk n dst src d"
    if k: "0 < k" "k \<le> n" "k \<le> 4" and ih: "memcpy_loop (n - k) (dst + of_nat k) (src + of_nat k) (copy_chunk k dst src d) =
      copy_chunk (n - k) (dst + of_nat k) (src + of_nat k) (copy_chunk k dst src d)" for k
    using copy_chunk_split [of k n dst src d] k ih "1.prems" by simp
  show ?case
  proof (cases "4 \<le> n")
    case True
    then show ?thesis using step [of 4] "1.IH"(1) no_overlap_shift [OF "1.prems"(1), of 4] "1.prems"(2)
      by (subst memcpy_loop.simps) simp
  next
    case False
    then show ?thesis using step [of 1] "1.IH"(2) no_overlap_shift [OF "1.prems"(1), of 1] "1.prems"(2)
      by (subst memcpy_loop.simps) (auto simp: copy_chunk_def)
  qed
qed

lemma heap_inv_bytes: "heap_inv B (on_bytes f s) \<longleftrightarrow> heap_inv B s"
proof -
  have "user_ok T L (l_heap (on_bytes f s)) = user_ok T L (l_heap s)" "blocks T (l_heap (on_bytes f s)) = blocks T (l_heap s)" for T L
    by (simp_all add: on_bytes_def user_ok_def heap_ok_def lists_ok_def list_ok_def member_ok_def tags_ok_def tag_ok_def in_area_def
      tag_end_def used_ok_def blocks_def busy_def)
  moreover have "l_pages (on_bytes f s) = l_pages s" by (simp add: on_bytes_def)
  ultimately show ?thesis by (simp add: heap_inv_def)
qed

lemma block_tag:
  assumes "heap_inv B s" "(p, m) \<in> B"
  shows "get_tag (p - 32) (l_heap s) = Inr (tags (l_heap s) (p - 32))" "tag_size (tags (l_heap s) (p - 32)) = m"
proof -
  obtain T L where ok: "user_ok T L (l_heap s)" "B = blocks T (l_heap s)" using assms(1) by (auto simp: heap_inv_def)
  have b: "(p, m) \<in> blocks T (l_heap s)" using assms(2) ok(2) by simp
  then show "tag_size (tags (l_heap s) (p - 32)) = m" by (simp add: mem_blocks busy_iff)
  have "p - 32 \<noteq> 0" using busy_block [OF ok(1) b] tag_bounds(1) by blast
  then show "get_tag (p - 32) (l_heap s) = Inr (tags (l_heap s) (p - 32))" by (simp add: get_tag_def)
qed

lemma apart_no_overlap:
  assumes "apart B" "(p, m) \<in> B" "(q, k) \<in> B" "p \<noteq> q" "n \<le> unat m" "n \<le> unat k"
  shows "no_overlap n q p"
  unfolding no_overlap_def
proof (intro allI impI)
  fix i j assume ij: "i < n" "j < n"
  have b: "unat p + unat m < 2 ^ 32" "unat q + unat k < 2 ^ 32" "unat p + unat m < unat q \<or> unat q + unat k < unat p"
    using assms(1-4) by (fastforce simp: apart_def)+
  have "unat (p + of_nat i) = unat p + i" "unat (q + of_nat j) = unat q + j"
    using b ij assms(5,6) unat_add_small [of p "of_nat i"] unat_add_small [of q "of_nat j"] by (simp_all add: unat_word_of_nat_small)
  then have "unat (p + of_nat i) \<noteq> unat (q + of_nat j)" using b(3) ij assms(5,6) by linarith
  then show "p + of_nat i \<noteq> q + of_nat j" by auto
qed

text \<open>Copying into the new block and releasing the old one.\<close>

lemma copy_and_free:
  fixes n :: u32
  assumes inv: "heap_inv (insert (q, sz) B) s" and p: "(p, m) \<in> B" and q: "\<forall>k. (q, k) \<notin> B" and n: "unat n = min (unat m) (unat sz)"
  shows "\<exists>s'. free p (on_bytes (memcpy_loop (unat n) q p) s) = Inr s' \<and> heap_inv (insert (q, sz) (B - {(p, m)})) s' \<and>
    (\<forall>i<unat n. contents s' (q + of_nat i) = contents s (p + of_nat i)) \<and>
    (\<forall>a. unat a < unat q \<or> unat q + unat sz \<le> unat a \<longrightarrow> contents s' a = contents s a)"
proof -
  define s2 where "s2 = on_bytes (memcpy_loop (unat n) q p) s"
  have pq: "p \<noteq> q" using p q by auto
  have inv2: "heap_inv (insert (q, sz) B) s2" using inv by (simp add: s2_def heap_inv_bytes)
  from free_takes [OF inv2, of p m] p obtain s3 where f: "free p s2 = Inr s3" "contents s3 = contents s2" "heap_inv (insert (q, sz) B - {(p, m)}) s3" by auto
  have "insert (q, sz) B - {(p, m)} = insert (q, sz) (B - {(p, m)})" using pq by auto
  then have inv3: "heap_inv (insert (q, sz) (B - {(p, m)})) s3" using f(3) by simp
  have over: "no_overlap (unat n) q p" using apart_no_overlap [OF heap_inv_apart [OF inv], of p m q sz "unat n"] p pq n by simp
  have "unat n \<le> 2 ^ 32" using unat_u32 [of n] by simp
  from memcpy_loop_copies [OF over this] have c: "contents s3 = copy_chunk (unat n) q p (contents s)"
    using f(2) by (simp add: contents_def s2_def on_bytes_def)
  have "contents s3 (q + of_nat i) = contents s (p + of_nat i)" if "i < unat n" for i
  proof -
    have "unat (of_nat i :: u32) = i" using that unat_u32 [of n] by (simp add: unat_word_of_nat_small)
    then show ?thesis using that by (simp add: c copy_chunk_def)
  qed
  moreover have "contents s3 a = contents s a" if "unat a < unat q \<or> unat q + unat sz \<le> unat a" for a
  proof -
    have "unat q + unat sz < 2 ^ 32" using heap_inv_apart [OF inv] by (auto simp: apart_def)
    then have "\<not> unat (a - q) < unat n" using that n by (auto simp: unat_diff_word)
    then show ?thesis by (simp add: c copy_chunk_def)
  qed
  ultimately show ?thesis using f(1) inv3 unfolding s2_def by blast
qed

text \<open>
  C11: \<^verbatim>\<open>realloc\<close> of a block of the program to another size. When there is memory, the result is a new block of that size, which overlaps no other block;
  the old one is gone, the bytes that both sizes have in common are the same, and nothing outside the new block has changed. There is no
  memory only if the kernel refuses the pages, and then \<^verbatim>\<open>realloc\<close> does not return \<^verbatim>\<open>NULL\<close> but copies the bytes of the block to address 0.
\<close>

theorem realloc_correct:
  assumes inv: "heap_inv B s" and p: "(p, m) \<in> B" and sz: "0 < unat sz" "unat sz < 2 ^ 32 - 64"
  shows "\<exists>s1 q. malloc sz s = Inr (s1, q) \<and>
    (q = 0 \<longrightarrow> l_pages s (areas (l_heap s)) (page_number (sz + 32)) = 0 \<and> (m \<noteq> 0 \<longrightarrow> realloc p sz s = Inl MemFault)) \<and>
    (q \<noteq> 0 \<longrightarrow> (\<exists>s'. realloc p sz s = Inr (s', q) \<and> heap_inv (insert (q, sz) (B - {(p, m)})) s' \<and> apart (insert (q, sz) (B - {(p, m)})) \<and>
      (\<forall>i<min (unat m) (unat sz). contents s' (q + of_nat i) = contents s (p + of_nat i)) \<and>
      (\<forall>a. unat a < unat q \<or> unat q + unat sz \<le> unat a \<longrightarrow> contents s' a = contents s a)))"
proof -
  obtain s1 q where m: "malloc sz s = Inr (s1, q)" "contents s1 = contents s"
    and res: "q = 0 \<and> l_pages s (areas (l_heap s)) (page_number (sz + 32)) = 0 \<and> heap_inv B s1 \<or> q \<noteq> 0 \<and> (\<forall>k. (q, k) \<notin> B) \<and> heap_inv (insert (q, sz) B) s1"
    using malloc_gives [OF inv sz(2)] by blast
  define n where "n = (if m > sz then sz else m)"
  have n: "unat n = min (unat m) (unat sz)" by (auto simp: n_def word_less_nat_alt)
  have p0: "p \<noteq> 0" using heap_inv_apart [OF inv] p by (auto simp: apart_def)
  have "sz \<noteq> 0" using sz(1) by auto
  then have run: "realloc p sz s = kbind (kbind (liballoc_memcpy q p n s1) (\<lambda>s. kbind (free p s) (\<lambda>s. Inr (s, q)))) (\<lambda>(s, a). Inr (set_errno a s, a))"
    using p0 m(1) block_tag [OF inv p] by (simp add: realloc_def liballoc_realloc_r_def n_def)
  have "\<exists>s'. realloc p sz s = Inr (s', q) \<and> heap_inv (insert (q, sz) (B - {(p, m)})) s' \<and> apart (insert (q, sz) (B - {(p, m)})) \<and>
      (\<forall>i<min (unat m) (unat sz). contents s' (q + of_nat i) = contents s (p + of_nat i)) \<and>
      (\<forall>a. unat a < unat q \<or> unat q + unat sz \<le> unat a \<longrightarrow> contents s' a = contents s a)" if q: "q \<noteq> 0"
  proof -
    have "heap_inv (insert (q, sz) B) s1" "\<forall>k. (q, k) \<notin> B" using res q by auto
    from copy_and_free [OF this(1) p this(2) n] obtain s3 where f: "free p (on_bytes (memcpy_loop (unat n) q p) s1) = Inr s3"
        "heap_inv (insert (q, sz) (B - {(p, m)})) s3" "\<forall>i<unat n. contents s3 (q + of_nat i) = contents s1 (p + of_nat i)"
        "\<forall>a. unat a < unat q \<or> unat q + unat sz \<le> unat a \<longrightarrow> contents s3 a = contents s1 a" by blast
    have "realloc p sz s = Inr (s3, q)" using run q f(1) by (simp add: liballoc_memcpy_def set_errno_def)
    then show ?thesis using f heap_inv_apart [OF f(2)] n m(2) by auto
  qed
  moreover have "realloc p sz s = Inl MemFault" if "q = 0" "m \<noteq> 0"
    using run that \<open>sz \<noteq> 0\<close> by (simp add: liballoc_memcpy_def n_def)
  ultimately show ?thesis using m(1) res by blast
qed

text \<open>A program with one block of 100 bytes in an area of 16 pages.\<close>

definition example_block :: libc where
  "example_block = example_libc\<lparr>l_heap := empty_heap\<lparr>
     tags := \<lambda>_. \<lparr>magic = LIBALLOC_MAGIC, tag_size = 100, real_size = 0x10000, tag_index = - 1, split_left = 0, split_right = 0, tag_next = 0, tag_prev = 0\<rparr>,
     l_initialized := True, areas := [(0x1000000, 16)], bytes := ucast\<rparr>\<rparr>"

lemma example_block_ok: "heap_inv {(0x1000020, 100)} example_block"
  unfolding heap_inv_def
proof (intro conjI exI)
  let ?T = "{0x1000000} :: u32 set" and ?h = "l_heap example_block"
  show "page_source (l_pages example_block)" using example_page_source by (simp add: example_block_def example_libc_def)
  have "lists_ok ?T (\<lambda>_. []) ?h" by (simp add: lists_ok_def list_ok_def member_ok_def example_block_def empty_heap_def)
  moreover have "tags_ok ?T ?h"
    by (simp add: tags_ok_def tag_ok_def in_area_def areas_ok_def tag_end_def example_block_def empty_heap_def)
  moreover have "used_ok ?T ?h" by (simp add: used_ok_def example_block_def empty_heap_def)
  ultimately have "heap_ok ?T (\<lambda>_. []) ?h" by (simp add: heap_ok_def)
  then show "user_ok ?T (\<lambda>_. []) ?h" by (simp add: user_ok_def example_block_def)
  show "{(0x1000020, 100)} = blocks ?T ?h" by (auto simp: blocks_def busy_def example_block_def)
qed

theorem realloc_correct_witness:
  "\<exists>s' q. realloc 0x1000020 200 example_block = Inr (s', q) \<and> q \<noteq> 0 \<and> heap_inv {(q, 200)} s' \<and>
     (contents s' (q + 99) = 0x83 \<and> contents s' (q + 1) = 0x21)"
proof -
  obtain s1 q where m: "malloc 200 example_block = Inr (s1, q)"
    and none: "q = 0 \<longrightarrow> l_pages example_block (areas (l_heap example_block)) (page_number (200 + 32)) = 0"
    and some: "q \<noteq> 0 \<longrightarrow> (\<exists>s'. realloc 0x1000020 200 example_block = Inr (s', q) \<and> heap_inv (insert (q, 200) ({(0x1000020, 100)} - {(0x1000020, 100)})) s' \<and>
      (\<forall>i<min (unat (100 :: u32)) (unat (200 :: u32)). contents s' (q + of_nat i) = contents example_block (0x1000020 + of_nat i)))"
    using realloc_correct [OF example_block_ok, of "0x1000020" 100 200] by auto
  have "l_pages example_block (areas (l_heap example_block)) (page_number (200 + 32)) \<noteq> 0"
    by (simp add: example_block_def example_libc_def example_pages_def page_number_def l_pageSize_def l_pageCount_def)
  then obtain s' where s': "realloc 0x1000020 200 example_block = Inr (s', q)" "heap_inv {(q, 200)} s'" "q \<noteq> 0"
    and c: "\<forall>i<100. contents s' (q + of_nat i) = contents example_block (0x1000020 + of_nat i)" using none some by auto
  show ?thesis using s' spec [OF c, of 99] spec [OF c, of 1] by (auto simp: contents_def example_block_def)
qed

end
