(* ===== verification/Streams.thy ===== *)
theory Streams
  imports Pipe Shell
begin

text \<open>
  Two programs and the shell around a pipe: the loops of \<^verbatim>\<open>_write_r\<close> and \<^verbatim>\<open>_read_r\<close> (\<^verbatim>\<open>write.c\<close> and \<^verbatim>\<open>read.c\<close> of the port of newlib), the program
  \<^verbatim>\<open>wc\<close> (\<^verbatim>\<open>programs/wc.c\<close>), and what \<^verbatim>\<open>shellRunCommand\<close> does with the pipe when the writing program has ended. Each program is a state
  machine that makes one system call on the pipe in a step, and is blocked while \<^verbatim>\<open>objectWait\<close> does not return; the steps are interleaved in any order.
\<close>

section \<open>Writing\<close>

text \<open>\<^verbatim>\<open>_write_r\<close>: the buffer, the length that is left and what has been written; \<open>WriteWait\<close> is the call of \<^verbatim>\<open>objectWait\<close>, \<open>WriteDone\<close> the result.
  The loop shortens the length, but never advances \<^verbatim>\<open>ptr\<close>: every call of \<^verbatim>\<open>objectWrite\<close> gets the buffer from its start.
  For an empty buffer the code would return the value of a variable that was never set; a \<open>writer\<close> therefore starts with some data.\<close>

datatype writer = Writing "u8 list" u32 u32 | WriteWait "u8 list" u32 u32 | WriteDone u32

definition pipe_full :: "pipe \<Rightarrow> bool" where
  "pipe_full p \<longleftrightarrow> writePos p - readPos p \<ge> MAX_PIPE_BUFFER_SIZE"

definition pipe_empty :: "pipe \<Rightarrow> bool" where
  "pipe_empty p \<longleftrightarrow> writePos p - readPos p = 0"

definition write_r :: "pipe \<Rightarrow> writer \<Rightarrow> (pipe \<times> writer) option kres" where
  "write_r p w = (case w of
       Writing buf len written \<Rightarrow>
         if len = 0 then Inr (Some (p, WriteDone written))
         else if \<not> writeable p then Inr (Some (p, WriteDone (- 1)))
         else kbind (pipe_put buf len p) (\<lambda>(p, ret).
              let len = len - ret; written = written + ret in
              Inr (Some (p, if len \<noteq> 0 \<and> ret = 0 then WriteWait buf len written else Writing buf len written)))
     | WriteWait buf len written \<Rightarrow> if \<not> writeable p \<or> \<not> pipe_full p then Inr (Some (p, Writing buf len written)) else Inr None
     | WriteDone _ \<Rightarrow> Inr None)"

section \<open>Reading\<close>

text \<open>\<^verbatim>\<open>_read_r\<close> with a buffer of the given size; the bytes read are the result.\<close>

datatype reader = Reading u32 | ReadWait u32 | ReadDone "u8 list"

definition read_r :: "pipe \<Rightarrow> reader \<Rightarrow> (pipe \<times> reader) option kres" where
  "read_r p r = (case r of
       Reading len \<Rightarrow>
         if \<not> writeable p \<and> pipe_empty p then Inr (Some (p, ReadDone []))
         else kbind (pipe_get len p) (\<lambda>(p, data). Inr (Some (p, if data \<noteq> [] then ReadDone data else ReadWait len)))
     | ReadWait len \<Rightarrow> if \<not> writeable p \<or> \<not> pipe_empty p then Inr (Some (p, Reading len)) else Inr None
     | ReadDone _ \<Rightarrow> Inr None)"

text \<open>\<^verbatim>\<open>wc\<close>: the words counted and whether the last byte belongs to a word, at the call of \<^verbatim>\<open>objectWait\<close> and at the one of \<^verbatim>\<open>objectRead\<close>; then
  the number that is printed, or the exit with code 1.\<close>

datatype wc = WcWait u32 bool | WcRead u32 bool | WcExit u32 | WcFail

definition count_byte :: "u8 \<Rightarrow> u32 \<times> bool \<Rightarrow> u32 \<times> bool" where
  "count_byte b cw = (case cw of (count, inWord) \<Rightarrow>
     if inWord then (count, \<not> isspace b) else if isspace b then (count, False) else (count + 1, True))"

definition wc_main :: "pipe \<Rightarrow> wc \<Rightarrow> (pipe \<times> wc) option kres" where
  "wc_main p w = (case w of
       WcWait count inWord \<Rightarrow>
         if \<not> pipe_empty p then Inr (Some (p, WcRead count inWord))
         else if writeable p then Inr None
         else Inr (Some (p, WcExit count))
     | WcRead count inWord \<Rightarrow>
         if \<not> writeable p \<and> pipe_empty p then Inr (Some (p, WcFail))
         else kbind (pipe_get 1024 p) (\<lambda>(p, data). case fold count_byte data (count, inWord) of (count, inWord) \<Rightarrow> Inr (Some (p, WcWait count inWord)))
     | _ \<Rightarrow> Inr None)"

section \<open>The pipeline\<close>

text \<open>\<^verbatim>\<open>objectShutdown(out_pipe, 1)\<close>, which the shell calls when the writing process has ended.\<close>

definition close_write :: "pipe \<Rightarrow> pipe" where
  "close_write p =
     (let p = p\<lparr>writeable := False\<rparr> in
      if writePos p \<noteq> readPos p then p else p\<lparr>buffer := None, psize := 0, writePos := 0, readPos := 0\<rparr>)"

record pipeline =
  pl_pipe :: pipe
  pl_writer :: writer
  pl_closed :: bool
  pl_wc :: wc

datatype turn = Writer | Shell | Counter

definition move :: "turn \<Rightarrow> pipeline \<Rightarrow> pipeline option kres" where
  "move t x = (case t of
       Writer \<Rightarrow> kbind (write_r (pl_pipe x) (pl_writer x)) (\<lambda>r. Inr (map_option (\<lambda>(p, w). x\<lparr>pl_pipe := p, pl_writer := w\<rparr>) r))
     | Counter \<Rightarrow> kbind (wc_main (pl_pipe x) (pl_wc x)) (\<lambda>r. Inr (map_option (\<lambda>(p, w). x\<lparr>pl_pipe := p, pl_wc := w\<rparr>) r))
     | Shell \<Rightarrow> (case pl_writer x of
           WriteDone _ \<Rightarrow> if pl_closed x then Inr None else Inr (Some (x\<lparr>pl_pipe := close_write (pl_pipe x), pl_closed := True\<rparr>))
         | _ \<Rightarrow> Inr None))"

inductive step :: "pipeline \<Rightarrow> pipeline \<Rightarrow> bool" where
  "move t x = Inr (Some y) \<Longrightarrow> step x y"

inductive_simps step_iff: "step x y"

definition start :: "u8 list \<Rightarrow> pipe \<Rightarrow> pipeline" where
  "start data p = \<lparr>pl_pipe = p, pl_writer = Writing data (of_nat (length data)) 0, pl_closed = False, pl_wc = WcWait 0 False\<rparr>"

section \<open>Pipes that are closed\<close>

lemma pipeShutdown_closes:
  assumes "get_pipe a s = Inr p" "queue s (WriteWaiters a) = []" "queue s (ReadWaiters a) = []"
  shows "pipeShutdown sig a 1 s = Inr (set_obj a (Pipe (close_write p)) s)"
proof -
  have a: "a \<noteq> 0" using assms(1) by (auto simp: get_pipe_def object_at_def split: if_splits)
  have get: "get_pipe a (set_obj a (Pipe q) s) = Inr q" for q using a by (simp add: get_pipe_def object_at_def set_obj_def)
  have wake: "queueWakeup sig q True r (set_obj a x s) = Inr (set_obj a x s)" if "queue s q = []" for q r x
    using that by (simp add: queueWakeup_def set_obj_def first_in_def)
  have set: "set_obj a y (set_obj a x s) = set_obj a y s" for x y by (simp add: set_obj_def)
  show ?thesis using assms by (simp add: pipeShutdown_def close_write_def get wake set)
qed

lemma used_data:
  assumes "pipe_ok p"
  shows "unat (writePos p - readPos p) = length (pipe_data p)"
proof (cases "buffer p")
  case None
  then show ?thesis using assms by (simp add: pipe_ok_def pipe_data_def)
next
  case (Some b)
  then have b: "readPos p \<le> writePos p" "unat (writePos p) \<le> length b" using assms by (auto simp: pipe_ok_def word_le_nat_alt)
  then show ?thesis using Some by (simp add: pipe_data_def unat_sub_small)
qed

lemma empty_iff: "pipe_ok p \<Longrightarrow> pipe_empty p \<longleftrightarrow> pipe_data p = []"
  using used_data [of p] by (auto simp: pipe_empty_def simp flip: unat_eq_0)

lemma full_iff: "pipe_ok p \<Longrightarrow> pipe_full p \<longleftrightarrow> 0x10000 \<le> length (pipe_data p)"
  using used_data [of p] by (simp add: pipe_full_def word_le_nat_alt MAX_PIPE_BUFFER_SIZE_def)

lemma close_write_ok:
  assumes "pipe_ok p" "writeable p"
  shows "pipe_ok (close_write p)" "\<not> writeable (close_write p)" "pipe_data (close_write p) = pipe_data p"
proof -
  obtain b where b: "buffer p = Some b" "readPos p \<le> writePos p" using assms by (auto simp: pipe_ok_def split: option.splits)
  show "\<not> writeable (close_write p)" by (simp add: close_write_def Let_def)
  show "pipe_ok (close_write p)" using assms(1) b by (auto simp: close_write_def Let_def pipe_ok_def)
  show "pipe_data (close_write p) = pipe_data p" using b by (auto simp: close_write_def Let_def pipe_data_def)
qed

text \<open>Reading from a closed pipe is reading from an open one, except for the end.\<close>

lemma pipe_get_closed:
  assumes "\<not> writeable p"
  shows "pipe_get len p = kbind (pipe_get len (p\<lparr>writeable := True\<rparr>)) (\<lambda>(q, data).
    Inr (if readPos q = writePos q then q\<lparr>buffer := None, psize := 0, readPos := 0, writePos := 0, writeable := False\<rparr> else q\<lparr>writeable := False\<rparr>, data))"
  using assms by (cases "buffer p") (auto simp: pipe_get_def Let_def kbind_assoc intro!: arg_cong2 [where f = kbind])

lemma pipe_get_ok:
  assumes "pipe_ok p" "pipe_data p \<noteq> []"
  shows "\<exists>p'. pipe_get len p = Inr (p', take (unat len) (pipe_data p)) \<and> pipe_ok p' \<and> writeable p' = writeable p \<and>
    pipe_data p' = drop (unat len) (pipe_data p)"
proof (cases "writeable p")
  case True
  then show ?thesis using pipe_get_spec [of p len] assms(1) by (auto simp: open_pipe_def)
next
  case False
  let ?q = "p\<lparr>writeable := True\<rparr>"
  obtain b where b: "buffer p = Some b" using assms(2) by (auto simp: pipe_data_def split: option.splits)
  have data: "pipe_data ?q = pipe_data p" by (simp add: pipe_data_def split: option.splits)
  have "open_pipe ?q" using assms(1) b by (auto simp: open_pipe_def pipe_ok_def)
  from pipe_get_spec [OF this, of len] obtain q where q: "pipe_get len ?q = Inr (q, take (unat len) (pipe_data p))" "open_pipe q"
      "pipe_data q = drop (unat len) (pipe_data p)" by (auto simp: data)
  have qok: "pipe_ok q" "writeable q" using q(2) by (simp_all add: open_pipe_def)
  define p' where "p' = (if readPos q = writePos q then q\<lparr>buffer := None, psize := 0, readPos := 0, writePos := 0, writeable := False\<rparr> else q\<lparr>writeable := False\<rparr>)"
  have "pipe_get len p = Inr (p', take (unat len) (pipe_data p))" by (simp add: pipe_get_closed [OF False] q(1) p'_def)
  moreover have "pipe_ok p'"
  proof (cases "readPos q = writePos q")
    case True
    then show ?thesis by (simp add: p'_def pipe_ok_def)
  next
    case False
    obtain c where c: "buffer q = Some c" using qok by (auto simp: pipe_ok_def split: option.splits)
    then have "readPos q < writePos q" using qok(1) False by (simp add: pipe_ok_def less_le)
    then show ?thesis using qok(1) False c by (simp add: p'_def pipe_ok_def)
  qed
  moreover have "pipe_data p' = pipe_data q"
  proof (cases "readPos q = writePos q")
    case True
    then have "length (pipe_data q) = 0" using used_data [OF qok(1)] by simp
    then show ?thesis using True by (simp add: p'_def pipe_data_def [of "_\<lparr>buffer := _, psize := _, readPos := _, writePos := _, writeable := _\<rparr>"])
  next
    case False
    then show ?thesis by (simp add: p'_def pipe_data_def split: option.splits)
  qed
  ultimately show ?thesis using q(3) False by (auto simp: p'_def)
qed

text \<open>\<^verbatim>\<open>_read_r\<close> returns what is in the pipe, as far as it fits into the buffer; with an empty buffer it goes round for ever.\<close>

lemma read_r_delivers:
  assumes "pipe_ok p" "pipe_data p \<noteq> []" "len \<noteq> 0"
  shows "\<exists>p'. read_r p (Reading len) = Inr (Some (p', ReadDone (take (unat len) (pipe_data p)))) \<and> pipe_ok p' \<and> pipe_data p' = drop (unat len) (pipe_data p)"
  using pipe_get_ok [OF assms(1,2), of len] empty_iff [OF assms(1)] assms(2,3) by (auto simp: read_r_def unat_eq_0)

lemma read_r_zero:
  assumes "pipe_ok p" "pipe_data p \<noteq> []"
  shows "\<exists>p'. read_r p (Reading 0) = Inr (Some (p', ReadWait 0)) \<and> read_r p' (ReadWait 0) = Inr (Some (p', Reading 0)) \<and> pipe_ok p' \<and> pipe_data p' = pipe_data p"
  using pipe_get_ok [OF assms, of 0] empty_iff assms by (auto simp: read_r_def)

section \<open>Counting words\<close>

text \<open>A word begins at a byte that is no blank and has a blank, or nothing, before it.\<close>

definition word_count :: "u8 list \<Rightarrow> nat" where
  "word_count ds = length (filter (\<lambda>i. \<not> isspace (ds ! i) \<and> (i = 0 \<or> isspace (ds ! (i - 1)))) [0..<length ds])"

lemma word_count_snoc:
  "word_count (ds @ [b]) = word_count ds + (if \<not> isspace b \<and> (ds = [] \<or> isspace (last ds)) then 1 else 0)"
proof -
  have "filter (\<lambda>i. \<not> isspace ((ds @ [b]) ! i) \<and> (i = 0 \<or> isspace ((ds @ [b]) ! (i - 1)))) [0..<length ds] =
      filter (\<lambda>i. \<not> isspace (ds ! i) \<and> (i = 0 \<or> isspace (ds ! (i - 1)))) [0..<length ds]"
    by (rule filter_cong) (auto simp: nth_append)
  then show ?thesis by (cases "ds = []") (auto simp: word_count_def nth_append last_conv_nth)
qed

lemma count_bytes: "fold count_byte ds (0, False) = (of_nat (word_count ds), ds \<noteq> [] \<and> \<not> isspace (last ds))"
proof (induction ds rule: rev_induct)
  case Nil
  then show ?case by (simp add: word_count_def)
next
  case (snoc b ds)
  then show ?case by (auto simp: count_byte_def word_count_snoc)
qed

section \<open>The run of the pipeline\<close>

text \<open>What arrives in the pipe: each call of \<^verbatim>\<open>objectWrite\<close> that takes \<open>k\<close> bytes adds the first \<open>k\<close> bytes of the buffer.\<close>

definition repeated :: "u8 list \<Rightarrow> nat list \<Rightarrow> u8 list" where
  "repeated data ks = concat (map (\<lambda>k. take k data) ks)"

lemma repeated_simps [simp]:
  "repeated data [] = []"
  "repeated data (k # ks) = take k data @ repeated data ks"
  "repeated data (ks @ ls) = repeated data ks @ repeated data ls"
  by (simp_all add: repeated_def)

lemma repeated_none: "sum_list ks = 0 \<Longrightarrow> repeated data ks = []"
  by (induction ks) auto

lemma length_repeated: "sum_list ks \<le> length data \<Longrightarrow> length (repeated data ks) = sum_list ks"
  by (induction ks) auto

fun left_of :: "writer \<Rightarrow> nat" where
  "left_of (Writing buf len n) = unat len"
| "left_of (WriteWait buf len n) = unat len"
| "left_of (WriteDone n) = 0"

fun written_of :: "writer \<Rightarrow> u32" where
  "written_of (Writing buf len n) = n"
| "written_of (WriteWait buf len n) = n"
| "written_of (WriteDone n) = n"

fun writer_ok :: "u8 list \<Rightarrow> writer \<Rightarrow> bool" where
  "writer_ok data (Writing buf len n) \<longleftrightarrow> buf = data"
| "writer_ok data (WriteWait buf len n) \<longleftrightarrow> buf = data \<and> len \<noteq> 0"
| "writer_ok data (WriteDone n) \<longleftrightarrow> True"

text \<open>The calls that have written something: together with what is left they make up the length, and the first one fills the empty pipe.\<close>

definition calls_ok :: "u8 list \<Rightarrow> nat list \<Rightarrow> writer \<Rightarrow> bool" where
  "calls_ok data ks w \<longleftrightarrow> sum_list ks + left_of w = length data \<and> written_of w = of_nat (sum_list ks) \<and>
     (ks \<noteq> [] \<longrightarrow> hd ks = min (length data) 0x10000) \<and> writer_ok data w"

fun counted :: "wc \<Rightarrow> u8 list \<Rightarrow> pipe \<Rightarrow> bool" where
  "counted (WcWait c w) ds p \<longleftrightarrow> (c, w) = fold count_byte ds (0, False)"
| "counted (WcRead c w) ds p \<longleftrightarrow> (c, w) = fold count_byte ds (0, False) \<and> pipe_data p \<noteq> []"
| "counted (WcExit c) ds p \<longleftrightarrow> c = of_nat (word_count ds) \<and> pipe_data p = [] \<and> \<not> writeable p"
| "counted WcFail ds p \<longleftrightarrow> False"

text \<open>\<open>ds\<close> is what \<^verbatim>\<open>wc\<close> has read: with what is in the pipe it makes up what the writer has sent.\<close>

definition running :: "u8 list \<Rightarrow> pipeline \<Rightarrow> bool" where
  "running data x \<longleftrightarrow> (\<exists>ds ks. repeated data ks = ds @ pipe_data (pl_pipe x) \<and> calls_ok data ks (pl_writer x) \<and>
     counted (pl_wc x) ds (pl_pipe x) \<and> pipe_ok (pl_pipe x) \<and>
     (writeable (pl_pipe x) \<longleftrightarrow> \<not> pl_closed x) \<and> (pl_closed x \<longrightarrow> (\<exists>n. pl_writer x = WriteDone n)))"

text \<open>Every step makes this number smaller.\<close>

fun writer_rank :: "writer \<Rightarrow> bool \<Rightarrow> nat" where
  "writer_rank (Writing _ _ _) full = (if full then 3 else 1)"
| "writer_rank (WriteWait _ _ _) full = 2"
| "writer_rank (WriteDone _) full = 0"

fun wc_rank :: "wc \<Rightarrow> nat" where
  "wc_rank (WcWait _ _) = 1"
| "wc_rank _ = 0"

definition rank :: "pipeline \<Rightarrow> nat" where
  "rank x = 10 * (2 * left_of (pl_writer x) + length (pipe_data (pl_pipe x))) +
     writer_rank (pl_writer x) (pipe_full (pl_pipe x)) + wc_rank (pl_wc x) + (if pl_closed x then 0 else 1)"

lemma writer_rank_le: "writer_rank w f \<le> 3" by (cases w) auto
lemma wc_rank_le: "wc_rank w \<le> 1" by (cases w) auto

lemma counted_cong: "pipe_data p' = pipe_data p \<Longrightarrow> writeable p' = writeable p \<Longrightarrow> counted w ds p' = counted w ds p"
  by (cases w) auto

lemma counted_more: "counted w ds p \<Longrightarrow> writeable p \<Longrightarrow> (pipe_data p \<noteq> [] \<Longrightarrow> pipe_data p' \<noteq> []) \<Longrightarrow> counted w ds p'"
  by (cases w) auto

text \<open>A call of \<^verbatim>\<open>objectWrite\<close> for the rest of the length.\<close>

lemma calls_ok_write:
  assumes calls: "calls_ok data ks (Writing data len n)" and k: "unat k = min (unat len) (0x10000 - length used)"
    and data: "repeated data ks = ds @ used" and small: "length data < 2 ^ 31"
    and w: "w = (if len - k \<noteq> 0 \<and> k = 0 then WriteWait data (len - k) (n + k) else Writing data (len - k) (n + k))"
  shows "calls_ok data (ks @ [unat k]) w" "left_of w = unat len - unat k"
proof -
  have sum: "sum_list ks + unat len = length data" "n = of_nat (sum_list ks)" "ks \<noteq> [] \<Longrightarrow> hd ks = min (length data) 0x10000"
    using calls by (auto simp: calls_ok_def)
  have le: "k \<le> len" using k by (simp add: word_le_nat_alt)
  show left: "left_of w = unat len - unat k" using le by (simp add: w unat_sub_small)
  have n: "n + k = of_nat (sum_list (ks @ [unat k]))" using sum(2) by simp
  have hd: "hd (ks @ [unat k]) = min (length data) 0x10000"
  proof (cases "ks = []")
    case True
    then show ?thesis using k data sum(1) by simp
  qed (use sum(3) in simp)
  have "sum_list (ks @ [unat k]) + left_of w = length data" using sum(1) left le by (simp add: word_le_nat_alt)
  moreover have "written_of w = of_nat (sum_list (ks @ [unat k]))" "writer_ok data w" using n by (auto simp: w)
  ultimately show "calls_ok data (ks @ [unat k]) w" using hd by (simp add: calls_ok_def)
qed

lemma write_call:
  assumes run: "running data x" and w: "pl_writer x = Writing buf len n" "len \<noteq> 0" and small: "length data < 2 ^ 31"
  shows "\<exists>y. move Writer x = Inr (Some y) \<and> running data y \<and> rank y < rank x"
proof -
  let ?p = "pl_pipe x"
  obtain ds ks where ds: "repeated data ks = ds @ pipe_data ?p" "calls_ok data ks (Writing data len n)" "counted (pl_wc x) ds ?p" "pipe_ok ?p"
      "writeable ?p \<longleftrightarrow> \<not> pl_closed x" "\<not> pl_closed x" "buf = data"
    using run w by (auto simp: running_def calls_ok_def)
  have wr: "writeable ?p" "open_pipe ?p" using ds by (simp_all add: open_pipe_def)
  have len: "unat len \<le> length data" using ds(2) by (simp add: calls_ok_def)
  from pipe_put_spec [OF wr(2) len] obtain p' k where put: "pipe_put data len ?p = Inr (p', k)"
      "open_pipe p'" "unat k = min (unat len) (0x10000 - length (pipe_data ?p))" "pipe_data p' = pipe_data ?p @ take (unat k) data" by auto
  define w' where "w' = (if len - k \<noteq> 0 \<and> k = 0 then WriteWait data (len - k) (n + k) else Writing data (len - k) (n + k))"
  let ?y = "x\<lparr>pl_pipe := p', pl_writer := w'\<rparr>"
  note calls = calls_ok_write [OF ds(2) put(3) ds(1) small w'_def]
  have p': "pipe_ok p'" "writeable p'" using put(2) by (simp_all add: open_pipe_def)
  have mv: "move Writer x = Inr (Some ?y)" using w wr put(1) ds(7) by (simp add: move_def write_r_def Let_def w'_def)
  have "repeated data (ks @ [unat k]) = ds @ pipe_data p'" using ds(1) put(4) by simp
  moreover have "counted (pl_wc x) ds p'" by (rule counted_more [OF ds(3) wr(1)]) (use put(4) in auto)
  ultimately have "running data ?y" using calls(1) p' ds(5,6) unfolding running_def by (intro exI [of _ ds] exI [of _ "ks @ [unat k]"]) simp
  moreover have "rank ?y < rank x"
  proof (cases "k = 0")
    case True
    have "0 < unat len" using w(2) by (simp add: unat_gt_0)
    then have "0x10000 - length (pipe_data ?p) = 0" using put(3) True by (auto simp: min_def split: if_splits)
    then have full: "pipe_full ?p" "pipe_data p' = pipe_data ?p" using put(4) True ds(4) by (auto simp: full_iff)
    then have "pipe_full p'" using full_iff [OF p'(1)] full_iff [OF ds(4)] by simp
    moreover have "w' = WriteWait data len n" using True w(2) by (simp add: w'_def)
    ultimately show ?thesis using full w by (simp add: rank_def)
  next
    case False
    then have "0 < unat k" by (simp add: unat_gt_0)
    moreover have "unat k \<le> unat len" "length (take (unat k) data) = unat k" using put(3) len by auto
    ultimately show ?thesis using put(4) w calls(2) writer_rank_le [of w' "pipe_full p'"] by (simp add: rank_def)
  qed
  ultimately show ?thesis using mv by blast
qed

text \<open>The other steps of the writer, and the steps of the shell and of \<^verbatim>\<open>wc\<close>.\<close>

lemma write_moves:
  assumes run: "running data x" and len: "length data < 2 ^ 31"
  shows "\<exists>r. move Writer x = Inr r \<and> (\<forall>y. r = Some y \<longrightarrow> running data y \<and> rank y < rank x)"
proof (cases "pl_writer x")
  case (Writing buf len n)
  show ?thesis
  proof (cases "len = 0")
    case True
    then have "move Writer x = Inr (Some (x\<lparr>pl_writer := WriteDone n\<rparr>))" using Writing by (simp add: move_def write_r_def)
    moreover have "running data (x\<lparr>pl_writer := WriteDone n\<rparr>)" using run Writing True by (auto simp: running_def calls_ok_def)
    moreover have "rank (x\<lparr>pl_writer := WriteDone n\<rparr>) < rank x" using Writing by (simp add: rank_def)
    ultimately show ?thesis by auto
  next
    case False
    then show ?thesis using write_call [OF run Writing False len] by auto
  qed
next
  case (WriteWait buf len n)
  let ?y = "x\<lparr>pl_writer := Writing buf len n\<rparr>"
  have w: "writeable (pl_pipe x)" using run WriteWait by (auto simp: running_def)
  have "running data ?y" using run WriteWait by (auto simp: running_def calls_ok_def)
  moreover have "rank ?y < rank x" if "\<not> pipe_full (pl_pipe x)" using WriteWait that by (simp add: rank_def)
  ultimately show ?thesis using WriteWait w by (auto simp: move_def write_r_def)
next
  case (WriteDone n)
  then show ?thesis by (simp add: move_def write_r_def)
qed

lemma shell_moves:
  assumes run: "running data x"
  shows "\<exists>r. move Shell x = Inr r \<and> (\<forall>y. r = Some y \<longrightarrow> running data y \<and> rank y < rank x)"
proof (cases "\<exists>n. pl_writer x = WriteDone n \<and> \<not> pl_closed x")
  case True
  then obtain n where n: "pl_writer x = WriteDone n" "\<not> pl_closed x" by blast
  let ?y = "x\<lparr>pl_pipe := close_write (pl_pipe x), pl_closed := True\<rparr>"
  have ok: "pipe_ok (pl_pipe x)" "writeable (pl_pipe x)" using run n by (auto simp: running_def)
  note c = close_write_ok [OF ok]
  obtain ds ks where ds: "repeated data ks = ds @ pipe_data (pl_pipe x)" "calls_ok data ks (pl_writer x)" "counted (pl_wc x) ds (pl_pipe x)"
    using run by (auto simp: running_def)
  have "counted (pl_wc x) ds (close_write (pl_pipe x))" by (rule counted_more [OF ds(3) ok(2)]) (simp add: c)
  then have "running data ?y" using ds c n by (auto simp: running_def)
  moreover have "rank ?y < rank x" using n c by (simp add: rank_def)
  moreover have "move Shell x = Inr (Some ?y)" using n by (simp add: move_def)
  ultimately show ?thesis by auto
next
  case False
  then show ?thesis by (cases "pl_writer x") (auto simp: move_def)
qed

lemma wc_moves:
  assumes run: "running data x"
  shows "\<exists>r. move Counter x = Inr r \<and> (\<forall>y. r = Some y \<longrightarrow> running data y \<and> rank y < rank x)"
proof -
  let ?p = "pl_pipe x"
  obtain ds ks where ds: "repeated data ks = ds @ pipe_data ?p" "calls_ok data ks (pl_writer x)" "pipe_ok ?p" "counted (pl_wc x) ds ?p" "pipe_ok ?p" "writeable ?p \<longleftrightarrow> \<not> pl_closed x" "pl_closed x \<longrightarrow> (\<exists>n. pl_writer x = WriteDone n)"
    using run by (auto simp: running_def)
  have keep: "running data (x\<lparr>pl_wc := w\<rparr>)" if "counted w ds ?p" for w using ds that by (auto simp: running_def)
  show ?thesis
  proof (cases "pl_wc x")
    case (WcWait c w)
    have "counted (WcRead c w) ds ?p" if "pipe_data ?p \<noteq> []" using ds(4) WcWait that by simp
    moreover have "counted (WcExit c) ds ?p" if "pipe_data ?p = []" "\<not> writeable ?p" using ds(4) WcWait that by (simp add: count_bytes)
    ultimately show ?thesis using WcWait empty_iff [OF ds(5)] keep [of "WcRead c w"] keep [of "WcExit c"]
      by (auto simp: move_def wc_main_def rank_def)
  next
    case (WcRead c w)
    then have ne: "pipe_data ?p \<noteq> []" "(c, w) = fold count_byte ds (0, False)" using ds(4) by auto
    from pipe_get_ok [OF ds(5) ne(1), of 1024] obtain p' where get: "pipe_get 1024 ?p = Inr (p', take 1024 (pipe_data ?p))" "pipe_ok p'"
        "writeable p' = writeable ?p" "pipe_data p' = drop 1024 (pipe_data ?p)" by auto
    let ?d = "take 1024 (pipe_data ?p)"
    obtain c' w' where cw: "fold count_byte ?d (c, w) = (c', w')" by fastforce
    let ?y = "x\<lparr>pl_pipe := p', pl_wc := WcWait c' w'\<rparr>"
    have mv: "move Counter x = Inr (Some ?y)" using WcRead get(1) cw empty_iff [OF ds(5)] ne(1) by (simp add: move_def wc_main_def)
    have "fold count_byte (ds @ ?d) (0, False) = (c', w')" using cw ne(2) by simp
    moreover have "repeated data ks = (ds @ ?d) @ pipe_data p'" using ds(1) get(4) by simp
    ultimately have "running data ?y" using ds(2,6,7) get(2,3) unfolding running_def by (intro exI [of _ "ds @ ?d"] exI [of _ ks]) simp
    moreover have "rank ?y < rank x"
    proof -
      have "length (pipe_data p') < length (pipe_data ?p)" using ne(1) get(4) by (cases "pipe_data ?p") simp_all
      then show ?thesis using WcRead writer_rank_le [of "pl_writer x" "pipe_full p'"] by (simp add: rank_def)
    qed
    ultimately show ?thesis using mv by auto
  qed (use ds in \<open>auto simp: move_def wc_main_def\<close>)
qed

lemma moves:
  assumes "running data x" "length data < 2 ^ 31"
  shows "\<exists>r. move t x = Inr r \<and> (\<forall>y. r = Some y \<longrightarrow> running data y \<and> rank y < rank x)"
  using write_moves [OF assms] shell_moves [OF assms(1)] wc_moves [OF assms(1)] by (cases t) auto

lemma step_running:
  assumes "running data x" "length data < 2 ^ 31" "step x y"
  shows "running data y" "rank y < rank x"
proof -
  obtain t where "move t x = Inr (Some y)" using assms(3) by (auto simp: step_iff)
  then show "running data y" "rank y < rank x" using moves [OF assms(1,2), of t] by auto
qed

lemma steps_running:
  assumes "(step ^^ n) x y" "running data x" "length data < 2 ^ 31"
  shows "running data y \<and> rank y + n \<le> rank x"
  using assms(1)
proof (induction n arbitrary: y)
  case 0
  then show ?case using assms(2) by simp
next
  case (Suc n)
  then obtain z where z: "(step ^^ n) x z" "step z y" by auto
  then show ?case using Suc.IH [OF z(1)] step_running [OF _ assms(3) z(2)] by fastforce
qed

text \<open>The pipeline stops only when everything is done.\<close>

lemma stuck_done:
  assumes run: "running data x" and stuck: "\<nexists>y. step x y"
    and len: "length data < 2 ^ 31" and ne: "data \<noteq> []"
  shows "pl_writer x = WriteDone (of_nat (length data)) \<and> pl_closed x \<and>
    (\<exists>ks. sum_list ks = length data - 0x10000 \<and> pl_wc x = WcExit (of_nat (word_count (take 0x10000 data @ repeated data ks))))"
proof -
  let ?p = "pl_pipe x"
  obtain ds ks where ds: "repeated data ks = ds @ pipe_data ?p" "calls_ok data ks (pl_writer x)" "pipe_ok ?p" "counted (pl_wc x) ds ?p" "pipe_ok ?p" "writeable ?p \<longleftrightarrow> \<not> pl_closed x" "pl_closed x \<longrightarrow> (\<exists>n. pl_writer x = WriteDone n)"
    using run by (auto simp: running_def)
  have no: "move t x = Inr None" for t
  proof -
    obtain r where "move t x = Inr r" using moves [OF run len, of t] by blast
    then show ?thesis using stuck by (cases r) (auto simp: step_iff)
  qed
  have "\<exists>c. pl_wc x = WcExit c"
  proof (cases "pl_wc x")
    case (WcWait c w)
    then have wait: "pipe_empty ?p" "writeable ?p" using no [of Counter] by (auto simp: move_def wc_main_def split: if_splits)
    then have "\<not> pipe_full ?p" using ds(5) by (simp add: empty_iff full_iff)
    then show ?thesis using no [of Writer] no [of Shell] wait ds(6)
      by (cases "pl_writer x") (auto simp: move_def write_r_def Let_def kbind_eq_Inr split: if_splits)
  next
    case (WcRead c w)
    then show ?thesis using no [of Counter] by (auto simp: move_def wc_main_def kbind_eq_Inr split: if_splits prod.splits)
  qed (use ds(4) in auto)
  then obtain c where c: "pl_wc x = WcExit c" by blast
  then have "pipe_data ?p = []" "pl_closed x" "c = of_nat (word_count ds)" using ds(4,6) by auto
  moreover from this obtain n where n: "pl_writer x = WriteDone n" using ds(7) by blast
  moreover have "sum_list ks = length data" "n = of_nat (length data)" "ks \<noteq> [] \<Longrightarrow> hd ks = min (length data) 0x10000" using ds(2) n by (auto simp: calls_ok_def)
  moreover from this obtain k ls where ks: "ks = k # ls" "k = min (length data) 0x10000" "sum_list ls = length data - 0x10000" using ne by (cases ks) auto
  moreover have "take k data = take 0x10000 data" using ks(2) by (simp add: min_def)
  ultimately show ?thesis using ds(1) c by auto
qed

lemma start_running:
  assumes "open_pipe p" "pipe_data p = []" "length data < 2 ^ 31"
  shows "running data (start data p)" "rank (start data p) \<le> 20 * length data + 3"
proof -
  have ok: "pipe_ok p" "writeable p" using assms(1) by (simp_all add: open_pipe_def)
  have len: "unat (of_nat (length data) :: u32) = length data" using assms(3) by (simp add: unat_word_of_nat_small)
  show "running data (start data p)" using assms(2) ok len by (auto simp: running_def start_def calls_ok_def intro!: exI [of _ "[]"])
  have "\<not> pipe_full p" using full_iff [OF ok(1)] assms(2) by simp
  then show "rank (start data p) \<le> 20 * length data + 3" using assms(2) len by (simp add: rank_def start_def)
qed

text \<open>
  C9: A program that writes data with \<^verbatim>\<open>_write_r\<close> into an empty pipe, \<^verbatim>\<open>wc\<close> at the other end, and the shell that closes the pipe when the writer has
  ended, each making its system calls at any time. In every interleaving no call fails, the run ends after at most 20 steps for each byte and 3 more, and
  it does not stop (no program waits for ever) before the writer has returned the length of the data and \<^verbatim>\<open>wc\<close> has printed a number of words. For data
  that fits into the pipe, up to 64 KB, it is the number of words in the data; longer data arrives wrong, because \<^verbatim>\<open>_write_r\<close> sends the start of the buffer
  again after the first 64 KB: the rest that \<^verbatim>\<open>wc\<close> counts is made of pieces \<open>take k data\<close>.
\<close>

theorem pipeline_counts_words:
  assumes "open_pipe p" "pipe_data p = []" "data \<noteq> []" "length data < 2 ^ 31" "(step ^^ n) (start data p) x"
  shows "n \<le> 20 * length data + 3 \<and> (\<forall>t. \<exists>r. move t x = Inr r) \<and>
    ((\<exists>y. step x y) \<or>
     pl_writer x = WriteDone (of_nat (length data)) \<and> pl_closed x \<and>
     (\<exists>ks. sum_list ks = length data - 0x10000 \<and> pl_wc x = WcExit (of_nat (word_count (take 0x10000 data @ repeated data ks)))) \<and>
     (length data \<le> 0x10000 \<longrightarrow> pl_wc x = WcExit (of_nat (word_count data))))"
proof -
  note s = start_running [OF assms(1,2,4)]
  from steps_running [OF assms(5) s(1) assms(4)] have x: "running data x" "rank x + n \<le> rank (start data p)" by auto
  have "n \<le> 20 * length data + 3" using x(2) s(2) by simp
  moreover have "\<exists>r. move t x = Inr r" for t using moves [OF x(1) assms(4), of t] by blast
  moreover have "pl_writer x = WriteDone (of_nat (length data)) \<and> pl_closed x \<and>
     (\<exists>ks. sum_list ks = length data - 0x10000 \<and> pl_wc x = WcExit (of_nat (word_count (take 0x10000 data @ repeated data ks)))) \<and>
     (length data \<le> 0x10000 \<longrightarrow> pl_wc x = WcExit (of_nat (word_count data)))" if "\<nexists>y. step x y"
    using stuck_done [OF x(1) that assms(4,3)] by (auto simp: repeated_none)
  ultimately show ?thesis by blast
qed

definition new_pipe :: pipe where
  "new_pipe = \<lparr>buffer = Some (replicate (unat MIN_PIPE_BUFFER_SIZE) 0), psize = MIN_PIPE_BUFFER_SIZE, writePos = 0, readPos = 0, writeable = True\<rparr>"

text \<open>The run in which the writer writes everything first.\<close>

theorem pipeline_counts_words_witness:
  "\<exists>x. (step ^^ 1) (start [0x61, 0x20, 0x62] new_pipe) x \<and> (\<forall>t. \<exists>r. move t x = Inr r) \<and> word_count [0x61, 0x20, 0x62] = 2 \<and>
     ((\<exists>y. step x y) \<or> pl_wc x = WcExit 2)"
proof -
  let ?d = "[0x61, 0x20, 0x62] :: u8 list"
  have p: "open_pipe new_pipe" "pipe_data new_pipe = []" using new_pipe_open by (simp_all add: new_pipe_def pipe_data_def)
  have "running ?d (start ?d new_pipe)" using start_running(1) [OF p] by simp
  from write_call [OF this] obtain x where "move Writer (start ?d new_pipe) = Inr (Some x)" by (auto simp: start_def)
  then have st: "(step ^^ 1) (start ?d new_pipe) x" unfolding relpowp_1 by (rule step.intros)
  have wc: "word_count ?d = 2" by code_simp
  show ?thesis using pipeline_counts_words [OF p _ _ st] st wc by auto
qed

end
