(* ===== verification/Posix.thy ===== *)
theory Posix
  imports Prelude
begin

text \<open>
  The functions of the port of newlib (\<^verbatim>\<open>newlib/libc/sys/ibnos\<close>) that turn the POSIX interface into system calls. A function is a tree: it
  returns, or makes a system call and goes on with the answer. What the kernel answers is not restricted, so that a statement about all answers
  covers every state of the kernel and every failure. The inline functions of \<^verbatim>\<open>syscall.h\<close> that return \<^verbatim>\<open>bool\<close> are part of the model.
\<close>

unbundle bit_operations_syntax

section \<open>Functions and system calls\<close>

datatype call =
    SearchFile "u8 list" bool
  | SearchDirectory "u8 list" bool
  | OpenFile u32
  | CloseObject u32
  | ShutdownObject u32 u32
  | GetStatus u32 u32
  | SignalObject u32 u32
  | DupObject u32
  | Dup2Object u32 u32
  | NewPipe
  | ForkProcess
  | ReadObject u32 nat

datatype 'r libcall = Result 'r | Call call "u32 \<Rightarrow> 'r libcall"

text \<open>The value of \<^verbatim>\<open>errno\<close>, if it is set, and the result.\<close>

type_synonym result = "u32 option \<times> u32"

definition ENOENT :: u32 where "ENOENT = 2"
definition EBADF :: u32 where "EBADF = 9"
definition ENOMEM :: u32 where "ENOMEM = 12"
definition EACCES :: u32 where "EACCES = 13"
definition EFAULT :: u32 where "EFAULT = 14"
definition EINVAL :: u32 where "EINVAL = 22"
definition EMFILE :: u32 where "EMFILE = 24"
definition O_APPEND :: u32 where "O_APPEND = 0x0008"
definition O_CREAT :: u32 where "O_CREAT = 0x0200"
definition O_TRUNC :: u32 where "O_TRUNC = 0x0400"
definition O_DIRECTORY :: u32 where "O_DIRECTORY = 0x10000"
definition S_IFDIR :: u32 where "S_IFDIR = 0x4000"
definition S_IFREG :: u32 where "S_IFREG = 0x8000"

text \<open>An answer as \<^verbatim>\<open>bool\<close>.\<close>

definition as_bool :: "u32 \<Rightarrow> u32" where
  "as_bool a = (if a \<noteq> 0 then 1 else 0)"

definition close_r :: "u32 \<Rightarrow> result libcall" where
  "close_r fd = Call (CloseObject fd) (\<lambda>a. if as_bool a = 0 then Result (Some EBADF, - 1) else Result (Some 0, 0))"

definition dup :: "u32 \<Rightarrow> result libcall" where
  "dup oldfd = Call (DupObject oldfd) (\<lambda>newfd. Result (Some (if sint newfd < 0 then EBADF else 0), newfd))"

definition dup2 :: "u32 \<Rightarrow> u32 \<Rightarrow> result libcall" where
  "dup2 oldfd newfd = Call (Dup2Object oldfd newfd) (\<lambda>r. Result (Some (if sint r < 0 then EBADF else 0), r))"

definition fork_r :: "result libcall" where
  "fork_r = Call ForkProcess (\<lambda>pid. Result (Some (if sint pid < 0 then ENOMEM else 0), pid))"

text \<open>\<^verbatim>\<open>_lseek_r\<close>; \<^verbatim>\<open>objectSignal\<close> sets the position, and its result is a \<^verbatim>\<open>bool\<close>.\<close>

definition seek_to :: "u32 \<Rightarrow> u32 \<Rightarrow> result libcall" where
  "seek_to fd pos = Call (SignalObject fd pos) (\<lambda>a.
     let ret = as_bool a in Result (Some (if sint ret < 0 then EINVAL else 0), if sint ret < 0 then - 1 else pos))"

definition lseek_r :: "u32 \<Rightarrow> u32 \<Rightarrow> u32 \<Rightarrow> result libcall" where
  "lseek_r fd pos whence =
     (if whence = 1 then Call (GetStatus fd 1) (\<lambda>offset. if offset = - 1 then Result (Some EBADF, - 1) else seek_to fd (pos + offset))
      else if whence = 2 then Call (GetStatus fd 0) (\<lambda>offset. if offset = - 1 then Result (Some EBADF, - 1) else seek_to fd (pos + offset))
      else seek_to fd pos)"

text \<open>\<^verbatim>\<open>_open_r\<close>: what follows \<^verbatim>\<open>O_TRUNC\<close> and \<^verbatim>\<open>O_APPEND\<close> is done with the opened file.\<close>

definition open_append :: "u32 \<Rightarrow> u32 \<Rightarrow> result libcall" where
  "open_append flags ret =
     (if flags AND O_APPEND \<noteq> 0 then Call (GetStatus ret 0) (\<lambda>n. Call (SignalObject ret n) (\<lambda>_. Result (Some 0, ret))) else Result (Some 0, ret))"

definition open_truncate :: "u32 \<Rightarrow> u32 \<Rightarrow> result libcall" where
  "open_truncate flags ret =
     (if flags AND O_TRUNC \<noteq> 0 then Call (SignalObject ret 0) (\<lambda>_. Call (ShutdownObject ret 0) (\<lambda>_. open_append flags ret)) else open_append flags ret)"

definition open_r :: "u8 list \<Rightarrow> u32 \<Rightarrow> result libcall" where
  "open_r path flags =
     Call (if flags AND O_DIRECTORY \<noteq> 0 then SearchDirectory path False else SearchFile path (flags AND O_CREAT \<noteq> 0)) (\<lambda>fileobj.
     if sint fileobj < 0 then Result (Some ENOENT, - 1)
     else Call (OpenFile fileobj) (\<lambda>ret. Call (CloseObject fileobj) (\<lambda>_.
          if sint ret < 0 then Result (Some EACCES, - 1) else open_truncate flags ret)))"

text \<open>\<^verbatim>\<open>pipe\<close>, with the two entries of the array as they are left.\<close>

definition pipe_r :: "bool \<Rightarrow> (result \<times> u32 list) libcall" where
  "pipe_r null =
     (if null then Result ((Some EFAULT, - 1), [])
      else Call NewPipe (\<lambda>fd0.
           if sint fd0 \<ge> 0
           then Call (DupObject fd0) (\<lambda>fd1. if sint fd1 \<ge> 0 then Result ((Some 0, 0), [fd0, fd1]) else Result ((Some EMFILE, - 1), [fd0, fd1]))
           else Result ((Some EMFILE, - 1), [fd0])))"

text \<open>\<^verbatim>\<open>_fstat_r\<close> and \<^verbatim>\<open>_stat_r\<close>, with the fields \<^verbatim>\<open>st_mode\<close> and \<^verbatim>\<open>st_size\<close>.\<close>

definition fstat_r :: "u32 \<Rightarrow> bool \<Rightarrow> (result \<times> u32 \<times> u32) libcall" where
  "fstat_r fd null =
     (if null then Result ((Some EFAULT, - 1), 0, 0)
      else Call (GetStatus fd 0) (\<lambda>n. Result (if sint n < 0 then (Some EBADF, - 1) else (Some 0, 0), S_IFREG, n)))"

definition stat_r :: "u8 list \<Rightarrow> (result \<times> u32 \<times> u32) libcall" where
  "stat_r path =
     Call (SearchFile path False) (\<lambda>f.
     if sint f \<ge> 0
     then Call (GetStatus f 0) (\<lambda>n. Call (CloseObject f) (\<lambda>_. Result ((None, 0), S_IFREG, n)))
     else Call (SearchDirectory path False) (\<lambda>d.
          if sint d \<ge> 0 then Call (CloseObject d) (\<lambda>_. Result ((None, 0), S_IFDIR, 0))
          else Result ((Some ENOENT, - 1), 0, 0)))"

text \<open>\<^verbatim>\<open>_unlink_r\<close>; the result of \<^verbatim>\<open>objectShutdown\<close> is a \<^verbatim>\<open>bool\<close>.\<close>

definition unlink_r :: "u8 list \<Rightarrow> result libcall" where
  "unlink_r path =
     Call (SearchFile path False) (\<lambda>f.
     if sint f < 0 then Result (Some ENOENT, - 1)
     else Call (ShutdownObject f 0) (\<lambda>a. Call (CloseObject f) (\<lambda>_.
          if sint (as_bool a) < 0 then Result (Some EACCES, - 1) else Result (None, 0))))"

text \<open>\<^verbatim>\<open>getdents\<close>: the size of a directory entry, 0 at the end.\<close>

definition getdents :: "u32 \<Rightarrow> u32 libcall" where
  "getdents fd = Call (ReadObject fd 256) (\<lambda>ret. Result (if sint ret < 0 then 0 else 268))"

section \<open>Running a function\<close>

text \<open>\<open>ans k c\<close> is the kernel's answer to the \<open>k\<close>-th call.\<close>

primrec run :: "(nat \<Rightarrow> call \<Rightarrow> u32) \<Rightarrow> nat \<Rightarrow> 'r libcall \<Rightarrow> (call \<times> u32) list \<times> 'r" where
  "run ans k (Result r) = ([], r)"
| "run ans k (Call c f) = (let a = ans k c; (calls, r) = run ans (k + 1) (f a) in ((c, a) # calls, r))"

text \<open>The handles that a list of calls leaves open.\<close>

fun handle_step :: "call \<times> u32 \<Rightarrow> u32 list \<Rightarrow> u32 list" where
  "handle_step (SearchFile _ _, a) hs = (if sint a < 0 then hs else a # hs)"
| "handle_step (SearchDirectory _ _, a) hs = (if sint a < 0 then hs else a # hs)"
| "handle_step (OpenFile _, a) hs = (if sint a < 0 then hs else a # hs)"
| "handle_step (DupObject _, a) hs = (if sint a < 0 then hs else a # hs)"
| "handle_step (NewPipe, a) hs = (if sint a < 0 then hs else a # hs)"
| "handle_step (CloseObject h, _) hs = remove1 h hs"
| "handle_step _ hs = hs"

definition open_handles :: "(call \<times> u32) list \<Rightarrow> u32 list" where
  "open_handles calls = fold handle_step calls []"

lemmas posix_defs = open_r_def open_truncate_def open_append_def stat_r_def unlink_r_def pipe_r_def open_handles_def Let_def


section \<open>Properties\<close>

text \<open>
  C38: Handles. Whatever the kernel answers, \<^verbatim>\<open>_open_r\<close> leaves exactly the handle it returns open and none if it fails, and \<^verbatim>\<open>_stat_r\<close> and \<^verbatim>\<open>_unlink_r\<close> leave none.
  \<^verbatim>\<open>pipe\<close> leaves its two handles open if it succeeds; but if the second one cannot be made, the first one stays open although the call fails.
\<close>

theorem posix_handles:
  "(\<exists>calls e r. run ans k (open_r path flags) = (calls, e, r) \<and> open_handles calls = (if sint r < 0 then [] else [r])) \<and>
   open_handles (fst (run ans k (stat_r path))) = [] \<and> open_handles (fst (run ans k (unlink_r path))) = [] \<and>
   (\<exists>calls e r fds. run ans k (pipe_r False) = (calls, (e, r), fds) \<and>
      open_handles calls = (if r = 0 then rev fds else filter (\<lambda>fd. 0 \<le> sint fd) fds) \<and> (r = 0 \<longleftrightarrow> length (open_handles calls) = 2))"
proof (intro conjI)
  show "\<exists>calls e r fds. run ans k (pipe_r False) = (calls, (e, r), fds) \<and>
      open_handles calls = (if r = 0 then rev fds else filter (\<lambda>fd. 0 \<le> sint fd) fds) \<and> (r = 0 \<longleftrightarrow> length (open_handles calls) = 2)"
    by (auto simp: posix_defs)
qed (auto simp: posix_defs)

text \<open>
  \<^verbatim>\<open>_lseek_r\<close> from the start of the file reports success for every handle, also for one that does not exist, and \<^verbatim>\<open>_unlink_r\<close> for every file that is
  found, also if the kernel did not remove it: the results of \<^verbatim>\<open>objectSignal\<close> and \<^verbatim>\<open>objectShutdown\<close> are \<^verbatim>\<open>bool\<close>s, which are never negative.
\<close>

theorem posix_failures_ignored:
  "run ans k (lseek_r fd pos 0) = ([(SignalObject fd pos, ans k (SignalObject fd pos))], Some 0, pos) \<and>
   snd (run ans k (unlink_r path)) = (if sint (ans k (SearchFile path False)) < 0 then (Some ENOENT, - 1) else (None, 0))"
  by (auto simp: lseek_r_def seek_to_def unlink_r_def as_bool_def Let_def)

end
